(* ===== verification/Prelude.thy ===== *)
theory Prelude
  imports Main "HOL-Library.Word" "HOL-Library.Monad_Syntax"
begin

text \<open>
  Shared ground of the development: names for the machine types of the C sources, checked
  reads and writes of C arrays (an access out of bounds is \<open>None\<close>, so that every theorem
  that an operation returns \<open>Some\<close> is also a memory-safety statement), the little-endian
  layout of integers in memory, and the decimal text of integers as the C library prints it.
\<close>

unbundle bit_operations_syntax

named_theorems mem_simps \<open>rewrite rules for checked array accesses\<close>
named_theorems le_simps \<open>rewrite rules for little-endian layouts\<close>
named_theorems dec_simps \<open>rewrite rules for decimal text\<close>

type_synonym byte = "8 word"
type_synonym u16 = "16 word"
type_synonym u32 = "32 word"
type_synonym u64 = "64 word"

subsection \<open>Checked array accesses\<close>

text \<open>
  A C array is a list; an index is an \<open>int\<close>, so that a subtraction that goes below zero
  (or wraps around) is out of range and not silently 0.
\<close>

definition arr_get :: "'a list \<Rightarrow> int \<Rightarrow> 'a option" where
  "arr_get xs i = (if 0 \<le> i \<and> i < int (length xs) then Some (xs ! nat i) else None)"

definition arr_set :: "'a list \<Rightarrow> int \<Rightarrow> 'a \<Rightarrow> 'a list option" where
  "arr_set xs i x = (if 0 \<le> i \<and> i < int (length xs) then Some (xs[nat i := x]) else None)"

text \<open>\<open>memcpy\<close> out of and into a block, and \<open>memmove\<close> inside one block.\<close>

definition mem_read :: "'a list \<Rightarrow> nat \<Rightarrow> nat \<Rightarrow> 'a list option" where
  "mem_read m off n = (if off + n \<le> length m then Some (take n (drop off m)) else None)"

definition mem_write :: "'a list \<Rightarrow> nat \<Rightarrow> 'a list \<Rightarrow> 'a list option" where
  "mem_write m off xs =
     (if off + length xs \<le> length m
      then Some (take off m @ xs @ drop (off + length xs) m) else None)"

definition mem_move :: "'a list \<Rightarrow> nat \<Rightarrow> nat \<Rightarrow> nat \<Rightarrow> 'a list option" where
  "mem_move m dst src n = do { xs \<leftarrow> mem_read m src n; mem_write m dst xs }"

text \<open>\<open>realloc\<close>: the common prefix is kept, the bytes beyond it are unspecified (\<open>junk\<close>).\<close>

definition mem_resize :: "(nat \<Rightarrow> 'a) \<Rightarrow> 'a list \<Rightarrow> nat \<Rightarrow> 'a list" where
  "mem_resize junk m n = take n m @ map junk [length m..<n]"

lemma arr_get_in [mem_simps]: "i < length xs \<Longrightarrow> arr_get xs (int i) = Some (xs ! i)"
  by (simp add: arr_get_def)

lemma arr_set_in [mem_simps]: "i < length xs \<Longrightarrow> arr_set xs (int i) x = Some (xs[i := x])"
  by (simp add: arr_set_def)

lemma length_mem_write: "mem_write m off xs = Some m' \<Longrightarrow> length m' = length m"
  by (auto simp: mem_write_def split: if_splits)

lemma length_mem_resize [simp]: "length (mem_resize junk m n) = n"
  by (simp add: mem_resize_def)

lemma take_mem_resize: "k \<le> n \<Longrightarrow> k \<le> length m \<Longrightarrow> take k (mem_resize junk m n) = take k m"
  by (simp add: mem_resize_def)

lemma mem_read_0 [mem_simps]: "n \<le> length m \<Longrightarrow> mem_read m 0 n = Some (take n m)"
  by (simp add: mem_read_def)

lemma mem_write_append: "length b = length xs \<Longrightarrow> mem_write (a @ b @ c) (length a) xs = Some (a @ xs @ c)"
  by (simp add: mem_write_def)

lemma mem_read_append: "mem_read (a @ b @ c) (length a) (length b) = Some b"
  by (simp add: mem_read_def)

subsection \<open>Signed and unsigned readings of a word\<close>

lemma uint_eq_sint_mod: "uint (w :: 'a::len word) = sint w mod 2 ^ LENGTH('a)"
proof -
  have "uint (word_of_int (sint w) :: 'a word) = sint w mod 2 ^ LENGTH('a)"
    by (rule uint_word_of_int)
  then show ?thesis by (simp only: of_int_sint scast_id)
qed

lemma uint_eq_sint:
  assumes "0 \<le> sint (w :: 'a::len word)"
  shows "uint w = sint w"
proof -
  have "(2::int) ^ (LENGTH('a) - 1) \<le> 2 ^ LENGTH('a)" by (intro power_increasing) auto
  then have "sint w < 2 ^ LENGTH('a)" using sint_lt[of w] by linarith
  then show ?thesis using assms by (subst uint_eq_sint_mod) (rule mod_pos_pos_trivial)
qed

lemma uint_uminus_sint: "uint (- w) = (- sint (w :: 'a::len word)) mod 2 ^ LENGTH('a)"
proof -
  have "uint (word_of_int (- sint w) :: 'a word) = (- sint w) mod 2 ^ LENGTH('a)"
    by (rule uint_word_of_int)
  then show ?thesis by (simp only: of_int_minus of_int_sint scast_id)
qed

subsection \<open>Little-endian integers in memory\<close>

fun le_val :: "byte list \<Rightarrow> nat" where
  "le_val [] = 0"
| "le_val (b # bs) = unat b + 256 * le_val bs"

fun le_bytes :: "nat \<Rightarrow> nat \<Rightarrow> byte list" where
  "le_bytes 0 n = []"
| "le_bytes (Suc k) n = of_nat n # le_bytes k (n div 256)"

lemma length_le_bytes [simp]: "length (le_bytes k n) = k"
  by (induction k arbitrary: n) auto

lemma unat_of_nat_byte [simp]: "unat (of_nat n :: byte) = n mod 256"
  by (simp add: unat_of_nat)

lemma unat_byte_less [simp]: "unat (b :: byte) < 256"
  using unsigned_less[where 'a = nat, of b] by simp

lemma le_val_le_bytes [le_simps]: "le_val (le_bytes k n) = n mod 256 ^ k"
proof (induction k arbitrary: n)
  case (Suc k)
  then show ?case by (simp add: mod_mult2_eq)
qed simp

lemma le_val_bound: "le_val bs < 256 ^ length bs"
proof (induction bs)
  case (Cons b bs)
  have carry: "c < 256 \<Longrightarrow> x < y \<Longrightarrow> c + 256 * x < 256 * y" for c x y :: nat
    by arith
  from carry[OF unat_byte_less Cons] show ?case by simp
qed simp

lemma le_bytes_le_val [le_simps]: "le_bytes (length bs) (le_val bs) = bs"
proof (induction bs)
  case (Cons b bs)
  have "unat (of_nat (unat b + 256 * le_val bs) :: byte) = unat b"
    by (simp only: unat_of_nat_byte) simp
  then have "(of_nat (unat b + 256 * le_val bs) :: byte) = b"
    by (simp only: word_unat_eq_iff)
  moreover have "(unat b + 256 * le_val bs) div 256 = le_val bs"
    by simp
  ultimately show ?case using Cons by (simp del: of_nat_add of_nat_mult)
qed simp

text \<open>Two's complement of \<open>k\<close> bytes.\<close>

definition signed_of :: "nat \<Rightarrow> nat \<Rightarrow> int" where
  "signed_of k n = (if n < 2 ^ (8 * k - 1) then int n else int n - 2 ^ (8 * k))"

definition of_signed :: "nat \<Rightarrow> int \<Rightarrow> nat" where
  "of_signed k v = nat (v mod 2 ^ (8 * k))"

definition fits :: "nat \<Rightarrow> int \<Rightarrow> bool" where
  "fits k v \<longleftrightarrow> - (2 ^ (8 * k - 1)) \<le> v \<and> v < 2 ^ (8 * k - 1)"

lemma pow256: "(256::nat) ^ k = 2 ^ (8 * k)"
  by (simp add: power_mult)

lemma of_signed_bound: "of_signed k v < 256 ^ k"
  by (simp add: of_signed_def pow256 nat_less_iff)

lemma signed_of_signed [le_simps]:
  assumes "0 < k" and "fits k v"
  shows "signed_of k (of_signed k v) = v"
proof -
  obtain m where m: "8 * k = Suc m" using \<open>0 < k\<close> by (cases "8 * k") auto
  have p: "(2::int) ^ (8 * k) = 2 * 2 ^ m" by (simp add: m)
  from assms(2) have b: "- (2 ^ m) \<le> v" "v < 2 ^ m"
    by (simp_all add: fits_def m)
  show ?thesis
  proof (cases "0 \<le> v")
    case True
    with b have "v mod (2 * 2 ^ m) = v" by (simp add: mod_pos_pos_trivial)
    with True b show ?thesis
      by (simp add: signed_of_def of_signed_def p m nat_less_iff)
  next
    case False
    have "v mod (2 * 2 ^ m) = (v + 2 * 2 ^ m) mod (2 * 2 ^ m)" by simp
    also have "\<dots> = v + 2 * 2 ^ m"
      using False b by (intro mod_pos_pos_trivial) linarith+
    finally have e: "v mod (2 * 2 ^ m) = v + 2 * 2 ^ m" .
    show ?thesis using b False
      by (simp add: signed_of_def of_signed_def p m nat_less_iff e)
  qed
qed

lemma signed_of_fits: "0 < k \<Longrightarrow> n < 256 ^ k \<Longrightarrow> fits k (signed_of k n)"
proof -
  assume k: "0 < k" and n: "n < 256 ^ k"
  obtain m where m: "8 * k = Suc m" using k by (cases "8 * k") auto
  have "int n < int (2 * 2 ^ m)"
    using n by (simp only: pow256 m of_nat_less_iff power_Suc)
  then have "int n < 2 * 2 ^ m" by simp
  moreover have "n < 2 ^ m \<longleftrightarrow> int n < 2 ^ m"
    by (metis of_nat_less_iff of_nat_numeral of_nat_power)
  ultimately show ?thesis
    by (auto simp: fits_def signed_of_def m)
qed

lemma fits_mono: "fits k v \<Longrightarrow> k \<le> l \<Longrightarrow> 0 < k \<Longrightarrow> fits l v"
proof -
  assume f: "fits k v" and kl: "k \<le> l" "0 < k"
  have "(2::int) ^ (8 * k - 1) \<le> 2 ^ (8 * l - 1)"
    using kl by (intro power_increasing) auto
  with f show ?thesis unfolding fits_def by linarith
qed

subsection \<open>Decimal text\<close>

definition digit_char :: "nat \<Rightarrow> char" where
  "digit_char d = char_of (48 + d)"

definition is_digit :: "char \<Rightarrow> bool" where
  "is_digit c \<longleftrightarrow> 48 \<le> (of_char c :: nat) \<and> (of_char c :: nat) \<le> 57"

definition digit_val :: "char \<Rightarrow> nat" where
  "digit_val c = of_char c - 48"

fun dec_nat :: "nat \<Rightarrow> string" where
  "dec_nat n = (if n < 10 then [digit_char n] else dec_nat (n div 10) @ [digit_char (n mod 10)])"

declare dec_nat.simps [simp del]

definition dec_int :: "int \<Rightarrow> string" where
  "dec_int i = (if i < 0 then CHR ''-'' # dec_nat (nat (- i)) else dec_nat (nat i))"

definition dec_val :: "string \<Rightarrow> nat" where
  "dec_val s = foldl (\<lambda>a c. 10 * a + digit_val c) 0 s"

lemma of_char_digit_char [simp]: "d < 10 \<Longrightarrow> (of_char (digit_char d) :: nat) = 48 + d"
  by (simp add: digit_char_def)

lemma is_digit_digit_char [simp]: "d < 10 \<Longrightarrow> is_digit (digit_char d)"
  by (simp add: is_digit_def)

lemma digit_val_digit_char [simp]: "d < 10 \<Longrightarrow> digit_val (digit_char d) = d"
  by (simp add: digit_val_def)

lemma digit_char_digit_val [simp]: "is_digit c \<Longrightarrow> digit_char (digit_val c) = c"
  by (simp add: digit_char_def digit_val_def is_digit_def)

lemma digit_val_less [simp]: "is_digit c \<Longrightarrow> digit_val c < 10"
  by (auto simp: digit_val_def is_digit_def)

lemma dec_val_Nil [simp]: "dec_val [] = 0"
  by (simp add: dec_val_def)

lemma dec_val_snoc [simp]: "dec_val (s @ [c]) = 10 * dec_val s + digit_val c"
  by (simp add: dec_val_def)

lemma dec_nat_nonempty [simp]: "dec_nat n \<noteq> []"
  by (subst dec_nat.simps) simp

lemma dec_nat_digits: "list_all is_digit (dec_nat n)"
proof (induction n rule: dec_nat.induct)
  case (1 n)
  then show ?case by (subst dec_nat.simps) auto
qed

lemma dec_val_dec_nat [simp]: "dec_val (dec_nat n) = n"
proof (induction n rule: dec_nat.induct)
  case (1 n)
  show ?case
  proof (cases "n < 10")
    case True
    then have "dec_nat n = [] @ [digit_char n]" by (subst dec_nat.simps) simp
    with True show ?thesis by (metis dec_val_snoc dec_val_Nil digit_val_digit_char mult_0_right add_0)
  next
    case False
    then show ?thesis using 1 by (subst dec_nat.simps) simp
  qed
qed

lemma hd_dec_nat: "0 < n \<Longrightarrow> hd (dec_nat n) \<noteq> CHR ''0''"
proof (induction n rule: dec_nat.induct)
  case (1 n)
  show ?case
  proof (cases "n < 10")
    case True
    have "digit_char n \<noteq> CHR ''0''"
    proof
      assume "digit_char n = CHR ''0''"
      then have "(of_char (digit_char n) :: nat) = of_char CHR ''0''" by simp
      with True 1 show False by simp
    qed
    with True show ?thesis by (subst dec_nat.simps) simp
  next
    case False
    with 1 show ?thesis by (subst dec_nat.simps) simp
  qed
qed

text \<open>Canonical digit strings are exactly the decimal texts.\<close>

definition canonical :: "string \<Rightarrow> bool" where
  "canonical s \<longleftrightarrow> s \<noteq> [] \<and> list_all is_digit s \<and> (length s = 1 \<or> hd s \<noteq> CHR ''0'')"

lemma canonical_dec_nat: "canonical (dec_nat n)"
proof (cases "n = 0")
  case True
  then show ?thesis by (subst dec_nat.simps) (simp add: canonical_def)
next
  case False
  then show ?thesis by (simp add: canonical_def dec_nat_digits hd_dec_nat)
qed

lemma dec_val_pos: "list_all is_digit s \<Longrightarrow> s \<noteq> [] \<Longrightarrow> hd s \<noteq> CHR ''0'' \<Longrightarrow> 0 < dec_val s"
proof (induction s rule: rev_induct)
  case (snoc c s)
  show ?case
  proof (cases "s = []")
    case True
    have "digit_val c \<noteq> 0"
    proof
      assume "digit_val c = 0"
      with snoc.prems True have "c = digit_char 0" using digit_char_digit_val[of c] by simp
      moreover have "digit_char 0 = CHR ''0''" by (simp add: digit_char_def char_of_def bit_simps)
      ultimately show False using snoc.prems True by simp
    qed
    with True show ?thesis using dec_val_snoc[of "[]" c] by simp
  next
    case False
    with snoc show ?thesis by simp
  qed
qed simp

lemma dec_nat_dec_val: "canonical s \<Longrightarrow> dec_nat (dec_val s) = s"
proof (induction s rule: rev_induct)
  case Nil
  then show ?case by (simp add: canonical_def)
next
  case (snoc c s)
  then have c: "is_digit c" by (simp add: canonical_def)
  show ?case
  proof (cases "s = []")
    case True
    with c show ?thesis using dec_val_snoc[of "[]" c] by (subst dec_nat.simps) simp
  next
    case False
    with snoc.prems have s: "list_all is_digit s" "hd s \<noteq> CHR ''0''"
      by (auto simp: canonical_def)
    then have IH: "dec_nat (dec_val s) = s"
      using snoc.IH False by (simp add: canonical_def)
    have "0 < dec_val s" using dec_val_pos s False by blast
    with digit_val_less[OF c] have "(10 * dec_val s + digit_val c) div 10 = dec_val s"
      "(10 * dec_val s + digit_val c) mod 10 = digit_val c" "\<not> 10 * dec_val s + digit_val c < 10"
      by simp_all
    with IH c show ?thesis by (subst dec_nat.simps) simp
  qed
qed

lemma dec_nat_inj [simp]: "dec_nat m = dec_nat n \<longleftrightarrow> m = n"
  by (metis dec_val_dec_nat)

lemma length_dec_nat_le: "n < 10 ^ k \<Longrightarrow> 0 < k \<Longrightarrow> length (dec_nat n) \<le> k"
proof (induction k arbitrary: n)
  case (Suc k)
  show ?case
  proof (cases "n < 10")
    case True
    then show ?thesis by (subst dec_nat.simps) simp
  next
    case False
    with Suc.prems have "n div 10 < 10 ^ k" "0 < k" by (auto intro: gr0I)
    with Suc.IH have "length (dec_nat (n div 10)) \<le> k" by blast
    with False show ?thesis by (subst dec_nat.simps) simp
  qed
qed simp

lemma length_dec_nat_ge: "10 ^ k \<le> n \<Longrightarrow> k < length (dec_nat n)"
proof (induction k arbitrary: n)
  case (Suc k)
  then have "10 ^ k \<le> n div 10" "\<not> n < 10"
    by (simp_all add: less_eq_div_iff_mult_less_eq) (metis Suc.prems le_trans not_less one_le_numeral one_le_power power_Suc mult.right_neutral mult_le_mono2)
  with Suc.IH have "k < length (dec_nat (n div 10))" by blast
  with \<open>\<not> n < 10\<close> show ?case by (subst dec_nat.simps) simp
qed simp

lemma length_dec_nat: "10 ^ k \<le> n \<Longrightarrow> n < 10 ^ Suc k \<Longrightarrow> length (dec_nat n) = Suc k"
  using length_dec_nat_ge[of k n] length_dec_nat_le[of n "Suc k"] by simp

end
