(* ===== verification/Util.thy ===== *)
theory Util
  imports Prelude
begin

text \<open>
  Integer/text conversion of the Redis server, \<^verbatim>\<open>redis/src/util.c\<close>: \<open>digits10\<close>,
  \<open>ll2string\<close>, \<open>string2ll\<close> and \<open>string2l\<close>.  Texts are lists of characters of known length
  (the C functions take a pointer and a length).  An \<open>unsigned long long\<close> is a 64-bit word,
  so the overflow tests of the parser are tests on words.
\<close>

subsection \<open>Model\<close>

fun digits10 :: "nat \<Rightarrow> nat" where
  "digits10 v =
    (if v < 10 then 1
     else if v < 100 then 2
     else if v < 1000 then 3
     else if v < 1000000000000 then
       (if v < 100000000 then
          (if v < 1000000 then
             (if v < 10000 then 4 else 5 + (if v \<ge> 100000 then 1 else 0))
           else 7 + (if v \<ge> 10000000 then 1 else 0))
        else if v < 10000000000 then 9 + (if v \<ge> 1000000000 then 1 else 0)
        else 11 + (if v \<ge> 100000000000 then 1 else 0))
     else 12 + digits10 (v div 1000000000000))"

declare digits10.simps [simp del]

definition digits_table :: string where
  "digits_table =
     ''0001020304050607080910111213141516171819'' @
     ''2021222324252627282930313233343536373839'' @
     ''4041424344454647484950515253545556575859'' @
     ''6061626364656667686970717273747576777879'' @
     ''8081828384858687888990919293949596979899''"

text \<open>The loop that writes two digits at a time, from the end of the buffer.\<close>

fun ll2string_loop :: "string \<Rightarrow> nat \<Rightarrow> int \<Rightarrow> (string \<times> nat \<times> int) option" where
  "ll2string_loop dst value next =
    (if value \<ge> 100 then
       do { let i = int ((value mod 100) * 2);
            c1 \<leftarrow> arr_get digits_table (i + 1);
            dst \<leftarrow> arr_set dst next c1;
            c0 \<leftarrow> arr_get digits_table i;
            dst \<leftarrow> arr_set dst (next - 1) c0;
            ll2string_loop dst (value div 100) (next - 2) }
     else Some (dst, value, next))"

declare ll2string_loop.simps [simp del]

definition ll2string_digits :: "string \<Rightarrow> nat \<Rightarrow> int \<Rightarrow> string option" where
  "ll2string_digits dst value next =
     do { (dst, value, next) \<leftarrow> ll2string_loop dst value next;
          if value < 10 then arr_set dst next (char_of (48 + value))
          else do { let i = int (value * 2);
                    c1 \<leftarrow> arr_get digits_table (i + 1);
                    dst \<leftarrow> arr_set dst next c1;
                    c0 \<leftarrow> arr_get digits_table i;
                    arr_set dst (next - 1) c0 } }"

abbreviation LLONG_MAX :: u64 where "LLONG_MAX \<equiv> 0x7FFFFFFFFFFFFFFF"
abbreviation LLONG_MIN :: u64 where "LLONG_MIN \<equiv> 0x8000000000000000"

definition ll2string :: "string \<Rightarrow> nat \<Rightarrow> u64 \<Rightarrow> (string \<times> nat) option" where
  "ll2string dst dstlen svalue =
    (let negative = sint svalue < 0;
         value = (if negative then
                    (if svalue \<noteq> LLONG_MIN then unat (- svalue) else unat (LLONG_MAX + 1))
                  else unat svalue);
         len = digits10 value + (if negative then 1 else 0)
     in if len \<ge> dstlen then Some (dst, 0)
        else do { dst \<leftarrow> arr_set dst (int len) (CHR 0x00);
                  dst \<leftarrow> ll2string_digits dst value (int len - 1);
                  dst \<leftarrow> (if negative then arr_set dst 0 (CHR ''-'') else Some dst);
                  Some (dst, len) })"

text \<open>The digit loop of the parser: \<open>None\<close> on overflow, else the value and the unread text.\<close>

fun string2ll_loop :: "u64 \<Rightarrow> string \<Rightarrow> (u64 \<times> string) option" where
  "string2ll_loop v [] = Some (v, [])"
| "string2ll_loop v (c # p) =
     (if is_digit c then
        (if v > (- 1) div 10 then None
         else let v10 = v * 10
              in if v10 > (- 1) - of_nat (digit_val c) then None
                 else string2ll_loop (v10 + of_nat (digit_val c)) p)
      else Some (v, c # p))"

definition string2ll :: "string \<Rightarrow> int option" where
  "string2ll s =
    (if length s = 0 then None
     else if length s = 1 \<and> s ! 0 = CHR ''0'' then Some 0
     else let negative = (s ! 0 = CHR ''-'');
              p = (if negative then tl s else s)
          in if p = [] then None
             else if 49 \<le> (of_char (p ! 0) :: nat) \<and> (of_char (p ! 0) :: nat) \<le> 57 then
               (case string2ll_loop (of_nat (of_char (p ! 0) - 48)) (tl p) of
                  None \<Rightarrow> None
                | Some (v, rest) \<Rightarrow>
                    if rest \<noteq> [] then None
                    else if negative then
                      (if v > LLONG_MIN then None else Some (sint (- v)))
                    else
                      (if v > LLONG_MAX then None else Some (sint v)))
             else if p ! 0 = CHR ''0'' \<and> length s = 1 then Some 0
             else None)"

text \<open>\<open>long\<close> has 32 bits on the Windows target the repository ships.\<close>

definition string2l :: "string \<Rightarrow> int option" where
  "string2l s =
    (case string2ll s of
       None \<Rightarrow> None
     | Some llval \<Rightarrow> if llval < - (2 ^ 31) \<or> llval > 2 ^ 31 - 1 then None else Some llval)"

subsection \<open>Number of digits\<close>

lemma dec_nat_split:
  assumes "10 ^ k \<le> n"
  shows "length (dec_nat n) = k + length (dec_nat (n div 10 ^ k))"
  using assms
proof (induction k arbitrary: n)
  case (Suc k)
  have "10 \<le> n" using Suc.prems by (metis le_trans one_le_numeral one_le_power power_Suc mult.right_neutral mult_le_mono2)
  then have "length (dec_nat n) = Suc (length (dec_nat (n div 10)))"
    by (subst dec_nat.simps) simp
  moreover have "10 ^ k \<le> n div 10" using Suc.prems by (simp add: less_eq_div_iff_mult_less_eq)
  ultimately show ?case using Suc.IH[of "n div 10"] by (simp add: div_mult2_eq)
qed simp

lemma digits10_correct: "digits10 v = length (dec_nat v)"
proof (induction v rule: digits10.induct)
  case (1 v)
  have len: "10 ^ k \<le> v \<Longrightarrow> v < 10 ^ Suc k \<Longrightarrow> length (dec_nat v) = Suc k" for k
    by (rule length_dec_nat)
  show ?case
  proof (cases "v < 1000000000000")
    case True
    have one: "v < 10 \<Longrightarrow> length (dec_nat v) = 1" by (subst dec_nat.simps) simp
    show ?thesis using True one len[of 1] len[of 2] len[of 3] len[of 4] len[of 5] len[of 6]
        len[of 7] len[of 8] len[of 9] len[of 10] len[of 11]
      by (subst digits10.simps) (simp add: not_less)
  next
    case False
    then have "length (dec_nat v) = 12 + length (dec_nat (v div 1000000000000))"
      using dec_nat_split[of 12 v] by simp
    then show ?thesis using False 1 by (subst digits10.simps) simp
  qed
qed

subsection \<open>Printing\<close>

lemma digits_table_get:
  assumes "i < 100"
  shows "arr_get digits_table (int (i * 2)) = Some (digit_char (i div 10))"
    and "arr_get digits_table (int (i * 2) + 1) = Some (digit_char (i mod 10))"
proof -
  have "list_all (\<lambda>i. arr_get digits_table (int (i * 2)) = Some (digit_char (i div 10)) \<and>
          arr_get digits_table (int (i * 2) + 1) = Some (digit_char (i mod 10))) [0..<100]"
    by code_simp
  with assms show "arr_get digits_table (int (i * 2)) = Some (digit_char (i div 10))"
    and "arr_get digits_table (int (i * 2) + 1) = Some (digit_char (i mod 10))"
    by (auto simp: list_all_iff)
qed

lemma dec_nat_two_digits:
  "10 \<le> v \<Longrightarrow> v < 100 \<Longrightarrow> dec_nat v = [digit_char (v div 10), digit_char (v mod 10)]"
  by (subst dec_nat.simps, subst dec_nat.simps) simp

lemma dec_nat_two_steps:
  assumes "100 \<le> v"
  shows "dec_nat v = dec_nat (v div 100) @ [digit_char (v mod 100 div 10), digit_char (v mod 100 mod 10)]"
proof -
  have "v mod 100 = 10 * (v div 10 mod 10) + v mod 10"
    using mod_mult2_eq[of v 10 10] by simp
  then have "v mod 100 div 10 = v div 10 mod 10" "v mod 100 mod 10 = v mod 10" by simp_all
  moreover have "v div 10 div 10 = v div 100" by (simp add: div_mult2_eq[symmetric])
  moreover have "dec_nat (v div 10) = dec_nat (v div 10 div 10) @ [digit_char (v div 10 mod 10)]"
    using assms by (subst dec_nat.simps) simp
  moreover have "dec_nat v = dec_nat (v div 10) @ [digit_char (v mod 10)]"
    using assms by (subst dec_nat.simps) simp
  ultimately show ?thesis by simp
qed

lemma drop_two_updates:
  assumes "Suc i < length xs"
  shows "drop i (xs[Suc i := b, i := a]) = a # b # drop (Suc (Suc i)) xs"
    and "take i (xs[Suc i := b, i := a]) = take i xs"
proof -
  have "drop i xs = xs ! i # xs ! Suc i # drop (Suc (Suc i)) xs"
    using assms by (simp add: Cons_nth_drop_Suc)
  then obtain p x y q where xs: "xs = p @ x # y # q" and p: "i = length p"
    using assms that[of "take i xs"] append_take_drop_id[of i xs] by (metis length_take min.absorb4 Suc_lessD)
  show "drop i (xs[Suc i := b, i := a]) = a # b # drop (Suc (Suc i)) xs"
    and "take i (xs[Suc i := b, i := a]) = take i xs"
    unfolding xs p by (simp_all add: list_update_append)
qed

lemma ll2string_digits_correct:
  assumes "st + length (dec_nat v) \<le> length dst"
    and "next = int st + int (length (dec_nat v)) - 1"
  shows "ll2string_digits dst v next =
     Some (take st dst @ dec_nat v @ drop (st + length (dec_nat v)) dst)"
  using assms
proof (induction dst v "next" rule: ll2string_loop.induct)
  case (1 dst v "next")
  show ?case
  proof (cases "100 \<le> v")
    case False
    then have loop: "ll2string_loop dst v next = Some (dst, v, next)"
      by (subst ll2string_loop.simps) simp
    show ?thesis
    proof (cases "v < 10")
      case True
      have d: "dec_nat v = [digit_char v]" using True by (subst dec_nat.simps) simp
      then have "st < length dst" "next = int st" using 1(2,3) by auto
      then show ?thesis using True loop
        by (simp add: ll2string_digits_def d arr_set_in digit_char_def upd_conv_take_nth_drop)
    next
      case F2: False
      have d: "dec_nat v = [digit_char (v div 10), digit_char (v mod 10)]"
        using False F2 dec_nat_two_digits by simp
      then have b: "Suc st < length dst" "next = int (Suc st)" "next - 1 = int st"
        using 1(2,3) by auto
      have s1: "arr_set dst next x = Some (dst[Suc st := x])" for x
        using b by (simp only: arr_set_in b(2))
      have s2: "arr_set (dst[Suc st := x]) (next - 1) y = Some (dst[Suc st := x, st := y])" for x y
        using b(1) unfolding b(3) by (subst arr_set_in) auto
      have "v < 100" using False by simp
      note g = digits_table_get[OF this]
      have "dst[Suc st := x, st := y] = take st dst @ y # x # drop (Suc (Suc st)) dst" for x y
        using drop_two_updates[OF b(1), of x y] append_take_drop_id[of st "dst[Suc st := x, st := y]"]
        by simp
      then show ?thesis using F2 loop g s1 s2
        by (simp add: ll2string_digits_def d Let_def)
    qed
  next
    case True
    define m where "m = length (dec_nat (v div 100))"
    have d: "dec_nat v = dec_nat (v div 100) @ [digit_char (v mod 100 div 10), digit_char (v mod 100 mod 10)]"
      by (rule dec_nat_two_steps[OF True])
    then have L: "length (dec_nat v) = m + 2" by (simp add: m_def)
    have b: "Suc (st + m) < length dst" "next = int (Suc (st + m))" "next - 1 = int (st + m)"
      using 1(2,3) L by auto
    let ?dst = "dst[Suc (st + m) := digit_char (v mod 100 mod 10), st + m := digit_char (v mod 100 div 10)]"
    have "v mod 100 < 100" by simp
    note g = digits_table_get[OF this]
    have s1: "arr_set dst next x = Some (dst[Suc (st + m) := x])" for x
      using b by (simp only: arr_set_in b(2))
    have s2: "arr_set (dst[Suc (st + m) := x]) (next - 1) y = Some (dst[Suc (st + m) := x, st + m := y])" for x y
      using b(1) unfolding b(3) by (subst arr_set_in) auto
    have loop: "ll2string_loop dst v next = ll2string_loop ?dst (v div 100) (next - 2)"
      using True g s1 s2 by (subst ll2string_loop.simps) (simp add: Let_def)
    have "ll2string_digits ?dst (v div 100) (next - 2) =
        Some (take st ?dst @ dec_nat (v div 100) @ drop (st + length (dec_nat (v div 100))) ?dst)"
      by (rule 1(1)[OF True refl g(2) s1 g(1) s2]) (use b in \<open>simp_all add: m_def\<close>)
    moreover have "take st ?dst = take st dst" by (simp add: take_update_cancel)
    moreover have "drop (st + m) ?dst =
        digit_char (v mod 100 div 10) # digit_char (v mod 100 mod 10) # drop (Suc (Suc (st + m))) dst"
      by (rule drop_two_updates[OF b(1)])
    ultimately have "ll2string_digits ?dst (v div 100) (next - 2) =
        Some (take st dst @ dec_nat v @ drop (st + length (dec_nat v)) dst)"
      by (simp add: d L flip: m_def)
    then show ?thesis unfolding ll2string_digits_def loop .
  qed
qed

text \<open>
  \<open>ll2string\<close> writes the decimal text of its argument and a terminating NUL when the buffer
  is large enough, and leaves the buffer alone otherwise; it never writes out of bounds.
\<close>

lemma ll2string_value:
  "(if sint (w :: u64) < 0
    then (if w \<noteq> LLONG_MIN then unat (- w) else unat (LLONG_MAX + 1)) else unat w)
   = nat \<bar>sint w\<bar>"
proof (cases "sint w < 0")
  case True
  have r: "- (2 ^ 63) \<le> sint w" using sint_ge[of w] by simp
  have "uint (- w) = (- sint w) mod 2 ^ 64" using uint_uminus_sint[of w] by simp
  also have "\<dots> = - sint w" using True r by (intro mod_pos_pos_trivial) simp_all
  finally have "unat (- w) = nat (- sint w)" by (simp add: unat_eq_nat_uint)
  moreover have "w = LLONG_MIN \<Longrightarrow> unat (LLONG_MAX + 1) = nat (- sint w)" by simp
  ultimately show ?thesis using True by auto
next
  case False
  then show ?thesis using uint_eq_sint[of w] by (simp add: unat_eq_nat_uint)
qed

lemma length_dec_int:
  "length (dec_int i) = length (dec_nat (nat \<bar>i\<bar>)) + (if i < 0 then 1 else 0)"
  by (simp add: dec_int_def)

lemma ll2string_spec:
  fixes w :: u64
  assumes "dstlen \<le> length dst"
  defines "txt \<equiv> dec_int (sint w)"
  shows "ll2string dst dstlen w =
    (if dstlen \<le> length txt then Some (dst, 0)
     else Some (txt @ CHR 0x00 # drop (Suc (length txt)) dst, length txt))"
proof (cases "dstlen \<le> length txt")
  case True
  then show ?thesis
    unfolding ll2string_def Let_def ll2string_value digits10_correct
    by (simp add: txt_def length_dec_int)
next
  case False
  define n where "n = nat \<bar>sint w\<bar>"
  define k :: nat where "k = (if sint w < 0 then 1 else 0)"
  have L: "length txt = length (dec_nat n) + k"
    by (simp add: txt_def length_dec_int n_def k_def)
  have lt: "length txt < length dst" using False assms(1) by simp
  let ?dst = "dst[length txt := CHR 0x00]"
  have set0: "arr_set dst (int (length txt)) (CHR 0x00) = Some ?dst"
    using lt by (rule arr_set_in)
  have dg: "ll2string_digits ?dst n (int (length txt) - 1) =
      Some (take k ?dst @ dec_nat n @ drop (length txt) ?dst)"
    using ll2string_digits_correct[of k n ?dst "int (length txt) - 1"] lt
    by (simp add: L add.commute)
  have dr: "drop (length txt) ?dst = CHR 0x00 # drop (Suc (length txt)) dst"
    using lt by (simp add: upd_conv_take_nth_drop)
  have sg: "(if sint w < 0 then arr_set (take k ?dst @ dec_nat n @ drop (length txt) ?dst) 0 (CHR ''-'')
        else Some (take k ?dst @ dec_nat n @ drop (length txt) ?dst))
      = Some (txt @ CHR 0x00 # drop (Suc (length txt)) dst)"
  proof (cases "sint w < 0")
    case True
    then have k: "k = Suc 0" by (simp add: k_def)
    obtain x xs where "?dst = x # xs" using lt by (cases ?dst) auto
    then have tk: "take k ?dst = [x]" by (simp add: k)
    have t: "txt = CHR ''-'' # dec_nat n" using True by (simp add: txt_def dec_int_def n_def)
    show ?thesis using True unfolding dr tk by (simp add: arr_set_def t)
  next
    case neg: False
    have "txt = dec_nat n" using neg by (simp add: txt_def dec_int_def n_def)
    then show ?thesis using neg unfolding dr by (simp add: k_def)
  qed
  show ?thesis using False
    unfolding ll2string_def Let_def ll2string_value digits10_correct
      n_def[symmetric] k_def[symmetric] L[symmetric]
    by (simp add: set0 dg sg)
qed

subsection \<open>Parsing\<close>

lemma foldl_digits_ge: "(a :: nat) \<le> foldl (\<lambda>a c. 10 * a + digit_val c) a p"
proof (induction p arbitrary: a)
  case (Cons c p)
  have "a \<le> 10 * a + digit_val c" by simp
  also have "\<dots> \<le> foldl (\<lambda>a c. 10 * a + digit_val c) (10 * a + digit_val c) p" by (rule Cons)
  finally show ?case by simp
qed simp

lemma string2ll_step:
  assumes "is_digit c"
  shows "(v :: u64) > (- 1) div 10 \<or> v * 10 > (- 1) - of_nat (digit_val c)
     \<longleftrightarrow> 2 ^ 64 \<le> 10 * unat v + digit_val c"
    and "10 * unat v + digit_val c < 2 ^ 64 \<Longrightarrow>
       unat (v * 10 + of_nat (digit_val c)) = 10 * unat v + digit_val c"
proof -
  have d: "digit_val c < 10" using assms by simp
  have ud: "unat (of_nat (digit_val c) :: u64) = digit_val c"
    using d by (simp add: unat_of_nat)
  have m: "unat ((- 1 :: u64) div 10) = 1844674407370955161" by simp
  have um: "unat (v * 10) = 10 * unat v" if "unat v \<le> 1844674407370955161"
    using that by (simp add: unat_word_ariths)
  have us: "unat ((- 1 :: u64) - of_nat (digit_val c)) = 18446744073709551615 - digit_val c"
  proof -
    have "unat (- 1 :: u64) = 18446744073709551615" by (simp add: unsigned_minus_1_eq_mask mask_eq_exp_minus_1)
    moreover have "(of_nat (digit_val c) :: u64) \<le> - 1" by simp
    ultimately show ?thesis using ud by (simp only: unat_sub)
  qed
  have "v > (- 1) div 10 \<longleftrightarrow> 1844674407370955161 < unat v"
    by (simp only: word_less_nat_alt m)
  moreover have "v * 10 > (- 1) - of_nat (digit_val c) \<longleftrightarrow> 18446744073709551615 - digit_val c < unat (v * 10)"
    by (simp only: word_less_nat_alt us)
  ultimately show "v > (- 1) div 10 \<or> v * 10 > (- 1) - of_nat (digit_val c)
     \<longleftrightarrow> 2 ^ 64 \<le> 10 * unat v + digit_val c"
    using d um by (cases "1844674407370955161 < unat v") auto
  assume "10 * unat v + digit_val c < 2 ^ 64"
  then show "unat (v * 10 + of_nat (digit_val c)) = 10 * unat v + digit_val c"
    using um ud by (subst unat_word_ariths) auto
qed

lemma string2ll_loop_digits:
  "list_all is_digit p \<Longrightarrow>
   string2ll_loop v p =
     (let n = foldl (\<lambda>a c. 10 * a + digit_val c) (unat v) p
      in if n < 2 ^ 64 then Some (of_nat n, []) else None)"
proof (induction p arbitrary: v)
  case Nil
  have "unat v < 2 ^ 64" using unsigned_less[where 'a = nat, of v] by simp
  then show ?case by (simp add: Let_def)
next
  case (Cons c p)
  then have c: "is_digit c" and p: "list_all is_digit p" by simp_all
  let ?n = "10 * unat v + digit_val c"
  show ?case
  proof (cases "?n < 2 ^ 64")
    case True
    with string2ll_step(1)[OF c, of v] have "\<not> v > (- 1) div 10" "\<not> v * 10 > (- 1) - of_nat (digit_val c)"
      by auto
    then have "string2ll_loop v (c # p) = string2ll_loop (v * 10 + of_nat (digit_val c)) p"
      using c by (simp add: Let_def)
    then show ?thesis using Cons.IH[OF p] string2ll_step(2)[OF c True] by simp
  next
    case False
    with string2ll_step(1)[OF c, of v] have "string2ll_loop v (c # p) = None"
      using c by (auto simp: Let_def)
    moreover have "\<not> foldl (\<lambda>a c. 10 * a + digit_val c) ?n p < 2 ^ 64"
      using False foldl_digits_ge[of ?n p] by linarith
    ultimately show ?thesis by (simp add: Let_def)
  qed
qed

lemma string2ll_loop_all_read: "string2ll_loop v p = Some (w, []) \<Longrightarrow> list_all is_digit p"
  by (induction v p rule: string2ll_loop.induct) (auto split: if_splits simp: Let_def)

lemma first_digit_iff:
  "49 \<le> (of_char c :: nat) \<and> (of_char c :: nat) \<le> 57 \<longleftrightarrow> is_digit c \<and> c \<noteq> CHR ''0''"
proof -
  have "(of_char c :: nat) = 48 \<longleftrightarrow> c = CHR ''0''"
    using of_char_eq_iff[of c "CHR ''0''"] by simp
  then show ?thesis unfolding is_digit_def by linarith
qed

text \<open>The body of the parser, after the sign: all of a digit string without leading zero.\<close>

lemma string2ll_body:
  assumes "is_digit c" and "c \<noteq> CHR ''0''"
  shows "(case string2ll_loop (of_nat (of_char c - 48)) p of None \<Rightarrow> None
          | Some (v, rest) \<Rightarrow> if rest \<noteq> [] then None else F v) =
         (if list_all is_digit p \<and> dec_val (c # p) < 2 ^ 64 then F (of_nat (dec_val (c # p))) else None)"
proof (cases "list_all is_digit p")
  case True
  have "digit_val c < 10" using assms(1) by simp
  then have "unat (of_nat (of_char c - 48) :: u64) = digit_val c"
    by (simp add: unat_of_nat digit_val_def)
  then show ?thesis using True string2ll_loop_digits[OF True, of "of_nat (of_char c - 48)"]
    by (simp add: Let_def dec_val_def)
next
  case False
  then have "string2ll_loop (of_nat (of_char c - 48)) p \<noteq> Some (v, [])" for v
    using string2ll_loop_all_read by blast
  with False show ?thesis by (auto split: option.split)
qed

lemma uint_of_nat_u64: "n < 2 ^ 64 \<Longrightarrow> uint (of_nat n :: u64) = int n"
  by (simp add: uint_nat unat_of_nat)

lemma sint_of_nat_u64: "n < 2 ^ 63 \<Longrightarrow> sint (of_nat n :: u64) = int n"
  by (simp add: sint_uint uint_of_nat_u64 signed_take_bit_int_eq_self)

lemma sint_minus_of_nat_u64: "n \<le> 2 ^ 63 \<Longrightarrow> sint (- of_nat n :: u64) = - int n"
proof -
  assume n: "n \<le> 2 ^ 63"
  have "(- of_nat n :: u64) = word_of_int (- int n)" by simp
  then have "sint (- of_nat n :: u64) = sint (word_of_int (- int n) :: u64)" by (simp only:)
  also have "\<dots> = signed_take_bit 63 (- int n)" using sint_sbintrunc'[of "- int n", where 'a = 64] by simp
  also have "\<dots> = - int n" using n by (intro signed_take_bit_int_eq_self) simp_all
  finally show ?thesis .
qed

text \<open>The parser accepts exactly the canonical texts of the values of a \<open>long long\<close>.\<close>

lemma string2ll_unsigned:
  assumes "c \<noteq> CHR ''-''" and "c # p \<noteq> ''0''"
  shows "string2ll (c # p) =
    (if canonical (c # p) \<and> dec_val (c # p) < 2 ^ 63 then Some (int (dec_val (c # p))) else None)"
proof (cases "is_digit c \<and> c \<noteq> CHR ''0''")
  case True
  let ?n = "dec_val (c # p)"
  have "n < 2 ^ 64 \<Longrightarrow> (of_nat n :: u64) > LLONG_MAX \<longleftrightarrow> 2 ^ 63 \<le> n" for n
    by (simp add: word_less_nat_alt unat_of_nat) linarith
  then have "string2ll (c # p) = (if list_all is_digit p \<and> ?n < 2 ^ 63 then Some (int ?n) else None)"
    using True assms first_digit_iff[of c]
    by (auto simp: string2ll_def Let_def sint_of_nat_u64 string2ll_body simp del: of_nat_diff
        cong: option.case_cong prod.case_cong)
  with True show ?thesis by (simp add: canonical_def)
next
  case False
  then have "string2ll (c # p) = None"
    using assms first_digit_iff[of c] by (auto simp: string2ll_def)
  moreover have "\<not> canonical (c # p)" using False assms by (auto simp: canonical_def)
  ultimately show ?thesis by simp
qed

lemma string2ll_signed:
  "string2ll (CHR ''-'' # p) =
    (if canonical p \<and> p \<noteq> ''0'' \<and> dec_val p \<le> 2 ^ 63 then Some (- int (dec_val p)) else None)"
proof (cases "p \<noteq> [] \<and> is_digit (hd p) \<and> hd p \<noteq> CHR ''0''")
  case True
  then obtain c q where p: "p = c # q" by (cases p) auto
  with True have c: "is_digit c" "c \<noteq> CHR ''0''" by auto
  have "n < 2 ^ 64 \<Longrightarrow> (of_nat n :: u64) > LLONG_MIN \<longleftrightarrow> 2 ^ 63 < n" for n
    by (simp add: word_less_nat_alt unat_of_nat)
  then have "string2ll (CHR ''-'' # p) =
      (if list_all is_digit q \<and> dec_val p \<le> 2 ^ 63 then Some (- int (dec_val p)) else None)"
    using c first_digit_iff[of c]
    by (auto simp: string2ll_def Let_def p sint_minus_of_nat_u64 string2ll_body simp del: of_nat_diff
        cong: option.case_cong prod.case_cong)
  with c show ?thesis by (simp add: canonical_def p)
next
  case False
  then have "string2ll (CHR ''-'' # p) = None"
    using first_digit_iff[of "hd p"] by (cases p) (auto simp: string2ll_def)
  moreover have "\<not> (canonical p \<and> p \<noteq> ''0'')" using False by (cases p) (auto simp: canonical_def)
  ultimately show ?thesis by auto
qed

lemma dec_nat_not_minus: "dec_nat n \<noteq> CHR ''-'' # s"
  using dec_nat_digits[of n] by (auto simp: is_digit_def)

lemma dec_val_char0 [simp]: "dec_val ''0'' = 0"
  by (simp add: dec_val_def digit_val_def)

lemma dec_nat_0 [simp]: "dec_nat 0 = ''0''"
  by (subst dec_nat.simps) (simp add: digit_char_def char_of_def bit_simps)

lemma string2ll_spec:
  "string2ll s = Some i \<longleftrightarrow> s = dec_int i \<and> - (2 ^ 63) \<le> i \<and> i < 2 ^ 63"
proof (cases s)
  case Nil
  then show ?thesis
    using dec_nat_nonempty[of "nat i"] dec_nat_nonempty[of "nat (- i)"]
    by (auto simp: string2ll_def dec_int_def simp del: dec_nat_nonempty)
next
  case (Cons c p)
  consider (zero) "s = ''0''" | (neg) "c = CHR ''-''" | (pos) "c \<noteq> CHR ''-''" "s \<noteq> ''0''" by blast
  then show ?thesis
  proof cases
    case zero
    then have "string2ll s = Some 0" by (simp add: string2ll_def)
    moreover have "s = dec_int i \<longleftrightarrow> i = 0"
      using zero dec_nat_inj[of 0 "nat i"] by (auto simp: dec_int_def)
    ultimately show ?thesis by auto
  next
    case neg
    have "string2ll s = Some i \<longleftrightarrow> canonical p \<and> p \<noteq> ''0'' \<and> dec_val p \<le> 2 ^ 63 \<and> i = - int (dec_val p)"
      unfolding Cons neg string2ll_signed by auto
    also have "\<dots> \<longleftrightarrow> s = dec_int i \<and> - (2 ^ 63) \<le> i \<and> i < 2 ^ 63" (is "?l \<longleftrightarrow> ?r")
    proof
      assume l: ?l
      then have "0 < dec_val p"
        using dec_nat_dec_val[of p] by (metis dec_nat_0 gr0I)
      with l show ?r using dec_nat_dec_val[of p] by (simp add: dec_int_def Cons neg)
    next
      assume r: ?r
      then have "i < 0" "p = dec_nat (nat (- i))"
        using dec_nat_not_minus[of "nat i" p] unfolding Cons neg by (auto simp: dec_int_def split: if_splits)
      then show ?l using r canonical_dec_nat[of "nat (- i)"] dec_nat_inj[of "nat (- i)" 0]
        by (simp add: nat_le_iff)
    qed
    finally show ?thesis .
  next
    case pos
    have "string2ll s = Some i \<longleftrightarrow> canonical s \<and> dec_val s < 2 ^ 63 \<and> i = int (dec_val s)"
      using string2ll_unsigned[of c p] pos unfolding Cons by auto
    also have "\<dots> \<longleftrightarrow> s = dec_int i \<and> - (2 ^ 63) \<le> i \<and> i < 2 ^ 63" (is "?l \<longleftrightarrow> ?r")
    proof
      assume ?l
      then show ?r using dec_nat_dec_val[of s] by (simp add: dec_int_def)
    next
      assume r: ?r
      then have "0 \<le> i" "s = dec_nat (nat i)"
        using pos Cons by (auto simp: dec_int_def split: if_splits)
      then show ?l using r canonical_dec_nat[of "nat i"] by (simp add: nat_less_iff)
    qed
    finally show ?thesis .
  qed
qed

lemma length_dec_int_le_20: "- (2 ^ 63) \<le> i \<Longrightarrow> i < 2 ^ 63 \<Longrightarrow> length (dec_int i) \<le> 20"
proof -
  assume i: "- (2 ^ 63) \<le> i" "i < 2 ^ 63"
  then have "nat \<bar>i\<bar> < 10 ^ 19" by simp
  then have "length (dec_nat (nat \<bar>i\<bar>)) \<le> 19" by (rule length_dec_nat_le) simp
  then show ?thesis by (auto simp: length_dec_int abs_if split: if_splits)
qed

lemma sint_u64_range: "- (2 ^ 63) \<le> sint (w :: u64)" "sint (w :: u64) < 2 ^ 63"
  using sint_ge[of w] sint_lt[of w] by simp_all

subsection \<open>Properties\<close>

text \<open>
  C22. The parser of integers (\<open>string2ll\<close>) accepts exactly the canonical decimal texts of the
  values of a \<open>long long\<close>, and returns the value they denote: no leading zeros, no plus sign, no
  surrounding space, no minus zero, and nothing out of range is taken, and every value has a text
  that is.
\<close>

theorem string2ll_accepts_canonical:
  "string2ll s = Some i \<longleftrightarrow> s = dec_int i \<and> - (2 ^ 63) \<le> i \<and> i < 2 ^ 63"
  by (rule string2ll_spec)

text \<open>
  C23. Printing a \<open>long long\<close> with \<open>ll2string\<close> into a buffer of at least 21 bytes and parsing the
  printed bytes with \<open>string2ll\<close> gives the value back; the text is NUL-terminated, all writes stay
  inside the buffer and the bytes behind the terminator are untouched.
\<close>

theorem ll2string_string2ll_roundtrip:
  assumes "21 \<le> dstlen" and "dstlen \<le> length dst"
  shows "\<exists>dst' n. ll2string dst dstlen w = Some (dst', n) \<and> n < dstlen \<and>
    string2ll (take n dst') = Some (sint w) \<and> dst' ! n = CHR 0x00 \<and>
    length dst' = length dst \<and> drop (Suc n) dst' = drop (Suc n) dst"
proof -
  let ?t = "dec_int (sint w)"
  have l: "length ?t \<le> 20" using sint_u64_range by (rule length_dec_int_le_20)
  then have "ll2string dst dstlen w = Some (?t @ CHR 0x00 # drop (Suc (length ?t)) dst, length ?t)"
    using ll2string_spec[OF assms(2), of w] assms(1) by simp
  moreover have "string2ll ?t = Some (sint w)" using sint_u64_range by (simp add: string2ll_spec)
  ultimately show ?thesis using l assms by simp
qed

theorem ll2string_string2ll_roundtrip_witness:
  "\<exists>dst' n. ll2string (replicate 32 CHR ''x'') 32 (- 1023) = Some (dst', n) \<and> n < 32 \<and>
    string2ll (take n dst') = Some (sint (- 1023 :: u64)) \<and> dst' ! n = CHR 0x00 \<and>
    length dst' = length (replicate 32 CHR ''x'') \<and>
    drop (Suc n) dst' = drop (Suc n) (replicate 32 CHR ''x'')"
  by (rule ll2string_string2ll_roundtrip) simp_all

end
