(* ===== verification/Interfaces.thy ===== *)
theory Interfaces
  imports Prelude
begin

text \<open>
  The contracts between components, as locales.  \<open>bounded_set\<close> is what a set implementation
  promises to the commands that use it (add, remove, test, size, all of them total while the
  set has room); \<open>bounded_map\<close> is the same for a dictionary.  The loops that clients run over
  these operations are defined once for any implementation, and their meaning is proved from
  the laws alone.  \<open>append_buffer\<close> is the contract of a buffer that data is appended to.
\<close>

subsection \<open>Loops over a container\<close>

text \<open>Add a list of elements and count those that were new (the loop of \<open>SADD\<close>); with the removal
  of an element the same loop removes a list and counts those that were there.\<close>

fun add_loop :: "('s \<Rightarrow> 'e \<Rightarrow> ('s \<times> bool) option) \<Rightarrow> 's \<Rightarrow> 'e list \<Rightarrow> ('s \<times> nat) option" where
  "add_loop add s [] = Some (s, 0)"
| "add_loop add s (x # xs) =
     do { (s, b) \<leftarrow> add s x;
          (s, n) \<leftarrow> add_loop add s xs;
          Some (s, (if b then 1 else 0) + n) }"

subsection \<open>Sets\<close>

text \<open>An argument stands for the element \<open>key x\<close>; different arguments may stand for the same one.\<close>

locale bounded_set =
  fixes add :: "'s \<Rightarrow> 'x \<Rightarrow> ('s \<times> bool) option"
    and rem :: "'s \<Rightarrow> 'x \<Rightarrow> ('s \<times> bool) option"
    and mem :: "'s \<Rightarrow> 'x \<Rightarrow> bool option"
    and size_of :: "'s \<Rightarrow> nat"
    and key :: "'x \<Rightarrow> 'e"
    and elems :: "'s \<Rightarrow> 'e set"
    and inv :: "'s \<Rightarrow> bool"
    and ok :: "'x \<Rightarrow> bool"
    and limit :: nat
  assumes add: "inv s \<Longrightarrow> ok x \<Longrightarrow> size_of s < limit \<Longrightarrow>
      \<exists>s'. add s x = Some (s', key x \<notin> elems s) \<and> inv s' \<and> elems s' = insert (key x) (elems s)"
    and rem: "inv s \<Longrightarrow> ok x \<Longrightarrow>
      \<exists>s'. rem s x = Some (s', key x \<in> elems s) \<and> inv s' \<and> elems s' = elems s - {key x}"
    and mem: "inv s \<Longrightarrow> ok x \<Longrightarrow> mem s x = Some (key x \<in> elems s)"
    and size_of: "inv s \<Longrightarrow> finite (elems s) \<and> size_of s = card (elems s)"
begin

lemma add_then_mem:
  assumes "inv s" "ok x" "ok y" "size_of s < limit" "add s x = Some (s', b)"
  shows "mem s' y = Some (key y = key x \<or> key y \<in> elems s)"
  using add[OF assms(1,2,4)] assms(3,5) mem by auto

lemma rem_then_mem:
  assumes "inv s" "ok x" "ok y" "rem s x = Some (s', b)"
  shows "mem s' y = Some (key y \<noteq> key x \<and> key y \<in> elems s)"
  using rem[OF assms(1,2)] assms(3,4) mem by auto

text \<open>The loop adds all the elements; the count is the growth of the set.\<close>

lemma add_loop_correct:
  "inv s \<Longrightarrow> list_all ok xs \<Longrightarrow> size_of s + length xs \<le> limit \<Longrightarrow>
   \<exists>s' n. add_loop add s xs = Some (s', n) \<and> inv s' \<and> elems s' = elems s \<union> key ` set xs \<and>
     size_of s' = size_of s + n"
proof (induction xs arbitrary: s)
  case Nil
  then show ?case by simp
next
  case (Cons x xs)
  then have "size_of s < limit" "ok x" by simp_all
  then obtain s1 where s1: "add s x = Some (s1, key x \<notin> elems s)" "inv s1" "elems s1 = insert (key x) (elems s)"
    using add Cons.prems(1) by blast
  have sz: "size_of s1 = (if key x \<in> elems s then 0 else 1) + size_of s"
    using size_of[OF Cons.prems(1)] size_of[OF s1(2)] s1(3) by (simp add: card_insert_if)
  then have "size_of s1 + length xs \<le> limit" using Cons.prems(3) by (simp split: if_splits)
  then obtain s' n where "add_loop add s1 xs = Some (s', n)" "inv s'" "elems s' = elems s1 \<union> key ` set xs"
    "size_of s' = size_of s1 + n"
    using Cons.IH[OF s1(2)] Cons.prems(2) by auto
  then show ?case using s1 sz by auto
qed

text \<open>The loop that removes elements; the count is the shrinkage of the set.\<close>

lemma rem_loop_correct:
  "inv s \<Longrightarrow> list_all ok xs \<Longrightarrow>
   \<exists>s' n. add_loop rem s xs = Some (s', n) \<and> inv s' \<and> elems s' = elems s - key ` set xs \<and> size_of s = size_of s' + n"
proof (induction xs arbitrary: s)
  case Nil
  then show ?case by simp
next
  case (Cons x xs)
  then have "ok x" by simp
  then obtain s1 where s1: "rem s x = Some (s1, key x \<in> elems s)" "inv s1" "elems s1 = elems s - {key x}"
    using rem Cons.prems(1) by blast
  have sz: "size_of s = (if key x \<in> elems s then 1 else 0) + size_of s1"
    using size_of[OF Cons.prems(1)] size_of[OF s1(2)] s1(3) card_Suc_Diff1[of "elems s" "key x"] by (cases "key x \<in> elems s") simp_all
  from Cons.IH[OF s1(2)] Cons.prems(2) obtain s' n where "add_loop rem s1 xs = Some (s', n)" "inv s'" "elems s' = elems s1 - key ` set xs"
    "size_of s1 = size_of s' + n" by auto
  then show ?case using s1 sz by auto
qed

end

subsection \<open>Dictionaries\<close>

locale bounded_map =
  fixes find :: "'d \<Rightarrow> 'k \<Rightarrow> ('d \<times> 'v option) option"
    and upd :: "'d \<Rightarrow> 'k \<Rightarrow> 'v \<Rightarrow> ('d \<times> bool) option"
    and del :: "'d \<Rightarrow> 'k \<Rightarrow> ('d \<times> bool) option"
    and lookup :: "'d \<Rightarrow> 'k \<rightharpoonup> 'v"
    and inv :: "'d \<Rightarrow> bool"
    and room :: "'d \<Rightarrow> bool"
  assumes find: "inv d \<Longrightarrow> \<exists>d'. find d k = Some (d', lookup d k) \<and> inv d' \<and> lookup d' = lookup d"
    and upd: "inv d \<Longrightarrow> room d \<Longrightarrow>
      \<exists>d'. upd d k v = Some (d', lookup d k = None) \<and> inv d' \<and> lookup d' = (lookup d)(k \<mapsto> v)"
    and del: "inv d \<Longrightarrow>
      \<exists>d'. del d k = Some (d', lookup d k \<noteq> None) \<and> inv d' \<and> lookup d' = (lookup d)(k := None)"
begin

lemma upd_then_find:
  assumes "inv d" "room d" "upd d k v = Some (d1, b)"
  shows "\<exists>d2. find d1 k' = Some (d2, if k' = k then Some v else lookup d k')"
  using upd[OF assms(1,2), of k v] assms(3) find[of d1 k'] by auto

lemma del_then_find:
  assumes "inv d" "del d k = Some (d1, b)"
  shows "\<exists>d2. find d1 k' = Some (d2, if k' = k then None else lookup d k')"
  using del[OF assms(1), of k] assms(2) find[of d1 k'] by auto

end

subsection \<open>Buffers\<close>

fun app_loop :: "('s \<Rightarrow> 'a list \<Rightarrow> 's option) \<Rightarrow> 's \<Rightarrow> 'a list list \<Rightarrow> 's option" where
  "app_loop app s [] = Some s"
| "app_loop app s (xs # xss) = do { s \<leftarrow> app s xs; app_loop app s xss }"

locale append_buffer =
  fixes app :: "'s \<Rightarrow> 'a list \<Rightarrow> 's option"
    and contents :: "'s \<Rightarrow> 'a list"
    and inv :: "'s \<Rightarrow> bool"
    and limit :: nat
  assumes app: "inv s \<Longrightarrow> length (contents s) + length xs \<le> limit \<Longrightarrow>
      \<exists>s'. app s xs = Some s' \<and> inv s' \<and> contents s' = contents s @ xs"
begin

lemma app_loop_correct:
  "inv s \<Longrightarrow> length (contents s) + length (concat xss) \<le> limit \<Longrightarrow>
   \<exists>s'. app_loop app s xss = Some s' \<and> inv s' \<and> contents s' = contents s @ concat xss"
proof (induction xss arbitrary: s)
  case Nil
  then show ?case by simp
next
  case (Cons xs xss)
  from Cons.prems app[of s xs] obtain s1 where s1: "app s xs = Some s1" "inv s1" "contents s1 = contents s @ xs" by auto
  with Cons.IH[of s1] Cons.prems(2) show ?case by auto
qed

end

end
