(* ===== verification/Intset.thy ===== *)
theory Intset
  imports Interfaces
begin

text \<open>
  The sorted integer sets of the Redis server, \<^verbatim>\<open>redis/src/intset.c\<close>, at the level of
  their bytes: an intset is a header (encoding, length) and a block of \<open>length * encoding\<close> bytes
  that holds the elements as little-endian two's-complement integers, on the little-endian
  target (\<open>intrev32ifbe\<close> and \<open>memrev*ifbe\<close> are the identity there).  All accesses to the block
  are checked, so every \<open>Some\<close> result below is also a proof that no byte outside the
  block is touched.  \<open>junk\<close> is what \<open>zrealloc\<close> leaves in the bytes it adds.
\<close>

subsection \<open>Model\<close>

record intset =
  encoding :: nat
  len :: nat
  contents :: "byte list"

definition intsetValueEncoding :: "int \<Rightarrow> nat" where
  "intsetValueEncoding v =
     (if v < - (2 ^ 31) \<or> v > 2 ^ 31 - 1 then 8
      else if v < - (2 ^ 15) \<or> v > 2 ^ 15 - 1 then 4
      else 2)"

definition intsetGetEncoded :: "intset \<Rightarrow> nat \<Rightarrow> nat \<Rightarrow> int option" where
  "intsetGetEncoded is pos enc =
     (if enc = 8 then do { v64 \<leftarrow> mem_read (contents is) (pos * 8) 8; Some (signed_of 8 (le_val v64)) }
      else if enc = 4 then do { v32 \<leftarrow> mem_read (contents is) (pos * 4) 4; Some (signed_of 4 (le_val v32)) }
      else do { v16 \<leftarrow> mem_read (contents is) (pos * 2) 2; Some (signed_of 2 (le_val v16)) })"

definition intsetGet' :: "intset \<Rightarrow> nat \<Rightarrow> int option" where
  "intsetGet' is pos = intsetGetEncoded is pos (encoding is)"

definition intsetSet' :: "intset \<Rightarrow> nat \<Rightarrow> int \<Rightarrow> intset option" where
  "intsetSet' is pos value =
     do { m \<leftarrow> (if encoding is = 8 then mem_write (contents is) (pos * 8) (le_bytes 8 (of_signed 8 value))
                else if encoding is = 4 then mem_write (contents is) (pos * 4) (le_bytes 4 (of_signed 4 value))
                else mem_write (contents is) (pos * 2) (le_bytes 2 (of_signed 2 value)));
          Some (is\<lparr>contents := m\<rparr>) }"

definition intsetNew :: intset where
  "intsetNew = \<lparr>encoding = 2, len = 0, contents = []\<rparr>"

text \<open>The size is computed in \<open>uint32_t\<close>: it wraps around.\<close>

definition intsetResize :: "(nat \<Rightarrow> byte) \<Rightarrow> intset \<Rightarrow> nat \<Rightarrow> intset" where
  "intsetResize junk is n =
     is\<lparr>contents := mem_resize junk (contents is) ((n * encoding is) mod 2 ^ 32)\<rparr>"

text \<open>
  The bisection loop; \<open>lo\<close> and \<open>hi\<close> are \<open>min\<close> and \<open>max\<close> of the source.  They are non-negative \<open>int\<close>s inside the loop, so their
  unsigned sum cannot wrap and the shift is a division by two.
\<close>

function search_loop :: "intset \<Rightarrow> int \<Rightarrow> int \<Rightarrow> int \<Rightarrow> int \<Rightarrow> int \<Rightarrow> (int \<times> int \<times> int) option" where
  "search_loop is value lo hi mid cur =
     (if hi \<ge> lo then
        do { let mid = (lo + hi) div 2;
             cur \<leftarrow> (if mid < 0 then None else intsetGet' is (nat mid));
             if value > cur then search_loop is value (mid + 1) hi mid cur
             else if value < cur then search_loop is value lo (mid - 1) mid cur
             else Some (lo, mid, cur) }
      else Some (lo, mid, cur))"
  by pat_completeness auto
termination
  by (relation "measure (\<lambda>(is, value, lo, hi, mid, cur). nat (hi - lo + 1))") auto

declare search_loop.simps [simp del]

definition intsetSearch :: "intset \<Rightarrow> int \<Rightarrow> (bool \<times> nat) option" where
  "intsetSearch is value =
     (if len is = 0 then Some (False, 0)
      else do { last \<leftarrow> intsetGet' is (len is - 1);
                if value > last then Some (False, len is)
                else do { first \<leftarrow> intsetGet' is 0;
                  if value < first then Some (False, 0)
                  else do { (lo, mid, cur) \<leftarrow> search_loop is value 0 (int (len is) - 1) (- 1) (- 1);
                    if value = cur then Some (True, nat mid) else Some (False, nat lo) } } })"

text \<open>The copying loop of the upgrade, from the last element to the first.\<close>

fun upgrade_loop :: "intset \<Rightarrow> nat \<Rightarrow> nat \<Rightarrow> nat \<Rightarrow> intset option" where
  "upgrade_loop is curenc prepend 0 = Some is"
| "upgrade_loop is curenc prepend (Suc n) =
     do { v \<leftarrow> intsetGetEncoded is n curenc;
          is \<leftarrow> intsetSet' is (n + prepend) v;
          upgrade_loop is curenc prepend n }"

definition intsetUpgradeAndAdd :: "(nat \<Rightarrow> byte) \<Rightarrow> intset \<Rightarrow> int \<Rightarrow> intset option" where
  "intsetUpgradeAndAdd junk is value =
     (let curenc = encoding is;
          newenc = intsetValueEncoding value;
          n = len is;
          prepend = (if value < 0 then 1 else 0);
          is = is\<lparr>encoding := newenc\<rparr>;
          is = intsetResize junk is (len is + 1)
      in do { is \<leftarrow> upgrade_loop is curenc prepend n;
              is \<leftarrow> (if prepend = 1 then intsetSet' is 0 value else intsetSet' is (len is) value);
              Some (is\<lparr>len := (len is + 1) mod 2 ^ 32\<rparr>) })"

definition intsetMoveTail :: "intset \<Rightarrow> nat \<Rightarrow> nat \<Rightarrow> intset option" where
  "intsetMoveTail is from to =
     (let n = len is - from in
      do { m \<leftarrow> (if encoding is = 8 then mem_move (contents is) (to * 8) (from * 8) (n * 8)
                 else if encoding is = 4 then mem_move (contents is) (to * 4) (from * 4) (n * 4)
                 else mem_move (contents is) (to * 2) (from * 2) (n * 2));
           Some (is\<lparr>contents := m\<rparr>) })"

definition intsetAdd :: "(nat \<Rightarrow> byte) \<Rightarrow> intset \<Rightarrow> int \<Rightarrow> (intset \<times> bool) option" where
  "intsetAdd junk is value =
     (let valenc = intsetValueEncoding value in
      if valenc > encoding is
      then do { is \<leftarrow> intsetUpgradeAndAdd junk is value; Some (is, True) }
      else do { (found, pos) \<leftarrow> intsetSearch is value;
                if found then Some (is, False)
                else do { let is = intsetResize junk is (len is + 1);
                          is \<leftarrow> (if pos < len is then intsetMoveTail is pos (pos + 1) else Some is);
                          is \<leftarrow> intsetSet' is pos value;
                          Some (is\<lparr>len := (len is + 1) mod 2 ^ 32\<rparr>, True) } })"

definition intsetRemove :: "(nat \<Rightarrow> byte) \<Rightarrow> intset \<Rightarrow> int \<Rightarrow> (intset \<times> bool) option" where
  "intsetRemove junk is value =
     (let valenc = intsetValueEncoding value in
      if valenc \<le> encoding is
      then do { (found, pos) \<leftarrow> intsetSearch is value;
                if found
                then do { let n = len is;
                          is \<leftarrow> (if pos < n - 1 then intsetMoveTail is (pos + 1) pos else Some is);
                          let is = intsetResize junk is (n - 1);
                          Some (is\<lparr>len := n - 1\<rparr>, True) }
                else Some (is, False) }
      else Some (is, False))"

definition intsetFind :: "intset \<Rightarrow> int \<Rightarrow> bool option" where
  "intsetFind is value =
     (let valenc = intsetValueEncoding value in
      if valenc \<le> encoding is then map_option fst (intsetSearch is value) else Some False)"

text \<open>\<open>rnd\<close> is the result of \<open>rand()\<close>; the division by a length of 0 traps.\<close>

definition intsetRandom :: "nat \<Rightarrow> intset \<Rightarrow> int option" where
  "intsetRandom rnd is = (if len is = 0 then None else intsetGet' is (rnd mod len is))"

text \<open>\<open>None\<close>: fault; \<open>Some None\<close>: the function returns 0.\<close>

definition intsetGet :: "intset \<Rightarrow> nat \<Rightarrow> int option option" where
  "intsetGet is pos = (if pos < len is then map_option Some (intsetGet' is pos) else Some None)"

definition intsetLen :: "intset \<Rightarrow> nat" where
  "intsetLen is = len is"

definition intsetBlobLen :: "intset \<Rightarrow> nat" where
  "intsetBlobLen is = 8 + (len is * encoding is) mod 2 ^ 32"

subsection \<open>Cells\<close>

definition cell :: "nat \<Rightarrow> int \<Rightarrow> byte list" where
  "cell e v = le_bytes e (of_signed e v)"

definition cells :: "nat \<Rightarrow> int list \<Rightarrow> byte list" where
  "cells e vs = concat (map (cell e) vs)"

fun decode_cells :: "nat \<Rightarrow> nat \<Rightarrow> byte list \<Rightarrow> int list" where
  "decode_cells e 0 m = []"
| "decode_cells e (Suc n) m = signed_of e (le_val (take e m)) # decode_cells e n (drop e m)"

lemma decode_cells_numeral:
  "decode_cells e (numeral k) m =
     signed_of e (le_val (take e m)) # decode_cells e (pred_numeral k) (drop e m)"
  by (simp add: numeral_eq_Suc)

definition intset_vals :: "intset \<Rightarrow> int list" where
  "intset_vals is = decode_cells (encoding is) (len is) (contents is)"

text \<open>
  The invariant of the structure.  The bound on the length is what keeps the \<open>uint32_t\<close> size of
  the block, and the \<open>int\<close> indices of the search, from overflowing.
\<close>

definition intset_inv :: "intset \<Rightarrow> bool" where
  "intset_inv is \<longleftrightarrow>
     encoding is \<in> {2, 4, 8} \<and> length (contents is) = len is * encoding is \<and>
     sorted_wrt (<) (intset_vals is) \<and> len is < 2 ^ 29"

lemma length_cell [simp]: "length (cell e v) = e"
  by (simp add: cell_def)

lemma length_cells [simp]: "length (cells e vs) = length vs * e"
  by (induction vs) (simp_all add: cells_def)

lemma cells_append [simp]: "cells e (vs @ ws) = cells e vs @ cells e ws"
  by (simp add: cells_def)

lemma cells_Nil [simp]: "cells e [] = []"
  by (simp add: cells_def)

lemma cells_Cons [simp]: "cells e (v # vs) = cell e v @ cells e vs"
  by (simp add: cells_def)

lemma take_cells: "take (k * e) (cells e vs) = cells e (take k vs)"
proof (cases "k \<le> length vs")
  case True
  have "cells e vs = cells e (take k vs) @ cells e (drop k vs)"
    by (metis append_take_drop_id cells_append)
  with True show ?thesis by simp
qed simp

lemma drop_cells: "drop (k * e) (cells e vs) = cells e (drop k vs)"
proof (cases "k \<le> length vs")
  case True
  have "cells e vs = cells e (take k vs) @ cells e (drop k vs)"
    by (metis append_take_drop_id cells_append)
  with True show ?thesis by simp
qed simp

lemma le_val_cell: "0 < e \<Longrightarrow> fits e v \<Longrightarrow> signed_of e (le_val (cell e v)) = v"
  using of_signed_bound[of e v] by (simp add: cell_def le_simps)

lemma length_decode [simp]: "length (decode_cells e n m) = n"
  by (induction n arbitrary: m) auto

lemma decode_fits: "0 < e \<Longrightarrow> n * e \<le> length m \<Longrightarrow> v \<in> set (decode_cells e n m) \<Longrightarrow> fits e v"
proof (induction n arbitrary: m)
  case (Suc n)
  have "le_val (take e m) < 256 ^ e" using le_val_bound[of "take e m"] Suc.prems by simp
  then have "fits e (signed_of e (le_val (take e m)))" using Suc.prems by (simp add: signed_of_fits)
  moreover have "n * e \<le> length (drop e m)" using Suc.prems by simp
  ultimately show ?case using Suc.IH[of "drop e m"] Suc.prems by auto
qed simp

lemma of_signed_signed:
  assumes "0 < e" "n < 256 ^ e" shows "of_signed e (signed_of e n) = n"
proof -
  have n: "int n < 2 ^ (8 * e)" using assms by (simp add: pow256 flip: of_nat_less_iff)
  then show ?thesis
    by (simp add: of_signed_def signed_of_def)
qed

lemma cells_decode: "0 < e \<Longrightarrow> length m = n * e \<Longrightarrow> cells e (decode_cells e n m) = m"
proof (induction n arbitrary: m)
  case (Suc n)
  have l: "length (take e m) = e" using Suc.prems by simp
  then have "cell e (signed_of e (le_val (take e m))) = take e m"
    using Suc.prems le_val_bound[of "take e m"] le_bytes_le_val[of "take e m"]
    by (simp add: cell_def of_signed_signed)
  then show ?case using Suc by simp
qed simp

lemma decode_cells_cells: "0 < e \<Longrightarrow> list_all (fits e) vs \<Longrightarrow> decode_cells e (length vs) (cells e vs) = vs"
  by (induction vs) (auto simp: le_val_cell)

subsection \<open>The block operations on cells\<close>

text \<open>\<open>holds e m vs\<close>: the block \<open>m\<close> is exactly the cells of the representable values \<open>vs\<close>.\<close>

definition holds :: "nat \<Rightarrow> byte list \<Rightarrow> int list \<Rightarrow> bool" where
  "holds e m vs \<longleftrightarrow> m = cells e vs \<and> list_all (fits e) vs"

lemma holds_decode: "0 < e \<Longrightarrow> length m = n * e \<Longrightarrow> holds e m (decode_cells e n m)"
  by (auto simp: holds_def cells_decode list_all_iff intro!: decode_fits[of e n m])

lemma holds_length: "holds e m vs \<Longrightarrow> length m = length vs * e"
  by (simp add: holds_def)

lemma split_at:
  assumes "i < length vs"
  obtains a b where "vs = a @ vs ! i # b" "i = length a"
  using assms id_take_nth_drop[OF assms] that[of "take i vs" "drop (Suc i) vs"] by simp

lemma mem_read_cells:
  assumes "i < length vs"
  shows "mem_read (cells e vs @ rest) (i * e) e = Some (cell e (vs ! i))"
proof -
  obtain a b where vs: "vs = a @ vs ! i # b" "i = length a" by (rule split_at[OF assms])
  have "mem_read (cells e (a @ v # b) @ rest) (length a * e) e = Some (cell e v)" for v
    using mem_read_append[of "cells e a" "cell e v" "cells e b @ rest"] by simp
  from this[of "vs ! i"] show ?thesis by (simp only: vs(2)[symmetric] vs(1)[symmetric])
qed

lemma mem_write_cells:
  assumes "i < length vs"
  shows "mem_write (cells e vs) (i * e) (cell e v) = Some (cells e (vs[i := v]))"
proof -
  obtain a b where vs: "vs = a @ vs ! i # b" "i = length a" by (rule split_at[OF assms])
  have "mem_write (cells e (a @ x # b)) (length a * e) (cell e v) = Some (cells e ((a @ x # b)[length a := v]))" for x
    using mem_write_append[of "cell e x" "cell e v" "cells e a" "cells e b"] by simp
  from this[of "vs ! i"] show ?thesis by (simp only: vs(2)[symmetric] vs(1)[symmetric])
qed

lemma mem_move_cells:
  assumes "from + n \<le> length vs" and "to + n \<le> length vs"
  shows "mem_move (cells e vs) (to * e) (from * e) (n * e) =
    Some (cells e (take to vs @ take n (drop from vs) @ drop (to + n) vs))"
proof -
  have b: "from * e + n * e \<le> length vs * e" "to * e + n * e \<le> length vs * e"
    using assms by (simp_all flip: add_mult_distrib)
  have "take (n * e) (drop (from * e) (cells e vs)) = cells e (take n (drop from vs))"
    by (simp only: drop_cells take_cells)
  moreover have "drop (to * e + n * e) (cells e vs) = cells e (drop (to + n) vs)"
    by (simp only: drop_cells flip: add_mult_distrib)
  moreover have "min (length vs - from) n = n" using assms by simp
  ultimately show ?thesis using b
    by (simp add: mem_move_def mem_read_def mem_write_def take_cells)
qed

lemma getEncoded_holds:
  assumes "e \<in> {2, 4, 8}" "take (k * e) (contents is) = cells e vs" "length vs = k"
    "list_all (fits e) vs" "i < k"
  shows "intsetGetEncoded is i e = Some (vs ! i)"
proof -
  have c: "contents is = cells e vs @ drop (k * e) (contents is)"
    by (metis append_take_drop_id assms(2))
  have "mem_read (contents is) (i * e) e = Some (cell e (vs ! i))"
    using mem_read_cells[of i vs e "drop (k * e) (contents is)"] assms(3,5) c by simp
  moreover have "signed_of e (le_val (cell e (vs ! i))) = vs ! i"
    using assms by (intro le_val_cell) (auto simp: list_all_length)
  ultimately show ?thesis using assms(1) by (auto simp: intsetGetEncoded_def)
qed

lemma get_holds:
  assumes "encoding is \<in> {2, 4, 8}" "holds (encoding is) (contents is) vs" "i < length vs"
  shows "intsetGet' is i = Some (vs ! i)"
  unfolding intsetGet'_def
  using assms by (intro getEncoded_holds[where k = "length vs"]) (auto simp: holds_def)

lemma set_eq:
  "encoding is \<in> {2, 4, 8} \<Longrightarrow>
   intsetSet' is i v = do { m \<leftarrow> mem_write (contents is) (i * encoding is) (cell (encoding is) v);
                            Some (is\<lparr>contents := m\<rparr>) }"
  by (auto simp: intsetSet'_def cell_def)

lemma set_holds:
  assumes "encoding is \<in> {2, 4, 8}" "contents is = cells (encoding is) vs" "i < length vs"
  shows "intsetSet' is i v = Some (is\<lparr>contents := cells (encoding is) (vs[i := v])\<rparr>)"
  by (simp add: set_eq[OF assms(1)] assms(2) mem_write_cells[OF assms(3)])

lemma moveTail_eq:
  "encoding is \<in> {2, 4, 8} \<Longrightarrow>
   intsetMoveTail is from to =
     do { m \<leftarrow> mem_move (contents is) (to * encoding is) (from * encoding is) ((len is - from) * encoding is);
          Some (is\<lparr>contents := m\<rparr>) }"
  by (auto simp: intsetMoveTail_def)

lemma moveTail_holds:
  assumes "encoding is \<in> {2, 4, 8}" "contents is = cells (encoding is) vs"
    "from \<le> len is" "len is \<le> length vs" "to + (len is - from) \<le> length vs"
  shows "intsetMoveTail is from to =
    Some (is\<lparr>contents := cells (encoding is)
            (take to vs @ take (len is - from) (drop from vs) @ drop (to + (len is - from)) vs)\<rparr>)"
  using mem_move_cells[of "from" "len is - from" vs to "encoding is"] assms(3-5)
  by (simp add: moveTail_eq[OF assms(1)] assms(2))

text \<open>A block grown by one cell: whatever bytes the allocator left are the cell of some value.\<close>

lemma resize_grow:
  assumes "0 < encoding is" "contents is = cells (encoding is) vs" "length vs = len is"
    "(len is + 1) * encoding is < 2 ^ 32"
  obtains x where "intsetResize junk is (len is + 1) = is\<lparr>contents := cells (encoding is) (vs @ [x])\<rparr>"
proof -
  let ?e = "encoding is"
  let ?m = "mem_resize junk (contents is) ((len is + 1) * ?e)"
  have "take (len is * ?e) ?m = cells ?e vs"
    using assms by (simp add: take_mem_resize)
  then have "?m = cells ?e vs @ drop (len is * ?e) ?m" by (metis append_take_drop_id)
  moreover have "length (drop (len is * ?e) ?m) = 1 * ?e" by (simp add: add_mult_distrib)
  then have "drop (len is * ?e) ?m = cells ?e (decode_cells ?e 1 (drop (len is * ?e) ?m))"
    using assms(1) by (simp only: cells_decode)
  moreover obtain x where "decode_cells ?e 1 (drop (len is * ?e) ?m) = [x]" by simp
  ultimately have "?m = cells ?e (vs @ [x])" by simp
  then show ?thesis using that[of x] assms(4) by (simp add: intsetResize_def)
qed

lemma resize_shrink:
  assumes "contents is = cells (encoding is) vs" "n \<le> length vs" "length vs * encoding is < 2 ^ 32"
  shows "intsetResize junk is n = is\<lparr>contents := cells (encoding is) (take n vs)\<rparr>"
proof -
  have "n * encoding is \<le> length vs * encoding is" using assms(2) by simp
  moreover from this have "(n * encoding is) mod 2 ^ 32 = n * encoding is"
    using assms(3) by (intro mod_less) (rule le_less_trans)
  ultimately have "(n * encoding is) mod 2 ^ 32 = n * encoding is" "[length vs * encoding is..<n * encoding is] = []"
    by simp_all
  then show ?thesis by (simp add: intsetResize_def mem_resize_def assms(1) take_cells)
qed

subsection \<open>The upgrade loop\<close>

text \<open>
  With \<open>k\<close> elements left, the first \<open>k\<close> old cells are still intact at the front of the block and
  the other elements sit in new cells behind slot \<open>k + p\<close>; a new cell never starts before the old
  cells that are still to be read.
\<close>

lemma upgrade_loop_correct:
  assumes "e \<in> {2, 4, 8}" "e \<le> encoding is" "encoding is \<in> {2, 4, 8}"
    and "k \<le> length vs" "list_all (fits e) vs"
    and "take (k * e) (contents is) = cells e (take k vs)"
    and "drop ((k + p) * encoding is) (contents is) = cells (encoding is) (drop k vs) @ rest"
    and "(k + p) * encoding is \<le> length (contents is)"
  shows "\<exists>m. upgrade_loop is e p k = Some (is\<lparr>contents := m\<rparr>) \<and>
     length m = length (contents is) \<and> drop (p * encoding is) m = cells (encoding is) vs @ rest"
  using assms
proof (induction k arbitrary: "is")
  case 0
  then show ?case by (intro exI[of _ "contents is"]) simp
next
  case (Suc k)
  let ?ne = "encoding is" and ?m = "contents is" and ?v = "vs ! k"
  have k: "k < length vs" using Suc.prems(4) by simp
  have get: "intsetGetEncoded is k e = Some ?v"
    using getEncoded_holds[of e "Suc k" "is" "take (Suc k) vs" k] Suc.prems k
    by (simp add: list_all_length)
  define a b c where "a = take ((k + p) * ?ne) ?m"
    and "b = take ?ne (drop ((k + p) * ?ne) ?m)" and "c = drop ((Suc k + p) * ?ne) ?m"
  have m: "?m = a @ b @ c"
    unfolding a_def b_def c_def
    by (metis (no_types) append_take_drop_id drop_drop add_Suc mult_Suc)
  have la: "length a = (k + p) * ?ne" and lb: "length b = ?ne"
    using Suc.prems(8) by (simp_all add: a_def b_def add_mult_distrib)
  have "mem_write ?m ((k + p) * ?ne) (cell ?ne ?v) = Some (a @ cell ?ne ?v @ c)"
    using mem_write_append[of b "cell ?ne ?v" a c] la lb m by simp
  then have set: "intsetSet' is (k + p) ?v = Some (is\<lparr>contents := a @ cell ?ne ?v @ c\<rparr>)"
    by (simp add: set_eq[OF Suc.prems(3)])
  let ?is = "is\<lparr>contents := a @ cell ?ne ?v @ c\<rparr>"
  have c: "c = cells ?ne (drop (Suc k) vs) @ rest" using Suc.prems(7) by (simp add: c_def)
  have "k * e \<le> (k + p) * ?ne" using Suc.prems(2) by (intro mult_le_mono) simp_all
  then have "take (k * e) (contents ?is) = take (k * e) ?m" using la by (simp add: a_def)
  also have "\<dots> = take (k * e) (take (Suc k * e) ?m)" by simp
  also have "\<dots> = cells e (take k vs)" unfolding Suc.prems(6) by (simp add: take_cells)
  finally have pre: "take (k * e) (contents ?is) = cells e (take k vs)" .
  have suf: "drop ((k + p) * encoding ?is) (contents ?is) = cells (encoding ?is) (drop k vs) @ rest"
    using la k c by (simp add: Cons_nth_drop_Suc[symmetric])
  have "\<exists>m. upgrade_loop ?is e p k = Some (?is\<lparr>contents := m\<rparr>) \<and>
     length m = length (contents ?is) \<and> drop (p * encoding ?is) m = cells (encoding ?is) vs @ rest"
    by (rule Suc.IH[OF Suc.prems(1) _ _ _ Suc.prems(5) pre suf]) (use Suc.prems(2,3) k la in simp_all)
  moreover have "length (contents ?is) = length ?m" using m la lb by simp
  ultimately show ?case using get set by auto
qed

lemma enc_values: "intsetValueEncoding v \<in> {2, 4, 8}"
  by (simp add: intsetValueEncoding_def)

lemma fits_encoding: "fits 8 v \<Longrightarrow> fits (intsetValueEncoding v) v"
  by (auto simp: fits_def intsetValueEncoding_def)

lemma fits_less_encoding: "e \<in> {2, 4, 8} \<Longrightarrow> fits e v \<Longrightarrow> intsetValueEncoding v \<le> e"
  by (auto simp: fits_def intsetValueEncoding_def)

lemma upgrade_outside:
  assumes "e \<in> {2, 4, 8}" "e < intsetValueEncoding v" "fits e x"
  shows "if v < 0 then v < x else x < v"
  using assms by (auto simp: fits_def intsetValueEncoding_def split: if_splits)

text \<open>The state of an intset that satisfies the invariant, in terms of its elements.\<close>

lemma inv_holds:
  assumes "intset_inv is"
  shows "encoding is \<in> {2, 4, 8}" "holds (encoding is) (contents is) (intset_vals is)"
    "len is = length (intset_vals is)" "sorted_wrt (<) (intset_vals is)" "len is < 2 ^ 29"
proof -
  show "encoding is \<in> {2, 4, 8}" "sorted_wrt (<) (intset_vals is)" "len is < 2 ^ 29"
    using assms by (simp_all add: intset_inv_def)
  show "len is = length (intset_vals is)" by (simp add: intset_vals_def)
  show "holds (encoding is) (contents is) (intset_vals is)"
    unfolding intset_vals_def using assms by (intro holds_decode) (auto simp: intset_inv_def)
qed

lemma inv_intro:
  assumes "e \<in> {2, 4, 8}" "list_all (fits e) vs" "sorted_wrt (<) vs" "length vs < 2 ^ 29"
  shows "intset_inv \<lparr>encoding = e, len = length vs, contents = cells e vs\<rparr>"
    and "intset_vals \<lparr>encoding = e, len = length vs, contents = cells e vs\<rparr> = vs"
  using assms decode_cells_cells[of e vs] by (auto simp: intset_inv_def intset_vals_def)

lemma inv_eq:
  assumes "intset_inv is"
  shows "is = \<lparr>encoding = encoding is, len = length (intset_vals is), contents = cells (encoding is) (intset_vals is)\<rparr>"
  using inv_holds[OF assms] by (simp add: holds_def)

lemma upgrade_correct:
  assumes "intset_inv is" "encoding is < intsetValueEncoding v" "len is + 1 < 2 ^ 29"
  defines "vs \<equiv> (if v < 0 then v # intset_vals is else intset_vals is @ [v])"
  shows "intsetUpgradeAndAdd junk is v =
    Some \<lparr>encoding = intsetValueEncoding v, len = length vs, contents = cells (intsetValueEncoding v) vs\<rparr>"
proof -
  let ?ws = "intset_vals is" and ?e = "encoding is" and ?ne = "intsetValueEncoding v"
  note h = inv_holds[OF assms(1)]
  define is0 where "is0 = intsetResize junk (is\<lparr>encoding := ?ne\<rparr>) (len is + 1)"
  define p :: nat where "p = (if v < 0 then 1 else 0)"
  have p: "p \<le> 1" by (simp add: p_def)
  have ne: "?ne \<le> 8" using enc_values[of v] by auto
  have "(len is + 1) * ?ne \<le> (len is + 1) * 8" using ne by (rule mult_le_mono2)
  then have sz: "(len is + 1) * ?ne mod 2 ^ 32 = (len is + 1) * ?ne" using assms(3) by simp
  have is0: "is0 = is\<lparr>encoding := ?ne, contents := mem_resize junk (contents is) ((len is + 1) * ?ne)\<rparr>"
    using sz by (simp add: is0_def intsetResize_def)
  have "len is * ?e \<le> (len is + 1) * ?ne" using assms(2) by (intro mult_le_mono) simp_all
  then have pre: "take (len is * ?e) (contents is0) = cells ?e (take (len is) ?ws)"
    using h by (simp add: is0 take_mem_resize holds_def)
  define rest where "rest = drop ((len is + p) * ?ne) (contents is0)"
  have lrest: "length rest = (1 - p) * ?ne" 
    using p by (cases p) (simp_all add: rest_def is0 add_mult_distrib)
  have "(len is + p) * ?ne \<le> (len is + 1) * ?ne" using p by (intro mult_le_mono) simp_all
  then obtain m where m: "upgrade_loop is0 ?e p (len is) = Some (is0\<lparr>contents := m\<rparr>)"
      "length m = (len is + 1) * ?ne" "drop (p * ?ne) m = cells ?ne ?ws @ rest"
    using upgrade_loop_correct[of ?e is0 "len is" ?ws p rest] h assms(2) enc_values[of v] pre
    by (auto simp: is0 rest_def holds_def)
  let ?is1 = "is0\<lparr>contents := m\<rparr>"
  have e1: "encoding ?is1 = ?ne" "len ?is1 = len is" by (simp_all add: is0)
  have fin: "(if p = 1 then intsetSet' ?is1 0 v else intsetSet' ?is1 (len ?is1) v) =
      Some (?is1\<lparr>contents := cells ?ne vs\<rparr>)"
  proof (cases "v < 0")
    case True
    then have p1: "p = 1" by (simp add: p_def)
    then have "rest = []" using lrest by simp
    then have "m = take ?ne m @ cells ?ne ?ws" using m(3) p1 append_take_drop_id[of ?ne m] by simp
    moreover have "length (take ?ne m) = ?ne" using m(2) by simp
    ultimately have "mem_write m 0 (cell ?ne v) = Some (cell ?ne v @ cells ?ne ?ws)"
      using mem_write_append[of "take ?ne m" "cell ?ne v" "[]" "cells ?ne ?ws"] by simp
    then show ?thesis using True p1 e1 enc_values[of v] by (simp add: set_eq vs_def)
  next
    case False
    then have p0: "p = 0" by (simp add: p_def)
    have "m = cells ?ne ?ws @ rest @ []" using m(3) p0 by simp
    moreover have "length rest = ?ne" using lrest p0 by simp
    ultimately have "mem_write m (len is * ?ne) (cell ?ne v) = Some (cells ?ne ?ws @ cell ?ne v)"
      using mem_write_append[of rest "cell ?ne v" "cells ?ne ?ws" "[]"] h(3) by simp
    then show ?thesis using False p0 e1 enc_values[of v] by (simp add: set_eq vs_def)
  qed
  have "length vs = (len is + 1) mod 2 ^ 32" using assms(3) h(3) by (simp add: vs_def)
  moreover have "intsetUpgradeAndAdd junk is v =
      do { is \<leftarrow> upgrade_loop is0 ?e p (len is);
           is \<leftarrow> (if p = 1 then intsetSet' is 0 v else intsetSet' is (len is) v);
           Some (is\<lparr>len := (len is + 1) mod 2 ^ 32\<rparr>) }"
    by (simp add: intsetUpgradeAndAdd_def Let_def p_def is0_def)
  ultimately show ?thesis by (simp only: m(1) fin Option.bind.bind_lunit) (simp add: is0)
qed

subsection \<open>Search\<close>

text \<open>The number of elements below a value: where it is, or where it is inserted.\<close>

definition rank :: "int list \<Rightarrow> int \<Rightarrow> nat" where
  "rank vs v = length (filter (\<lambda>x. x < v) vs)"

lemma sorted_filter_less: "sorted_wrt (<) vs \<Longrightarrow> filter (\<lambda>x. x < (v::int)) vs = take (rank vs v) vs"
proof (induction vs)
  case (Cons x vs)
  show ?case
  proof (cases "x < v")
    case True
    then show ?thesis using Cons by (simp add: rank_def)
  next
    case False
    then have "filter (\<lambda>x. x < v) vs = []" using Cons.prems by (auto simp: filter_empty_conv)
    with False show ?thesis by (simp add: rank_def)
  qed
qed simp

lemma rank_le: "rank vs v \<le> length vs"
  by (simp add: rank_def)

lemma rank_unique:
  assumes "sorted_wrt (<) vs" "k \<le> length vs" "\<forall>i<k. vs ! i < v" "\<forall>i<length vs. k \<le> i \<longrightarrow> v \<le> vs ! i"
  shows "rank vs v = k"
proof -
  have "filter (\<lambda>x. x < v) (take k vs) = take k vs"
    using assms(2,3) by (auto simp: filter_id_conv in_set_conv_nth)
  moreover have "filter (\<lambda>x. x < v) (drop k vs) = []"
  proof -
    have "v \<le> x" if "x \<in> set (drop k vs)" for x
      using that assms(2,4) by (auto simp: in_set_conv_nth)
    then show ?thesis by (force simp: filter_empty_conv)
  qed
  ultimately have "filter (\<lambda>x. x < v) vs = take k vs"
    by (metis append_take_drop_id filter_append append_Nil2)
  then show ?thesis using assms(2) by (simp add: rank_def)
qed

lemma sorted_nth_less: "sorted_wrt (<) vs \<Longrightarrow> i < j \<Longrightarrow> j < length vs \<Longrightarrow> vs ! i < (vs ! j :: int)"
  by (rule sorted_wrt_nth_less)

lemma search_loop_correct:
  assumes "encoding is \<in> {2, 4, 8}" "holds (encoding is) (contents is) vs" "sorted_wrt (<) vs"
    and "0 \<le> lo" "hi < int (length vs)" "lo \<le> hi + 1"
    and "\<forall>i<nat lo. vs ! i < v" "\<forall>i<length vs. hi < int i \<longrightarrow> v < vs ! i"
    and "lo \<le> hi \<or> cur \<noteq> v"
  shows "\<exists>lo' mid' cur'. search_loop is v lo hi mid cur = Some (lo', mid', cur') \<and>
     (if cur' = v then mid' = int (rank vs v) \<and> v \<in> set vs
      else lo' = int (rank vs v) \<and> v \<notin> set vs)"
  using assms
proof (induction "is" v lo hi mid cur rule: search_loop.induct)
  case (1 "is" v lo hi mid cur)
  show ?case
  proof (cases "hi \<ge> lo")
    case False
    then have hi: "hi = lo - 1" using 1(8) by simp
    have n: "nat lo \<le> length vs" using 1(7) hi by simp
    have ge: "\<forall>i<length vs. nat lo \<le> i \<longrightarrow> v < vs ! i" using 1(10) hi 1(6) by auto
    then have "rank vs v = nat lo" using 1(5,9) n by (intro rank_unique) (auto intro: less_imp_le)
    moreover have "v \<notin> set vs"
    proof
      assume "v \<in> set vs"
      then obtain i where "i < length vs" "vs ! i = v" by (auto simp: in_set_conv_nth)
      then show False using 1(9) ge by (cases "i < nat lo") auto
    qed
    ultimately show ?thesis using False 1(6,11) by (subst search_loop.simps) auto
  next
    case True
    define m where "m = (lo + hi) div 2"
    have m: "lo \<le> m" "m \<le> hi" "0 \<le> m" using True 1(6) by (auto simp: m_def)
    then have ml: "nat m < length vs" using 1(7) by simp
    have get: "intsetGet' is (nat m) = Some (vs ! nat m)"
      using 1(3,4) ml by (rule get_holds)
    have get': "(if (lo + hi) div 2 < 0 then None else intsetGet' is (nat ((lo + hi) div 2))) = Some (vs ! nat m)"
      using get m by (simp add: m_def[symmetric])
    have unf: "search_loop is v lo hi mid cur =
        (if v > vs ! nat m then search_loop is v (m + 1) hi m (vs ! nat m)
         else if v < vs ! nat m then search_loop is v lo (m - 1) m (vs ! nat m)
         else Some (lo, m, vs ! nat m))"
      using True get m by (subst search_loop.simps) (simp add: Let_def m_def[symmetric])
    consider (gt) "vs ! nat m < v" | (lt) "v < vs ! nat m" | (eq) "v = vs ! nat m" by linarith
    then show ?thesis
    proof cases
      case gt
      have below: "\<forall>i<nat (m + 1). vs ! i < v"
      proof (intro allI impI)
        fix i assume "i < nat (m + 1)"
        then have "i < nat m \<or> i = nat m" using m(3) by linarith
        then show "vs ! i < v"
          using gt sorted_nth_less[OF 1(5), of i "nat m"] ml by auto
      qed
      show ?thesis unfolding unf using gt
        1(1)[OF True m_def get'[folded m_def] gt 1(3,4,5) _ 1(7) _ below 1(10)] m by simp
    next
      case lt
      have above: "\<forall>i<length vs. m - 1 < int i \<longrightarrow> v < vs ! i"
      proof (intro allI impI)
        fix i assume i: "i < length vs" "m - 1 < int i"
        then have "nat m < i \<or> i = nat m" by linarith
        then show "v < vs ! i"
          using lt i sorted_nth_less[OF 1(5), of "nat m" i] by auto
      qed
      show ?thesis unfolding unf using lt
        1(2)[OF True m_def get'[folded m_def] _ lt 1(3,4,5) 1(6) _ _ 1(9) above] m 1(7) by simp
    next
      case eq
      have "rank vs v = nat m"
      proof (rule rank_unique[OF 1(5)])
        show "nat m \<le> length vs" using ml by simp
        show "\<forall>i<nat m. vs ! i < v" using eq sorted_nth_less[OF 1(5), of _ "nat m"] ml by auto
        show "\<forall>i<length vs. nat m \<le> i \<longrightarrow> v \<le> vs ! i"
        proof (intro allI impI)
          fix i assume "i < length vs" "nat m \<le> i"
          then show "v \<le> vs ! i"
            using eq sorted_nth_less[OF 1(5), of "nat m" i] by (cases "i = nat m") auto
        qed
      qed
      then show ?thesis unfolding unf using eq m ml by auto
    qed
  qed
qed

lemma search_correct:
  assumes "encoding is \<in> {2, 4, 8}" "holds (encoding is) (contents is) vs" "sorted_wrt (<) vs"
    "len is = length vs"
  shows "intsetSearch is v = Some (v \<in> set vs, rank vs v)"
proof (cases "len is = 0")
  case True
  then show ?thesis using assms(4) by (simp add: intsetSearch_def rank_def)
next
  case False
  let ?n = "length vs"
  have n: "0 < ?n" using False assms(4) by simp
  note get = get_holds[OF assms(1,2)]
  have last: "intsetGet' is (len is - 1) = Some (vs ! (?n - 1))" and first: "intsetGet' is 0 = Some (vs ! 0)"
    using get n assms(4) by simp_all
  consider (big) "vs ! (?n - 1) < v" | (small) "\<not> vs ! (?n - 1) < v" "v < vs ! 0"
    | (mid) "\<not> vs ! (?n - 1) < v" "\<not> v < vs ! 0" by blast
  then show ?thesis
  proof cases
    case big
    have below: "vs ! i < v" if "i < ?n" for i
    proof -
      have "i < ?n - 1 \<or> i = ?n - 1" using that by linarith
      then show ?thesis using big sorted_nth_less[OF assms(3), of i "?n - 1"] n by auto
    qed
    then have "rank vs v = ?n" using assms(3) by (intro rank_unique) auto
    moreover have "v \<notin> set vs" using below by (force simp: in_set_conv_nth)
    ultimately show ?thesis using False big last assms(4) by (simp add: intsetSearch_def)
  next
    case small
    have above: "v < vs ! i" if "i < ?n" for i
      using that small sorted_nth_less[OF assms(3), of 0 i] by (cases "i = 0") auto
    then have "rank vs v = 0" using assms(3) by (intro rank_unique) (auto intro: less_imp_le)
    moreover have "v \<notin> set vs" using above by (force simp: in_set_conv_nth)
    ultimately show ?thesis using False small last first by (simp add: intsetSearch_def)
  next
    case mid
    then obtain lo' mid' cur' where
      "search_loop is v 0 (int (len is) - 1) (- 1) (- 1) = Some (lo', mid', cur')"
      "if cur' = v then mid' = int (rank vs v) \<and> v \<in> set vs else lo' = int (rank vs v) \<and> v \<notin> set vs"
      using search_loop_correct[OF assms(1-3), of 0 "int (len is) - 1" v "- 1" "- 1"] assms(4) n by auto
    then show ?thesis using False mid last first
      by (auto simp: intsetSearch_def split: if_splits)
  qed
qed

subsection \<open>Insertion and deletion\<close>

definition insert_at_rank :: "int \<Rightarrow> int list \<Rightarrow> int list" where
  "insert_at_rank v vs = take (rank vs v) vs @ v # drop (rank vs v) vs"

lemma set_take_rank: "sorted_wrt (<) vs \<Longrightarrow> set (take (rank vs v) vs) = {x \<in> set vs. x < v}"
  by (simp flip: sorted_filter_less)

lemma set_drop_rank:
  assumes "sorted_wrt (<) vs"
  shows "set (drop (rank vs v) vs) = {x \<in> set vs. \<not> x < v}"
proof -
  have "distinct vs" using assms unfolding strict_sorted_iff ..
  then have "distinct (take (rank vs v) vs @ drop (rank vs v) vs)"
    by (simp only: append_take_drop_id)
  then have "set (take (rank vs v) vs) \<inter> set (drop (rank vs v) vs) = {}"
    by (simp only: distinct_append)
  moreover have "set vs = set (take (rank vs v) vs) \<union> set (drop (rank vs v) vs)"
    by (metis append_take_drop_id set_append)
  ultimately show ?thesis unfolding set_take_rank[OF assms, of v] by blast
qed

lemma sorted_insert_at_rank:
  "sorted_wrt (<) vs \<Longrightarrow> v \<notin> set vs \<Longrightarrow> sorted_wrt (<) (insert_at_rank v vs)"
proof -
  assume s: "sorted_wrt (<) vs" and v: "v \<notin> set vs"
  have "sorted_wrt (<) (take (rank vs v) vs @ drop (rank vs v) vs)" using s by simp
  then show ?thesis
    using v unfolding insert_at_rank_def sorted_wrt_append
    by (auto simp: set_take_rank[OF s] set_drop_rank[OF s] not_less order.order_iff_strict)
qed

lemma set_insert_at_rank: "set (insert_at_rank v vs) = insert v (set vs)"
proof -
  have "set vs = set (take (rank vs v) vs) \<union> set (drop (rank vs v) vs)"
    by (metis append_take_drop_id set_append)
  then show ?thesis by (simp add: insert_at_rank_def)
qed

lemma length_insert_at_rank: "length (insert_at_rank v vs) = Suc (length vs)"
  using rank_le[of vs v] by (simp add: insert_at_rank_def)

definition intset_of :: "nat \<Rightarrow> int list \<Rightarrow> intset" where
  "intset_of e vs = \<lparr>encoding = e, len = length vs, contents = cells e vs\<rparr>"

lemma intset_of_inv:
  assumes "e \<in> {2, 4, 8}" "list_all (fits e) vs" "sorted_wrt (<) vs" "length vs < 2 ^ 29"
  shows "intset_inv (intset_of e vs)" "intset_vals (intset_of e vs) = vs"
  using inv_intro[OF assms] by (simp_all add: intset_of_def)

lemma inv_cases:
  assumes "intset_inv is"
  obtains e vs where "is = intset_of e vs" "e \<in> {2, 4, 8}" "list_all (fits e) vs"
    "sorted_wrt (<) vs" "length vs < 2 ^ 29" "intset_vals is = vs"
proof
  let ?e = "encoding is" and ?vs = "intset_vals is"
  note h = inv_holds[OF assms]
  show "is = intset_of ?e ?vs" using inv_eq[OF assms] by (simp add: intset_of_def)
  show "?e \<in> {2, 4, 8}" "list_all (fits ?e) ?vs" "sorted_wrt (<) ?vs" "length ?vs < 2 ^ 29"
    using h by (simp_all add: holds_def)
qed simp

lemma search_intset_of:
  assumes "e \<in> {2, 4, 8}" "list_all (fits e) vs" "sorted_wrt (<) vs"
  shows "intsetSearch (intset_of e vs) v = Some (v \<in> set vs, rank vs v)"
  using assms by (intro search_correct) (simp_all add: intset_of_def holds_def)

lemma upgrade_is_insert:
  assumes "e \<in> {2, 4, 8}" "list_all (fits e) vs" "sorted_wrt (<) vs" "e < intsetValueEncoding v"
  shows "insert_at_rank v vs = (if v < 0 then v # vs else vs @ [v])" "v \<notin> set vs"
proof -
  note out = upgrade_outside[OF assms(1,4)]
  have r: "rank vs v = (if v < 0 then 0 else length vs)"
    using out assms(2,3) by (intro rank_unique) (auto simp: list_all_length intro: less_imp_le split: if_splits)
  then show "insert_at_rank v vs = (if v < 0 then v # vs else vs @ [v])"
    by (simp add: insert_at_rank_def)
  show "v \<notin> set vs" using out[of v] assms(2) by (auto simp: list_all_iff split: if_splits)
qed

lemma max_encoding: "e \<in> {2, 4, 8} \<Longrightarrow> max e (intsetValueEncoding v) \<in> {2, 4, 8}"
  using enc_values[of v] by (auto simp: max_def)

lemma size_bound: "e \<in> {2, 4, 8 :: nat} \<Longrightarrow> n < 2 ^ 29 \<Longrightarrow> n * e < 2 ^ 32"
proof -
  assume e: "e \<in> {2, 4, 8 :: nat}" and n: "n < 2 ^ 29"
  have "n * e \<le> n * 8" using e by (intro mult_le_mono2) auto
  also have "n * 8 < 2 ^ 32" using n by simp
  finally show ?thesis .
qed

lemma add_in_place:
  assumes e: "e \<in> {2, 4, 8}" "list_all (fits e) vs" "sorted_wrt (<) vs"
    and n: "length vs + 1 < 2 ^ 29" and v: "intsetValueEncoding v \<le> e" "v \<notin> set vs"
  shows "intsetAdd junk (intset_of e vs) v = Some (intset_of e (insert_at_rank v vs), True)"
proof -
  let ?is = "intset_of e vs" and ?r = "rank vs v"
  have sz: "(len ?is + 1) * encoding ?is < 2 ^ 32" using size_bound[OF e(1) n] by (simp add: intset_of_def)
  have "0 < encoding ?is" "contents ?is = cells (encoding ?is) vs" "length vs = len ?is"
    using e(1) by (auto simp: intset_of_def)
  then obtain x where "intsetResize junk ?is (len ?is + 1) = ?is\<lparr>contents := cells (encoding ?is) (vs @ [x])\<rparr>"
    using sz by (rule resize_grow)
  then have x: "intsetResize junk ?is (len ?is + 1) = ?is\<lparr>contents := cells e (vs @ [x])\<rparr>"
    by (simp add: intset_of_def)
  let ?is1 = "?is\<lparr>contents := cells e (vs @ [x])\<rparr>"
  have r: "?r \<le> length vs" by (rule rank_le)
  define ws where "ws = (if ?r < length vs then take (Suc ?r) vs @ drop ?r vs else vs @ [x])"
  have mv: "(if ?r < len ?is1 then intsetMoveTail ?is1 ?r (?r + 1) else Some ?is1) = Some (?is1\<lparr>contents := cells e ws\<rparr>)"
  proof (cases "?r < length vs")
    case True
    then show ?thesis
      using moveTail_holds[of ?is1 "vs @ [x]" ?r "?r + 1"] e(1)
      by (simp add: intset_of_def ws_def)
  qed (simp add: intset_of_def ws_def)
  have ws: "length ws = Suc (length vs)" "ws[?r := v] = insert_at_rank v vs"
  proof -
    show "length ws = Suc (length vs)" using r by (simp add: ws_def)
    show "ws[?r := v] = insert_at_rank v vs"
    proof (cases "?r < length vs")
      case True
      then show ?thesis by (simp add: ws_def insert_at_rank_def take_Suc_conv_app_nth list_update_append)
    next
      case False
      then have "?r = length vs" using r by simp
      then show ?thesis by (simp add: ws_def insert_at_rank_def)
    qed
  qed
  have st: "intsetSet' (?is1\<lparr>contents := cells e ws\<rparr>) ?r v = Some (?is1\<lparr>contents := cells e (insert_at_rank v vs)\<rparr>)"
    using set_holds[of "?is1\<lparr>contents := cells e ws\<rparr>" ws ?r v] e(1) r ws by (simp add: intset_of_def)
  have "encoding ?is = e" by (simp add: intset_of_def)
  then have "intsetAdd junk ?is v =
      do { is \<leftarrow> (if ?r < len ?is1 then intsetMoveTail ?is1 ?r (?r + 1) else Some ?is1);
           is \<leftarrow> intsetSet' is ?r v;
           Some (is\<lparr>len := (len is + 1) mod 2 ^ 32\<rparr>, True) }"
    using v search_intset_of[OF e, of v] unfolding intsetAdd_def Let_def x by simp
  then show ?thesis unfolding mv Option.bind.bind_lunit st using n
    by (simp add: intset_of_def length_insert_at_rank)
qed

lemma intsetAdd_spec:
  assumes "intset_inv is" "fits 8 v" "len is + 1 < 2 ^ 29"
  shows "\<exists>is'. intsetAdd junk is v = Some (is', v \<notin> set (intset_vals is)) \<and> intset_inv is' \<and>
    intset_vals is' = (if v \<in> set (intset_vals is) then intset_vals is else insert_at_rank v (intset_vals is))"
  using assms(1)
proof (rule inv_cases)
  fix e vs
  assume i: "is = intset_of e vs" and e: "e \<in> {2, 4, 8}" "list_all (fits e) vs" "sorted_wrt (<) vs"
    and n: "length vs < 2 ^ 29" and vals: "intset_vals is = vs"
  have n1: "length vs + 1 < 2 ^ 29" using assms(3) by (simp add: i intset_of_def)
  let ?e = "max e (intsetValueEncoding v)" and ?ws = "insert_at_rank v vs"
  have "fits ?e v"
    using fits_encoding[OF assms(2)] enc_values[of v] by (auto intro: fits_mono[of "intsetValueEncoding v"])
  moreover have "list_all (fits ?e) vs" using e by (auto simp: list_all_iff intro: fits_mono[of e])
  ultimately have fw: "list_all (fits ?e) ?ws" by (simp add: list_all_iff set_insert_at_rank)
  have new: "v \<notin> set vs \<Longrightarrow> intset_inv (intset_of ?e ?ws)" "v \<notin> set vs \<Longrightarrow> intset_vals (intset_of ?e ?ws) = ?ws"
    using intset_of_inv[OF max_encoding[OF e(1), of v] fw] sorted_insert_at_rank[OF e(3)] n1
    by (simp_all add: length_insert_at_rank)
  show ?thesis
  proof (cases "e < intsetValueEncoding v")
    case True
    note u = upgrade_is_insert[OF e True]
    have "intsetAdd junk is v = Some (intset_of ?e ?ws, True)"
      using upgrade_correct[OF assms(1), of v junk] True assms(3) u(1) vals
      by (simp add: intsetAdd_def i intset_of_def max_def)
    then show ?thesis using new u(2) vals by simp
  next
    case False
    then have me: "?e = e" by simp
    show ?thesis
    proof (cases "v \<in> set vs")
      case True
      then have "intsetAdd junk is v = Some (is, False)"
        using False search_intset_of[OF e, of v] by (simp add: intsetAdd_def i) (simp add: intset_of_def)
      then show ?thesis using True assms(1) vals by simp
    next
      case nin: False
      then have "intsetAdd junk is v = Some (intset_of e ?ws, True)"
        using False add_in_place[OF e n1] by (simp add: i)
      then show ?thesis using nin new vals me by simp
    qed
  qed
qed

lemma remove_rank:
  assumes "sorted_wrt (<) vs" "v \<in> set vs"
  defines "r \<equiv> rank vs v"
  shows "r < length vs" "vs ! r = v" "take r vs @ drop (Suc r) vs = remove1 v vs"
proof -
  have d: "distinct vs" using assms(1) unfolding strict_sorted_iff ..
  have vd: "v \<in> set (drop r vs)" using set_drop_rank[OF assms(1), of v] assms(2) by (simp add: r_def)
  then show l: "r < length vs" by (cases "r < length vs") auto
  have dr: "drop r vs = vs ! r # drop (Suc r) vs" using l by (simp add: Cons_nth_drop_Suc)
  have "sorted_wrt (<) (drop r vs)" using assms(1) by (metis append_take_drop_id sorted_wrt_append)
  moreover have "\<not> vs ! r < v"
    using set_drop_rank[OF assms(1), of v] dr by (auto simp: r_def)
  ultimately show v: "vs ! r = v" using vd by (auto simp: dr)
  have "v \<notin> set (take r vs)" using set_take_rank[OF assms(1), of v] by (simp add: r_def)
  then have "remove1 v (take r vs @ drop r vs) = take r vs @ remove1 v (drop r vs)"
    by (simp only: remove1_append if_False)
  moreover have "remove1 v (drop r vs) = drop (Suc r) vs" using v by (simp add: dr)
  ultimately show "take r vs @ drop (Suc r) vs = remove1 v vs" by (simp only: append_take_drop_id)
qed

lemma intsetRemove_spec:
  assumes "intset_inv is" "fits 8 v"
  shows "\<exists>is'. intsetRemove junk is v = Some (is', v \<in> set (intset_vals is)) \<and> intset_inv is' \<and>
    intset_vals is' = remove1 v (intset_vals is)"
  using assms(1)
proof (rule inv_cases)
  fix e vs
  assume i: "is = intset_of e vs" and e: "e \<in> {2, 4, 8}" "list_all (fits e) vs" "sorted_wrt (<) vs"
    and n: "length vs < 2 ^ 29" and vals: "intset_vals is = vs"
  have enc: "encoding is = e" "len is = length vs" by (simp_all add: i intset_of_def)
  have s: "intsetSearch is v = Some (v \<in> set vs, rank vs v)" using search_intset_of[OF e] by (simp add: i)
  show ?thesis
  proof (cases "v \<in> set vs")
    case False
    then have "intsetRemove junk is v = Some (is, False)" using s by (simp add: intsetRemove_def Let_def)
    then show ?thesis using False assms(1) vals by (simp add: remove1_idem)
  next
    case True
    let ?r = "rank vs v" and ?ws = "remove1 v vs"
    note rr = remove_rank[OF e(3) True]
    have ve: "intsetValueEncoding v \<le> e" using True e by (auto simp: list_all_iff intro: fits_less_encoding)
    define us where "us = (if ?r < length vs - 1 then ?ws @ [last vs] else vs)"
    have dl: "drop (length vs - 1) vs = [last vs]" using True by (cases vs rule: rev_cases) simp_all
    have lw: "length ?ws = length vs - 1" using True by (simp add: length_remove1)
    have mv: "(if ?r < len is - 1 then intsetMoveTail is (?r + 1) ?r else Some is) = Some (is\<lparr>contents := cells e us\<rparr>)"
    proof (cases "?r < length vs - 1")
      case lt: True
      have "take ?r vs @ take (length vs - Suc ?r) (drop (Suc ?r) vs) @ drop (length vs - 1) vs = ?ws @ [last vs]"
        using rr(3) dl by (simp flip: append_assoc)
      then show ?thesis
        using lt moveTail_holds[of "is" vs "?r + 1" ?r] e(1) rr(1)
        by (simp add: i intset_of_def us_def)
    qed (use enc in \<open>simp add: us_def i intset_of_def\<close>)
    have us: "length us = length vs" "take (length vs - 1) us = ?ws"
    proof -
      show "length us = length vs" using lw rr(1) by (auto simp: us_def)
      show "take (length vs - 1) us = ?ws"
      proof (cases "?r < length vs - 1")
        case False
        then have "?r = length vs - 1" using rr(1) by simp
        then show ?thesis using rr(1,3) by (simp add: us_def)
      qed (simp add: us_def lw)
    qed
    have "intsetResize junk (is\<lparr>contents := cells e us\<rparr>) (len is - 1) = is\<lparr>contents := cells e ?ws\<rparr>"
      using resize_shrink[of "is\<lparr>contents := cells e us\<rparr>" us "len is - 1" junk] us enc size_bound[OF e(1) n] by simp
    then have rm: "intsetRemove junk is v = Some (intset_of e ?ws, True)"
      unfolding intsetRemove_def Let_def using ve enc s True mv lw
      by (simp add: intset_of_def)
    have "list_all (fits e) ?ws" using e(2) by (auto simp: list_all_iff dest: notin_set_remove1)
    moreover have "sorted_wrt (<) ?ws" using e(3) by (metis rr(3) sorted_wrt_append append_take_drop_id sorted_remove1 distinct_remove1 strict_sorted_iff)
    ultimately show ?thesis using intset_of_inv[OF e(1), of ?ws] rm True vals n lw by simp
  qed
qed

lemma intsetFind_spec:
  assumes "intset_inv is"
  shows "intsetFind is v = Some (v \<in> set (intset_vals is))"
  using assms
proof (rule inv_cases)
  fix e vs
  assume i: "is = intset_of e vs" and e: "e \<in> {2, 4, 8}" "list_all (fits e) vs" "sorted_wrt (<) vs"
    and vals: "intset_vals is = vs"
  have "v \<in> set vs \<Longrightarrow> intsetValueEncoding v \<le> e"
    using e by (auto simp: list_all_iff intro: fits_less_encoding)
  then show ?thesis using search_intset_of[OF e, of v] vals
    by (auto simp: intsetFind_def Let_def i) (simp add: intset_of_def)
qed

lemma intset_card: "intset_inv is \<Longrightarrow> len is = card (set (intset_vals is))"
  using inv_holds(3,4)[of "is"] by (simp add: strict_sorted_iff distinct_card)

lemma intsetNew_inv: "intset_inv intsetNew" "intset_vals intsetNew = []"
  by (simp_all add: intset_inv_def intsetNew_def intset_vals_def)

lemma intsetGet_spec:
  assumes "intset_inv is"
  shows "intsetGet is pos = Some (if pos < len is then Some (intset_vals is ! pos) else None)"
  using get_holds[OF inv_holds(1,2)[OF assms]] inv_holds(3)[OF assms]
  by (simp add: intsetGet_def)

subsection \<open>The set contract\<close>

interpretation intset_set: bounded_set "intsetAdd junk" "intsetRemove junk" intsetFind intsetLen "\<lambda>x. x"
  "\<lambda>is. set (intset_vals is)" intset_inv "fits 8" "2 ^ 29 - 1"
proof unfold_locales
  fix s x assume s: "intset_inv s" "fits 8 x"
  show "intsetFind s x = Some (x \<in> set (intset_vals s))" using s(1) by (rule intsetFind_spec)
  have d: "distinct (intset_vals s)" using inv_holds(4)[OF s(1)] by (simp add: strict_sorted_iff)
  show "\<exists>s'. intsetRemove junk s x = Some (s', x \<in> set (intset_vals s)) \<and> intset_inv s' \<and>
      set (intset_vals s') = set (intset_vals s) - {x}"
    using intsetRemove_spec[OF s, of junk] d by auto
  assume "intsetLen s < 2 ^ 29 - 1"
  then have "len s + 1 < 2 ^ 29" by (simp add: intsetLen_def)
  from intsetAdd_spec[OF s this, of junk]
  show "\<exists>s'. intsetAdd junk s x = Some (s', x \<notin> set (intset_vals s)) \<and> intset_inv s' \<and>
      set (intset_vals s') = insert x (set (intset_vals s))"
    by (auto simp: set_insert_at_rank)
next
  fix s assume "intset_inv s"
  then show "finite (set (intset_vals s)) \<and> intsetLen s = card (set (intset_vals s))"
    by (simp add: intset_card intsetLen_def)
qed

subsection \<open>Properties\<close>

text \<open>
  C21. Inserting a 64-bit integer into a well-formed intset succeeds without touching a byte
  outside the block (also when the whole set is re-encoded to a wider integer type in place), the
  result is well-formed, it holds the old elements and the new one in increasing order, and the
  success flag says whether the element was new.
\<close>

theorem intsetAdd_correct:
  assumes "intset_inv is" "- (2 ^ 63) \<le> v" "v < 2 ^ 63" "len is + 1 < 2 ^ 29"
  shows "\<exists>is'. intsetAdd junk is v = Some (is', v \<notin> set (intset_vals is)) \<and> intset_inv is' \<and>
    intset_vals is' = sorted_list_of_set (insert v (set (intset_vals is)))"
proof -
  have "fits 8 v" using assms(2,3) by (simp add: fits_def)
  then obtain is' where i: "intsetAdd junk is v = Some (is', v \<notin> set (intset_vals is))" "intset_inv is'"
    "set (intset_vals is') = insert v (set (intset_vals is))"
    using intset_set.add[OF assms(1), of v junk] assms(4) by (auto simp: intsetLen_def)
  have "sorted_list_of_set (set (intset_vals is')) = intset_vals is'"
    using inv_holds(4)[OF i(2)] by (intro strict_sorted_equal) (simp_all add: strict_sorted_iff)
  with i show ?thesis by simp
qed

theorem intsetAdd_correct_witness:
  "\<exists>is'. intsetAdd (\<lambda>_. 255) intsetNew (- 70000) = Some (is', - 70000 \<notin> set (intset_vals intsetNew)) \<and>
     intset_inv is' \<and> intset_vals is' = sorted_list_of_set (insert (- 70000) (set (intset_vals intsetNew)))"
  by (rule intsetAdd_correct) (simp_all add: intset_inv_def intsetNew_def intset_vals_def)

text \<open>
  Removing an integer from a well-formed intset keeps the others in order, keeps the
  invariant, stays inside the block, and reports whether the element was there.
\<close>

theorem intsetRemove_correct:
  assumes "intset_inv is" "- (2 ^ 63) \<le> v" "v < 2 ^ 63"
  shows "\<exists>is'. intsetRemove junk is v = Some (is', v \<in> set (intset_vals is)) \<and> intset_inv is' \<and>
    intset_vals is' = filter (\<lambda>x. x \<noteq> v) (intset_vals is)"
proof -
  have "fits 8 v" using assms(2,3) by (simp add: fits_def)
  moreover have "distinct (intset_vals is)" using inv_holds(4)[OF assms(1)] by (simp add: strict_sorted_iff)
  ultimately show ?thesis using intsetRemove_spec[OF assms(1), of v junk]
    by (simp add: distinct_remove1_removeAll removeAll_filter_not_eq) (metis (mono_tags, lifting) filter_cong)
qed

theorem intsetRemove_correct_witness:
  "\<exists>is'. intsetRemove (\<lambda>_. 0) \<lparr>encoding = 2, len = 2, contents = [5, 0, 7, 0]\<rparr> 5 =
      Some (is', 5 \<in> set (intset_vals \<lparr>encoding = 2, len = 2, contents = [5, 0, 7, 0]\<rparr>)) \<and>
     intset_inv is' \<and>
     intset_vals is' = filter (\<lambda>x. x \<noteq> 5) (intset_vals \<lparr>encoding = 2, len = 2, contents = [5, 0, 7, 0]\<rparr>)"
  by (rule intsetRemove_correct)
    (simp_all add: intset_inv_def intset_vals_def signed_of_def decode_cells_numeral)

text \<open>
  The bisection search finds a value exactly when it is an element, whatever the encoding,
  and any batch of insertions followed by a lookup finds exactly the old and the inserted values.
\<close>

theorem intset_batch_then_find:
  assumes "intset_inv is" "list_all (\<lambda>v. - (2 ^ 63) \<le> v \<and> v < 2 ^ 63) vs" "len is + length vs < 2 ^ 29"
  shows "\<exists>is' n. add_loop (intsetAdd junk) is vs = Some (is', n) \<and> intsetLen is' = intsetLen is + n \<and>
    (\<forall>v. intsetFind is' v = Some (v \<in> set (intset_vals is) \<or> v \<in> set vs))"
proof -
  have "list_all (fits 8) vs" using assms(2) by (simp add: list_all_iff fits_def)
  then show ?thesis
    using intset_set.add_loop_correct[OF assms(1), of vs junk] assms(3) intsetFind_spec
    by (auto simp: intsetLen_def)
qed

theorem intset_batch_then_find_witness:
  "\<exists>is' n. add_loop (intsetAdd (\<lambda>_. 0)) intsetNew [1023, - 5, 3000000000] = Some (is', n) \<and>
    intsetLen is' = intsetLen intsetNew + n \<and>
    (\<forall>v. intsetFind is' v = Some (v \<in> set (intset_vals intsetNew) \<or> v \<in> set [1023, - 5, 3000000000]))"
  by (rule intset_batch_then_find) (simp_all add: intset_inv_def intsetNew_def intset_vals_def)

end
