(* ===== verification/Dict.thy ===== *)
theory Dict
  imports Interfaces "HOL-Library.Multiset"
begin

text \<open>
  The hash tables of Redis (\<open>src/redis/src/dict.c\<close>, \<open>dict.h\<close>): two tables with chaining and
  incremental rehashing.  A \<open>dictht\<close> keeps its array of chains together with \<open>size\<close>,
  \<open>sizemask\<close> and \<open>used\<close>; a chain is the list of its entries from the head, a null table is the
  empty list.  A pointer to an entry is its location (table, bucket, position in the chain).
  Every access to a table is checked, so an operation that returns \<open>Some\<close> stayed inside the
  arrays and passed the assertions of the source.  The Windows variant of the \<open>#ifdef\<close>s is
  modelled: \<open>size_t\<close> has 64 bits and \<open>long\<close> has 32.
\<close>

subsection \<open>Data\<close>

record ('k, 'v) dictType =
  hashFunction :: "'k \<Rightarrow> u32"
  keyDup :: "('k \<Rightarrow> 'k) option"
  valDup :: "('v \<Rightarrow> 'v) option"
  keyCompare :: "('k \<Rightarrow> 'k \<Rightarrow> bool) option"

record ('k, 'v) dictht =
  table :: "('k \<times> 'v) list list"
  ht_size :: nat
  sizemask :: nat
  used :: nat

record ('k, 'v) dict =
  dtype :: "('k, 'v) dictType"
  ht0 :: "('k, 'v) dictht"
  ht1 :: "('k, 'v) dictht"
  rehashidx :: int
  iterators :: int

text \<open>A pointer to an entry: the table, the bucket, the position in the chain.\<close>

type_synonym loc = "nat \<times> nat \<times> nat"

definition DICT_HT_INITIAL_SIZE :: nat where
  "DICT_HT_INITIAL_SIZE = 4"

definition LONG_MAX :: nat where
  "LONG_MAX = 2147483647"

definition dict_force_resize_ratio :: nat where
  "dict_force_resize_ratio = 5"

text \<open>Counters of type \<open>size_t\<close> wrap around.\<close>

definition inc64 :: "nat \<Rightarrow> nat" where
  "inc64 n = (n + 1) mod 2 ^ 64"

definition dec64 :: "nat \<Rightarrow> nat" where
  "dec64 n = (if n = 0 then 2 ^ 64 - 1 else n - 1)"

subsection \<open>Macros of \<open>dict.h\<close>\<close>

definition dictCompareKeys :: "('k, 'v) dict \<Rightarrow> 'k \<Rightarrow> 'k \<Rightarrow> bool" where
  "dictCompareKeys d k1 k2 =
     (case keyCompare (dtype d) of Some cmp \<Rightarrow> cmp k1 k2 | None \<Rightarrow> k1 = k2)"

definition dictHashKey :: "('k, 'v) dict \<Rightarrow> 'k \<Rightarrow> u32" where
  "dictHashKey d k = hashFunction (dtype d) k"

definition dup_key :: "('k, 'v) dict \<Rightarrow> 'k \<Rightarrow> 'k" where
  "dup_key d k = (case keyDup (dtype d) of Some f \<Rightarrow> f k | None \<Rightarrow> k)"

definition dup_val :: "('k, 'v) dict \<Rightarrow> 'v \<Rightarrow> 'v" where
  "dup_val d v = (case valDup (dtype d) of Some f \<Rightarrow> f v | None \<Rightarrow> v)"

definition dictIsRehashing :: "('k, 'v) dict \<Rightarrow> bool" where
  "dictIsRehashing d \<longleftrightarrow> rehashidx d \<noteq> -1"

definition dictSize :: "('k, 'v) dict \<Rightarrow> nat" where
  "dictSize d = (used (ht0 d) + used (ht1 d)) mod 2 ^ 64"

definition dictSlots :: "('k, 'v) dict \<Rightarrow> nat" where
  "dictSlots d = (ht_size (ht0 d) + ht_size (ht1 d)) mod 2 ^ 64"

definition get_ht :: "('k, 'v) dict \<Rightarrow> nat \<Rightarrow> ('k, 'v) dictht" where
  "get_ht d t = (if t = 0 then ht0 d else ht1 d)"

definition set_ht :: "('k, 'v) dict \<Rightarrow> nat \<Rightarrow> ('k, 'v) dictht \<Rightarrow> ('k, 'v) dict" where
  "set_ht d t h = (if t = 0 then d\<lparr>ht0 := h\<rparr> else d\<lparr>ht1 := h\<rparr>)"

text \<open>The bucket of a hash value in a table: \<open>h & sizemask\<close>.\<close>

definition bucket :: "('k, 'v) dictht \<Rightarrow> u32 \<Rightarrow> nat" where
  "bucket h w = unat w AND sizemask h"

text \<open>Reading an entry, and \<open>dictSetVal\<close> through a pointer to one.\<close>

definition entry_at :: "('k, 'v) dict \<Rightarrow> loc \<Rightarrow> ('k \<times> 'v) option" where
  "entry_at d l = (case l of (t, i, p) \<Rightarrow>
     do { c \<leftarrow> arr_get (table (get_ht d t)) (int i); arr_get c (int p) })"

definition dictSetVal :: "('k, 'v) dict \<Rightarrow> loc \<Rightarrow> 'v \<Rightarrow> ('k, 'v) dict option" where
  "dictSetVal d l v = (case l of (t, i, p) \<Rightarrow>
     do { c \<leftarrow> arr_get (table (get_ht d t)) (int i);
          (k, _) \<leftarrow> arr_get c (int p);
          c' \<leftarrow> arr_set c (int p) (k, dup_val d v);
          tb \<leftarrow> arr_set (table (get_ht d t)) (int i) c';
          Some (set_ht d t ((get_ht d t)\<lparr>table := tb\<rparr>)) })"

subsection \<open>Creation and growth\<close>

definition dictReset :: "('k, 'v) dictht" where
  "dictReset = \<lparr>table = [], ht_size = 0, sizemask = 0, used = 0\<rparr>"

definition dictInit :: "('k, 'v) dictType \<Rightarrow> ('k, 'v) dict" where
  "dictInit T = \<lparr>dtype = T, ht0 = dictReset, ht1 = dictReset, rehashidx = -1, iterators = 0\<rparr>"

definition dictCreate :: "('k, 'v) dictType \<Rightarrow> ('k, 'v) dict" where
  "dictCreate T = dictInit T"

text \<open>The loop \<open>i *= 2\<close> until \<open>i >= size\<close>; it starts at 4, so \<open>i\<close> is never 0.\<close>

function next_power_loop :: "nat \<Rightarrow> nat \<Rightarrow> nat" where
  "next_power_loop i n = (if i = 0 \<or> n \<le> i then i else next_power_loop (i * 2) n)"
  by auto
termination by (relation "measure (\<lambda>(i, n). n - i)") auto

declare next_power_loop.simps [simp del]

definition dictNextPower :: "nat \<Rightarrow> nat" where
  "dictNextPower n = (if LONG_MAX \<le> n then LONG_MAX else next_power_loop DICT_HT_INITIAL_SIZE n)"

text \<open>The boolean result is \<open>DICT_OK\<close>.\<close>

definition dictExpand :: "('k, 'v) dict \<Rightarrow> nat \<Rightarrow> ('k, 'v) dict \<times> bool" where
  "dictExpand d n =
     (let realsize = dictNextPower n
      in if dictIsRehashing d \<or> n < used (ht0 d) then (d, False)
         else let h = \<lparr>table = replicate realsize [], ht_size = realsize,
                       sizemask = realsize - 1, used = 0\<rparr>
              in if table (ht0 d) = [] then (d\<lparr>ht0 := h\<rparr>, True)
                 else (d\<lparr>ht1 := h, rehashidx := 0\<rparr>, True))"

text \<open>\<open>minimal\<close> is an \<open>int\<close>: the low 32 bits of \<open>used\<close>, sign-extended when passed on as \<open>size_t\<close>.\<close>

definition dictResize :: "bool \<Rightarrow> ('k, 'v) dict \<Rightarrow> ('k, 'v) dict \<times> bool" where
  "dictResize dict_can_resize d =
     (if \<not> dict_can_resize \<or> dictIsRehashing d then (d, False)
      else let minimal = sint (of_nat (used (ht0 d)) :: u32);
               minimal = (if minimal < int DICT_HT_INITIAL_SIZE then int DICT_HT_INITIAL_SIZE else minimal)
           in dictExpand d (nat (minimal mod 2 ^ 64)))"

definition dictExpandIfNeeded :: "bool \<Rightarrow> ('k, 'v) dict \<Rightarrow> ('k, 'v) dict \<times> bool" where
  "dictExpandIfNeeded dict_can_resize d =
     (if dictIsRehashing d then (d, True)
      else if ht_size (ht0 d) = 0 then dictExpand d DICT_HT_INITIAL_SIZE
      else if ht_size (ht0 d) \<le> used (ht0 d) \<and>
              (dict_can_resize \<or> dict_force_resize_ratio < used (ht0 d) div ht_size (ht0 d))
      then dictExpand d (used (ht0 d) * 2 mod 2 ^ 64)
      else (d, True))"

subsection \<open>Incremental rehashing\<close>

text \<open>\<open>while (table[rehashidx] == NULL) rehashidx++\<close>: \<open>None\<close> when it runs off the table.\<close>

function skip_empty :: "'a list list \<Rightarrow> nat \<Rightarrow> nat option" where
  "skip_empty tb i =
     (if i < length tb then if tb ! i = [] then skip_empty tb (Suc i) else Some i else None)"
  by auto
termination by (relation "measure (\<lambda>(tb, i). length tb - i)") auto

declare skip_empty.simps [simp del]

text \<open>Move the entries of one chain, head first, from table 0 to table 1.\<close>

fun move_chain :: "('k, 'v) dict \<Rightarrow> ('k \<times> 'v) list \<Rightarrow> ('k, 'v) dict option" where
  "move_chain d [] = Some d"
| "move_chain d (e # nextde) =
     (let h = bucket (ht1 d) (dictHashKey d (fst e))
      in do { c \<leftarrow> arr_get (table (ht1 d)) (int h);
              tb \<leftarrow> arr_set (table (ht1 d)) (int h) (e # c);
              move_chain
                (d\<lparr>ht0 := (ht0 d)\<lparr>used := dec64 (used (ht0 d))\<rparr>,
                   ht1 := (ht1 d)\<lparr>table := tb, used := inc64 (used (ht1 d))\<rparr>\<rparr>) nextde })"

text \<open>The boolean result says whether there may be more to move (1 in the source).\<close>

fun rehash_loop :: "('k, 'v) dict \<Rightarrow> nat \<Rightarrow> (('k, 'v) dict \<times> bool) option" where
  "rehash_loop d 0 = Some (d, True)"
| "rehash_loop d (Suc n) =
     (if used (ht0 d) = 0
      then Some (d\<lparr>ht0 := ht1 d, ht1 := dictReset, rehashidx := -1\<rparr>, False)
      else if \<not> rehashidx d < int (ht_size (ht0 d)) then None
      else do { i \<leftarrow> skip_empty (table (ht0 d)) (nat (rehashidx d));
                de \<leftarrow> arr_get (table (ht0 d)) (int i);
                d \<leftarrow> move_chain (d\<lparr>rehashidx := int i\<rparr>) de;
                tb \<leftarrow> arr_set (table (ht0 d)) (int i) [];
                rehash_loop (d\<lparr>ht0 := (ht0 d)\<lparr>table := tb\<rparr>, rehashidx := int i + 1\<rparr>) n })"

definition dictRehash :: "('k, 'v) dict \<Rightarrow> nat \<Rightarrow> (('k, 'v) dict \<times> bool) option" where
  "dictRehash d n = (if \<not> dictIsRehashing d then Some (d, False) else rehash_loop d n)"

definition dictRehashStep :: "('k, 'v) dict \<Rightarrow> ('k, 'v) dict option" where
  "dictRehashStep d = (if iterators d = 0 then do { (d, _) \<leftarrow> dictRehash d 1; Some d } else Some d)"

text \<open>
  \<open>dictRehashMilliseconds\<close>: \<open>elapsed i\<close> is the clock difference read after the \<open>i\<close>-th batch
  of 100 steps; the result is the dictionary and the number of steps reported.  Each batch
  moves entries or ends the rehashing; the fuel bounds the number of batches.
\<close>

fun rehash_ms_loop :: "nat \<Rightarrow> (nat \<Rightarrow> int) \<Rightarrow> int \<Rightarrow> ('k, 'v) dict \<Rightarrow> nat \<Rightarrow> (('k, 'v) dict \<times> nat) option" where
  "rehash_ms_loop 0 elapsed ms d i = None"
| "rehash_ms_loop (Suc fuel) elapsed ms d i =
     do { (d, more) \<leftarrow> dictRehash d 100;
          if \<not> more then Some (d, 100 * i)
          else if ms < elapsed i then Some (d, 100 * (i + 1))
          else rehash_ms_loop fuel elapsed ms d (i + 1) }"

definition dictRehashMilliseconds ::
    "nat \<Rightarrow> (nat \<Rightarrow> int) \<Rightarrow> ('k, 'v) dict \<Rightarrow> int \<Rightarrow> (('k, 'v) dict \<times> nat) option" where
  "dictRehashMilliseconds fuel elapsed d ms = rehash_ms_loop fuel elapsed ms d 0"

subsection \<open>Lookup, insertion, replacement, deletion\<close>

text \<open>The walk along one chain: the position of the first entry with the key.\<close>

fun chain_find :: "('k, 'v) dict \<Rightarrow> 'k \<Rightarrow> ('k \<times> 'v) list \<Rightarrow> nat option" where
  "chain_find d key [] = None"
| "chain_find d key (he # next_he) =
     (if dictCompareKeys d key (fst he) then Some 0 else map_option Suc (chain_find d key next_he))"

text \<open>The loop \<open>for (table = 0; table <= 1; table++)\<close> shared by find, delete and add.\<close>

fun search_tables :: "('k, 'v) dict \<Rightarrow> 'k \<Rightarrow> nat list \<Rightarrow> loc option option" where
  "search_tables d key [] = Some None"
| "search_tables d key (t # ts) =
     (let idx = bucket (get_ht d t) (dictHashKey d key)
      in do { he \<leftarrow> arr_get (table (get_ht d t)) (int idx);
              case chain_find d key he of
                Some p \<Rightarrow> Some (Some (t, idx, p))
              | None \<Rightarrow> if \<not> dictIsRehashing d then Some None else search_tables d key ts })"

text \<open>The index is returned as an \<open>int\<close>; -1 says that the key exists or the table cannot grow.\<close>

definition dictKeyIndex :: "bool \<Rightarrow> ('k, 'v) dict \<Rightarrow> 'k \<Rightarrow> (('k, 'v) dict \<times> int) option" where
  "dictKeyIndex dict_can_resize d key =
     (let (d, ok) = dictExpandIfNeeded dict_can_resize d
      in if \<not> ok then Some (d, -1)
         else do { l \<leftarrow> search_tables d key [0, 1];
                   case l of
                     Some _ \<Rightarrow> Some (d, -1)
                   | None \<Rightarrow>
                       let idx = bucket (get_ht d (if dictIsRehashing d then 1 else 0)) (dictHashKey d key)
                       in Some (d, sint (of_nat idx :: u32)) })"

text \<open>\<open>junk\<close> is the content of the value field of a freshly allocated entry.\<close>

definition dictAddRaw :: "bool \<Rightarrow> 'v \<Rightarrow> ('k, 'v) dict \<Rightarrow> 'k \<Rightarrow> (('k, 'v) dict \<times> loc option) option" where
  "dictAddRaw dict_can_resize junk d key =
     do { d \<leftarrow> (if dictIsRehashing d then dictRehashStep d else Some d);
          (d, index) \<leftarrow> dictKeyIndex dict_can_resize d key;
          if index = -1 then Some (d, None)
          else let t = (if dictIsRehashing d then 1 else 0);
                   ht = get_ht d t
               in do { c \<leftarrow> arr_get (table ht) index;
                       tb \<leftarrow> arr_set (table ht) index ((dup_key d key, junk) # c);
                       Some (set_ht d t (ht\<lparr>table := tb, used := inc64 (used ht)\<rparr>),
                             Some (t, nat index, 0)) } }"

definition dictAdd :: "bool \<Rightarrow> 'v \<Rightarrow> ('k, 'v) dict \<Rightarrow> 'k \<Rightarrow> 'v \<Rightarrow> (('k, 'v) dict \<times> bool) option" where
  "dictAdd dict_can_resize junk d key val =
     do { (d, entry) \<leftarrow> dictAddRaw dict_can_resize junk d key;
          case entry of
            None \<Rightarrow> Some (d, False)
          | Some l \<Rightarrow> do { d \<leftarrow> dictSetVal d l val; Some (d, True) } }"

definition dictFind :: "('k, 'v) dict \<Rightarrow> 'k \<Rightarrow> (('k, 'v) dict \<times> loc option) option" where
  "dictFind d key =
     (if ht_size (ht0 d) = 0 then Some (d, None)
      else do { d \<leftarrow> (if dictIsRehashing d then dictRehashStep d else Some d);
                l \<leftarrow> search_tables d key [0, 1];
                Some (d, l) })"

definition dictFetchValue :: "('k, 'v) dict \<Rightarrow> 'k \<Rightarrow> (('k, 'v) dict \<times> 'v option) option" where
  "dictFetchValue d key =
     do { (d, he) \<leftarrow> dictFind d key;
          case he of
            None \<Rightarrow> Some (d, None)
          | Some l \<Rightarrow> do { e \<leftarrow> entry_at d l; Some (d, Some (snd e)) } }"

text \<open>The third component is what the destructor of values is called on.\<close>

definition dictReplace ::
    "bool \<Rightarrow> 'v \<Rightarrow> ('k, 'v) dict \<Rightarrow> 'k \<Rightarrow> 'v \<Rightarrow> (('k, 'v) dict \<times> bool \<times> 'v list) option" where
  "dictReplace dict_can_resize junk d key val =
     do { (d, ok) \<leftarrow> dictAdd dict_can_resize junk d key val;
          if ok then Some (d, True, [])
          else do { (d, entry) \<leftarrow> dictFind d key;
                    case entry of
                      None \<Rightarrow> None
                    | Some l \<Rightarrow> do { auxentry \<leftarrow> entry_at d l;
                                    d \<leftarrow> dictSetVal d l val;
                                    Some (d, False, [snd auxentry]) } } }"

definition dictReplaceRaw ::
    "bool \<Rightarrow> 'v \<Rightarrow> ('k, 'v) dict \<Rightarrow> 'k \<Rightarrow> (('k, 'v) dict \<times> loc option) option" where
  "dictReplaceRaw dict_can_resize junk d key =
     do { (d, entry) \<leftarrow> dictFind d key;
          case entry of
            Some l \<Rightarrow> Some (d, Some l)
          | None \<Rightarrow> dictAddRaw dict_can_resize junk d key }"

text \<open>The third component is the entry whose key and value go to the destructors.\<close>

definition dictGenericDelete ::
    "('k, 'v) dict \<Rightarrow> 'k \<Rightarrow> bool \<Rightarrow> (('k, 'v) dict \<times> bool \<times> ('k \<times> 'v) list) option" where
  "dictGenericDelete d key nofree =
     (if ht_size (ht0 d) = 0 then Some (d, False, [])
      else do { d \<leftarrow> (if dictIsRehashing d then dictRehashStep d else Some d);
                l \<leftarrow> search_tables d key [0, 1];
                case l of
                  None \<Rightarrow> Some (d, False, [])
                | Some (t, idx, p) \<Rightarrow>
                    do { c \<leftarrow> arr_get (table (get_ht d t)) (int idx);
                         he \<leftarrow> arr_get c (int p);
                         tb \<leftarrow> arr_set (table (get_ht d t)) (int idx) (take p c @ drop (Suc p) c);
                         Some (set_ht d t ((get_ht d t)\<lparr>table := tb, used := dec64 (used (get_ht d t))\<rparr>),
                               True, if nofree then [] else [he]) } })"

definition dictDelete :: "('k, 'v) dict \<Rightarrow> 'k \<Rightarrow> (('k, 'v) dict \<times> bool \<times> ('k \<times> 'v) list) option" where
  "dictDelete d key = dictGenericDelete d key False"

definition dictDeleteNoFree :: "('k, 'v) dict \<Rightarrow> 'k \<Rightarrow> (('k, 'v) dict \<times> bool \<times> ('k \<times> 'v) list) option" where
  "dictDeleteNoFree d key = dictGenericDelete d key True"

subsection \<open>Clearing\<close>

text \<open>
  The loop of \<open>_dictClear\<close> from bucket \<open>i\<close>: the entries passed to the destructors and the
  number of calls of the callback; the walk along a chain decrements \<open>used\<close> once per entry.
\<close>

function clear_loop :: "bool \<Rightarrow> ('k, 'v) dictht \<Rightarrow> nat \<Rightarrow> (('k \<times> 'v) list \<times> nat) option" where
  "clear_loop callback h i =
     (if i < ht_size h \<and> 0 < used h
      then let calls = (if callback \<and> i AND 65535 = 0 then 1 else 0)
           in do { he \<leftarrow> arr_get (table h) (int i);
                   (freed, n) \<leftarrow> clear_loop callback (h\<lparr>used := (dec64 ^^ length he) (used h)\<rparr>) (Suc i);
                   Some (he @ freed, calls + n) }
      else Some ([], 0))"
  by auto
termination by (relation "measure (\<lambda>(c, h, i). ht_size h - i)") auto

declare clear_loop.simps [simp del]

definition dictClear :: "('k, 'v) dictht \<Rightarrow> bool \<Rightarrow> (('k, 'v) dictht \<times> ('k \<times> 'v) list \<times> nat) option" where
  "dictClear h callback =
     do { (freed, n) \<leftarrow> clear_loop callback h 0; Some (dictReset, freed, n) }"

text \<open>\<open>dictRelease\<close>: the entries freed before the dictionary itself.\<close>

definition dictRelease :: "('k, 'v) dict \<Rightarrow> ('k \<times> 'v) list option" where
  "dictRelease d =
     do { (h0, f0, _) \<leftarrow> dictClear (ht0 d) False;
          (h1, f1, _) \<leftarrow> dictClear (ht1 d) False;
          Some (f0 @ f1) }"

definition dictEmpty :: "('k, 'v) dict \<Rightarrow> bool \<Rightarrow> (('k, 'v) dict \<times> ('k \<times> 'v) list) option" where
  "dictEmpty d callback =
     do { (h0, f0, _) \<leftarrow> dictClear (ht0 d) callback;
          (h1, f1, _) \<leftarrow> dictClear (ht1 d) callback;
          Some (d\<lparr>ht0 := h0, ht1 := h1, rehashidx := -1, iterators := 0\<rparr>, f0 @ f1) }"

subsection \<open>Invariant and abstraction\<close>

definition entries :: "('k, 'v) dict \<Rightarrow> ('k \<times> 'v) list" where
  "entries d = concat (table (ht0 d)) @ concat (table (ht1 d))"

definition lookup :: "('k, 'v) dict \<Rightarrow> 'k \<rightharpoonup> 'v" where
  "lookup d = map_of (entries d)"

text \<open>Copies are equal to the originals, and comparison is equality.\<close>

definition type_ok :: "('k, 'v) dictType \<Rightarrow> bool" where
  "type_ok T \<longleftrightarrow> pred_option (\<lambda>f. \<forall>k. f k = k) (keyDup T) \<and> pred_option (\<lambda>f. \<forall>v. f v = v) (valDup T)
     \<and> pred_option (\<lambda>f. \<forall>a b. f a b = (a = b)) (keyCompare T)"

text \<open>An allocated table: a power of two of buckets, every entry in the bucket of its hash.\<close>

definition ht_ok :: "('k, 'v) dictType \<Rightarrow> ('k, 'v) dictht \<Rightarrow> bool" where
  "ht_ok T h \<longleftrightarrow>
     (\<exists>k\<le>31. ht_size h = 2 ^ k) \<and> sizemask h = ht_size h - 1 \<and> length (table h) = ht_size h \<and>
     used h = length (concat (table h)) \<and>
     (\<forall>i<ht_size h. \<forall>e\<in>set (table h ! i). bucket h (hashFunction T (fst e)) = i)"

definition dict_max :: nat where
  "dict_max = 2 ^ 30 - 1"

definition dict_inv :: "('k, 'v) dict \<Rightarrow> bool" where
  "dict_inv d \<longleftrightarrow>
     type_ok (dtype d) \<and> (ht0 d = dictReset \<or> ht_ok (dtype d) (ht0 d)) \<and>
     distinct (map fst (entries d)) \<and> length (entries d) \<le> dict_max \<and>
     (if rehashidx d = -1 then ht1 d = dictReset
      else ht_ok (dtype d) (ht0 d) \<and> ht_ok (dtype d) (ht1 d) \<and> 0 \<le> rehashidx d \<and>
           (\<forall>i<nat (rehashidx d). i < ht_size (ht0 d) \<longrightarrow> table (ht0 d) ! i = []))"

subsection \<open>One table\<close>

lemma bucket_less: "ht_ok T h \<Longrightarrow> bucket h w < ht_size h"
proof -
  assume "ht_ok T h"
  then obtain k where "ht_size h = 2 ^ k" "sizemask h = mask k"
    by (auto simp: ht_ok_def mask_eq_exp_minus_1)
  then show ?thesis by (simp add: bucket_def take_bit_nat_less_exp flip: take_bit_eq_mask)
qed

lemma ht_ok_length: "ht_ok T h \<Longrightarrow> length (table h) = ht_size h"
  by (simp add: ht_ok_def)

lemma ht_ok_table_nonempty: "ht_ok T h \<Longrightarrow> table h \<noteq> [] \<and> 0 < ht_size h"
  by (auto simp: ht_ok_def)

lemma ht_size_bound: "ht_ok T h \<Longrightarrow> ht_size h \<le> 2 ^ 31"
  unfolding ht_ok_def by (metis one_le_numeral power_increasing)

lemma bucket_table_indep [simp]: "bucket (h\<lparr>table := x\<rparr>) w = bucket h w" "bucket (h\<lparr>used := n\<rparr>) w = bucket h w"
  by (simp_all add: bucket_def)

lemma mset_concat_update:
  "i < length xs \<Longrightarrow> mset (concat (xs[i := c])) + mset (xs ! i) = mset (concat xs) + mset c"
proof (induction xs arbitrary: i)
  case (Cons x xs)
  then show ?case by (cases i) (auto simp: add_ac)
qed simp

lemma mset_concat_cons:
  "i < length xs \<Longrightarrow> mset (concat (xs[i := e # xs ! i])) = add_mset e (mset (concat xs))"
  using mset_concat_update[of i xs "e # xs ! i"] by simp

lemma length_concat_cons: "i < length xs \<Longrightarrow> length (concat (xs[i := e # xs ! i])) = Suc (length (concat xs))"
  using mset_concat_cons[of i xs e] by (metis size_mset size_add_mset)

text \<open>A key of a table is in the chain of its bucket.\<close>

lemma ht_ok_entry_bucket:
  assumes "ht_ok T h" "e \<in> set (concat (table h))"
  shows "e \<in> set (table h ! bucket h (hashFunction T (fst e)))"
proof -
  from assms(2) obtain i where "i < length (table h)" "e \<in> set (table h ! i)"
    by (metis UN_E in_set_conv_nth set_concat)
  with assms(1) show ?thesis by (auto simp: ht_ok_def)
qed

lemma ht_ok_chain_sub: "ht_ok T h \<Longrightarrow> i < ht_size h \<Longrightarrow> set (table h ! i) \<subseteq> set (concat (table h))"
  unfolding ht_ok_def by (metis UN_upper nth_mem set_concat)

text \<open>Replacing one chain keeps a table well formed when the new chain is of the same bucket.\<close>

lemma ht_ok_update:
  assumes "ht_ok T h" "i < ht_size h" "\<forall>e\<in>set c. bucket h (hashFunction T (fst e)) = i"
    "n = length (concat ((table h)[i := c]))"
  shows "ht_ok T (h\<lparr>table := (table h)[i := c], used := n\<rparr>)"
    and "ht_ok T (h\<lparr>used := n, table := (table h)[i := c]\<rparr>)"
  using assms by (auto simp: ht_ok_def nth_list_update)


subsection \<open>Rehashing keeps the entries\<close>

lemma inc64_small: "n + 1 < 2 ^ 64 \<Longrightarrow> inc64 n = Suc n"
  by (simp add: inc64_def)

lemma dec64_pos: "0 < n \<Longrightarrow> dec64 n = n - 1"
  by (simp add: dec64_def)

lemma move_chain_spec:
  assumes "ht_ok (dtype d) (ht1 d)" "length c \<le> used (ht0 d)" "length c + used (ht1 d) \<le> dict_max"
  shows "\<exists>h1. move_chain d c =
            Some (d\<lparr>ht0 := (ht0 d)\<lparr>used := used (ht0 d) - length c\<rparr>, ht1 := h1\<rparr>) \<and>
          ht_ok (dtype d) h1 \<and> mset (concat (table h1)) = mset c + mset (concat (table (ht1 d)))"
  using assms
proof (induction c arbitrary: d)
  case Nil
  then show ?case by (intro exI[of _ "ht1 d"]) simp
next
  case (Cons e c)
  define i where "i = bucket (ht1 d) (dictHashKey d (fst e))"
  have i: "i < ht_size (ht1 d)" using bucket_less[OF Cons.prems(1)] by (simp add: i_def)
  then have il: "i < length (table (ht1 d))" using ht_ok_length[OF Cons.prems(1)] by simp
  define h where "h = (ht1 d)\<lparr>table := (table (ht1 d))[i := e # table (ht1 d) ! i], used := Suc (used (ht1 d))\<rparr>"
  define d' where "d' = d\<lparr>ht0 := (ht0 d)\<lparr>used := used (ht0 d) - 1\<rparr>, ht1 := h\<rparr>"
  have "inc64 (used (ht1 d)) = Suc (used (ht1 d))"
    using Cons.prems(3) by (intro inc64_small) (simp add: dict_max_def)
  moreover have "dec64 (used (ht0 d)) = used (ht0 d) - 1"
    using Cons.prems(2) by (intro dec64_pos) simp
  ultimately have step: "move_chain d (e # c) = move_chain d' c"
    using il by (simp add: d'_def h_def mem_simps flip: i_def)
  have "ht_ok (dtype d) h"
    unfolding h_def using Cons.prems(1) i
    by (intro ht_ok_update) (auto simp: length_concat_cons ht_ok_def i_def dictHashKey_def)
  then have "\<exists>h1. move_chain d' c =
            Some (d'\<lparr>ht0 := (ht0 d')\<lparr>used := used (ht0 d') - length c\<rparr>, ht1 := h1\<rparr>) \<and>
          ht_ok (dtype d') h1 \<and> mset (concat (table h1)) = mset c + mset (concat (table (ht1 d')))"
    using Cons.prems by (intro Cons.IH) (auto simp: d'_def h_def)
  then show ?case
    using step il by (auto simp: d'_def h_def mset_concat_cons)
qed

lemma skip_empty_spec:
  assumes "j < length tb" "tb ! j \<noteq> []" "i \<le> j"
  shows "\<exists>k. skip_empty tb i = Some k \<and> i \<le> k \<and> k \<le> j \<and> tb ! k \<noteq> [] \<and> (\<forall>m. i \<le> m \<and> m < k \<longrightarrow> tb ! m = [])"
  using assms
proof (induction tb i rule: skip_empty.induct)
  case (1 tb i)
  show ?case
  proof (cases "tb ! i = []")
    case True
    with 1 have "Suc i \<le> j" by (cases "i = j") auto
    with 1 True obtain k where "skip_empty tb (Suc i) = Some k" "Suc i \<le> k" "k \<le> j" "tb ! k \<noteq> []"
      "\<forall>m. Suc i \<le> m \<and> m < k \<longrightarrow> tb ! m = []" by auto
    with 1 True show ?thesis
      by (subst skip_empty.simps) (auto simp: Suc_le_eq, metis le_neq_implies_less)
  next
    case False
    with 1 show ?thesis by (subst skip_empty.simps) auto
  qed
qed

text \<open>The part of the invariant during rehashing.\<close>

definition rehash_inv :: "('k, 'v) dict \<Rightarrow> bool" where
  "rehash_inv d \<longleftrightarrow> dict_inv d \<and> dictIsRehashing d"

lemma distinct_keys_mset: "mset xs = mset ys \<Longrightarrow> distinct (map fst xs) \<longleftrightarrow> distinct (map fst ys)"
  by (metis mset_eq_imp_distinct_iff mset_map)

lemma rehash_finish:
  assumes "rehash_inv d" "used (ht0 d) = 0"
  shows "dict_inv (d\<lparr>ht0 := ht1 d, ht1 := dictReset, rehashidx := -1\<rparr>)"
    and "mset (entries (d\<lparr>ht0 := ht1 d, ht1 := dictReset, rehashidx := -1\<rparr>)) = mset (entries d)"
proof -
  have "concat (table (ht0 d)) = []"
    using assms unfolding rehash_inv_def dict_inv_def dictIsRehashing_def ht_ok_def
    by (metis length_0_conv)
  then have "entries (d\<lparr>ht0 := ht1 d, ht1 := dictReset, rehashidx := -1\<rparr>) = entries d"
    by (simp add: entries_def dictReset_def del: concat_eq_Nil_conv)
  with assms show "dict_inv (d\<lparr>ht0 := ht1 d, ht1 := dictReset, rehashidx := -1\<rparr>)"
    and "mset (entries (d\<lparr>ht0 := ht1 d, ht1 := dictReset, rehashidx := -1\<rparr>)) = mset (entries d)"
    by (auto simp: rehash_inv_def dict_inv_def dictIsRehashing_def)
qed

text \<open>One step that moves a bucket.\<close>

lemma rehash_move:
  assumes "rehash_inv d" "used (ht0 d) \<noteq> 0"
  shows "\<exists>d'. rehash_loop d (Suc n) = rehash_loop d' n \<and> rehash_inv d' \<and>
    mset (entries d') = mset (entries d) \<and> dtype d' = dtype d \<and> iterators d' = iterators d \<and>
    ht_size (ht0 d') = ht_size (ht0 d) \<and> rehashidx d < rehashidx d' \<and> rehashidx d' \<le> int (ht_size (ht0 d))"
proof -
  let ?T = "dtype d"
  from assms have ok0: "ht_ok ?T (ht0 d)" and ok1: "ht_ok ?T (ht1 d)" and r: "0 \<le> rehashidx d"
    and emp: "\<And>i. i < nat (rehashidx d) \<Longrightarrow> i < ht_size (ht0 d) \<Longrightarrow> table (ht0 d) ! i = []"
    and len: "length (entries d) \<le> dict_max"
    by (auto simp: rehash_inv_def dict_inv_def dictIsRehashing_def)
  have len0: "length (table (ht0 d)) = ht_size (ht0 d)" using ok0 by (rule ht_ok_length)
  from ok0 assms(2) have "concat (table (ht0 d)) \<noteq> []" by (auto simp: ht_ok_def simp del: concat_eq_Nil_conv)
  then obtain j where j: "j < ht_size (ht0 d)" "table (ht0 d) ! j \<noteq> []"
    using len0 by (auto simp: in_set_conv_nth)
  have rj: "nat (rehashidx d) \<le> j" using emp j by (meson not_le)
  then obtain i where i: "skip_empty (table (ht0 d)) (nat (rehashidx d)) = Some i"
    "nat (rehashidx d) \<le> i" "i \<le> j" "\<And>m. nat (rehashidx d) \<le> m \<Longrightarrow> m < i \<Longrightarrow> table (ht0 d) ! m = []"
    using skip_empty_spec[of j "table (ht0 d)" "nat (rehashidx d)"] j len0 by auto
  have il: "i < length (table (ht0 d))" using i(3) j(1) len0 by simp
  define c where "c = table (ht0 d) ! i"
  have mc: "mset (concat ((table (ht0 d))[i := []])) + mset c = mset (concat (table (ht0 d)))"
    using mset_concat_update[OF il, of "[]"] by (simp add: c_def)
  have lc: "length (concat ((table (ht0 d))[i := []])) + length c = length (concat (table (ht0 d)))"
    using arg_cong[OF mc, of size] by (simp only: size_union size_mset)
  have u0: "used (ht0 d) = length (concat (table (ht0 d)))" using ok0 by (simp add: ht_ok_def)
  have u1: "used (ht1 d) = length (concat (table (ht1 d)))" using ok1 by (simp add: ht_ok_def)
  have "length c \<le> used (ht0 d)" using lc u0 by linarith
  moreover have "length c + used (ht1 d) \<le> dict_max"
    using len lc u0 u1 by (simp only: entries_def length_append)
  ultimately obtain h1 where h1: "move_chain (d\<lparr>rehashidx := int i\<rparr>) c =
      Some (d\<lparr>rehashidx := int i, ht0 := (ht0 d)\<lparr>used := used (ht0 d) - length c\<rparr>, ht1 := h1\<rparr>)"
    "ht_ok ?T h1" "mset (concat (table h1)) = mset c + mset (concat (table (ht1 d)))"
    using move_chain_spec[of "d\<lparr>rehashidx := int i\<rparr>" c] ok1 by auto
  define d' where "d' = d\<lparr>ht1 := h1,
      ht0 := (ht0 d)\<lparr>used := used (ht0 d) - length c, table := (table (ht0 d))[i := []]\<rparr>,
      rehashidx := int i + 1\<rparr>"
  have "rehashidx d < int (ht_size (ht0 d))" using rj j(1) r by linarith
  then have step: "rehash_loop d (Suc n) = rehash_loop d' n"
    using assms(2) i(1) il h1(1) by (simp add: arr_get_in arr_set_in d'_def flip: c_def)
  have e: "mset (entries d') = mset (entries d)"
    using h1(3) by (simp add: entries_def d'_def ac_simps flip: mc)
  have ok0': "ht_ok ?T (ht0 d')"
  proof -
    have "used (ht0 d) - length c = length (concat ((table (ht0 d))[i := []]))" using lc u0 by linarith
    with ht_ok_update(2)[OF ok0, of i "[]"] i(3) j(1) show ?thesis by (simp add: d'_def)
  qed
  have "table (ht0 d') ! m = []" if "m < Suc i" "m < ht_size (ht0 d)" for m
    using that emp[of m] i(4)[of m] len0 il
    by (cases "m = i"; cases "m < nat (rehashidx d)") (auto simp: d'_def not_less nth_list_update)
  with ok0' h1(2) e assms(1) have "rehash_inv d'"
    using distinct_keys_mset[OF e] mset_eq_length[OF e]
    by (auto simp: rehash_inv_def dict_inv_def dictIsRehashing_def d'_def nat_add_distrib)
  moreover have "rehashidx d < rehashidx d'" "rehashidx d' \<le> int (ht_size (ht0 d))"
    using i(2,3) j(1) r by (auto simp: d'_def)
  ultimately show ?thesis using step e by (intro exI[of _ d']) (auto simp: d'_def)
qed


lemma rehash_loop_spec:
  assumes "rehash_inv d"
  shows "\<exists>d' b. rehash_loop d n = Some (d', b) \<and> dict_inv d' \<and> mset (entries d') = mset (entries d) \<and>
    dtype d' = dtype d \<and> iterators d' = iterators d \<and> dictIsRehashing d' = b \<and> ht_ok (dtype d') (ht0 d') \<and>
    (b \<longrightarrow> rehashidx d + int n \<le> rehashidx d' \<and> ht_size (ht0 d') = ht_size (ht0 d) \<and>
       (0 < n \<longrightarrow> rehashidx d' \<le> int (ht_size (ht0 d))))"
  using assms
proof (induction n arbitrary: d)
  case 0
  then show ?case by (auto simp: rehash_inv_def dictIsRehashing_def dict_inv_def)
next
  case (Suc n)
  show ?case
  proof (cases "used (ht0 d) = 0")
    case True
    with rehash_finish[OF Suc.prems] show ?thesis
      using Suc.prems by (auto simp: dictIsRehashing_def rehash_inv_def dict_inv_def)
  next
    case False
    from rehash_move[OF Suc.prems False, of n] obtain d1 where d1:
      "rehash_loop d (Suc n) = rehash_loop d1 n" "rehash_inv d1" "mset (entries d1) = mset (entries d)"
      "dtype d1 = dtype d" "iterators d1 = iterators d" "ht_size (ht0 d1) = ht_size (ht0 d)"
      "rehashidx d < rehashidx d1" "rehashidx d1 \<le> int (ht_size (ht0 d))" by blast
    from Suc.IH[OF d1(2)] d1 show ?thesis by (cases n) fastforce+
  qed
qed

text \<open>What a rehashing step, or any other internal reorganisation, keeps.\<close>

definition same_entries :: "('k, 'v) dict \<Rightarrow> ('k, 'v) dict \<Rightarrow> bool" where
  "same_entries d d' \<longleftrightarrow> mset (entries d') = mset (entries d) \<and> dtype d' = dtype d \<and> iterators d' = iterators d"

lemma same_entries_refl [simp]: "same_entries d d"
  by (simp add: same_entries_def)

lemma same_entries_trans: "same_entries d1 d2 \<Longrightarrow> same_entries d2 d3 \<Longrightarrow> same_entries d1 d3"
  by (simp add: same_entries_def)

lemma map_of_mset_eq: "mset xs = mset ys \<Longrightarrow> distinct (map fst xs) \<Longrightarrow> map_of xs = map_of ys"
  by (metis distinct_keys_mset map_of_inject_set set_mset_mset)

lemma same_entries_lookup: "dict_inv d \<Longrightarrow> same_entries d d' \<Longrightarrow> lookup d' = lookup d"
  unfolding same_entries_def lookup_def dict_inv_def by (metis map_of_mset_eq)

lemma same_entries_length: "same_entries d d' \<Longrightarrow> length (entries d') = length (entries d)"
  unfolding same_entries_def by (metis size_mset)

lemma dictRehash_spec:
  assumes "dict_inv d"
  shows "\<exists>d' b. dictRehash d n = Some (d', b) \<and> dict_inv d' \<and> same_entries d d' \<and> dictIsRehashing d' = b"
  using assms rehash_loop_spec[of d n] by (auto simp: dictRehash_def same_entries_def rehash_inv_def)

lemma dictRehashStep_spec:
  assumes "dict_inv d"
  shows "\<exists>d'. dictRehashStep d = Some d' \<and> dict_inv d' \<and> same_entries d d'"
  using assms dictRehash_spec[of d 1] by (auto simp: dictRehashStep_def)

text \<open>The reorganisation at the start of every operation.\<close>

lemma step_if_rehashing_spec:
  assumes "dict_inv d"
  shows "\<exists>d'. (if dictIsRehashing d then dictRehashStep d else Some d) = Some d' \<and> dict_inv d' \<and>
    same_entries d d' \<and> (ht_size (ht0 d) \<noteq> 0 \<longrightarrow> ht_ok (dtype d') (ht0 d'))"
proof (cases "dictIsRehashing d \<and> iterators d = 0")
  case True
  with rehash_loop_spec[of d 1] assms show ?thesis
    by (auto simp: dictRehashStep_def dictRehash_def same_entries_def rehash_inv_def
        simp del: rehash_loop.simps One_nat_def)
next
  case False
  with assms show ?thesis by (auto simp: dictRehashStep_def dict_inv_def dictReset_def)
qed


lemma rehash_ms_loop_spec:
  assumes "dict_inv d" "0 < fuel" "dictIsRehashing d \<longrightarrow> int (ht_size (ht0 d)) - rehashidx d < int fuel"
  shows "\<exists>d' n. rehash_ms_loop fuel elapsed ms d i = Some (d', n) \<and> dict_inv d' \<and> same_entries d d'"
  using assms
proof (induction fuel arbitrary: d i)
  case (Suc fuel)
  show ?case
  proof (cases "dictIsRehashing d")
    case False
    with Suc.prems show ?thesis by (auto simp: dictRehash_def)
  next
    case True
    then have "rehash_inv d" using Suc.prems(1) by (simp add: rehash_inv_def)
    from rehash_loop_spec[OF this, of 100] obtain d1 b where d1: "dictRehash d 100 = Some (d1, b)" "dict_inv d1"
      "same_entries d d1" "b \<longrightarrow> rehashidx d + 100 \<le> rehashidx d1 \<and> ht_size (ht0 d1) = ht_size (ht0 d) \<and>
        rehashidx d1 \<le> int (ht_size (ht0 d))"
      using True by (auto simp: dictRehash_def same_entries_def)
    show ?thesis
    proof (cases "b \<and> \<not> ms < elapsed i")
      case False
      with d1 show ?thesis by auto
    next
      case again: True
      have "0 < fuel" "dictIsRehashing d1 \<longrightarrow> int (ht_size (ht0 d1)) - rehashidx d1 < int fuel"
        using d1(4) again Suc.prems(3) True by auto
      from Suc.IH[OF d1(2) this, of "i + 1"] d1(1,3) again show ?thesis by (auto dest: same_entries_trans)
    qed
  qed
qed simp

subsection \<open>Searching\<close>

lemma dict_inv_type: "dict_inv d \<Longrightarrow> type_ok (dtype d)"
  by (simp add: dict_inv_def)

lemma type_ok_simps:
  "type_ok (dtype d) \<Longrightarrow> dictCompareKeys d a b = (a = b)"
  "type_ok (dtype d) \<Longrightarrow> dup_key d k = k"
  "type_ok (dtype d) \<Longrightarrow> dup_val d v = v"
  by (auto simp: type_ok_def dictCompareKeys_def dup_key_def dup_val_def split: option.splits)

lemma chain_find_None: "type_ok (dtype d) \<Longrightarrow> chain_find d k c = None \<longleftrightarrow> k \<notin> fst ` set c"
  by (induction c) (auto simp: type_ok_simps)

lemma chain_find_Some:
  "type_ok (dtype d) \<Longrightarrow> chain_find d k c = Some p \<Longrightarrow> p < length c \<and> fst (c ! p) = k"
  by (induction c arbitrary: p) (auto simp: type_ok_simps split: if_splits)

text \<open>A location holds the key when its table is allocated, and its bucket is that of the key.\<close>

definition holds_key :: "('k, 'v) dict \<Rightarrow> loc \<Rightarrow> 'k \<Rightarrow> bool" where
  "holds_key d l k \<longleftrightarrow> (case l of (t, i, p) \<Rightarrow>
     t \<le> 1 \<and> ht_ok (dtype d) (get_ht d t) \<and> i < ht_size (get_ht d t) \<and>
     p < length (table (get_ht d t) ! i) \<and> fst (table (get_ht d t) ! i ! p) = k)"

lemma search_one:
  assumes "type_ok (dtype d)" "ht_ok (dtype d) (get_ht d t)"
  shows "arr_get (table (get_ht d t)) (int (bucket (get_ht d t) (dictHashKey d k))) =
      Some (table (get_ht d t) ! bucket (get_ht d t) (dictHashKey d k))"
    and "k \<notin> fst ` set (concat (table (get_ht d t))) \<longleftrightarrow>
      chain_find d k (table (get_ht d t) ! bucket (get_ht d t) (dictHashKey d k)) = None"
proof -
  note b = bucket_less[OF assms(2), of "dictHashKey d k"]
  show "arr_get (table (get_ht d t)) (int (bucket (get_ht d t) (dictHashKey d k))) =
      Some (table (get_ht d t) ! bucket (get_ht d t) (dictHashKey d k))"
    using b ht_ok_length[OF assms(2)] by (simp add: arr_get_in)
  show "k \<notin> fst ` set (concat (table (get_ht d t))) \<longleftrightarrow>
      chain_find d k (table (get_ht d t) ! bucket (get_ht d t) (dictHashKey d k)) = None"
  proof -
    have "k \<in> fst ` set (concat (table (get_ht d t))) \<longleftrightarrow>
        k \<in> fst ` set (table (get_ht d t) ! bucket (get_ht d t) (dictHashKey d k))"
      using ht_ok_entry_bucket[OF assms(2)] ht_ok_chain_sub[OF assms(2) b] unfolding dictHashKey_def by blast
    then show ?thesis by (simp only: chain_find_None[OF assms(1)])
  qed
qed

lemma holds_key_found:
  assumes "type_ok (dtype d)" "ht_ok (dtype d) (get_ht d t)" "t \<le> 1"
    "chain_find d k (table (get_ht d t) ! bucket (get_ht d t) (dictHashKey d k)) = Some p"
  shows "holds_key d (t, bucket (get_ht d t) (dictHashKey d k), p) k"
  using chain_find_Some[OF assms(1,4)] bucket_less[OF assms(2)] assms(2,3) by (simp add: holds_key_def)

lemma get_ht_simps [simp]: "get_ht d 0 = ht0 d" "get_ht d (Suc 0) = ht1 d" "get_ht d 1 = ht1 d"
  by (simp_all add: get_ht_def)

lemma search_tables_spec:
  assumes "dict_inv d" "ht_ok (dtype d) (ht0 d)"
  shows "\<exists>l. search_tables d k [0, 1] = Some l \<and>
    (case l of None \<Rightarrow> k \<notin> fst ` set (entries d) | Some l \<Rightarrow> holds_key d l k)"
proof -
  note ty = dict_inv_type[OF assms(1)]
  note s0 = search_one[OF ty, where t = 0 and k = k, simplified, OF assms(2)]
  show ?thesis
  proof (cases "chain_find d k (table (ht0 d) ! bucket (ht0 d) (dictHashKey d k))")
    case (Some p)
    with s0 holds_key_found[OF ty, where t = 0 and k = k and p = p] assms(2) show ?thesis by simp
  next
    case None
    note n0 = this
    show ?thesis
    proof (cases "dictIsRehashing d")
      case False
      with assms(1) have "table (ht1 d) = []" by (auto simp: dict_inv_def dictIsRehashing_def dictReset_def)
      with False n0 s0 show ?thesis by (simp add: entries_def image_Un image_UN)
    next
      case True
      then have ok1: "ht_ok (dtype d) (ht1 d)" using assms(1) by (auto simp: dict_inv_def dictIsRehashing_def)
      note s1 = search_one[OF ty, where t = 1 and k = k, simplified, OF ok1]
      show ?thesis
        using n0 s0 s1 True holds_key_found[OF ty, where t = 1 and k = k] ok1
        by (cases "chain_find d k (table (ht1 d) ! bucket (ht1 d) (dictHashKey d k))")
          (simp_all add: entries_def image_Un image_UN)
    qed
  qed
qed

text \<open>Reading through a location.\<close>

lemma entry_at_holds:
  assumes "dict_inv d" "holds_key d l k"
  shows "\<exists>v. entry_at d l = Some (k, v) \<and> lookup d k = Some v"
proof -
  obtain t i p where l: "l = (t, i, p)" by (cases l)
  let ?h = "get_ht d t"
  have h: "ht_ok (dtype d) ?h" "i < ht_size ?h" "p < length (table ?h ! i)" "fst (table ?h ! i ! p) = k" "t \<le> 1"
    using assms(2) by (simp_all add: holds_key_def l)
  then have e: "entry_at d l = Some (table ?h ! i ! p)"
    using ht_ok_length[OF h(1)] by (simp add: entry_at_def l arr_get_in)
  have "table ?h ! i ! p \<in> set (concat (table ?h))"
    using ht_ok_chain_sub[OF h(1,2)] h(3) by (meson nth_mem subsetD)
  then have "table ?h ! i ! p \<in> set (entries d)"
    by (auto simp: entries_def get_ht_def split: if_splits)
  then have "lookup d k = Some (snd (table ?h ! i ! p))"
    using assms(1) h(4) unfolding lookup_def dict_inv_def by (metis map_of_eq_Some_iff prod.collapse)
  with e h(4) show ?thesis by (metis prod.collapse)
qed

lemma lookup_None: "lookup d k = None \<longleftrightarrow> k \<notin> fst ` set (entries d)"
  by (simp add: lookup_def map_of_eq_None_iff)


subsection \<open>Changing one chain\<close>

definition set_chain :: "('k, 'v) dict \<Rightarrow> nat \<Rightarrow> nat \<Rightarrow> ('k \<times> 'v) list \<Rightarrow> ('k, 'v) dict" where
  "set_chain d t i c =
     (let h = get_ht d t; tb = (table h)[i := c]
      in set_ht d t (h\<lparr>table := tb, used := length (concat tb)\<rparr>))"

lemma set_chain_simps [simp]:
  "dtype (set_chain d t i c) = dtype d" "iterators (set_chain d t i c) = iterators d"
  "rehashidx (set_chain d t i c) = rehashidx d" "dictIsRehashing (set_chain d t i c) = dictIsRehashing d"
  by (simp_all add: set_chain_def set_ht_def Let_def dictIsRehashing_def)

lemma entries_set_chain:
  assumes "t \<le> 1" "i < length (table (get_ht d t))"
  shows "mset (entries (set_chain d t i c)) + mset (table (get_ht d t) ! i) = mset (entries d) + mset c"
  using mset_concat_update[OF assms(2), of c] assms(1)
  by (auto simp: entries_def set_chain_def set_ht_def get_ht_def Let_def ac_simps split: if_splits)

lemma inv_set_chain:
  assumes inv: "dict_inv d" and h: "t \<le> 1" "ht_ok (dtype d) (get_ht d t)" "i < ht_size (get_ht d t)"
    and c: "\<forall>e\<in>set c. bucket (get_ht d t) (hashFunction (dtype d) (fst e)) = i"
    and e: "distinct (map fst (entries (set_chain d t i c)))" "length (entries (set_chain d t i c)) \<le> dict_max"
    and r: "t = 0 \<longrightarrow> dictIsRehashing d \<longrightarrow> table (ht0 d) ! i \<noteq> []"
  shows "dict_inv (set_chain d t i c)"
proof -
  have t: "t = 0 \<or> t = 1" using h(1) by auto
  have ok: "ht_ok (dtype d) (get_ht (set_chain d t i c) t)"
    using ht_ok_update(1)[OF h(2,3) c] t by (auto simp: set_chain_def set_ht_def Let_def)
  have "table (ht0 (set_chain d t i c)) ! m = []"
    if m: "m < nat (rehashidx d)" "m < ht_size (ht0 d)" "dictIsRehashing d" for m
  proof -
    have "table (ht0 d) ! m = []" using m inv by (simp add: dict_inv_def dictIsRehashing_def)
    moreover from this have "t = 0 \<Longrightarrow> i \<noteq> m" using r m by auto
    ultimately show ?thesis using t by (auto simp: set_chain_def set_ht_def Let_def)
  qed
  note empty = this
  have other: "t = 1 \<Longrightarrow> ht0 (set_chain d t i c) = ht0 d" "t = 0 \<Longrightarrow> ht1 (set_chain d t i c) = ht1 d"
    by (simp_all add: set_chain_def set_ht_def Let_def)
  have sz: "ht_size (ht0 (set_chain d t i c)) = ht_size (ht0 d)"
    using t by (auto simp: set_chain_def set_ht_def Let_def)
  have re: "t = 1 \<Longrightarrow> dictIsRehashing d"
    using inv h(2) by (auto simp: dict_inv_def dictIsRehashing_def dictReset_def ht_ok_def)
  show ?thesis
  proof (cases "t = 0")
    case True
    with ok other(2) inv e empty sz show ?thesis by (simp add: dict_inv_def dictIsRehashing_def)
  next
    case False
    with t have "t = 1" by simp
    with ok other(1) re inv e empty show ?thesis by (simp add: dict_inv_def dictIsRehashing_def)
  qed
qed

text \<open>The three changes of an association list that the operations make.\<close>

lemma map_of_mset_cons:
  assumes "mset xs = add_mset (k, v) (mset rest)" "distinct (map fst xs)"
  shows "map_of xs = (map_of rest)(k \<mapsto> v)" "k \<notin> fst ` set rest" "distinct (map fst rest)"
proof -
  have "mset xs = mset ((k, v) # rest)" using assms(1) by simp
  then have "map_of xs = map_of ((k, v) # rest)" "distinct (map fst ((k, v) # rest))"
    using assms(2) map_of_mset_eq distinct_keys_mset by blast+
  then show "map_of xs = (map_of rest)(k \<mapsto> v)" "k \<notin> fst ` set rest" "distinct (map fst rest)"
    by simp_all
qed

lemma insert_entry:
  assumes "mset ys = add_mset (k, v) (mset xs)" "distinct (map fst xs)" "k \<notin> fst ` set xs"
  shows "distinct (map fst ys)" "map_of ys = (map_of xs)(k \<mapsto> v)"
proof -
  have "mset ys = mset ((k, v) # xs)" using assms(1) by simp
  then show "distinct (map fst ys)" using assms(2,3) distinct_keys_mset[of ys "(k, v) # xs"] by simp
  with assms(1) show "map_of ys = (map_of xs)(k \<mapsto> v)" by (rule map_of_mset_cons)
qed

lemma delete_entry:
  assumes "mset xs = add_mset (k, v) (mset ys)" "distinct (map fst xs)"
  shows "distinct (map fst ys)" "map_of ys = (map_of xs)(k := None)"
proof -
  note m = map_of_mset_cons[OF assms]
  show "distinct (map fst ys)" by (rule m)
  show "map_of ys = (map_of xs)(k := None)" using m(1,2) by (auto simp: map_of_eq_None_iff)
qed

lemma update_entry:
  assumes "add_mset (k, v0) (mset ys) = add_mset (k, v) (mset xs)" "distinct (map fst xs)" "(k, v0) \<in> set xs"
  shows "distinct (map fst ys)" "map_of ys = (map_of xs)(k \<mapsto> v)"
proof -
  have xs: "mset xs = add_mset (k, v0) (mset (remove1 (k, v0) xs))" using assms(3) by simp
  have "add_mset (k, v0) (mset ys) = add_mset (k, v0) (add_mset (k, v) (mset (remove1 (k, v0) xs)))"
    by (subst assms(1), subst xs) simp
  then have ys: "mset ys = add_mset (k, v) (mset (remove1 (k, v0) xs))" by simp
  note m = map_of_mset_cons[OF xs assms(2)]
  show "distinct (map fst ys)" "map_of ys = (map_of xs)(k \<mapsto> v)"
    using insert_entry[OF ys m(3,2)] m(1) by simp_all
qed


subsection \<open>Operations\<close>

lemma get_set_ht: "t \<le> 1 \<Longrightarrow> get_ht (set_ht d t h) t = h"
  by (simp add: get_ht_def set_ht_def)


text \<open>A location splits its chain, and with it the entries.\<close>

lemma holds_key_split:
  assumes inv: "dict_inv d" and l: "holds_key d (t, i, p) k"
  obtains v0 where "table (get_ht d t) ! i = take p (table (get_ht d t) ! i) @ (k, v0) # drop (Suc p) (table (get_ht d t) ! i)"
    "(k, v0) \<in> set (entries d)" "lookup d k = Some v0"
    "entry_at d (t, i, p) = Some (k, v0)" "p < length (table (get_ht d t) ! i)"
    "t \<le> 1" "ht_ok (dtype d) (get_ht d t)" "i < ht_size (get_ht d t)" "i < length (table (get_ht d t))"
    "\<forall>e\<in>set (table (get_ht d t) ! i). bucket (get_ht d t) (hashFunction (dtype d) (fst e)) = i"
proof -
  from l have h: "t \<le> 1" "ht_ok (dtype d) (get_ht d t)" "i < ht_size (get_ht d t)"
    "p < length (table (get_ht d t) ! i)" "fst (table (get_ht d t) ! i ! p) = k"
    by (simp_all add: holds_key_def)
  from entry_at_holds[OF inv l] obtain v0 where v0: "entry_at d (t, i, p) = Some (k, v0)" "lookup d k = Some v0" by blast
  have il: "i < length (table (get_ht d t))" using h(3) ht_ok_length[OF h(2)] by simp
  then have "table (get_ht d t) ! i ! p = (k, v0)" using v0(1) h(4) by (simp add: entry_at_def arr_get_in)
  then have "table (get_ht d t) ! i = take p (table (get_ht d t) ! i) @ (k, v0) # drop (Suc p) (table (get_ht d t) ! i)"
    using id_take_nth_drop[OF h(4)] by simp
  moreover have "(k, v0) \<in> set (entries d)" using v0(2) unfolding lookup_def by (rule map_of_SomeD)
  ultimately show ?thesis
    using that[of v0] v0 h il by (simp add: ht_ok_def)
qed

lemma length_set_chain_same:
  assumes "i < length xs" "length c = length (xs ! i)"
  shows "length (concat (xs[i := c])) = length (concat xs)"
  using arg_cong[OF mset_concat_update[OF assms(1), of c], of size] assms(2)
  by (simp only: size_union size_mset)

lemma set_list_conv: "p < length c \<Longrightarrow> c[p := x] = take p c @ x # drop (Suc p) c"
  by (rule upd_conv_take_nth_drop)

lemma dictSetVal_spec:
  assumes inv: "dict_inv d" and l: "holds_key d l k"
  shows "\<exists>d'. dictSetVal d l v = Some d' \<and> dict_inv d' \<and> lookup d' = (lookup d)(k \<mapsto> v) \<and>
    length (entries d') = length (entries d)"
proof -
  obtain t i p where l': "l = (t, i, p)" by (cases l)
  obtain v0 where s: "table (get_ht d t) ! i = take p (table (get_ht d t) ! i) @ (k, v0) # drop (Suc p) (table (get_ht d t) ! i)"
    "(k, v0) \<in> set (entries d)" "lookup d k = Some v0"
    "entry_at d (t, i, p) = Some (k, v0)" "p < length (table (get_ht d t) ! i)"
    "t \<le> 1" "ht_ok (dtype d) (get_ht d t)" "i < ht_size (get_ht d t)" "i < length (table (get_ht d t))"
    "\<forall>e\<in>set (table (get_ht d t) ! i). bucket (get_ht d t) (hashFunction (dtype d) (fst e)) = i"
    using holds_key_split[OF inv l[unfolded l']] by metis
  define c where "c = table (get_ht d t) ! i"
  define c' where "c' = c[p := (k, v)]"
  have ck: "c ! p = (k, v0)" using s(4,5,9) by (simp add: entry_at_def arr_get_in c_def)
  have "length c' = length c" by (simp add: c'_def)
  then have u: "length (concat ((table (get_ht d t))[i := c'])) = used (get_ht d t)"
    using length_set_chain_same[OF s(9)] s(7) by (simp add: c_def ht_ok_def)
  have set: "dictSetVal d l v = Some (set_chain d t i c')"
    using s(5,9) u ck by (simp add: dictSetVal_def l' arr_get_in arr_set_in set_chain_def Let_def
        type_ok_simps(3)[OF dict_inv_type[OF inv]] flip: c_def c'_def)
  have mc: "mset c' + {#(k, v0)#} = mset c + {#(k, v)#}"
    using arg_cong[OF s(1)[folded c_def], of mset] s(5)[folded c_def] by (simp add: c'_def set_list_conv)
  have e: "add_mset (k, v0) (mset (entries (set_chain d t i c'))) = add_mset (k, v) (mset (entries d))"
  proof -
    have "mset (entries (set_chain d t i c')) + mset c = mset (entries d) + mset c'"
      using entries_set_chain[OF s(6,9), of c'] by (simp only: c_def)
    then have "mset (entries (set_chain d t i c')) + mset c + {#(k, v0)#} = mset (entries d) + (mset c' + {#(k, v0)#})"
      by (simp only: add.assoc)
    then have "add_mset (k, v0) (mset (entries (set_chain d t i c'))) + mset c = add_mset (k, v) (mset (entries d)) + mset c"
      by (simp only: mc) simp
    then show ?thesis by (rule add_right_imp_eq)
  qed
  note up = update_entry[OF e _ s(2)]
  have di: "distinct (map fst (entries d))" "length (entries d) \<le> dict_max" using inv by (auto simp: dict_inv_def)
  have len: "length (entries (set_chain d t i c')) = length (entries d)"
    using arg_cong[OF e, of size] by simp
  have "dict_inv (set_chain d t i c')"
  proof (rule inv_set_chain[OF inv s(6,7,8)])
    show "\<forall>e\<in>set c'. bucket (get_ht d t) (hashFunction (dtype d) (fst e)) = i"
    proof
      fix x assume "x \<in> set c'"
      then have "x = (k, v) \<or> x \<in> set c" using set_update_subset_insert[of c p "(k, v)"] by (auto simp: c'_def)
      moreover have "(k, v0) \<in> set c" using ck s(5) by (metis c_def nth_mem)
      ultimately show "bucket (get_ht d t) (hashFunction (dtype d) (fst x)) = i"
        using s(10) by (auto simp: c_def)
    qed
    show "t = 0 \<longrightarrow> dictIsRehashing d \<longrightarrow> table (ht0 d) ! i \<noteq> []" using s(5) by auto
  qed (use up di len in auto)
  with set up(2)[OF di(1)] len show ?thesis by (simp add: lookup_def)
qed


lemma dictFind_spec:
  assumes "dict_inv d"
  shows "\<exists>d' l. dictFind d k = Some (d', l) \<and> dict_inv d' \<and> same_entries d d' \<and>
    (case l of None \<Rightarrow> lookup d k = None | Some l \<Rightarrow> holds_key d' l k)"
proof (cases "ht_size (ht0 d) = 0")
  case True
  with assms have "ht0 d = dictReset \<and> ht1 d = dictReset"
    by (auto simp: dict_inv_def dest: ht_ok_table_nonempty split: if_splits)
  with True assms show ?thesis by (simp add: dictFind_def lookup_def entries_def dictReset_def)
next
  case False
  with step_if_rehashing_spec[OF assms] obtain d1 where d1:
    "(if dictIsRehashing d then dictRehashStep d else Some d) = Some d1" "dict_inv d1" "same_entries d d1"
    "ht_ok (dtype d1) (ht0 d1)" by blast
  from search_tables_spec[OF d1(2,4), of k] obtain l where
    "search_tables d1 k [0, 1] = Some l" "case l of None \<Rightarrow> k \<notin> fst ` set (entries d1) | Some l \<Rightarrow> holds_key d1 l k"
    by blast
  with False d1 same_entries_lookup[OF assms d1(3)] lookup_None[of d1 k] show ?thesis
    by (auto simp: dictFind_def split: option.splits simp del: search_tables.simps)
qed

lemma dictFetchValue_spec:
  assumes "dict_inv d"
  shows "\<exists>d'. dictFetchValue d k = Some (d', lookup d k) \<and> dict_inv d' \<and> same_entries d d'"
proof -
  from dictFind_spec[OF assms, of k] obtain d' l where f: "dictFind d k = Some (d', l)" "dict_inv d'"
    "same_entries d d'" "case l of None \<Rightarrow> lookup d k = None | Some l \<Rightarrow> holds_key d' l k" by blast
  show ?thesis
  proof (cases l)
    case None
    with f show ?thesis by (simp add: dictFetchValue_def)
  next
    case (Some m)
    with f entry_at_holds[OF f(2), of m k] same_entries_lookup[OF assms f(3)] show ?thesis
      by (auto simp: dictFetchValue_def)
  qed
qed

lemma dictGenericDelete_spec:
  assumes inv: "dict_inv d"
  shows "\<exists>d'. dictGenericDelete d k nofree =
      Some (d', lookup d k \<noteq> None, case lookup d k of None \<Rightarrow> [] | Some v \<Rightarrow> if nofree then [] else [(k, v)]) \<and>
    dict_inv d' \<and> lookup d' = (lookup d)(k := None) \<and>
    length (entries d') = length (entries d) - (if lookup d k = None then 0 else 1) \<and> dtype d' = dtype d"
proof (cases "ht_size (ht0 d) = 0")
  case True
  with inv have "ht0 d = dictReset \<and> ht1 d = dictReset"
    by (auto simp: dict_inv_def dest: ht_ok_table_nonempty split: if_splits)
  with True inv show ?thesis by (simp add: dictGenericDelete_def lookup_def entries_def dictReset_def)
next
  case False
  with step_if_rehashing_spec[OF inv] obtain d1 where d1:
    "(if dictIsRehashing d then dictRehashStep d else Some d) = Some d1" "dict_inv d1" "same_entries d d1"
    "ht_ok (dtype d1) (ht0 d1)" by blast
  note same = same_entries_lookup[OF inv d1(3)] same_entries_length[OF d1(3)]
  have ty: "dtype d1 = dtype d" using d1(3) by (simp add: same_entries_def)
  from search_tables_spec[OF d1(2,4), of k] obtain l where l:
    "search_tables d1 k [0, 1] = Some l" "case l of None \<Rightarrow> k \<notin> fst ` set (entries d1) | Some l \<Rightarrow> holds_key d1 l k"
    by blast
  show ?thesis
  proof (cases l)
    case None
    then have "lookup d k = None" using l(2) lookup_None[of d1 k] same(1) by simp
    with None False d1 l(1) same ty show ?thesis
      by (auto simp: dictGenericDelete_def simp del: search_tables.simps)
  next
    case (Some m)
    obtain t i p where m: "m = (t, i, p)" by (cases m)
    have hk: "holds_key d1 (t, i, p) k" using l(2) Some m by simp
    obtain v0 where s: "table (get_ht d1 t) ! i = take p (table (get_ht d1 t) ! i) @ (k, v0) # drop (Suc p) (table (get_ht d1 t) ! i)"
      "(k, v0) \<in> set (entries d1)" "lookup d1 k = Some v0"
      "entry_at d1 (t, i, p) = Some (k, v0)" "p < length (table (get_ht d1 t) ! i)"
      "t \<le> 1" "ht_ok (dtype d1) (get_ht d1 t)" "i < ht_size (get_ht d1 t)" "i < length (table (get_ht d1 t))"
      "\<forall>e\<in>set (table (get_ht d1 t) ! i). bucket (get_ht d1 t) (hashFunction (dtype d1) (fst e)) = i"
      using holds_key_split[OF d1(2) hk] by metis
    define c where "c = table (get_ht d1 t) ! i"
    define c' where "c' = take p c @ drop (Suc p) c"
    have mc: "mset c = add_mset (k, v0) (mset c')"
      using arg_cong[OF s(1)[folded c_def], of mset] by (simp add: c'_def)
    have "mset (concat ((table (get_ht d1 t))[i := c'])) + mset c = mset (concat (table (get_ht d1 t))) + mset c'"
      using mset_concat_update[OF s(9), of c'] by (simp add: c_def)
    then have "add_mset (k, v0) (mset (concat ((table (get_ht d1 t))[i := c']))) = mset (concat (table (get_ht d1 t)))"
      using mc by simp
    then have "Suc (length (concat ((table (get_ht d1 t))[i := c']))) = length (concat (table (get_ht d1 t)))"
      by (metis size_mset size_add_mset)
    then have u: "length (concat ((table (get_ht d1 t))[i := c'])) = dec64 (used (get_ht d1 t))"
      using s(7) unfolding ht_ok_def by (metis dec64_pos diff_Suc_1 zero_less_Suc)
    have e: "mset (entries d1) = add_mset (k, v0) (mset (entries (set_chain d1 t i c')))"
      using entries_set_chain[OF s(6,9), of c'] mc by (simp add: c_def)
    have di: "distinct (map fst (entries d1))" "length (entries d1) \<le> dict_max" using d1(2) by (auto simp: dict_inv_def)
    note de = delete_entry[OF e di(1)]
    have len: "length (entries d1) = Suc (length (entries (set_chain d1 t i c')))"
      using arg_cong[OF e, of size] by simp
    have "dict_inv (set_chain d1 t i c')"
    proof (rule inv_set_chain[OF d1(2) s(6,7,8)])
      show "\<forall>e\<in>set c'. bucket (get_ht d1 t) (hashFunction (dtype d1) (fst e)) = i"
        using s(10) by (auto simp: c'_def c_def dest: in_set_takeD in_set_dropD)
      show "t = 0 \<longrightarrow> dictIsRehashing d1 \<longrightarrow> table (ht0 d1) ! i \<noteq> []" using s(5) by auto
    qed (use de di len in auto)
    moreover have "dictGenericDelete d k nofree = Some (set_chain d1 t i c', True, if nofree then [] else [(k, v0)])"
    proof -
      have "c ! p = (k, v0)" using s(4,5,9) by (simp add: entry_at_def arr_get_in c_def)
      then show ?thesis
        using False d1(1) l(1) Some m s(5,9) u
        by (simp add: dictGenericDelete_def arr_get_in arr_set_in set_chain_def Let_def
            del: search_tables.simps flip: c_def c'_def)
    qed
    moreover have "lookup (set_chain d1 t i c') = (lookup d)(k := None)"
      using de(2) same(1) by (simp add: lookup_def)
    ultimately show ?thesis using len same s(3) ty by simp
  qed
qed


subsection \<open>Growth\<close>

lemma next_power_loop_spec:
  assumes "n \<le> 2 ^ m" "j \<le> m"
  shows "\<exists>k. next_power_loop (2 ^ j) n = 2 ^ k \<and> j \<le> k \<and> k \<le> m \<and> n \<le> 2 ^ k \<and> (j < k \<longrightarrow> 2 ^ (k - 1) < n)"
  using assms
proof (induction "m - j" arbitrary: j)
  case 0
  then show ?case by (subst next_power_loop.simps) auto
next
  case (Suc x)
  show ?case
  proof (cases "n \<le> 2 ^ j")
    case True
    with Suc show ?thesis by (subst next_power_loop.simps) auto
  next
    case False
    have "x = m - Suc j" "Suc j \<le> m" using Suc.hyps(2) by auto
    from Suc.hyps(1)[OF this(1) Suc.prems(1) this(2)] obtain k where k: "next_power_loop (2 ^ Suc j) n = 2 ^ k"
      "Suc j \<le> k" "k \<le> m" "n \<le> 2 ^ k" "Suc j < k \<longrightarrow> 2 ^ (k - 1) < n" by blast
    have "next_power_loop (2 ^ j) n = next_power_loop (2 ^ Suc j) n"
      using False by (subst next_power_loop.simps) (simp add: mult.commute)
    moreover have "2 ^ (k - 1) < n" using k(2,5) False by (cases "k = Suc j") auto
    ultimately show ?thesis using k by auto
  qed
qed

lemma dictNextPower_spec:
  assumes "n < LONG_MAX"
  shows "\<exists>k. dictNextPower n = 2 ^ k \<and> 2 \<le> k \<and> k \<le> 31 \<and> n \<le> 2 ^ k \<and> (2 < k \<longrightarrow> 2 ^ (k - 1) < n)"
proof -
  have "n \<le> 2 ^ 31" using assms by (simp add: LONG_MAX_def)
  from next_power_loop_spec[OF this, of 2] show ?thesis
    using assms by (simp add: dictNextPower_def DICT_HT_INITIAL_SIZE_def)
qed

lemma concat_replicate_empty [simp]: "concat (replicate n []) = []"
  by (induction n) auto

lemma fresh_ht_ok:
  assumes "k \<le> 31"
  shows "ht_ok T \<lparr>table = replicate (2 ^ k) [], ht_size = 2 ^ k, sizemask = 2 ^ k - 1, used = 0\<rparr>"
  using assms by (auto simp: ht_ok_def)

lemma dictExpand_spec:
  assumes inv: "dict_inv d" and n: "n < LONG_MAX"
  shows "\<exists>d'. dictExpand d n = (d', \<not> dictIsRehashing d \<and> used (ht0 d) \<le> n) \<and> dict_inv d' \<and> same_entries d d' \<and>
    (\<not> dictIsRehashing d \<longrightarrow> used (ht0 d) \<le> n \<longrightarrow> ht_ok (dtype d') (ht0 d'))"
proof (cases "dictIsRehashing d \<or> n < used (ht0 d)")
  case True
  with inv show ?thesis by (auto simp: dictExpand_def)
next
  case False
  from dictNextPower_spec[OF n] obtain k where k: "dictNextPower n = 2 ^ k" "k \<le> 31" by blast
  define h :: "('a, 'b) dictht" where
    "h = \<lparr>table = replicate (2 ^ k) [], ht_size = 2 ^ k, sizemask = 2 ^ k - 1, used = 0\<rparr>"
  have h: "ht_ok (dtype d) h" "concat (table h) = []"
    using fresh_ht_ok[OF k(2), of "dtype d"] by (simp_all add: h_def del: concat_eq_Nil_conv)
  have ht1: "ht1 d = dictReset" using inv False by (simp add: dict_inv_def dictIsRehashing_def)
  have c1: "concat (table (dictReset :: ('a, 'b) dictht)) = []" by (simp add: dictReset_def)
  show ?thesis
  proof (cases "table (ht0 d) = []")
    case True
    have "dictExpand d n = (d\<lparr>ht0 := h\<rparr>, True)"
      using False True k(1) by (simp add: dictExpand_def h_def Let_def)
    moreover have "entries (d\<lparr>ht0 := h\<rparr>) = entries d"
      using True h(2) by (simp add: entries_def del: concat_eq_Nil_conv)
    ultimately show ?thesis
      using False inv h(1) ht1 by (simp add: dict_inv_def same_entries_def dictIsRehashing_def)
  next
    case ne: False
    have "dictExpand d n = (d\<lparr>ht1 := h, rehashidx := 0\<rparr>, True)"
      using False ne k(1) by (simp add: dictExpand_def h_def Let_def)
    moreover have "entries (d\<lparr>ht1 := h, rehashidx := 0\<rparr>) = entries d"
      using ht1 c1 h(2) by (simp add: entries_def del: concat_eq_Nil_conv)
    moreover have "ht_ok (dtype d) (ht0 d)" using inv ne by (auto simp: dict_inv_def dictReset_def)
    ultimately show ?thesis
      using False inv h(1) by (simp add: dict_inv_def same_entries_def dictIsRehashing_def)
  qed
qed

lemma used_entries:
  assumes "dict_inv d"
  shows "used (ht0 d) + used (ht1 d) = length (entries d)"
proof -
  have "used h = length (concat (table h))" if "h = dictReset \<or> ht_ok T h" for h :: "('a, 'b) dictht" and T
    using that by (auto simp: ht_ok_def dictReset_def)
  then have "used (ht0 d) = length (concat (table (ht0 d)))" "used (ht1 d) = length (concat (table (ht1 d)))"
    using assms unfolding dict_inv_def by (metis, metis)
  then show ?thesis by (simp only: entries_def length_append)
qed

lemma dictSize_entries: "dict_inv d \<Longrightarrow> dictSize d = length (entries d)"
  using used_entries[of d] by (simp add: dictSize_def dict_inv_def dict_max_def)

lemma dictExpandIfNeeded_spec:
  assumes inv: "dict_inv d" and room: "length (entries d) < dict_max"
  shows "\<exists>d'. dictExpandIfNeeded cr d = (d', True) \<and> dict_inv d' \<and> same_entries d d' \<and> ht_ok (dtype d') (ht0 d')"
proof -
  have u: "used (ht0 d) * 2 < LONG_MAX"
    using used_entries[OF inv] room by (simp add: dict_max_def LONG_MAX_def)
  then have m: "used (ht0 d) * 2 mod 2 ^ 64 = used (ht0 d) * 2" by (simp add: LONG_MAX_def)
  consider (re) "dictIsRehashing d" | (zero) "\<not> dictIsRehashing d" "ht_size (ht0 d) = 0"
    | (grow) "\<not> dictIsRehashing d" "ht_size (ht0 d) \<noteq> 0" "ht_size (ht0 d) \<le> used (ht0 d)"
        "cr \<or> dict_force_resize_ratio < used (ht0 d) div ht_size (ht0 d)"
    | (keep) "\<not> dictIsRehashing d" "ht_size (ht0 d) \<noteq> 0" "\<not> (ht_size (ht0 d) \<le> used (ht0 d) \<and>
        (cr \<or> dict_force_resize_ratio < used (ht0 d) div ht_size (ht0 d)))"
    by blast
  then show ?thesis
  proof cases
    case re
    with inv show ?thesis by (auto simp: dictExpandIfNeeded_def dict_inv_def dictIsRehashing_def)
  next
    case zero
    then have "used (ht0 d) = 0"
      using inv by (auto simp: dict_inv_def dictIsRehashing_def dictReset_def dest: ht_ok_table_nonempty)
    with zero dictExpand_spec[OF inv, of DICT_HT_INITIAL_SIZE] show ?thesis
      by (simp add: dictExpandIfNeeded_def DICT_HT_INITIAL_SIZE_def LONG_MAX_def)
  next
    case grow
    then have "dictExpandIfNeeded cr d = dictExpand d (used (ht0 d) * 2)"
      using m by (simp add: dictExpandIfNeeded_def)
    with dictExpand_spec[OF inv u] grow(1) show ?thesis by auto
  next
    case keep
    then have "dictExpandIfNeeded cr d = (d, True)"
      by (simp only: dictExpandIfNeeded_def if_False)
    moreover have "ht_ok (dtype d) (ht0 d)" using inv keep(2) by (auto simp: dict_inv_def dictReset_def)
    ultimately show ?thesis using inv by simp
  qed
qed

subsection \<open>Insertion\<close>

lemma sint_u32_small: "n < 2 ^ 31 \<Longrightarrow> sint (of_nat n :: u32) = int n"
  by (simp add: sint_uint uint_nat unat_of_nat signed_take_bit_int_eq_self)

lemma dictKeyIndex_spec:
  assumes inv: "dict_inv d" and room: "length (entries d) < dict_max"
  shows "\<exists>d' i. dictKeyIndex cr d k = Some (d', i) \<and> dict_inv d' \<and> same_entries d d' \<and>
    (if lookup d k = None
     then let h = get_ht d' (if dictIsRehashing d' then 1 else 0)
          in ht_ok (dtype d') h \<and> i = int (bucket h (dictHashKey d' k)) \<and> nat i < ht_size h
     else i = -1)"
proof -
  from dictExpandIfNeeded_spec[OF assms] obtain d1 where d1: "dictExpandIfNeeded cr d = (d1, True)"
    "dict_inv d1" "same_entries d d1" "ht_ok (dtype d1) (ht0 d1)" by blast
  note lk = same_entries_lookup[OF inv d1(3)]
  from search_tables_spec[OF d1(2,4), of k] obtain l where l: "search_tables d1 k [0, 1] = Some l"
    "case l of None \<Rightarrow> k \<notin> fst ` set (entries d1) | Some l \<Rightarrow> holds_key d1 l k" by blast
  define h where "h = get_ht d1 (if dictIsRehashing d1 then 1 else 0)"
  have ok: "ht_ok (dtype d1) h" using d1(2,4) by (auto simp: h_def dict_inv_def dictIsRehashing_def)
  have b: "bucket h (dictHashKey d1 k) < 2 ^ 31"
    using bucket_less[OF ok, of "dictHashKey d1 k"] ht_size_bound[OF ok] by linarith
  show ?thesis
  proof (cases l)
    case None
    then have "lookup d k = None" using l(2) lookup_None[of d1 k] lk by simp
    moreover have "dictKeyIndex cr d k = Some (d1, int (bucket h (dictHashKey d1 k)))"
      using d1(1) l(1) None sint_u32_small[OF b] by (simp add: dictKeyIndex_def h_def Let_def del: search_tables.simps)
    ultimately show ?thesis
      using d1(2,3) ok bucket_less[OF ok, of "dictHashKey d1 k"] by (simp add: h_def Let_def)
  next
    case (Some m)
    then have "lookup d k \<noteq> None" using l(2) entry_at_holds[OF d1(2)] lk by fastforce
    moreover have "dictKeyIndex cr d k = Some (d1, -1)"
      using d1(1) l(1) Some by (simp add: dictKeyIndex_def del: search_tables.simps)
    ultimately show ?thesis using d1(2,3) by simp
  qed
qed


lemma insert_chain_spec:
  assumes inv: "dict_inv d" and room: "length (entries d) < dict_max" and new: "lookup d k = None"
    and t: "t = (if dictIsRehashing d then 1 else 0)"
    and h: "ht_ok (dtype d) (get_ht d t)" "i = bucket (get_ht d t) (dictHashKey d k)"
  shows "dict_inv (set_chain d t i ((k, v) # table (get_ht d t) ! i))"
    and "lookup (set_chain d t i ((k, v) # table (get_ht d t) ! i)) = (lookup d)(k \<mapsto> v)"
    and "length (entries (set_chain d t i ((k, v) # table (get_ht d t) ! i))) = Suc (length (entries d))"
    and "holds_key (set_chain d t i ((k, v) # table (get_ht d t) ! i)) (t, i, 0) k"
    and "length (concat ((table (get_ht d t))[i := (k, v) # table (get_ht d t) ! i])) = inc64 (used (get_ht d t))"
proof -
  let ?c = "(k, v) # table (get_ht d t) ! i"
  have t1: "t \<le> 1" by (simp add: t)
  have i: "i < ht_size (get_ht d t)" using bucket_less[OF h(1)] h(2) by simp
  then have il: "i < length (table (get_ht d t))" using ht_ok_length[OF h(1)] by simp
  have e: "mset (entries (set_chain d t i ?c)) = add_mset (k, v) (mset (entries d))"
    using entries_set_chain[OF t1 il, of ?c] by simp
  have di: "distinct (map fst (entries d))" using inv by (simp add: dict_inv_def)
  note ins = insert_entry[OF e di new[unfolded lookup_None]]
  show len: "length (entries (set_chain d t i ?c)) = Suc (length (entries d))"
    using arg_cong[OF e, of size] by simp
  have bk: "\<forall>e\<in>set ?c. bucket (get_ht d t) (hashFunction (dtype d) (fst e)) = i"
    using h i by (simp add: ht_ok_def dictHashKey_def)
  show inv': "dict_inv (set_chain d t i ?c)"
    using inv_set_chain[OF inv t1 h(1) i bk ins(1)] len room t by simp
  show "lookup (set_chain d t i ?c) = (lookup d)(k \<mapsto> v)"
    using ins(2) by (simp add: lookup_def)
  have g: "get_ht (set_chain d t i ?c) t =
      (get_ht d t)\<lparr>table := (table (get_ht d t))[i := ?c], used := length (concat ((table (get_ht d t))[i := ?c]))\<rparr>"
    using t1 by (simp add: set_chain_def Let_def get_set_ht)
  have "ht_ok (dtype d) (get_ht (set_chain d t i ?c) t)"
    unfolding g by (rule ht_ok_update(1)[OF h(1) i bk refl])
  then show "holds_key (set_chain d t i ?c) (t, i, 0) k"
    using t1 i il by (simp add: holds_key_def g)
  have "used (get_ht d t) \<le> length (entries d)"
    using used_entries[OF inv] t by (auto split: if_splits)
  then have "inc64 (used (get_ht d t)) = Suc (used (get_ht d t))"
    using room by (intro inc64_small) (simp add: dict_max_def)
  then show "length (concat ((table (get_ht d t))[i := ?c])) = inc64 (used (get_ht d t))"
    using length_concat_cons[OF il, of "(k, v)"] h(1) by (simp add: ht_ok_def)
qed

lemma dictAddRaw_spec:
  assumes inv: "dict_inv d" and room: "length (entries d) < dict_max"
  shows "\<exists>d' l. dictAddRaw cr junk d k = Some (d', l) \<and> dict_inv d' \<and>
    (if lookup d k = None
     then (\<exists>m. l = Some m \<and> holds_key d' m k) \<and> lookup d' = (lookup d)(k \<mapsto> junk) \<and>
          length (entries d') = Suc (length (entries d))
     else l = None \<and> lookup d' = lookup d \<and> length (entries d') = length (entries d))"
proof -
  from step_if_rehashing_spec[OF inv] obtain d1 where d1:
    "(if dictIsRehashing d then dictRehashStep d else Some d) = Some d1" "dict_inv d1" "same_entries d d1" by blast
  have room1: "length (entries d1) < dict_max" using same_entries_length[OF d1(3)] room by simp
  from dictKeyIndex_spec[OF d1(2) room1, of cr k] obtain d2 i where d2:
    "dictKeyIndex cr d1 k = Some (d2, i)" "dict_inv d2" "same_entries d1 d2"
    "if lookup d1 k = None
     then let h = get_ht d2 (if dictIsRehashing d2 then 1 else 0)
          in ht_ok (dtype d2) h \<and> i = int (bucket h (dictHashKey d2 k)) \<and> nat i < ht_size h
     else i = -1" by blast
  have same: "same_entries d d2" using d1(3) d2(3) by (rule same_entries_trans)
  note lk = same_entries_lookup[OF inv d1(3)] same_entries_lookup[OF inv same] same_entries_length[OF same]
  show ?thesis
  proof (cases "lookup d k = None")
    case False
    then have "i = -1" using d2(4) lk(1) by auto
    with False d1(1) d2(1,2) lk show ?thesis by (auto simp: dictAddRaw_def)
  next
    case True
    define t :: nat where "t = (if dictIsRehashing d2 then 1 else 0)"
    define b where "b = bucket (get_ht d2 t) (dictHashKey d2 k)"
    have ib: "ht_ok (dtype d2) (get_ht d2 t)" "i = int b" "b < ht_size (get_ht d2 t)"
      using d2(4) True lk(1) by (auto simp: Let_def t_def b_def)
    have bl: "b < length (table (get_ht d2 t))" using ib(3) ht_ok_length[OF ib(1)] by simp
    note ins = insert_chain_spec[OF d2(2) _ _ t_def ib(1) b_def, of junk]
    have r: "length (entries d2) < dict_max" "lookup d2 k = None" using room lk True by simp_all
    have "dictAddRaw cr junk d k =
        Some (set_chain d2 t b ((k, junk) # table (get_ht d2 t) ! b), Some (t, b, 0))"
      using d1(1) d2(1) ib(2) bl ins(5)[OF r]
      by (simp add: dictAddRaw_def arr_get_in arr_set_in set_chain_def Let_def
          type_ok_simps(2)[OF dict_inv_type[OF d2(2)]] flip: t_def)
    with ins(1-4)[OF r] True lk show ?thesis by simp
  qed
qed

lemma dictAdd_spec:
  assumes inv: "dict_inv d" and room: "length (entries d) < dict_max"
  shows "\<exists>d'. dictAdd cr junk d k v = Some (d', lookup d k = None) \<and> dict_inv d' \<and>
    lookup d' = (if lookup d k = None then (lookup d)(k \<mapsto> v) else lookup d) \<and>
    length (entries d') = length (entries d) + (if lookup d k = None then 1 else 0)"
proof -
  from dictAddRaw_spec[OF inv room, of cr junk k] obtain d1 l where r: "dictAddRaw cr junk d k = Some (d1, l)" "dict_inv d1"
    "if lookup d k = None
     then (\<exists>m. l = Some m \<and> holds_key d1 m k) \<and> lookup d1 = (lookup d)(k \<mapsto> junk) \<and>
          length (entries d1) = Suc (length (entries d))
     else l = None \<and> lookup d1 = lookup d \<and> length (entries d1) = length (entries d)" by blast
  show ?thesis
  proof (cases "lookup d k = None")
    case True
    with r obtain m where m: "l = Some m" "holds_key d1 m k" "lookup d1 = (lookup d)(k \<mapsto> junk)"
      "length (entries d1) = Suc (length (entries d))" by auto
    from dictSetVal_spec[OF r(2) m(2), of v] r(1) m True show ?thesis by (auto simp: dictAdd_def)
  next
    case False
    with r show ?thesis by (auto simp: dictAdd_def)
  qed
qed

lemma dictReplace_spec:
  assumes inv: "dict_inv d" and room: "length (entries d) < dict_max"
  shows "\<exists>d'. dictReplace cr junk d k v =
      Some (d', lookup d k = None, case lookup d k of None \<Rightarrow> [] | Some w \<Rightarrow> [w]) \<and> dict_inv d' \<and>
    lookup d' = (lookup d)(k \<mapsto> v) \<and>
    length (entries d') = length (entries d) + (if lookup d k = None then 1 else 0)"
proof -
  from dictAdd_spec[OF inv room, of cr junk k v] obtain d1 where d1:
    "dictAdd cr junk d k v = Some (d1, lookup d k = None)" "dict_inv d1"
    "lookup d1 = (if lookup d k = None then (lookup d)(k \<mapsto> v) else lookup d)"
    "length (entries d1) = length (entries d) + (if lookup d k = None then 1 else 0)" by blast
  show ?thesis
  proof (cases "lookup d k")
    case None
    with d1 show ?thesis by (auto simp: dictReplace_def)
  next
    case (Some w)
    with d1 have l1: "lookup d1 k = Some w" "lookup d1 = lookup d" by simp_all
    from dictFind_spec[OF d1(2), of k] obtain d2 l where d2: "dictFind d1 k = Some (d2, l)" "dict_inv d2"
      "same_entries d1 d2" "case l of None \<Rightarrow> lookup d1 k = None | Some l \<Rightarrow> holds_key d2 l k" by blast
    with l1 obtain m where m: "l = Some m" "holds_key d2 m k" by (cases l) auto
    note lk = same_entries_lookup[OF d1(2) d2(3)] same_entries_length[OF d2(3)]
    from entry_at_holds[OF d2(2) m(2)] dictSetVal_spec[OF d2(2) m(2), of v]
    show ?thesis using d1 d2(1) m(1) Some l1 lk by (auto simp: dictReplace_def)
  qed
qed

text \<open>The dictionary is a map with room for \<open>dict_max\<close> entries.\<close>

interpretation dict_map: bounded_map dictFetchValue
  "\<lambda>d k v. map_option (\<lambda>(d, r, _). (d, r)) (dictReplace cr junk d k v)"
  "\<lambda>d k. map_option (\<lambda>(d, r, _). (d, r)) (dictDelete d k)"
  lookup dict_inv "\<lambda>d. dictSize d < dict_max"
  for cr :: bool and junk :: 'v
proof unfold_locales
  fix d :: "('k, 'v) dict" and k
  assume inv: "dict_inv d"
  show "\<exists>d'. dictFetchValue d k = Some (d', lookup d k) \<and> dict_inv d' \<and> lookup d' = lookup d"
    using dictFetchValue_spec[OF inv, of k] same_entries_lookup[OF inv] by blast
  show "\<exists>d'. map_option (\<lambda>(d, r, _). (d, r)) (dictDelete d k) = Some (d', lookup d k \<noteq> None) \<and> dict_inv d' \<and>
      lookup d' = (lookup d)(k := None)"
    using dictGenericDelete_spec[OF inv, of k False] by (auto simp: dictDelete_def)
  fix v assume room: "dictSize d < dict_max"
  show "\<exists>d'. map_option (\<lambda>(d, r, _). (d, r)) (dictReplace cr junk d k v) = Some (d', lookup d k = None) \<and> dict_inv d' \<and>
      lookup d' = (lookup d)(k \<mapsto> v)"
    using dictReplace_spec[OF inv, of cr junk k v] room dictSize_entries[OF inv] by auto
qed


subsection \<open>Creation, resizing, clearing\<close>

lemma dict_inv_create: "type_ok T \<Longrightarrow> dict_inv (dictCreate T)"
  by (simp add: dict_inv_def dictCreate_def dictInit_def dictReset_def entries_def)

lemma lookup_create: "lookup (dictCreate T) = Map.empty"
  by (simp add: lookup_def entries_def dictCreate_def dictInit_def dictReset_def)

lemma dictSize_card: "dict_inv d \<Longrightarrow> dictSize d = card (dom (lookup d))"
proof -
  assume inv: "dict_inv d"
  then have "card (fst ` set (entries d)) = length (map fst (entries d))"
    unfolding dict_inv_def by (metis distinct_card set_map)
  then show ?thesis using dictSize_entries[OF inv] by (simp add: lookup_def dom_map_of_conv_image_fst)
qed

lemma dictResize_spec:
  assumes inv: "dict_inv d"
  shows "\<exists>d' b. dictResize cr d = (d', b) \<and> dict_inv d' \<and> same_entries d d' \<and> (b \<longleftrightarrow> cr \<and> \<not> dictIsRehashing d)"
proof (cases "cr \<and> \<not> dictIsRehashing d")
  case False
  with inv show ?thesis by (auto simp: dictResize_def)
next
  case True
  define n where "n = (if used (ht0 d) < 4 then 4 else used (ht0 d))"
  have u: "used (ht0 d) < 2 ^ 30"
    using used_entries[OF inv] inv by (simp add: dict_inv_def dict_max_def)
  then have "n < LONG_MAX" "used (ht0 d) \<le> n" by (auto simp: n_def LONG_MAX_def)
  moreover have "dictResize cr d = dictExpand d n"
    using True u sint_u32_small[of "used (ht0 d)"]
    by (auto simp: dictResize_def Let_def DICT_HT_INITIAL_SIZE_def n_def)
  ultimately show ?thesis using dictExpand_spec[OF inv, of n] True by auto
qed

lemma dec64_funpow: "n \<le> m \<Longrightarrow> (dec64 ^^ n) m = m - n"
proof (induction n)
  case (Suc n)
  then show ?case by (simp add: dec64_pos)
qed simp

lemma clear_loop_spec:
  assumes "length (table h) = ht_size h" "used h = length (concat (drop i (table h)))"
  shows "\<exists>n. clear_loop callback h i = Some (concat (drop i (table h)), n)"
  using assms
proof (induction callback h i rule: clear_loop.induct)
  case (1 callback h i)
  show ?case
  proof (cases "i < ht_size h \<and> 0 < used h")
    case False
    then have "concat (drop i (table h)) = []" using "1.prems" by auto
    with False show ?thesis by (subst clear_loop.simps) (auto simp del: concat_eq_Nil_conv)
  next
    case True
    then have il: "i < length (table h)" using "1.prems" by simp
    then have d: "concat (drop i (table h)) = table h ! i @ concat (drop (Suc i) (table h))"
      by (simp add: Cons_nth_drop_Suc[symmetric])
    have u: "(dec64 ^^ length (table h ! i)) (used h) = length (concat (drop (Suc i) (table h)))"
      using "1.prems"(2) d by (subst dec64_funpow) (simp_all del: length_concat)
    have "\<exists>n. clear_loop callback (h\<lparr>used := (dec64 ^^ length (table h ! i)) (used h)\<rparr>) (Suc i) =
        Some (concat (drop (Suc i) (table h)), n)"
      using "1.IH"[OF True refl, of "table h ! i"] "1.prems"(1) u il by (simp add: arr_get_in)
    then show ?thesis using True il d by (subst clear_loop.simps) (auto simp: arr_get_in)
  qed
qed

lemma dictClear_spec:
  assumes "h = dictReset \<or> ht_ok T h"
  shows "\<exists>n. dictClear h callback = Some (dictReset, concat (table h), n)"
proof -
  have "length (table h) = ht_size h" "used h = length (concat (drop 0 (table h)))"
    using assms by (auto simp: ht_ok_def dictReset_def)
  from clear_loop_spec[OF this, of callback] show ?thesis by (auto simp: dictClear_def)
qed

lemma dict_tables_ok:
  "dict_inv d \<Longrightarrow> ht0 d = dictReset \<or> ht_ok (dtype d) (ht0 d)"
  "dict_inv d \<Longrightarrow> ht1 d = dictReset \<or> ht_ok (dtype d) (ht1 d)"
  by (auto simp: dict_inv_def split: if_splits)

lemma dictEmpty_spec:
  assumes "dict_inv d"
  shows "\<exists>d'. dictEmpty d callback = Some (d', entries d) \<and> d' = dictCreate (dtype d)"
  using dictClear_spec[OF dict_tables_ok(1)[OF assms], of callback] dictClear_spec[OF dict_tables_ok(2)[OF assms], of callback]
  by (auto simp: dictEmpty_def entries_def dictCreate_def dictInit_def)

subsection \<open>Programs over a dictionary\<close>

datatype ('k, 'v) dict_op = OpAdd 'k 'v | OpReplace 'k 'v | OpDelete 'k | OpFetch 'k | OpResize | OpRehash nat | OpEmpty

text \<open>A run of the implementation; the outputs are the values a client sees.\<close>

fun run_op :: "bool \<Rightarrow> 'v \<Rightarrow> ('k, 'v) dict \<Rightarrow> ('k, 'v) dict_op \<Rightarrow> (('k, 'v) dict \<times> (bool + 'v option)) option" where
  "run_op cr junk d (OpAdd k v) = map_option (\<lambda>(d, b). (d, Inl b)) (dictAdd cr junk d k v)"
| "run_op cr junk d (OpReplace k v) = map_option (\<lambda>(d, b, _). (d, Inl b)) (dictReplace cr junk d k v)"
| "run_op cr junk d (OpDelete k) = map_option (\<lambda>(d, b, _). (d, Inl b)) (dictDelete d k)"
| "run_op cr junk d (OpFetch k) = map_option (\<lambda>(d, v). (d, Inr v)) (dictFetchValue d k)"
| "run_op cr junk d OpResize = Some (fst (dictResize cr d), Inl True)"
| "run_op cr junk d (OpRehash n) = map_option (\<lambda>(d, b). (d, Inl True)) (dictRehash d n)"
| "run_op cr junk d OpEmpty = map_option (\<lambda>(d, _). (d, Inl True)) (dictEmpty d True)"

fun run_ops :: "bool \<Rightarrow> 'v \<Rightarrow> ('k, 'v) dict \<Rightarrow> ('k, 'v) dict_op list \<Rightarrow> (('k, 'v) dict \<times> (bool + 'v option) list) option" where
  "run_ops cr junk d [] = Some (d, [])"
| "run_ops cr junk d (op # ops) =
     do { (d, out) \<leftarrow> run_op cr junk d op; (d, outs) \<leftarrow> run_ops cr junk d ops; Some (d, out # outs) }"

text \<open>The same programs on finite maps.\<close>

fun map_op :: "('k \<rightharpoonup> 'v) \<Rightarrow> ('k, 'v) dict_op \<Rightarrow> ('k \<rightharpoonup> 'v) \<times> (bool + 'v option)" where
  "map_op m (OpAdd k v) = (if m k = None then m(k \<mapsto> v) else m, Inl (m k = None))"
| "map_op m (OpReplace k v) = (m(k \<mapsto> v), Inl (m k = None))"
| "map_op m (OpDelete k) = (m(k := None), Inl (m k \<noteq> None))"
| "map_op m (OpFetch k) = (m, Inr (m k))"
| "map_op m OpResize = (m, Inl True)"
| "map_op m (OpRehash n) = (m, Inl True)"
| "map_op m OpEmpty = (Map.empty, Inl True)"

fun map_ops :: "('k \<rightharpoonup> 'v) \<Rightarrow> ('k, 'v) dict_op list \<Rightarrow> ('k \<rightharpoonup> 'v) \<times> (bool + 'v option) list" where
  "map_ops m [] = (m, [])"
| "map_ops m (op # ops) = (let (m, out) = map_op m op; (m, outs) = map_ops m ops in (m, out # outs))"

lemma run_op_refines:
  assumes inv: "dict_inv d" and room: "dictSize d < dict_max"
  shows "\<exists>d'. run_op cr junk d op = Some (d', snd (map_op (lookup d) op)) \<and> dict_inv d' \<and>
    lookup d' = fst (map_op (lookup d) op) \<and> dictSize d' \<le> Suc (dictSize d)"
proof -
  have len: "length (entries d) < dict_max" using dictSize_entries[OF inv] room by simp
  have fin: "finite (dom (lookup d))" by (simp add: lookup_def finite_dom_map_of)
  have grow: "card (dom ((lookup d)(k \<mapsto> v))) \<le> Suc (dictSize d)" for k v
    using fin by (simp add: dictSize_card[OF inv] card_insert_if)
  have shrink: "card (dom ((lookup d)(k := None))) \<le> Suc (dictSize d)" for k
    using fin card_mono[of "dom (lookup d)" "dom (lookup d) - {k}"] by (simp add: dictSize_card[OF inv])
  have done': ?thesis if "run_op cr junk d op = Some (d', snd (map_op (lookup d) op))" "dict_inv d'"
    "lookup d' = fst (map_op (lookup d) op)" "card (dom (lookup d')) \<le> Suc (dictSize d)" for d'
    using that dictSize_card[OF that(2)] by (intro exI[of _ d']) simp
  have keep: "card (dom (lookup d)) \<le> Suc (dictSize d)" by (simp add: dictSize_card[OF inv])
  show ?thesis
  proof (cases op)
    case (OpAdd k v)
    from dictAdd_spec[OF inv len, of cr junk k v] obtain d' where
      "dictAdd cr junk d k v = Some (d', lookup d k = None)" "dict_inv d'"
      "lookup d' = (if lookup d k = None then (lookup d)(k \<mapsto> v) else lookup d)" by blast
    with OpAdd grow[of k v] keep show ?thesis by (intro done'[of d']) simp_all
  next
    case (OpReplace k v)
    from dict_map.upd[OF inv room, of cr junk k v] obtain d' where
      "map_option (\<lambda>(d, r, _). (d, r)) (dictReplace cr junk d k v) = Some (d', lookup d k = None)" "dict_inv d'"
      "lookup d' = (lookup d)(k \<mapsto> v)" by blast
    with OpReplace grow[of k v] show ?thesis by (intro done'[of d']) auto
  next
    case (OpDelete k)
    from dict_map.del[OF inv, of k] obtain d' where
      "map_option (\<lambda>(d, r, _). (d, r)) (dictDelete d k) = Some (d', lookup d k \<noteq> None)" "dict_inv d'"
      "lookup d' = (lookup d)(k := None)" by blast
    with OpDelete shrink[of k] show ?thesis by (intro done'[of d']) auto
  next
    case (OpFetch k)
    from dict_map.find[OF inv, of k] obtain d' where
      "dictFetchValue d k = Some (d', lookup d k)" "dict_inv d'" "lookup d' = lookup d" by blast
    with OpFetch keep show ?thesis by (intro done'[of d']) simp_all
  next
    case OpResize
    from dictResize_spec[OF inv, of cr] obtain d' b where
      "dictResize cr d = (d', b)" "dict_inv d'" "same_entries d d'" by blast
    with OpResize keep same_entries_lookup[OF inv, of d'] show ?thesis by (intro done'[of d']) simp_all
  next
    case (OpRehash n)
    from dictRehash_spec[OF inv, of n] obtain d' b where
      "dictRehash d n = Some (d', b)" "dict_inv d'" "same_entries d d'" by blast
    with OpRehash keep same_entries_lookup[OF inv, of d'] show ?thesis by (intro done'[of d']) simp_all
  next
    case OpEmpty
    have "dict_inv (dictCreate (dtype d))" using dict_inv_create dict_inv_type[OF inv] by blast
    with OpEmpty dictEmpty_spec[OF inv, of True] show ?thesis
      by (intro done'[of "dictCreate (dtype d)"]) (auto simp: lookup_create)
  qed
qed

lemma run_ops_refines:
  assumes "dict_inv d" "dictSize d + length ops \<le> dict_max"
  shows "\<exists>d'. run_ops cr junk d ops = Some (d', snd (map_ops (lookup d) ops)) \<and> dict_inv d' \<and>
    lookup d' = fst (map_ops (lookup d) ops)"
  using assms
proof (induction ops arbitrary: d)
  case (Cons op ops)
  then have "dictSize d < dict_max" by simp
  from run_op_refines[OF Cons.prems(1) this, of cr junk op] obtain d1 where d1:
    "run_op cr junk d op = Some (d1, snd (map_op (lookup d) op))" "dict_inv d1"
    "lookup d1 = fst (map_op (lookup d) op)" "dictSize d1 \<le> Suc (dictSize d)" by blast
  then have "dictSize d1 + length ops \<le> dict_max" using Cons.prems(2) by simp
  from Cons.IH[OF d1(2) this] d1 show ?case by (auto simp: Let_def split_beta)
qed simp

subsection \<open>Properties\<close>

text \<open>
  C1. Any program of dictionary operations on a new dictionary (adding, replacing, deleting,
  fetching, resizing, rehashing, emptying) runs to the end without leaving the tables and
  returns what the same program on a finite map returns; the dictionary then represents that map.
\<close>

theorem dict_refines_map:
  assumes "type_ok T" "length ops \<le> dict_max"
  shows "\<exists>d'. run_ops cr junk (dictCreate T) ops = Some (d', snd (map_ops Map.empty ops)) \<and>
    lookup d' = fst (map_ops Map.empty ops) \<and> dictSize d' = card (dom (lookup d'))"
proof -
  have "dictSize (dictCreate T) = 0" using dictSize_card[OF dict_inv_create[OF assms(1)]] lookup_create[of T] by simp
  then show ?thesis
    using run_ops_refines[OF dict_inv_create[OF assms(1)], of ops cr junk] assms(2) lookup_create[of T] dictSize_card
    by auto
qed

text \<open>A dictionary type over numbers: no copies, comparison by equality.\<close>

definition natType :: "(nat, nat) dictType" where
  "natType = \<lparr>hashFunction = of_nat, keyDup = None, valDup = None, keyCompare = Some (=)\<rparr>"

lemma type_ok_natType: "type_ok natType"
  by (simp add: type_ok_def natType_def)

theorem dict_refines_map_witness:
  "\<exists>d'. run_ops True 0 (dictCreate natType) [OpAdd 1 10, OpAdd 5 50, OpReplace 1 11, OpDelete 5, OpFetch 1, OpFetch 5] =
     Some (d', [Inl True, Inl True, Inl False, Inl True, Inr (Some 11), Inr None])"
  using dict_refines_map[OF type_ok_natType, of "[OpAdd 1 10, OpAdd 5 50, OpReplace 1 11, OpDelete 5, OpFetch 1, OpFetch 5]" True 0]
  by (auto simp: dict_max_def)



text \<open>\<open>dictRelease\<close> passes every entry of both tables to the destructors, once each.\<close>

theorem dictRelease_frees_all:
  assumes "dict_inv d"
  shows "dictRelease d = Some (entries d)"
  using dictClear_spec[OF dict_tables_ok(1)[OF assms], of False] dictClear_spec[OF dict_tables_ok(2)[OF assms], of False]
  by (auto simp: dictRelease_def entries_def)

theorem dictRelease_frees_all_witness: "dictRelease (dictCreate natType) = Some []"
  using dictRelease_frees_all[OF dict_inv_create[OF type_ok_natType]]
  by (simp add: entries_def dictCreate_def dictInit_def dictReset_def)


text \<open>
  \<open>dictRehashMilliseconds\<close> returns whatever the clock shows: the number of its batches is
  bounded by the size of table 0, and the entries are kept.
\<close>

theorem dictRehashMilliseconds_returns:
  assumes "dict_inv d"
  shows "\<exists>d' n. dictRehashMilliseconds (ht_size (ht0 d) + 1) elapsed d ms = Some (d', n) \<and> lookup d' = lookup d"
proof -
  have "dictIsRehashing d \<longrightarrow> int (ht_size (ht0 d)) - rehashidx d < int (ht_size (ht0 d) + 1)"
    using assms by (auto simp: dict_inv_def dictIsRehashing_def)
  from rehash_ms_loop_spec[OF assms _ this, of elapsed ms 0] obtain d' n where
    "rehash_ms_loop (ht_size (ht0 d) + 1) elapsed ms d 0 = Some (d', n)" "same_entries d d'" by auto
  with same_entries_lookup[OF assms, of d'] show ?thesis by (simp add: dictRehashMilliseconds_def)
qed

theorem dictRehashMilliseconds_returns_witness:
  "\<exists>d' n. dictRehashMilliseconds (ht_size (ht0 (dictCreate natType)) + 1) int (dictCreate natType) 1 = Some (d', n)"
  using dictRehashMilliseconds_returns[OF dict_inv_create[OF type_ok_natType], of int 1] by blast

end
