(* ===== verification/DictScan.thy ===== *)
theory DictScan
  imports Dict
begin

text \<open>
  Walking a dictionary (\<open>src/redis/src/dict.c\<close>): the hash functions, iterators with their
  fingerprint, random keys, and the stateless cursor of \<open>dictScan\<close>.  \<open>unsigned long\<close> has 32
  bits.  The order in which the cursor visits the buckets is the order of the bit-reversed
  hash values, which is what the proofs work with.
\<close>

subsection \<open>Hash functions\<close>

definition dictIntHashFunction :: "u32 \<Rightarrow> u32" where
  "dictIntHashFunction key =
     (let key = key + NOT (push_bit 15 key);
          key = key XOR drop_bit 10 key;
          key = key + push_bit 3 key;
          key = key XOR drop_bit 6 key;
          key = key + NOT (push_bit 11 key);
          key = key XOR drop_bit 16 key
      in key)"

definition DICT_HASH_FUNCTION_SEED_UNITIALIZED :: u32 where
  "DICT_HASH_FUNCTION_SEED_UNITIALIZED = 5381"

text \<open>The new value of the seed and the result: it can be set once.\<close>

definition dictSetHashFunctionSeed :: "u32 \<Rightarrow> u32 \<Rightarrow> u32 \<times> int" where
  "dictSetHashFunctionSeed dict_hash_function_seed seed =
     (if dict_hash_function_seed = DICT_HASH_FUNCTION_SEED_UNITIALIZED then (seed, 0)
      else (dict_hash_function_seed, -1))"

definition murmur_m :: u32 where
  "murmur_m = 0x5bd1e995"

text \<open>\<open>*(uint32_t*)data\<close> on a little-endian machine; \<open>None\<close> beyond the key.\<close>

definition read_u32 :: "byte list \<Rightarrow> nat \<Rightarrow> u32 option" where
  "read_u32 data off = do { bs \<leftarrow> mem_read data off 4; Some (of_nat (le_val bs)) }"

function murmur_loop :: "byte list \<Rightarrow> nat \<Rightarrow> nat \<Rightarrow> u32 \<Rightarrow> (u32 \<times> nat \<times> nat) option" where
  "murmur_loop data off len h =
     (if 4 \<le> len
      then do { k \<leftarrow> read_u32 data off;
                let k = k * murmur_m;
                    k = k XOR drop_bit 24 k;
                    k = k * murmur_m;
                    h = h * murmur_m;
                    h = h XOR k
                in murmur_loop data (off + 4) (len - 4) h }
      else Some (h, off, len))"
  by auto
termination by (relation "measure (\<lambda>(_, _, len, _). len)") auto

declare murmur_loop.simps [simp del]

text \<open>The fall-through \<open>switch\<close> on the bytes that are left.\<close>

definition murmur_tail :: "byte list \<Rightarrow> nat \<Rightarrow> nat \<Rightarrow> u32 \<Rightarrow> u32 option" where
  "murmur_tail data off len h =
     do { h \<leftarrow> (if len = 3 then do { b \<leftarrow> arr_get data (int (off + 2)); Some (h XOR push_bit 16 (ucast b)) } else Some h);
          h \<leftarrow> (if len = 3 \<or> len = 2
               then do { b \<leftarrow> arr_get data (int (off + 1)); Some (h XOR push_bit 8 (ucast b)) } else Some h);
          (if len = 3 \<or> len = 2 \<or> len = 1
           then do { b \<leftarrow> arr_get data (int off); Some ((h XOR ucast b) * murmur_m) } else Some h) }"

definition dictGenHashFunction :: "u32 \<Rightarrow> byte list \<Rightarrow> nat \<Rightarrow> u32 option" where
  "dictGenHashFunction dict_hash_function_seed key len =
     do { let h = dict_hash_function_seed XOR of_nat len;
          (h, off, len) \<leftarrow> murmur_loop key 0 len h;
          h \<leftarrow> murmur_tail key off len h;
          let h = h XOR drop_bit 13 h; h = h * murmur_m; h = h XOR drop_bit 15 h
          in Some h }"

text \<open>\<open>tolower\<close> of the C locale.\<close>

definition tolower :: "byte \<Rightarrow> byte" where
  "tolower c = (if 65 \<le> c \<and> c \<le> 90 then c + 32 else c)"

fun case_hash_loop :: "u32 \<Rightarrow> byte list \<Rightarrow> nat \<Rightarrow> u32 option" where
  "case_hash_loop hash buf 0 = Some hash"
| "case_hash_loop hash [] (Suc len) = None"
| "case_hash_loop hash (c # buf) (Suc len) =
     case_hash_loop ((push_bit 5 hash + hash) + ucast (tolower c)) buf len"

definition dictGenCaseHashFunction :: "u32 \<Rightarrow> byte list \<Rightarrow> nat \<Rightarrow> u32 option" where
  "dictGenCaseHashFunction dict_hash_function_seed buf len = case_hash_loop dict_hash_function_seed buf len"

subsection \<open>Iterators\<close>

text \<open>
  A pointer into a chain is the chain from that entry on (the empty list is \<open>NULL\<close>).
  \<open>ptr0\<close> and \<open>ptr1\<close> are the addresses of the two arrays as the source converts them:
  to \<open>long\<close>, then to \<open>long long\<close>.
\<close>

record ('k, 'v) dictIterator =
  it_index :: int
  it_table :: nat
  safe :: bool
  entry :: "('k \<times> 'v) list"
  nextEntry :: "('k \<times> 'v) list"
  fingerprint :: u64

text \<open>\<open>hash >> n\<close> on \<open>long long\<close> is an arithmetic shift.\<close>

definition fingerprint_step :: "u64 \<Rightarrow> u64 \<Rightarrow> u64" where
  "fingerprint_step hash n =
     (let hash = hash + n;
          hash = NOT hash + push_bit 21 hash;
          hash = hash XOR signed_drop_bit 24 hash;
          hash = (hash + push_bit 3 hash) + push_bit 8 hash;
          hash = hash XOR signed_drop_bit 14 hash;
          hash = (hash + push_bit 2 hash) + push_bit 4 hash;
          hash = hash XOR signed_drop_bit 28 hash;
          hash = hash + push_bit 31 hash
      in hash)"

definition dictFingerprint :: "u32 \<Rightarrow> u32 \<Rightarrow> ('k, 'v) dict \<Rightarrow> u64" where
  "dictFingerprint ptr0 ptr1 d =
     foldl fingerprint_step 0
       [scast ptr0, of_nat (ht_size (ht0 d)), of_nat (used (ht0 d)),
        scast ptr1, of_nat (ht_size (ht1 d)), of_nat (used (ht1 d))]"

definition dictGetIterator :: "('k, 'v) dictIterator" where
  "dictGetIterator = \<lparr>it_index = -1, it_table = 0, safe = False, entry = [], nextEntry = [], fingerprint = 0\<rparr>"

definition dictGetSafeIterator :: "('k, 'v) dictIterator" where
  "dictGetSafeIterator = dictGetIterator\<lparr>safe := True\<rparr>"

text \<open>The start of an iteration: a safe iterator registers itself, an unsafe one takes the fingerprint.\<close>

definition iter_start :: "u32 \<Rightarrow> u32 \<Rightarrow> ('k, 'v) dict \<Rightarrow> ('k, 'v) dictIterator \<Rightarrow> ('k, 'v) dict \<times> ('k, 'v) dictIterator" where
  "iter_start ptr0 ptr1 d it =
     (if it_index it = -1 \<and> it_table it = 0
      then if safe it then (d\<lparr>iterators := iterators d + 1\<rparr>, it)
           else (d, it\<lparr>fingerprint := dictFingerprint ptr0 ptr1 d\<rparr>)
      else (d, it))"

text \<open>
  One round of the loop of \<open>dictNext\<close> up to the test \<open>if (iter->entry)\<close>: \<open>Some None\<close> is the
  \<open>break\<close> at the end of the last table.
\<close>

definition iter_advance ::
    "u32 \<Rightarrow> u32 \<Rightarrow> ('k, 'v) dict \<Rightarrow> ('k, 'v) dictIterator \<Rightarrow> (('k, 'v) dict \<times> ('k, 'v) dictIterator \<times> bool) option" where
  "iter_advance ptr0 ptr1 d it =
     (if entry it = []
      then let (d, it) = iter_start ptr0 ptr1 d it;
               it = it\<lparr>it_index := it_index it + 1\<rparr>
           in if int (ht_size (get_ht d (it_table it))) \<le> it_index it
              then if dictIsRehashing d \<and> it_table it = 0
                   then do { e \<leftarrow> arr_get (table (ht1 d)) 0;
                             Some (d, it\<lparr>it_table := 1, it_index := 0, entry := e\<rparr>, True) }
                   else Some (d, it, False)
              else do { e \<leftarrow> arr_get (table (get_ht d (it_table it))) (it_index it);
                        Some (d, it\<lparr>entry := e\<rparr>, True) }
      else Some (d, it\<lparr>entry := nextEntry it\<rparr>, True))"

text \<open>What is left to visit: it decreases in every round that finds an empty chain.\<close>

definition iter_left :: "('k, 'v) dict \<Rightarrow> ('k, 'v) dictIterator \<Rightarrow> nat" where
  "iter_left d it =
     2 * (if it_table it = 0 then nat (int (ht_size (ht0 d)) - it_index it) + ht_size (ht1 d) + 2
          else nat (int (ht_size (ht1 d)) - it_index it)) + (if entry it = [] then 0 else 1)"

lemma iter_left_decreases:
  "iter_advance ptr0 ptr1 d it = Some (d', it', True) \<Longrightarrow> entry it' = [] \<Longrightarrow> iter_left d' it' < iter_left d it"
  by (auto simp: iter_advance_def iter_left_def iter_start_def get_ht_def Let_def
      split: if_splits Option.bind_splits)

function dictNext ::
    "u32 \<Rightarrow> u32 \<Rightarrow> ('k, 'v) dict \<Rightarrow> ('k, 'v) dictIterator \<Rightarrow>
     (('k, 'v) dict \<times> ('k, 'v) dictIterator \<times> ('k \<times> 'v) option) option" where
  "dictNext ptr0 ptr1 d it =
     (case iter_advance ptr0 ptr1 d it of
        None \<Rightarrow> None
      | Some (d, it, go) \<Rightarrow>
          if \<not> go then Some (d, it, None)
          else case entry it of
                 [] \<Rightarrow> dictNext ptr0 ptr1 d it
               | e # next_e \<Rightarrow> Some (d, it\<lparr>nextEntry := next_e\<rparr>, Some e))"
  by auto
termination
  by (relation "measure (\<lambda>(_, _, d, it). iter_left d it)") (auto dest: iter_left_decreases)

declare dictNext.simps [simp del]

text \<open>\<open>None\<close> is the failure of the assertion.\<close>

definition dictReleaseIterator :: "u32 \<Rightarrow> u32 \<Rightarrow> ('k, 'v) dict \<Rightarrow> ('k, 'v) dictIterator \<Rightarrow> ('k, 'v) dict option" where
  "dictReleaseIterator ptr0 ptr1 d it =
     (if \<not> (it_index it = -1 \<and> it_table it = 0)
      then if safe it then Some (d\<lparr>iterators := iterators d - 1\<rparr>)
           else if fingerprint it = dictFingerprint ptr0 ptr1 d then Some d else None
      else Some d)"

subsection \<open>Random keys\<close>

text \<open>
  \<open>rnd i\<close> is the value of the \<open>i\<close>-th call of \<open>random()\<close>.  The loop that looks for a non-empty
  bucket need not end; it yields the chain and the number of values used.
\<close>

partial_function (option) random_bucket ::
    "(nat \<Rightarrow> nat) \<Rightarrow> ('k, 'v) dict \<Rightarrow> nat \<Rightarrow> (('k \<times> 'v) list \<times> nat) option" where
  "random_bucket rnd d i =
     Option.bind
       (if dictIsRehashing d
        then (let h = rnd i mod (ht_size (ht0 d) + ht_size (ht1 d))
              in if ht_size (ht0 d) \<le> h then arr_get (table (ht1 d)) (int h - int (ht_size (ht0 d)))
                 else arr_get (table (ht0 d)) (int h))
        else arr_get (table (ht0 d)) (int (rnd i AND sizemask (ht0 d))))
       (\<lambda>he. if he = [] then random_bucket rnd d (i + 1) else Some (he, i + 1))"

definition dictGetRandomKey ::
    "(nat \<Rightarrow> nat) \<Rightarrow> ('k, 'v) dict \<Rightarrow> (('k, 'v) dict \<times> ('k \<times> 'v) option) option" where
  "dictGetRandomKey rnd d =
     (if dictSize d = 0 then Some (d, None)
      else do { d \<leftarrow> (if dictIsRehashing d then dictRehashStep d else Some d);
                (he, i) \<leftarrow> random_bucket rnd d 0;
                e \<leftarrow> arr_get he (int (rnd i mod length he));
                Some (d, Some e) })"

subsection \<open>Scanning with a cursor\<close>

function rev_loop :: "nat \<Rightarrow> u32 \<Rightarrow> u32 \<Rightarrow> u32" where
  "rev_loop s msk v =
     (let s = s div 2
      in if 0 < s
         then let msk = msk XOR push_bit s msk;
                  v = (drop_bit s v AND msk) OR (push_bit s v AND NOT msk)
              in rev_loop s msk v
         else v)"
  by auto
termination by (relation "measure (\<lambda>(s, _, _). s)") auto

declare rev_loop.simps [simp del]

definition rev_bits :: "u32 \<Rightarrow> u32" where
  "rev_bits v = rev_loop 32 (NOT 0) v"

text \<open>
  The loop over the expansions of the cursor in the larger table, with the entries passed to
  the callback and the cursor it leaves.
\<close>

partial_function (option) scan_expand ::
    "('k \<times> 'v) list list \<Rightarrow> u32 \<Rightarrow> u32 \<Rightarrow> u32 \<Rightarrow> (('k \<times> 'v) list \<times> u32) option" where
  "scan_expand t1 m0 m1 v =
     Option.bind (arr_get t1 (uint (v AND m1)))
       (\<lambda>de. let v = (((v OR m0) + 1) AND NOT m0) OR (v AND m0)
             in if v AND (m0 XOR m1) \<noteq> 0
                then Option.bind (scan_expand t1 m0 m1 v) (\<lambda>(es, v). Some (de @ es, v))
                else Some (de, v))"

definition scan_next :: "u32 \<Rightarrow> u32 \<Rightarrow> u32" where
  "scan_next m0 v = rev_bits (rev_bits (v OR NOT m0) + 1)"

definition dictScan :: "('k, 'v) dict \<Rightarrow> u32 \<Rightarrow> (('k \<times> 'v) list \<times> u32) option" where
  "dictScan d v =
     (if dictSize d = 0 then Some ([], 0)
      else if \<not> dictIsRehashing d
      then let m0 = of_nat (sizemask (ht0 d))
           in do { de \<leftarrow> arr_get (table (ht0 d)) (uint (v AND m0));
                   Some (de, scan_next m0 v) }
      else let (t0, t1) = (if ht_size (ht1 d) < ht_size (ht0 d) then (ht1 d, ht0 d) else (ht0 d, ht1 d));
               m0 = of_nat (sizemask t0);
               m1 = of_nat (sizemask t1)
           in do { de \<leftarrow> arr_get (table t0) (uint (v AND m0));
                   (es, v) \<leftarrow> scan_expand (table t1) m0 m1 v;
                   Some (de @ es, scan_next m0 v) })"


subsection \<open>Bit reversal\<close>

text \<open>One round of the loop of \<open>rev\<close>: swap the halves of every group of \<open>2 s\<close> bits.\<close>

definition rev_step :: "nat \<Rightarrow> u32 \<Rightarrow> u32 \<Rightarrow> u32" where
  "rev_step s msk v = (drop_bit s v AND msk) OR (push_bit s v AND NOT msk)"

lemma rev_loop_step:
  "s div 2 = t \<Longrightarrow> 0 < t \<Longrightarrow> msk XOR push_bit t msk = msk' \<Longrightarrow>
   rev_loop s msk v = rev_loop t msk' (rev_step t msk' v)"
  by (subst rev_loop.simps) (auto simp: Let_def rev_step_def)

lemma rev_loop_end: "rev_loop 1 msk v = v"
  by (subst rev_loop.simps) simp

lemma rev_masks:
  "(NOT 0 :: u32) XOR push_bit 16 (NOT 0) = 0x0000FFFF" "(0x0000FFFF::u32) XOR push_bit 8 0x0000FFFF = 0x00FF00FF"
  "(0x00FF00FF::u32) XOR push_bit 4 0x00FF00FF = 0x0F0F0F0F" "(0x0F0F0F0F::u32) XOR push_bit 2 0x0F0F0F0F = 0x33333333"
  "(0x33333333::u32) XOR push_bit 1 0x33333333 = 0x55555555"
  by (simp_all add: push_bit_eq_mult)

lemma rev_bits_steps:
  "rev_bits v = rev_step 1 0x55555555 (rev_step 2 0x33333333 (rev_step 4 0x0F0F0F0F
     (rev_step 8 0x00FF00FF (rev_step 16 0x0000FFFF v))))"
proof -
  have "rev_bits v = rev_loop 16 0x0000FFFF (rev_step 16 0x0000FFFF v)" for v
    unfolding rev_bits_def by (rule rev_loop_step[OF _ _ rev_masks(1)]) simp_all
  also have "rev_loop 16 0x0000FFFF w = rev_loop 8 0x00FF00FF (rev_step 8 0x00FF00FF w)" for w
    by (rule rev_loop_step[OF _ _ rev_masks(2)]) simp_all
  also have "rev_loop 8 0x00FF00FF w = rev_loop 4 0x0F0F0F0F (rev_step 4 0x0F0F0F0F w)" for w
    by (rule rev_loop_step[OF _ _ rev_masks(3)]) simp_all
  also have "rev_loop 4 0x0F0F0F0F w = rev_loop 2 0x33333333 (rev_step 2 0x33333333 w)" for w
    by (rule rev_loop_step[OF _ _ rev_masks(4)]) simp_all
  also have "rev_loop 2 0x33333333 w = rev_loop 1 0x55555555 (rev_step 1 0x55555555 w)" for w
    by (rule rev_loop_step[OF _ _ rev_masks(5)]) simp_all
  finally show ?thesis by (simp only: rev_loop_end)
qed

lemma bit_rev_step:
  "n < 32 \<Longrightarrow> bit (rev_step s msk v) n = (if bit msk n then bit v (s + n) else s \<le> n \<and> bit v (n - s))"
  by (auto simp: rev_step_def bit_simps)

lemma bit_rev_bits_small: "n < 32 \<Longrightarrow> bit (rev_bits v) n = bit v (31 - n)"
proof -
  assume "n < 32"
  then have "n \<in> set [0, 1, 2, 3, 4, 5, 6, 7, 8, 9, 10, 11, 12, 13, 14, 15,
      16, 17, 18, 19, 20, 21, 22, 23, 24, 25, 26, 27, 28, 29, 30, 31]"
    by (simp, presburger)
  moreover have "\<forall>n\<in>set [0, 1, 2, 3, 4, 5, 6, 7, 8, 9, 10, 11, 12, 13, 14, 15,
      16, 17, 18, 19, 20, 21, 22, 23, 24, 25, 26, 27, 28, 29, 30, 31].
      bit (rev_bits v) n = bit v (31 - n)"
    by (simp add: rev_bits_steps bit_rev_step)
  ultimately show ?thesis by blast
qed

lemma bit_rev_bits: "bit (rev_bits v) n \<longleftrightarrow> n < 32 \<and> bit v (31 - n)"
proof (cases "n < 32")
  case True
  then show ?thesis by (simp add: bit_rev_bits_small)
next
  case False
  then show ?thesis using bit_imp_le_length[of "rev_bits v" n] by auto
qed

lemma rev_bits_rev_bits [simp]: "rev_bits (rev_bits v) = v"
  by (rule bit_word_eqI) (auto simp: bit_rev_bits)

lemma rev_bits_0 [simp]: "rev_bits 0 = 0"
  by (rule bit_word_eqI) (simp add: bit_rev_bits)

text \<open>The position of a hash value or a cursor in the order of the scan.\<close>

definition pos :: "u32 \<Rightarrow> nat" where
  "pos v = unat (rev_bits v)"

lemma pos_0 [simp]: "pos 0 = 0"
  by (simp add: pos_def)

lemma pos_eq_0: "pos v = 0 \<longleftrightarrow> v = 0"
proof -
  have "rev_bits v = 0 \<longleftrightarrow> v = 0" by (metis rev_bits_0 rev_bits_rev_bits)
  then show ?thesis by (simp add: pos_def unat_eq_0)
qed

lemma pos_bound: "pos v < 2 ^ 32"
  unfolding pos_def using unsigned_less[of "rev_bits v"] by simp

text \<open>Agreeing below a mask is being in the same block of positions.\<close>

lemma same_block:
  assumes "k \<le> 32"
  shows "h AND mask k = v AND mask k \<longleftrightarrow> pos h div 2 ^ (32 - k) = pos v div 2 ^ (32 - k)"
proof -
  have "pos h div 2 ^ (32 - k) = pos v div 2 ^ (32 - k) \<longleftrightarrow>
      drop_bit (32 - k) (rev_bits h) = drop_bit (32 - k) (rev_bits v)"
    by (simp only: pos_def word_unat_eq_iff unat_drop_bit_eq flip: drop_bit_eq_div)
  also have "\<dots> \<longleftrightarrow> (\<forall>n<k. bit h n = bit v n)"
  proof
    assume e: "drop_bit (32 - k) (rev_bits h) = drop_bit (32 - k) (rev_bits v)"
    show "\<forall>n<k. bit h n = bit v n"
    proof (intro allI impI)
      fix n assume n: "n < k"
      have "bit (drop_bit (32 - k) (rev_bits h)) (k - 1 - n) = bit (drop_bit (32 - k) (rev_bits v)) (k - 1 - n)"
        using e by simp
      then show "bit h n = bit v n" using n assms by (auto simp: bit_drop_bit_eq bit_rev_bits)
    qed
  next
    assume e: "\<forall>n<k. bit h n = bit v n"
    show "drop_bit (32 - k) (rev_bits h) = drop_bit (32 - k) (rev_bits v)"
    proof (rule bit_word_eqI)
      fix n assume "n < LENGTH(32)"
      show "bit (drop_bit (32 - k) (rev_bits h)) n = bit (drop_bit (32 - k) (rev_bits v)) n"
        using e assms by (auto simp: bit_drop_bit_eq bit_rev_bits)
    qed
  qed
  also have "\<dots> \<longleftrightarrow> (\<forall>n<32. (bit h n \<and> n < k) = (bit v n \<and> n < k))"
    using assms by (metis order_less_le_trans)
  also have "\<dots> \<longleftrightarrow> h AND mask k = v AND mask k"
    by (auto simp: bit_eq_iff bit_simps)
  finally show ?thesis by simp
qed

lemma unat_or_mask_suc: "unat ((w :: u32) OR mask j) + 1 = (unat w div 2 ^ j + 1) * 2 ^ j" if "j \<le> 32"
proof -
  have "unat (w OR mask j) = unat w OR mask j"
    by (rule bit_eqI) (use that in \<open>auto simp: bit_simps\<close>)
  also have "\<dots> = push_bit j (drop_bit j (unat w)) OR mask j"
    by (rule bit_eqI) (auto simp: bit_simps)
  also have "\<dots> = push_bit j (drop_bit j (unat w)) + mask j"
    by (rule disjunctive_add[symmetric]) (auto simp: bit_simps)
  finally have "unat (w OR mask j) = push_bit j (drop_bit j (unat w)) + mask j" .
  then show ?thesis by (simp add: push_bit_eq_mult drop_bit_eq_div mask_eq_exp_minus_1)
qed

lemma pos_scan_next:
  assumes "k \<le> 32"
  shows "pos (scan_next (mask k) v) = (pos v div 2 ^ (32 - k) + 1) * 2 ^ (32 - k) mod 2 ^ 32"
proof -
  have r: "rev_bits (v OR NOT (mask k)) = rev_bits v OR mask (32 - k)"
  proof (rule bit_word_eqI)
    fix n assume "n < LENGTH(32)"
    then show "bit (rev_bits (v OR NOT (mask k))) n = bit (rev_bits v OR mask (32 - k)) n"
      using assms by (auto simp: bit_rev_bits bit_simps)
  qed
  have "pos (scan_next (mask k) v) = unat ((rev_bits v OR mask (32 - k)) + 1)"
    by (simp add: pos_def scan_next_def r)
  also have "\<dots> = (unat (rev_bits v OR mask (32 - k)) + 1) mod 2 ^ 32"
    by (simp add: unat_word_ariths)
  finally show ?thesis by (simp only: unat_or_mask_suc[of "32 - k"] pos_def diff_le_self)
qed

subsection \<open>Buckets and masks\<close>

lemma of_nat_mask: "(of_nat (2 ^ k - 1) :: u32) = mask k"
  by (simp add: mask_eq_exp_minus_1)

lemma unat_and_mask: "unat ((w :: u32) AND mask k) = unat w mod 2 ^ k"
  by (simp add: unsigned_take_bit_eq flip: take_bit_eq_mod take_bit_eq_mask)

lemma uint_and_mask: "uint ((w :: u32) AND mask k) = int (unat w mod 2 ^ k)"
  by (metis uint_nat unat_and_mask)

lemma bucket_mod: "sizemask h = 2 ^ k - 1 \<Longrightarrow> bucket h w = unat w mod 2 ^ k"
  by (simp only: bucket_def flip: mask_eq_exp_minus_1 take_bit_eq_mask take_bit_eq_mod)

lemma and_mask_eq_iff: "(h :: u32) AND mask k = v AND mask k \<longleftrightarrow> unat h mod 2 ^ k = unat v mod 2 ^ k"
  by (metis unat_and_mask word_unat_eq_iff)

subsection \<open>The expansions of a cursor\<close>

lemma expand_step:
  assumes "k0 \<le> 31"
  shows "(((v OR mask k0) + 1) AND NOT (mask k0)) OR (v AND mask k0) = (v :: u32) + 2 ^ k0"
proof -
  define q where "q = drop_bit k0 v"
  have a: "v OR mask k0 = push_bit k0 q OR mask k0" unfolding q_def by (rule bit_eqI) (auto simp: bit_simps)
  have b: "push_bit k0 q OR mask k0 = push_bit k0 q + mask k0"
    by (rule disjunctive_add[symmetric]) (auto simp: bit_simps)
  have c: "(v OR mask k0) + 1 = push_bit k0 (q + 1)"
    unfolding a b by (simp add: push_bit_eq_mult mask_eq_exp_minus_1 algebra_simps)
  have d: "push_bit k0 (q + 1) AND NOT (mask k0) = push_bit k0 (q + 1)"
    by (rule bit_eqI) (auto simp: bit_simps)
  have e: "push_bit k0 (q + 1) OR (v AND mask k0) = push_bit k0 (q + 1) + (v AND mask k0)"
    by (rule disjunctive_add[symmetric]) (auto simp: bit_simps)
  have "v = push_bit k0 q OR (v AND mask k0)" unfolding q_def by (rule bit_eqI) (auto simp: bit_simps)
  also have "\<dots> = push_bit k0 q + (v AND mask k0)" by (rule disjunctive_add[symmetric]) (auto simp: bit_simps)
  finally have f: "v = push_bit k0 q + (v AND mask k0)" .
  have "push_bit k0 (q + 1) + (v AND mask k0) = (push_bit k0 q + (v AND mask k0)) + 2 ^ k0"
    by (simp add: push_bit_eq_mult algebra_simps)
  then show ?thesis unfolding c d e using f by simp
qed

text \<open>The bits of a cursor between two masks, as a number.\<close>

definition mid :: "nat \<Rightarrow> nat \<Rightarrow> u32 \<Rightarrow> nat" where
  "mid k0 k1 v = unat v div 2 ^ k0 mod 2 ^ (k1 - k0)"

lemma mid_0:
  assumes "k0 \<le> k1" "k1 \<le> 31"
  shows "v AND (mask k0 XOR mask k1) = 0 \<longleftrightarrow> mid k0 k1 v = 0"
proof -
  have "mid k0 k1 v = unat (take_bit (k1 - k0) (drop_bit k0 v))"
    by (simp add: mid_def unsigned_take_bit_eq unat_drop_bit_eq flip: take_bit_eq_mod drop_bit_eq_div)
  moreover have "v AND (mask k0 XOR mask k1) = push_bit k0 (take_bit (k1 - k0) (drop_bit k0 v))"
    using assms by (intro bit_eqI) (auto simp: bit_simps)
  moreover have "push_bit k0 w = 0 \<longleftrightarrow> w = 0" if "w = take_bit (k1 - k0) (drop_bit k0 v)" for w
  proof
    assume z: "push_bit k0 w = 0"
    show "w = 0"
    proof (rule bit_word_eqI)
      fix n assume "n < LENGTH(32)"
      have "\<not> bit (push_bit k0 w) (k0 + n)" using z by simp
      then show "bit w n = bit 0 n" using that assms by (auto simp: bit_simps)
    qed
  qed simp
  ultimately show ?thesis by (simp add: unat_eq_0)
qed

lemma mid_add:
  assumes "k0 \<le> k1" "k1 \<le> 31"
  shows "mid k0 k1 (v + 2 ^ k0) = (mid k0 k1 v + 1) mod 2 ^ (k1 - k0)"
    and "unat (v + 2 ^ k0) mod 2 ^ k0 = unat v mod 2 ^ k0"
proof -
  have "(2::nat) ^ k0 < 2 ^ 32" using assms by (intro power_strict_increasing) simp_all
  then have p: "unat (2 ^ k0 :: u32) = 2 ^ k0" using unat_of_nat[where 'a = 32, of "2 ^ k0"] by simp
  have s: "unat (v + 2 ^ k0) = (unat v + 2 ^ k0) mod 2 ^ 32" by (simp add: unat_word_ariths p)
  have e32: "(2::nat) ^ 32 = 2 ^ k0 * 2 ^ (32 - k0)" using assms by (simp flip: power_add)
  have e32': "(2::nat) ^ (32 - k0) = 2 ^ (k1 - k0) * 2 ^ (32 - k1)" using assms by (simp flip: power_add)
  have dvd: "(2::nat) ^ (k1 - k0) dvd 2 ^ (32 - k0)" unfolding e32' by simp
  show "unat (v + 2 ^ k0) mod 2 ^ k0 = unat v mod 2 ^ k0"
    unfolding s e32 by (simp add: mod_mult2_eq)
  have "unat (v + 2 ^ k0) div 2 ^ k0 = (unat v div 2 ^ k0 + 1) mod 2 ^ (32 - k0)"
    unfolding s e32 by (simp add: mod_mult2_eq div_add_self2)
  then show "mid k0 k1 (v + 2 ^ k0) = (mid k0 k1 v + 1) mod 2 ^ (k1 - k0)"
    unfolding mid_def by (simp add: mod_mod_cancel[OF dvd] mod_Suc_eq)
qed

lemma index_split:
  assumes "k0 \<le> k1"
  shows "unat (v :: u32) mod 2 ^ k1 = 2 ^ k0 * mid k0 k1 v + unat v mod 2 ^ k0"
proof -
  have "(2::nat) ^ k1 = 2 ^ k0 * 2 ^ (k1 - k0)" using assms by (simp flip: power_add)
  then show ?thesis by (simp add: mod_mult2_eq mid_def)
qed

lemma mid_less: "mid k0 k1 v < 2 ^ (k1 - k0)"
  by (simp add: mid_def)

lemma scan_expand_spec:
  assumes "k0 \<le> k1" "k1 \<le> 31" "length t = 2 ^ k1"
  shows "\<exists>w. scan_expand t (mask k0) (mask k1) v =
      Some (concat (map (\<lambda>c. t ! (2 ^ k0 * c + unat v mod 2 ^ k0)) [mid k0 k1 v..<2 ^ (k1 - k0)]), w) \<and>
    unat w mod 2 ^ k0 = unat v mod 2 ^ k0"
proof (induction "2 ^ (k1 - k0) - mid k0 k1 v" arbitrary: v rule: less_induct)
  case less
  define v' where "v' = v + 2 ^ k0"
  have lo: "unat v' mod 2 ^ k0 = unat v mod 2 ^ k0" unfolding v'_def by (rule mid_add(2)[OF assms(1,2)])
  have get: "arr_get t (uint (v AND mask k1)) = Some (t ! (2 ^ k0 * mid k0 k1 v + unat v mod 2 ^ k0))"
    unfolding uint_and_mask index_split[OF assms(1), of v, symmetric] using assms(3) by (intro arr_get_in) simp
  have st: "((v OR mask k0) + 1 AND NOT (mask k0)) OR (v AND mask k0) = v'"
    unfolding v'_def using assms by (intro expand_step) simp
  have upt: "[mid k0 k1 v..<2 ^ (k1 - k0)] = mid k0 k1 v # [Suc (mid k0 k1 v)..<2 ^ (k1 - k0)]"
    by (rule upt_conv_Cons[OF mid_less])
  show ?case
  proof (cases "Suc (mid k0 k1 v) < 2 ^ (k1 - k0)")
    case True
    then have m: "mid k0 k1 v' = Suc (mid k0 k1 v)" unfolding v'_def by (simp add: mid_add(1)[OF assms(1,2)])
    have "2 ^ (k1 - k0) - mid k0 k1 v' < 2 ^ (k1 - k0) - mid k0 k1 v" using m True by simp
    from less[OF this] obtain w where w: "scan_expand t (mask k0) (mask k1) v' =
      Some (concat (map (\<lambda>c. t ! (2 ^ k0 * c + unat v mod 2 ^ k0)) [Suc (mid k0 k1 v)..<2 ^ (k1 - k0)]), w)"
      "unat w mod 2 ^ k0 = unat v mod 2 ^ k0" unfolding lo m by blast
    have "v' AND (mask k0 XOR mask k1) \<noteq> 0" using mid_0[OF assms(1,2), of v'] m by simp
    then show ?thesis
      by (subst scan_expand.simps) (simp add: get st w upt)
  next
    case False
    then have "Suc (mid k0 k1 v) = 2 ^ (k1 - k0)" using mid_less[of k0 k1 v] by linarith
    then have "mid k0 k1 v' = 0" "[Suc (mid k0 k1 v)..<2 ^ (k1 - k0)] = []"
      unfolding v'_def by (simp_all add: mid_add(1)[OF assms(1,2)])
    then have "v' AND (mask k0 XOR mask k1) = 0" using mid_0[OF assms(1,2), of v'] by simp
    then show ?thesis
      using lo \<open>[Suc (mid k0 k1 v)..<2 ^ (k1 - k0)] = []\<close>
      by (subst scan_expand.simps) (simp add: get st upt)
  qed
qed


subsection \<open>One call\<close>

text \<open>The smaller of the tables in use, the larger one, and the mask of the cursor.\<close>

definition scan_size :: "('k, 'v) dict \<Rightarrow> nat" where
  "scan_size d = (if dictIsRehashing d then min (ht_size (ht0 d)) (ht_size (ht1 d)) else ht_size (ht0 d))"

text \<open>The bits of the cursor between the two masks are clear.\<close>

definition aligned :: "('k, 'v) dict \<Rightarrow> u32 \<Rightarrow> bool" where
  "aligned d v \<longleftrightarrow> (dictIsRehashing d \<longrightarrow>
     v AND (of_nat (sizemask (ht0 d)) XOR of_nat (sizemask (ht1 d))) = 0)"

lemma scan_next_low:
  assumes "unat w mod 2 ^ k = unat v mod 2 ^ k"
  shows "scan_next (mask k) w = scan_next (mask k) v"
proof -
  have e: "w AND mask k = v AND mask k" using assms by (simp add: and_mask_eq_iff)
  have "x OR NOT (mask k) = (x AND mask k) OR NOT (mask k)" for x :: u32
    by (rule bit_eqI) (auto simp: bit_simps)
  with e show ?thesis unfolding scan_next_def by metis
qed

lemma bucket_of_entry:
  assumes "ht_ok T h" "sizemask h = 2 ^ k - 1" "e \<in> set (concat (table h))"
  shows "e \<in> set (table h ! (unat (hashFunction T (fst e)) mod 2 ^ k))"
  using ht_ok_entry_bucket[OF assms(1,3)] by (simp add: bucket_mod[OF assms(2)])

lemma ht_ok_power:
  assumes "ht_ok T h"
  obtains k where "k \<le> 31" "ht_size h = 2 ^ k" "sizemask h = 2 ^ k - 1" "length (table h) = 2 ^ k"
  using assms by (auto simp: ht_ok_def)

text \<open>During rehashing, with the smaller table first.\<close>

lemma scan_two_tables:
  assumes ok: "ht_ok T a" "ht_ok T b" and sz: "ht_size a \<le> ht_size b"
    and al: "v AND (of_nat (sizemask a) XOR of_nat (sizemask b)) = 0"
  shows "\<exists>k de es w. k \<le> 31 \<and> ht_size a = 2 ^ k \<and> of_nat (sizemask a) = (mask k :: u32) \<and>
    arr_get (table a) (uint (v AND of_nat (sizemask a))) = Some de \<and>
    scan_expand (table b) (of_nat (sizemask a)) (of_nat (sizemask b)) v = Some (es, w) \<and>
    scan_next (of_nat (sizemask a)) w = scan_next (mask k) v \<and>
    set (de @ es) \<subseteq> set (concat (table a) @ concat (table b)) \<and>
    (\<forall>e\<in>set (concat (table a) @ concat (table b)). hashFunction T (fst e) AND mask k = v AND mask k \<longrightarrow> e \<in> set (de @ es))"
proof -
  obtain k0 where k0: "k0 \<le> 31" "ht_size a = 2 ^ k0" "sizemask a = 2 ^ k0 - 1" "length (table a) = 2 ^ k0"
    using ht_ok_power[OF ok(1)] by blast
  obtain k1 where k1: "k1 \<le> 31" "ht_size b = 2 ^ k1" "sizemask b = 2 ^ k1 - 1" "length (table b) = 2 ^ k1"
    using ht_ok_power[OF ok(2)] by blast
  have kk: "k0 \<le> k1" using sz k0(2) k1(2) by simp
  have m0: "of_nat (sizemask a) = (mask k0 :: u32)" unfolding k0(3) by (rule of_nat_mask)
  have m1: "of_nat (sizemask b) = (mask k1 :: u32)" unfolding k1(3) by (rule of_nat_mask)
  have mid: "mid k0 k1 v = 0" using al mid_0[OF kk k1(1)] unfolding m0 m1 by simp
  let ?es = "concat (map (\<lambda>c. table b ! (2 ^ k0 * c + unat v mod 2 ^ k0)) [0..<2 ^ (k1 - k0)])"
  from scan_expand_spec[OF kk k1(1,4), of v] obtain w where w:
    "scan_expand (table b) (mask k0) (mask k1) v = Some (?es, w)" "unat w mod 2 ^ k0 = unat v mod 2 ^ k0"
    unfolding mid by blast
  have get: "arr_get (table a) (uint (v AND mask k0)) = Some (table a ! (unat v mod 2 ^ k0))"
    unfolding uint_and_mask using k0(4) by (intro arr_get_in) simp
  have sub: "set (table a ! (unat v mod 2 ^ k0) @ ?es) \<subseteq> set (concat (table a) @ concat (table b))"
  proof -
    have "set (table a ! (unat v mod 2 ^ k0)) \<subseteq> set (concat (table a))"
      using ht_ok_chain_sub[OF ok(1)] k0(2) by simp
    moreover have "set (table b ! (2 ^ k0 * c + unat v mod 2 ^ k0)) \<subseteq> set (concat (table b))" if "c < 2 ^ (k1 - k0)" for c
    proof (rule ht_ok_chain_sub[OF ok(2)])
      have "2 ^ k0 * c + unat v mod 2 ^ k0 < 2 ^ k0 * c + 2 ^ k0" by simp
      also have "\<dots> = 2 ^ k0 * Suc c" by simp
      also have "\<dots> \<le> 2 ^ k0 * 2 ^ (k1 - k0)" using that by (intro mult_le_mono2) simp
      also have "\<dots> = ht_size b" using kk k1(2) by (simp flip: power_add)
      finally show "2 ^ k0 * c + unat v mod 2 ^ k0 < ht_size b" .
    qed
    ultimately show ?thesis by fastforce
  qed
  have all: "e \<in> set (table a ! (unat v mod 2 ^ k0) @ ?es)"
    if e: "e \<in> set (concat (table a) @ concat (table b))" "hashFunction T (fst e) AND mask k0 = v AND mask k0" for e
  proof -
    let ?h = "hashFunction T (fst e)"
    have h: "unat ?h mod 2 ^ k0 = unat v mod 2 ^ k0" using e(2) by (simp add: and_mask_eq_iff)
    consider "e \<in> set (concat (table a))" | "e \<in> set (concat (table b))" using e(1) unfolding set_append by blast
    then show ?thesis
    proof cases
      case 1
      from bucket_of_entry[OF ok(1) k0(3) this] h show ?thesis by simp
    next
      case 2
      from bucket_of_entry[OF ok(2) k1(3) this] have "e \<in> set (table b ! (2 ^ k0 * mid k0 k1 ?h + unat v mod 2 ^ k0))"
        unfolding index_split[OF kk] h .
      then have "e \<in> set ?es" using mid_less[of k0 k1 ?h] by auto
      then show ?thesis by simp
    qed
  qed
  show ?thesis
    using k0(1,2) m0 m1 get w(1) scan_next_low[OF w(2)] sub all by (intro exI[of _ k0] exI) (simp only: m0 m1, blast)
qed

lemma dictScan_spec:
  assumes inv: "dict_inv d" and ne: "dictSize d \<noteq> 0" and al: "aligned d v"
  shows "\<exists>k es. k \<le> 31 \<and> scan_size d = 2 ^ k \<and> dictScan d v = Some (es, scan_next (mask k) v) \<and>
    set es \<subseteq> set (entries d) \<and>
    (\<forall>e\<in>set (entries d). hashFunction (dtype d) (fst e) AND mask k = v AND mask k \<longrightarrow> e \<in> set es)"
proof (cases "dictIsRehashing d")
  case False
  have ok: "ht_ok (dtype d) (ht0 d)" and t1: "table (ht1 d) = []"
    using inv ne False dictSize_entries[OF inv]
    by (auto simp: dict_inv_def dictIsRehashing_def dictReset_def entries_def)
  obtain k where k: "k \<le> 31" "ht_size (ht0 d) = 2 ^ k" "sizemask (ht0 d) = 2 ^ k - 1" "length (table (ht0 d)) = 2 ^ k"
    using ht_ok_power[OF ok] by blast
  have m: "of_nat (sizemask (ht0 d)) = (mask k :: u32)" unfolding k(3) by (rule of_nat_mask)
  have get: "arr_get (table (ht0 d)) (uint (v AND mask k)) = Some (table (ht0 d) ! (unat v mod 2 ^ k))"
    unfolding uint_and_mask using k(4) by (intro arr_get_in) simp
  have "e \<in> set (table (ht0 d) ! (unat v mod 2 ^ k))"
    if "e \<in> set (entries d)" "hashFunction (dtype d) (fst e) AND mask k = v AND mask k" for e
    using bucket_of_entry[OF ok k(3), of e] that t1 by (simp add: entries_def and_mask_eq_iff)
  moreover have "set (table (ht0 d) ! (unat v mod 2 ^ k)) \<subseteq> set (entries d)"
    using ht_ok_chain_sub[OF ok, of "unat v mod 2 ^ k"] k(2) unfolding entries_def set_append by fastforce
  ultimately show ?thesis
    using k(1,2) False ne get m by (intro exI[of _ k]) (simp add: dictScan_def scan_size_def)
next
  case True
  have ok: "ht_ok (dtype d) (ht0 d)" "ht_ok (dtype d) (ht1 d)"
    using inv True by (auto simp: dict_inv_def dictIsRehashing_def)
  show ?thesis
  proof (cases "ht_size (ht1 d) < ht_size (ht0 d)")
    case lt: True
    have "v AND (of_nat (sizemask (ht1 d)) XOR of_nat (sizemask (ht0 d))) = 0"
      using al True by (simp add: aligned_def xor.commute)
    from scan_two_tables[OF ok(2,1) _ this] lt True ne show ?thesis
      by (fastforce simp: dictScan_def scan_size_def entries_def)
  next
    case ge: False
    have "v AND (of_nat (sizemask (ht0 d)) XOR of_nat (sizemask (ht1 d))) = 0"
      using al True by (simp add: aligned_def)
    from scan_two_tables[OF ok _ this] ge True ne show ?thesis
      by (fastforce simp: dictScan_def scan_size_def entries_def)
  qed
qed

subsection \<open>Whole iterations\<close>

text \<open>
  Successive calls, each on the dictionary as it is at that time, with the cursor that the
  call before returned; the entries emitted and the last cursor.
\<close>

fun scan_all :: "('k, 'v) dict list \<Rightarrow> u32 \<Rightarrow> (('k \<times> 'v) list \<times> u32) option" where
  "scan_all [] v = Some ([], v)"
| "scan_all (d # ds) v =
     do { (es, v) \<leftarrow> dictScan d v; (es', v) \<leftarrow> scan_all ds v; Some (es @ es', v) }"

lemma block_bounds:
  assumes "k \<le> 31"
  shows "pos v < (pos v div 2 ^ (32 - k) + 1) * 2 ^ (32 - k)"
    and "(pos v div 2 ^ (32 - k) + 1) * 2 ^ (32 - k) \<le> 2 ^ 32"
proof -
  show "pos v < (pos v div 2 ^ (32 - k) + 1) * 2 ^ (32 - k)"
    by (metis Suc_eq_plus1 dividend_less_div_times mult.commute mult_Suc_right zero_less_numeral zero_less_power add.commute)
  have e: "(2::nat) ^ 32 = 2 ^ k * 2 ^ (32 - k)" using assms by (simp flip: power_add)
  have "pos v < 2 ^ k * 2 ^ (32 - k)" using pos_bound[of v] unfolding e .
  then have "pos v div 2 ^ (32 - k) < 2 ^ k" by (simp add: div_less_iff_less_mult)
  then show "(pos v div 2 ^ (32 - k) + 1) * 2 ^ (32 - k) \<le> 2 ^ 32"
    unfolding e by (intro mult_le_mono1) simp
qed

text \<open>After a call the cursor fits the smaller table.\<close>

lemma scan_next_less:
  assumes "k \<le> 31"
  shows "unat (scan_next (mask k) v) < 2 ^ k"
proof -
  define w where "w = scan_next (mask k) v"
  have "pos w mod 2 ^ (32 - k) = 0"
  proof -
    have e: "(2::nat) ^ 32 = 2 ^ (32 - k) * 2 ^ k" using assms by (simp flip: power_add)
    have "pos w = (pos v div 2 ^ (32 - k) + 1) * 2 ^ (32 - k) mod 2 ^ 32"
      unfolding w_def using assms by (intro pos_scan_next) simp
    then show ?thesis unfolding e by (simp add: mod_mod_cancel)
  qed
  then have z: "take_bit (32 - k) (rev_bits w) = 0"
    by (simp add: pos_def word_unat_eq_iff unsigned_take_bit_eq flip: take_bit_eq_mod)
  have "\<not> bit w n" if "k \<le> n" "n < 32" for n
  proof -
    have "\<not> bit (take_bit (32 - k) (rev_bits w)) (31 - n)" using z by simp
    then show ?thesis using that by (auto simp: bit_simps bit_rev_bits)
  qed
  then have "take_bit k w = w" by (intro bit_word_eqI) (auto simp: bit_simps, meson not_le)
  then have "unat w mod 2 ^ k = unat w" by (metis take_bit_eq_mod unsigned_take_bit_eq)
  then show ?thesis unfolding w_def by (metis mod_less_divisor zero_less_numeral zero_less_power)
qed

lemma aligned_small:
  assumes inv: "dict_inv d" and v: "unat v < scan_size d"
  shows "aligned d v"
proof (cases "dictIsRehashing d")
  case True
  have ok: "ht_ok (dtype d) (ht0 d)" "ht_ok (dtype d) (ht1 d)"
    using inv True by (auto simp: dict_inv_def dictIsRehashing_def)
  obtain k0 where k0: "k0 \<le> 31" "ht_size (ht0 d) = 2 ^ k0" "sizemask (ht0 d) = 2 ^ k0 - 1"
    using ht_ok_power[OF ok(1)] by blast
  obtain k1 where k1: "k1 \<le> 31" "ht_size (ht1 d) = 2 ^ k1" "sizemask (ht1 d) = 2 ^ k1 - 1"
    using ht_ok_power[OF ok(2)] by blast
  have v: "unat v < 2 ^ k0" "unat v < 2 ^ k1" using v True k0(2) k1(2) by (simp_all add: scan_size_def)
  have "v AND (mask k0 XOR mask k1) = 0"
  proof (cases "k0 \<le> k1")
    case True
    then show ?thesis using mid_0[OF True k1(1), of v] v by (simp add: mid_def)
  next
    case False
    then show ?thesis using mid_0[of k1 k0 v] k0(1) v by (simp add: mid_def xor.commute)
  qed
  then show ?thesis unfolding aligned_def k0(3) k1(3) of_nat_mask by simp
qed (simp add: aligned_def)

lemma scan_all_covers:
  assumes "\<forall>d\<in>set ds. dict_inv d \<and> e \<in> set (entries d) \<and> dtype d = T"
    and "scan_all ds v = Some (es, 0)" "ds \<noteq> []" "pos v \<le> pos (hashFunction T (fst e))"
    and "sorted (map scan_size ds)" "unat v < scan_size (hd ds)"
  shows "e \<in> set es"
  using assms
proof (induction ds arbitrary: v es)
  case (Cons d ds)
  let ?h = "hashFunction T (fst e)"
  have d: "dict_inv d" "e \<in> set (entries d)" "dtype d = T" using Cons.prems(1) by simp_all
  then have ne: "dictSize d \<noteq> 0" using dictSize_entries[OF d(1)] by (cases "entries d") auto
  have "aligned d v" using aligned_small[OF d(1)] Cons.prems(6) by simp
  from dictScan_spec[OF d(1) ne this] obtain k es1 where k: "k \<le> 31" "scan_size d = 2 ^ k"
    "dictScan d v = Some (es1, scan_next (mask k) v)"
    "\<And>e. e \<in> set (entries d) \<Longrightarrow> hashFunction (dtype d) (fst e) AND mask k = v AND mask k \<Longrightarrow> e \<in> set es1" by blast
  define w where "w = scan_next (mask k) v"
  from Cons.prems(2) obtain es2 where es2: "scan_all ds w = Some (es2, 0)" "es = es1 @ es2"
    by (auto simp: k(3) w_def split: Option.bind_splits)
  define B :: nat where "B = 2 ^ (32 - k)"
  note bb = block_bounds[OF k(1), of v, folded B_def]
  have pw: "pos w = (pos v div B + 1) * B mod 2 ^ 32"
    unfolding w_def B_def using k(1) by (intro pos_scan_next) simp
  show ?case
  proof (cases "pos ?h < (pos v div B + 1) * B")
    case True
    have "pos v div B \<le> pos ?h div B" using Cons.prems(4) by (rule div_le_mono)
    moreover have "pos ?h div B < pos v div B + 1" using True by (simp add: div_less_iff_less_mult B_def)
    ultimately have "pos ?h div B = pos v div B" by simp
    then have "?h AND mask k = v AND mask k" using same_block[of k ?h v] k(1) by (simp add: B_def)
    then show ?thesis using k(4)[OF d(2)] d(3) es2(2) by simp
  next
    case False
    then have lt: "(pos v div B + 1) * B < 2 ^ 32" using pos_bound[of ?h] by linarith
    then have pw': "pos w = (pos v div B + 1) * B" unfolding pw by simp
    then have "w \<noteq> 0" using pos_eq_0[of w] bb(1) by linarith
    then have ds: "ds \<noteq> []" using es2(1) by auto
    have "unat w < 2 ^ k" unfolding w_def by (rule scan_next_less[OF k(1)])
    also have "\<dots> \<le> scan_size (hd ds)" using Cons.prems(5) ds k(2) by (cases ds) simp_all
    finally have "e \<in> set es2"
      using Cons.IH[OF _ es2(1) ds] Cons.prems(1,5) False pw' by simp
    then show ?thesis using es2(2) by simp
  qed
qed simp


text \<open>On a dictionary that does not change, the cursor comes back to 0 after one call per bucket.\<close>

lemma scan_all_append:
  "scan_all (xs @ ys) v = do { (es, v) \<leftarrow> scan_all xs v; (es', v) \<leftarrow> scan_all ys v; Some (es @ es', v) }"
  by (induction xs arbitrary: v) (auto split: Option.bind_splits)

lemma scan_fixed_pos:
  assumes inv: "dict_inv d" and ne: "dictSize d \<noteq> 0" and k: "scan_size d = 2 ^ k" "k \<le> 31" and n: "n < 2 ^ k"
  shows "\<exists>es v. scan_all (replicate n d) 0 = Some (es, v) \<and> pos v = n * 2 ^ (32 - k) \<and> unat v < 2 ^ k"
  using n
proof (induction n)
  case (Suc n)
  then obtain es v where v: "scan_all (replicate n d) 0 = Some (es, v)" "pos v = n * 2 ^ (32 - k)" "unat v < 2 ^ k"
    by auto
  have "aligned d v" using aligned_small[OF inv] v(3) k(1) by simp
  from dictScan_spec[OF inv ne this] obtain es1 where es1: "dictScan d v = Some (es1, scan_next (mask k) v)"
    using k by auto
  have e: "(2::nat) ^ 32 = 2 ^ k * 2 ^ (32 - k)" using k(2) by (simp flip: power_add)
  have "pos (scan_next (mask k) v) = (n + 1) * 2 ^ (32 - k) mod 2 ^ 32"
    using pos_scan_next[of k v] k(2) v(2) by simp
  also have "\<dots> = Suc n * 2 ^ (32 - k)"
    unfolding e Suc_eq_plus1[symmetric] using Suc.prems by (intro mod_less mult_strict_right_mono) simp_all
  finally show ?case
    using v(1) es1 scan_next_less[OF k(2), of v] by (simp add: replicate_append_same[symmetric] scan_all_append)
qed simp

lemma scan_fixed_returns:
  assumes inv: "dict_inv d" and ne: "dictSize d \<noteq> 0"
  shows "\<exists>es. scan_all (replicate (scan_size d) d) 0 = Some (es, 0) \<and> set es \<subseteq> set (entries d)"
proof -
  have "aligned d 0" by (simp add: aligned_def)
  from dictScan_spec[OF inv ne this] obtain k where k: "k \<le> 31" "scan_size d = 2 ^ k" by blast
  obtain m where m: "2 ^ k = Suc m" by (metis not0_implies_Suc power_not_zero zero_neq_numeral)
  then have "m < 2 ^ k" by simp
  from scan_fixed_pos[OF inv ne k(2,1) this] obtain es v where v:
    "scan_all (replicate m d) 0 = Some (es, v)" "pos v = m * 2 ^ (32 - k)" "unat v < 2 ^ k" by blast
  have "aligned d v" using aligned_small[OF inv] v(3) k(2) by simp
  from dictScan_spec[OF inv ne this] obtain es1 where es1: "dictScan d v = Some (es1, scan_next (mask k) v)"
    using k by auto
  have e: "(2::nat) ^ 32 = 2 ^ k * 2 ^ (32 - k)" using k(1) by (simp flip: power_add)
  have "pos (scan_next (mask k) v) = (m + 1) * 2 ^ (32 - k) mod 2 ^ 32"
    using pos_scan_next[of k v] k(1) v(2) by simp
  also have "\<dots> = 0" unfolding e m by simp
  finally have z: "scan_next (mask k) v = 0" by (simp add: pos_eq_0)
  have sub: "set es \<subseteq> set (entries d)" if "scan_all (replicate n d) u = Some (es, w)" "unat u < 2 ^ k" for n u es w
    using that
  proof (induction n arbitrary: u es)
    case (Suc n)
    have "aligned d u" using aligned_small[OF inv] Suc.prems(2) k(2) by simp
    from dictScan_spec[OF inv ne this] obtain es1 where "dictScan d u = Some (es1, scan_next (mask k) u)"
      "set es1 \<subseteq> set (entries d)" using k by auto
    moreover from this Suc.prems(1) obtain es2 where "scan_all (replicate n d) (scan_next (mask k) u) = Some (es2, w)"
      "es = es1 @ es2" by (auto split: Option.bind_splits)
    moreover from Suc.IH[OF this(1) scan_next_less[OF k(1)]] have "set es2 \<subseteq> set (entries d)" .
    ultimately show ?case by simp
  qed simp
  have "scan_all (replicate (scan_size d) d) 0 = Some (es @ es1, 0)"
    unfolding k(2) m using v(1) es1 z by (simp add: replicate_append_same[symmetric] scan_all_append)
  with sub[of "scan_size d" 0] show ?thesis by auto
qed


subsection \<open>Iterators\<close>

text \<open>The entries an iterator has still to return.\<close>

definition iter_rest :: "('k, 'v) dict \<Rightarrow> ('k, 'v) dictIterator \<Rightarrow> ('k \<times> 'v) list" where
  "iter_rest d it =
     (if entry it = [] then [] else nextEntry it) @
     concat (drop (nat (it_index it + 1)) (table (get_ht d (it_table it)))) @
     (if it_table it = 0 then concat (table (ht1 d)) else [])"

definition iter_ok :: "('k, 'v) dict \<Rightarrow> ('k, 'v) dictIterator \<Rightarrow> bool" where
  "iter_ok d it \<longleftrightarrow> -1 \<le> it_index it \<and> it_table it \<le> 1 \<and> (it_table it = 1 \<longrightarrow> dictIsRehashing d)"

text \<open>The dictionary during an iteration: only the count of safe iterators may differ.\<close>

definition same_tables :: "('k, 'v) dict \<Rightarrow> ('k, 'v) dict \<Rightarrow> bool" where
  "same_tables d d' \<longleftrightarrow> ht0 d' = ht0 d \<and> ht1 d' = ht1 d \<and> rehashidx d' = rehashidx d \<and> dtype d' = dtype d"

lemma dict_inv_lengths:
  assumes "dict_inv d"
  shows "length (table (ht0 d)) = ht_size (ht0 d)" "length (table (ht1 d)) = ht_size (ht1 d)"
    "dictIsRehashing d \<Longrightarrow> 0 < ht_size (ht1 d)" "\<not> dictIsRehashing d \<Longrightarrow> table (ht1 d) = []"
proof -
  have "length (table h) = ht_size h" if "h = dictReset \<or> ht_ok T h" for h :: "('a, 'b) dictht" and T
    using that by (auto simp: ht_ok_def dictReset_def)
  then show "length (table (ht0 d)) = ht_size (ht0 d)" "length (table (ht1 d)) = ht_size (ht1 d)"
    using dict_tables_ok[OF assms] by blast+
  show "dictIsRehashing d \<Longrightarrow> 0 < ht_size (ht1 d)" "\<not> dictIsRehashing d \<Longrightarrow> table (ht1 d) = []"
    using assms by (auto simp: dict_inv_def dictIsRehashing_def dictReset_def dest: ht_ok_table_nonempty)
qed

lemma same_tables_inv: "same_tables d d' \<Longrightarrow> dict_inv d \<Longrightarrow> dict_inv d'"
  by (auto simp: same_tables_def dict_inv_def entries_def)

lemma concat_drop_Cons: "i < length xs \<Longrightarrow> concat (drop i xs) = xs ! i @ concat (drop (Suc i) xs)"
  by (metis Cons_nth_drop_Suc concat.simps(2))

lemma iter_start_spec:
  "\<exists>d1 it1. iter_start p0 p1 d it = (d1, it1) \<and> same_tables d d1 \<and> it_index it1 = it_index it \<and> it_table it1 = it_table it \<and>
     entry it1 = entry it \<and> nextEntry it1 = nextEntry it"
  by (auto simp: iter_start_def same_tables_def)

lemma iter_advance_spec:
  assumes inv: "dict_inv d" and ok: "iter_ok d it" and ne: "entry it \<noteq> [] \<Longrightarrow> nextEntry it = tl (entry it)"
  shows "\<exists>d' it' go. iter_advance p0 p1 d it = Some (d', it', go) \<and> same_tables d d' \<and> iter_ok d' it' \<and>
    (if go then iter_rest d it = entry it' @ concat (drop (nat (it_index it' + 1)) (table (get_ht d (it_table it')))) @
                  (if it_table it' = 0 then concat (table (ht1 d)) else [])
     else iter_rest d it = [])"
proof (cases "entry it = []")
  case False
  then show ?thesis using ok ne by (auto simp: iter_advance_def iter_rest_def iter_ok_def same_tables_def)
next
  case True
  obtain d1 it1 where s: "iter_start p0 p1 d it = (d1, it1)" "same_tables d d1" "it_index it1 = it_index it"
    "it_table it1 = it_table it" "entry it1 = entry it" using iter_start_spec by blast
  define i where "i = nat (it_index it + 1)"
  have i: "it_index it + 1 = int i" using ok by (simp add: i_def iter_ok_def)
  note len = dict_inv_lengths[OF inv]
  have g: "get_ht d1 t = get_ht d t" "dictIsRehashing d1 = dictIsRehashing d" "ht1 d1 = ht1 d" for t
    using s(2) by (simp_all add: same_tables_def get_ht_def dictIsRehashing_def)
  have t: "it_table it = 0 \<or> it_table it = 1" using ok by (auto simp: iter_ok_def)
  have len': "length (table (get_ht d (it_table it))) = ht_size (get_ht d (it_table it))" using t len(1,2) by auto
  consider (read) "i < ht_size (get_ht d (it_table it))"
    | (second) "ht_size (get_ht d (it_table it)) \<le> i" "it_table it = 0" "dictIsRehashing d"
    | (stop) "ht_size (get_ht d (it_table it)) \<le> i" "\<not> (it_table it = 0 \<and> dictIsRehashing d)" by linarith
  then show ?thesis
  proof cases
    case read
    have get: "arr_get (table (get_ht d (it_table it))) (int i) = Some (table (get_ht d (it_table it)) ! i)"
      using read len' by (intro arr_get_in) simp
    have "iter_advance p0 p1 d it =
        Some (d1, it1\<lparr>it_index := int i, entry := table (get_ht d (it_table it)) ! i\<rparr>, True)"
      using True s(1,3,4) read get by (simp add: iter_advance_def Let_def g i)
    moreover have "iter_ok d1 (it1\<lparr>it_index := int i, entry := table (get_ht d (it_table it)) ! i\<rparr>)"
      using ok s(4) by (simp add: iter_ok_def g)
    moreover have "concat (drop i (table (get_ht d (it_table it)))) =
        table (get_ht d (it_table it)) ! i @ concat (drop (Suc i) (table (get_ht d (it_table it))))"
      using read len' by (intro concat_drop_Cons) simp
    ultimately show ?thesis
      using s(2,4) True by (intro exI[of _ d1] exI[of _ "it1\<lparr>it_index := int i, entry := table (get_ht d (it_table it)) ! i\<rparr>"]
          exI[of _ True]) (auto simp: iter_rest_def i nat_add_distrib)
  next
    case second
    have c: "concat (table (ht1 d)) = table (ht1 d) ! 0 @ concat (drop (Suc 0) (table (ht1 d)))"
      using concat_drop_Cons[of 0 "table (ht1 d)"] len(2,3) second(3) by simp
    have get: "arr_get (table (ht1 d)) 0 = Some (table (ht1 d) ! 0)"
      using arr_get_in[of 0 "table (ht1 d)"] len(2,3) second(3) by simp
    have "iter_advance p0 p1 d it = Some (d1, it1\<lparr>it_index := 0, it_table := 1, entry := table (ht1 d) ! 0\<rparr>, True)"
      using True s(1,3,4) second get by (simp add: iter_advance_def Let_def g i)
    moreover have "iter_ok d1 (it1\<lparr>it_index := 0, it_table := 1, entry := table (ht1 d) ! 0\<rparr>)"
      using second(3) by (simp add: iter_ok_def g)
    ultimately show ?thesis
      using s(2) True second len' c by (intro exI[of _ d1] exI[of _ "it1\<lparr>it_index := 0, it_table := 1, entry := table (ht1 d) ! 0\<rparr>"]
          exI[of _ True]) (simp add: iter_rest_def i)
  next
    case stop
    have "iter_advance p0 p1 d it = Some (d1, it1\<lparr>it_index := int i\<rparr>, False)"
      using True s(1,3,4) stop by (auto simp: iter_advance_def Let_def g i)
    moreover have "iter_ok d1 (it1\<lparr>it_index := int i\<rparr>)" using ok s(4) by (simp add: iter_ok_def g)
    moreover have "iter_rest d it = []"
    proof -
      have "it_table it = 0 \<Longrightarrow> table (ht1 d) = []" using stop(2) len(4) by blast
      then show ?thesis using True stop(1) len' by (simp add: iter_rest_def i)
    qed
    ultimately show ?thesis
      using s(2) by (intro exI[of _ d1] exI[of _ "it1\<lparr>it_index := int i\<rparr>"] exI[of _ False]) simp
  qed
qed

lemma dictNext_spec:
  assumes "dict_inv d" "iter_ok d it" "entry it \<noteq> [] \<Longrightarrow> nextEntry it = tl (entry it)"
  shows "\<exists>d' it' r. dictNext p0 p1 d it = Some (d', it', r) \<and> same_tables d d' \<and> iter_ok d' it' \<and>
    (entry it' \<noteq> [] \<longrightarrow> nextEntry it' = tl (entry it')) \<and>
    (case iter_rest d it of [] \<Rightarrow> r = None | e # rest \<Rightarrow> r = Some e \<and> iter_rest d' it' = rest)"
  using assms
proof (induction "iter_left d it" arbitrary: d it rule: less_induct)
  case less
  from iter_advance_spec[OF less.prems, of p0 p1] obtain d1 it1 go where a:
    "iter_advance p0 p1 d it = Some (d1, it1, go)" "same_tables d d1" "iter_ok d1 it1"
    "if go then iter_rest d it = entry it1 @ concat (drop (nat (it_index it1 + 1)) (table (get_ht d (it_table it1)))) @
                  (if it_table it1 = 0 then concat (table (ht1 d)) else [])
     else iter_rest d it = []" by blast
  have g: "get_ht d1 t = get_ht d t" "ht1 d1 = ht1 d" for t
    using a(2) by (simp_all add: same_tables_def get_ht_def)
  show ?case
  proof (cases go)
    case False
    have "entry it1 = []"
      using a(1) False by (auto simp: iter_advance_def iter_start_def Let_def split: if_splits Option.bind_splits)
    with a False show ?thesis by (subst dictNext.simps) simp
  next
    case True
    show ?thesis
    proof (cases "entry it1")
      case (Cons e next_e)
      have "dictNext p0 p1 d it = Some (d1, it1\<lparr>nextEntry := next_e\<rparr>, Some e)"
        using a(1) True Cons by (subst dictNext.simps) simp
      moreover have "iter_ok d1 (it1\<lparr>nextEntry := next_e\<rparr>)" using a(3) by (simp add: iter_ok_def)
      moreover have "iter_rest d it = e # iter_rest d1 (it1\<lparr>nextEntry := next_e\<rparr>)"
        using a(4) True Cons by (simp add: iter_rest_def g)
      ultimately show ?thesis using a(2) Cons by simp
    next
      case Nil
      have "iter_left d1 it1 < iter_left d it" using iter_left_decreases[of p0 p1 d it d1 it1] a(1) True Nil by simp
      from less.hyps[OF this same_tables_inv[OF a(2) less.prems(1)] a(3)] Nil obtain d2 it2 r where r:
        "dictNext p0 p1 d1 it1 = Some (d2, it2, r)" "same_tables d1 d2" "iter_ok d2 it2"
        "entry it2 \<noteq> [] \<longrightarrow> nextEntry it2 = tl (entry it2)"
        "case iter_rest d1 it1 of [] \<Rightarrow> r = None | e # rest \<Rightarrow> r = Some e \<and> iter_rest d2 it2 = rest" by auto
      have "iter_rest d it = iter_rest d1 it1" using a(4) True Nil by (simp add: iter_rest_def g)
      moreover have "dictNext p0 p1 d it = Some (d2, it2, r)" using a(1) True Nil r(1) by (subst dictNext.simps) simp
      moreover have "same_tables d d2" using a(2) r(2) by (simp add: same_tables_def)
      ultimately show ?thesis using r by auto
    qed
  qed
qed

text \<open>What an iteration leaves behind besides the entries: the count of safe iterators, the fingerprint.\<close>

definition iter_tracks :: "u32 \<Rightarrow> u32 \<Rightarrow> ('k, 'v) dict \<Rightarrow> ('k, 'v) dict \<Rightarrow> ('k, 'v) dictIterator \<Rightarrow> bool" where
  "iter_tracks p0 p1 d0 d it \<longleftrightarrow> -1 \<le> it_index it \<and>
     (if it_index it = -1 \<and> it_table it = 0 then d = d0 \<and> entry it = []
      else if safe it then d = d0\<lparr>iterators := iterators d0 + 1\<rparr>
      else d = d0 \<and> fingerprint it = dictFingerprint p0 p1 d0)"

lemma iter_advance_tracks:
  assumes "iter_tracks p0 p1 d0 d it" "iter_advance p0 p1 d it = Some (d', it', go)"
  shows "iter_tracks p0 p1 d0 d' it' \<and> safe it' = safe it"
  using assms
  by (auto simp: iter_tracks_def iter_advance_def iter_start_def Let_def split: if_splits Option.bind_splits)

lemma dictNext_tracks:
  assumes "iter_tracks p0 p1 d0 d it" "dictNext p0 p1 d it = Some (d', it', r)"
  shows "iter_tracks p0 p1 d0 d' it' \<and> safe it' = safe it"
  using assms
proof (induction p0 p1 d it rule: dictNext.induct)
  case (1 p0 p1 d it)
  show ?case
  proof (cases "iter_advance p0 p1 d it")
    case None
    with "1.prems"(2) show ?thesis by (simp add: dictNext.simps)
  next
    case (Some a)
    obtain d1 it1 go where a: "a = (d1, it1, go)" by (cases a)
    have t: "iter_tracks p0 p1 d0 d1 it1" "safe it1 = safe it" using iter_advance_tracks[OF "1.prems"(1)] Some a by auto
    show ?thesis
    proof (cases "go \<and> entry it1 = []")
      case True
      then have "dictNext p0 p1 d1 it1 = Some (d', it', r)"
        using "1.prems"(2) Some a by (subst (asm) dictNext.simps) simp
      with "1.IH"[OF Some a[symmetric] refl] True t show ?thesis by simp
    next
      case False
      with "1.prems"(2) Some a t show ?thesis
        by (subst (asm) dictNext.simps) (auto simp: iter_tracks_def split: if_splits list.splits)
    qed
  qed
qed

text \<open>An iteration from the creation of the iterator to its release.\<close>

fun iter_collect ::
    "nat \<Rightarrow> u32 \<Rightarrow> u32 \<Rightarrow> ('k, 'v) dict \<Rightarrow> ('k, 'v) dictIterator \<Rightarrow>
     (('k, 'v) dict \<times> ('k, 'v) dictIterator \<times> ('k \<times> 'v) list) option" where
  "iter_collect 0 p0 p1 d it = None"
| "iter_collect (Suc n) p0 p1 d it =
     do { (d, it, r) \<leftarrow> dictNext p0 p1 d it;
          case r of
            None \<Rightarrow> Some (d, it, [])
          | Some e \<Rightarrow> do { (d, it, es) \<leftarrow> iter_collect n p0 p1 d it; Some (d, it, e # es) } }"

definition iterate :: "bool \<Rightarrow> u32 \<Rightarrow> u32 \<Rightarrow> ('k, 'v) dict \<Rightarrow> (('k, 'v) dict \<times> ('k \<times> 'v) list) option" where
  "iterate is_safe p0 p1 d =
     do { (d, it, es) \<leftarrow> iter_collect (dictSize d + 1) p0 p1 d (if is_safe then dictGetSafeIterator else dictGetIterator);
          d \<leftarrow> dictReleaseIterator p0 p1 d it;
          Some (d, es) }"

lemma iter_collect_spec:
  assumes "dict_inv d" "iter_ok d it" "entry it \<noteq> [] \<Longrightarrow> nextEntry it = tl (entry it)"
    "length (iter_rest d it) < n" "iter_tracks p0 p1 d0 d it"
  shows "\<exists>d' it'. iter_collect n p0 p1 d it = Some (d', it', iter_rest d it) \<and> iter_tracks p0 p1 d0 d' it' \<and>
    safe it' = safe it"
  using assms
proof (induction n arbitrary: d it)
  case (Suc n)
  from dictNext_spec[OF Suc.prems(1-3), of p0 p1] obtain d1 it1 r where r:
    "dictNext p0 p1 d it = Some (d1, it1, r)" "same_tables d d1" "iter_ok d1 it1"
    "entry it1 \<noteq> [] \<longrightarrow> nextEntry it1 = tl (entry it1)"
    "case iter_rest d it of [] \<Rightarrow> r = None | e # rest \<Rightarrow> r = Some e \<and> iter_rest d1 it1 = rest" by blast
  note t = dictNext_tracks[OF Suc.prems(5) r(1)]
  show ?case
  proof (cases "iter_rest d it")
    case Nil
    with r t show ?thesis by auto
  next
    case (Cons e rest)
    then have "r = Some e" "iter_rest d1 it1 = rest" using r(5) by simp_all
    with Suc.IH[OF same_tables_inv[OF r(2) Suc.prems(1)] r(3)] r t Cons Suc.prems(4) show ?thesis by auto
  qed
qed simp

lemma iterate_spec:
  assumes "dict_inv d"
  shows "iterate is_safe p0 p1 d = Some (d, entries d)"
proof -
  define it :: "('a, 'b) dictIterator" where "it = (if is_safe then dictGetSafeIterator else dictGetIterator)"
  have it: "it_index it = -1" "it_table it = 0" "entry it = []" "safe it = is_safe"
    by (simp_all add: it_def dictGetSafeIterator_def dictGetIterator_def)
  have r: "iter_rest d it = entries d" by (simp add: iter_rest_def it entries_def)
  have "iter_ok d it" "iter_tracks p0 p1 d d it" by (simp_all add: iter_ok_def iter_tracks_def it)
  from iter_collect_spec[OF assms this(1) _ _ this(2), of "dictSize d + 1"] obtain d' it' where c:
    "iter_collect (dictSize d + 1) p0 p1 d it = Some (d', it', entries d)" "iter_tracks p0 p1 d d' it'" "safe it' = is_safe"
    unfolding r using dictSize_entries[OF assms] it by auto
  then have "dictReleaseIterator p0 p1 d' it' = Some d"
    by (auto simp: iter_tracks_def dictReleaseIterator_def dictFingerprint_def split: if_splits)
  then show ?thesis using c(1) by (simp add: iterate_def flip: it_def)
qed


subsection \<open>Random keys\<close>

lemma random_bucket_spec:
  assumes inv: "dict_inv d" and ok: "ht_ok (dtype d) (ht0 d)"
    and hit: "(if dictIsRehashing d
       then \<exists>n. i \<le> n \<and> (table (ht0 d) @ table (ht1 d)) ! (rnd n mod (ht_size (ht0 d) + ht_size (ht1 d))) \<noteq> []
       else \<exists>n. i \<le> n \<and> table (ht0 d) ! (rnd n mod ht_size (ht0 d)) \<noteq> [])"
  shows "\<exists>he j. random_bucket rnd d i = Some (he, j) \<and> he \<noteq> [] \<and> set he \<subseteq> set (entries d)"
proof -
  define tb where "tb = (if dictIsRehashing d then table (ht0 d) @ table (ht1 d) else table (ht0 d))"
  define idx where "idx n = rnd n mod length tb" for n
  note len = dict_inv_lengths[OF inv]
  have ne: "0 < length tb" using ht_ok_table_nonempty[OF ok] by (auto simp: tb_def)
  obtain k where k: "ht_size (ht0 d) = 2 ^ k" "sizemask (ht0 d) = 2 ^ k - 1" using ht_ok_power[OF ok] by blast
  have rd: "random_bucket rnd d n = (if tb ! idx n = [] then random_bucket rnd d (n + 1) else Some (tb ! idx n, n + 1))" for n
  proof (cases "dictIsRehashing d")
    case True
    define h where "h = rnd n mod (ht_size (ht0 d) + ht_size (ht1 d))"
    have h: "h < ht_size (ht0 d) + ht_size (ht1 d)" unfolding h_def using len(3)[OF True] by (intro mod_less_divisor) simp
    have i: "idx n = h" using True len by (simp add: idx_def tb_def h_def)
    have "arr_get (table (ht1 d)) (int h - int (ht_size (ht0 d))) = Some (table (ht1 d) ! (h - ht_size (ht0 d)))"
      if "ht_size (ht0 d) \<le> h"
      using arr_get_in[of "h - ht_size (ht0 d)" "table (ht1 d)"] that h len(2) by (simp add: of_nat_diff)
    then have "(if ht_size (ht0 d) \<le> h then arr_get (table (ht1 d)) (int h - int (ht_size (ht0 d)))
        else arr_get (table (ht0 d)) (int h)) = Some (tb ! idx n)"
      using True len(1,2) h unfolding i tb_def by (simp add: nth_append arr_get_in)
    then show ?thesis
      using True by (subst random_bucket.simps) (simp add: Let_def flip: h_def)
  next
    case False
    have "rnd n AND sizemask (ht0 d) = idx n"
      unfolding k(2) using False len(1) k(1) by (simp only: idx_def tb_def if_False flip: mask_eq_exp_minus_1 take_bit_eq_mask take_bit_eq_mod)
    moreover have "idx n < length (table (ht0 d))" using ne False by (simp add: idx_def tb_def)
    ultimately show ?thesis
      using False by (subst random_bucket.simps) (simp add: arr_get_in tb_def)
  qed
  have sub: "set (tb ! idx n) \<subseteq> set (entries d)" for n
  proof -
    have "tb ! idx n \<in> set tb" using ne by (simp add: idx_def)
    then show ?thesis by (auto simp: tb_def entries_def split: if_splits)
  qed
  obtain n where "i \<le> n" "tb ! idx n \<noteq> []" using hit len by (auto simp: tb_def idx_def split: if_splits)
  then show ?thesis
  proof (induction "n - i" arbitrary: i)
    case 0
    then have "i = n" by simp
    with 0 sub[of n] rd[of n] show ?case by simp
  next
    case (Suc m)
    show ?case
    proof (cases "tb ! idx i = []")
      case True
      have "m = n - (i + 1)" "i + 1 \<le> n" using Suc.hyps(2) by simp_all
      from Suc.hyps(1)[OF this(1) this(2) Suc.prems(2)] True rd[of i] show ?thesis by simp
    next
      case False
      with sub[of i] rd[of i] show ?thesis by simp
    qed
  qed
qed


subsection \<open>Properties\<close>

text \<open>
  C2. The guarantee of \<open>dictScan\<close>: in an iteration from cursor 0 back to cursor 0 during which
  the smaller of the tables never gets smaller, every entry that is present at every call is
  emitted.  The dictionary may change in any other way between the calls: entries come and go,
  the tables grow, rehashing starts, advances and ends.
\<close>

theorem dictScan_complete:
  assumes "ds \<noteq> []" "\<forall>d\<in>set ds. dict_inv d \<and> dtype d = T \<and> e \<in> set (entries d)"
    "sorted (map scan_size ds)" "scan_all ds 0 = Some (es, 0)"
  shows "e \<in> set es"
proof (rule scan_all_covers[OF _ assms(4,1) _ assms(3)])
  show "\<forall>d\<in>set ds. dict_inv d \<and> e \<in> set (entries d) \<and> dtype d = T" using assms(2) by blast
  obtain d ds' where ds: "ds = d # ds'" using assms(1) by (cases ds) auto
  then have "dict_inv d" "dictSize d \<noteq> 0"
    using assms(2) dictSize_entries[of d] by (auto simp: ds)
  moreover have "aligned d 0" by (simp add: aligned_def)
  ultimately obtain k where "scan_size d = 2 ^ k" using dictScan_spec[of d 0] by blast
  then show "unat (0::u32) < scan_size (hd ds)" by (simp add: ds)
qed simp

text \<open>
  C11. Scanning a dictionary that does not change: after as many calls as the smaller table has
  buckets the cursor is back at 0, and the calls have emitted exactly the entries.
\<close>

theorem dictScan_fixed:
  assumes inv: "dict_inv d" and ne: "dictSize d \<noteq> 0"
  shows "\<exists>es. scan_all (replicate (scan_size d) d) 0 = Some (es, 0) \<and> set es = set (entries d)"
proof -
  have "aligned d 0" by (simp add: aligned_def)
  from dictScan_spec[OF inv ne this] obtain k where "scan_size d = 2 ^ k" by blast
  then have pos: "0 < scan_size d" by simp
  from scan_fixed_returns[OF assms] obtain es where es: "scan_all (replicate (scan_size d) d) 0 = Some (es, 0)"
    "set es \<subseteq> set (entries d)" by blast
  have "e \<in> set es" if "e \<in> set (entries d)" for e
  proof (rule scan_all_covers[OF _ es(1)])
    show "\<forall>x\<in>set (replicate (scan_size d) d). dict_inv x \<and> e \<in> set (entries x) \<and> dtype x = dtype d"
      using inv that by simp
    show "sorted (map scan_size (replicate (scan_size d) d))" by (simp add: sorted_replicate)
    show "unat (0::u32) < scan_size (hd (replicate (scan_size d) d))" using pos by simp
  qed (use pos in simp_all)
  with es show ?thesis by blast
qed

text \<open>Two dictionaries with one entry: 16 buckets, and the same while it shrinks to 4.\<close>

definition scan_d16 :: "(nat, nat) dict" where
  "scan_d16 = \<lparr>dtype = natType,
     ht0 = \<lparr>table = [[], [], [], [], [(4, 40)], [], [], [], [], [], [], [], [], [], [], []], ht_size = 16, sizemask = 15, used = 1\<rparr>,
     ht1 = dictReset, rehashidx = -1, iterators = 0\<rparr>"

definition scan_shrink :: "(nat, nat) dict" where
  "scan_shrink = fst (dictResize True scan_d16)"

lemma all_buckets:
  "(\<forall>i<length xs. \<forall>e\<in>set (xs ! i). Q e i) \<longleftrightarrow> (\<forall>p\<in>set (enumerate 0 xs). \<forall>e\<in>set (snd p). Q e (fst p))"
proof
  assume *: "\<forall>p\<in>set (enumerate 0 xs). \<forall>e\<in>set (snd p). Q e (fst p)"
  show "\<forall>i<length xs. \<forall>e\<in>set (xs ! i). Q e i"
  proof (intro allI impI)
    fix i assume "i < length xs"
    then have "(i, xs ! i) \<in> set (enumerate 0 xs)" by (simp add: in_set_enumerate_eq)
    from bspec[OF * this] show "\<forall>e\<in>set (xs ! i). Q e i" by simp
  qed
qed (auto simp: in_set_enumerate_eq)

lemma scan_d16_inv: "dict_inv scan_d16"
proof -
  have "\<forall>i<length (table (ht0 scan_d16)). \<forall>e\<in>set (table (ht0 scan_d16) ! i). bucket (ht0 scan_d16) (hashFunction natType (fst e)) = i"
    by (subst all_buckets) (simp add: scan_d16_def bucket_def natType_def)
  then have "ht_ok natType (ht0 scan_d16)"
    unfolding ht_ok_def by (auto simp: scan_d16_def intro: exI[of _ 4])
  then show ?thesis
    by (simp add: dict_inv_def type_ok_natType scan_d16_def entries_def dict_max_def dictReset_def)
qed

theorem dictScan_fixed_witness:
  "\<exists>es. scan_all (replicate (scan_size scan_d16) scan_d16) 0 = Some (es, 0) \<and> set es = set (entries scan_d16)"
  using scan_d16_inv by (rule dictScan_fixed) (simp add: dictSize_def scan_d16_def dictReset_def)

theorem dictScan_complete_witness:
  "\<exists>es. scan_all (replicate 16 scan_d16) 0 = Some (es, 0) \<and> (4, 40) \<in> set es"
proof -
  have s: "scan_size scan_d16 = 16" by (simp add: scan_size_def dictIsRehashing_def scan_d16_def)
  from scan_fixed_returns[OF scan_d16_inv] obtain es where es: "scan_all (replicate 16 scan_d16) 0 = Some (es, 0)"
    unfolding s by (auto simp: dictSize_def scan_d16_def dictReset_def)
  have "(4, 40) \<in> set es"
  proof (rule dictScan_complete[OF _ _ _ es])
    show "\<forall>d\<in>set (replicate 16 scan_d16). dict_inv d \<and> dtype d = natType \<and> (4, 40) \<in> set (entries d)"
      using scan_d16_inv by (simp add: entries_def scan_d16_def)
    show "sorted (map scan_size (replicate 16 scan_d16))" by (simp only: map_replicate sorted_replicate)
  qed simp
  with es show ?thesis by blast
qed


lemma scan_next_values:
  "scan_next 15 0 = 8" "scan_next 3 8 = 2" "scan_next 3 2 = 1" "scan_next 3 1 = 3" "scan_next 3 3 = 0"
  by (simp_all add: scan_next_def rev_bits_steps rev_step_def push_bit_eq_mult drop_bit_eq_div)

lemma scan_shrink_eq:
  "scan_shrink = scan_d16\<lparr>ht1 := \<lparr>table = [[], [], [], []], ht_size = 4, sizemask = 3, used = 0\<rparr>, rehashidx := 0\<rparr>"
proof -
  have "dictNextPower 4 = 4"
    by (simp add: dictNextPower_def LONG_MAX_def DICT_HT_INITIAL_SIZE_def) (subst next_power_loop.simps, simp)
  moreover have "replicate 4 ([] :: (nat \<times> nat) list) = [[], [], [], []]" by (simp add: numeral_eq_Suc)
  ultimately have "dictExpand scan_d16 4 =
      (scan_d16\<lparr>ht1 := \<lparr>table = [[], [], [], []], ht_size = 4, sizemask = 3, used = 0\<rparr>, rehashidx := 0\<rparr>, True)"
    by (simp add: dictExpand_def scan_d16_def dictIsRehashing_def)
  then show ?thesis
    by (simp add: scan_shrink_def dictResize_def DICT_HT_INITIAL_SIZE_def) (simp add: scan_d16_def dictIsRehashing_def DICT_HT_INITIAL_SIZE_def)
qed

text \<open>A call during the shrinking: only the buckets from the cursor on are visited.\<close>

lemma scan_shrink_call:
  "dictScan scan_shrink v =
     Some (concat (map (\<lambda>c. table (ht0 scan_d16) ! (4 * c + unat v mod 4)) [unat v div 4 mod 4..<4]), scan_next 3 v)"
proof -
  have m: "(3::u32) = mask 2" "(15::u32) = mask 4" by (simp_all add: mask_eq_exp_minus_1)
  have len: "length (table (ht0 scan_d16)) = 2 ^ 4" by (simp add: scan_d16_def)
  from scan_expand_spec[OF _ _ len, of 2 v] obtain w where w:
    "scan_expand (table (ht0 scan_d16)) 3 15 v =
       Some (concat (map (\<lambda>c. table (ht0 scan_d16) ! (4 * c + unat v mod 4)) [unat v div 4 mod 4..<4]), w)"
    "unat w mod 2 ^ 2 = unat v mod 2 ^ 2"
    unfolding m mid_def by auto
  have "scan_next 3 w = scan_next 3 v" unfolding m by (rule scan_next_low[OF w(2)])
  moreover have "arr_get ([[], [], [], []] :: (nat \<times> nat) list list) (uint (v AND 3)) = Some []"
  proof -
    have "unat v mod 4 < 4" by simp
    then have "unat v mod 4 \<in> {0, 1, 2, 3}" by auto
    then show ?thesis unfolding m uint_and_mask by (auto simp: arr_get_def)
  qed
  moreover have "dictSize scan_shrink = 1" "dictIsRehashing scan_shrink" "ht_size (ht0 scan_d16) = 16" "sizemask (ht0 scan_d16) = 15"
    by (simp_all add: dictSize_def scan_shrink_eq scan_d16_def dictReset_def dictIsRehashing_def)
  ultimately show ?thesis using w(1) by (simp add: dictScan_def) (simp add: scan_shrink_eq)
qed

text \<open>
  C10. The guarantee does not hold when the table shrinks.  The entry with key 4 is present
  at every one of these five calls, which start at cursor 0 and end at cursor 0, and is never
  emitted: after the first call the dictionary of 16 buckets starts to shrink to 4, and the
  second call visits only those buckets of the larger table that follow the cursor.
\<close>

theorem dictScan_misses_on_shrink:
  "(4, 40) \<in> set (entries scan_d16) \<and> (4, 40) \<in> set (entries scan_shrink) \<and>
   scan_all [scan_d16, scan_shrink, scan_shrink, scan_shrink, scan_shrink] 0 = Some ([], 0)"
proof -
  have "dictScan scan_d16 0 = Some ([], 8)"
    using scan_next_values(1)
    by (simp add: dictScan_def dictSize_def scan_d16_def dictReset_def dictIsRehashing_def arr_get_def)
  moreover have "dictScan scan_shrink 8 = Some ([], 2)" "dictScan scan_shrink 2 = Some ([], 1)"
    "dictScan scan_shrink 1 = Some ([], 3)" "dictScan scan_shrink 3 = Some ([], 0)"
    unfolding scan_shrink_call scan_next_values by (simp_all add: scan_d16_def upt_rec)
  moreover have "(4, 40) \<in> set (entries scan_d16)" "(4, 40) \<in> set (entries scan_shrink)"
    by (simp_all add: entries_def scan_shrink_eq scan_d16_def)
  ultimately show ?thesis by simp
qed




text \<open>
  \<open>rev\<close>, which swaps ever smaller groups of bits, is the reversal of the 32 bits of its
  argument: bit \<open>n\<close> of the result is bit \<open>31 - n\<close> of the argument.
\<close>

theorem rev_bits_correct: "bit (rev_bits v) n \<longleftrightarrow> n < 32 \<and> bit v (31 - n)"
  by (rule bit_rev_bits)

text \<open>
  \<open>dictGetRandomKey\<close> returns an entry of a dictionary that is not empty, whenever the values
  of \<open>random()\<close> hit a bucket that is not empty at some time.
\<close>

theorem dictGetRandomKey_returns:
  assumes inv: "dict_inv d" and ne: "dictSize d \<noteq> 0" and quiet: "\<not> dictIsRehashing d"
    and hit: "table (ht0 d) ! (rnd n mod ht_size (ht0 d)) \<noteq> []"
  shows "\<exists>e. dictGetRandomKey rnd d = Some (d, Some e) \<and> e \<in> set (entries d)"
proof -
  have "ht_ok (dtype d) (ht0 d)"
    using inv ne quiet dictSize_entries[OF inv] by (auto simp: dict_inv_def dictIsRehashing_def dictReset_def entries_def)
  from random_bucket_spec[OF inv this, of 0 rnd] hit quiet obtain he j where
    he: "random_bucket rnd d 0 = Some (he, j)" "he \<noteq> []" "set he \<subseteq> set (entries d)" by auto
  have "rnd j mod length he < length he" using he(2) by simp
  then have "arr_get he (int (rnd j mod length he)) = Some (he ! (rnd j mod length he))"
    "he ! (rnd j mod length he) \<in> set he" by (rule arr_get_in, rule nth_mem)
  moreover from this he(3) have "he ! (rnd j mod length he) \<in> set (entries d)" by blast
  ultimately show ?thesis using ne quiet he(1) by (simp add: dictGetRandomKey_def)
qed

theorem dictGetRandomKey_returns_witness:
  "\<exists>e. dictGetRandomKey (\<lambda>i. i) scan_d16 = Some (scan_d16, Some e) \<and> e \<in> set (entries scan_d16)"
  using scan_d16_inv
proof (rule dictGetRandomKey_returns)
  show "table (ht0 scan_d16) ! (4 mod ht_size (ht0 scan_d16)) \<noteq> []" by (simp add: scan_d16_def)
qed (simp_all add: scan_d16_def dictSize_def dictReset_def dictIsRehashing_def)

end
