(* ===== verification/Pbuf.thy ===== *)
theory Pbuf
  imports Prelude "HOL-Library.Multiset"
begin

text \<open>
  The packet buffers of LwIP that the firmware runs on
  (\<open>src/concentrator-1/Middlewares/Third_Party/LwIP/src/core/pbuf.c\<close> and \<open>memp.c\<close>): an
  explicit heap of buffers with \<open>next\<close> pointers and reference counts, the free lists of the
  memory pools, and every operation of \<open>pbuf.c\<close> that the configuration compiles.  A result
  \<open>None\<close> is a dereference of a null or dangling pointer, an access outside the memory of a
  buffer, or a failed assertion.  \<open>u16_t\<close> fields are natural numbers, reduced modulo \<open>2 ^ 16\<close>
  wherever the source adds to them.
\<close>

subsection \<open>Data\<close>

datatype pbuf_layer = PBUF_TRANSPORT | PBUF_IP | PBUF_LINK | PBUF_RAW

datatype pbuf_type = PBUF_RAM | PBUF_ROM | PBUF_REF | PBUF_POOL

datatype err = ERR_OK | ERR_MEM | ERR_BUF | ERR_TIMEOUT | ERR_RTE | ERR_INPROGRESS | ERR_VAL | ERR_WOULDBLOCK
  | ERR_USE | ERR_ISCONN | ERR_ABRT | ERR_RST | ERR_CLSD | ERR_CONN | ERR_ARG | ERR_IF

type_synonym addr = nat

text \<open>
  \<open>pb_mem\<close> is the memory behind the payload pointer (what follows the structure for RAM and
  POOL buffers, the referenced memory for the others) and \<open>pb_payload\<close> the offset into it.
\<close>

record pbuf =
  pb_next :: "addr option"
  pb_mem :: "byte list"
  pb_payload :: int
  pb_tot_len :: nat
  pb_len :: nat
  pb_type :: pbuf_type
  pb_custom :: bool
  pb_ref :: nat

text \<open>The heap, the free lists of \<open>MEMP_PBUF_POOL\<close> and \<open>MEMP_PBUF\<close>, and the custom buffers released.\<close>

record pstate =
  heap :: "addr \<rightharpoonup> pbuf"
  pool :: "addr list"
  small :: "addr list"
  custom_freed :: "addr list"

definition w16 :: "nat \<Rightarrow> nat" where
  "w16 n = n mod 2 ^ 16"

definition sub16 :: "nat \<Rightarrow> nat \<Rightarrow> nat" where
  "sub16 a b = nat ((int a - int b) mod 2 ^ 16)"

definition PBUF_POOL_BUFSIZE :: nat where
  "PBUF_POOL_BUFSIZE = 512"

definition LWIP_MEM_ALIGN_SIZE :: "nat \<Rightarrow> nat" where
  "LWIP_MEM_ALIGN_SIZE n = (n + 3) div 4 * 4"

definition layer_offset :: "pbuf_layer \<Rightarrow> nat" where
  "layer_offset l = (case l of
      PBUF_TRANSPORT \<Rightarrow> 14 + 20 + 20 | PBUF_IP \<Rightarrow> 14 + 20 | PBUF_LINK \<Rightarrow> 14 | PBUF_RAW \<Rightarrow> 0)"

subsection \<open>Memory pools\<close>

text \<open>A pool is the list of its free elements; \<open>memp_init\<close> leaves the last one at the head.\<close>

definition memp_init :: "addr \<Rightarrow> nat \<Rightarrow> addr list" where
  "memp_init first n = foldl (\<lambda>tab j. (first + j) # tab) [] [0..<n]"

definition memp_malloc :: "addr list \<Rightarrow> addr option \<times> addr list" where
  "memp_malloc tab = (case tab of [] \<Rightarrow> (None, []) | a # tab' \<Rightarrow> (Some a, tab'))"

definition memp_free :: "addr list \<Rightarrow> addr option \<Rightarrow> addr list" where
  "memp_free tab a = (case a of None \<Rightarrow> tab | Some a \<Rightarrow> a # tab)"

subsection \<open>Reference counts\<close>

definition put :: "pstate \<Rightarrow> addr \<Rightarrow> pbuf \<Rightarrow> pstate" where
  "put s a b = s\<lparr>heap := (heap s)(a \<mapsto> b)\<rparr>"

text \<open>Give a buffer whose count reached zero back to where it came from.\<close>

definition dealloc :: "pstate \<Rightarrow> addr \<Rightarrow> pbuf \<Rightarrow> pstate" where
  "dealloc s a b =
     (let s = s\<lparr>heap := (heap s)(a := None)\<rparr>
      in if pb_custom b then s\<lparr>custom_freed := a # custom_freed s\<rparr>
         else case pb_type b of
           PBUF_POOL \<Rightarrow> s\<lparr>pool := memp_free (pool s) (Some a)\<rparr>
         | PBUF_ROM \<Rightarrow> s\<lparr>small := memp_free (small s) (Some a)\<rparr>
         | PBUF_REF \<Rightarrow> s\<lparr>small := memp_free (small s) (Some a)\<rparr>
         | PBUF_RAM \<Rightarrow> s)"

partial_function (option) free_loop :: "pstate \<Rightarrow> addr option \<Rightarrow> nat \<Rightarrow> (pstate \<times> nat) option" where
  "free_loop s p n =
     (case p of
        None \<Rightarrow> Some (s, n)
      | Some a \<Rightarrow>
          Option.bind (heap s a)
            (\<lambda>b. if pb_ref b = 0 then None
                 else if pb_ref b - 1 = 0
                 then free_loop (dealloc s a b) (pb_next b) ((n + 1) mod 256)
                 else Some (put s a (b\<lparr>pb_ref := pb_ref b - 1\<rparr>), n)))"

definition pbuf_free :: "pstate \<Rightarrow> addr option \<Rightarrow> (pstate \<times> nat) option" where
  "pbuf_free s p = (case p of None \<Rightarrow> Some (s, 0) | Some a \<Rightarrow> free_loop s (Some a) 0)"

definition pbuf_ref :: "pstate \<Rightarrow> addr option \<Rightarrow> pstate option" where
  "pbuf_ref s p =
     (case p of
        None \<Rightarrow> Some s
      | Some a \<Rightarrow> do { b \<leftarrow> heap s a; Some (put s a (b\<lparr>pb_ref := w16 (pb_ref b + 1)\<rparr>)) })"

subsection \<open>Allocation\<close>

definition fresh_mem :: "(nat \<Rightarrow> byte) \<Rightarrow> nat \<Rightarrow> byte list" where
  "fresh_mem junk n = map junk [0..<n]"

text \<open>The loop that allocates the tail of a chain; \<open>r\<close> is its last buffer so far, \<open>p\<close> the first.\<close>

function alloc_tail :: "(nat \<Rightarrow> byte) \<Rightarrow> pstate \<Rightarrow> addr \<Rightarrow> addr \<Rightarrow> nat \<Rightarrow> (pstate \<times> bool) option" where
  "alloc_tail junk s p r rem_len =
     (if rem_len = 0 then Some (s, True)
      else case memp_malloc (pool s) of
        (None, _) \<Rightarrow> do { (s, _) \<leftarrow> pbuf_free s (Some p); Some (s, False) }
      | (Some q, tab) \<Rightarrow>
          if \<not> rem_len < 0xffff then None
          else let n = min rem_len PBUF_POOL_BUFSIZE;
                   b = \<lparr>pb_next = None, pb_mem = fresh_mem junk PBUF_POOL_BUFSIZE, pb_payload = 0,
                        pb_tot_len = rem_len, pb_len = n, pb_type = PBUF_POOL, pb_custom = False, pb_ref = 1\<rparr>
               in do { rb \<leftarrow> heap s r;
                       alloc_tail junk (put (put (s\<lparr>pool := tab\<rparr>) q b) r (rb\<lparr>pb_next := Some q\<rparr>)) p q (rem_len - n) })"
  by auto
termination by (relation "measure (\<lambda>(_, _, _, _, n). n)") (auto simp: PBUF_POOL_BUFSIZE_def)

declare alloc_tail.simps [simp del]

text \<open>\<open>ram\<close> is the address that \<open>mem_malloc\<close> returns for a \<open>PBUF_RAM\<close> buffer.\<close>

definition pbuf_alloc ::
    "(nat \<Rightarrow> byte) \<Rightarrow> addr option \<Rightarrow> pstate \<Rightarrow> pbuf_layer \<Rightarrow> nat \<Rightarrow> pbuf_type \<Rightarrow> (pstate \<times> addr option) option" where
  "pbuf_alloc junk ram s layer len type =
     (let offset = LWIP_MEM_ALIGN_SIZE (layer_offset layer)
      in case type of
        PBUF_POOL \<Rightarrow>
          (case memp_malloc (pool s) of
             (None, _) \<Rightarrow> Some (s, None)
           | (Some p, tab) \<Rightarrow>
               let n = min len (PBUF_POOL_BUFSIZE - offset);
                   b = \<lparr>pb_next = None, pb_mem = fresh_mem junk PBUF_POOL_BUFSIZE, pb_payload = int offset,
                        pb_tot_len = len, pb_len = n, pb_type = PBUF_POOL, pb_custom = False, pb_ref = 1\<rparr>
               in do { (s, ok) \<leftarrow> alloc_tail junk (put (s\<lparr>pool := tab\<rparr>) p b) p p (len - n);
                       Some (s, if ok then Some p else None) })
      | PBUF_RAM \<Rightarrow>
          (case ram of
             None \<Rightarrow> Some (s, None)
           | Some p \<Rightarrow>
               Some (put s p \<lparr>pb_next = None, pb_mem = fresh_mem junk (offset + LWIP_MEM_ALIGN_SIZE len),
                              pb_payload = int offset, pb_tot_len = len, pb_len = len,
                              pb_type = PBUF_RAM, pb_custom = False, pb_ref = 1\<rparr>, Some p))
      | _ \<Rightarrow>
          (case memp_malloc (small s) of
             (None, _) \<Rightarrow> Some (s, None)
           | (Some p, tab) \<Rightarrow>
               Some (put (s\<lparr>small := tab\<rparr>) p
                       \<lparr>pb_next = None, pb_mem = [], pb_payload = 0, pb_tot_len = len, pb_len = len,
                        pb_type = type, pb_custom = False, pb_ref = 1\<rparr>, Some p)))"

text \<open>A custom buffer over memory that the caller supplies.\<close>

definition pbuf_alloced_custom ::
    "pbuf_layer \<Rightarrow> nat \<Rightarrow> pbuf_type \<Rightarrow> byte list \<Rightarrow> nat \<Rightarrow> pbuf option" where
  "pbuf_alloced_custom l len type payload_mem payload_mem_len =
     (let offset = LWIP_MEM_ALIGN_SIZE (layer_offset l)
      in if payload_mem_len < offset + len then None
         else Some \<lparr>pb_next = None, pb_mem = payload_mem, pb_payload = int offset, pb_tot_len = len,
                    pb_len = len, pb_type = type, pb_custom = True, pb_ref = 1\<rparr>)"

subsection \<open>Shrinking and headers\<close>

text \<open>The buffers that stay; the result is the new last buffer and its length.\<close>

partial_function (option) realloc_skip :: "pstate \<Rightarrow> addr \<Rightarrow> nat \<Rightarrow> int \<Rightarrow> (pstate \<times> addr \<times> nat) option" where
  "realloc_skip s q rem_len grow =
     Option.bind (heap s q)
       (\<lambda>b. if pb_len b < rem_len
            then Option.bind (pb_next b)
                   (\<lambda>q'. realloc_skip (put s q (b\<lparr>pb_tot_len := nat ((int (pb_tot_len b) + grow) mod 2 ^ 16)\<rparr>))
                           q' (rem_len - pb_len b) grow)
            else Some (s, q, rem_len))"

text \<open>\<open>mem_trim\<close> gives back the memory beyond the new end of a RAM buffer.\<close>

definition pbuf_realloc :: "pstate \<Rightarrow> addr \<Rightarrow> nat \<Rightarrow> pstate option" where
  "pbuf_realloc s p new_len =
     do { b \<leftarrow> heap s p;
          if pb_tot_len b \<le> new_len then Some s
          else do { (s, q, rem_len) \<leftarrow> realloc_skip s p new_len (int new_len - int (pb_tot_len b));
                    b \<leftarrow> heap s q;
                    let b = (if pb_type b = PBUF_RAM \<and> rem_len \<noteq> pb_len b
                             then b\<lparr>pb_mem := take (nat (pb_payload b) + rem_len) (pb_mem b)\<rparr> else b);
                        b = b\<lparr>pb_len := rem_len, pb_tot_len := rem_len\<rparr>
                    in do { (s, _) \<leftarrow> (case pb_next b of
                                       None \<Rightarrow> Some (put s q b, 0)
                                     | Some r \<Rightarrow> pbuf_free (put s q b) (Some r));
                            b \<leftarrow> heap s q;
                            Some (put s q (b\<lparr>pb_next := None\<rparr>)) } } }"

text \<open>The boolean is success (0 in the source); \<open>inc\<close> is an \<open>s16_t\<close>.\<close>

definition pbuf_header :: "pbuf \<Rightarrow> int \<Rightarrow> pbuf \<times> bool" where
  "pbuf_header p inc =
     (if inc = 0 then (p, True)
      else if inc < 0 \<and> int (pb_len p) < - inc then (p, False)
      else if pb_type p = PBUF_RAM \<or> pb_type p = PBUF_POOL
      then if pb_payload p - inc < 0 then (p, False)
           else (p\<lparr>pb_payload := pb_payload p - inc,
                   pb_len := nat ((int (pb_len p) + inc) mod 2 ^ 16),
                   pb_tot_len := nat ((int (pb_tot_len p) + inc) mod 2 ^ 16)\<rparr>, True)
      else if inc < 0 \<and> - inc \<le> int (pb_len p)
      then (p\<lparr>pb_payload := pb_payload p - inc,
              pb_len := nat ((int (pb_len p) + inc) mod 2 ^ 16),
              pb_tot_len := nat ((int (pb_tot_len p) + inc) mod 2 ^ 16)\<rparr>, True)
      else (p, False))"

subsection \<open>Chains\<close>

partial_function (option) clen_loop :: "pstate \<Rightarrow> addr option \<Rightarrow> nat \<Rightarrow> nat option" where
  "clen_loop s p len =
     (case p of
        None \<Rightarrow> Some len
      | Some a \<Rightarrow> Option.bind (heap s a) (\<lambda>b. clen_loop s (pb_next b) ((len + 1) mod 256)))"

definition pbuf_clen :: "pstate \<Rightarrow> addr option \<Rightarrow> nat option" where
  "pbuf_clen s p = clen_loop s p 0"

text \<open>Add the length of the second chain to every buffer of the first, then link them.\<close>

partial_function (option) cat_loop :: "pstate \<Rightarrow> addr \<Rightarrow> addr \<Rightarrow> pstate option" where
  "cat_loop s p t =
     Option.bind (heap s t)
       (\<lambda>tb. Option.bind (heap s p)
          (\<lambda>b. case pb_next b of
                 Some q \<Rightarrow> cat_loop (put s p (b\<lparr>pb_tot_len := w16 (pb_tot_len b + pb_tot_len tb)\<rparr>)) q t
               | None \<Rightarrow>
                   if pb_tot_len b \<noteq> pb_len b then None
                   else Some (put s p (b\<lparr>pb_tot_len := w16 (pb_tot_len b + pb_tot_len tb), pb_next := Some t\<rparr>))))"

definition pbuf_cat :: "pstate \<Rightarrow> addr option \<Rightarrow> addr option \<Rightarrow> pstate option" where
  "pbuf_cat s h t = (case (h, t) of (Some h, Some t) \<Rightarrow> cat_loop s h t | _ \<Rightarrow> Some s)"

definition pbuf_chain :: "pstate \<Rightarrow> addr option \<Rightarrow> addr option \<Rightarrow> pstate option" where
  "pbuf_chain s h t = do { s \<leftarrow> pbuf_cat s h t; pbuf_ref s t }"

definition pbuf_dechain :: "pstate \<Rightarrow> addr \<Rightarrow> (pstate \<times> addr option) option" where
  "pbuf_dechain s p =
     do { b \<leftarrow> heap s p;
          case pb_next b of
            None \<Rightarrow> if pb_tot_len b \<noteq> pb_len b then None else Some (s, None)
          | Some q \<Rightarrow>
              do { qb \<leftarrow> heap s q;
                   if int (pb_tot_len qb) \<noteq> int (pb_tot_len b) - int (pb_len b) then None
                   else let s = put s q (qb\<lparr>pb_tot_len := sub16 (pb_tot_len b) (pb_len b)\<rparr>);
                            s = put s p (b\<lparr>pb_next := None, pb_tot_len := pb_len b\<rparr>)
                        in do { (s, tail_gone) \<leftarrow> pbuf_free s (Some q);
                                Some (s, if 0 < tail_gone then None else Some q) } } }"

subsection \<open>Copying\<close>

text \<open>Bytes of the payload of a buffer, checked against its memory.\<close>

definition payload_read :: "pbuf \<Rightarrow> nat \<Rightarrow> nat \<Rightarrow> byte list option" where
  "payload_read b off n = (if pb_payload b < 0 then None else mem_read (pb_mem b) (nat (pb_payload b) + off) n)"

definition payload_write :: "pbuf \<Rightarrow> nat \<Rightarrow> byte list \<Rightarrow> pbuf option" where
  "payload_write b off xs =
     (if pb_payload b < 0 then None
      else do { m \<leftarrow> mem_write (pb_mem b) (nat (pb_payload b) + off) xs; Some (b\<lparr>pb_mem := m\<rparr>) })"

text \<open>\<open>is_queue_end\<close>: the test that the copy does not run into a second packet of a queue.\<close>

definition queue_error :: "pstate \<Rightarrow> addr option \<Rightarrow> bool option" where
  "queue_error s p =
     (case p of
        None \<Rightarrow> Some False
      | Some a \<Rightarrow> do { b \<leftarrow> heap s a; Some (pb_len b = pb_tot_len b \<and> pb_next b \<noteq> None) })"

partial_function (option) copy_loop ::
    "pstate \<Rightarrow> addr \<Rightarrow> nat \<Rightarrow> addr \<Rightarrow> nat \<Rightarrow> (pstate \<times> err) option" where
  "copy_loop s p_to offset_to p_from offset_from =
     Option.bind (heap s p_to) (\<lambda>bt. Option.bind (heap s p_from) (\<lambda>bf.
       let len = (if int (pb_len bf) - int offset_from \<le> int (pb_len bt) - int offset_to
                  then pb_len bf - offset_from else pb_len bt - offset_to)
       in Option.bind (payload_read bf offset_from len) (\<lambda>xs.
          Option.bind (payload_write bt offset_to xs) (\<lambda>bt'.
            let s = put s p_to bt';
                from' = (if pb_len bf \<le> offset_from + len then (pb_next bf, 0) else (Some p_from, offset_from + len));
                to' = (if offset_to + len = pb_len bt then (pb_next bt, 0) else (Some p_to, offset_to + len))
            in if \<not> (offset_to + len \<le> pb_len bt \<and> offset_from + len \<le> pb_len bf) then None
               else if offset_to + len = pb_len bt \<and> fst to' = None \<and> fst from' \<noteq> None then Some (s, ERR_ARG)
               else Option.bind (queue_error s (fst from')) (\<lambda>qf.
                    Option.bind (queue_error s (fst to')) (\<lambda>qt.
                      if qf \<or> qt then Some (s, ERR_VAL)
                      else case fst from' of
                             None \<Rightarrow> Some (s, ERR_OK)
                           | Some f \<Rightarrow> Option.bind (fst to') (\<lambda>t. copy_loop s t (snd to') f (snd from')))))))) "

definition pbuf_copy :: "pstate \<Rightarrow> addr option \<Rightarrow> addr option \<Rightarrow> (pstate \<times> err) option" where
  "pbuf_copy s p_to p_from =
     (case (p_to, p_from) of
        (Some t, Some f) \<Rightarrow>
          do { bt \<leftarrow> heap s t; bf \<leftarrow> heap s f;
               if pb_tot_len bt < pb_tot_len bf then Some (s, ERR_ARG) else copy_loop s t 0 f 0 }
      | _ \<Rightarrow> Some (s, ERR_ARG))"

text \<open>The bytes written to the application buffer, in order.\<close>

partial_function (option) copy_partial_loop :: "pstate \<Rightarrow> addr option \<Rightarrow> nat \<Rightarrow> nat \<Rightarrow> byte list option" where
  "copy_partial_loop s p len offset =
     (if len = 0 then Some []
      else case p of
        None \<Rightarrow> Some []
      | Some a \<Rightarrow>
          Option.bind (heap s a) (\<lambda>b.
            if offset \<noteq> 0 \<and> pb_len b \<le> offset
            then copy_partial_loop s (pb_next b) len (offset - pb_len b)
            else let n = min (pb_len b - offset) len
                 in Option.bind (payload_read b offset n) (\<lambda>xs.
                    Option.bind (copy_partial_loop s (pb_next b) (len - n) 0) (\<lambda>ys. Some (xs @ ys)))))"

definition pbuf_copy_partial :: "pstate \<Rightarrow> addr option \<Rightarrow> nat \<Rightarrow> nat \<Rightarrow> byte list option" where
  "pbuf_copy_partial s buf len offset = (case buf of None \<Rightarrow> Some [] | Some a \<Rightarrow> copy_partial_loop s (Some a) len offset)"

text \<open>\<open>data\<close> is what is left of the application data.\<close>

partial_function (option) take_loop :: "pstate \<Rightarrow> addr option \<Rightarrow> byte list \<Rightarrow> pstate option" where
  "take_loop s p data =
     (if data = [] then Some s
      else Option.bind p (\<lambda>a. Option.bind (heap s a) (\<lambda>b.
             let n = min (length data) (pb_len b)
             in Option.bind (payload_write b 0 (take n data)) (\<lambda>b'.
                  take_loop (put s a b') (pb_next b) (drop n data)))))"

definition pbuf_take :: "pstate \<Rightarrow> addr option \<Rightarrow> byte list \<Rightarrow> (pstate \<times> err) option" where
  "pbuf_take s buf data =
     (case buf of
        None \<Rightarrow> Some (s, ERR_OK)
      | Some a \<Rightarrow>
          do { b \<leftarrow> heap s a;
               if pb_tot_len b < length data then Some (s, ERR_ARG)
               else do { s \<leftarrow> take_loop s (Some a) data; Some (s, ERR_OK) } })"

definition pbuf_coalesce ::
    "(nat \<Rightarrow> byte) \<Rightarrow> addr option \<Rightarrow> pstate \<Rightarrow> addr \<Rightarrow> pbuf_layer \<Rightarrow> (pstate \<times> addr) option" where
  "pbuf_coalesce junk ram s p layer =
     do { b \<leftarrow> heap s p;
          if pb_next b = None then Some (s, p)
          else do { (s, q) \<leftarrow> pbuf_alloc junk ram s layer (pb_tot_len b) PBUF_RAM;
                    case q of
                      None \<Rightarrow> Some (s, p)
                    | Some q \<Rightarrow>
                        do { (s, e) \<leftarrow> pbuf_copy s (Some q) (Some p);
                             if e \<noteq> ERR_OK then None
                             else do { (s, _) \<leftarrow> pbuf_free s (Some p); Some (s, q) } } } }"

subsection \<open>Searching\<close>

text \<open>The buffer that holds an offset, with the offset that is left.\<close>

partial_function (option) find_pbuf :: "pstate \<Rightarrow> addr option \<Rightarrow> nat \<Rightarrow> (addr option \<times> nat) option" where
  "find_pbuf s q off =
     (case q of
        None \<Rightarrow> Some (None, off)
      | Some a \<Rightarrow> Option.bind (heap s a) (\<lambda>b.
          if pb_len b \<le> off then find_pbuf s (pb_next b) (off - pb_len b) else Some (Some a, off)))"

definition pbuf_get_at :: "pstate \<Rightarrow> addr option \<Rightarrow> nat \<Rightarrow> byte option" where
  "pbuf_get_at s p offset =
     do { (q, copy_from) \<leftarrow> find_pbuf s p offset;
          case q of
            None \<Rightarrow> Some 0
          | Some a \<Rightarrow> do { b \<leftarrow> heap s a; xs \<leftarrow> payload_read b copy_from 1; Some (hd xs) } }"

text \<open>The loop of \<open>pbuf_memcmp\<close> from index \<open>i\<close>; \<open>s2\<close> is what is left of the pattern.\<close>

fun memcmp_loop :: "pstate \<Rightarrow> addr option \<Rightarrow> nat \<Rightarrow> nat \<Rightarrow> byte list \<Rightarrow> nat option" where
  "memcmp_loop s q start i [] = Some 0"
| "memcmp_loop s q start i (b # s2) =
     do { a \<leftarrow> pbuf_get_at s q (w16 (start + i));
          if a \<noteq> b then Some (w16 (i + 1)) else memcmp_loop s q start (i + 1) s2 }"

definition pbuf_memcmp :: "pstate \<Rightarrow> addr option \<Rightarrow> nat \<Rightarrow> byte list \<Rightarrow> nat option" where
  "pbuf_memcmp s p offset s2 =
     do { (q, start) \<leftarrow> find_pbuf s p offset;
          case q of None \<Rightarrow> Some 0xffff | Some a \<Rightarrow> memcmp_loop s (Some a) start 0 s2 }"

partial_function (option) memfind_loop :: "pstate \<Rightarrow> addr \<Rightarrow> byte list \<Rightarrow> nat \<Rightarrow> nat \<Rightarrow> nat option" where
  "memfind_loop s p mem last_pos i =
     (if last_pos < i then Some 0xffff
      else Option.bind (pbuf_memcmp s (Some p) i mem)
             (\<lambda>plus. if plus = 0 then Some i else memfind_loop s p mem last_pos (w16 (i + plus))))"

definition pbuf_memfind :: "pstate \<Rightarrow> addr \<Rightarrow> byte list \<Rightarrow> nat \<Rightarrow> nat option" where
  "pbuf_memfind s p mem start_offset =
     do { b \<leftarrow> heap s p;
          if length mem + start_offset \<le> pb_tot_len b
          then memfind_loop s p mem (sub16 (pb_tot_len b) (length mem)) start_offset
          else Some 0xffff }"

definition pbuf_strstr :: "pstate \<Rightarrow> addr \<Rightarrow> byte list \<Rightarrow> nat option" where
  "pbuf_strstr s p substr =
     do { b \<leftarrow> heap s p;
          if substr = [] \<or> pb_tot_len b = 0xffff then Some 0xffff
          else if 0xffff \<le> length substr then Some 0xffff
          else pbuf_memfind s p substr 0 }"

subsection \<open>Chains and packets\<close>

fun chain :: "(addr \<rightharpoonup> pbuf) \<Rightarrow> addr option \<Rightarrow> addr list \<Rightarrow> bool" where
  "chain h p [] \<longleftrightarrow> p = None"
| "chain h p (a # as) \<longleftrightarrow> p = Some a \<and> (\<exists>b. h a = Some b \<and> chain h (pb_next b) as)"

lemma chain_unique: "chain h p as \<Longrightarrow> chain h p bs \<Longrightarrow> as = bs"
proof (induction as arbitrary: p bs)
  case Nil
  then show ?case by (cases bs) auto
next
  case (Cons a as)
  then show ?case by (cases bs) auto
qed

lemma chain_append: "chain h p (as @ bs) \<Longrightarrow> \<exists>q. chain h q bs"
  by (induction as arbitrary: p) auto

lemma chain_distinct: "chain h p as \<Longrightarrow> distinct as"
proof (induction as arbitrary: p)
  case (Cons a as)
  then obtain b where b: "h a = Some b" "chain h (pb_next b) as" by auto
  have "a \<notin> set as"
  proof
    assume "a \<in> set as"
    then obtain xs ys where as: "as = xs @ a # ys" by (meson split_list)
    then obtain q where "chain h q (a # ys)" using chain_append b(2) by blast
    then have "chain h (Some a) (a # ys)" by simp
    moreover have "chain h (Some a) (a # as)" using b by simp
    ultimately have "as = ys" using chain_unique by blast
    with as show False by simp
  qed
  with Cons.IH[OF b(2)] show ?case by simp
qed simp

lemma chain_cong: "(\<And>a. a \<in> set as \<Longrightarrow> map_option pb_next (h a) = map_option pb_next (h' a)) \<Longrightarrow> chain h p as = chain h' p as"
proof (induction as arbitrary: p)
  case (Cons a as)
  have "map_option pb_next (h a) = map_option pb_next (h' a)" by (rule Cons.prems) simp
  moreover have "\<And>q. chain h q as = chain h' q as" using Cons by simp
  ultimately show ?case by (cases "h a"; cases "h' a") auto
qed simp

text \<open>The bytes of a buffer, and the condition that they are inside its memory.\<close>

definition buf_ok :: "pbuf \<Rightarrow> bool" where
  "buf_ok b \<longleftrightarrow> 0 \<le> pb_payload b \<and> nat (pb_payload b) + pb_len b \<le> length (pb_mem b)"

definition bytes :: "pbuf \<Rightarrow> byte list" where
  "bytes b = take (pb_len b) (drop (nat (pb_payload b)) (pb_mem b))"

definition total_len :: "(addr \<rightharpoonup> pbuf) \<Rightarrow> addr list \<Rightarrow> nat" where
  "total_len h as = sum_list (map (\<lambda>a. pb_len (the (h a))) as)"

definition contents :: "(addr \<rightharpoonup> pbuf) \<Rightarrow> addr list \<Rightarrow> byte list" where
  "contents h as = concat (map (\<lambda>a. bytes (the (h a))) as)"

text \<open>A packet: a chain of good buffers with the total-length invariant of \<open>pbuf.h\<close>.\<close>

fun packet :: "(addr \<rightharpoonup> pbuf) \<Rightarrow> addr option \<Rightarrow> addr list \<Rightarrow> bool" where
  "packet h p [] \<longleftrightarrow> p = None"
| "packet h p (a # as) \<longleftrightarrow> p = Some a \<and>
     (\<exists>b. h a = Some b \<and> buf_ok b \<and> pb_tot_len b = pb_len b + total_len h as \<and> packet h (pb_next b) as)"

lemma packet_chain: "packet h p as \<Longrightarrow> chain h p as"
  by (induction as arbitrary: p) auto

lemma length_bytes [simp]: "buf_ok b \<Longrightarrow> length (bytes b) = pb_len b"
  by (auto simp: buf_ok_def bytes_def)

lemma total_len_simps [simp]: "total_len h [] = 0" "total_len h (a # as) = pb_len (the (h a)) + total_len h as"
  by (simp_all add: total_len_def)

lemma contents_simps [simp]: "contents h [] = []" "contents h (a # as) = bytes (the (h a)) @ contents h as"
  by (simp_all add: contents_def)

lemma length_contents: "packet h p as \<Longrightarrow> length (contents h as) = total_len h as"
  by (induction as arbitrary: p) auto

lemma total_cong: "(\<And>a. a \<in> set as \<Longrightarrow> h a = h' a) \<Longrightarrow> total_len h as = total_len h' as"
  by (induction as) auto

lemma contents_cong: "(\<And>a. a \<in> set as \<Longrightarrow> h a = h' a) \<Longrightarrow> contents h as = contents h' as"
  by (induction as) auto

lemma packet_cong: "(\<And>a. a \<in> set as \<Longrightarrow> h a = h' a) \<Longrightarrow> packet h p as = packet h' p as"
proof (induction as arbitrary: p)
  case (Cons a as)
  have "total_len h as = total_len h' as" using Cons.prems by (intro total_cong) simp
  moreover have "\<And>q. packet h q as = packet h' q as" using Cons by simp
  ultimately show ?case using Cons.prems[of a] by simp
qed simp

lemma packet_upd_other:
  assumes "a \<notin> set as"
  shows "packet (h(a := x)) p as = packet h p as" "contents (h(a := x)) as = contents h as" "total_len (h(a := x)) as = total_len h as"
  using assms by (auto intro!: packet_cong contents_cong total_cong)

lemma heap_put [simp]: "heap (put s a b) = (heap s)(a \<mapsto> b)"
  by (simp add: put_def)

lemma payload_read_ok:
  assumes "buf_ok b" "off + n \<le> pb_len b"
  shows "payload_read b off n = Some (take n (drop off (bytes b)))"
proof -
  have "nat (pb_payload b) + off + n \<le> length (pb_mem b)" using assms by (simp add: buf_ok_def)
  moreover have "take n (drop off (bytes b)) = take n (drop (nat (pb_payload b) + off) (pb_mem b))"
    using assms(2) by (simp add: bytes_def drop_take add.commute)
  ultimately show ?thesis using assms(1) by (simp add: payload_read_def mem_read_def buf_ok_def)
qed

lemma payload_write_ok:
  assumes "buf_ok b" "off + length xs \<le> pb_len b"
  shows "\<exists>b'. payload_write b off xs = Some b' \<and> buf_ok b' \<and> b' = b\<lparr>pb_mem := pb_mem b'\<rparr> \<and>
    bytes b' = take off (bytes b) @ xs @ drop (off + length xs) (bytes b)"
proof -
  define m where "m = take (nat (pb_payload b) + off) (pb_mem b) @ xs @ drop (nat (pb_payload b) + off + length xs) (pb_mem b)"
  have le: "nat (pb_payload b) + off + length xs \<le> length (pb_mem b)" using assms by (simp add: buf_ok_def)
  then have w: "payload_write b off xs = Some (b\<lparr>pb_mem := m\<rparr>)"
    using assms(1) by (simp add: payload_write_def mem_write_def buf_ok_def m_def)
  have "length m = length (pb_mem b)" using le by (simp add: m_def)
  then have ok: "buf_ok (b\<lparr>pb_mem := m\<rparr>)" using assms(1) by (simp add: buf_ok_def)
  have "bytes (b\<lparr>pb_mem := m\<rparr>) = take off (bytes b) @ xs @ drop (off + length xs) (bytes b)"
  proof -
    define pl where "pl = nat (pb_payload b)"
    define B where "B = drop pl (pb_mem b)"
    have lB: "off + length xs \<le> length B" "pl \<le> length (pb_mem b)" using le by (simp_all add: B_def pl_def)
    have t: "take (pl + off) (pb_mem b) = take pl (pb_mem b) @ take off B" by (simp add: B_def take_add)
    have d: "drop (pl + off + length xs) (pb_mem b) = drop (off + length xs) B" by (simp add: B_def add_ac)
    have "m = take pl (pb_mem b) @ take off B @ xs @ drop (off + length xs) B"
      by (simp only: m_def t d append_assoc flip: pl_def)
    then have "drop pl m = take off B @ xs @ drop (off + length xs) B"
      using lB(2) by simp
    moreover have "take (pb_len b) (take off B @ xs @ drop (off + length xs) B) =
        take off B @ xs @ take (pb_len b - (off + length xs)) (drop (off + length xs) B)"
      using assms(2) lB(1) by simp
    ultimately have "bytes (b\<lparr>pb_mem := m\<rparr>) = take off B @ xs @ take (pb_len b - (off + length xs)) (drop (off + length xs) B)"
      by (simp add: bytes_def flip: pl_def)
    moreover have "bytes b = take (pb_len b) B" by (simp add: bytes_def B_def pl_def)
    ultimately show ?thesis using assms(2) by (simp add: drop_take min_def)
  qed
  with w ok show ?thesis by auto
qed


subsection \<open>Reading and filling packets\<close>

lemma copy_partial_loop_spec:
  "packet (heap s) p as \<Longrightarrow> copy_partial_loop s p n off = Some (take n (drop off (contents (heap s) as)))"
proof (induction as arbitrary: p n off)
  case Nil
  then show ?case by (subst copy_partial_loop.simps) simp
next
  case (Cons a as)
  then obtain b where b: "p = Some a" "heap s a = Some b" "buf_ok b" "packet (heap s) (pb_next b) as" by auto
  show ?case
  proof (cases "n = 0 \<or> off \<noteq> 0 \<and> pb_len b \<le> off")
    case True
    then show ?thesis
      using b Cons.IH[OF b(4), of n "off - pb_len b"]
      by (subst copy_partial_loop.simps) (auto simp: drop_all)
  next
    case False
    define k where "k = min (pb_len b - off) n"
    have k: "off + k \<le> pb_len b" using False by (auto simp: k_def)
    have "copy_partial_loop s p n off = Some (take k (drop off (bytes b)) @ take (n - k) (contents (heap s) as))"
      using False b payload_read_ok[OF b(3) k] Cons.IH[OF b(4), of "n - k" 0]
      by (subst copy_partial_loop.simps) (auto simp: Let_def simp flip: k_def)
    also have "take k (drop off (bytes b)) = take n (drop off (bytes b))"
      using b(3) by (simp add: k_def min_def)
    also have "take (n - k) (contents (heap s) as) = take (n - (pb_len b - off)) (drop (off - pb_len b) (contents (heap s) as))"
      using False by (auto simp: k_def min_def)
    finally show ?thesis using b by simp
  qed
qed

lemma mem_upd_self: "\<exists>m. x = map_option (\<lambda>b. b\<lparr>pb_mem := m\<rparr>) x"
  by (cases x) (auto intro: exI[of _ "pb_mem (the x)"])

lemma take_loop_spec:
  assumes "packet (heap s) p as" "length data \<le> total_len (heap s) as"
  shows "\<exists>h'. take_loop s p data = Some (s\<lparr>heap := h'\<rparr>) \<and> packet h' p as \<and>
    contents h' as = data @ drop (length data) (contents (heap s) as) \<and>
    (\<forall>a. a \<notin> set as \<longrightarrow> h' a = heap s a) \<and>
    (\<forall>a\<in>set as. \<exists>m. h' a = map_option (\<lambda>b. b\<lparr>pb_mem := m\<rparr>) (heap s a))"
  using assms
proof (induction as arbitrary: s p data)
  case Nil
  then show ?case by (intro exI[of _ "heap s"]) (subst take_loop.simps, simp)
next
  case (Cons a as)
  then obtain b where b: "p = Some a" "heap s a = Some b" "buf_ok b" "pb_tot_len b = pb_len b + total_len (heap s) as"
    "packet (heap s) (pb_next b) as" by auto
  have a: "a \<notin> set as" using chain_distinct[OF packet_chain[OF Cons.prems(1)]] by simp
  show ?case
  proof (cases "data = []")
    case True
    have "\<forall>x\<in>set (a # as). \<exists>m. heap s x = map_option (\<lambda>b. b\<lparr>pb_mem := m\<rparr>) (heap s x)" by (intro ballI mem_upd_self)
    with True Cons.prems(1) show ?thesis by (intro exI[of _ "heap s"]) (subst take_loop.simps, simp)
  next
    case False
    define n where "n = min (length data) (pb_len b)"
    from payload_write_ok[OF b(3), of 0 "take n data"] obtain b' where b':
      "payload_write b 0 (take n data) = Some b'" "buf_ok b'" "b' = b\<lparr>pb_mem := pb_mem b'\<rparr>"
      "bytes b' = take n data @ drop n (bytes b)" by (auto simp: n_def)
    have f: "pb_next b' = pb_next b" "pb_len b' = pb_len b" "pb_tot_len b' = pb_tot_len b" by (subst b'(3), simp)+
    let ?s = "put s a b'"
    have pk: "packet (heap ?s) (pb_next b) as" "contents (heap ?s) as = contents (heap s) as" "total_len (heap ?s) as = total_len (heap s) as"
      using b(5) a by (simp_all add: packet_upd_other)
    have "length (drop n data) \<le> total_len (heap ?s) as" using Cons.prems(2) b(2) pk(3) by (simp add: n_def)
    from Cons.IH[OF pk(1) this] obtain h' where h':
      "take_loop ?s (pb_next b) (drop n data) = Some (?s\<lparr>heap := h'\<rparr>)" "packet h' (pb_next b) as"
      "contents h' as = drop n data @ drop (length data - n) (contents (heap s) as)"
      "\<forall>x. x \<notin> set as \<longrightarrow> h' x = heap ?s x"
      "\<forall>x\<in>set as. \<exists>m. h' x = map_option (\<lambda>b. b\<lparr>pb_mem := m\<rparr>) (heap ?s x)" unfolding pk(2) by auto
    have ha: "h' a = Some b'" using h'(4) a by simp
    have tot: "total_len h' as = total_len (heap s) as"
      using length_contents[OF h'(2)] h'(3) length_contents[OF b(5)] Cons.prems(2) b(2) by (auto simp: n_def)
    have "take_loop s p data = Some (s\<lparr>heap := h'\<rparr>)"
      using False b(1,2) b'(1) h'(1) by (subst take_loop.simps) (simp add: Let_def put_def flip: n_def)
    moreover have "packet h' p (a # as)" using ha b b'(2) f tot h'(2) by auto
    moreover have "contents h' (a # as) = data @ drop (length data) (contents (heap s) (a # as))"
    proof (cases "length data \<le> pb_len b")
      case True
      then show ?thesis using ha h'(3) b'(4) b(2,3) by (simp add: n_def)
    next
      case F: False
      then have "n = pb_len b" by (simp add: n_def)
      with F show ?thesis using ha h'(3) b'(4) b(2,3) by simp
    qed
    moreover have "\<forall>x. x \<notin> set (a # as) \<longrightarrow> h' x = heap s x" using h'(4) by simp
    moreover have "\<forall>x\<in>set (a # as). \<exists>m. h' x = map_option (\<lambda>b. b\<lparr>pb_mem := m\<rparr>) (heap s x)"
    proof
      fix x assume x: "x \<in> set (a # as)"
      show "\<exists>m. h' x = map_option (\<lambda>b. b\<lparr>pb_mem := m\<rparr>) (heap s x)"
      proof (cases "x = a")
        case True
        then show ?thesis using ha b(2) b'(3) by (intro exI[of _ "pb_mem b'"]) simp
      next
        case False
        then show ?thesis using bspec[OF h'(5), of x] x by simp
      qed
    qed
    ultimately show ?thesis by blast
  qed
qed


lemma find_pbuf_spec:
  "packet (heap s) p as \<Longrightarrow> \<exists>q off' bs. find_pbuf s p off = Some (q, off') \<and> packet (heap s) q bs \<and>
     drop off' (contents (heap s) bs) = drop off (contents (heap s) as) \<and>
     (q = None \<longleftrightarrow> total_len (heap s) as \<le> off) \<and> off' \<le> off \<and>
     (\<forall>a b. q = Some a \<longrightarrow> heap s a = Some b \<longrightarrow> off' < pb_len b)"
proof (induction as arbitrary: p off)
  case Nil
  then show ?case by (subst find_pbuf.simps) (auto intro: exI[of _ "[]"])
next
  case (Cons a as)
  then obtain b where b: "p = Some a" "heap s a = Some b" "buf_ok b" "packet (heap s) (pb_next b) as" by auto
  show ?case
  proof (cases "pb_len b \<le> off")
    case True
    from Cons.IH[OF b(4), of "off - pb_len b"] obtain q off' bs where r:
      "find_pbuf s (pb_next b) (off - pb_len b) = Some (q, off')" "packet (heap s) q bs"
      "drop off' (contents (heap s) bs) = drop (off - pb_len b) (contents (heap s) as)"
      "q = None \<longleftrightarrow> total_len (heap s) as \<le> off - pb_len b" "off' \<le> off - pb_len b"
      "\<forall>a b. q = Some a \<longrightarrow> heap s a = Some b \<longrightarrow> off' < pb_len b" by blast
    have "find_pbuf s p off = Some (q, off')" using True b r(1) by (subst find_pbuf.simps) simp
    moreover have "drop off' (contents (heap s) bs) = drop off (contents (heap s) (a # as))" using r(3) b True by simp
    ultimately show ?thesis using r b(2) True by (intro exI[of _ q] exI[of _ off'] exI[of _ bs]) auto
  next
    case False
    then have "find_pbuf s p off = Some (p, off)" using b by (subst find_pbuf.simps) simp
    with False Cons.prems b show ?thesis by (intro exI[of _ p] exI[of _ off] exI[of _ "a # as"]) auto
  qed
qed

lemma pbuf_get_at_spec:
  assumes "packet (heap s) p as"
  shows "pbuf_get_at s p off = Some (if off < total_len (heap s) as then contents (heap s) as ! off else 0)"
proof -
  from find_pbuf_spec[OF assms, of off] obtain q off' bs where r:
    "find_pbuf s p off = Some (q, off')" "packet (heap s) q bs"
    "drop off' (contents (heap s) bs) = drop off (contents (heap s) as)"
    "q = None \<longleftrightarrow> total_len (heap s) as \<le> off"
    "\<forall>a b. q = Some a \<longrightarrow> heap s a = Some b \<longrightarrow> off' < pb_len b" by blast
  show ?thesis
  proof (cases q)
    case None
    with r show ?thesis by (simp add: pbuf_get_at_def)
  next
    case (Some a)
    with r(2) obtain cs b where b: "bs = a # cs" "heap s a = Some b" "buf_ok b" by (cases bs) auto
    have lt: "off' < pb_len b" using r(5) Some b(2) by blast
    have "off < length (contents (heap s) as)" using r(4) Some length_contents[OF assms] by auto
    then have "contents (heap s) as ! off = hd (drop off (contents (heap s) as))" by (simp add: hd_drop_conv_nth)
    also have "\<dots> = hd (drop off' (contents (heap s) bs))" by (simp add: r(3))
    also have "\<dots> = bytes b ! off'"
      using lt b by (simp add: hd_append hd_drop_conv_nth)
    finally have "contents (heap s) as ! off = bytes b ! off'" .
    moreover have "hd (take 1 (drop off' (bytes b))) = bytes b ! off'" using lt b(3) by (simp add: hd_drop_conv_nth)
    ultimately show ?thesis
      using r(1,4) Some b payload_read_ok[OF b(3), of off' 1] lt by (auto simp: pbuf_get_at_def)
  qed
qed

text \<open>Comparison at an offset: 0 for a match, otherwise the position of the first difference plus one.\<close>

fun first_diff :: "byte list \<Rightarrow> byte list \<Rightarrow> nat option" where
  "first_diff (x # xs) (y # ys) = (if x \<noteq> y then Some 0 else map_option Suc (first_diff xs ys))"
| "first_diff xs ys = None"

lemma first_diff_None: "length xs = length ys \<Longrightarrow> first_diff xs ys = None \<longleftrightarrow> xs = ys"
  by (induction xs ys rule: first_diff.induct) auto

lemma first_diff_less: "first_diff xs ys = Some i \<Longrightarrow> i < length xs"
  by (induction xs ys arbitrary: i rule: first_diff.induct) (auto split: if_splits)

lemma memcmp_loop_spec:
  assumes "packet (heap s) q bs" "start + i + length s2 \<le> total_len (heap s) bs" "total_len (heap s) bs < 2 ^ 16"
  shows "memcmp_loop s q start i s2 =
     Some (case first_diff (take (length s2) (drop (start + i) (contents (heap s) bs))) s2 of
             None \<Rightarrow> 0 | Some j \<Rightarrow> i + j + 1)"
  using assms(2)
proof (induction s2 arbitrary: i)
  case (Cons x s2)
  have lt: "start + i < total_len (heap s) bs" "start + i < length (contents (heap s) bs)"
    using Cons.prems length_contents[OF assms(1)] by simp_all
  then have w: "w16 (start + i) = start + i" using assms(3) by (simp add: w16_def)
  have i: "w16 (i + 1) = i + 1" using lt(1) assms(3) by (simp add: w16_def)
  have d: "take (length (x # s2)) (drop (start + i) (contents (heap s) bs)) =
      contents (heap s) bs ! (start + i) # take (length s2) (drop (start + (i + 1)) (contents (heap s) bs))"
    unfolding Cons_nth_drop_Suc[OF lt(2), symmetric] by simp
  show ?case
    unfolding d using Cons.IH[of "i + 1"] Cons.prems pbuf_get_at_spec[OF assms(1), of "start + i"] lt(1) w i
    by (auto split: option.splits)
qed simp

lemma pbuf_memcmp_spec:
  assumes "packet (heap s) p as" "off + length s2 \<le> total_len (heap s) as" "off < total_len (heap s) as"
    "total_len (heap s) as < 2 ^ 16"
  shows "pbuf_memcmp s p off s2 =
     Some (case first_diff (take (length s2) (drop off (contents (heap s) as))) s2 of None \<Rightarrow> 0 | Some j \<Rightarrow> j + 1)"
proof -
  from find_pbuf_spec[OF assms(1), of off] obtain q off' bs where r:
    "find_pbuf s p off = Some (q, off')" "packet (heap s) q bs"
    "drop off' (contents (heap s) bs) = drop off (contents (heap s) as)"
    "q = None \<longleftrightarrow> total_len (heap s) as \<le> off"
    "\<forall>a b. q = Some a \<longrightarrow> heap s a = Some b \<longrightarrow> off' < pb_len b" "off' \<le> off" by blast
  obtain a where a: "q = Some a" using r(4) assms(3) by (cases q) auto
  have len: "total_len (heap s) bs - off' = total_len (heap s) as - off"
    using arg_cong[OF r(3), of length] length_contents[OF assms(1)] length_contents[OF r(2)] by simp
  then have "off' + 0 + length s2 \<le> total_len (heap s) bs" "total_len (heap s) bs < 2 ^ 16"
    using assms(2-4) r(6) by linarith+
  from memcmp_loop_spec[OF r(2) this] show ?thesis
    using r(1,3) a by (auto simp: pbuf_memcmp_def split: option.splits)
qed


subsection \<open>Reference counting\<close>

text \<open>
  The effect of \<open>pbuf_free\<close> on a chain: the leading buffers with count 1 are deallocated, the
  first one with a higher count loses one reference, the rest is untouched.
\<close>

fun free_chain :: "pstate \<Rightarrow> addr list \<Rightarrow> pstate" where
  "free_chain s [] = s"
| "free_chain s (a # as) =
     (let b = the (heap s a)
      in if pb_ref b = 1 then free_chain (dealloc s a b) as else put s a (b\<lparr>pb_ref := pb_ref b - 1\<rparr>))"

lemma heap_dealloc [simp]: "heap (dealloc s a b) = (heap s)(a := None)"
  by (simp add: dealloc_def Let_def split: pbuf_type.splits)

text \<open>The leading buffers that lose their last reference.\<close>

definition dying :: "(addr \<rightharpoonup> pbuf) \<Rightarrow> addr list \<Rightarrow> addr list" where
  "dying h as = takeWhile (\<lambda>a. pb_ref (the (h a)) = 1) as"

lemma dying_upd: "a \<notin> set as \<Longrightarrow> dying (h(a := x)) as = dying h as"
  unfolding dying_def by (rule takeWhile_cong) auto

lemma free_loop_spec:
  assumes "chain (heap s) p as" "\<forall>a\<in>set as. 0 < pb_ref (the (heap s a))" "n + length as < 256"
  shows "free_loop s p n = Some (free_chain s as, n + length (dying (heap s) as))"
  using assms
proof (induction as arbitrary: s p n)
  case Nil
  then show ?case by (subst free_loop.simps) (simp add: dying_def)
next
  case (Cons a as)
  then obtain b where b: "p = Some a" "heap s a = Some b" "chain (heap s) (pb_next b) as" by auto
  have a: "a \<notin> set as" using chain_distinct[OF Cons.prems(1)] by simp
  show ?case
  proof (cases "pb_ref b = 1")
    case True
    let ?s = "dealloc s a b"
    have "chain (heap ?s) (pb_next b) as" using b(3) a by (subst chain_cong[of _ _ "heap s"]) auto
    moreover have "\<forall>x\<in>set as. 0 < pb_ref (the (heap ?s x))" using Cons.prems(2) a by auto
    moreover have "n + 1 + length as < 256" using Cons.prems(3) by simp
    ultimately have "free_loop ?s (pb_next b) (n + 1) = Some (free_chain ?s as, n + 1 + length (dying (heap ?s) as))"
      by (rule Cons.IH)
    moreover have "dying (heap ?s) as = dying (heap s) as" using a by (simp add: dying_upd)
    ultimately show ?thesis
      using True b Cons.prems(3) by (subst free_loop.simps) (simp add: dying_def)
  next
    case False
    then show ?thesis using b Cons.prems(2) by (subst free_loop.simps) (auto simp: dying_def Let_def)
  qed
qed

lemma pbuf_free_spec:
  assumes "chain (heap s) p as" "\<forall>a\<in>set as. 0 < pb_ref (the (heap s a))" "length as < 256"
  shows "pbuf_free s p = Some (free_chain s as, length (dying (heap s) as))"
proof (cases p)
  case None
  then have "as = []" using assms(1) by (cases as) auto
  with None show ?thesis by (simp add: pbuf_free_def dying_def)
next
  case (Some a)
  with free_loop_spec[OF assms(1,2), of 0] assms(3) show ?thesis by (simp add: pbuf_free_def)
qed

lemma heap_free_chain:
  assumes "distinct as"
  shows "heap (free_chain s as) x =
    (if x \<in> set (dying (heap s) as) then None
     else if \<exists>rest. drop (length (dying (heap s) as)) as = x # rest
     then Some ((the (heap s x))\<lparr>pb_ref := pb_ref (the (heap s x)) - 1\<rparr>)
     else heap s x)"
  using assms
proof (induction as arbitrary: s)
  case (Cons a as)
  show ?case
  proof (cases "pb_ref (the (heap s a)) = 1")
    case True
    let ?s = "dealloc s a (the (heap s a))"
    have d: "dying (heap ?s) as = dying (heap s) as" using Cons.prems by (simp add: dying_upd)
    have da: "dying (heap s) (a # as) = a # dying (heap s) as" using True by (simp add: dying_def)
    have sub: "set (dying (heap s) as) \<subseteq> set as" by (auto simp: dying_def dest: set_takeWhileD)
    have "x \<noteq> a" if "drop (length (dying (heap s) as)) as = x # rest" for rest
      using that Cons.prems by (metis distinct.simps(2) in_set_dropD list.set_intros(1))
    then show ?thesis
      using Cons.IH[of ?s] Cons.prems True sub unfolding d da by auto
  next
    case False
    then show ?thesis by (auto simp: dying_def Let_def)
  qed
qed (simp add: dying_def)

text \<open>The free list of the pool gets back the dying buffers that came from it.\<close>

lemma pool_free_chain:
  assumes "distinct as"
  shows "mset (pool (free_chain s as)) = mset (pool s) +
     mset (filter (\<lambda>a. pb_type (the (heap s a)) = PBUF_POOL \<and> \<not> pb_custom (the (heap s a))) (dying (heap s) as))"
  using assms
proof (induction as arbitrary: s)
  case (Cons a as)
  show ?case
  proof (cases "pb_ref (the (heap s a)) = 1")
    case True
    let ?s = "dealloc s a (the (heap s a))"
    let ?P = "\<lambda>h a. pb_type (the (h a)) = PBUF_POOL \<and> \<not> pb_custom (the (h a))"
    have d: "dying (heap ?s) as = dying (heap s) as" using Cons.prems by (simp add: dying_upd)
    have "filter (?P (heap ?s)) (dying (heap s) as) = filter (?P (heap s)) (dying (heap s) as)"
      using Cons.prems by (intro filter_cong refl) (auto simp: dying_def dest!: set_takeWhileD)
    moreover have "mset (pool ?s) = mset (pool s) + (if ?P (heap s) a then {#a#} else {#})"
      by (simp add: dealloc_def Let_def memp_free_def split: pbuf_type.splits)
    ultimately show ?thesis
      using Cons.IH[of ?s] Cons.prems True unfolding d by (simp add: dying_def Let_def)
  next
    case False
    then show ?thesis by (simp add: dying_def Let_def put_def)
  qed
qed (simp add: dying_def)

subsection \<open>Allocation from the pool\<close>

text \<open>The elements on the free list are not in use.\<close>

definition pool_ok :: "pstate \<Rightarrow> bool" where
  "pool_ok s \<longleftrightarrow> distinct (pool s) \<and> (\<forall>a\<in>set (pool s). heap s a = None)"

text \<open>A buffer of the pool that only its chain refers to.\<close>

definition pool_buf :: "pbuf \<Rightarrow> bool" where
  "pool_buf b \<longleftrightarrow> pb_type b = PBUF_POOL \<and> \<not> pb_custom b \<and> pb_ref b = 1"

text \<open>The number of buffers that \<open>n\<close> bytes take in the tail of a chain.\<close>

definition need :: "nat \<Rightarrow> nat" where
  "need n = (n + (PBUF_POOL_BUFSIZE - 1)) div PBUF_POOL_BUFSIZE"

lemma need_0 [simp]: "need 0 = 0"
  by (simp add: need_def PBUF_POOL_BUFSIZE_def)

lemma need_pos: "0 < n \<Longrightarrow> need n = Suc (need (n - min n PBUF_POOL_BUFSIZE))"
  by (auto simp: need_def PBUF_POOL_BUFSIZE_def min_def)

lemma chain_dom: "chain h p as \<Longrightarrow> a \<in> set as \<Longrightarrow> \<exists>b. h a = Some b"
  by (induction as arbitrary: p) auto

lemma chain_last: "chain h p (cs @ [r]) \<Longrightarrow> \<exists>rb. h r = Some rb \<and> pb_next rb = None"
  by (induction cs arbitrary: p) auto

lemma chain_snoc_upd:
  assumes "chain h p (cs @ [r])" "h r = Some rb" "q \<notin> set (cs @ [r])" "pb_next b = None"
  shows "chain (h(q \<mapsto> b, r \<mapsto> rb\<lparr>pb_next := Some q\<rparr>)) p (cs @ [r, q])"
  using assms chain_distinct[OF assms(1)]
proof (induction cs arbitrary: p)
  case (Cons c cs)
  then have "c \<noteq> q" "c \<noteq> r" by auto
  with Cons show ?case by auto
qed simp

lemma free_pool_chain:
  assumes "chain (heap s) p as" "\<forall>a\<in>set as. pool_buf (the (heap s a))" "length as < 256"
  shows "\<exists>s'. pbuf_free s p = Some (s', length as) \<and> mset (pool s') = mset (pool s) + mset as \<and>
    heap s' = (\<lambda>x. if x \<in> set as then None else heap s x)"
proof -
  have d: "dying (heap s) as = as" unfolding dying_def using assms(2) by (simp add: takeWhile_eq_all_conv pool_buf_def)
  have di: "distinct as" by (rule chain_distinct[OF assms(1)])
  have "filter (\<lambda>a. pb_type (the (heap s a)) = PBUF_POOL \<and> \<not> pb_custom (the (heap s a))) as = as"
    using assms(2) by (simp add: filter_id_conv pool_buf_def)
  with pool_free_chain[OF di, of s] d have "mset (pool (free_chain s as)) = mset (pool s) + mset as" by simp
  moreover have "heap (free_chain s as) = (\<lambda>x. if x \<in> set as then None else heap s x)"
    using heap_free_chain[OF di, of s] d by (intro ext) simp
  moreover have "pbuf_free s p = Some (free_chain s as, length as)"
    using pbuf_free_spec[OF assms(1) _ assms(3)] assms(2) d by (simp add: pool_buf_def)
  ultimately show ?thesis by blast
qed

lemma alloc_tail_spec:
  assumes "pool_ok s" "chain (heap s) (Some p) (cs @ [r])" "\<forall>a\<in>set (cs @ [r]). pool_buf (the (heap s a))"
    "n < 0xffff" "length cs + 1 + length (pool s) < 256"
  shows "if need n \<le> length (pool s)
    then \<exists>s' new. alloc_tail junk s p r n = Some (s', True) \<and> pool s = new @ pool s' \<and> length new = need n \<and>
      chain (heap s') (Some p) (cs @ r # new) \<and> (\<forall>a. a \<notin> set new \<and> a \<noteq> r \<longrightarrow> heap s' a = heap s a) \<and>
      (\<exists>b. heap s' r = Some b \<and> b = (the (heap s r))\<lparr>pb_next := pb_next b\<rparr> \<and> packet (heap s') (pb_next b) new) \<and>
      total_len (heap s') new = n \<and> (\<forall>a\<in>set new. pool_buf (the (heap s' a)))
    else \<exists>s'. alloc_tail junk s p r n = Some (s', False) \<and> mset (pool s') = mset (pool s) + mset (cs @ [r]) \<and>
      heap s' = (\<lambda>x. if x \<in> set (cs @ [r]) then None else heap s x)"
  using assms
proof (induction n arbitrary: s cs r rule: less_induct)
  case (less n)
  obtain rb where rb: "heap s r = Some rb" "pb_next rb = None"
    using chain_last[OF less.prems(2)] by blast
  show ?case
  proof (cases "n = 0")
    case True
    then have "alloc_tail junk s p r n = Some (s, True)" by (simp add: alloc_tail.simps)
    with True less.prems(2) rb show ?thesis by simp
  next
    case n: False
    show ?thesis
    proof (cases "pool s")
      case Nil
      from free_pool_chain[OF less.prems(2,3)] less.prems(5) obtain s' where
        "pbuf_free s (Some p) = Some (s', length (cs @ [r]))" "mset (pool s') = mset (pool s) + mset (cs @ [r])"
        "heap s' = (\<lambda>x. if x \<in> set (cs @ [r]) then None else heap s x)" by auto
      then show ?thesis using n Nil need_pos[of n] by (simp add: alloc_tail.simps memp_malloc_def)
    next
      case (Cons q tab)
      define k where "k = min n PBUF_POOL_BUFSIZE"
      define b where "b = \<lparr>pb_next = None, pb_mem = fresh_mem junk PBUF_POOL_BUFSIZE, pb_payload = 0,
                        pb_tot_len = n, pb_len = k, pb_type = PBUF_POOL, pb_custom = False, pb_ref = 1\<rparr>"
      define s1 where "s1 = put (put (s\<lparr>pool := tab\<rparr>) q b) r (rb\<lparr>pb_next := Some q\<rparr>)"
      have step: "alloc_tail junk s p r n = alloc_tail junk s1 p q (n - k)"
        using n Cons less.prems(4) rb
        by (subst alloc_tail.simps) (simp add: memp_malloc_def Let_def s1_def b_def k_def put_def)
      have qn: "heap s q = None" "q \<notin> set tab" using less.prems(1) Cons by (auto simp: pool_ok_def)
      have q: "q \<notin> set (cs @ [r])" using chain_dom[OF less.prems(2), of q] qn(1) by auto
      have h1: "heap s1 = (heap s)(q \<mapsto> b, r \<mapsto> rb\<lparr>pb_next := Some q\<rparr>)" "pool s1 = tab"
        by (simp_all add: s1_def put_def)
      have c1: "chain (heap s1) (Some p) ((cs @ [r]) @ [q])"
        using chain_snoc_upd[OF less.prems(2) rb(1) q, of b] by (simp add: h1 b_def)
      have rtab: "r \<notin> set tab" using less.prems(1) Cons rb(1) by (auto simp: pool_ok_def)
      have ok1: "pool_ok s1" using less.prems(1) Cons qn rtab by (auto simp: pool_ok_def h1)
      have pb1: "\<forall>a\<in>set ((cs @ [r]) @ [q]). pool_buf (the (heap s1 a))"
        using less.prems(3) rb(1) by (auto simp: h1 pool_buf_def b_def)
      have k0: "0 < k" "k \<le> n" using n by (auto simp: k_def PBUF_POOL_BUFSIZE_def)
      have nd: "need n = Suc (need (n - k))" using need_pos[of n] n by (simp add: k_def)
      have lt: "n - k < n" "n - k < 0xffff" "length (cs @ [r]) + 1 + length (pool s1) < 256"
        using k0 n less.prems(4,5) Cons h1(2) by auto
      note IH = less.IH[OF lt(1) ok1 c1 pb1 lt(2,3), unfolded h1(2)]
      show ?thesis
      proof (cases "need (n - k) \<le> length tab")
        case True
        with IH obtain s' new where N: "alloc_tail junk s1 p q (n - k) = Some (s', True)" "tab = new @ pool s'" "length new = need (n - k)"
          "chain (heap s') (Some p) ((cs @ [r]) @ q # new)" "\<And>a. a \<notin> set new \<Longrightarrow> a \<noteq> q \<Longrightarrow> heap s' a = heap s1 a"
          "\<exists>b. heap s' q = Some b \<and> b = (the (heap s1 q))\<lparr>pb_next := pb_next b\<rparr> \<and> packet (heap s') (pb_next b) new"
          "total_len (heap s') new = n - k" "\<forall>a\<in>set new. pool_buf (the (heap s' a))" by auto
        obtain b' where b': "heap s' q = Some b'" "b' = (the (heap s1 q))\<lparr>pb_next := pb_next b'\<rparr>" "packet (heap s') (pb_next b') new"
          using N(6) by blast
        have qr: "q \<noteq> r" using q by auto
        have bq: "b' = b\<lparr>pb_next := pb_next b'\<rparr>" using b'(2) qr by (simp add: h1)
        have f: "pb_len b' = k" "pb_tot_len b' = n" "pool_buf b'" "buf_ok b'"
          by (subst bq, simp add: b_def buf_ok_def pool_buf_def fresh_mem_def k_def)+
        have rn: "r \<notin> set new" using rtab N(2) by auto
        have hr: "heap s' r = Some (rb\<lparr>pb_next := Some q\<rparr>)" using N(5)[of r] rn qr by (simp add: h1)
        have pk: "packet (heap s') (Some q) (q # new)" using b' f N(7) k0 by auto
        have "alloc_tail junk s p r n = Some (s', True)" using step N(1) by simp
        moreover have "pool s = (q # new) @ pool s'" using Cons N(2) by simp
        moreover have "length (q # new) = need n" using N(3) nd by simp
        moreover have "\<forall>a. a \<notin> set (q # new) \<and> a \<noteq> r \<longrightarrow> heap s' a = heap s a" using N(5) by (simp add: h1)
        moreover have "\<exists>b. heap s' r = Some b \<and> b = (the (heap s r))\<lparr>pb_next := pb_next b\<rparr> \<and> packet (heap s') (pb_next b) (q # new)"
          using hr rb(1) pk by simp
        moreover have "total_len (heap s') (q # new) = n" using b'(1) f(1) N(7) k0 by simp
        moreover have "\<forall>a\<in>set (q # new). pool_buf (the (heap s' a))" using N(8) b'(1) f(3) by simp
        moreover have "chain (heap s') (Some p) (cs @ r # q # new)" using N(4) by simp
        moreover have "need n \<le> length (pool s)" using True nd Cons by simp
        ultimately show ?thesis by (simp only: if_True) blast
      next
        case False
        with IH obtain s' where "alloc_tail junk s1 p q (n - k) = Some (s', False)" "mset (pool s') = mset tab + mset ((cs @ [r]) @ [q])"
          "heap s' = (\<lambda>x. if x \<in> set ((cs @ [r]) @ [q]) then None else heap s1 x)" by auto
        moreover from this(3) have "heap s' = (\<lambda>x. if x \<in> set (cs @ [r]) then None else heap s x)"
          using qn(1) by (auto simp: h1)
        moreover have "\<not> need n \<le> length (pool s)" using False nd Cons by simp
        ultimately show ?thesis using step Cons by auto
      qed
    qed
  qed
qed


text \<open>The number of buffers of a packet.\<close>

definition head_len :: "pbuf_layer \<Rightarrow> nat \<Rightarrow> nat" where
  "head_len layer len = min len (PBUF_POOL_BUFSIZE - LWIP_MEM_ALIGN_SIZE (layer_offset layer))"

definition bufs_for :: "pbuf_layer \<Rightarrow> nat \<Rightarrow> nat" where
  "bufs_for layer len = 1 + need (len - head_len layer len)"

lemma pbuf_alloc_pool_spec:
  assumes ok: "pool_ok s" and len: "len < 2 ^ 16" and small: "length (pool s) < 256"
  shows "if bufs_for layer len \<le> length (pool s)
    then \<exists>s' p as. pbuf_alloc junk ram s layer len PBUF_POOL = Some (s', Some p) \<and> pool s = as @ pool s' \<and>
      packet (heap s') (Some p) as \<and> total_len (heap s') as = len \<and> (\<forall>a\<in>set as. pool_buf (the (heap s' a))) \<and>
      (\<forall>a. a \<notin> set as \<longrightarrow> heap s' a = heap s a)
    else \<exists>s'. pbuf_alloc junk ram s layer len PBUF_POOL = Some (s', None) \<and> mset (pool s') = mset (pool s) \<and> heap s' = heap s"
proof (cases "pool s")
  case Nil
  then show ?thesis by (simp add: pbuf_alloc_def memp_malloc_def bufs_for_def)
next
  case (Cons p tab)
  define n where "n = head_len layer len"
  define off where "off = LWIP_MEM_ALIGN_SIZE (layer_offset layer)"
  have off: "off \<le> 56" by (cases layer) (simp_all add: off_def LWIP_MEM_ALIGN_SIZE_def layer_offset_def)
  define b where "b = \<lparr>pb_next = None, pb_mem = fresh_mem junk PBUF_POOL_BUFSIZE, pb_payload = int off,
                        pb_tot_len = len, pb_len = n, pb_type = PBUF_POOL, pb_custom = False, pb_ref = 1\<rparr>"
  define s1 where "s1 = put (s\<lparr>pool := tab\<rparr>) p b"
  have pn: "heap s p = None" "p \<notin> set tab" using ok Cons by (auto simp: pool_ok_def)
  have h1: "heap s1 = (heap s)(p \<mapsto> b)" "pool s1 = tab" by (simp_all add: s1_def put_def)
  have ok1: "pool_ok s1" using ok Cons pn by (auto simp: pool_ok_def h1)
  have n: "n \<le> len" "n \<le> PBUF_POOL_BUFSIZE - off" by (simp_all add: n_def head_len_def off_def)
  have rest: "len - n < 0xffff" using len off by (auto simp: n_def head_len_def min_def PBUF_POOL_BUFSIZE_def simp flip: off_def)
  have al: "pbuf_alloc junk ram s layer len PBUF_POOL =
      do { (s, ok) \<leftarrow> alloc_tail junk s1 p p (len - n); Some (s, if ok then Some p else None) }"
    using Cons by (simp add: pbuf_alloc_def memp_malloc_def Let_def s1_def b_def n_def head_len_def off_def)
  note sp = alloc_tail_spec[OF ok1, of p "[]" p "len - n" junk, simplified, unfolded h1(2)]
  have pre: "chain (heap s1) (Some p) [p]" "pool_buf (the (heap s1 p))" by (simp_all add: h1 b_def pool_buf_def)
  show ?thesis
  proof (cases "need (len - n) \<le> length tab")
    case True
    with sp pre rest small Cons obtain s' new b' where N:
      "alloc_tail junk s1 p p (len - n) = Some (s', True)" "tab = new @ pool s'"
      "\<forall>a. a \<notin> set new \<and> a \<noteq> p \<longrightarrow> heap s' a = heap s1 a"
      "heap s' p = Some b'" "b' = (the (heap s1 p))\<lparr>pb_next := pb_next b'\<rparr>" "packet (heap s') (pb_next b') new"
      "total_len (heap s') new = len - n" "\<forall>a\<in>set new. pool_buf (the (heap s' a))"
      by (auto simp: h1 b_def)
    have bq: "b' = b\<lparr>pb_next := pb_next b'\<rparr>" using N(5) by (simp add: h1)
    have "n + off \<le> PBUF_POOL_BUFSIZE" using n(2) off by (simp add: PBUF_POOL_BUFSIZE_def)
    then have f: "pb_len b' = n" "pb_tot_len b' = len" "pool_buf b'" "buf_ok b'"
      by (subst bq, simp add: b_def buf_ok_def pool_buf_def fresh_mem_def)+
    have "packet (heap s') (Some p) (p # new)" using N(4,6,7) f n(1) by auto
    moreover have "total_len (heap s') (p # new) = len" using N(4,7) f(1) n(1) by simp
    moreover have "\<forall>a\<in>set (p # new). pool_buf (the (heap s' a))" using N(4,8) f(3) by simp
    moreover have "\<forall>a. a \<notin> set (p # new) \<longrightarrow> heap s' a = heap s a" using N(3) by (simp add: h1)
    moreover have "pool s = (p # new) @ pool s'" using Cons N(2) by simp
    moreover have "pbuf_alloc junk ram s layer len PBUF_POOL = Some (s', Some p)" using al N(1) by simp
    moreover have "bufs_for layer len \<le> length (pool s)" using True Cons by (simp add: bufs_for_def flip: n_def)
    ultimately show ?thesis by (simp only: if_True) blast
  next
    case False
    with sp pre rest small Cons obtain s' where "alloc_tail junk s1 p p (len - n) = Some (s', False)"
      "mset (pool s') = add_mset p (mset tab)" "heap s' = (\<lambda>x. if x = p then None else heap s1 x)"
      by (auto simp: h1 b_def)
    moreover from this(3) have "heap s' = heap s" using pn(1) by (auto simp: h1)
    moreover have "\<not> bufs_for layer len \<le> length (pool s)" using False Cons by (simp add: bufs_for_def flip: n_def)
    ultimately show ?thesis using al Cons by simp
  qed
qed

subsection \<open>Joining and shrinking chains\<close>

lemma packet_tot_len: "packet h (Some a) (a # as) \<Longrightarrow> h a = Some b \<Longrightarrow> pb_tot_len b = total_len h (a # as)"
  by auto

lemma cat_loop_spec:
  assumes "packet (heap s) (Some p) as" "packet (heap s) (Some t) ts" "set as \<inter> set ts = {}"
    "total_len (heap s) as + total_len (heap s) ts < 2 ^ 16"
  shows "\<exists>h'. cat_loop s p t = Some (s\<lparr>heap := h'\<rparr>) \<and> packet h' (Some p) (as @ ts) \<and>
    contents h' (as @ ts) = contents (heap s) as @ contents (heap s) ts \<and>
    (\<forall>a. a \<notin> set as \<longrightarrow> h' a = heap s a) \<and> (\<forall>a\<in>set as. pb_ref (the (h' a)) = pb_ref (the (heap s a)))"
  using assms
proof (induction as arbitrary: s p)
  case (Cons a as)
  then obtain b where b: "p = a" "heap s a = Some b" "buf_ok b" "pb_tot_len b = pb_len b + total_len (heap s) as"
    "packet (heap s) (pb_next b) as" by auto
  obtain tb ts' where t: "ts = t # ts'" "heap s t = Some tb" "pb_tot_len tb = total_len (heap s) ts"
    using Cons.prems(2) by (cases ts) auto
  have da: "a \<notin> set as" using chain_distinct[OF packet_chain[OF Cons.prems(1)]] by simp
  have at: "a \<notin> set ts" using Cons.prems(3) by simp
  define b' where "b' = b\<lparr>pb_tot_len := w16 (pb_tot_len b + pb_tot_len tb)\<rparr>"
  have w: "w16 (pb_tot_len b + pb_tot_len tb) = pb_tot_len b + total_len (heap s) ts"
    using Cons.prems(4) b(2,4) t(3) by (simp add: w16_def)
  show ?case
  proof (cases "pb_next b")
    case None
    then have as: "as = []" using b(5) by (cases as) auto
    define h' where "h' = (heap s)(a \<mapsto> b'\<lparr>pb_next := Some t\<rparr>)"
    have "cat_loop s p t = Some (s\<lparr>heap := h'\<rparr>)"
      using b t(2) None as by (subst cat_loop.simps) (simp add: put_def h'_def b'_def)
    moreover have "packet h' (Some t) ts" "contents h' ts = contents (heap s) ts" "total_len h' ts = total_len (heap s) ts"
      using Cons.prems(2) at by (simp_all add: h'_def packet_upd_other)
    moreover have ha: "h' a = Some (b'\<lparr>pb_next := Some t\<rparr>)" "\<forall>x. x \<noteq> a \<longrightarrow> h' x = heap s x" by (simp_all add: h'_def)
    moreover have "bytes (b'\<lparr>pb_next := Some t\<rparr>) = bytes b" "buf_ok (b'\<lparr>pb_next := Some t\<rparr>)"
      "pb_tot_len (b'\<lparr>pb_next := Some t\<rparr>) = pb_len b + total_len (heap s) ts" "pb_ref (b'\<lparr>pb_next := Some t\<rparr>) = pb_ref b"
      "pb_len (b'\<lparr>pb_next := Some t\<rparr>) = pb_len b"
      using b(3,4) w as by (simp_all add: b'_def bytes_def buf_ok_def)
    ultimately show ?thesis
      using b(1,2) as by (intro exI[of _ h']) simp
  next
    case (Some q)
    let ?s = "put s a b'"
    have pk: "packet (heap ?s) (Some q) as" "packet (heap ?s) (Some t) ts" "contents (heap ?s) as = contents (heap s) as"
      "contents (heap ?s) ts = contents (heap s) ts" "total_len (heap ?s) as = total_len (heap s) as"
      "total_len (heap ?s) ts = total_len (heap s) ts"
      using b(5) Some Cons.prems(2) da at by (simp_all add: packet_upd_other)
    have "set as \<inter> set ts = {}" "total_len (heap ?s) as + total_len (heap ?s) ts < 2 ^ 16"
      using Cons.prems(3,4) pk by auto
    from Cons.IH[OF pk(1,2) this] obtain h' where h': "cat_loop ?s q t = Some (?s\<lparr>heap := h'\<rparr>)" "packet h' (Some q) (as @ ts)"
      "contents h' (as @ ts) = contents (heap s) as @ contents (heap s) ts" "\<forall>x. x \<notin> set as \<longrightarrow> h' x = heap ?s x"
      "\<forall>x\<in>set as. pb_ref (the (h' x)) = pb_ref (the (heap ?s x))" unfolding pk by blast
    have ha: "h' a = Some b'" using h'(4) da by simp
    have tl: "total_len h' (as @ ts) = total_len (heap s) as + total_len (heap s) ts"
      using length_contents[OF h'(2)] h'(3) length_contents[OF b(5)] length_contents[OF Cons.prems(2)] by simp
    have "cat_loop s p t = Some (s\<lparr>heap := h'\<rparr>)"
      using b t(2) Some h'(1) by (subst cat_loop.simps) (simp add: put_def b'_def)
    moreover have "packet h' (Some p) ((a # as) @ ts)"
      using b(1,3,4) ha h'(2) tl w Some by (simp add: b'_def buf_ok_def)
    moreover have "contents h' ((a # as) @ ts) = contents (heap s) (a # as) @ contents (heap s) ts"
      using ha h'(3) b(2) by (simp add: b'_def bytes_def)
    moreover have "\<forall>x. x \<notin> set (a # as) \<longrightarrow> h' x = heap s x" using h'(4) by simp
    moreover have "\<forall>x\<in>set (a # as). pb_ref (the (h' x)) = pb_ref (the (heap s x))"
      using h'(5) ha b(2) da by (auto simp: b'_def)
    ultimately show ?thesis by blast
  qed
qed simp

text \<open>Hiding and revealing a header.\<close>

lemma pbuf_header_hide:
  assumes "buf_ok b" "n \<le> pb_len b" "pb_len b < 2 ^ 16" "pb_len b \<le> pb_tot_len b" "pb_tot_len b < 2 ^ 16"
  shows "\<exists>b'. pbuf_header b (- int n) = (b', True) \<and> buf_ok b' \<and> bytes b' = drop n (bytes b) \<and>
    b' = b\<lparr>pb_payload := pb_payload b + int n, pb_len := pb_len b - n, pb_tot_len := pb_tot_len b - n\<rparr>"
proof (cases "n = 0")
  case True
  with assms(1) show ?thesis by (simp add: pbuf_header_def)
next
  case False
  have l: "nat ((int (pb_len b) + - int n) mod 2 ^ 16) = pb_len b - n"
    using assms(2,3) by (simp add: mod_pos_pos_trivial nat_diff_distrib)
  have t: "nat ((int (pb_tot_len b) + - int n) mod 2 ^ 16) = pb_tot_len b - n"
    using assms(2,4,5) by (simp add: mod_pos_pos_trivial nat_diff_distrib)
  define b' where "b' = b\<lparr>pb_payload := pb_payload b + int n, pb_len := pb_len b - n, pb_tot_len := pb_tot_len b - n\<rparr>"
  have "pbuf_header b (- int n) = (b', True)"
    using False assms(1,2) l t by (cases "pb_type b") (auto simp: pbuf_header_def b'_def buf_ok_def)
  moreover have "buf_ok b'" using assms(1,2) by (auto simp: buf_ok_def b'_def nat_add_distrib)
  moreover have "bytes b' = drop n (bytes b)"
    using assms(1) by (simp add: bytes_def b'_def buf_ok_def nat_add_distrib drop_take add.commute)
  ultimately show ?thesis using b'_def by blast
qed

text \<open>A buffer cut to \<open>r\<close> bytes at the end of a packet.\<close>

definition cut_to :: "pbuf \<Rightarrow> nat \<Rightarrow> pbuf \<Rightarrow> bool" where
  "cut_to b r b' \<longleftrightarrow> buf_ok b' \<and> pb_len b' = r \<and> pb_tot_len b' = r \<and> pb_next b' = None \<and> bytes b' = take r (bytes b)"

lemma packet_buf_ok: "packet h p as \<Longrightarrow> a \<in> set as \<Longrightarrow> buf_ok (the (h a))"
  by (induction as arbitrary: p) auto

lemma realloc_skip_spec:
  assumes "packet (heap s) (Some q) as" "rem \<le> total_len (heap s) as" "total_len (heap s) as < 2 ^ 16"
    "grow = int rem - int (total_len (heap s) as)"
  shows "\<exists>h' xs q' ys r. realloc_skip s q rem grow = Some (s\<lparr>heap := h'\<rparr>, q', r) \<and> as = xs @ q' # ys \<and>
    r \<le> pb_len (the (heap s q')) \<and> (\<forall>a. a \<notin> set xs \<longrightarrow> h' a = heap s a) \<and> packet (heap s) (pb_next (the (heap s q'))) ys \<and>
    (\<forall>b'. cut_to (the (heap s q')) r b' \<longrightarrow> packet (h'(q' \<mapsto> b')) (Some q) (xs @ [q']) \<and>
       contents (h'(q' \<mapsto> b')) (xs @ [q']) = take rem (contents (heap s) as))"
  using assms
proof (induction as arbitrary: s q rem)
  case (Cons a as)
  then obtain b where b: "q = a" "heap s a = Some b" "buf_ok b" "pb_tot_len b = pb_len b + total_len (heap s) as"
    "packet (heap s) (pb_next b) as" by auto
  have da: "a \<notin> set as" using chain_distinct[OF packet_chain[OF Cons.prems(1)]] by simp
  show ?case
  proof (cases "pb_len b < rem")
    case False
    have "realloc_skip s q rem grow = Some (s\<lparr>heap := heap s\<rparr>, a, rem)"
      using False b(1,2) by (subst realloc_skip.simps) simp
    moreover have "packet ((heap s)(a \<mapsto> b')) (Some q) ([] @ [a]) \<and>
        contents ((heap s)(a \<mapsto> b')) ([] @ [a]) = take rem (contents (heap s) (a # as))" if "cut_to b rem b'" for b'
      using that False b(1,2,3) by (simp add: cut_to_def)
    ultimately show ?thesis
      using b False by (intro exI[of _ "heap s"] exI[of _ "[]"] exI[of _ a] exI[of _ as] exI[of _ rem]) simp
  next
    case True
    then obtain q2 as' where q2: "pb_next b = Some q2" "as = q2 # as'"
      using b(2,5) Cons.prems(2) by (cases as) auto
    define b1 where "b1 = b\<lparr>pb_tot_len := nat ((int (pb_tot_len b) + grow) mod 2 ^ 16)\<rparr>"
    have grow: "grow = int rem - int (pb_tot_len b)" using Cons.prems(4) b(2,4) by simp
    have rem: "rem < 2 ^ 16" using Cons.prems(2,3) by simp
    have b1: "b1 = b\<lparr>pb_tot_len := rem\<rparr>" unfolding b1_def grow using rem by simp
    let ?s = "put s a b1"
    have pk: "packet (heap ?s) (Some q2) as" "contents (heap ?s) as = contents (heap s) as" "total_len (heap ?s) as = total_len (heap s) as"
      using b(5) q2(1) da by (simp_all add: packet_upd_other)
    have "rem - pb_len b \<le> total_len (heap ?s) as" "total_len (heap ?s) as < 2 ^ 16"
      "grow = int (rem - pb_len b) - int (total_len (heap ?s) as)"
      using Cons.prems(2-4) b(2) True pk(3) by auto
    from Cons.IH[OF pk(1) this] obtain h' xs q' ys r where R:
      "realloc_skip ?s q2 (rem - pb_len b) grow = Some (?s\<lparr>heap := h'\<rparr>, q', r)" "as = xs @ q' # ys"
      "r \<le> pb_len (the (heap ?s q'))" "\<forall>x. x \<notin> set xs \<longrightarrow> h' x = heap ?s x"
      "packet (heap ?s) (pb_next (the (heap ?s q'))) ys"
      "\<forall>b'. cut_to (the (heap ?s q')) r b' \<longrightarrow> packet (h'(q' \<mapsto> b')) (Some q2) (xs @ [q']) \<and>
         contents (h'(q' \<mapsto> b')) (xs @ [q']) = take (rem - pb_len b) (contents (heap ?s) as)" by blast
    have aq: "a \<noteq> q'" "a \<notin> set xs" "a \<notin> set ys" using da R(2) by auto
    have ha: "h' a = Some b1" using R(4) aq(2) by simp
    have "realloc_skip s q rem grow = Some (s\<lparr>heap := h'\<rparr>, q', r)"
      using True b(1,2) q2(1) R(1) by (subst realloc_skip.simps) (simp add: put_def b1_def)
    moreover have "packet (h'(q' \<mapsto> b')) (Some q) ((a # xs) @ [q']) \<and>
        contents (h'(q' \<mapsto> b')) ((a # xs) @ [q']) = take rem (contents (heap s) (a # as))"
      if c: "cut_to (the (heap s q')) r b'" for b'
    proof -
      have p: "packet (h'(q' \<mapsto> b')) (Some q2) (xs @ [q'])"
        "contents (h'(q' \<mapsto> b')) (xs @ [q']) = take (rem - pb_len b) (contents (heap s) as)"
        using R(6) c aq(1) pk(2) by auto
      have "total_len (h'(q' \<mapsto> b')) (xs @ [q']) = rem - pb_len b"
        using length_contents[OF p(1)] p(2) length_contents[OF b(5)] Cons.prems(2) b(2) True by simp
      moreover have "buf_ok b1" "bytes b1 = bytes b" "pb_len b1 = pb_len b" "pb_next b1 = pb_next b" "pb_tot_len b1 = rem"
        using b(3) by (simp_all add: b1 buf_ok_def bytes_def)
      ultimately show ?thesis
        using p ha aq(1) b(1,2,3) q2(1) True by simp
    qed
    moreover have "packet (heap s) (pb_next (the (heap s q'))) ys"
      using R(5) aq by (simp add: packet_upd_other)
    moreover have "a # as = (a # xs) @ q' # ys" "r \<le> pb_len (the (heap s q'))" "\<forall>x. x \<notin> set (a # xs) \<longrightarrow> h' x = heap s x"
      using R(2,3,4) aq by auto
    ultimately show ?thesis by blast
  qed
qed simp

lemma cut_trim:
  assumes "buf_ok b" "r \<le> pb_len b"
  defines "b1 \<equiv> (if pb_type b = PBUF_RAM \<and> r \<noteq> pb_len b
      then b\<lparr>pb_mem := take (nat (pb_payload b) + r) (pb_mem b)\<rparr> else b)\<lparr>pb_len := r, pb_tot_len := r\<rparr>"
  shows "cut_to b r (b1\<lparr>pb_next := None\<rparr>)" "pb_next b1 = pb_next b"
proof -
  have "take r (take r' xs) = take r xs" if "r \<le> r'" for r' and xs :: "byte list" using that by (simp add: min_def)
  then show "cut_to b r (b1\<lparr>pb_next := None\<rparr>)" "pb_next b1 = pb_next b"
    using assms(1,2) by (auto simp: b1_def cut_to_def buf_ok_def bytes_def drop_take)
qed

lemma pbuf_realloc_spec:
  assumes pk: "packet (heap s) (Some p) as" and tot: "total_len (heap s) as < 2 ^ 16" and len: "length as < 256"
    and refs: "\<forall>a\<in>set as. 0 < pb_ref (the (heap s a))"
  shows "\<exists>s' xs ys. pbuf_realloc s p n = Some s' \<and> as = xs @ ys \<and> packet (heap s') (Some p) xs \<and>
    contents (heap s') xs = take n (contents (heap s) as)"
proof -
  obtain b as' where b: "as = p # as'" "heap s p = Some b" "pb_tot_len b = total_len (heap s) as"
    using pk by (cases as) auto
  show ?thesis
  proof (cases "pb_tot_len b \<le> n")
    case True
    with b pk show ?thesis
      using length_contents[OF pk] by (intro exI[of _ s] exI[of _ as] exI[of _ "[]"]) (simp add: pbuf_realloc_def)
  next
    case False
    then have n: "n \<le> total_len (heap s) as" using b(3) by simp
    from realloc_skip_spec[OF pk n tot refl] obtain h' xs q ys r where R:
      "realloc_skip s p n (int n - int (total_len (heap s) as)) = Some (s\<lparr>heap := h'\<rparr>, q, r)" "as = xs @ q # ys"
      "r \<le> pb_len (the (heap s q))" "\<forall>a. a \<notin> set xs \<longrightarrow> h' a = heap s a" "packet (heap s) (pb_next (the (heap s q))) ys"
      "\<forall>b'. cut_to (the (heap s q)) r b' \<longrightarrow> packet (h'(q \<mapsto> b')) (Some p) (xs @ [q]) \<and>
         contents (h'(q \<mapsto> b')) (xs @ [q]) = take n (contents (heap s) as)" by blast
    have di: "distinct as" by (rule chain_distinct[OF packet_chain[OF pk]])
    then have dq: "q \<notin> set xs" "q \<notin> set ys" "set xs \<inter> set ys = {}" using R(2) by auto
    obtain bq where bq: "heap s q = Some bq" using chain_dom[OF packet_chain[OF pk], of q] R(2) by auto
    have ok: "buf_ok bq"
    proof -
      show ?thesis using packet_buf_ok[OF pk, of q] R(2) bq by simp
    qed
    define b0 where "b0 = (if pb_type bq = PBUF_RAM \<and> r \<noteq> pb_len bq
      then bq\<lparr>pb_mem := take (nat (pb_payload bq) + r) (pb_mem bq)\<rparr> else bq)"
    define b1 where "b1 = b0\<lparr>pb_len := r, pb_tot_len := r\<rparr>"
    have nx: "pb_next b0 = pb_next b1" by (simp add: b1_def)
    have rl: "r \<le> pb_len bq" using R(3) bq by simp
    note ct = cut_trim[OF ok rl, folded b0_def, folded b1_def]
    define s2 where "s2 = put (s\<lparr>heap := h'\<rparr>) q b1"
    have h2: "heap s2 = h'(q \<mapsto> b1)" by (simp add: s2_def)
    have free: "\<exists>s3 k. (case pb_next b1 of None \<Rightarrow> Some (s2, 0) | Some r \<Rightarrow> pbuf_free s2 (Some r)) = Some (s3, k) \<and>
        (\<forall>a. a \<notin> set ys \<longrightarrow> heap s3 a = heap s2 a)"
    proof (cases "pb_next bq")
      case None
      then show ?thesis using ct(2) by simp
    next
      case (Some t)
      have same: "\<And>a. a \<in> set ys \<Longrightarrow> heap s2 a = heap s a" using R(4) dq h2 by auto
      have "chain (heap s2) (Some t) ys"
        using packet_chain[OF R(5)] bq Some same chain_cong[of ys "heap s2" "heap s"] by simp
      moreover have "\<forall>a\<in>set ys. 0 < pb_ref (the (heap s2 a))" using refs R(2) same by auto
      moreover have "length ys < 256" using len R(2) by simp
      ultimately have f: "pbuf_free s2 (Some t) = Some (free_chain s2 ys, length (dying (heap s2) ys))"
        by (rule pbuf_free_spec)
      have "heap (free_chain s2 ys) a = heap s2 a" if "a \<notin> set ys" for a
      proof -
        have "a \<notin> set (dying (heap s2) ys)" using that by (auto simp: dying_def dest: set_takeWhileD)
        moreover have "\<not> (\<exists>rest. drop (length (dying (heap s2) ys)) ys = a # rest)"
          using that by (metis in_set_dropD list.set_intros(1))
        ultimately show ?thesis using heap_free_chain[of ys s2 a] di R(2) by simp
      qed
      with f Some ct(2) show ?thesis by auto
    qed
    then obtain s3 k where s3: "(case pb_next b1 of None \<Rightarrow> Some (s2, 0) | Some r \<Rightarrow> pbuf_free s2 (Some r)) = Some (s3, k)"
      "\<And>a. a \<notin> set ys \<Longrightarrow> heap s3 a = heap s2 a" by blast
    define s4 where "s4 = put s3 q (b1\<lparr>pb_next := None\<rparr>)"
    have h3: "heap s3 q = Some b1" using s3(2) dq(2) h2 by simp
    have run: "pbuf_realloc s p n = Some s4"
      using b False R(1,4) dq(1) bq s3(1) h3
      by (cases "pb_next b1") (simp_all add: pbuf_realloc_def s4_def Let_def nx b0_def[symmetric] b1_def[symmetric] s2_def[symmetric] split del: if_split)
    have agree: "heap s4 a = (h'(q \<mapsto> b1\<lparr>pb_next := None\<rparr>)) a" if "a \<in> set (xs @ [q])" for a
    proof (cases "a = q")
      case True
      then show ?thesis by (simp add: s4_def)
    next
      case False
      then have "a \<notin> set ys" using that dq(3) by auto
      from s3(2)[OF this] False show ?thesis by (simp add: s4_def h2)
    qed
    have "packet (heap s4) (Some p) (xs @ [q])" "contents (heap s4) (xs @ [q]) = take n (contents (heap s) as)"
      using R(6)[rule_format, of "b1\<lparr>pb_next := None\<rparr>"] ct(1) bq packet_cong[of "xs @ [q]" "heap s4", OF agree]
        contents_cong[of "xs @ [q]" "heap s4", OF agree]
      by (simp_all only: option.sel)
    with run R(2) show ?thesis by (intro exI[of _ s4] exI[of _ "xs @ [q]"] exI[of _ ys]) simp
  qed
qed


subsection \<open>Properties\<close>

text \<open>A packet allocated from the pool and filled.\<close>

lemma alloc_take_spec:
  assumes "pool_ok s" "length (pool s) < 256" "length data < 2 ^ 16" "bufs_for layer (length data) \<le> length (pool s)"
  shows "\<exists>s1 p s2 as. pbuf_alloc junk ram s layer (length data) PBUF_POOL = Some (s1, Some p) \<and>
    pbuf_take s1 (Some p) data = Some (s2, ERR_OK) \<and> packet (heap s2) (Some p) as \<and> contents (heap s2) as = data \<and>
    pool s = as @ pool s2 \<and> pool s1 = pool s2 \<and> (\<forall>a\<in>set as. pool_buf (the (heap s2 a)) \<and> heap s a = None) \<and>
    (\<forall>a. a \<notin> set as \<longrightarrow> heap s2 a = heap s a)"
proof -
  from pbuf_alloc_pool_spec[OF assms(1,3,2), of layer junk ram] assms(4) obtain s1 p as where A:
    "pbuf_alloc junk ram s layer (length data) PBUF_POOL = Some (s1, Some p)" "pool s = as @ pool s1"
    "packet (heap s1) (Some p) as" "total_len (heap s1) as = length data" "\<forall>a\<in>set as. pool_buf (the (heap s1 a))"
    "\<forall>a. a \<notin> set as \<longrightarrow> heap s1 a = heap s a" by auto
  from A(3) obtain b where b: "heap s1 p = Some b" "pb_tot_len b = length data"
    using A(4) by (cases as) auto
  from take_loop_spec[OF A(3), of data] A(4) obtain h where h: "take_loop s1 (Some p) data = Some (s1\<lparr>heap := h\<rparr>)"
    "packet h (Some p) as" "contents h as = data @ drop (length data) (contents (heap s1) as)"
    "\<forall>a. a \<notin> set as \<longrightarrow> h a = heap s1 a" "\<forall>a\<in>set as. \<exists>m. h a = map_option (\<lambda>b. b\<lparr>pb_mem := m\<rparr>) (heap s1 a)"
    by auto
  have c: "contents h as = data" using h(3) length_contents[OF A(3)] A(4) by simp
  have t: "pbuf_take s1 (Some p) data = Some (s1\<lparr>heap := h\<rparr>, ERR_OK)" using b h(1) by (simp add: pbuf_take_def)
  have "pool_buf (the (h a)) \<and> heap s a = None" if a: "a \<in> set as" for a
  proof -
    from h(5) a obtain m where "h a = map_option (\<lambda>b. b\<lparr>pb_mem := m\<rparr>) (heap s1 a)" by blast
    moreover from chain_dom[OF packet_chain[OF A(3)] a] obtain b where "heap s1 a = Some b" by blast
    moreover have "heap s a = None" using assms(1) A(2) a by (auto simp: pool_ok_def)
    ultimately show ?thesis using A(5) a by (auto simp: pool_buf_def)
  qed
  moreover have "\<forall>a. a \<notin> set as \<longrightarrow> h a = heap s a" using h(4) A(6) by simp
  ultimately show ?thesis
    using A(1,2) t h(2) c by (intro exI[of _ s1] exI[of _ p] exI[of _ "s1\<lparr>heap := h\<rparr>"] exI[of _ as]) simp
qed

text \<open>
  C24. The life of a packet.  When the pool has enough free buffers, allocating a packet, filling
  it with \<open>pbuf_take\<close> and reading any part of it back with \<open>pbuf_copy_partial\<close> returns the
  data, and \<open>pbuf_free\<close> then gives exactly the allocated buffers back: the pool and the heap are
  as before.
\<close>

theorem pbuf_life_cycle:
  assumes "pool_ok s" "length (pool s) < 256" "length data < 2 ^ 16" "bufs_for layer (length data) \<le> length (pool s)"
  shows "\<exists>s1 p s2 s3. pbuf_alloc junk ram s layer (length data) PBUF_POOL = Some (s1, Some p) \<and>
    pbuf_take s1 (Some p) data = Some (s2, ERR_OK) \<and>
    (\<forall>n off. pbuf_copy_partial s2 (Some p) n off = Some (take n (drop off data))) \<and>
    pbuf_free s2 (Some p) = Some (s3, length (pool s) - length (pool s1)) \<and>
    mset (pool s3) = mset (pool s) \<and> heap s3 = heap s"
proof -
  from alloc_take_spec[OF assms, of junk ram] obtain s1 p s2 as where A:
    "pbuf_alloc junk ram s layer (length data) PBUF_POOL = Some (s1, Some p)" "pbuf_take s1 (Some p) data = Some (s2, ERR_OK)"
    "packet (heap s2) (Some p) as" "contents (heap s2) as = data" "pool s = as @ pool s2" "pool s1 = pool s2"
    "\<forall>a\<in>set as. pool_buf (the (heap s2 a)) \<and> heap s a = None" "\<forall>a. a \<notin> set as \<longrightarrow> heap s2 a = heap s a" by blast
  have r: "pbuf_copy_partial s2 (Some p) n off = Some (take n (drop off data))" for n off
    using copy_partial_loop_spec[OF A(3), of n off] A(4) by (simp add: pbuf_copy_partial_def)
  have "length as < 256" using A(5) assms(2) by simp
  with free_pool_chain[OF packet_chain[OF A(3)]] A(7) obtain s3 where
    "pbuf_free s2 (Some p) = Some (s3, length as)" "mset (pool s3) = mset (pool s2) + mset as"
    "heap s3 = (\<lambda>x. if x \<in> set as then None else heap s2 x)" by auto
  then have "heap s3 = heap s" "mset (pool s3) = mset (pool s)" "pbuf_free s2 (Some p) = Some (s3, length (pool s) - length (pool s1))"
    using A(5-8) by (auto simp: fun_eq_iff)
  with A(1,2) r show ?thesis by blast
qed

text \<open>The state after \<open>memp_init\<close>: every buffer of the pool is free.\<close>

definition pstate_init :: "addr \<Rightarrow> nat \<Rightarrow> addr \<Rightarrow> nat \<Rightarrow> pstate" where
  "pstate_init first n first' n' =
     \<lparr>heap = Map.empty, pool = memp_init first n, small = memp_init first' n', custom_freed = []\<rparr>"

lemma memp_init_eq: "memp_init first n = rev (map ((+) first) [0..<n])"
proof -
  have "foldl (\<lambda>tab j. (first + j) # tab) acc js = rev (map ((+) first) js) @ acc" for js acc
    by (induction js arbitrary: acc) auto
  then show ?thesis by (simp add: memp_init_def)
qed

lemma pstate_init_ok [simp]: "pool_ok (pstate_init first n first' n')" "length (pool (pstate_init first n first' n')) = n"
  by (simp_all add: pstate_init_def memp_init_eq pool_ok_def distinct_map)

theorem pbuf_life_cycle_witness:
  "\<exists>s1 p s2 s3. pbuf_alloc (\<lambda>_. 0) None (pstate_init 0 12 100 16) PBUF_TRANSPORT (length (replicate 1000 (7 :: byte))) PBUF_POOL = Some (s1, Some p) \<and>
    pbuf_take s1 (Some p) (replicate 1000 7) = Some (s2, ERR_OK) \<and>
    (\<forall>n off. pbuf_copy_partial s2 (Some p) n off = Some (take n (drop off (replicate 1000 7)))) \<and>
    pbuf_free s2 (Some p) = Some (s3, length (pool (pstate_init 0 12 100 16)) - length (pool s1)) \<and>
    mset (pool s3) = mset (pool (pstate_init 0 12 100 16)) \<and> heap s3 = heap (pstate_init 0 12 100 16)"
proof (rule pbuf_life_cycle)
  show "bufs_for PBUF_TRANSPORT (length (replicate 1000 (7 :: byte))) \<le> length (pool (pstate_init 0 12 100 16))"
    by (simp add: bufs_for_def need_def head_len_def LWIP_MEM_ALIGN_SIZE_def layer_offset_def PBUF_POOL_BUFSIZE_def)
qed simp_all

text \<open>
  \<open>pbuf_alloc\<close> from the pool succeeds exactly when the free elements suffice for the packet,
  and a failed allocation leaks nothing: what the loop had taken is back in the pool and the heap
  is unchanged.
\<close>

theorem pbuf_alloc_no_leak:
  assumes "pool_ok s" "length (pool s) < 256" "len < 2 ^ 16"
  shows "\<exists>s' r. pbuf_alloc junk ram s layer len PBUF_POOL = Some (s', r) \<and>
    (r = None \<longleftrightarrow> length (pool s) < bufs_for layer len) \<and> (r = None \<longrightarrow> mset (pool s') = mset (pool s) \<and> heap s' = heap s)"
  using pbuf_alloc_pool_spec[OF assms(1,3,2), of layer junk ram] by (auto split: if_splits)

theorem pbuf_alloc_no_leak_witness:
  "\<exists>s' r. pbuf_alloc (\<lambda>_. 0) None (pstate_init 0 2 100 16) PBUF_IP 2000 PBUF_POOL = Some (s', r) \<and>
    (r = None \<longleftrightarrow> length (pool (pstate_init 0 2 100 16)) < bufs_for PBUF_IP 2000) \<and>
    (r = None \<longrightarrow> mset (pool s') = mset (pool (pstate_init 0 2 100 16)) \<and> heap s' = heap (pstate_init 0 2 100 16))"
  by (rule pbuf_alloc_no_leak) simp_all

text \<open>
  \<open>pbuf_free\<close> on a chain: the leading buffers with a single reference are released and
  counted, the first one that is shared loses one reference and stops the walk, and every other
  buffer keeps its count.
\<close>

theorem pbuf_free_counts:
  assumes "chain (heap s) p as" "\<forall>a\<in>set as. 0 < pb_ref (the (heap s a))" "length as < 256"
  shows "\<exists>s'. pbuf_free s p = Some (s', length (dying (heap s) as)) \<and>
    (\<forall>x. heap s' x =
      (if x \<in> set (dying (heap s) as) then None
       else if \<exists>rest. drop (length (dying (heap s) as)) as = x # rest
       then Some ((the (heap s x))\<lparr>pb_ref := pb_ref (the (heap s x)) - 1\<rparr>) else heap s x))"
  using pbuf_free_spec[OF assms] heap_free_chain[OF chain_distinct[OF assms(1)], of s] by blast

text \<open>Example (1->1->2): the first two buffers go, the third stays with one reference.\<close>

definition link :: "addr option \<Rightarrow> byte list \<Rightarrow> nat \<Rightarrow> nat \<Rightarrow> pbuf" where
  "link nx xs tot r = \<lparr>pb_next = nx, pb_mem = xs, pb_payload = 0, pb_tot_len = tot, pb_len = length xs,
     pb_type = PBUF_POOL, pb_custom = False, pb_ref = r\<rparr>"

definition heap3 :: pstate where
  "heap3 = \<lparr>heap = [1 \<mapsto> link (Some 2) [97] 3 1, 2 \<mapsto> link (Some 3) [97] 2 1, 3 \<mapsto> link None [98] 1 2],
     pool = [], small = [], custom_freed = []\<rparr>"

theorem pbuf_free_counts_witness:
  "\<exists>s'. pbuf_free heap3 (Some 1) = Some (s', length (dying (heap heap3) [1, 2, 3])) \<and>
    (\<forall>x. heap s' x =
      (if x \<in> set (dying (heap heap3) [1, 2, 3]) then None
       else if \<exists>rest. drop (length (dying (heap heap3) [1, 2, 3])) [1, 2, 3] = x # rest
       then Some ((the (heap heap3 x))\<lparr>pb_ref := pb_ref (the (heap heap3 x)) - 1\<rparr>) else heap heap3 x))"
  by (rule pbuf_free_counts) (simp_all add: heap3_def link_def)

text \<open>
  \<open>pbuf_realloc\<close> keeps the first bytes: the packet it leaves is well formed, holds the first
  \<open>n\<close> bytes of what it held and is made of its leading buffers.
\<close>

theorem pbuf_realloc_correct:
  assumes "packet (heap s) (Some p) as" "total_len (heap s) as < 2 ^ 16" "length as < 256"
    "\<forall>a\<in>set as. 0 < pb_ref (the (heap s a))"
  shows "\<exists>s' xs ys. pbuf_realloc s p n = Some s' \<and> as = xs @ ys \<and> packet (heap s') (Some p) xs \<and>
    contents (heap s') xs = take n (contents (heap s) as)"
  using pbuf_realloc_spec[OF assms] .

theorem pbuf_realloc_correct_witness:
  "\<exists>s' xs ys. pbuf_realloc heap3 1 2 = Some s' \<and> [1, 2, 3] = xs @ ys \<and> packet (heap s') (Some 1) xs \<and>
    contents (heap s') xs = take 2 (contents (heap heap3) [1, 2, 3])"
  by (rule pbuf_realloc_correct) (simp_all add: heap3_def link_def buf_ok_def)


subsection \<open>Searching a packet\<close>

lemma memfind_loop_returns:
  assumes "packet (heap s) (Some p) as" "total_len (heap s) as < 2 ^ 16" "mem \<noteq> []" "m + length mem = total_len (heap s) as"
  shows "\<exists>r. memfind_loop s p mem m i = Some r \<and>
    (r \<noteq> 0xffff \<longrightarrow> i \<le> r \<and> take (length mem) (drop r (contents (heap s) as)) = mem)"
proof (induction "Suc m - i" arbitrary: i rule: less_induct)
  case less
  show ?case
  proof (cases "m < i")
    case True
    then show ?thesis by (subst memfind_loop.simps) simp
  next
    case False
    then have le: "i + length mem \<le> total_len (heap s) as" "i < total_len (heap s) as" using assms(4) length_greater_0_conv[THEN iffD2, OF assms(3)] by linarith+
    let ?xs = "take (length mem) (drop i (contents (heap s) as))"
    have len: "length ?xs = length mem" using le length_contents[OF assms(1)] by simp
    note c = pbuf_memcmp_spec[OF assms(1) le assms(2)]
    show ?thesis
    proof (cases "first_diff ?xs mem")
      case None
      with first_diff_None[OF len] have "?xs = mem" by simp
      with None c False show ?thesis by (subst memfind_loop.simps) simp
    next
      case (Some j)
      have "j < length mem" using first_diff_less[OF Some] len by simp
      then have w: "w16 (i + (j + 1)) = i + (j + 1)" using le assms(2) by (simp add: w16_def)
      have run: "memfind_loop s p mem m i = memfind_loop s p mem m (i + (j + 1))"
        using c Some False w by (subst memfind_loop.simps) simp
      have "Suc m - (i + (j + 1)) < Suc m - i" using False by simp
      from less[OF this] show ?thesis unfolding run by fastforce
    qed
  qed
qed

text \<open>
  \<open>pbuf_memfind\<close> ends on every well-formed packet, and an index it returns is an occurrence of
  the pattern at or after the start offset.
\<close>

theorem pbuf_memfind_sound:
  assumes "packet (heap s) (Some p) as" "total_len (heap s) as < 2 ^ 16" "mem \<noteq> []"
  shows "\<exists>r. pbuf_memfind s p mem start = Some r \<and>
    (r \<noteq> 0xffff \<longrightarrow> start \<le> r \<and> take (length mem) (drop r (contents (heap s) as)) = mem)"
proof -
  obtain b where b: "heap s p = Some b" "pb_tot_len b = total_len (heap s) as" using assms(1) by (cases as) auto
  show ?thesis
  proof (cases "length mem + start \<le> pb_tot_len b")
    case True
    then have "sub16 (pb_tot_len b) (length mem) = pb_tot_len b - length mem"
      using assms(2) b(2) by (simp add: sub16_def nat_diff_distrib)
    with True b memfind_loop_returns[OF assms, of "pb_tot_len b - length mem" start] show ?thesis
      by (simp add: pbuf_memfind_def)
  qed (use b in \<open>simp add: pbuf_memfind_def\<close>)
qed

text \<open>A packet of one buffer that holds \<open>aaab\<close>.\<close>

definition heap_aaab :: pstate where
  "heap_aaab = \<lparr>heap = [5 \<mapsto> link None [97, 97, 97, 98] 4 1], pool = [], small = [], custom_freed = []\<rparr>"

lemma heap_aaab_packet: "packet (heap heap_aaab) (Some 5) [5]" "total_len (heap heap_aaab) [5] = 4"
  "contents (heap heap_aaab) [5] = [97, 97, 97, 98]"
  by (simp_all add: heap_aaab_def link_def buf_ok_def bytes_def)

theorem pbuf_memfind_sound_witness:
  "\<exists>r. pbuf_memfind heap_aaab 5 [97, 98] 0 = Some r \<and>
    (r \<noteq> 0xffff \<longrightarrow> 0 \<le> r \<and> take (length [97, 98 :: byte]) (drop r (contents (heap heap_aaab) [5])) = [97, 98])"
  by (rule pbuf_memfind_sound) (simp_all add: heap_aaab_def link_def buf_ok_def)

text \<open>
  \<open>pbuf_memfind\<close> is not complete: it steps over the whole matching prefix after a mismatch,
  so it does not find \<open>aab\<close> in \<open>aaab\<close>, where the pattern stands at offset 1.
\<close>

theorem pbuf_memfind_incomplete:
  "pbuf_memfind heap_aaab 5 [97, 97, 98] 0 = Some 0xffff \<and>
   take 3 (drop 1 (contents (heap heap_aaab) [5])) = [97, 97, 98]"
proof -
  have "pbuf_memcmp heap_aaab (Some 5) 0 [97, 97, 98] = Some 3"
    using pbuf_memcmp_spec[OF heap_aaab_packet(1), of 0 "[97, 97, 98]"]
    unfolding heap_aaab_packet(2,3) by simp
  then have "memfind_loop heap_aaab 5 [97, 97, 98] 1 0 = Some 0xffff"
    by (subst memfind_loop.simps, simp, subst memfind_loop.simps) (simp add: w16_def)
  moreover have "heap heap_aaab 5 = Some (link None [97, 97, 97, 98] 4 1)" by (simp add: heap_aaab_def)
  ultimately show ?thesis
    unfolding heap_aaab_packet(3) by (simp add: pbuf_memfind_def link_def sub16_def)
qed

text \<open>
  Two packets joined by \<open>pbuf_cat\<close> are one well-formed packet that holds the bytes of the first and then
  those of the second, and no reference count changes.
\<close>

theorem pbuf_cat_correct:
  assumes "packet (heap s) (Some p) as" "packet (heap s) (Some t) ts" "set as \<inter> set ts = {}"
    "total_len (heap s) as + total_len (heap s) ts < 2 ^ 16"
  shows "\<exists>s'. pbuf_cat s (Some p) (Some t) = Some s' \<and> packet (heap s') (Some p) (as @ ts) \<and>
    contents (heap s') (as @ ts) = contents (heap s) as @ contents (heap s) ts \<and>
    (\<forall>a\<in>set (as @ ts). pb_ref (the (heap s' a)) = pb_ref (the (heap s a)))"
proof -
  from cat_loop_spec[OF assms] obtain h' where h: "cat_loop s p t = Some (s\<lparr>heap := h'\<rparr>)" "packet h' (Some p) (as @ ts)"
    "contents h' (as @ ts) = contents (heap s) as @ contents (heap s) ts"
    "\<forall>a. a \<notin> set as \<longrightarrow> h' a = heap s a" "\<forall>a\<in>set as. pb_ref (the (h' a)) = pb_ref (the (heap s a))" by blast
  have "\<forall>a\<in>set (as @ ts). pb_ref (the (h' a)) = pb_ref (the (heap s a))" using h(4,5) assms(3) by auto
  with h(1-3) show ?thesis by (simp add: pbuf_cat_def)
qed

definition heap_two :: pstate where
  "heap_two = \<lparr>heap = [1 \<mapsto> link (Some 2) [97] 2 1, 2 \<mapsto> link None [98] 1 1, 3 \<mapsto> link None [99] 1 2],
     pool = [], small = [], custom_freed = []\<rparr>"

theorem pbuf_cat_correct_witness:
  "\<exists>s'. pbuf_cat heap_two (Some 1) (Some 3) = Some s' \<and> packet (heap s') (Some 1) ([1, 2] @ [3]) \<and>
    contents (heap s') ([1, 2] @ [3]) = contents (heap heap_two) [1, 2] @ contents (heap heap_two) [3] \<and>
    (\<forall>a\<in>set ([1, 2] @ [3]). pb_ref (the (heap s' a)) = pb_ref (the (heap heap_two a)))"
  by (rule pbuf_cat_correct) (simp_all add: heap_two_def link_def buf_ok_def)

end
