(* ===== verification/Cstr.thy ===== *)
theory Cstr
  imports Pbuf
begin

text \<open>
  What the firmware uses of the C library on text: strings in memory that end with a NUL byte,
  \<open>strcpy\<close>, \<open>strcat\<close>, \<open>sprintf\<close> with \<open>%s\<close> and \<open>%04d\<close>, and \<open>strtol\<close> in base 10 for a 32-bit
  \<open>long\<close>.  Memory is a list of bytes; a result \<open>None\<close> is an access outside it.
\<close>

type_synonym ip_addr = "nat \<times> nat \<times> nat \<times> nat"

subsection \<open>Strings in memory\<close>

definition text_bytes :: "string \<Rightarrow> byte list" where
  "text_bytes s = map of_char s"

text \<open>The string that starts at the beginning of the memory.\<close>

fun cstr :: "byte list \<Rightarrow> byte list option" where
  "cstr [] = None"
| "cstr (c # m) = (if c = 0 then Some [] else do { s \<leftarrow> cstr m; Some (c # s) })"

definition strlen :: "byte list \<Rightarrow> nat option" where
  "strlen m = map_option length (cstr m)"

definition strcpy :: "byte list \<Rightarrow> byte list \<Rightarrow> byte list option" where
  "strcpy dst s = mem_write dst 0 (s @ [0])"

definition strcat :: "byte list \<Rightarrow> byte list \<Rightarrow> byte list option" where
  "strcat dst s = do { n \<leftarrow> strlen dst; mem_write dst n (s @ [0]) }"

lemma cstr_append: "0 \<notin> set s \<Longrightarrow> cstr (s @ 0 # m) = Some s"
  by (induction s) auto

lemma cstr_Some: "cstr m = Some s \<Longrightarrow> 0 \<notin> set s \<and> (\<exists>m'. m = s @ 0 # m')"
  by (induction m arbitrary: s) (auto split: if_splits bind_splits)

lemma strlen_append [simp]: "0 \<notin> set s \<Longrightarrow> strlen (s @ 0 # m) = Some (length s)"
  by (simp add: strlen_def cstr_append)

lemma strcpy_eq: "length s < length dst \<Longrightarrow> strcpy dst s = Some (s @ 0 # drop (Suc (length s)) dst)"
  by (simp add: strcpy_def mem_write_def)

lemma strcat_eq:
  assumes "0 \<notin> set s" "length t \<le> length m"
  shows "strcat (s @ 0 # m) t = Some ((s @ t) @ 0 # drop (length t) m)"
  using assms by (simp add: strcat_def mem_write_def)

subsection \<open>Formatted output\<close>

text \<open>\<open>%04d\<close> of a value that is not negative.\<close>

definition fmt_04d :: "nat \<Rightarrow> string" where
  "fmt_04d n = replicate (4 - length (dec_nat n)) CHR ''0'' @ dec_nat n"

lemma length_fmt_04d: "length (fmt_04d n) = max 4 (length (dec_nat n))"
  by (simp add: fmt_04d_def)

lemma unat_of_char [simp]: "unat (of_char c :: byte) = of_char c"
proof -
  have "unat (of_nat (of_char c) :: byte) = of_char c mod 256" by (rule unat_of_nat_byte)
  then show ?thesis by (simp only: of_nat_of_char of_char_mod_256)
qed

lemma of_char_eq_0 [simp]: "(of_char c :: byte) = 0 \<longleftrightarrow> c = CHR 0x00"
proof -
  have "(of_char c :: byte) = 0 \<longleftrightarrow> unat (of_char c :: byte) = 0" by (simp only: unat_eq_zero)
  also have "\<dots> \<longleftrightarrow> (of_char c :: nat) = of_char (CHR 0x00)" by simp
  finally show ?thesis by (simp only: of_char_eq_iff)
qed

lemma text_bytes_simps [simp]:
  "text_bytes [] = []" "text_bytes (c # s) = of_char c # text_bytes s"
  "text_bytes (s @ t) = text_bytes s @ text_bytes t" "length (text_bytes s) = length s"
  by (simp_all add: text_bytes_def)

lemma zero_text_bytes [simp]: "0 \<in> set (text_bytes s) \<longleftrightarrow> CHR 0x00 \<in> set s"
proof -
  have "0 \<in> set (text_bytes s) \<longleftrightarrow> (\<exists>c\<in>set s. (of_char c :: byte) = 0)" by (auto simp: text_bytes_def)
  then show ?thesis by simp
qed

lemma no_nul_digits: "list_all is_digit s \<Longrightarrow> CHR 0x00 \<notin> set s"
  by (auto simp: list_all_iff is_digit_def)

lemma no_nul_fmt_04d [simp]: "CHR 0x00 \<notin> set (fmt_04d n)"
  using no_nul_digits[OF dec_nat_digits] by (auto simp: fmt_04d_def)

subsection \<open>\<open>strtol\<close>\<close>

abbreviation LONG_MAX :: int where "LONG_MAX \<equiv> 2 ^ 31 - 1"
abbreviation LONG_MIN :: int where "LONG_MIN \<equiv> - (2 ^ 31)"

definition byte_digit :: "byte \<Rightarrow> bool" where
  "byte_digit b \<longleftrightarrow> 48 \<le> unat b \<and> unat b \<le> 57"

definition isspace :: "byte \<Rightarrow> bool" where
  "isspace b \<longleftrightarrow> unat b = 32 \<or> (9 \<le> unat b \<and> unat b \<le> 13)"

fun skip_space :: "byte list \<Rightarrow> byte list" where
  "skip_space (c # m) = (if isspace c then skip_space m else c # m)"
| "skip_space [] = []"

text \<open>The digits must be followed by another byte, which ends the number.\<close>

fun read_digits :: "nat \<Rightarrow> byte list \<Rightarrow> nat option" where
  "read_digits acc [] = None"
| "read_digits acc (c # m) = (if byte_digit c then read_digits (10 * acc + (unat c - 48)) m else Some acc)"

definition strtol :: "byte list \<Rightarrow> int option" where
  "strtol m =
     (case skip_space m of
        [] \<Rightarrow> None
      | c # m' \<Rightarrow>
          if unat c = 45 then do { n \<leftarrow> read_digits 0 m'; Some (max LONG_MIN (- int n)) }
          else if unat c = 43 then do { n \<leftarrow> read_digits 0 m'; Some (min LONG_MAX (int n)) }
          else do { n \<leftarrow> read_digits 0 (c # m'); Some (min LONG_MAX (int n)) })"

lemma byte_digit_of_char [simp]: "byte_digit (of_char c) \<longleftrightarrow> is_digit c"
  by (simp add: byte_digit_def is_digit_def)

lemma isspace_digit: "is_digit c \<Longrightarrow> \<not> isspace (of_char c)"
  by (auto simp: isspace_def is_digit_def)

lemma read_digits_text:
  "list_all is_digit s \<Longrightarrow> \<not> byte_digit c \<Longrightarrow>
   read_digits acc (text_bytes s @ c # m) = Some (foldl (\<lambda>a c. 10 * a + digit_val c) acc s)"
  by (induction s arbitrary: acc) (auto simp: digit_val_def)

lemma strtol_dec_nat:
  assumes "\<not> byte_digit c"
  shows "strtol (text_bytes (dec_nat n) @ c # m) = Some (min LONG_MAX (int n))"
proof -
  obtain d s where d: "dec_nat n = d # s" by (cases "dec_nat n") auto
  then have dig: "is_digit d" using dec_nat_digits[of n] by simp
  have "read_digits 0 (text_bytes (dec_nat n) @ c # m) = Some n"
    using read_digits_text[OF dec_nat_digits assms, of 0 n m] dec_val_dec_nat[of n] by (simp add: dec_val_def)
  moreover have "(of_char d :: nat) \<noteq> 45" "(of_char d :: nat) \<noteq> 43" using dig by (auto simp: is_digit_def)
  ultimately show ?thesis using isspace_digit[OF dig] by (simp add: strtol_def d)
qed

lemma strtol_minus:
  assumes "\<not> byte_digit c"
  shows "strtol (text_bytes (CHR ''-'' # dec_nat n) @ c # m) = Some (max LONG_MIN (- int n))"
proof -
  have "read_digits 0 (text_bytes (dec_nat n) @ c # m) = Some n"
    using read_digits_text[OF dec_nat_digits assms, of 0 n m] dec_val_dec_nat[of n] by (simp add: dec_val_def)
  then show ?thesis by (simp add: strtol_def isspace_def)
qed

end
