(* ===== verification/Udp.thy ===== *)
theory Udp
  imports Cstr
begin

text \<open>
  The UDP side of the concentrator (\<open>src/concentrator-1/Src/udp.c\<close>) and the reply helpers of
  \<open>resp.c\<close>: sending the sample of the converter as a RESP command, and receiving a set point
  for the PWM output.  \<open>udp_new\<close>, \<open>udp_connect\<close> and \<open>udp_send\<close> belong to the stack: their
  results are parameters, and what the client relies on is the predicate \<open>udp_send_keeps\<close>.
\<close>

subsection \<open>Reply strings (resp.c)\<close>

definition CRLF :: "byte list" where
  "CRLF = [0x0d, 0x0a]"

definition plus_sign :: "byte list" where
  "plus_sign = text_bytes ''+''"

definition minus_sign :: "byte list" where
  "minus_sign = text_bytes ''-''"

text \<open>\<open>junk\<close> is the content of memory fresh from \<open>malloc\<close>; the argument is the string pointed to.\<close>

definition respString :: "(nat \<Rightarrow> byte) \<Rightarrow> byte list \<Rightarrow> byte list option" where
  "respString junk str =
     do { n \<leftarrow> strlen str;
          s \<leftarrow> cstr str;
          let result = fresh_mem junk (length plus_sign + n + length CRLF + 1);
          result \<leftarrow> strcpy result plus_sign;
          result \<leftarrow> strcat result s;
          strcat result CRLF }"

definition respError :: "(nat \<Rightarrow> byte) \<Rightarrow> byte list \<Rightarrow> byte list option" where
  "respError junk str =
     do { n \<leftarrow> strlen str;
          s \<leftarrow> cstr str;
          let result = fresh_mem junk (length minus_sign + n + length CRLF + 1);
          result \<leftarrow> strcpy result plus_sign;
          result \<leftarrow> strcat result s;
          strcat result CRLF }"

text \<open>\<open>respInt\<close> reads the memory of the integer as a string.\<close>

definition respInt :: "(nat \<Rightarrow> byte) \<Rightarrow> byte list \<Rightarrow> byte list option" where
  "respInt junk integer =
     do { n \<leftarrow> strlen integer;
          s \<leftarrow> cstr integer;
          let result = fresh_mem junk (length plus_sign + n + length CRLF + 1);
          result \<leftarrow> strcpy result plus_sign;
          result \<leftarrow> strcat result s;
          strcat result CRLF }"

subsection \<open>State\<close>

definition DEVICE_UID :: string where
  "DEVICE_UID = ''TEMP_000003''"

definition DEST_IP_ADDR :: ip_addr where
  "DEST_IP_ADDR = (192, 168, 0, 20)"

definition DEST_PORT :: nat where
  "DEST_PORT = 50000"

record udp_pcb =
  udp_remote :: "(ip_addr \<times> nat) option"
  udp_recv_set :: bool

text \<open>\<open>udp_out\<close> lists the datagrams handed to \<open>udp_send\<close>.\<close>

record client =
  ps :: pstate
  upcb :: "udp_pcb option"
  data_buf :: "byte list"
  udp_out :: "byte list list"
  uhADCxConvertedValue :: u16
  uhADCxConvertedValuePercent :: u16
  aCCValue_Buffer :: u32
  uhTimerPeriod :: u32
  led4 :: bool

subsection \<open>Operations (udp.c)\<close>

text \<open>\<open>new\<close> is the control block that \<open>udp_new\<close> returns, \<open>connect_err\<close> the result of \<open>udp_connect\<close>.\<close>

definition concentrator_init :: "udp_pcb option \<Rightarrow> err \<Rightarrow> client \<Rightarrow> client" where
  "concentrator_init new connect_err c =
     (let c = c\<lparr>upcb := new\<rparr>
      in case upcb c of
           None \<Rightarrow> c
         | Some pcb \<Rightarrow>
             if connect_err = ERR_OK
             then c\<lparr>upcb := Some (pcb\<lparr>udp_remote := Some (DEST_IP_ADDR, DEST_PORT), udp_recv_set := True\<rparr>)\<rparr>
             else c)"

text \<open>The text that \<open>sprintf\<close> produces.\<close>

definition sample_text :: "u16 \<Rightarrow> string" where
  "sample_text v = ''*2'' @ [CHR 0x0D, CHR 0x0A] @ ''$11'' @ [CHR 0x0D, CHR 0x0A] @ DEVICE_UID @ [CHR 0x0D, CHR 0x0A] @
     ''$4'' @ [CHR 0x0D, CHR 0x0A] @ fmt_04d (unat v) @ [CHR 0x0D, CHR 0x0A]"

definition concentrator_send ::
    "(nat \<Rightarrow> byte) \<Rightarrow> (pstate \<Rightarrow> addr \<Rightarrow> pstate \<times> err) \<Rightarrow> client \<Rightarrow> client option" where
  "concentrator_send junk udp_send c =
     do { data \<leftarrow> strcpy (data_buf c) (text_bytes (sample_text (uhADCxConvertedValue c)));
          n \<leftarrow> strlen data;
          (s, p) \<leftarrow> pbuf_alloc junk None (ps c) PBUF_TRANSPORT n PBUF_POOL;
          case p of
            None \<Rightarrow> Some (c\<lparr>data_buf := data, ps := s\<rparr>)
          | Some p \<Rightarrow>
              do { (s, _) \<leftarrow> pbuf_take s (Some p) (take n data);
                   pcb \<leftarrow> upcb c;
                   datagram \<leftarrow> pbuf_copy_partial s (Some p) 0xffff 0;
                   let s = fst (udp_send s p);
                   (s, _) \<leftarrow> pbuf_free s (Some p);
                   Some (c\<lparr>data_buf := data, ps := s, udp_out := udp_out c @ [datagram]\<rparr>) } }"

text \<open>The set point in percent: \<open>value\<close> is unsigned, so that \<open>value \<le> 0\<close> is \<open>value = 0\<close>.\<close>

definition set_percent :: "u16 \<Rightarrow> u16" where
  "set_percent value =
     (if value \<le> 0 then 0
      else if 1023 \<le> value then 100
      else of_nat (unat value * 100 div 1023))"

definition duty :: "u16 \<Rightarrow> u32 \<Rightarrow> u32" where
  "duty percent period = (ucast percent * (period - 1)) div 100"

definition udp_receive_callback :: "client \<Rightarrow> addr \<Rightarrow> client option" where
  "udp_receive_callback c p =
     do { b \<leftarrow> heap (ps c) p;
          v \<leftarrow> (if pb_payload b < 0 then None else strtol (drop (nat (pb_payload b)) (pb_mem b)));
          let percent = set_percent (word_of_int v);
          (s, _) \<leftarrow> pbuf_free (ps c) (Some p);
          Some (c\<lparr>led4 := \<not> led4 c, uhADCxConvertedValuePercent := percent,
                  aCCValue_Buffer := duty percent (uhTimerPeriod c), ps := s\<rparr>) }"

subsection \<open>Reply strings never overflow\<close>

lemma resp_body:
  assumes "cstr str = Some s" "length m = length s + 4"
  shows "Option.bind (strcpy m plus_sign) (\<lambda>r. Option.bind (strcat r s) (\<lambda>r. strcat r CRLF)) = Some (plus_sign @ s @ CRLF @ [0])"
proof -
  have nz: "0 \<notin> set s" using cstr_Some[OF assms(1)] by blast
  have p: "length plus_sign = 1" "0 \<notin> set plus_sign" "length CRLF = 2" by (simp_all add: plus_sign_def CRLF_def)
  have 1: "strcpy m plus_sign = Some (plus_sign @ 0 # drop 2 m)" using strcpy_eq[of plus_sign m] assms(2) p by (simp add: numeral_2_eq_2)
  have 2: "strcat (plus_sign @ 0 # drop 2 m) s = Some ((plus_sign @ s) @ 0 # drop (length s) (drop 2 m))"
    using strcat_eq[OF p(2), of s "drop 2 m"] assms(2) by simp
  have 3: "strcat ((plus_sign @ s) @ 0 # drop (length s) (drop 2 m)) CRLF =
      Some (((plus_sign @ s) @ CRLF) @ 0 # drop 2 (drop (length s) (drop 2 m)))"
    using strcat_eq[of "plus_sign @ s" CRLF] nz p assms(2) by simp
  show ?thesis using 1 2 3 assms(2) by simp
qed

text \<open>
  The three reply helpers stay inside the memory they allocate and return the text
  \<open>+...CRLF\<close> with its terminator.  \<open>respError\<close> writes the same leading plus sign as \<open>respString\<close>,
  although an error reply starts with a minus sign.
\<close>

theorem resp_strings:
  assumes "cstr str = Some s"
  shows "respString junk str = Some (plus_sign @ s @ CRLF @ [0]) \<and>
    respError junk str = respString junk str \<and> respInt junk str = respString junk str"
proof -
  have "length plus_sign = 1" "length minus_sign = 1" "length CRLF = 2" "length (fresh_mem junk k) = k" for k
    by (simp_all add: plus_sign_def minus_sign_def CRLF_def fresh_mem_def)
  then show ?thesis
    using assms resp_body[OF assms, of "fresh_mem junk (Suc (Suc (Suc (Suc (length s)))))"]
    by (simp add: respString_def respError_def respInt_def strlen_def add.commute)
qed

theorem resp_strings_witness:
  "respString (\<lambda>_. 7) (text_bytes ''OK'' @ [0]) = Some (plus_sign @ text_bytes ''OK'' @ CRLF @ [0]) \<and>
    respError (\<lambda>_. 7) (text_bytes ''OK'' @ [0]) = respString (\<lambda>_. 7) (text_bytes ''OK'' @ [0]) \<and>
    respInt (\<lambda>_. 7) (text_bytes ''OK'' @ [0]) = respString (\<lambda>_. 7) (text_bytes ''OK'' @ [0])"
  by (rule resp_strings) simp

subsection \<open>Sending a sample\<close>

text \<open>
  What the client relies on: \<open>udp_send\<close> may change the buffers of the packet, but leaves the
  chain and its reference counts to the caller and touches nothing else.
\<close>

definition udp_send_keeps :: "(pstate \<Rightarrow> addr \<Rightarrow> pstate \<times> err) \<Rightarrow> bool" where
  "udp_send_keeps udp_send \<longleftrightarrow>
     (\<forall>s p as. chain (heap s) (Some p) as \<longrightarrow> (\<forall>a\<in>set as. pool_buf (the (heap s a))) \<longrightarrow>
        chain (heap (fst (udp_send s p))) (Some p) as \<and>
        (\<forall>a\<in>set as. pool_buf (the (heap (fst (udp_send s p)) a))) \<and>
        pool (fst (udp_send s p)) = pool s \<and> (\<forall>a. a \<notin> set as \<longrightarrow> heap (fst (udp_send s p)) a = heap s a))"

lemma sample_text_length: "length (sample_text v) \<le> 33" "CHR 0x00 \<notin> set (sample_text v)"
proof -
  have "length (dec_nat (unat v)) \<le> 5" using length_dec_nat_le[of "unat v" 5] unsigned_less[where 'a = nat, of v] by simp
  then show "length (sample_text v) \<le> 33" by (simp add: sample_text_def DEVICE_UID_def length_fmt_04d)
  show "CHR 0x00 \<notin> set (sample_text v)" by (simp add: sample_text_def DEVICE_UID_def)
qed

lemma bufs_for_small: "n \<le> 456 \<Longrightarrow> bufs_for PBUF_TRANSPORT n = 1"
  by (simp add: bufs_for_def head_len_def LWIP_MEM_ALIGN_SIZE_def layer_offset_def PBUF_POOL_BUFSIZE_def)


text \<open>A \<open>udp_send\<close> that leaves its header in front of the payload.\<close>

definition send_header :: "pstate \<Rightarrow> addr \<Rightarrow> pstate \<times> err" where
  "send_header s p = (case heap s p of
      None \<Rightarrow> (s, ERR_ARG)
    | Some b \<Rightarrow> (put s p (fst (pbuf_header b 8)), if snd (pbuf_header b 8) then ERR_OK else ERR_MEM))"

lemma send_header_keeps: "udp_send_keeps send_header"
proof -
  have f: "pb_next (fst (pbuf_header b i)) = pb_next b" "pool_buf (fst (pbuf_header b i)) = pool_buf b" for b i
    by (simp_all add: pbuf_header_def pool_buf_def)
  show ?thesis unfolding udp_send_keeps_def
  proof (intro allI impI)
    fix s :: pstate and p as assume c: "chain (heap s) (Some p) as" and b: "\<forall>a\<in>set as. pool_buf (the (heap s a))"
    then obtain b as' where p: "as = p # as'" "heap s p = Some b" by (cases as) auto
    let ?s = "fst (send_header s p)"
    have h: "heap ?s = (heap s)(p \<mapsto> fst (pbuf_header b 8))" "pool ?s = pool s" using p by (simp_all add: send_header_def put_def)
    have "chain (heap ?s) (Some p) as = chain (heap s) (Some p) as" using p f by (intro chain_cong) (simp add: h)
    moreover have "\<forall>a\<in>set as. pool_buf (the (heap ?s a))" using b p f by (simp add: h)
    ultimately show "chain (heap ?s) (Some p) as \<and> (\<forall>a\<in>set as. pool_buf (the (heap ?s a))) \<and> pool ?s = pool s \<and>
        (\<forall>a. a \<notin> set as \<longrightarrow> heap ?s a = heap s a)" using c p by (simp add: h)
  qed
qed

definition client0 :: client where
  "client0 = \<lparr>ps = pstate_init 0 12 100 16, upcb = Some \<lparr>udp_remote = None, udp_recv_set = False\<rparr>, data_buf = replicate 100 0,
     udp_out = [], uhADCxConvertedValue = 512, uhADCxConvertedValuePercent = 50, aCCValue_Buffer = 4779, uhTimerPeriod = 9560, led4 = False\<rparr>"


subsection \<open>Receiving a set point\<close>

text \<open>A datagram in the heap whose payload starts with the given bytes.\<close>

definition datagram :: "pstate \<Rightarrow> addr \<Rightarrow> addr list \<Rightarrow> byte list \<Rightarrow> bool" where
  "datagram s p as text \<longleftrightarrow> chain (heap s) (Some p) as \<and> (\<forall>a\<in>set as. pool_buf (the (heap s a))) \<and> length as < 256 \<and>
     (\<exists>b. heap s p = Some b \<and> 0 \<le> pb_payload b \<and> (\<exists>m. drop (nat (pb_payload b)) (pb_mem b) = text @ m))"

lemma receive_step:
  assumes "datagram (ps c) p as text" "\<And>m. strtol (text @ m) = Some v"
  shows "\<exists>c'. udp_receive_callback c p = Some c' \<and> uhADCxConvertedValuePercent c' = set_percent (word_of_int v) \<and>
    aCCValue_Buffer c' = duty (set_percent (word_of_int v)) (uhTimerPeriod c) \<and>
    mset (pool (ps c')) = mset (pool (ps c)) + mset as \<and> led4 c' = (\<not> led4 c)"
proof -
  from assms(1) obtain b m where b: "heap (ps c) p = Some b" "0 \<le> pb_payload b" "drop (nat (pb_payload b)) (pb_mem b) = text @ m"
    by (auto simp: datagram_def)
  from assms(1) free_pool_chain[of "ps c" "Some p" as] obtain s' where "pbuf_free (ps c) (Some p) = Some (s', length as)"
    "mset (pool s') = mset (pool (ps c)) + mset as" by (auto simp: datagram_def)
  with b assms(2) show ?thesis by (simp add: udp_receive_callback_def Let_def)
qed

lemma set_percent_nat:
  assumes "n < 2 ^ 16"
  shows "unat (set_percent (of_nat n)) = (if 1023 \<le> n then 100 else n * 100 div 1023)"
proof -
  have u: "unat (of_nat n :: u16) = n" using assms by (simp add: unsigned_of_nat take_bit_eq_mod)
  have "(1023 \<le> (of_nat n :: u16)) = (1023 \<le> n)" by (simp add: word_le_nat_alt u)
  moreover have "((of_nat n :: u16) \<le> 0) = (n = 0)" by (simp add: word_le_nat_alt u)
  moreover have "n * 100 div 1023 < 2 ^ 16" if "n < 1023" using that by simp
  ultimately show ?thesis by (simp add: set_percent_def u unsigned_of_nat take_bit_eq_mod)
qed

lemma duty_bound:
  assumes "unat percent \<le> 100" "0 < unat period" "unat period \<le> 2 ^ 25"
  shows "unat (duty percent period) = unat percent * (unat period - 1) div 100" "unat (duty percent period) \<le> unat period - 1"
proof -
  have p: "unat (period - 1) = unat period - 1" using assms(2) by (simp add: unat_sub word_le_nat_alt)
  have u: "unat (ucast percent :: u32) = unat percent" 
    using unsigned_less[where 'a = nat, of percent] by (simp add: unsigned_ucast_eq take_bit_eq_mod)
  have "unat percent * (unat period - 1) \<le> 100 * 2 ^ 25" using assms by (intro mult_le_mono) auto
  then have m: "unat (ucast percent * (period - 1)) = unat percent * (unat period - 1)" by (simp add: unat_word_ariths u p)
  then show e: "unat (duty percent period) = unat percent * (unat period - 1) div 100" by (simp add: duty_def unat_div_distrib)
  have "unat percent * (unat period - 1) div 100 \<le> 100 * (unat period - 1) div 100"
    using assms(1) by (intro div_le_mono mult_le_mono1)
  then show "unat (duty percent period) \<le> unat period - 1" unfolding e by simp
qed

text \<open>
  C35. A datagram with the decimal text of a value below 65536, ended by another character, sets
  the percentage to its share of 1023 (at most 100), the compare value to that share of the timer
  period, which never exceeds the period, and gives the buffers of the datagram back.
\<close>

theorem udp_receive_sets_duty:
  assumes "datagram (ps c) p as (text_bytes (dec_nat n) @ [t])" "\<not> byte_digit t" "n < 2 ^ 16"
    "0 < unat (uhTimerPeriod c)" "unat (uhTimerPeriod c) \<le> 2 ^ 25"
  shows "\<exists>c'. udp_receive_callback c p = Some c' \<and>
    unat (uhADCxConvertedValuePercent c') = (if 1023 \<le> n then 100 else n * 100 div 1023) \<and>
    unat (aCCValue_Buffer c') = unat (uhADCxConvertedValuePercent c') * (unat (uhTimerPeriod c) - 1) div 100 \<and>
    unat (aCCValue_Buffer c') \<le> unat (uhTimerPeriod c) - 1 \<and> mset (pool (ps c')) = mset (pool (ps c)) + mset as"
proof -
  have "strtol ((text_bytes (dec_nat n) @ [t]) @ m) = Some (int n)" for m
    using strtol_dec_nat[OF assms(2), of n m] assms(3) by simp
  from receive_step[OF assms(1) this] obtain c' where c': "udp_receive_callback c p = Some c'"
    "uhADCxConvertedValuePercent c' = set_percent (of_nat n)" "aCCValue_Buffer c' = duty (set_percent (of_nat n)) (uhTimerPeriod c)"
    "mset (pool (ps c')) = mset (pool (ps c)) + mset as" by auto
  note u = set_percent_nat[OF assms(3)]
  have "n * 100 div 1023 \<le> 100" if "\<not> 1023 \<le> n" using that by simp
  then have "unat (set_percent (of_nat n)) \<le> 100" unfolding u by simp
  from duty_bound[OF this assms(4,5)] c' u show ?thesis by simp
qed

text \<open>A datagram of one buffer in the heap of the client.\<close>

definition with_datagram :: "string \<Rightarrow> client" where
  "with_datagram t = client0\<lparr>ps := \<lparr>heap = [7 \<mapsto> link None (text_bytes t) (length t) 1], pool = [1, 2, 3], small = [], custom_freed = []\<rparr>\<rparr>"

lemma with_datagram_ok: "datagram (ps (with_datagram t)) 7 [7] (text_bytes t)"
  by (simp add: datagram_def with_datagram_def link_def pool_buf_def)

theorem udp_receive_sets_duty_witness:
  "\<exists>c'. udp_receive_callback (with_datagram (dec_nat 512 @ [CHR 0x0A])) 7 = Some c' \<and>
    unat (uhADCxConvertedValuePercent c') = (if 1023 \<le> (512 :: nat) then 100 else 512 * 100 div 1023) \<and>
    unat (aCCValue_Buffer c') = unat (uhADCxConvertedValuePercent c') * (unat (uhTimerPeriod (with_datagram (dec_nat 512 @ [CHR 0x0A]))) - 1) div 100 \<and>
    unat (aCCValue_Buffer c') \<le> unat (uhTimerPeriod (with_datagram (dec_nat 512 @ [CHR 0x0A]))) - 1 \<and>
    mset (pool (ps c')) = mset (pool (ps (with_datagram (dec_nat 512 @ [CHR 0x0A])))) + mset [7]"
proof (rule udp_receive_sets_duty)
  show "datagram (ps (with_datagram (dec_nat 512 @ [CHR 0x0A]))) 7 [7] (text_bytes (dec_nat 512) @ [of_char (CHR 0x0A)])"
    using with_datagram_ok[of "dec_nat 512 @ [CHR 0x0A]"] by simp
qed (simp_all add: byte_digit_def with_datagram_def client0_def)

lemma minus_text_strtol: "n \<le> 2 ^ 31 \<Longrightarrow> \<not> byte_digit t \<Longrightarrow> strtol ((text_bytes (CHR ''-'' # dec_nat n) @ [t]) @ m) = Some (- int n)"
  using strtol_minus[of t n m] by simp

lemma set_percent_minus:
  assumes "0 < n" "n \<le> 64513"
  shows "set_percent (word_of_int (- int n)) = 100"
proof -
  define w :: u16 where "w = word_of_int (- int n)"
  have "uint w = 65536 - int n"
    using assms by (simp add: w_def uint_word_of_int zmod_zminus1_eq_if del: word_of_int_minus of_int_minus)
  then have u: "unat w = 65536 - n" using assms by (simp add: unat_eq_nat_uint nat_diff_distrib)
  have "1023 \<le> w" "\<not> w \<le> 0" using assms by (simp_all add: word_le_nat_alt u)
  then show ?thesis unfolding set_percent_def w_def[symmetric] by simp
qed

text \<open>
  C36. A negative set point is not treated as zero: the result of \<open>strtol\<close> is stored in an unsigned
  16-bit variable, so that every value from -1 down to -64513 drives the output to 100 percent.
\<close>

theorem udp_receive_negative_is_full:
  assumes "datagram (ps c) p as (text_bytes (CHR ''-'' # dec_nat n) @ [t])" "\<not> byte_digit t" "0 < n" "n \<le> 64513"
  shows "\<exists>c'. udp_receive_callback c p = Some c' \<and> uhADCxConvertedValuePercent c' = 100"
proof -
  have "n \<le> 2 ^ 31" using assms(4) by simp
  from receive_step[OF assms(1) minus_text_strtol[OF this assms(2)]] show ?thesis
    using set_percent_minus[OF assms(3,4)] by auto
qed

theorem udp_receive_negative_is_full_witness:
  "\<exists>c'. udp_receive_callback (with_datagram (CHR ''-'' # dec_nat 1 @ [CHR 0x0A])) 7 = Some c' \<and> uhADCxConvertedValuePercent c' = 100"
proof (rule udp_receive_negative_is_full)
  show "datagram (ps (with_datagram (CHR ''-'' # dec_nat 1 @ [CHR 0x0A]))) 7 [7] (text_bytes (CHR ''-'' # dec_nat 1) @ [of_char (CHR 0x0A)])"
    using with_datagram_ok[of "CHR ''-'' # dec_nat 1 @ [CHR 0x0A]"] by simp
qed (simp_all add: byte_digit_def)

text \<open>
  A datagram that consists of digits only and fills its buffer is read beyond the buffer:
  \<open>strtol\<close> expects a terminator that a datagram does not have.
\<close>

theorem udp_receive_overrun:
  assumes "heap (ps c) p = Some b" "0 \<le> pb_payload b" "drop (nat (pb_payload b)) (pb_mem b) = text_bytes s" "list_all is_digit s"
  shows "udp_receive_callback c p = None"
proof -
  have rd: "read_digits acc (text_bytes s) = None" for acc
    using assms(4) by (induction s arbitrary: acc) auto
  have "skip_space (text_bytes s) = text_bytes s" using assms(4) by (cases s) (auto simp: isspace_digit)
  then have "strtol (text_bytes s) = None"
    using assms(4) rd[of 0] by (cases s) (auto simp: strtol_def is_digit_def simp del: read_digits.simps)
  then show ?thesis using assms(1-3) by (simp add: udp_receive_callback_def)
qed

theorem udp_receive_overrun_witness: "udp_receive_callback (with_datagram (dec_nat 12)) 7 = None"
  by (rule udp_receive_overrun[where b = "link None (text_bytes (dec_nat 12)) (length (dec_nat 12)) 1" and s = "dec_nat 12"])
    (simp_all add: with_datagram_def link_def dec_nat_digits)

end
