(* ===== verification/TcpApi.thy ===== *)
theory TcpApi
  imports Cstr
begin

text \<open>
  The part of LwIP's TCP interface that the client calls
  (\<open>src/concentrator-1/Middlewares/Third_Party/LwIP/src/core/tcp.c\<close>): control blocks and their
  four lists, binding, choosing a local port, the start of a connection, the receive window and
  the registration of callbacks.  The output side (\<open>tcp_out.c\<close>) is a parameter.
\<close>

unbundle bit_operations_syntax

subsection \<open>State\<close>

definition ip_addr_isany :: "ip_addr \<Rightarrow> bool" where
  "ip_addr_isany ip \<longleftrightarrow> ip = (0, 0, 0, 0)"

datatype tcp_st = CLOSED | LISTEN | SYN_SENT | SYN_RCVD | ESTABLISHED | FIN_WAIT_1 | FIN_WAIT_2 | CLOSE_WAIT
  | CLOSING | LAST_ACK | TIME_WAIT

text \<open>
  \<open>queued\<close> is the data that \<open>tcp_write\<close> has accepted; the callbacks are booleans (set or not);
  \<open>close_called\<close> and \<open>abort_called\<close> record the calls of \<open>tcp_close\<close> and \<open>tcp_abort\<close>.
\<close>

record tcp_pcb =
  tcp_state :: tcp_st
  local_ip :: ip_addr
  local_port :: nat
  remote_ip :: ip_addr
  remote_port :: nat
  rcv_nxt :: u32
  rcv_wnd :: nat
  rcv_ann_wnd :: nat
  rcv_ann_right_edge :: u32
  snd_nxt :: u32
  lastack :: u32
  snd_lbb :: u32
  snd_wnd :: nat
  snd_buf :: nat
  mss :: nat
  cwnd :: nat
  ssthresh :: nat
  ack_now :: bool
  queued :: "byte list"
  callback_arg :: "addr option"
  cb_connected :: bool
  cb_recv :: bool
  cb_sent :: bool
  cb_poll :: bool
  pollinterval :: nat
  close_called :: bool
  abort_called :: bool

record tcp_lists =
  pcbs :: "addr \<rightharpoonup> tcp_pcb"
  tcp_listen_pcbs :: "addr list"
  tcp_bound_pcbs :: "addr list"
  tcp_active_pcbs :: "addr list"
  tcp_tw_pcbs :: "addr list"
  tcp_port :: nat

definition TCP_MSS :: nat where
  "TCP_MSS = 1500 - 40"

definition TCP_WND :: nat where
  "TCP_WND = 2 * TCP_MSS"

definition TCP_LOCAL_PORT_RANGE_START :: nat where
  "TCP_LOCAL_PORT_RANGE_START = 0xc000"

definition TCP_LOCAL_PORT_RANGE_END :: nat where
  "TCP_LOCAL_PORT_RANGE_END = 0xffff"

text \<open>The lists in the order of \<open>tcp_pcb_lists\<close>.\<close>

definition tcp_pcb_lists :: "tcp_lists \<Rightarrow> addr list" where
  "tcp_pcb_lists l = tcp_listen_pcbs l @ tcp_bound_pcbs l @ tcp_active_pcbs l @ tcp_tw_pcbs l"

text \<open>A walk over control blocks until one satisfies the test; \<open>None\<close> is a dangling pointer.\<close>

fun any_pcb :: "(addr \<rightharpoonup> tcp_pcb) \<Rightarrow> (tcp_pcb \<Rightarrow> bool) \<Rightarrow> addr list \<Rightarrow> bool option" where
  "any_pcb m P [] = Some False"
| "any_pcb m P (a # as) = do { b \<leftarrow> m a; if P b then Some True else any_pcb m P as }"

subsection \<open>Local ports\<close>

text \<open>\<open>n\<close> counts the candidates that were in use.\<close>

function new_port_loop :: "tcp_lists \<Rightarrow> nat \<Rightarrow> (tcp_lists \<times> nat) option" where
  "new_port_loop l n =
     (let port = (if tcp_port l = TCP_LOCAL_PORT_RANGE_END then TCP_LOCAL_PORT_RANGE_START
                  else (tcp_port l + 1) mod 2 ^ 16);
          l = l\<lparr>tcp_port := port\<rparr>
      in case any_pcb (pcbs l) (\<lambda>b. local_port b = port) (tcp_pcb_lists l) of
           None \<Rightarrow> None
         | Some False \<Rightarrow> Some (l, port)
         | Some True \<Rightarrow>
             if TCP_LOCAL_PORT_RANGE_END - TCP_LOCAL_PORT_RANGE_START < n + 1 then Some (l, 0)
             else new_port_loop l (n + 1))"
  by auto
termination
  by (relation "measure (\<lambda>(_, n). Suc (TCP_LOCAL_PORT_RANGE_END - TCP_LOCAL_PORT_RANGE_START) - n)") auto

declare new_port_loop.simps [simp del]

definition tcp_new_port :: "tcp_lists \<Rightarrow> (tcp_lists \<times> nat) option" where
  "tcp_new_port l = new_port_loop l 0"

subsection \<open>Binding and connecting\<close>

definition tcp_bind :: "tcp_lists \<Rightarrow> addr \<Rightarrow> ip_addr \<Rightarrow> nat \<Rightarrow> (tcp_lists \<times> err) option" where
  "tcp_bind l t ipaddr port =
     do { pcb \<leftarrow> pcbs l t;
          if tcp_state pcb \<noteq> CLOSED then Some (l, ERR_VAL)
          else do { (l, port) \<leftarrow> (if port = 0 then tcp_new_port l else Some (l, port));
                    if port = 0 then Some (l, ERR_BUF)
                    else do { used \<leftarrow> any_pcb (pcbs l)
                                (\<lambda>c. local_port c = port \<and>
                                     (ip_addr_isany (local_ip c) \<or> ip_addr_isany ipaddr \<or> local_ip c = ipaddr))
                                (tcp_pcb_lists l);
                              if used then Some (l, ERR_USE)
                              else let pcb = (if ip_addr_isany ipaddr then pcb else pcb\<lparr>local_ip := ipaddr\<rparr>)
                                   in Some (l\<lparr>pcbs := (pcbs l)(t \<mapsto> pcb\<lparr>local_port := port\<rparr>),
                                              tcp_bound_pcbs := t # tcp_bound_pcbs l\<rparr>, ERR_OK) } } }"

text \<open>\<open>outif\<close> is the interface that \<open>ip_route\<close> finds: its address and its MTU.\<close>

definition tcp_eff_send_mss :: "(ip_addr \<times> nat) option \<Rightarrow> nat \<Rightarrow> nat" where
  "tcp_eff_send_mss outif sendmss =
     (case outif of
        None \<Rightarrow> sendmss
      | Some (_, mtu) \<Rightarrow> if mtu \<noteq> 0 then min sendmss (sub16 mtu (20 + 20)) else sendmss)"

text \<open>
  \<open>enqueue\<close> and \<open>output\<close> stand for \<open>tcp_enqueue_flags\<close> with the SYN flag and \<open>tcp_output\<close>;
  \<open>iss\<close> is the result of \<open>tcp_next_iss\<close>.
\<close>

definition tcp_connect ::
    "(ip_addr \<times> nat) option \<Rightarrow> u32 \<Rightarrow> (tcp_pcb \<Rightarrow> err \<times> tcp_pcb) \<Rightarrow> (tcp_pcb \<Rightarrow> tcp_pcb) \<Rightarrow>
     tcp_lists \<Rightarrow> addr \<Rightarrow> ip_addr \<Rightarrow> nat \<Rightarrow> (tcp_lists \<times> err) option" where
  "tcp_connect route iss enqueue output l t ipaddr port =
     do { pcb \<leftarrow> pcbs l t;
          if tcp_state pcb \<noteq> CLOSED then Some (l, ERR_ISCONN)
          else let pcb = pcb\<lparr>remote_ip := ipaddr, remote_port := port\<rparr>;
                   l = l\<lparr>pcbs := (pcbs l)(t \<mapsto> pcb)\<rparr>
               in if ip_addr_isany (local_ip pcb) \<and> route = None then Some (l, ERR_RTE)
                  else let pcb = (if ip_addr_isany (local_ip pcb) then pcb\<lparr>local_ip := fst (the route)\<rparr> else pcb);
                           l = l\<lparr>pcbs := (pcbs l)(t \<mapsto> pcb)\<rparr>;
                           old_local_port = local_port pcb
                       in do { (l, lport) \<leftarrow> (if local_port pcb = 0 then tcp_new_port l else Some (l, local_port pcb));
                               if lport = 0 then Some (l, ERR_BUF)
                               else let pcb = pcb\<lparr>local_port := lport, rcv_nxt := 0, snd_nxt := iss, lastack := iss - 1,
                                                  snd_lbb := iss - 1, rcv_wnd := TCP_WND, rcv_ann_wnd := TCP_WND,
                                                  rcv_ann_right_edge := 0, snd_wnd := TCP_WND,
                                                  mss := tcp_eff_send_mss route (if 536 < TCP_MSS then 536 else TCP_MSS),
                                                  cwnd := 1\<rparr>;
                                        pcb = pcb\<lparr>ssthresh := w16 (mss pcb * 10), cb_connected := True\<rparr>;
                                        (ret, pcb) = enqueue pcb
                                    in if ret \<noteq> ERR_OK then Some (l\<lparr>pcbs := (pcbs l)(t \<mapsto> pcb)\<rparr>, ret)
                                       else Some (l\<lparr>pcbs := (pcbs l)(t \<mapsto> output (pcb\<lparr>tcp_state := SYN_SENT\<rparr>)),
                                                    tcp_bound_pcbs := (if old_local_port \<noteq> 0 then remove1 t (tcp_bound_pcbs l)
                                                                       else tcp_bound_pcbs l),
                                                    tcp_active_pcbs := t # tcp_active_pcbs l\<rparr>, ret) } }"

subsection \<open>Callbacks and the receive window\<close>

definition tcp_arg :: "tcp_pcb \<Rightarrow> addr option \<Rightarrow> tcp_pcb" where
  "tcp_arg pcb arg = pcb\<lparr>callback_arg := arg\<rparr>"

definition tcp_recv :: "tcp_pcb \<Rightarrow> bool \<Rightarrow> tcp_pcb option" where
  "tcp_recv pcb recv = (if tcp_state pcb = LISTEN then None else Some (pcb\<lparr>cb_recv := recv\<rparr>))"

definition tcp_sent :: "tcp_pcb \<Rightarrow> bool \<Rightarrow> tcp_pcb option" where
  "tcp_sent pcb sent = (if tcp_state pcb = LISTEN then None else Some (pcb\<lparr>cb_sent := sent\<rparr>))"

definition tcp_poll :: "tcp_pcb \<Rightarrow> bool \<Rightarrow> nat \<Rightarrow> tcp_pcb option" where
  "tcp_poll pcb poll interval =
     (if tcp_state pcb = LISTEN then None else Some (pcb\<lparr>cb_poll := poll, pollinterval := interval\<rparr>))"

definition TCP_SEQ_GEQ :: "u32 \<Rightarrow> u32 \<Rightarrow> bool" where
  "TCP_SEQ_GEQ a b \<longleftrightarrow> 0 \<le> sint (a - b)"

definition TCP_SEQ_GT :: "u32 \<Rightarrow> u32 \<Rightarrow> bool" where
  "TCP_SEQ_GT a b \<longleftrightarrow> 0 < sint (a - b)"

definition tcp_update_rcv_ann_wnd :: "tcp_pcb \<Rightarrow> (tcp_pcb \<times> u32) option" where
  "tcp_update_rcv_ann_wnd pcb =
     (let new_right_edge = rcv_nxt pcb + of_nat (rcv_wnd pcb)
      in if TCP_SEQ_GEQ new_right_edge (rcv_ann_right_edge pcb + of_nat (min (TCP_WND div 2) (mss pcb)))
         then Some (pcb\<lparr>rcv_ann_wnd := rcv_wnd pcb\<rparr>, new_right_edge - rcv_ann_right_edge pcb)
         else if TCP_SEQ_GT (rcv_nxt pcb) (rcv_ann_right_edge pcb) then Some (pcb\<lparr>rcv_ann_wnd := 0\<rparr>, 0)
         else let new_rcv_ann_wnd = rcv_ann_right_edge pcb - rcv_nxt pcb
              in if new_rcv_ann_wnd \<le> 0xffff then Some (pcb\<lparr>rcv_ann_wnd := unat new_rcv_ann_wnd\<rparr>, 0) else None)"

definition tcp_recved :: "(tcp_pcb \<Rightarrow> tcp_pcb) \<Rightarrow> tcp_pcb \<Rightarrow> nat \<Rightarrow> tcp_pcb option" where
  "tcp_recved output pcb len =
     (if tcp_state pcb = LISTEN \<or> \<not> len \<le> 0xffff - rcv_wnd pcb then None
      else do { (pcb, wnd_inflation) \<leftarrow> tcp_update_rcv_ann_wnd (pcb\<lparr>rcv_wnd := min (rcv_wnd pcb + len) TCP_WND\<rparr>);
                Some (if int (TCP_WND div 4) \<le> sint wnd_inflation then output (pcb\<lparr>ack_now := True\<rparr>) else pcb) })"

subsection \<open>Choosing a port\<close>

lemma any_pcb_False: "any_pcb m P as = Some False \<longleftrightarrow> (\<forall>a\<in>set as. \<exists>b. m a = Some b \<and> \<not> P b)"
proof (induction as)
  case (Cons a as)
  then show ?case by (cases "m a") auto
qed simp

lemma any_pcb_True: "any_pcb m P as = Some True \<Longrightarrow> \<exists>a\<in>set as. \<exists>b. m a = Some b \<and> P b"
proof (induction as)
  case (Cons a as)
  then show ?case by (cases "m a") (auto split: if_splits)
qed simp

lemma any_pcb_defined: "\<forall>a\<in>set as. m a \<noteq> None \<Longrightarrow> \<exists>r. any_pcb m P as = Some r"
  by (induction as) auto

text \<open>The ports in use, and the candidates in the order in which they are tried.\<close>

definition used_ports :: "tcp_lists \<Rightarrow> nat set" where
  "used_ports l = (\<lambda>a. local_port (the (pcbs l a))) ` set (tcp_pcb_lists l)"

abbreviation port_count :: nat where
  "port_count \<equiv> 16384"

definition candidate :: "nat \<Rightarrow> nat \<Rightarrow> nat" where
  "candidate p k = 0xc000 + (p - 0xc000 + k) mod port_count"

definition lists_ok :: "tcp_lists \<Rightarrow> bool" where
  "lists_ok l \<longleftrightarrow> (\<forall>a\<in>set (tcp_pcb_lists l). pcbs l a \<noteq> None) \<and> 0xc000 \<le> tcp_port l \<and> tcp_port l \<le> 0xffff"

lemmas port_range = TCP_LOCAL_PORT_RANGE_START_def TCP_LOCAL_PORT_RANGE_END_def

lemma next_candidate:
  assumes "0xc000 \<le> p" "p \<le> 0xffff"
  shows "(if p = TCP_LOCAL_PORT_RANGE_END then TCP_LOCAL_PORT_RANGE_START else (p + 1) mod 2 ^ 16) = candidate p 1"
  using assms by (auto simp: candidate_def port_range)

lemma candidate_range: "0xc000 \<le> candidate p k" "candidate p k \<le> 0xffff"
  by (simp_all add: candidate_def)

lemma candidate_candidate: "candidate (candidate p 1) k = candidate p (Suc k)"
proof -
  have "((p - 49152 + 1) mod port_count + k) mod port_count = (p - 49152 + 1 + k) mod port_count" by (rule mod_add_left_eq)
  then show ?thesis by (simp add: candidate_def)
qed

lemma tcp_port_upd [simp]:
  "tcp_pcb_lists (l\<lparr>tcp_port := p\<rparr>) = tcp_pcb_lists l" "used_ports (l\<lparr>tcp_port := p\<rparr>) = used_ports l"
  "tcp_port (l\<lparr>tcp_port := p\<rparr>) = p"
  by (simp_all add: used_ports_def tcp_pcb_lists_def)

lemma candidate_inj:
  assumes "candidate p (Suc i) = candidate p (Suc j)" "i < port_count" "j < port_count"
  shows "i = j"
proof -
  have "(p - 49152 + Suc i) mod port_count = (p - 49152 + Suc j) mod port_count" using assms(1) by (simp add: candidate_def)
  from arg_cong[OF this, of int] have "(int (p - 49152 + 1) + int i) mod 16384 = (int (p - 49152 + 1) + int j) mod 16384"
    by (simp add: of_nat_mod ac_simps)
  from mod_diff_cong[OF this refl[of "int (p - 49152 + 1) mod 16384"]] have "int i mod 16384 = int j mod 16384" by simp
  then show ?thesis using assms(2,3) by simp
qed

lemma new_port_loop_spec:
  assumes "lists_ok l" "n \<le> port_count - 1"
  shows "\<exists>l' r. new_port_loop l n = Some (l', r) \<and>
    (if r = 0 then \<forall>k<port_count - n. candidate (tcp_port l) (Suc k) \<in> used_ports l
     else 0xc000 \<le> r \<and> r \<le> 0xffff \<and> r \<notin> used_ports l \<and> l' = l\<lparr>tcp_port := r\<rparr>)"
  using assms
proof (induction "port_count - n" arbitrary: l n rule: less_induct)
  case less
  let ?p = "candidate (tcp_port l) 1"
  let ?l = "l\<lparr>tcp_port := ?p\<rparr>"
  have ok: "lists_ok ?l" using less.prems(1) candidate_range[of "tcp_port l" 1] by (simp add: lists_ok_def)
  have nx: "(if tcp_port l = TCP_LOCAL_PORT_RANGE_END then TCP_LOCAL_PORT_RANGE_START else (tcp_port l + 1) mod 2 ^ 16) = ?p"
    using less.prems(1) by (intro next_candidate) (simp_all add: lists_ok_def)
  have "\<forall>a\<in>set (tcp_pcb_lists ?l). pcbs ?l a \<noteq> None" using ok by (simp add: lists_ok_def)
  from any_pcb_defined[OF this] obtain used where used: "any_pcb (pcbs ?l) (\<lambda>b. local_port b = ?p) (tcp_pcb_lists ?l) = Some used" by blast
  have un: "new_port_loop l n = (if used then if port_count - 1 < n + 1 then Some (?l, 0) else new_port_loop ?l (n + 1) else Some (?l, ?p))"
    using used by (subst new_port_loop.simps, unfold Let_def nx) (cases used; simp add: port_range)
  show ?case
  proof (cases used)
    case False
    have "?p \<notin> used_ports l"
    proof
      assume "?p \<in> used_ports l"
      then obtain a where "a \<in> set (tcp_pcb_lists ?l)" "?p = local_port (the (pcbs ?l a))"
        by (auto simp: used_ports_def)
      with used False any_pcb_False[of "pcbs ?l" "\<lambda>b. local_port b = ?p" "tcp_pcb_lists ?l"] show False by fastforce
    qed
    moreover have "new_port_loop l n = Some (?l, ?p)"
      using False by (simp add: un)
    ultimately show ?thesis using candidate_range[of "tcp_port l" 1] by simp
  next
    case True
    from any_pcb_True[of "pcbs ?l" "\<lambda>b. local_port b = ?p" "tcp_pcb_lists ?l"] used True have u: "?p \<in> used_ports l"
      by (force simp: used_ports_def)
    show ?thesis
    proof (cases "port_count - 1 < n + 1")
      case last: True
      have "new_port_loop l n = Some (?l, 0)"
        using True last by (simp add: un)
      moreover have "n = port_count - 1" using last less.prems(2) by simp
      ultimately show ?thesis using u by simp
    next
      case more: False
      have step: "new_port_loop l n = new_port_loop ?l (n + 1)"
        using True more by (simp add: un)
      have "port_count - (n + 1) < port_count - n" "n + 1 \<le> port_count - 1" using more less.prems(2) by auto
      from less.hyps[OF this(1) ok this(2)] obtain l' r where R: "new_port_loop ?l (n + 1) = Some (l', r)"
        "if r = 0 then \<forall>k<port_count - (n + 1). candidate ?p (Suc k) \<in> used_ports l
         else 0xc000 \<le> r \<and> r \<le> 0xffff \<and> r \<notin> used_ports l \<and> l' = ?l\<lparr>tcp_port := r\<rparr>"
        unfolding tcp_port_upd by blast
      have "\<forall>k<port_count - n. candidate (tcp_port l) (Suc k) \<in> used_ports l"
        if "\<forall>k<port_count - (n + 1). candidate ?p (Suc k) \<in> used_ports l"
      proof (intro allI impI)
        fix k assume k: "k < port_count - n"
        show "candidate (tcp_port l) (Suc k) \<in> used_ports l"
        proof (cases k)
          case 0
          then show ?thesis using u by simp
        next
          case (Suc j)
          then have "j < port_count - (n + 1)" using k by simp
          with that have "candidate ?p (Suc j) \<in> used_ports l" by blast
          then show ?thesis unfolding Suc candidate_candidate .
        qed
      qed
      with R show ?thesis unfolding step by (auto split: if_splits)
    qed
  qed
qed

text \<open>
  C33. \<open>tcp_new_port\<close> ends and returns a port of the dynamic range that no control block uses;
  it gives up with 0 only when there are at least 16384 control blocks.
\<close>

theorem tcp_new_port_free:
  assumes "lists_ok l"
  shows "\<exists>l' r. tcp_new_port l = Some (l', r) \<and>
    (if r = 0 then port_count \<le> length (tcp_pcb_lists l)
     else 0xc000 \<le> r \<and> r \<le> 0xffff \<and> r \<notin> used_ports l \<and> l' = l\<lparr>tcp_port := r\<rparr>)"
proof -
  from new_port_loop_spec[OF assms, of 0] obtain l' r where R: "tcp_new_port l = Some (l', r)"
    "if r = 0 then \<forall>k<port_count. candidate (tcp_port l) (Suc k) \<in> used_ports l
     else 0xc000 \<le> r \<and> r \<le> 0xffff \<and> r \<notin> used_ports l \<and> l' = l\<lparr>tcp_port := r\<rparr>" by (auto simp: tcp_new_port_def)
  have "port_count \<le> length (tcp_pcb_lists l)" if "\<forall>k<port_count. candidate (tcp_port l) (Suc k) \<in> used_ports l"
  proof -
    have "inj_on (\<lambda>k. candidate (tcp_port l) (Suc k)) {..<port_count}"
      by (rule inj_onI) (auto dest: candidate_inj)
    then have "port_count \<le> card (used_ports l)"
      using that card_mono[of "used_ports l" "(\<lambda>k. candidate (tcp_port l) (Suc k)) ` {..<port_count}"]
      by (auto simp: card_image used_ports_def)
    also have "\<dots> \<le> length (tcp_pcb_lists l)"
      unfolding used_ports_def by (rule order_trans[OF card_image_le card_length]) simp
    finally show ?thesis .
  qed
  with R show ?thesis by auto
qed

text \<open>Ten control blocks on consecutive ports of the active list.\<close>

definition pcb0 :: tcp_pcb where
  "pcb0 = \<lparr>tcp_state = CLOSED, local_ip = (0, 0, 0, 0), local_port = 0, remote_ip = (0, 0, 0, 0), remote_port = 0, rcv_nxt = 0,
     rcv_wnd = TCP_WND, rcv_ann_wnd = TCP_WND, rcv_ann_right_edge = 0, snd_nxt = 0, lastack = 0, snd_lbb = 0, snd_wnd = 0,
     snd_buf = 4 * TCP_MSS, mss = 536, cwnd = 1, ssthresh = 0, ack_now = False, queued = [], callback_arg = None,
     cb_connected = False, cb_recv = False, cb_sent = False, cb_poll = False, pollinterval = 0, close_called = False, abort_called = False\<rparr>"

definition ten_active :: tcp_lists where
  "ten_active = \<lparr>pcbs = (\<lambda>a. if a < 10 then Some (pcb0\<lparr>local_port := 50000 + a\<rparr>) else None), tcp_listen_pcbs = [], tcp_bound_pcbs = [],
     tcp_active_pcbs = [0..<10], tcp_tw_pcbs = [], tcp_port = 50000\<rparr>"

theorem tcp_new_port_free_witness:
  "\<exists>l' r. tcp_new_port ten_active = Some (l', r) \<and>
    (if r = 0 then port_count \<le> length (tcp_pcb_lists ten_active)
     else 0xc000 \<le> r \<and> r \<le> 0xffff \<and> r \<notin> used_ports ten_active \<and> l' = ten_active\<lparr>tcp_port := r\<rparr>)"
  by (rule tcp_new_port_free) (simp add: lists_ok_def ten_active_def tcp_pcb_lists_def)

subsection \<open>The receive window\<close>

text \<open>
  \<open>tcp_recved\<close> never opens the window beyond \<open>TCP_WND\<close>, and what it announces is never more
  than the window it holds, as long as the announced edge lay inside the window before.
\<close>

theorem tcp_recved_window:
  assumes "tcp_state pcb \<noteq> LISTEN" "rcv_wnd pcb \<le> TCP_WND" "rcv_ann_right_edge pcb = rcv_nxt pcb + of_nat (rcv_ann_wnd pcb)"
    "rcv_ann_wnd pcb \<le> rcv_wnd pcb" "len \<le> 0xffff - TCP_WND"
  shows "\<exists>pcb'. tcp_recved id pcb len = Some pcb' \<and> rcv_wnd pcb' = min (rcv_wnd pcb + len) TCP_WND \<and>
    rcv_ann_wnd pcb' \<le> rcv_wnd pcb' \<and> rcv_nxt pcb' = rcv_nxt pcb"
proof -
  have wnd: "TCP_WND = 2920" by (simp add: TCP_WND_def TCP_MSS_def)
  let ?p = "pcb\<lparr>rcv_wnd := min (rcv_wnd pcb + len) TCP_WND\<rparr>"
  have small: "rcv_ann_wnd pcb < 2 ^ 16" using assms(2,4) wnd by simp
  have d: "rcv_ann_right_edge pcb - rcv_nxt pcb = of_nat (rcv_ann_wnd pcb)" using assms(3) by simp
  have u: "unat (of_nat (rcv_ann_wnd pcb) :: u32) = rcv_ann_wnd pcb" using small by (simp add: unsigned_of_nat take_bit_eq_mod)
  have "(of_nat (rcv_ann_wnd pcb) :: u32) \<le> 0xffff" using small by (simp add: word_le_nat_alt u)
  then have "\<exists>q i. tcp_update_rcv_ann_wnd ?p = Some (q, i) \<and> rcv_wnd q = rcv_wnd ?p \<and> rcv_ann_wnd q \<le> rcv_wnd q \<and> rcv_nxt q = rcv_nxt pcb"
    using assms(2,4) by (simp add: tcp_update_rcv_ann_wnd_def Let_def d u)
  then show ?thesis using assms(1,2,5) wnd by (auto simp: tcp_recved_def)
qed

theorem tcp_recved_window_witness:
  "\<exists>pcb'. tcp_recved id (pcb0\<lparr>rcv_wnd := 1000, rcv_ann_wnd := 500, rcv_ann_right_edge := 500\<rparr>) 300 = Some pcb' \<and>
    rcv_wnd pcb' = min (rcv_wnd (pcb0\<lparr>rcv_wnd := 1000, rcv_ann_wnd := 500, rcv_ann_right_edge := 500\<rparr>) + 300) TCP_WND \<and>
    rcv_ann_wnd pcb' \<le> rcv_wnd pcb' \<and> rcv_nxt pcb' = rcv_nxt (pcb0\<lparr>rcv_wnd := 1000, rcv_ann_wnd := 500, rcv_ann_right_edge := 500\<rparr>)"
  by (rule tcp_recved_window) (simp_all add: pcb0_def TCP_WND_def TCP_MSS_def)

end
