(* ===== verification/Tcp.thy ===== *)
theory Tcp
  imports Udp TcpApi
begin

text \<open>
  The TCP side of the concentrator (\<open>src/concentrator-1/Src/tcp.c\<close>): a connection that sends one
  \<open>PING\<close> command and closes.  The state holds the packet buffers, the control blocks and the
  connection records that \<open>mem_malloc\<close> returned; \<open>tcp_write\<close> is a parameter with the contract
  \<open>tcp_write_contract\<close>.  A result \<open>None\<close> is a dereference of a null or freed pointer.
\<close>

subsection \<open>State\<close>

datatype echoclient_states = ES_NOT_CONNECTED | ES_CONNECTED | ES_RECEIVED | ES_CLOSING

record echoclient =
  es_state :: echoclient_states
  es_pcb :: addr
  es_p_tx :: "addr option"

record tcp_client =
  tps :: pstate
  tcb :: tcp_lists
  es_mem :: "addr \<rightharpoonup> echoclient"
  pcb_pool :: "addr list"
  echoclient_pcb :: "addr option"
  tcp_data :: "byte list"
  tcp_message_count :: u32

type_synonym writer = "tcp_pcb \<Rightarrow> byte list \<Rightarrow> err \<times> tcp_pcb"

definition set_pcb :: "tcp_client \<Rightarrow> addr \<Rightarrow> tcp_pcb \<Rightarrow> tcp_client" where
  "set_pcb s t pcb = s\<lparr>tcb := (tcb s)\<lparr>pcbs := (pcbs (tcb s))(t \<mapsto> pcb)\<rparr>\<rparr>"

definition set_es :: "tcp_client \<Rightarrow> addr \<Rightarrow> echoclient \<Rightarrow> tcp_client" where
  "set_es s e es = s\<lparr>es_mem := (es_mem s)(e \<mapsto> es)\<rparr>"

definition IP_ADDR :: ip_addr where
  "IP_ADDR = (192, 168, 0, 12)"

definition PORT :: nat where
  "PORT = 50000"

subsection \<open>Connecting\<close>

text \<open>\<open>t\<close> is what \<open>tcp_new\<close> returned: a fresh control block taken from the pool, or nothing.\<close>

definition tcp_echoclient_connect ::
    "(ip_addr \<times> nat) option \<Rightarrow> u32 \<Rightarrow> (tcp_pcb \<Rightarrow> err \<times> tcp_pcb) \<Rightarrow> (tcp_pcb \<Rightarrow> tcp_pcb) \<Rightarrow>
     addr option \<Rightarrow> tcp_client \<Rightarrow> tcp_client option" where
  "tcp_echoclient_connect route iss enqueue output t s =
     (let s = s\<lparr>echoclient_pcb := t\<rparr>
      in case t of
           None \<Rightarrow> Some (s\<lparr>pcb_pool := memp_free (pcb_pool s) None\<rparr>)
         | Some t \<Rightarrow>
             do { (l, _) \<leftarrow> tcp_bind (tcb s) t IP_ADDR PORT;
                  (l, e) \<leftarrow> tcp_connect route iss enqueue output l t DEST_IP_ADDR DEST_PORT;
                  let s = s\<lparr>tcb := l\<rparr>
                  in Some (if e \<noteq> ERR_OK then s\<lparr>pcb_pool := memp_free (pcb_pool s) (Some t)\<rparr> else s) })"

subsection \<open>Sending\<close>

partial_function (option) send_loop :: "writer \<Rightarrow> tcp_client \<Rightarrow> addr \<Rightarrow> addr \<Rightarrow> err \<Rightarrow> tcp_client option" where
  "send_loop tcp_write s t e wr_err =
     (if wr_err \<noteq> ERR_OK then Some s
      else Option.bind (es_mem s e) (\<lambda>es.
        case es_p_tx es of
          None \<Rightarrow> Some s
        | Some ptr \<Rightarrow>
            Option.bind (heap (tps s) ptr) (\<lambda>b.
            Option.bind (pcbs (tcb s) t) (\<lambda>pcb.
              if snd_buf pcb < pb_len b then Some s
              else Option.bind (payload_read b 0 (pb_len b)) (\<lambda>xs.
                let (wr_err, pcb) = tcp_write pcb xs;
                    s = set_pcb s t pcb
                in if wr_err = ERR_OK
                   then let s = set_es s e (es\<lparr>es_p_tx := pb_next b\<rparr>)
                        in Option.bind (if pb_next b \<noteq> None then pbuf_ref (tps s) (pb_next b) else Some (tps s)) (\<lambda>h.
                           Option.bind (pbuf_free h (Some ptr)) (\<lambda>(h, _).
                             send_loop tcp_write (s\<lparr>tps := h\<rparr>) t e wr_err))
                   else send_loop tcp_write s t e wr_err)))))"

definition tcp_echoclient_send :: "writer \<Rightarrow> tcp_client \<Rightarrow> addr \<Rightarrow> addr \<Rightarrow> tcp_client option" where
  "tcp_echoclient_send tcp_write s t e = send_loop tcp_write s t e ERR_OK"

subsection \<open>Closing\<close>

definition tcp_echoclient_connection_close :: "tcp_client \<Rightarrow> addr \<Rightarrow> addr option \<Rightarrow> tcp_client option" where
  "tcp_echoclient_connection_close s t es =
     do { pcb \<leftarrow> pcbs (tcb s) t;
          pcb \<leftarrow> tcp_recv pcb False;
          pcb \<leftarrow> tcp_sent pcb False;
          pcb \<leftarrow> tcp_poll pcb False 0;
          s \<leftarrow> (case es of
                  None \<Rightarrow> Some s
                | Some e \<Rightarrow> if es_mem s e = None then None else Some (s\<lparr>es_mem := (es_mem s)(e := None)\<rparr>));
          Some (set_pcb s t (pcb\<lparr>close_called := True\<rparr>)) }"

subsection \<open>Callbacks\<close>

definition ping_text :: string where
  "ping_text = ''*2'' @ [CHR 0x0D, CHR 0x0A] @ ''$4'' @ [CHR 0x0D, CHR 0x0A] @ ''PING'' @ [CHR 0x0D, CHR 0x0A] @
     ''$11'' @ [CHR 0x0D, CHR 0x0A] @ DEVICE_UID @ [CHR 0x0D, CHR 0x0A]"

text \<open>\<open>es\<close> is the address that \<open>mem_malloc\<close> returns for the connection record.\<close>

definition tcp_echoclient_connected ::
    "(nat \<Rightarrow> byte) \<Rightarrow> writer \<Rightarrow> addr option \<Rightarrow> tcp_client \<Rightarrow> addr \<Rightarrow> err \<Rightarrow> (tcp_client \<times> err) option" where
  "tcp_echoclient_connected junk tcp_write es s t e =
     (if e = ERR_OK
      then case es of
          None \<Rightarrow> do { s \<leftarrow> tcp_echoclient_connection_close s t None; Some (s, ERR_MEM) }
        | Some a \<Rightarrow>
            do { data \<leftarrow> strcpy (tcp_data s) (text_bytes ping_text);
                 n \<leftarrow> strlen data;
                 (h, p) \<leftarrow> pbuf_alloc junk None (tps s) PBUF_TRANSPORT n PBUF_POOL;
                 let s = (set_es s a \<lparr>es_state = ES_CONNECTED, es_pcb = t, es_p_tx = p\<rparr>)\<lparr>tcp_data := data, tps := h\<rparr>
                 in case p of
                      None \<Rightarrow> Some (s, e)
                    | Some p \<Rightarrow>
                        do { (h, _) \<leftarrow> pbuf_take (tps s) (Some p) (take n data);
                             pcb \<leftarrow> pcbs (tcb s) t;
                             pcb \<leftarrow> tcp_recv (tcp_arg pcb (Some a)) True;
                             pcb \<leftarrow> tcp_sent pcb True;
                             pcb \<leftarrow> tcp_poll pcb True 1;
                             s \<leftarrow> tcp_echoclient_send tcp_write (set_pcb (s\<lparr>tps := h\<rparr>) t pcb) t a;
                             s \<leftarrow> tcp_echoclient_connection_close s t (Some a);
                             Some (s, ERR_OK) } }
      else do { s \<leftarrow> tcp_echoclient_connection_close s t None; Some (s, e) })"

definition ack_and_free :: "(tcp_pcb \<Rightarrow> tcp_pcb) \<Rightarrow> tcp_client \<Rightarrow> addr \<Rightarrow> addr \<Rightarrow> tcp_client option" where
  "ack_and_free output s t p =
     do { b \<leftarrow> heap (tps s) p;
          pcb \<leftarrow> pcbs (tcb s) t;
          pcb \<leftarrow> tcp_recved output pcb (pb_tot_len b);
          (h, _) \<leftarrow> pbuf_free (tps s) (Some p);
          Some ((set_pcb s t pcb)\<lparr>tps := h\<rparr>) }"

definition tcp_echoclient_recv ::
    "(tcp_pcb \<Rightarrow> tcp_pcb) \<Rightarrow> writer \<Rightarrow> tcp_client \<Rightarrow> addr option \<Rightarrow> addr \<Rightarrow> addr option \<Rightarrow> err \<Rightarrow> (tcp_client \<times> err) option" where
  "tcp_echoclient_recv output tcp_write s arg t p e =
     do { a \<leftarrow> arg;
          es \<leftarrow> es_mem s a;
          case p of
            None \<Rightarrow>
              do { let s = set_es s a (es\<lparr>es_state := ES_CLOSING\<rparr>);
                   s \<leftarrow> (if es_p_tx es = None then tcp_echoclient_connection_close s t (Some a)
                         else tcp_echoclient_send tcp_write s t a);
                   Some (s, ERR_OK) }
          | Some p \<Rightarrow>
              if e \<noteq> ERR_OK then do { (h, _) \<leftarrow> pbuf_free (tps s) (Some p); Some (s\<lparr>tps := h\<rparr>, e) }
              else if es_state es = ES_CONNECTED
              then do { s \<leftarrow> ack_and_free output (s\<lparr>tcp_message_count := tcp_message_count s + 1\<rparr>) t p;
                        s \<leftarrow> tcp_echoclient_connection_close s t (Some a);
                        Some (s, ERR_OK) }
              else do { s \<leftarrow> ack_and_free output s t p; Some (s, ERR_OK) } }"

definition tcp_echoclient_poll :: "writer \<Rightarrow> tcp_client \<Rightarrow> addr option \<Rightarrow> addr \<Rightarrow> (tcp_client \<times> err) option" where
  "tcp_echoclient_poll tcp_write s arg t =
     (case arg of
        None \<Rightarrow> do { pcb \<leftarrow> pcbs (tcb s) t; Some (set_pcb s t (pcb\<lparr>abort_called := True\<rparr>), ERR_ABRT) }
      | Some a \<Rightarrow>
          do { es \<leftarrow> es_mem s a;
               s \<leftarrow> (if es_p_tx es \<noteq> None then tcp_echoclient_send tcp_write s t a
                     else if es_state es = ES_CLOSING then tcp_echoclient_connection_close s t (Some a)
                     else Some s);
               Some (s, ERR_OK) })"

definition tcp_echoclient_sent :: "writer \<Rightarrow> tcp_client \<Rightarrow> addr option \<Rightarrow> addr \<Rightarrow> (tcp_client \<times> err) option" where
  "tcp_echoclient_sent tcp_write s arg t =
     do { a \<leftarrow> arg;
          es \<leftarrow> es_mem s a;
          s \<leftarrow> (if es_p_tx es \<noteq> None then tcp_echoclient_send tcp_write s t a else Some s);
          Some (s, ERR_OK) }"

subsection \<open>What the sender relies on\<close>

text \<open>
  \<open>tcp_write\<close> with the copy flag: on success the bytes are queued and the send buffer shrinks, on
  any error nothing is queued.
\<close>

definition tcp_write_contract :: "writer \<Rightarrow> bool" where
  "tcp_write_contract w \<longleftrightarrow>
     (\<forall>pcb xs. snd (w pcb xs) =
        (if fst (w pcb xs) = ERR_OK then pcb\<lparr>queued := queued pcb @ xs, snd_buf := snd_buf pcb - length xs\<rparr> else pcb))"

text \<open>The control block and the client after the buffers \<open>xs\<close> went out; \<open>q\<close> is what is left to send.\<close>

definition sent_pcb :: "(addr \<rightharpoonup> pbuf) \<Rightarrow> tcp_pcb \<Rightarrow> addr list \<Rightarrow> tcp_pcb" where
  "sent_pcb h pcb xs = pcb\<lparr>queued := queued pcb @ contents h xs, snd_buf := snd_buf pcb - total_len h xs\<rparr>"

definition sent_state :: "tcp_client \<Rightarrow> addr \<Rightarrow> tcp_pcb \<Rightarrow> addr \<Rightarrow> echoclient \<Rightarrow> addr list \<Rightarrow> addr option \<Rightarrow> tcp_client" where
  "sent_state s t pcb e es xs q =
     s\<lparr>tps := (tps s)\<lparr>heap := heap (tps s) |` (- set xs), pool := rev xs @ pool (tps s)\<rparr>,
       tcb := (tcb s)\<lparr>pcbs := (pcbs (tcb s))(t \<mapsto> sent_pcb (heap (tps s)) pcb xs)\<rparr>,
       es_mem := (es_mem s)(e \<mapsto> es\<lparr>es_p_tx := q\<rparr>)\<rparr>"

lemma sent_state_Nil:
  assumes "es_mem s e = Some es" "pcbs (tcb s) t = Some pcb"
  shows "sent_state s t pcb e es [] (es_p_tx es) = s"
proof -
  have "(pcbs (tcb s))(t \<mapsto> pcb) = pcbs (tcb s)" "(es_mem s)(e \<mapsto> es) = es_mem s" using assms by (simp_all add: map_upd_triv)
  moreover have "heap (tps s) |` UNIV = heap (tps s)" by (simp add: restrict_map_def)
  ultimately show ?thesis by (simp add: sent_state_def sent_pcb_def)
qed

lemma sent_pcb_Cons:
  assumes "a \<notin> set xs"
  shows "sent_pcb (h |` (- {a})) (sent_pcb h pcb [a]) xs = sent_pcb h pcb (a # xs)"
proof -
  have "contents (h |` (- {a})) xs = contents h xs" "total_len (h |` (- {a})) xs = total_len h xs"
    using assms by (auto intro!: contents_cong total_cong simp: restrict_map_def)
  then show ?thesis by (simp add: sent_pcb_def diff_diff_eq)
qed

lemma sent_state_Cons:
  assumes "a \<notin> set xs"
  shows "sent_state (sent_state s t pcb e es [a] r) t (sent_pcb (heap (tps s)) pcb [a]) e (es\<lparr>es_p_tx := r\<rparr>) xs q =
    sent_state s t pcb e es (a # xs) q"
proof -
  have "- {a} \<inter> - set xs = - set (a # xs)" by auto
  then show ?thesis by (simp add: sent_state_def sent_pcb_Cons[OF assms])
qed

text \<open>Taking the first buffer off a packet: reference the second, free the first.\<close>

lemma unlink_head:
  assumes "packet (heap s) (Some a) (a # as)" "heap s a = Some b" "\<forall>x\<in>set (a # as). pool_buf (the (heap s x))"
  shows "Option.bind (if pb_next b \<noteq> None then pbuf_ref s (pb_next b) else Some s) (\<lambda>h. pbuf_free h (Some a)) =
    Some (s\<lparr>heap := (heap s)(a := None), pool := a # pool s\<rparr>, 1)"
proof -
  have pb: "pb_ref b = 1" "pb_type b = PBUF_POOL" "\<not> pb_custom b" using assms(2,3) by (simp_all add: pool_buf_def)
  show ?thesis
  proof (cases "pb_next b")
    case None
    then show ?thesis using assms(2) pb
      by (simp add: pbuf_free_def free_loop.simps[of _ "Some a"] free_loop.simps[of _ None] dealloc_def memp_free_def)
  next
    case (Some q)
    then obtain as' bq where q: "as = q # as'" "heap s q = Some bq" using assms(1,2) by (cases as) auto
    have aq: "a \<noteq> q" using chain_distinct[OF packet_chain[OF assms(1)]] q(1) by auto
    have rq: "pb_ref bq = Suc 0" using assms(3) q by (simp add: pool_buf_def)
    have "(heap s)(q \<mapsto> bq\<lparr>pb_ref := Suc 0\<rparr>, a := None) = (heap s)(a := None)"
      using q(2) aq arg_cong[OF rq, of "\<lambda>n. bq\<lparr>pb_ref := n\<rparr>"] by auto
    then show ?thesis using assms(2) pb q aq Some rq
      by (simp add: pbuf_ref_def pbuf_free_def free_loop.simps[of _ "Some a"] free_loop.simps[of _ "Some q"]
          dealloc_def memp_free_def put_def w16_def fun_upd_twist[of a])
  qed
qed

lemma send_loop_stop:
  assumes "tcp_write_contract w" "es_mem s e = Some es" "pcbs (tcb s) t = Some pcb" "es_p_tx es = Some a" "heap (tps s) a = Some b"
    "buf_ok b" "snd_buf pcb < pb_len b \<or> fst (w pcb (bytes b)) \<noteq> ERR_OK"
  shows "send_loop w s t e ERR_OK = Some s"
proof (cases "snd_buf pcb < pb_len b")
  case True
  then show ?thesis using assms by (subst send_loop.simps) simp
next
  case False
  obtain r pcb' where w: "w pcb (bytes b) = (r, pcb')" by fastforce
  then have r: "r \<noteq> ERR_OK" using assms(7) False by simp
  then have "pcb' = pcb" using assms(1)[unfolded tcp_write_contract_def, rule_format, of pcb "bytes b"] w by simp
  then have "set_pcb s t pcb' = s" using assms(3) by (simp add: set_pcb_def map_upd_triv)
  moreover have "payload_read b 0 (pb_len b) = Some (bytes b)" using payload_read_ok[OF assms(6), of 0 "pb_len b"] by (simp add: assms(6))
  ultimately show ?thesis
    using r False assms(2-5) w by (subst send_loop.simps) (simp add: send_loop.simps[of _ _ _ _ r])
qed

lemma send_loop_spec:
  assumes "tcp_write_contract w" "es_mem s e = Some es" "pcbs (tcb s) t = Some pcb"
    "packet (heap (tps s)) (es_p_tx es) as" "\<forall>a\<in>set as. pool_buf (the (heap (tps s) a))"
  shows "\<exists>xs ys q. send_loop w s t e ERR_OK = Some (sent_state s t pcb e es xs q) \<and> as = xs @ ys \<and>
    packet (heap (tps s)) q ys \<and>
    (ys = [] \<or> snd_buf (sent_pcb (heap (tps s)) pcb xs) < pb_len (the (heap (tps s) (hd ys))) \<or>
     fst (w (sent_pcb (heap (tps s)) pcb xs) (bytes (the (heap (tps s) (hd ys))))) \<noteq> ERR_OK)"
  using assms(2-)
proof (induction as arbitrary: s es pcb)
  case Nil
  then have "send_loop w s t e ERR_OK = Some s" by (subst send_loop.simps) simp
  then show ?case using sent_state_Nil[OF Nil(1,2)] Nil(3)
    by (intro exI[of _ "[]"] exI[of _ "[]"] exI[of _ "es_p_tx es"]) simp
next
  case (Cons a as)
  obtain b where b: "es_p_tx es = Some a" "heap (tps s) a = Some b" "buf_ok b" "packet (heap (tps s)) (pb_next b) as"
    using Cons.prems(3) by auto
  have rd: "payload_read b 0 (pb_len b) = Some (bytes b)" using payload_read_ok[OF b(3), of 0 "pb_len b"] by (simp add: b(3))
  obtain r pcb' where w: "w pcb (bytes b) = (r, pcb')" by fastforce
  show ?case
  proof (cases "snd_buf pcb < pb_len b \<or> r \<noteq> ERR_OK")
    case True
    then have "send_loop w s t e ERR_OK = Some s"
      using w by (intro send_loop_stop[OF assms(1) Cons.prems(1,2) b(1,2,3)]) simp
    moreover have "sent_pcb (heap (tps s)) pcb [] = pcb" by (simp add: sent_pcb_def)
    ultimately show ?thesis using True w sent_state_Nil[OF Cons.prems(1,2)] Cons.prems(3) b(2)
      by (intro exI[of _ "[]"] exI[of _ "a # as"] exI[of _ "es_p_tx es"]) auto
  next
    case False
    then have sent: "\<not> snd_buf pcb < pb_len b" "r = ERR_OK" by simp_all
    have c: "pcb' = pcb\<lparr>queued := queued pcb @ bytes b, snd_buf := snd_buf pcb - length (bytes b)\<rparr>"
      using assms(1)[unfolded tcp_write_contract_def, rule_format, of pcb "bytes b"] w sent(2) by simp
    have pcb': "pcb' = sent_pcb (heap (tps s)) pcb [a]" using c b(2,3) by (simp add: sent_pcb_def)
    let ?es = "es\<lparr>es_p_tx := pb_next b\<rparr>"
    let ?s = "sent_state s t pcb e es [a] (pb_next b)"
    have nin: "a \<notin> set as" using chain_distinct[OF packet_chain[OF Cons.prems(3)]] by simp
    define h where "h = (tps s)\<lparr>heap := (heap (tps s))(a := None), pool := a # pool (tps s)\<rparr>"
    have un: "Option.bind (if pb_next b \<noteq> None then pbuf_ref (tps s) (pb_next b) else Some (tps s)) (\<lambda>h. pbuf_free h (Some a)) = Some (h, 1)"
      using unlink_head[OF _ b(2)] Cons.prems(3,4) b(1) unfolding h_def by simp
    have s': "(set_es (set_pcb s t pcb') e ?es)\<lparr>tps := h\<rparr> = ?s"
      by (simp add: sent_state_def set_es_def set_pcb_def pcb' h_def restrict_complement_singleton_eq)
    have step: "send_loop w s t e ERR_OK = send_loop w ?s t e ERR_OK"
      using sent Cons.prems b rd w un s'
      by (subst send_loop.simps) (auto simp: set_es_def set_pcb_def Let_def split: bind_splits if_splits)
    have pk: "packet (heap (tps ?s)) (es_p_tx ?es) as"
      using b(4) nin by (subst packet_cong[of _ _ "heap (tps s)"]) (auto simp: sent_state_def restrict_map_def)
    have "es_mem ?s e = Some ?es" "pcbs (tcb ?s) t = Some (sent_pcb (heap (tps s)) pcb [a])"
      "\<forall>x\<in>set as. pool_buf (the (heap (tps ?s) x))"
      using Cons.prems(4) nin by (auto simp: sent_state_def restrict_map_def)
    from Cons.IH[OF this(1,2) pk this(3)] obtain xs ys q where R:
      "send_loop w ?s t e ERR_OK = Some (sent_state ?s t (sent_pcb (heap (tps s)) pcb [a]) e ?es xs q)" "as = xs @ ys"
      "packet (heap (tps ?s)) q ys"
      "ys = [] \<or> snd_buf (sent_pcb (heap (tps ?s)) (sent_pcb (heap (tps s)) pcb [a]) xs) < pb_len (the (heap (tps ?s) (hd ys))) \<or>
       fst (w (sent_pcb (heap (tps ?s)) (sent_pcb (heap (tps s)) pcb [a]) xs) (bytes (the (heap (tps ?s) (hd ys))))) \<noteq> ERR_OK" by blast
    have ax: "a \<notin> set xs" "a \<notin> set ys" using nin R(2) by auto
    have h: "heap (tps ?s) = heap (tps s) |` (- {a})" by (simp add: sent_state_def)
    have "packet (heap (tps s)) q ys"
      using R(3) ax(2) by (subst (asm) packet_cong[of _ _ "heap (tps s)"]) (auto simp: h restrict_map_def)
    moreover have "heap (tps ?s) (hd ys) = heap (tps s) (hd ys)" if "ys \<noteq> []"
      using ax(2) hd_in_set[OF that] by (auto simp: h restrict_map_def)
    ultimately show ?thesis
      using step R(1,2,4) sent_state_Cons[OF ax(1)] sent_pcb_Cons[OF ax(1)] unfolding h
      by (intro exI[of _ "a # xs"] exI[of _ ys] exI[of _ q]) auto
  qed
qed

text \<open>
  C31. \<open>tcp_echoclient_send\<close> ends on every packet and sends whole buffers in order: what it queued is
  the contents of the leading buffers, exactly these are back in the pool, and the rest is still
  a well-formed packet that the connection record points to.  It stops only at the end of the
  packet, when the send buffer is too small for the next buffer, or when \<open>tcp_write\<close> fails.
\<close>

theorem tcp_send_correct:
  assumes "tcp_write_contract w" "es_mem s e = Some es" "pcbs (tcb s) t = Some pcb"
    "packet (heap (tps s)) (es_p_tx es) as" "\<forall>a\<in>set as. pool_buf (the (heap (tps s) a))"
  shows "\<exists>s' xs ys es' pcb'. tcp_echoclient_send w s t e = Some s' \<and> as = xs @ ys \<and>
    es_mem s' e = Some es' \<and> packet (heap (tps s')) (es_p_tx es') ys \<and> (\<forall>a\<in>set ys. pool_buf (the (heap (tps s') a))) \<and>
    pool (tps s') = rev xs @ pool (tps s) \<and> (\<forall>a\<in>set xs. heap (tps s') a = None) \<and>
    pcbs (tcb s') t = Some pcb' \<and> queued pcb' = queued pcb @ contents (heap (tps s)) xs \<and>
    (ys = [] \<or> snd_buf pcb' < pb_len (the (heap (tps s) (hd ys))) \<or> fst (w pcb' (bytes (the (heap (tps s) (hd ys))))) \<noteq> ERR_OK)"
proof -
  from send_loop_spec[OF assms] obtain xs ys q where R: "send_loop w s t e ERR_OK = Some (sent_state s t pcb e es xs q)" "as = xs @ ys"
    "packet (heap (tps s)) q ys"
    "ys = [] \<or> snd_buf (sent_pcb (heap (tps s)) pcb xs) < pb_len (the (heap (tps s) (hd ys))) \<or>
     fst (w (sent_pcb (heap (tps s)) pcb xs) (bytes (the (heap (tps s) (hd ys))))) \<noteq> ERR_OK" by blast
  let ?s = "sent_state s t pcb e es xs q"
  have "distinct as" by (rule chain_distinct[OF packet_chain[OF assms(4)]])
  then have same: "heap (tps ?s) a = heap (tps s) a" if "a \<in> set ys" for a using that R(2) by (auto simp: sent_state_def restrict_map_def)
  have "packet (heap (tps ?s)) q ys" using R(3) packet_cong[OF same] by simp
  moreover have "\<forall>a\<in>set ys. pool_buf (the (heap (tps ?s) a))" using assms(5) R(2) same by auto
  moreover have "es_mem ?s e = Some (es\<lparr>es_p_tx := q\<rparr>)" "pcbs (tcb ?s) t = Some (sent_pcb (heap (tps s)) pcb xs)"
    "pool (tps ?s) = rev xs @ pool (tps s)" "\<forall>a\<in>set xs. heap (tps ?s) a = None"
    by (simp_all add: sent_state_def)
  moreover have "queued (sent_pcb (heap (tps s)) pcb xs) = queued pcb @ contents (heap (tps s)) xs" by (simp add: sent_pcb_def)
  ultimately show ?thesis using R(1,2,4)
    by (intro exI[of _ ?s] exI[of _ xs] exI[of _ ys] exI[of _ "es\<lparr>es_p_tx := q\<rparr>"] exI[of _ "sent_pcb (heap (tps s)) pcb xs"])
      (simp add: tcp_echoclient_send_def)
qed

text \<open>A \<open>tcp_write\<close> that accepts what fits the send buffer.\<close>

definition write_if_room :: writer where
  "write_if_room pcb xs = (if length xs \<le> snd_buf pcb then (ERR_OK, pcb\<lparr>queued := queued pcb @ xs, snd_buf := snd_buf pcb - length xs\<rparr>) else (ERR_MEM, pcb))"

lemma write_if_room_contract: "tcp_write_contract write_if_room"
  by (simp add: tcp_write_contract_def write_if_room_def)

definition lists1 :: tcp_lists where
  "lists1 = \<lparr>pcbs = [20 \<mapsto> pcb0\<lparr>tcp_state := ESTABLISHED\<rparr>], tcp_listen_pcbs = [], tcp_bound_pcbs = [], tcp_active_pcbs = [20], tcp_tw_pcbs = [], tcp_port = 50000\<rparr>"

definition tcp_client0 :: tcp_client where
  "tcp_client0 = \<lparr>tps = heap_two, tcb = lists1, es_mem = [30 \<mapsto> \<lparr>es_state = ES_CONNECTED, es_pcb = 20, es_p_tx = Some 1\<rparr>], pcb_pool = [],
     echoclient_pcb = Some 20, tcp_data = replicate 100 0, tcp_message_count = 0\<rparr>"

theorem tcp_send_correct_witness:
  "\<exists>s' xs ys es' pcb'. tcp_echoclient_send write_if_room tcp_client0 20 30 = Some s' \<and> [1, 2] = xs @ ys \<and>
    es_mem s' 30 = Some es' \<and> packet (heap (tps s')) (es_p_tx es') ys \<and> (\<forall>a\<in>set ys. pool_buf (the (heap (tps s') a))) \<and>
    pool (tps s') = rev xs @ pool (tps tcp_client0) \<and> (\<forall>a\<in>set xs. heap (tps s') a = None) \<and>
    pcbs (tcb s') 20 = Some pcb' \<and> queued pcb' = queued (pcb0\<lparr>tcp_state := ESTABLISHED\<rparr>) @ contents (heap (tps tcp_client0)) xs \<and>
    (ys = [] \<or> snd_buf pcb' < pb_len (the (heap (tps tcp_client0) (hd ys))) \<or>
     fst (write_if_room pcb' (bytes (the (heap (tps tcp_client0) (hd ys))))) \<noteq> ERR_OK)"
  by (rule tcp_send_correct[OF write_if_room_contract, where es = "\<lparr>es_state = ES_CONNECTED, es_pcb = 20, es_p_tx = Some 1\<rparr>"])
    (simp_all add: tcp_client0_def lists1_def heap_two_def link_def buf_ok_def pool_buf_def)

subsection \<open>A whole connection\<close>

lemma ping_text_facts: "length ping_text = 32" "CHR 0x00 \<notin> set ping_text"
  by (simp_all add: ping_text_def DEVICE_UID_def)

text \<open>The state in which the connection sends: the record at \<open>a\<close> owns the packet with the command.\<close>

lemma connected_prepare:
  assumes "pool_ok (tps s)" "length (pool (tps s)) < 256" "pool (tps s) \<noteq> []" "length (tcp_data s) = 100"
    "pcbs (tcb s) t = Some pcb" "tcp_state pcb \<noteq> LISTEN"
  shows "\<exists>s1 es as. es_mem s1 = (es_mem s)(a \<mapsto> es) \<and> packet (heap (tps s1)) (es_p_tx es) as \<and>
    contents (heap (tps s1)) as = text_bytes ping_text \<and> pool (tps s) = as @ pool (tps s1) \<and>
    (\<forall>x\<in>set as. pool_buf (the (heap (tps s1) x)) \<and> heap (tps s) x = None) \<and> (\<forall>x. x \<notin> set as \<longrightarrow> heap (tps s1) x = heap (tps s) x) \<and>
    pcbs (tcb s1) t = Some (pcb\<lparr>callback_arg := Some a, cb_recv := True, cb_sent := True, cb_poll := True, pollinterval := 1\<rparr>) \<and>
    tcp_echoclient_connected junk w (Some a) s t ERR_OK =
      do { s \<leftarrow> tcp_echoclient_send w s1 t a; s \<leftarrow> tcp_echoclient_connection_close s t (Some a); Some (s, ERR_OK) }"
proof -
  let ?t = "text_bytes ping_text"
  define m where "m = drop 33 (tcp_data s)"
  have cp: "strcpy (tcp_data s) ?t = Some (?t @ 0 # m)" using strcpy_eq[of ?t "tcp_data s"] assms(4) ping_text_facts by (simp add: m_def)
  have sl: "strlen (?t @ 0 # m) = Some (length ?t)" using ping_text_facts by (intro strlen_append) simp
  have fit: "length ?t < 2 ^ 16" "bufs_for PBUF_TRANSPORT (length ?t) \<le> length (pool (tps s))"
    using bufs_for_small[of "length ?t"] ping_text_facts assms(3) by (auto simp: Suc_le_eq)
  from alloc_take_spec[OF assms(1,2) fit, of junk None] obtain h1 p h2 as where A:
    "pbuf_alloc junk None (tps s) PBUF_TRANSPORT (length ?t) PBUF_POOL = Some (h1, Some p)"
    "pbuf_take h1 (Some p) ?t = Some (h2, ERR_OK)" "packet (heap h2) (Some p) as" "contents (heap h2) as = ?t"
    "pool (tps s) = as @ pool h2" "\<forall>x\<in>set as. pool_buf (the (heap h2 x)) \<and> heap (tps s) x = None"
    "\<forall>x. x \<notin> set as \<longrightarrow> heap h2 x = heap (tps s) x" by blast
  let ?es = "\<lparr>es_state = ES_CONNECTED, es_pcb = t, es_p_tx = Some p\<rparr>"
  let ?pcb = "pcb\<lparr>callback_arg := Some a, cb_recv := True, cb_sent := True, cb_poll := True, pollinterval := 1\<rparr>"
  define s1 where "s1 = set_pcb ((set_es s a ?es)\<lparr>tcp_data := ?t @ 0 # m, tps := h2\<rparr>) t ?pcb"
  have "tcp_echoclient_connected junk w (Some a) s t ERR_OK =
      do { s \<leftarrow> tcp_echoclient_send w s1 t a; s \<leftarrow> tcp_echoclient_connection_close s t (Some a); Some (s, ERR_OK) }"
    using cp sl A(1,2) assms(5,6)
    by (simp add: tcp_echoclient_connected_def s1_def set_es_def Let_def tcp_arg_def tcp_recv_def tcp_sent_def tcp_poll_def)
  moreover have "es_mem s1 = (es_mem s)(a \<mapsto> ?es)" "tps s1 = h2" "pcbs (tcb s1) t = Some ?pcb"
    by (simp_all add: s1_def set_pcb_def set_es_def)
  ultimately show ?thesis
    using A(3-7) by (intro exI[of _ s1] exI[of _ ?es] exI[of _ as]) simp
qed

lemma close_spec:
  assumes "pcbs (tcb s) t = Some pcb" "tcp_state pcb \<noteq> LISTEN" "es_mem s a \<noteq> None"
  shows "tcp_echoclient_connection_close s t (Some a) =
    Some (set_pcb (s\<lparr>es_mem := (es_mem s)(a := None)\<rparr>) t
      (pcb\<lparr>cb_recv := False, cb_sent := False, cb_poll := False, pollinterval := 0, close_called := True\<rparr>))"
  using assms by (simp add: tcp_echoclient_connection_close_def tcp_recv_def tcp_sent_def tcp_poll_def)

text \<open>
  When the pool has a buffer, the send buffer has room and \<open>tcp_write\<close> accepts the data, the
  connected callback queues exactly the \<open>PING\<close> command, unregisters its callbacks, closes, and
  gives back all memory: the pool, the heap and the connection records are as before.
\<close>

theorem connected_sends_ping:
  assumes "pool_ok (tps s)" "length (pool (tps s)) < 256" "pool (tps s) \<noteq> []" "length (tcp_data s) = 100"
    "pcbs (tcb s) t = Some pcb" "tcp_state pcb \<noteq> LISTEN" "es_mem s a = None" "length ping_text \<le> snd_buf pcb"
    "tcp_write_contract w" "\<And>pcb xs. length xs \<le> snd_buf pcb \<Longrightarrow> fst (w pcb xs) = ERR_OK"
  shows "\<exists>s' pcb'. tcp_echoclient_connected junk w (Some a) s t ERR_OK = Some (s', ERR_OK) \<and>
    pcbs (tcb s') t = Some pcb' \<and> queued pcb' = queued pcb @ text_bytes ping_text \<and> close_called pcb' \<and>
    \<not> cb_recv pcb' \<and> \<not> cb_sent pcb' \<and> \<not> cb_poll pcb' \<and>
    es_mem s' = es_mem s \<and> mset (pool (tps s')) = mset (pool (tps s)) \<and> heap (tps s') = heap (tps s)"
proof -
  from connected_prepare[OF assms(1-6), of a junk w] obtain s1 es as where P: "es_mem s1 = (es_mem s)(a \<mapsto> es)"
    "packet (heap (tps s1)) (es_p_tx es) as" "contents (heap (tps s1)) as = text_bytes ping_text" "pool (tps s) = as @ pool (tps s1)"
    "\<forall>x\<in>set as. pool_buf (the (heap (tps s1) x)) \<and> heap (tps s) x = None" "\<forall>x. x \<notin> set as \<longrightarrow> heap (tps s1) x = heap (tps s) x"
    "pcbs (tcb s1) t = Some (pcb\<lparr>callback_arg := Some a, cb_recv := True, cb_sent := True, cb_poll := True, pollinterval := 1\<rparr>)"
    "tcp_echoclient_connected junk w (Some a) s t ERR_OK =
      do { s \<leftarrow> tcp_echoclient_send w s1 t a; s \<leftarrow> tcp_echoclient_connection_close s t (Some a); Some (s, ERR_OK) }" by blast
  let ?pcb = "pcb\<lparr>callback_arg := Some a, cb_recv := True, cb_sent := True, cb_poll := True, pollinterval := 1\<rparr>"
  let ?h = "heap (tps s1)"
  have "es_mem s1 a = Some es" "\<forall>x\<in>set as. pool_buf (the (?h x))" using P(1,5) by simp_all
  from send_loop_spec[OF assms(9) this(1) P(7,2) this(2)] obtain xs ys q where R:
    "send_loop w s1 t a ERR_OK = Some (sent_state s1 t ?pcb a es xs q)" "as = xs @ ys"
    "ys = [] \<or> snd_buf (sent_pcb ?h ?pcb xs) < pb_len (the (?h (hd ys))) \<or> fst (w (sent_pcb ?h ?pcb xs) (bytes (the (?h (hd ys))))) \<noteq> ERR_OK"
    by blast
  have tot: "total_len ?h as \<le> snd_buf pcb" using length_contents[OF P(2)] P(3) assms(8) by simp
  have "ys = []"
  proof (rule ccontr)
    assume "ys \<noteq> []"
    then obtain y ys' where y: "ys = y # ys'" by (cases ys) auto
    have "total_len ?h as = total_len ?h xs + pb_len (the (?h y)) + total_len ?h ys'" by (simp add: R(2) y total_len_def)
    then have room: "pb_len (the (?h y)) \<le> snd_buf (sent_pcb ?h ?pcb xs)" using tot by (simp add: sent_pcb_def)
    moreover have "length (bytes (the (?h y))) = pb_len (the (?h y))" using packet_buf_ok[OF P(2), of y] R(2) y by simp
    ultimately show False using R(3) y assms(10)[of "bytes (the (?h y))" "sent_pcb ?h ?pcb xs"] by simp
  qed
  then have xs: "xs = as" using R(2) by simp
  let ?s2 = "sent_state s1 t ?pcb a es as q"
  have "pcbs (tcb ?s2) t = Some (sent_pcb ?h ?pcb as)" "tcp_state (sent_pcb ?h ?pcb as) \<noteq> LISTEN" "es_mem ?s2 a \<noteq> None"
    using assms(6) by (simp_all add: sent_state_def sent_pcb_def)
  note cl = close_spec[OF this]
  have em: "(es_mem ?s2)(a := None) = es_mem s" using P(1) assms(7) by (auto simp: sent_state_def)
  have hp: "heap (tps ?s2) = heap (tps s)" using P(5,6) by (auto simp: sent_state_def restrict_map_def)
  have pl: "mset (pool (tps ?s2)) = mset (pool (tps s))" using P(4) by (simp add: sent_state_def)
  have run: "tcp_echoclient_connected junk w (Some a) s t ERR_OK = Some (set_pcb (?s2\<lparr>es_mem := es_mem s\<rparr>) t
      ((sent_pcb ?h ?pcb as)\<lparr>cb_recv := False, cb_sent := False, cb_poll := False, pollinterval := 0, close_called := True\<rparr>), ERR_OK)"
    using P(8) R(1) cl em unfolding xs by (simp add: tcp_echoclient_send_def)
  have "queued (sent_pcb ?h ?pcb as) = queued pcb @ text_bytes ping_text" using P(3) by (simp add: sent_pcb_def)
  with run hp pl show ?thesis by (simp add: set_pcb_def)
qed

text \<open>A client with a free pool whose connection has just been established.\<close>

definition tcp_client1 :: tcp_client where
  "tcp_client1 = \<lparr>tps = pstate_init 40 12 100 16, tcb = lists1, es_mem = Map.empty, pcb_pool = [],
     echoclient_pcb = Some 20, tcp_data = replicate 100 0, tcp_message_count = 0\<rparr>"

lemma tcp_client1_facts:
  "pool_ok (tps tcp_client1)" "length (pool (tps tcp_client1)) < 256" "pool (tps tcp_client1) \<noteq> []" "length (tcp_data tcp_client1) = 100"
  "pcbs (tcb tcp_client1) 20 = Some (pcb0\<lparr>tcp_state := ESTABLISHED\<rparr>)" "tcp_state (pcb0\<lparr>tcp_state := ESTABLISHED\<rparr>) \<noteq> LISTEN"
  "es_mem tcp_client1 30 = None"
proof -
  have "length (pool (tps tcp_client1)) = 12" by (simp add: tcp_client1_def)
  then show "pool (tps tcp_client1) \<noteq> []" "length (pool (tps tcp_client1)) < 256" by auto
qed (simp_all add: tcp_client1_def lists1_def)

theorem connected_sends_ping_witness:
  "\<exists>s' pcb'. tcp_echoclient_connected (\<lambda>_. 0) write_if_room (Some 30) tcp_client1 20 ERR_OK = Some (s', ERR_OK) \<and>
    pcbs (tcb s') 20 = Some pcb' \<and> queued pcb' = queued (pcb0\<lparr>tcp_state := ESTABLISHED\<rparr>) @ text_bytes ping_text \<and> close_called pcb' \<and>
    \<not> cb_recv pcb' \<and> \<not> cb_sent pcb' \<and> \<not> cb_poll pcb' \<and>
    es_mem s' = es_mem tcp_client1 \<and> mset (pool (tps s')) = mset (pool (tps tcp_client1)) \<and> heap (tps s') = heap (tps tcp_client1)"
  by (rule connected_sends_ping[OF tcp_client1_facts _ write_if_room_contract])
    (simp_all add: write_if_room_def ping_text_facts pcb0_def TCP_MSS_def)

text \<open>
  C32. When \<open>tcp_write\<close> is out of memory the callback leaks the packet: it closes at once and frees
  the connection record, which held the only pointer to the packet, so that the buffers are
  neither in the pool nor reachable any more and the retry by the poll callback never happens.
\<close>

theorem connected_leaks_packet:
  assumes "pool_ok (tps s)" "length (pool (tps s)) < 256" "pool (tps s) \<noteq> []" "length (tcp_data s) = 100"
    "pcbs (tcb s) t = Some pcb" "tcp_state pcb \<noteq> LISTEN" "es_mem s a = None"
    "tcp_write_contract w" "\<And>pcb xs. fst (w pcb xs) = ERR_MEM"
  shows "\<exists>s' p. tcp_echoclient_connected junk w (Some a) s t ERR_OK = Some (s', ERR_OK) \<and> es_mem s' = es_mem s \<and>
    p \<in> set (pool (tps s)) \<and> p \<notin> set (pool (tps s')) \<and> heap (tps s') p \<noteq> None \<and>
    map_option cb_poll (pcbs (tcb s') t) = Some False"
proof -
  from connected_prepare[OF assms(1-6), of a junk w] obtain s1 es as where P: "es_mem s1 = (es_mem s)(a \<mapsto> es)"
    "packet (heap (tps s1)) (es_p_tx es) as" "contents (heap (tps s1)) as = text_bytes ping_text" "pool (tps s) = as @ pool (tps s1)"
    "pcbs (tcb s1) t = Some (pcb\<lparr>callback_arg := Some a, cb_recv := True, cb_sent := True, cb_poll := True, pollinterval := 1\<rparr>)"
    "tcp_echoclient_connected junk w (Some a) s t ERR_OK =
      do { s \<leftarrow> tcp_echoclient_send w s1 t a; s \<leftarrow> tcp_echoclient_connection_close s t (Some a); Some (s, ERR_OK) }" by blast
  let ?pcb = "pcb\<lparr>callback_arg := Some a, cb_recv := True, cb_sent := True, cb_poll := True, pollinterval := 1\<rparr>"
  have "contents (heap (tps s1)) as \<noteq> []" using P(3) ping_text_facts by (auto simp flip: length_greater_0_conv)
  with P(2) obtain p as' b where p: "as = p # as'" "es_p_tx es = Some p" "heap (tps s1) p = Some b" "buf_ok b"
    by (cases as) auto
  have es: "es_mem s1 a = Some es" using P(1) by simp
  have stop: "send_loop w s1 t a ERR_OK = Some s1"
    using assms(9) by (intro send_loop_stop[OF assms(8) es P(5) p(2,3,4)]) simp
  have "tcp_state ?pcb \<noteq> LISTEN" "es_mem s1 a \<noteq> None" using assms(6) es by simp_all
  note cl = close_spec[OF P(5) this]
  have em: "(es_mem s1)(a := None) = es_mem s" using P(1) assms(7) by auto
  have "p \<notin> set (pool (tps s1))" using assms(1) P(4) p(1) by (auto simp: pool_ok_def)
  moreover have "p \<in> set (pool (tps s))" using P(4) p(1) by simp
  ultimately show ?thesis using P(6) stop cl em p(3) by (auto simp: tcp_echoclient_send_def set_pcb_def intro!: exI[of _ p])
qed

theorem connected_leaks_packet_witness:
  "\<exists>s' p. tcp_echoclient_connected (\<lambda>_. 0) (\<lambda>pcb _. (ERR_MEM, pcb)) (Some 30) tcp_client1 20 ERR_OK = Some (s', ERR_OK) \<and>
    es_mem s' = es_mem tcp_client1 \<and> p \<in> set (pool (tps tcp_client1)) \<and> p \<notin> set (pool (tps s')) \<and> heap (tps s') p \<noteq> None \<and>
    map_option cb_poll (pcbs (tcb s') 20) = Some False"
  by (rule connected_leaks_packet[OF tcp_client1_facts]) (simp_all add: tcp_write_contract_def)

text \<open>
  A connection attempt that fails after the control block was bound leaves a dangling pointer:
  the block is given back to the pool with \<open>memp_free\<close> while \<open>tcp_bound_pcbs\<close> still contains it.
\<close>

theorem connect_failure_dangles:
  assumes "pcbs (tcb s) t = Some pcb" "tcp_state pcb = CLOSED"
    "any_pcb (pcbs (tcb s)) (\<lambda>c. local_port c = PORT \<and> (ip_addr_isany (local_ip c) \<or> local_ip c = IP_ADDR)) (tcp_pcb_lists (tcb s)) = Some False"
    "\<And>x. fst (enqueue x) = ERR_MEM"
  shows "\<exists>s'. tcp_echoclient_connect route iss enqueue output (Some t) s = Some s' \<and>
    t \<in> set (tcp_bound_pcbs (tcb s')) \<and> t \<in> set (pcb_pool s')"
proof -
  have any: "ip_addr_isany IP_ADDR = False" by (simp add: ip_addr_isany_def IP_ADDR_def)
  obtain f where f: "enqueue = (\<lambda>x. (ERR_MEM, f x))"
    using assms(4) that[of "\<lambda>x. snd (enqueue x)"] by (simp add: fun_eq_iff prod_eq_iff)
  let ?l = "(tcb s)\<lparr>pcbs := (pcbs (tcb s))(t \<mapsto> pcb\<lparr>local_ip := IP_ADDR, local_port := PORT\<rparr>), tcp_bound_pcbs := t # tcp_bound_pcbs (tcb s)\<rparr>"
  have "tcp_bind (tcb s) t IP_ADDR PORT = Some (?l, ERR_OK)"
    using assms(1,2,3) any by (simp add: tcp_bind_def PORT_def)
  moreover have "\<exists>l'. tcp_connect route iss enqueue output ?l t DEST_IP_ADDR DEST_PORT = Some (l', ERR_MEM) \<and> tcp_bound_pcbs l' = tcp_bound_pcbs ?l"
    using assms(2) any unfolding f by (auto simp: tcp_connect_def Let_def PORT_def)
  ultimately show ?thesis by (auto simp: tcp_echoclient_connect_def memp_free_def)
qed

definition lists2 :: tcp_lists where
  "lists2 = lists1\<lparr>pcbs := [20 \<mapsto> pcb0], tcp_active_pcbs := []\<rparr>"

theorem connect_failure_dangles_witness:
  "\<exists>s'. tcp_echoclient_connect None 6510 (\<lambda>pcb. (ERR_MEM, pcb)) id (Some 20) (tcp_client1\<lparr>tcb := lists2\<rparr>) = Some s' \<and>
    20 \<in> set (tcp_bound_pcbs (tcb s')) \<and> 20 \<in> set (pcb_pool s')"
  by (rule connect_failure_dangles[where pcb = pcb0]) (simp_all add: lists2_def lists1_def tcp_pcb_lists_def pcb0_def)

text \<open>
  When the pool is empty the callback reports success, but the connection stays open without
  callbacks and the connection record is never freed.
\<close>

theorem connected_without_buffer:
  assumes "pool (tps s) = []" "length (tcp_data s) = 100"
  shows "\<exists>s'. tcp_echoclient_connected junk w (Some a) s t ERR_OK = Some (s', ERR_OK) \<and> es_mem s' a \<noteq> None \<and> tcb s' = tcb s"
proof -
  let ?t = "text_bytes ping_text"
  have "strcpy (tcp_data s) ?t = Some (?t @ 0 # drop 33 (tcp_data s))" using strcpy_eq[of ?t "tcp_data s"] assms(2) ping_text_facts by simp
  moreover have "strlen (?t @ 0 # drop 33 (tcp_data s)) = Some (length ?t)" using ping_text_facts by (intro strlen_append) simp
  moreover have "pbuf_alloc junk None (tps s) PBUF_TRANSPORT (length ?t) PBUF_POOL = Some (tps s, None)"
    using assms(1) by (simp add: pbuf_alloc_def memp_malloc_def)
  ultimately show ?thesis by (simp add: tcp_echoclient_connected_def set_es_def Let_def)
qed

theorem connected_without_buffer_witness:
  "\<exists>s'. tcp_echoclient_connected (\<lambda>_. 0) write_if_room (Some 31) tcp_client0 20 ERR_OK = Some (s', ERR_OK) \<and>
    es_mem s' 31 \<noteq> None \<and> tcb s' = tcb tcp_client0"
  by (rule connected_without_buffer) (simp_all add: tcp_client0_def heap_two_def)

end
