(* ===== verification/EthDriver.thy ===== *)
theory EthDriver
  imports Pbuf
begin

text \<open>
  The Ethernet driver between LwIP and the DMA engine: frame output and input of
  \<open>src/concentrator-1/Src/ethernetif.c\<close> and the two functions of the hardware library they call
  (\<open>HAL_ETH_TransmitFrame\<close> and \<open>HAL_ETH_GetReceivedFrame\<close> of \<open>stm32f4xx_hal_eth.c\<close>).  The rings
  of descriptors are lists with an index for the current one; \<open>Buffer2NextDescAddr\<close> of a
  descriptor is the next index, cyclically.
\<close>

subsection \<open>Descriptors\<close>

text \<open>The OWN, FS and LS bits, the buffer size field, the frame length field and the buffer.\<close>

record desc =
  d_own :: bool
  d_fs :: bool
  d_ls :: bool
  d_size :: nat
  d_fl :: nat
  d_buf :: "byte list"

datatype hal_state = HAL_ETH_STATE_READY | HAL_ETH_STATE_BUSY | HAL_ETH_STATE_BUSY_TX

text \<open>
  The handle: rings, current descriptors, information on the received frame, the lock, the
  state, the status flags of the DMA and the number of poll demands written.
\<close>

record eth =
  tx_ring :: "desc list"
  tx_cur :: nat
  rx_ring :: "desc list"
  rx_cur :: nat
  fs_desc :: "nat option"
  ls_desc :: "nat option"
  rx_length :: nat
  rx_buffer :: "nat option"
  seg_count :: nat
  locked :: bool
  hal_state :: hal_state
  tbus :: bool
  tus :: bool
  rbus :: bool
  tx_demands :: nat
  rx_demands :: nat

datatype hal_status = HAL_OK | HAL_ERROR | HAL_BUSY

definition ETH_TX_BUF_SIZE :: nat where
  "ETH_TX_BUF_SIZE = 1524"

definition ETH_RX_BUF_SIZE :: nat where
  "ETH_RX_BUF_SIZE = 1524"

definition next_desc :: "desc list \<Rightarrow> nat \<Rightarrow> nat" where
  "next_desc ring d = (d + 1) mod length ring"

subsection \<open>Transmission (hardware library)\<close>

text \<open>The loop over the \<open>bufcount\<close> descriptors of a frame, from round \<open>i\<close> on.\<close>

function transmit_loop :: "desc list \<Rightarrow> nat \<Rightarrow> nat \<Rightarrow> nat \<Rightarrow> nat \<Rightarrow> (desc list \<times> nat) option" where
  "transmit_loop ring d frame_length bufcount i =
     (if \<not> i < bufcount then Some (ring, d)
      else if \<not> d < length ring then None
      else let t = (ring ! d)\<lparr>d_fs := i = 0, d_ls := i = bufcount - 1,
                    d_size := (if i = bufcount - 1 then frame_length - (bufcount - 1) * ETH_TX_BUF_SIZE else ETH_TX_BUF_SIZE),
                    d_own := True\<rparr>
           in transmit_loop (ring[d := t]) (next_desc ring d) frame_length bufcount (i + 1))"
  by auto
termination by (relation "measure (\<lambda>(_, _, _, n, i). n - i)") auto

declare transmit_loop.simps [simp del]

definition buf_count :: "nat \<Rightarrow> nat" where
  "buf_count frame_length =
     (if ETH_TX_BUF_SIZE < frame_length
      then frame_length div ETH_TX_BUF_SIZE + (if frame_length mod ETH_TX_BUF_SIZE \<noteq> 0 then 1 else 0)
      else 1)"

definition HAL_ETH_TransmitFrame :: "eth \<Rightarrow> nat \<Rightarrow> (eth \<times> hal_status) option" where
  "HAL_ETH_TransmitFrame e frame_length =
     (if locked e then Some (e, HAL_BUSY)
      else if frame_length = 0 then Some (e\<lparr>hal_state := HAL_ETH_STATE_READY\<rparr>, HAL_ERROR)
      else if \<not> tx_cur e < length (tx_ring e) then None
      else if d_own (tx_ring e ! tx_cur e) then Some (e\<lparr>hal_state := HAL_ETH_STATE_BUSY_TX\<rparr>, HAL_ERROR)
      else do { (ring, d) \<leftarrow>
                  (if buf_count frame_length = 1
                   then let t = (tx_ring e ! tx_cur e)\<lparr>d_fs := True, d_ls := True, d_size := frame_length, d_own := True\<rparr>
                        in Some ((tx_ring e)[tx_cur e := t], next_desc (tx_ring e) (tx_cur e))
                   else transmit_loop (tx_ring e) (tx_cur e) frame_length (buf_count frame_length) 0);
                let e = e\<lparr>tx_ring := ring, tx_cur := d, hal_state := HAL_ETH_STATE_READY\<rparr>
                in Some (if tbus e then e\<lparr>tbus := False, tx_demands := tx_demands e + 1\<rparr> else e, HAL_OK) })"

subsection \<open>Output (ethernetif.c)\<close>

text \<open>
  Copy the rest of the payload of \<open>b\<close> from \<open>payloadoffset\<close> on into the descriptors from \<open>d\<close> on,
  \<open>bufferoffset\<close> bytes of which are filled.  \<open>Inl\<close> is the jump to the error label.
\<close>

function copy_out :: "desc list \<Rightarrow> nat \<Rightarrow> nat \<Rightarrow> pbuf \<Rightarrow> nat \<Rightarrow> nat \<Rightarrow> nat \<Rightarrow>
    (desc list \<times> err + desc list \<times> nat \<times> nat \<times> nat) option" where
  "copy_out ring d bufferoffset b payloadoffset byteslefttocopy framelength =
     (if \<not> (d < length ring \<and> bufferoffset \<le> ETH_TX_BUF_SIZE) then None
      else if ETH_TX_BUF_SIZE < byteslefttocopy + bufferoffset
      then let n = ETH_TX_BUF_SIZE - bufferoffset
           in Option.bind (payload_read b payloadoffset n) (\<lambda>xs.
              Option.bind (mem_write (d_buf (ring ! d)) bufferoffset xs) (\<lambda>m.
                let ring = ring[d := (ring ! d)\<lparr>d_buf := m\<rparr>];
                    d = next_desc ring d
                in if d_own (ring ! d) then Some (Inl (ring, ERR_USE))
                   else copy_out ring d 0 b (payloadoffset + n) (byteslefttocopy - n) (framelength + n)))
      else Option.bind (payload_read b payloadoffset byteslefttocopy) (\<lambda>xs.
           Option.bind (mem_write (d_buf (ring ! d)) bufferoffset xs) (\<lambda>m.
             Some (Inr (ring[d := (ring ! d)\<lparr>d_buf := m\<rparr>], d, bufferoffset + byteslefttocopy, framelength + byteslefttocopy)))))"
  by auto
termination
  by (relation "measure (\<lambda>(_, _, off, _, _, left, _). left + off)") (auto simp: ETH_TX_BUF_SIZE_def)

declare copy_out.simps [simp del]

text \<open>The loop over the packet.\<close>

partial_function (option) output_loop :: "pstate \<Rightarrow> desc list \<Rightarrow> nat \<Rightarrow> nat \<Rightarrow> nat \<Rightarrow> addr option \<Rightarrow>
    (desc list \<times> err + desc list \<times> nat) option" where
  "output_loop s ring d bufferoffset framelength q =
     (case q of
        None \<Rightarrow> Some (Inr (ring, framelength))
      | Some a \<Rightarrow>
          if \<not> d < length ring then None
          else if d_own (ring ! d) then Some (Inl (ring, ERR_USE))
          else Option.bind (heap s a) (\<lambda>b.
               Option.bind (copy_out ring d bufferoffset b 0 (pb_len b) framelength) (\<lambda>r.
                 case r of
                   Inl (ring, e) \<Rightarrow> Some (Inl (ring, e))
                 | Inr (ring, d, bufferoffset, framelength) \<Rightarrow> output_loop s ring d bufferoffset framelength (pb_next b))))"

text \<open>The status of \<open>HAL_ETH_TransmitFrame\<close> is ignored.\<close>

definition low_level_output :: "pstate \<Rightarrow> eth \<Rightarrow> addr \<Rightarrow> (eth \<times> err) option" where
  "low_level_output s e p =
     do { r \<leftarrow> output_loop s (tx_ring e) (tx_cur e) 0 0 (Some p);
          (e, errval) \<leftarrow> (case r of
                            Inl (ring, errval) \<Rightarrow> Some (e\<lparr>tx_ring := ring\<rparr>, errval)
                          | Inr (ring, framelength) \<Rightarrow>
                              do { (e, _) \<leftarrow> HAL_ETH_TransmitFrame (e\<lparr>tx_ring := ring\<rparr>) framelength; Some (e, ERR_OK) });
          Some (if tus e then e\<lparr>tus := False, tx_demands := tx_demands e + 1\<rparr> else e, errval) }"

subsection \<open>Reception (hardware library)\<close>

definition HAL_ETH_GetReceivedFrame :: "eth \<Rightarrow> (eth \<times> hal_status) option" where
  "HAL_ETH_GetReceivedFrame e =
     (if locked e then Some (e, HAL_BUSY)
      else if \<not> rx_cur e < length (rx_ring e) then None
      else let d = rx_ring e ! rx_cur e;
               nx = next_desc (rx_ring e) (rx_cur e)
           in let e = e\<lparr>hal_state := HAL_ETH_STATE_READY\<rparr>
              in if d_own d then Some (e, HAL_ERROR)
              else if d_ls d
              then let e = e\<lparr>seg_count := seg_count e + 1\<rparr>;
                       e = (if seg_count e = 1 then e\<lparr>fs_desc := Some (rx_cur e)\<rparr> else e)
                   in Some (e\<lparr>ls_desc := Some (rx_cur e), rx_length := nat ((int (d_fl d) - 4) mod 2 ^ 32), rx_buffer := fs_desc e, rx_cur := nx\<rparr>, HAL_OK)
              else if d_fs d
              then Some (e\<lparr>fs_desc := Some (rx_cur e), ls_desc := None, seg_count := 1, rx_cur := nx\<rparr>, HAL_ERROR)
              else Some (e\<lparr>seg_count := seg_count e + 1, rx_cur := nx\<rparr>, HAL_ERROR))"

subsection \<open>Input (ethernetif.c)\<close>

text \<open>Fill the payload of \<open>b\<close> from \<open>payloadoffset\<close> on with the bytes of the descriptors from \<open>d\<close> on.\<close>

function copy_in :: "desc list \<Rightarrow> nat \<Rightarrow> nat \<Rightarrow> pbuf \<Rightarrow> nat \<Rightarrow> nat \<Rightarrow> (pbuf \<times> nat \<times> nat) option" where
  "copy_in ring d bufferoffset b payloadoffset byteslefttocopy =
     (if \<not> (d < length ring \<and> bufferoffset \<le> ETH_RX_BUF_SIZE) then None
      else if ETH_RX_BUF_SIZE < byteslefttocopy + bufferoffset
      then let n = ETH_RX_BUF_SIZE - bufferoffset
           in Option.bind (mem_read (d_buf (ring ! d)) bufferoffset n) (\<lambda>xs.
              Option.bind (payload_write b payloadoffset xs) (\<lambda>b.
                copy_in ring (next_desc ring d) 0 b (payloadoffset + n) (byteslefttocopy - n)))
      else Option.bind (mem_read (d_buf (ring ! d)) bufferoffset byteslefttocopy) (\<lambda>xs.
           Option.bind (payload_write b payloadoffset xs) (\<lambda>b. Some (b, d, bufferoffset + byteslefttocopy))))"
  by auto
termination
  by (relation "measure (\<lambda>(_, _, off, _, _, left). left + off)") (auto simp: ETH_RX_BUF_SIZE_def)

declare copy_in.simps [simp del]

partial_function (option) input_loop :: "pstate \<Rightarrow> desc list \<Rightarrow> nat \<Rightarrow> nat \<Rightarrow> addr option \<Rightarrow> pstate option" where
  "input_loop s ring d bufferoffset q =
     (case q of
        None \<Rightarrow> Some s
      | Some a \<Rightarrow>
          Option.bind (heap s a) (\<lambda>b.
          Option.bind (copy_in ring d bufferoffset b 0 (pb_len b)) (\<lambda>(b', d, bufferoffset).
            input_loop (put s a b') ring d bufferoffset (pb_next b))))"

text \<open>Give \<open>n\<close> descriptors from \<open>d\<close> on back to the DMA.\<close>

fun give_back :: "desc list \<Rightarrow> nat \<Rightarrow> nat \<Rightarrow> desc list option" where
  "give_back ring d 0 = Some ring"
| "give_back ring d (Suc n) =
     (if d < length ring
      then give_back (ring[d := (ring ! d)\<lparr>d_own := True, d_fs := False, d_ls := False, d_fl := 0\<rparr>]) (next_desc ring d) n
      else None)"

definition low_level_input :: "(nat \<Rightarrow> byte) \<Rightarrow> pstate \<Rightarrow> eth \<Rightarrow> (pstate \<times> eth \<times> addr option) option" where
  "low_level_input junk s e =
     do { (e, st) \<leftarrow> HAL_ETH_GetReceivedFrame e;
          if st \<noteq> HAL_OK then Some (s, e, None)
          else do { fs \<leftarrow> fs_desc e;
                    (s, p) \<leftarrow> pbuf_alloc junk None s PBUF_RAW (w16 (rx_length e)) PBUF_POOL;
                    s \<leftarrow> (if p \<noteq> None then input_loop s (rx_ring e) fs 0 p else Some s);
                    ring \<leftarrow> give_back (rx_ring e) fs (seg_count e);
                    let e = e\<lparr>rx_ring := ring, seg_count := 0\<rparr>
                    in Some (s, if rbus e then e\<lparr>rbus := False, rx_demands := rx_demands e + 1\<rparr> else e, p) } }"

text \<open>\<open>input\<close> is the entry point of the stack, \<open>ethernet_input\<close>.\<close>

definition ethernetif_input ::
    "(nat \<Rightarrow> byte) \<Rightarrow> (pstate \<Rightarrow> addr \<Rightarrow> (pstate \<times> err) option) \<Rightarrow> pstate \<Rightarrow> eth \<Rightarrow> (pstate \<times> eth) option" where
  "ethernetif_input junk input s e =
     do { (s, e, p) \<leftarrow> low_level_input junk s e;
          case p of
            None \<Rightarrow> Some (s, e)
          | Some p \<Rightarrow>
              do { (s, err) \<leftarrow> input s p;
                   if err \<noteq> ERR_OK then do { (s, _) \<leftarrow> pbuf_free s (Some p); Some (s, e) } else Some (s, e) } }"

subsection \<open>The bytes in a ring\<close>

text \<open>
  The \<open>i\<close>-th descriptor from \<open>c\<close> on, and the bytes in the first \<open>j\<close> buffers followed by \<open>off\<close>
  bytes of the next one.
\<close>

definition slot :: "desc list \<Rightarrow> nat \<Rightarrow> nat \<Rightarrow> desc" where
  "slot ring c i = ring ! ((c + i) mod length ring)"

definition filled :: "desc list \<Rightarrow> nat \<Rightarrow> nat \<Rightarrow> nat \<Rightarrow> byte list" where
  "filled ring c j off = concat (map (\<lambda>i. d_buf (slot ring c i)) [0..<j]) @ take off (d_buf (slot ring c j))"

definition ring_ok :: "desc list \<Rightarrow> bool" where
  "ring_ok ring \<longleftrightarrow> ring \<noteq> [] \<and> (\<forall>x\<in>set ring. length (d_buf x) = ETH_TX_BUF_SIZE)"

lemma mod_add_inj:
  assumes "(c + i) mod n = (c + j) mod n" "i < n" "j < (n :: nat)"
  shows "i = j"
proof -
  from arg_cong[OF assms(1), of int] have "(int c + int i) mod int n = (int c + int j) mod int n" by (simp add: of_nat_mod)
  from mod_diff_cong[OF this refl[of "int c mod int n"]] have "int i mod int n = int j mod int n" by simp
  then show ?thesis using assms(2,3) by simp
qed

lemma slot_upd:
  assumes "i < length ring" "j < length ring"
  shows "slot (ring[(c + j) mod length ring := x]) c i = (if i = j then x else slot ring c i)"
proof -
  have "(c + j) mod length ring < length ring" using assms by (intro mod_less_divisor) auto
  then show ?thesis using mod_add_inj[of c i "length ring" j] assms by (auto simp: slot_def nth_list_update)
qed

lemma next_slot: "next_desc ring ((c + j) mod length ring) = (c + Suc j) mod length ring"
  by (simp add: next_desc_def mod_Suc_eq)

lemma filled_next: "length (d_buf (slot ring c j)) = n \<Longrightarrow> filled ring c (Suc j) 0 = filled ring c j n"
  by (simp add: filled_def)

lemma filled_write:
  assumes "j < length ring" "off + length xs \<le> length (d_buf (slot ring c j))"
    "mem_write (d_buf (slot ring c j)) off xs = Some m"
  shows "filled (ring[(c + j) mod length ring := (slot ring c j)\<lparr>d_buf := m\<rparr>]) c j (off + length xs) = filled ring c j off @ xs"
proof -
  have m: "m = take off (d_buf (slot ring c j)) @ xs @ drop (off + length xs) (d_buf (slot ring c j))"
    using assms(2,3) by (auto simp: mem_write_def split: if_splits)
  have "map (\<lambda>i. d_buf (slot (ring[(c + j) mod length ring := (slot ring c j)\<lparr>d_buf := m\<rparr>]) c i)) [0..<j] =
      map (\<lambda>i. d_buf (slot ring c i)) [0..<j]"
    using assms(1) by (simp add: slot_upd)
  from arg_cong[OF this, of concat] have "concat (map (\<lambda>i. d_buf (slot (ring[(c + j) mod length ring := (slot ring c j)\<lparr>d_buf := m\<rparr>]) c i)) [0..<j]) =
      concat (map (\<lambda>i. d_buf (slot ring c i)) [0..<j])" .
  moreover have "take (off + length xs) m = take off (d_buf (slot ring c j)) @ xs" using assms(2) by (simp add: m)
  ultimately show ?thesis using assms(1) by (simp add: filled_def slot_upd)
qed

lemma ring_ok_slot: "ring_ok ring \<Longrightarrow> length (d_buf (slot ring c i)) = ETH_TX_BUF_SIZE"
  by (simp add: ring_ok_def slot_def)

lemma ring_ok_write: "ring_ok ring \<Longrightarrow> mem_write (d_buf (slot ring c j)) off xs = Some m \<Longrightarrow>
    ring_ok (ring[(c + j) mod length ring := (slot ring c j)\<lparr>d_buf := m\<rparr>])"
  using length_mem_write[of "d_buf (slot ring c j)" off xs m] ring_ok_slot[of ring c j]
  by (auto simp: ring_ok_def dest!: set_update_subset_insert[THEN subsetD])

lemma own_write: "map d_own (ring[(c + j) mod length ring := (slot ring c j)\<lparr>d_buf := m\<rparr>]) = map d_own ring"
proof (cases "ring = []")
  case False
  then have "(c + j) mod length ring < length ring" by simp
  then show ?thesis by (intro nth_equalityI) (auto simp: slot_def nth_list_update)
qed simp

text \<open>The descriptors that are still the driver's.\<close>

definition free_slots :: "desc list \<Rightarrow> nat \<Rightarrow> nat \<Rightarrow> bool" where
  "free_slots ring c k \<longleftrightarrow> k \<le> length ring \<and> (\<forall>i<k. \<not> d_own (slot ring c i))"

lemma free_slots_cong: "map d_own ring' = map d_own ring \<Longrightarrow> free_slots ring' c k = free_slots ring c k"
proof -
  assume m: "map d_own ring' = map d_own ring"
  then have l: "length ring' = length ring" by (rule map_eq_imp_length_eq)
  have "d_own (slot ring' c i) = d_own (slot ring c i)" if "i < length ring" for i
  proof -
    have "(c + i) mod length ring < length ring" using that by (intro mod_less_divisor) auto
    then show ?thesis using arg_cong[OF m, of "\<lambda>xs. xs ! ((c + i) mod length ring)"] l by (simp add: slot_def)
  qed
  then show ?thesis using l by (auto simp: free_slots_def)
qed

subsection \<open>Copying a packet out\<close>

lemma copy_out_spec:
  assumes "ring_ok ring" "free_slots ring c k" "j < k" "off \<le> ETH_TX_BUF_SIZE" "buf_ok b" "poff + left \<le> pb_len b"
    "left + off \<le> ETH_TX_BUF_SIZE * (k - j)"
  shows "\<exists>ring' j' off'. copy_out ring ((c + j) mod length ring) off b poff left fl = Some (Inr (ring', (c + j') mod length ring, off', fl + left)) \<and>
    j' < k \<and> off' \<le> ETH_TX_BUF_SIZE \<and> j' * ETH_TX_BUF_SIZE + off' = j * ETH_TX_BUF_SIZE + off + left \<and>
    ring_ok ring' \<and> map d_own ring' = map d_own ring \<and>
    filled ring' c j' off' = filled ring c j off @ take left (drop poff (bytes b)) \<and>
    (j = 0 \<or> 0 < off \<or> 0 < left \<longrightarrow> j' = 0 \<or> 0 < off')"
  using assms
proof (induction "left + off" arbitrary: ring j off poff left fl rule: less_induct)
  case less
  note prems = less.prems
  let ?n = "length ring" and ?d = "(c + j) mod length ring" and ?S = ETH_TX_BUF_SIZE
  have jn: "j < ?n" and n0: "0 < ?n" using prems(2,3) by (auto simp: free_slots_def)
  have dn: "?d < ?n" using n0 by simp
  have sl: "ring ! ?d = slot ring c j" by (simp add: slot_def)
  have len: "length (d_buf (slot ring c j)) = ?S" by (rule ring_ok_slot[OF prems(1)])
  show ?case
  proof (cases "?S < left + off")
    case False
    let ?xs = "take left (drop poff (bytes b))"
    have rd: "payload_read b poff left = Some ?xs" using payload_read_ok[OF prems(5), of poff left] prems(6) by simp
    have lx: "length ?xs = left" using prems(5,6) by simp
    obtain m where m: "mem_write (d_buf (slot ring c j)) off ?xs = Some m" using len lx False by (auto simp: mem_write_def)
    let ?r = "ring[?d := (slot ring c j)\<lparr>d_buf := m\<rparr>]"
    have "copy_out ring ?d off b poff left fl = Some (Inr (?r, ?d, off + left, fl + left))"
      using dn prems(4) False rd m sl by (subst copy_out.simps) simp
    moreover have "filled ?r c j (off + left) = filled ring c j off @ ?xs"
      using filled_write[OF jn _ m] lx len False by simp
    ultimately show ?thesis
      using ring_ok_write[OF prems(1) m] own_write[of ring c j m] prems(3) False
      by (intro exI[of _ ?r] exI[of _ j] exI[of _ "off + left"]) auto
  next
    case True
    let ?k = "?S - off"
    let ?xs = "take ?k (drop poff (bytes b))"
    have kl: "?k < left" "0 < ?S" using True prems(4) by (auto simp: ETH_TX_BUF_SIZE_def)
    have rd: "payload_read b poff ?k = Some ?xs" using payload_read_ok[OF prems(5), of poff ?k] prems(6) kl(1) by simp
    have lx: "length ?xs = ?k" using prems(5,6) kl(1) by simp
    obtain m where m: "mem_write (d_buf (slot ring c j)) off ?xs = Some m" using len lx prems(4) by (auto simp: mem_write_def)
    let ?r = "ring[?d := (slot ring c j)\<lparr>d_buf := m\<rparr>]"
    note ok = ring_ok_write[OF prems(1) m] and own = own_write[of ring c j m]
    have fr: "free_slots ?r c k" using prems(2) free_slots_cong[OF own] by simp
    have ln: "length ?r = ?n" by simp
    have jk: "Suc j < k"
    proof (rule ccontr)
      assume "\<not> Suc j < k"
      then have "k - j = 1" using prems(3) by simp
      then show False using prems(7) True by simp
    qed
    then have "\<not> d_own (slot ?r c (Suc j))" using fr by (simp only: free_slots_def) blast
    then have un: "\<not> d_own (?r ! ((c + Suc j) mod ?n))" by (simp only: slot_def length_list_update not_False_eq_True)
    have step: "copy_out ring ?d off b poff left fl = copy_out ?r ((c + Suc j) mod length ?r) 0 b (poff + ?k) (left - ?k) (fl + ?k)"
      using dn prems(4) True rd m sl un next_slot[of ?r c j] by (subst copy_out.simps) (simp add: Let_def)
    have fw: "filled ?r c (Suc j) 0 = filled ring c j off @ ?xs"
      using filled_next[OF ring_ok_slot[OF ok], of c j] filled_write[OF jn _ m] lx len prems(4) by simp
    have sm: "left - ?k + 0 < left + off" using kl prems(4) by simp
    have "?S * (k - j) = ?S * (k - Suc j) + ?S" using jk by (metis Suc_diff_Suc Suc_lessD add.commute mult_Suc_right)
    then have room: "left - ?k + 0 \<le> ?S * (k - Suc j)" using prems(7) prems(4) kl(1) by linarith
    have pl: "poff + ?k + (left - ?k) \<le> pb_len b" using prems(6) kl(1) by simp
    from less.hyps[OF sm ok fr jk _ prems(5) pl room] obtain ring' j' off' where R:
      "copy_out ?r ((c + Suc j) mod length ?r) 0 b (poff + ?k) (left - ?k) (fl + ?k) =
         Some (Inr (ring', (c + j') mod length ?r, off', fl + ?k + (left - ?k)))"
      "j' < k" "off' \<le> ?S" "j' * ?S + off' = Suc j * ?S + 0 + (left - ?k)" "ring_ok ring'" "map d_own ring' = map d_own ?r"
      "filled ring' c j' off' = filled ?r c (Suc j) 0 @ take (left - ?k) (drop (poff + ?k) (bytes b))"
      "0 < left - ?k \<longrightarrow> j' = 0 \<or> 0 < off'" by blast
    have "?xs @ take (left - ?k) (drop (poff + ?k) (bytes b)) = take left (drop poff (bytes b))"
      using kl(1) take_add[of ?k "left - ?k" "drop poff (bytes b)"] by (simp add: add.commute)
    then have "filled ring' c j' off' = filled ring c j off @ take left (drop poff (bytes b))" using R(7) fw by simp
    moreover have "j' * ?S + off' = j * ?S + off + left" using R(4) kl(1) prems(4) by simp
    moreover have "j' = 0 \<or> 0 < off'" using R(8) kl(1) by simp
    moreover have "fl + ?k + (left - ?k) = fl + left" using kl(1) by simp
    ultimately show ?thesis
      using step R(1,2,3,5,6) own unfolding ln
      by (intro exI[of _ ring'] exI[of _ j'] exI[of _ off']) simp
  qed
qed

lemma output_loop_spec:
  assumes "packet (heap s) q as" "ring_ok ring" "free_slots ring c k" "j < k" "off \<le> ETH_TX_BUF_SIZE"
    "total_len (heap s) as + off \<le> ETH_TX_BUF_SIZE * (k - j)" "fl = j * ETH_TX_BUF_SIZE + off" "j = 0 \<or> 0 < off"
  shows "\<exists>ring' j' off'. output_loop s ring ((c + j) mod length ring) off fl q = Some (Inr (ring', fl + total_len (heap s) as)) \<and>
    j' < k \<and> off' \<le> ETH_TX_BUF_SIZE \<and> j' * ETH_TX_BUF_SIZE + off' = fl + total_len (heap s) as \<and>
    ring_ok ring' \<and> map d_own ring' = map d_own ring \<and> filled ring' c j' off' = filled ring c j off @ contents (heap s) as \<and>
    (j' = 0 \<or> 0 < off')"
  using assms
proof (induction as arbitrary: q ring j off fl)
  case Nil
  then show ?case
    by (subst output_loop.simps) (intro exI[of _ ring] exI[of _ j] exI[of _ off], simp)
next
  case (Cons a as)
  note prems = Cons.prems
  obtain b where b: "q = Some a" "heap s a = Some b" "buf_ok b" "packet (heap s) (pb_next b) as" using prems(1) by auto
  let ?n = "length ring"
  have n0: "0 < ?n" using prems(3,4) by (auto simp: free_slots_def)
  have un: "\<not> d_own (ring ! ((c + j) mod ?n))" using prems(3,4) by (simp add: free_slots_def slot_def)
  have "pb_len b + off \<le> ETH_TX_BUF_SIZE * (k - j)" using prems(6) b(2) by simp
  from copy_out_spec[OF prems(2-5) b(3) _ this, of 0 fl] obtain ring1 j1 off1 where R1:
    "copy_out ring ((c + j) mod ?n) off b 0 (pb_len b) fl = Some (Inr (ring1, (c + j1) mod ?n, off1, fl + pb_len b))"
    "j1 < k" "off1 \<le> ETH_TX_BUF_SIZE" "j1 * ETH_TX_BUF_SIZE + off1 = j * ETH_TX_BUF_SIZE + off + pb_len b"
    "ring_ok ring1" "map d_own ring1 = map d_own ring" "filled ring1 c j1 off1 = filled ring c j off @ bytes b"
    "j1 = 0 \<or> 0 < off1" using prems(8) b(3) by auto
  have ln: "length ring1 = ?n" by (rule map_eq_imp_length_eq[OF R1(6)])
  have fr: "free_slots ring1 c k" using prems(3) free_slots_cong[OF R1(6)] by simp
  have f1: "fl + pb_len b = j1 * ETH_TX_BUF_SIZE + off1" using R1(4) prems(7) by simp
  have m: "ETH_TX_BUF_SIZE * (k - i) = ETH_TX_BUF_SIZE * k - i * ETH_TX_BUF_SIZE" for i by (simp add: diff_mult_distrib2 mult.commute)
  have "j1 * ETH_TX_BUF_SIZE \<le> ETH_TX_BUF_SIZE * k" "j * ETH_TX_BUF_SIZE \<le> ETH_TX_BUF_SIZE * k"
    using R1(2) prems(4) by (simp_all add: mult.commute)
  then have room: "total_len (heap s) as + off1 \<le> ETH_TX_BUF_SIZE * (k - j1)"
    using prems(6) R1(4) b(2) unfolding m by (simp add: le_diff_conv2)
  have "output_loop s ring ((c + j) mod ?n) off fl q = output_loop s ring1 ((c + j1) mod length ring1) off1 (fl + pb_len b) (pb_next b)"
    using b(1,2) n0 un R1(1) ln by (subst output_loop.simps) simp
  moreover from Cons.IH[OF b(4) R1(5) fr R1(2,3) room f1 R1(8)] obtain ring' j' off' where
    "output_loop s ring1 ((c + j1) mod length ring1) off1 (fl + pb_len b) (pb_next b) = Some (Inr (ring', fl + pb_len b + total_len (heap s) as))"
    "j' < k" "off' \<le> ETH_TX_BUF_SIZE" "j' * ETH_TX_BUF_SIZE + off' = fl + pb_len b + total_len (heap s) as"
    "ring_ok ring'" "map d_own ring' = map d_own ring1" "filled ring' c j' off' = filled ring1 c j1 off1 @ contents (heap s) as"
    "j' = 0 \<or> 0 < off'" by blast
  ultimately show ?case using R1(6,7) b(2)
    by (intro exI[of _ ring'] exI[of _ j'] exI[of _ off']) (simp add: add.assoc)
qed

subsection \<open>Handing the descriptors to the DMA\<close>

definition armed :: "nat \<Rightarrow> nat \<Rightarrow> nat \<Rightarrow> desc \<Rightarrow> desc" where
  "armed fl bc i d = d\<lparr>d_fs := i = 0, d_ls := i = bc - 1,
     d_size := (if i = bc - 1 then fl - (bc - 1) * ETH_TX_BUF_SIZE else ETH_TX_BUF_SIZE), d_own := True\<rparr>"

lemma transmit_loop_spec:
  assumes "bc \<le> length ring" "i \<le> bc" "0 < length ring"
  shows "\<exists>ring'. transmit_loop ring ((c + i) mod length ring) fl bc i = Some (ring', (c + bc) mod length ring) \<and>
    length ring' = length ring \<and>
    (\<forall>t<length ring. slot ring' c t = (if i \<le> t \<and> t < bc then armed fl bc t (slot ring c t) else slot ring c t))"
  using assms
proof (induction "bc - i" arbitrary: ring i)
  case 0
  then show ?case by (subst transmit_loop.simps) (intro exI[of _ ring], auto)
next
  case (Suc m)
  let ?n = "length ring"
  let ?r = "ring[(c + i) mod ?n := armed fl bc i (slot ring c i)]"
  have ib: "i < bc" "i < ?n" using Suc.hyps(2) Suc.prems by auto
  have step: "transmit_loop ring ((c + i) mod ?n) fl bc i = transmit_loop ?r ((c + Suc i) mod length ?r) fl bc (Suc i)"
    using ib Suc.prems(3) next_slot[of ring c i] by (subst transmit_loop.simps) (simp add: armed_def slot_def Let_def)
  have "m = bc - Suc i" "bc \<le> length ?r" "Suc i \<le> bc" "0 < length ?r" using Suc.hyps(2) Suc.prems ib by auto
  from Suc.hyps(1)[OF this] obtain ring' where R: "transmit_loop ?r ((c + Suc i) mod length ?r) fl bc (Suc i) = Some (ring', (c + bc) mod length ?r)"
    "length ring' = length ?r" "\<forall>t<length ?r. slot ring' c t = (if Suc i \<le> t \<and> t < bc then armed fl bc t (slot ?r c t) else slot ?r c t)" by blast
  have "slot ring' c t = (if i \<le> t \<and> t < bc then armed fl bc t (slot ring c t) else slot ring c t)" if "t < ?n" for t
    using R(3) that ib slot_upd[OF that ib(2), of c "armed fl bc i (slot ring c i)"] by (auto simp: not_less_eq_eq)
  then show ?case using step R(1,2) by (intro exI[of _ ring']) simp
qed

lemma buf_count_eq:
  assumes "j * ETH_TX_BUF_SIZE + off = n" "0 < n" "off \<le> ETH_TX_BUF_SIZE" "j = 0 \<or> 0 < off"
  shows "buf_count n = Suc j" "n - j * ETH_TX_BUF_SIZE = off"
proof -
  show "n - j * ETH_TX_BUF_SIZE = off" using assms(1) by auto
  show "buf_count n = Suc j"
  proof (cases "j = 0")
    case True
    then show ?thesis using assms by (simp add: buf_count_def)
  next
    case False
    then have off: "0 < off" using assms(4) by simp
    have gt: "ETH_TX_BUF_SIZE < n" using False off assms(1) by (cases j) auto
    show ?thesis
    proof (cases "off = ETH_TX_BUF_SIZE")
      case True
      then have "n = Suc j * ETH_TX_BUF_SIZE" using assms(1) by simp
      then show ?thesis using gt by (simp add: buf_count_def ETH_TX_BUF_SIZE_def del: mult_Suc)
    next
      case ne: False
      then have "n div ETH_TX_BUF_SIZE = j" "n mod ETH_TX_BUF_SIZE = off" using assms(1,3) by auto
      then show ?thesis using gt off by (simp add: buf_count_def)
    qed
  qed
qed

lemma buf_count_room: "n \<le> ETH_TX_BUF_SIZE * buf_count n" "0 < buf_count n"
proof -
  have "n \<le> ETH_TX_BUF_SIZE * (n div ETH_TX_BUF_SIZE) + (if n mod ETH_TX_BUF_SIZE \<noteq> 0 then ETH_TX_BUF_SIZE else 0)"
    using mult_div_mod_eq[of ETH_TX_BUF_SIZE n] mod_less_divisor[of ETH_TX_BUF_SIZE n] by (auto simp: ETH_TX_BUF_SIZE_def)
  then show "n \<le> ETH_TX_BUF_SIZE * buf_count n" by (auto simp: buf_count_def distrib_left split: if_splits)
  show "0 < buf_count n" by (auto simp: buf_count_def ETH_TX_BUF_SIZE_def div_greater_zero_iff)
qed

text \<open>The bytes that the DMA reads from \<open>k\<close> descriptors.\<close>

definition sent_frame :: "desc list \<Rightarrow> nat \<Rightarrow> nat \<Rightarrow> byte list" where
  "sent_frame ring c k = concat (map (\<lambda>i. take (d_size (slot ring c i)) (d_buf (slot ring c i))) [0..<k])"

lemma transmit_frame_spec:
  assumes ok: "ring_ok (tx_ring e)" and cur: "tx_cur e < length (tx_ring e)" and un: "\<not> locked e"
    and pos: "0 < n" and fr: "free_slots (tx_ring e) (tx_cur e) (buf_count n)"
    and n: "j * ETH_TX_BUF_SIZE + off = n" "off \<le> ETH_TX_BUF_SIZE" "j = 0 \<or> 0 < off"
  shows "\<exists>e'. HAL_ETH_TransmitFrame e n = Some (e', HAL_OK) \<and> tx_cur e' = (tx_cur e + buf_count n) mod length (tx_ring e) \<and>
    (\<forall>i<buf_count n. slot (tx_ring e') (tx_cur e) i = armed n (buf_count n) i (slot (tx_ring e) (tx_cur e) i)) \<and>
    sent_frame (tx_ring e') (tx_cur e) (buf_count n) = filled (tx_ring e) (tx_cur e) j off \<and> tus e' = tus e"
proof -
  let ?r = "tx_ring e" and ?c = "tx_cur e" and ?k = "buf_count n"
  note bc = buf_count_eq[OF n(1) pos n(2,3)]
  have kn: "?k \<le> length ?r" using fr by (simp add: free_slots_def)
  have first: "\<not> d_own (?r ! ?c)" using fr cur buf_count_room(2)[of n] by (auto simp: free_slots_def slot_def)
  have "0 < length ?r" using cur by linarith
  from transmit_loop_spec[OF kn _ this, of 0 ?c n] cur obtain ring' where R:
    "transmit_loop ?r ?c n ?k 0 = Some (ring', (?c + ?k) mod length ?r)" "length ring' = length ?r"
    "\<forall>t<length ?r. slot ring' ?c t = (if t < ?k then armed n ?k t (slot ?r ?c t) else slot ?r ?c t)" by auto
  have one: "transmit_loop ?r ?c n ?k 0 = Some (?r[?c := (?r ! ?c)\<lparr>d_fs := True, d_ls := True, d_size := n, d_own := True\<rparr>], next_desc ?r ?c)" if "?k = 1"
    using that cur by (subst transmit_loop.simps) (simp add: transmit_loop.simps[of _ _ _ _ "Suc 0"])
  define e1 where "e1 = e\<lparr>tx_ring := ring', tx_cur := (?c + ?k) mod length ?r, hal_state := HAL_ETH_STATE_READY\<rparr>"
  define e2 where "e2 = (if tbus e1 then e1\<lparr>tbus := False, tx_demands := tx_demands e1 + 1\<rparr> else e1)"
  have "HAL_ETH_TransmitFrame e n = Some (e2, HAL_OK)"
    using un pos cur first R(1) one by (auto simp: HAL_ETH_TransmitFrame_def e2_def e1_def Let_def)
  moreover have e2: "tx_ring e2 = ring'" "tx_cur e2 = (?c + ?k) mod length ?r" "tus e2 = tus e" by (simp_all add: e2_def e1_def)
  moreover have sl: "slot ring' ?c i = armed n ?k i (slot ?r ?c i)" if "i < ?k" for i using R(3) kn that by simp
  moreover have "sent_frame ring' ?c ?k = filled ?r ?c j off"
  proof -
    have "map (\<lambda>i. take (d_size (slot ring' ?c i)) (d_buf (slot ring' ?c i))) [0..<j] = map (\<lambda>i. d_buf (slot ?r ?c i)) [0..<j]"
      using sl ring_ok_slot[OF ok, of ?c] bc(1) by (intro map_cong) (auto simp: armed_def)
    moreover have "take (d_size (slot ring' ?c j)) (d_buf (slot ring' ?c j)) = take off (d_buf (slot ?r ?c j))"
      using sl[of j] bc by (simp add: armed_def)
    ultimately show ?thesis unfolding sent_frame_def filled_def bc(1) upt_Suc_append[OF le0] map_append concat_append
      by (simp only: list.map concat.simps append_Nil2)
  qed
  ultimately show ?thesis by (intro exI[of _ e2]) simp
qed

text \<open>
  C37. Frame output.  When enough descriptors belong to the driver and the handle is not locked,
  \<open>low_level_output\<close> hands the DMA exactly the bytes of the packet, split over consecutive
  descriptors: all of them are owned by the DMA afterwards, the first carries the first-segment
  bit, the last the last-segment bit, and the current descriptor is the one after them.
\<close>

theorem low_level_output_sends:
  assumes "packet (heap s) (Some p) as" "0 < total_len (heap s) as" "ring_ok (tx_ring e)" "tx_cur e < length (tx_ring e)" "\<not> locked e"
    "free_slots (tx_ring e) (tx_cur e) (buf_count (total_len (heap s) as))"
  shows "\<exists>e'. low_level_output s e p = Some (e', ERR_OK) \<and>
    sent_frame (tx_ring e') (tx_cur e) (buf_count (total_len (heap s) as)) = contents (heap s) as \<and>
    tx_cur e' = (tx_cur e + buf_count (total_len (heap s) as)) mod length (tx_ring e) \<and>
    (\<forall>i<buf_count (total_len (heap s) as). d_own (slot (tx_ring e') (tx_cur e) i) \<and>
       d_fs (slot (tx_ring e') (tx_cur e) i) = (i = 0) \<and>
       d_ls (slot (tx_ring e') (tx_cur e) i) = (i = buf_count (total_len (heap s) as) - 1))"
proof -
  let ?n = "total_len (heap s) as" and ?c = "tx_cur e"
  have room: "?n + 0 \<le> ETH_TX_BUF_SIZE * (buf_count ?n - 0)" using buf_count_room(1)[of ?n] by simp
  from output_loop_spec[OF assms(1,3,6) buf_count_room(2) _ room, of 0] obtain ring' j off where R:
    "output_loop s (tx_ring e) (?c mod length (tx_ring e)) 0 0 (Some p) = Some (Inr (ring', ?n))"
    "off \<le> ETH_TX_BUF_SIZE" "j * ETH_TX_BUF_SIZE + off = ?n" "ring_ok ring'" "map d_own ring' = map d_own (tx_ring e)"
    "filled ring' ?c j off = contents (heap s) as" "j = 0 \<or> 0 < off" by (auto simp: filled_def)
  let ?e = "e\<lparr>tx_ring := ring'\<rparr>"
  have ln: "length ring' = length (tx_ring e)" by (rule map_eq_imp_length_eq[OF R(5)])
  have "ring_ok (tx_ring ?e)" "tx_cur ?e < length (tx_ring ?e)" "\<not> locked ?e" "free_slots (tx_ring ?e) (tx_cur ?e) (buf_count ?n)"
    using R(4) assms(4-6) ln free_slots_cong[OF R(5)] by simp_all
  from transmit_frame_spec[OF this(1-3) assms(2) this(4) R(3,2,7)] obtain e1 where E: "HAL_ETH_TransmitFrame ?e ?n = Some (e1, HAL_OK)"
    "tx_cur e1 = (?c + buf_count ?n) mod length (tx_ring e)"
    "\<forall>i<buf_count ?n. slot (tx_ring e1) ?c i = armed ?n (buf_count ?n) i (slot ring' ?c i)"
    "sent_frame (tx_ring e1) ?c (buf_count ?n) = contents (heap s) as" using R(6) ln by auto
  define e2 where "e2 = (if tus e1 then e1\<lparr>tus := False, tx_demands := tx_demands e1 + 1\<rparr> else e1)"
  have "tx_ring e2 = tx_ring e1" "tx_cur e2 = tx_cur e1" by (simp_all add: e2_def)
  moreover have "low_level_output s e p = Some (e2, ERR_OK)"
    using R(1) assms(4) E(1) by (simp add: low_level_output_def e2_def)
  ultimately show ?thesis using E(2-4) by (intro exI[of _ e2]) (simp add: armed_def)
qed

definition free_desc :: desc where
  "free_desc = \<lparr>d_own = False, d_fs = False, d_ls = False, d_size = 0, d_fl = 0, d_buf = replicate ETH_TX_BUF_SIZE 0\<rparr>"

definition eth0 :: eth where
  "eth0 = \<lparr>tx_ring = replicate 4 free_desc, tx_cur = 3, rx_ring = replicate 4 free_desc, rx_cur = 0, fs_desc = None, ls_desc = None,
     rx_length = 0, rx_buffer = None, seg_count = 0, locked = False, hal_state = HAL_ETH_STATE_READY, tbus = False, tus = False, rbus = False, tx_demands = 0, rx_demands = 0\<rparr>"

text \<open>A packet of 2000 bytes in two buffers.\<close>

definition heap_2000 :: pstate where
  "heap_2000 = \<lparr>heap = [4 \<mapsto> link (Some 5) (replicate 1000 1) 2000 1, 5 \<mapsto> link None (replicate 1000 2) 1000 1],
     pool = [], small = [], custom_freed = []\<rparr>"

lemma heap_2000_facts: "packet (heap heap_2000) (Some 4) [4, 5]" "total_len (heap heap_2000) [4, 5] = 2000"
  by (simp_all add: heap_2000_def link_def buf_ok_def)

lemma eth0_facts: "ring_ok (tx_ring eth0)" "tx_cur eth0 < length (tx_ring eth0)" "\<not> locked eth0" "k \<le> 4 \<Longrightarrow> free_slots (tx_ring eth0) (tx_cur eth0) k"
  by (simp_all add: eth0_def ring_ok_def free_desc_def free_slots_def slot_def)

theorem low_level_output_sends_witness:
  "\<exists>e'. low_level_output heap_2000 eth0 4 = Some (e', ERR_OK) \<and>
    sent_frame (tx_ring e') (tx_cur eth0) (buf_count (total_len (heap heap_2000) [4, 5])) = contents (heap heap_2000) [4, 5] \<and>
    tx_cur e' = (tx_cur eth0 + buf_count (total_len (heap heap_2000) [4, 5])) mod length (tx_ring eth0) \<and>
    (\<forall>i<buf_count (total_len (heap heap_2000) [4, 5]). d_own (slot (tx_ring e') (tx_cur eth0) i) \<and>
       d_fs (slot (tx_ring e') (tx_cur eth0) i) = (i = 0) \<and>
       d_ls (slot (tx_ring e') (tx_cur eth0) i) = (i = buf_count (total_len (heap heap_2000) [4, 5]) - 1))"
proof (rule low_level_output_sends[OF heap_2000_facts(1) _ eth0_facts(1-3)])
  show "0 < total_len (heap heap_2000) [4, 5]" unfolding heap_2000_facts(2) by simp
  show "free_slots (tx_ring eth0) (tx_cur eth0) (buf_count (total_len (heap heap_2000) [4, 5]))"
    unfolding heap_2000_facts(2) by (rule eth0_facts(4)) (simp add: buf_count_def ETH_TX_BUF_SIZE_def)
qed

text \<open>
  \<open>low_level_output\<close> ignores the status of \<open>HAL_ETH_TransmitFrame\<close>: when the handle is locked,
  as it is while an interrupt preempts the reception of a frame, the packet is dropped, no
  descriptor changes hands, and the stack is told \<open>ERR_OK\<close>.
\<close>

theorem low_level_output_drops_when_locked:
  assumes "packet (heap s) (Some p) as" "ring_ok (tx_ring e)" "tx_cur e < length (tx_ring e)" "locked e"
    "free_slots (tx_ring e) (tx_cur e) (buf_count (total_len (heap s) as))"
  shows "\<exists>e'. low_level_output s e p = Some (e', ERR_OK) \<and> map d_own (tx_ring e') = map d_own (tx_ring e) \<and> tx_cur e' = tx_cur e"
proof -
  let ?n = "total_len (heap s) as"
  have room: "?n + 0 \<le> ETH_TX_BUF_SIZE * (buf_count ?n - 0)" using buf_count_room(1)[of ?n] by simp
  from output_loop_spec[OF assms(1,2,5) buf_count_room(2) _ room, of 0] obtain ring' where R:
    "output_loop s (tx_ring e) (tx_cur e mod length (tx_ring e)) 0 0 (Some p) = Some (Inr (ring', ?n))"
    "map d_own ring' = map d_own (tx_ring e)" by auto
  then show ?thesis using assms(3,4) by (simp add: low_level_output_def HAL_ETH_TransmitFrame_def)
qed

theorem low_level_output_drops_when_locked_witness:
  "\<exists>e'. low_level_output heap_2000 (eth0\<lparr>locked := True\<rparr>) 4 = Some (e', ERR_OK) \<and>
    map d_own (tx_ring e') = map d_own (tx_ring (eth0\<lparr>locked := True\<rparr>)) \<and> tx_cur e' = tx_cur (eth0\<lparr>locked := True\<rparr>)"
proof (rule low_level_output_drops_when_locked[OF heap_2000_facts(1)])
  show "free_slots (tx_ring (eth0\<lparr>locked := True\<rparr>)) (tx_cur (eth0\<lparr>locked := True\<rparr>)) (buf_count (total_len (heap heap_2000) [4, 5]))"
    unfolding heap_2000_facts(2) using eth0_facts(4)[of "buf_count 2000"] by (simp add: buf_count_def ETH_TX_BUF_SIZE_def)
qed (use eth0_facts in simp_all)

subsection \<open>Copying a frame in\<close>

text \<open>The bytes of the first \<open>k\<close> buffers.\<close>

definition stream :: "desc list \<Rightarrow> nat \<Rightarrow> nat \<Rightarrow> byte list" where
  "stream ring c k = concat (map (\<lambda>i. d_buf (slot ring c i)) [0..<k])"

definition rx_ok :: "desc list \<Rightarrow> bool" where
  "rx_ok ring \<longleftrightarrow> ring \<noteq> [] \<and> (\<forall>x\<in>set ring. length (d_buf x) = ETH_RX_BUF_SIZE)"

lemma rx_ok_slot: "rx_ok ring \<Longrightarrow> length (d_buf (slot ring c i)) = ETH_RX_BUF_SIZE"
  by (simp add: rx_ok_def slot_def)

lemma length_stream: "rx_ok ring \<Longrightarrow> length (stream ring c k) = k * ETH_RX_BUF_SIZE"
  by (induction k) (simp_all add: stream_def rx_ok_slot)

lemma stream_read:
  assumes "rx_ok ring" "j < k" "off + n \<le> ETH_RX_BUF_SIZE"
  shows "take n (drop (j * ETH_RX_BUF_SIZE + off) (stream ring c k)) = take n (drop off (d_buf (slot ring c j)))"
proof -
  have "[0..<k] = [0..<j] @ j # [Suc j..<k]" using assms(2) by (metis le0 less_imp_le_nat upt_add_eq_append upt_conv_Cons le_add_diff_inverse)
  then have s: "stream ring c k = stream ring c j @ d_buf (slot ring c j) @ concat (map (\<lambda>i. d_buf (slot ring c i)) [Suc j..<k])"
    by (simp add: stream_def)
  show ?thesis unfolding s using length_stream[OF assms(1), of c j] rx_ok_slot[OF assms(1), of c j] assms(3) by simp
qed

lemma copy_in_spec:
  assumes "rx_ok ring" "j < k" "off \<le> ETH_RX_BUF_SIZE" "buf_ok b" "poff + left \<le> pb_len b" "left + off \<le> ETH_RX_BUF_SIZE * (k - j)"
  shows "\<exists>b' j' off'. copy_in ring ((c + j) mod length ring) off b poff left = Some (b', (c + j') mod length ring, off') \<and>
    j' < k \<and> off' \<le> ETH_RX_BUF_SIZE \<and> j' * ETH_RX_BUF_SIZE + off' = j * ETH_RX_BUF_SIZE + off + left \<and>
    buf_ok b' \<and> b' = b\<lparr>pb_mem := pb_mem b'\<rparr> \<and>
    bytes b' = take poff (bytes b) @ take left (drop (j * ETH_RX_BUF_SIZE + off) (stream ring c k)) @ drop (poff + left) (bytes b)"
  using assms
proof (induction "left + off" arbitrary: j off b poff left rule: less_induct)
  case less
  note prems = less.prems
  let ?d = "(c + j) mod length ring" and ?S = ETH_RX_BUF_SIZE
  have dn: "?d < length ring" using prems(1) by (simp add: rx_ok_def)
  have sl: "ring ! ?d = slot ring c j" by (simp add: slot_def)
  have len: "length (d_buf (slot ring c j)) = ?S" by (rule rx_ok_slot[OF prems(1)])
  show ?case
  proof (cases "?S < left + off")
    case False
    define xs where "xs = take left (drop off (d_buf (slot ring c j)))"
    have lx: "length xs = left" using len False by (simp add: xs_def)
    have rd: "mem_read (d_buf (slot ring c j)) off left = Some xs" using len False by (simp add: mem_read_def xs_def)
    from payload_write_ok[OF prems(4), of poff xs] prems(5) lx obtain b' where b': "payload_write b poff xs = Some b'" "buf_ok b'"
      "b' = b\<lparr>pb_mem := pb_mem b'\<rparr>" "bytes b' = take poff (bytes b) @ xs @ drop (poff + left) (bytes b)" by auto
    have "copy_in ring ?d off b poff left = Some (b', ?d, off + left)"
      using dn prems(3) False rd b'(1) sl by (subst copy_in.simps) simp
    moreover have "xs = take left (drop (j * ?S + off) (stream ring c k))"
      using stream_read[OF prems(1,2), of off left c] False by (simp add: xs_def)
    ultimately show ?thesis using b'(2-4) prems(2) False
      by (intro exI[of _ b'] exI[of _ j] exI[of _ "off + left"]) simp
  next
    case True
    define n where "n = ?S - off"
    have kl: "n < left" "0 < ?S" "off + n = ?S" using True prems(3) by (auto simp: n_def ETH_RX_BUF_SIZE_def)
    define xs where "xs = take n (drop off (d_buf (slot ring c j)))"
    have lx: "length xs = n" using len kl(3) by (simp add: xs_def)
    have rd: "mem_read (d_buf (slot ring c j)) off n = Some xs" using len kl(3) by (simp add: mem_read_def xs_def)
    have xr: "xs = take n (drop (j * ?S + off) (stream ring c k))"
      using stream_read[OF prems(1,2), of off n c] kl(3) by (simp add: xs_def)
    from payload_write_ok[OF prems(4), of poff xs] prems(5) lx kl(1) obtain b1 where b1: "payload_write b poff xs = Some b1" "buf_ok b1"
      "b1 = b\<lparr>pb_mem := pb_mem b1\<rparr>" "bytes b1 = take poff (bytes b) @ xs @ drop (poff + n) (bytes b)" by auto
    have jk: "Suc j < k"
    proof (rule ccontr)
      assume "\<not> Suc j < k"
      then have "k - j = 1" using prems(2) by simp
      then show False using prems(6) True by simp
    qed
    have step: "copy_in ring ?d off b poff left = copy_in ring ((c + Suc j) mod length ring) 0 b1 (poff + n) (left - n)"
      using dn prems(3) True rd b1(1) sl next_slot[of ring c j] by (subst copy_in.simps) (simp add: Let_def flip: n_def)
    have sm: "left - n + 0 < left + off" using kl prems(3) by linarith
    have "?S * (k - j) = ?S * (k - Suc j) + ?S" using jk by (metis Suc_diff_Suc Suc_lessD add.commute mult_Suc_right)
    then have room: "left - n + 0 \<le> ?S * (k - Suc j)" using prems(6) kl by linarith
    have l1: "pb_len b1 = pb_len b" by (subst b1(3)) simp
    have pl: "poff + n + (left - n) \<le> pb_len b1" using prems(5) kl(1) l1 by simp
    from less.hyps[OF sm prems(1) jk _ b1(2) pl room] obtain b' j' off' where R:
      "copy_in ring ((c + Suc j) mod length ring) 0 b1 (poff + n) (left - n) = Some (b', (c + j') mod length ring, off')"
      "j' < k" "off' \<le> ?S" "j' * ?S + off' = Suc j * ?S + 0 + (left - n)" "buf_ok b'" "b' = b1\<lparr>pb_mem := pb_mem b'\<rparr>"
      "bytes b' = take (poff + n) (bytes b1) @ take (left - n) (drop (Suc j * ?S + 0) (stream ring c k)) @ drop (poff + n + (left - n)) (bytes b1)"
      by blast
    have pb: "length (bytes b) = pb_len b" using prems(4) by simp
    have t1: "take (poff + n) (bytes b1) = take poff (bytes b) @ xs" using b1(4) lx pb prems(5) kl(1) by simp
    have t2: "drop (poff + n + (left - n)) (bytes b1) = drop (poff + left) (bytes b)"
      using b1(4) lx pb prems(5) kl(1) by (simp add: add.commute)
    have pos: "Suc j * ?S + 0 = j * ?S + off + n" using kl(3) by simp
    have "xs @ take (left - n) (drop (Suc j * ?S + 0) (stream ring c k)) = take left (drop (j * ?S + off) (stream ring c k))"
      unfolding pos xr using take_add[of n "left - n" "drop (j * ?S + off) (stream ring c k)"] kl(1) by (simp add: add_ac)
    then have "bytes b' = take poff (bytes b) @ take left (drop (j * ?S + off) (stream ring c k)) @ drop (poff + left) (bytes b)"
      unfolding R(7) t1 t2 by simp
    moreover have "b' = b\<lparr>pb_mem := pb_mem b'\<rparr>" by (subst R(6), subst b1(3)) simp
    moreover have "j' * ?S + off' = j * ?S + off + left" using R(4) pos kl(1) by simp
    ultimately show ?thesis using step R(1-3,5)
      by (intro exI[of _ b'] exI[of _ j'] exI[of _ off']) simp
  qed
qed

lemma input_loop_spec:
  assumes "packet (heap s) q as" "rx_ok ring" "j < k" "off \<le> ETH_RX_BUF_SIZE" "total_len (heap s) as + off \<le> ETH_RX_BUF_SIZE * (k - j)"
  shows "\<exists>h'. input_loop s ring ((c + j) mod length ring) off q = Some (s\<lparr>heap := h'\<rparr>) \<and> packet h' q as \<and>
    contents h' as = take (total_len (heap s) as) (drop (j * ETH_RX_BUF_SIZE + off) (stream ring c k)) \<and>
    (\<forall>a. a \<notin> set as \<longrightarrow> h' a = heap s a) \<and> (\<forall>a\<in>set as. pool_buf (the (h' a)) = pool_buf (the (heap s a)))"
  using assms
proof (induction as arbitrary: s q j off)
  case Nil
  then show ?case by (subst input_loop.simps) (intro exI[of _ "heap s"], simp)
next
  case (Cons a as)
  note prems = Cons.prems
  let ?S = ETH_RX_BUF_SIZE
  obtain b where b: "q = Some a" "heap s a = Some b" "buf_ok b" "pb_tot_len b = pb_len b + total_len (heap s) as"
    "packet (heap s) (pb_next b) as" using prems(1) by auto
  have nin: "a \<notin> set as" using chain_distinct[OF packet_chain[OF prems(1)]] by simp
  have "0 + pb_len b \<le> pb_len b" "pb_len b + off \<le> ?S * (k - j)" using prems(5) b(2) by simp_all
  from copy_in_spec[OF prems(2-4) b(3) this, of c] b(3) obtain b' j1 off1 where R:
    "copy_in ring ((c + j) mod length ring) off b 0 (pb_len b) = Some (b', (c + j1) mod length ring, off1)"
    "j1 < k" "off1 \<le> ?S" "j1 * ?S + off1 = j * ?S + off + pb_len b" "buf_ok b'" "b' = b\<lparr>pb_mem := pb_mem b'\<rparr>"
    "bytes b' = take (pb_len b) (drop (j * ?S + off) (stream ring c k))" by auto
  have f: "pb_next b' = pb_next b" "pb_len b' = pb_len b" "pb_tot_len b' = pb_tot_len b" "pool_buf b' = pool_buf b"
    by (subst R(6), simp add: pool_buf_def)+
  let ?s = "put s a b'"
  have pk: "packet (heap ?s) (pb_next b) as" "total_len (heap ?s) as = total_len (heap s) as"
    using b(5) nin by (simp_all add: packet_upd_other)
  have m: "?S * (k - i) = ?S * k - i * ?S" for i by (simp add: diff_mult_distrib2 mult.commute)
  have "j1 * ?S \<le> ?S * k" "j * ?S \<le> ?S * k" using R(2) prems(3) by (simp_all add: mult.commute)
  then have room: "total_len (heap ?s) as + off1 \<le> ?S * (k - j1)"
    using prems(5) R(4) b(2) pk(2) unfolding m by (simp add: le_diff_conv2)
  from Cons.IH[OF pk(1) prems(2) R(2,3) room] obtain h' where H:
    "input_loop ?s ring ((c + j1) mod length ring) off1 (pb_next b) = Some (?s\<lparr>heap := h'\<rparr>)" "packet h' (pb_next b) as"
    "contents h' as = take (total_len (heap s) as) (drop (j1 * ?S + off1) (stream ring c k))"
    "\<forall>x. x \<notin> set as \<longrightarrow> h' x = heap ?s x" "\<forall>x\<in>set as. pool_buf (the (h' x)) = pool_buf (the (heap ?s x))"
    unfolding pk(2) by blast
  have ha: "h' a = Some b'" using H(4) nin by simp
  have len: "length (stream ring c k) = k * ?S" by (rule length_stream[OF prems(2)])
  have "length (contents h' as) = total_len (heap s) as"
  proof -
    have "total_len (heap s) as + (j1 * ?S + off1) \<le> k * ?S"
      using room pk(2) \<open>j1 * ?S \<le> ?S * k\<close> unfolding m by (simp add: mult.commute le_diff_conv2)
    then show ?thesis unfolding H(3) using len by simp
  qed
  then have tl: "total_len h' as = total_len (heap s) as" using length_contents[OF H(2)] by simp
  have "input_loop s ring ((c + j) mod length ring) off q = Some (s\<lparr>heap := h'\<rparr>)"
    using b(1,2) R(1) H(1) by (subst input_loop.simps) (simp add: put_def)
  moreover have "packet h' q (a # as)" using b(1,4) ha R(5) f tl H(2) by auto
  moreover have "contents h' (a # as) = take (total_len (heap s) (a # as)) (drop (j * ?S + off) (stream ring c k))"
    using ha R(7) H(3) R(4) b(2) by (simp add: take_add add_ac)
  moreover have "\<forall>x. x \<notin> set (a # as) \<longrightarrow> h' x = heap s x" using H(4) by simp
  moreover have "\<forall>x\<in>set (a # as). pool_buf (the (h' x)) = pool_buf (the (heap s x))"
    using H(5) ha b(2) f(4) nin by auto
  ultimately show ?case by blast
qed

lemma give_back_spec:
  assumes "i + m \<le> length ring" "0 < length ring"
  shows "\<exists>ring'. give_back ring ((c + i) mod length ring) m = Some ring' \<and> length ring' = length ring \<and>
    (\<forall>t<length ring. d_own (slot ring' c t) = (i \<le> t \<and> t < i + m \<or> d_own (slot ring c t)))"
  using assms
proof (induction m arbitrary: ring i)
  case 0
  then show ?case by auto
next
  case (Suc m)
  let ?n = "length ring"
  let ?x = "(slot ring c i)\<lparr>d_own := True, d_fs := False, d_ls := False, d_fl := 0\<rparr>"
  let ?r = "ring[(c + i) mod ?n := ?x]"
  have i: "i < ?n" using Suc.prems by simp
  have step: "give_back ring ((c + i) mod ?n) (Suc m) = give_back ?r ((c + Suc i) mod length ?r) m"
    using Suc.prems(2) next_slot[of ring c i] by (simp add: slot_def)
  have "Suc i + m \<le> length ?r" "0 < length ?r" using Suc.prems by simp_all
  from Suc.IH[OF this] obtain ring' where R: "give_back ?r ((c + Suc i) mod length ?r) m = Some ring'" "length ring' = ?n"
    "\<forall>t<?n. d_own (slot ring' c t) = (Suc i \<le> t \<and> t < Suc i + m \<or> d_own (slot ?r c t))" by auto
  have "d_own (slot ring' c t) = (i \<le> t \<and> t < i + Suc m \<or> d_own (slot ring c t))" if "t < ?n" for t
    using R(3) that slot_upd[OF that i, of c ?x] by (auto simp: not_less_eq_eq)
  then show ?case using step R(1,2) by (intro exI[of _ ring']) simp
qed

text \<open>
  A complete frame waits in the ring: it starts at descriptor \<open>c\<close>, \<open>m\<close> segments of it have been
  seen, and the current descriptor holds the last one, with the length of the frame and its CRC.
\<close>

definition frame_ready :: "eth \<Rightarrow> nat \<Rightarrow> nat \<Rightarrow> nat \<Rightarrow> bool" where
  "frame_ready e c m len \<longleftrightarrow> rx_ok (rx_ring e) \<and> c < length (rx_ring e) \<and> Suc m \<le> length (rx_ring e) \<and> seg_count e = m \<and>
     (m = 0 \<or> fs_desc e = Some c) \<and> rx_cur e = (c + m) mod length (rx_ring e) \<and>
     \<not> d_own (slot (rx_ring e) c m) \<and> d_ls (slot (rx_ring e) c m) \<and> d_fl (slot (rx_ring e) c m) = len + 4 \<and>
     len \<le> Suc m * ETH_RX_BUF_SIZE \<and> len < 2 ^ 16"

lemma received_frame_spec:
  assumes "frame_ready e c m len" "\<not> locked e"
  shows "\<exists>e'. HAL_ETH_GetReceivedFrame e = Some (e', HAL_OK) \<and> fs_desc e' = Some c \<and> seg_count e' = Suc m \<and> rx_length e' = len \<and>
    rx_ring e' = rx_ring e \<and> rx_cur e' = (c + Suc m) mod length (rx_ring e)"
proof -
  from assms(1) have F: "c < length (rx_ring e)" "seg_count e = m" "m = 0 \<or> fs_desc e = Some c" "rx_cur e = (c + m) mod length (rx_ring e)"
    "\<not> d_own (slot (rx_ring e) c m)" "d_ls (slot (rx_ring e) c m)" "d_fl (slot (rx_ring e) c m) = len + 4" "len < 2 ^ 16"
    by (simp_all add: frame_ready_def)
  have "rx_cur e < length (rx_ring e)" unfolding F(4) using F(1) by (intro mod_less_divisor) linarith
  moreover have "rx_ring e ! rx_cur e = slot (rx_ring e) c m" using F(4) by (simp add: slot_def)
  moreover have "m = 0 \<Longrightarrow> rx_cur e = c" using F(1,4) by simp
  moreover have "next_desc (rx_ring e) (rx_cur e) = (c + Suc m) mod length (rx_ring e)" unfolding F(4) by (rule next_slot)
  moreover have "nat ((int (len + 4) - 4) mod 2 ^ 32) = len" using F(8) by simp
  ultimately show ?thesis
    using assms(2) F(2,3,5-7) by (cases "m = 0") (simp_all add: HAL_ETH_GetReceivedFrame_def Let_def)
qed

text \<open>
  C38. Frame input.  When a frame is complete and the pool has room for it, \<open>low_level_input\<close> returns
  a well-formed packet that holds exactly the bytes of the frame without the CRC; when the pool is
  too small it returns nothing and leaks nothing.  In both cases the segments of the frame belong to
  the DMA again.
\<close>

theorem low_level_input_receives:
  assumes "frame_ready e c m len" "\<not> locked e" "pool_ok s" "length (pool s) < 256"
  shows "\<exists>s' e' r. low_level_input junk s e = Some (s', e', r) \<and> seg_count e' = 0 \<and>
    (\<forall>i\<le>m. d_own (slot (rx_ring e') c i)) \<and> rx_cur e' = (c + Suc m) mod length (rx_ring e) \<and>
    (case r of
       None \<Rightarrow> length (pool s) < bufs_for PBUF_RAW len \<and> mset (pool s') = mset (pool s) \<and> heap s' = heap s
     | Some p \<Rightarrow> \<exists>as. packet (heap s') (Some p) as \<and> contents (heap s') as = take len (stream (rx_ring e) c (Suc m)) \<and>
         pool s = as @ pool s' \<and> (\<forall>a\<in>set as. pool_buf (the (heap s' a))) \<and> (\<forall>a. a \<notin> set as \<longrightarrow> heap s' a = heap s a))"
proof -
  let ?R = "rx_ring e"
  from assms(1) have F: "rx_ok ?R" "c < length ?R" "Suc m \<le> length ?R" "len \<le> Suc m * ETH_RX_BUF_SIZE" "len < 2 ^ 16"
    by (auto simp: frame_ready_def)
  from received_frame_spec[OF assms(1,2)] obtain e1 where E: "HAL_ETH_GetReceivedFrame e = Some (e1, HAL_OK)" "fs_desc e1 = Some c"
    "seg_count e1 = Suc m" "rx_length e1 = len" "rx_ring e1 = ?R" "rx_cur e1 = (c + Suc m) mod length ?R" by blast
  have w: "w16 (rx_length e1) = len" using E(4) F(5) by (simp add: w16_def)
  have "0 < length ?R" using F(2) by linarith
  from F(2,3) give_back_spec[OF _ this, of 0 "Suc m" c] obtain ring' where G: "give_back ?R c (Suc m) = Some ring'" "length ring' = length ?R"
    "\<forall>t<length ?R. d_own (slot ring' c t) = (t < Suc m \<or> d_own (slot ?R c t))" by (auto simp del: give_back.simps)
  define e2 where "e2 = e1\<lparr>rx_ring := ring', seg_count := 0\<rparr>"
  define e3 where "e3 = (if rbus e2 then e2\<lparr>rbus := False, rx_demands := rx_demands e2 + 1\<rparr> else e2)"
  have e3: "rx_ring e3 = ring'" "seg_count e3 = 0" "rx_cur e3 = (c + Suc m) mod length ?R" "\<forall>i\<le>m. d_own (slot (rx_ring e3) c i)"
    using G(3) F(3) E(6) by (simp_all add: e3_def e2_def)
  show ?thesis
  proof (cases "bufs_for PBUF_RAW len \<le> length (pool s)")
    case True
    with pbuf_alloc_pool_spec[OF assms(3) F(5) assms(4), of PBUF_RAW junk None] obtain s1 p as where A:
      "pbuf_alloc junk None s PBUF_RAW len PBUF_POOL = Some (s1, Some p)" "pool s = as @ pool s1" "packet (heap s1) (Some p) as"
      "total_len (heap s1) as = len" "\<forall>a\<in>set as. pool_buf (the (heap s1 a))" "\<forall>a. a \<notin> set as \<longrightarrow> heap s1 a = heap s a" by auto
    have "total_len (heap s1) as + 0 \<le> ETH_RX_BUF_SIZE * (Suc m - 0)" using A(4) F(4) by (simp add: mult.commute)
    from input_loop_spec[OF A(3) F(1) _ _ this, of c] F(2) A(4) obtain h where H: "input_loop s1 ?R c 0 (Some p) = Some (s1\<lparr>heap := h\<rparr>)"
      "packet h (Some p) as" "contents h as = take len (stream ?R c (Suc m))" "\<forall>a. a \<notin> set as \<longrightarrow> h a = heap s1 a"
      "\<forall>a\<in>set as. pool_buf (the (h a)) = pool_buf (the (heap s1 a))" by auto
    have "low_level_input junk s e = Some (s1\<lparr>heap := h\<rparr>, e3, Some p)"
      using E(1-3,5) w A(1) H(1) G(1) by (simp add: low_level_input_def Let_def e3_def e2_def)
    then show ?thesis using e3(2-4) A(2,5,6) H(2-5)
      by (intro exI[of _ "s1\<lparr>heap := h\<rparr>"] exI[of _ e3] exI[of _ "Some p"]) (auto intro!: exI[of _ as])
  next
    case False
    with pbuf_alloc_pool_spec[OF assms(3) F(5) assms(4), of PBUF_RAW junk None] obtain s1 where A:
      "pbuf_alloc junk None s PBUF_RAW len PBUF_POOL = Some (s1, None)" "mset (pool s1) = mset (pool s)" "heap s1 = heap s" by auto
    have "low_level_input junk s e = Some (s1, e3, None)"
      using E(1-3,5) w A(1) G(1) by (simp add: low_level_input_def Let_def e3_def e2_def)
    then show ?thesis using e3(2-4) A(2,3) False by (intro exI[of _ s1] exI[of _ e3] exI[of _ None]) simp
  qed
qed

text \<open>A frame of 600 bytes in one segment.\<close>

definition eth_rx :: eth where
  "eth_rx = eth0\<lparr>rx_ring := [free_desc\<lparr>d_ls := True, d_fs := True, d_fl := 604\<rparr>, free_desc]\<rparr>"

theorem low_level_input_receives_witness:
  "\<exists>s' e' r. low_level_input (\<lambda>_. 0) (pstate_init 0 12 100 16) eth_rx = Some (s', e', r) \<and> seg_count e' = 0 \<and>
    (\<forall>i\<le>0. d_own (slot (rx_ring e') 0 i)) \<and> rx_cur e' = (0 + Suc 0) mod length (rx_ring eth_rx) \<and>
    (case r of
       None \<Rightarrow> length (pool (pstate_init 0 12 100 16)) < bufs_for PBUF_RAW 600 \<and>
         mset (pool s') = mset (pool (pstate_init 0 12 100 16)) \<and> heap s' = heap (pstate_init 0 12 100 16)
     | Some p \<Rightarrow> \<exists>as. packet (heap s') (Some p) as \<and> contents (heap s') as = take 600 (stream (rx_ring eth_rx) 0 (Suc 0)) \<and>
         pool (pstate_init 0 12 100 16) = as @ pool s' \<and> (\<forall>a\<in>set as. pool_buf (the (heap s' a))) \<and>
         (\<forall>a. a \<notin> set as \<longrightarrow> heap s' a = heap (pstate_init 0 12 100 16) a))"
  by (rule low_level_input_receives)
    (simp_all add: frame_ready_def rx_ok_def eth_rx_def eth0_def free_desc_def slot_def ETH_RX_BUF_SIZE_def ETH_TX_BUF_SIZE_def)

end
