(* ===== verification/Board.thy ===== *)
theory Board
  imports Tcp EthDriver
begin

text \<open>
  The main program of the concentrator (\<open>src/concentrator-1/Src/main.c\<close>, \<open>app_ethernet.c\<close>), the
  link management of the driver (\<open>ethernetif.c\<close>) and of LwIP (\<open>netif.c\<close>), and the clock
  computation of the hardware library.  Calls of the hardware library are recorded in a trace;
  whether a call succeeds is the parameter \<open>hal\<close>, what the transceiver and the tick counter
  return at the \<open>n\<close>-th reading are the parameters \<open>phy\<close> and \<open>tick\<close>.
\<close>

unbundle bit_operations_syntax

subsection \<open>State\<close>

datatype tim = TIM1 | TIM3 | TIM4 | TIM8

datatype oc_mode = TIM_OCMODE_TOGGLE | TIM_OCMODE_PWM1

datatype oc_polarity = TIM_OCPOLARITY_LOW | TIM_OCPOLARITY_HIGH

text \<open>The calls of the hardware library, with the arguments that the program computes or chooses.\<close>

datatype hal_call =
    HAL_Init
  | HAL_RCC_OscConfig nat nat nat nat
  | HAL_RCC_ClockConfig nat nat nat nat
  | HAL_GPIO_Init nat
  | HAL_NVIC_SetPriority nat nat
  | HAL_NVIC_EnableIRQ nat
  | BSP_LED_Init nat
  | BSP_PB_Init
  | HAL_TIM_OC_Init tim nat u32
  | HAL_TIM_OC_ConfigChannel tim nat oc_mode u32 oc_polarity
  | HAL_TIM_OC_Start_IT tim nat
  | HAL_TIM_Base_Init tim nat u32
  | HAL_TIMEx_MasterConfigSynchronization tim
  | HAL_TIM_Base_Start tim
  | HAL_TIM_PWM_Init tim u32 nat
  | HAL_TIM_PWM_ConfigChannel tim nat oc_mode u32 oc_polarity
  | HAL_TIM_PWM_Start_DMA tim nat
  | HAL_ADC_Init nat
  | HAL_ADC_ConfigChannel nat
  | HAL_ADC_Start_IT
  | HAL_ETH_Init
  | HAL_ETH_DMATxDescListInit
  | HAL_ETH_DMARxDescListInit
  | HAL_ETH_Start
  | HAL_ETH_Stop
  | HAL_ETH_ConfigMAC
  | HAL_ETH_WritePHYRegister nat u32
  | Etharp_gratuitous
  | Etharp_cleanup_netif
  | Lwip_init

text \<open>The clock registers: source, PLL source, the PLL fields and the AHB prescaler field.\<close>

datatype sysclk = SWS_HSI | SWS_HSE | SWS_PLL | SWS_OTHER

record rcc =
  sws :: sysclk
  pllsrc_hse :: bool
  pllm :: nat
  plln :: nat
  pllp :: nat
  hpre :: nat

record netif =
  nif_up :: bool
  nif_link_up :: bool
  nif_broadcast :: bool
  nif_etharp :: bool
  nif_ip :: ip_addr
  nif_netmask :: ip_addr
  nif_gw :: ip_addr
  nif_mtu :: nat
  nif_hwaddr :: "nat list"
  nif_link_callback :: bool

record board =
  leds :: "nat set"
  trace :: "hal_call list"
  rcc :: rcc
  SystemCoreClock :: nat
  cl :: client
  tc :: tcp_client
  nif :: netif
  nif_listed :: bool
  nif_default :: bool
  autoneg :: bool
  full_duplex :: bool
  speed_100 :: bool
  readings :: nat

text \<open>A step either continues or ends in the endless loop of \<open>Error_Handler\<close> (\<open>Inl\<close>).\<close>

type_synonym outcome = "board + board"

definition and_then :: "outcome \<Rightarrow> (board \<Rightarrow> outcome) \<Rightarrow> outcome" where
  "and_then r f = (case r of Inl b \<Rightarrow> Inl b | Inr b \<Rightarrow> f b)"

definition Error_Handler :: "board \<Rightarrow> outcome" where
  "Error_Handler b = Inl (b\<lparr>leds := leds b \<union> {1, 2, 3, 4}\<rparr>)"

definition do_call :: "hal_call \<Rightarrow> board \<Rightarrow> board" where
  "do_call c b = b\<lparr>trace := trace b @ [c]\<rparr>"

text \<open>A call whose failure leads to \<open>Error_Handler\<close>.\<close>

definition checked :: "(hal_call \<Rightarrow> bool) \<Rightarrow> hal_call \<Rightarrow> board \<Rightarrow> outcome" where
  "checked hal c b = (if hal c then Inr (do_call c b) else Error_Handler (do_call c b))"

subsection \<open>Clocks\<close>

definition HSI_VALUE :: nat where
  "HSI_VALUE = 16000000"

definition HSE_VALUE :: nat where
  "HSE_VALUE = 25000000"

definition APBAHBPrescTable :: "nat list" where
  "APBAHBPrescTable = [0, 0, 0, 0, 1, 2, 3, 4, 1, 2, 3, 4, 6, 7, 8, 9]"

definition HAL_RCC_GetSysClockFreq :: "rcc \<Rightarrow> nat" where
  "HAL_RCC_GetSysClockFreq r =
     (case sws r of
        SWS_HSI \<Rightarrow> HSI_VALUE
      | SWS_HSE \<Rightarrow> HSE_VALUE
      | SWS_PLL \<Rightarrow>
          let pllvco = (if pllsrc_hse r then HSE_VALUE div pllm r * plln r else HSI_VALUE div pllm r * plln r)
          in pllvco div ((pllp r + 1) * 2)
      | SWS_OTHER \<Rightarrow> HSI_VALUE)"

definition HAL_RCC_GetHCLKFreq :: "board \<Rightarrow> board" where
  "HAL_RCC_GetHCLKFreq b = b\<lparr>SystemCoreClock := HAL_RCC_GetSysClockFreq (rcc b) div 2 ^ (APBAHBPrescTable ! hpre (rcc b))\<rparr>"

text \<open>The calls write the registers when they succeed; \<open>HAL_RCC_ClockConfig\<close> restarts the tick, which reads the clock.\<close>

definition SystemClock_Config :: "(hal_call \<Rightarrow> bool) \<Rightarrow> board \<Rightarrow> outcome" where
  "SystemClock_Config hal b =
     and_then (checked hal (HAL_RCC_OscConfig 25 336 2 7) b) (\<lambda>b.
     let b = b\<lparr>rcc := (rcc b)\<lparr>pllsrc_hse := True, pllm := 25, plln := 336, pllp := 2 div 2 - 1\<rparr>\<rparr>
     in and_then (checked hal (HAL_RCC_ClockConfig 1 4 2 5) b) (\<lambda>b.
        Inr (HAL_RCC_GetHCLKFreq (b\<lparr>rcc := (rcc b)\<lparr>sws := SWS_PLL, hpre := 0\<rparr>\<rparr>))))"

definition BSP_Config :: "board \<Rightarrow> board" where
  "BSP_Config b =
     fold do_call [HAL_GPIO_Init 14, HAL_NVIC_SetPriority 40 15, HAL_NVIC_EnableIRQ 40, BSP_LED_Init 1, BSP_LED_Init 2,
                   BSP_LED_Init 3, BSP_LED_Init 4, BSP_PB_Init, HAL_NVIC_SetPriority 255 0] b"

subsection \<open>Network interface (netif.c)\<close>

text \<open>Connections bound to the old address are aborted, listeners move to the new one.\<close>

definition netif_set_ipaddr :: "board \<Rightarrow> ip_addr \<Rightarrow> board" where
  "netif_set_ipaddr b ip =
     (let old = nif_ip (nif b);
          l = tcb (tc b);
          bound = (\<lambda>a. map_option local_ip (pcbs l a) = Some old);
          l' = l\<lparr>pcbs := (\<lambda>a. if a \<in> set (tcp_active_pcbs l) \<and> bound a
                             then map_option (\<lambda>p. p\<lparr>abort_called := True\<rparr>) (pcbs l a)
                             else if a \<in> set (tcp_listen_pcbs l) \<and> \<not> ip_addr_isany old \<and> bound a
                             then map_option (\<lambda>p. p\<lparr>local_ip := ip\<rparr>) (pcbs l a)
                             else pcbs l a),
                 tcp_active_pcbs := filter (\<lambda>a. \<not> bound a) (tcp_active_pcbs l)\<rparr>
      in b\<lparr>tc := (if ip \<noteq> old then (tc b)\<lparr>tcb := l'\<rparr> else tc b), nif := (nif b)\<lparr>nif_ip := ip\<rparr>\<rparr>)"

definition netif_set_addr :: "board \<Rightarrow> ip_addr \<Rightarrow> ip_addr \<Rightarrow> ip_addr \<Rightarrow> board" where
  "netif_set_addr b ip netmask gw =
     (let b = netif_set_ipaddr b ip in b\<lparr>nif := (nif b)\<lparr>nif_netmask := netmask, nif_gw := gw\<rparr>\<rparr>)"

definition netif_set_up :: "board \<Rightarrow> board" where
  "netif_set_up b =
     (if nif_up (nif b) then b
      else let b = b\<lparr>nif := (nif b)\<lparr>nif_up := True\<rparr>\<rparr>
           in if nif_link_up (nif b) \<and> nif_etharp (nif b) then do_call Etharp_gratuitous b else b)"

definition netif_set_down :: "board \<Rightarrow> board" where
  "netif_set_down b =
     (if nif_up (nif b)
      then let b = b\<lparr>nif := (nif b)\<lparr>nif_up := False\<rparr>\<rparr>
           in if nif_etharp (nif b) then do_call Etharp_cleanup_netif b else b
      else b)"

subsection \<open>Link changes (app_ethernet.c, ethernetif.c)\<close>

definition led_on :: "nat \<Rightarrow> board \<Rightarrow> board" where
  "led_on n b = b\<lparr>leds := insert n (leds b)\<rparr>"

definition led_off :: "nat \<Rightarrow> board \<Rightarrow> board" where
  "led_off n b = b\<lparr>leds := leds b - {n}\<rparr>"

definition NETMASK_ADDR :: ip_addr where
  "NETMASK_ADDR = (255, 255, 255, 0)"

definition GW_ADDR :: ip_addr where
  "GW_ADDR = (192, 168, 0, 1)"

definition User_notification :: "board \<Rightarrow> board" where
  "User_notification b = (if nif_up (nif b) then led_on 1 b else led_on 2 b)"

definition ethernetif_notify_conn_changed :: "board \<Rightarrow> board" where
  "ethernetif_notify_conn_changed b =
     (if nif_link_up (nif b)
      then led_on 1 (led_off 2 (netif_set_up (netif_set_addr b IP_ADDR NETMASK_ADDR GW_ADDR)))
      else led_on 2 (led_off 1 (netif_set_down b)))"

definition PHY_BCR :: nat where
  "PHY_BCR = 0x00"

definition PHY_BSR :: nat where
  "PHY_BSR = 0x01"

definition PHY_SR :: nat where
  "PHY_SR = 0x10"

definition PHY_MICR :: nat where
  "PHY_MICR = 0x11"

definition PHY_MISR :: nat where
  "PHY_MISR = 0x12"


text \<open>
  Wait for the end of the auto-negotiation, at most one second; the result is the index of the
  next reading and whether the time is over.
\<close>

partial_function (option) autoneg_wait :: "(nat \<Rightarrow> nat \<Rightarrow> u32) \<Rightarrow> (nat \<Rightarrow> u32) \<Rightarrow> u32 \<Rightarrow> nat \<Rightarrow> (nat \<times> bool) option" where
  "autoneg_wait phy tick tickstart n =
     (if 1000 < tick n - tickstart then Some (n + 1, True)
      else if phy n PHY_BSR AND 0x20 = 0x20 then Some (n + 1, False)
      else autoneg_wait phy tick tickstart (n + 1))"

definition ethernetif_update_config :: "(nat \<Rightarrow> nat \<Rightarrow> u32) \<Rightarrow> (nat \<Rightarrow> u32) \<Rightarrow> board \<Rightarrow> board option" where
  "ethernetif_update_config phy tick b =
     do { b \<leftarrow> (if nif_link_up (nif b)
                then do { (b, forced) \<leftarrow>
                            (if autoneg b
                             then let b = do_call (HAL_ETH_WritePHYRegister PHY_BCR 0x1000) b;
                                      tickstart = tick (readings b)
                                  in do { (n, timeout) \<leftarrow> autoneg_wait phy tick tickstart (readings b + 1);
                                          let b = b\<lparr>readings := n\<rparr>
                                          in if timeout then Some (b, True)
                                             else let v = phy (readings b) PHY_SR
                                                  in Some (b\<lparr>readings := readings b + 1, full_duplex := v AND 0x4 \<noteq> 0,
                                                             speed_100 := (v AND 0x2 = 0)\<rparr>, False) }
                             else Some (b, True));
                          let b = (if forced
                                   then do_call (HAL_ETH_WritePHYRegister PHY_BCR
                                          (drop_bit 3 (if full_duplex b then 0x800 else 0) OR
                                           drop_bit 1 (if speed_100 b then 0x4000 else 0))) b
                                   else b)
                          in Some (do_call HAL_ETH_Start (do_call HAL_ETH_ConfigMAC b)) }
                else Some (do_call HAL_ETH_Stop b));
          Some (ethernetif_notify_conn_changed b) }"

definition netif_set_link_up :: "(nat \<Rightarrow> nat \<Rightarrow> u32) \<Rightarrow> (nat \<Rightarrow> u32) \<Rightarrow> board \<Rightarrow> board option" where
  "netif_set_link_up phy tick b =
     (if nif_link_up (nif b) then Some b
      else let b = b\<lparr>nif := (nif b)\<lparr>nif_link_up := True\<rparr>\<rparr>;
               b = (if nif_up (nif b) \<and> nif_etharp (nif b) then do_call Etharp_gratuitous b else b)
           in if nif_link_callback (nif b) then ethernetif_update_config phy tick b else Some b)"

definition netif_set_link_down :: "(nat \<Rightarrow> nat \<Rightarrow> u32) \<Rightarrow> (nat \<Rightarrow> u32) \<Rightarrow> board \<Rightarrow> board option" where
  "netif_set_link_down phy tick b =
     (if nif_link_up (nif b)
      then let b = b\<lparr>nif := (nif b)\<lparr>nif_link_up := False\<rparr>\<rparr>
           in if nif_link_callback (nif b) then ethernetif_update_config phy tick b else Some b
      else Some b)"

definition ethernetif_set_link :: "(nat \<Rightarrow> nat \<Rightarrow> u32) \<Rightarrow> (nat \<Rightarrow> u32) \<Rightarrow> board \<Rightarrow> board option" where
  "ethernetif_set_link phy tick b =
     (let v = phy (readings b) PHY_MISR;
          b = b\<lparr>readings := readings b + 1\<rparr>
      in if v AND 0x2000 \<noteq> 0
         then let w = phy (readings b) PHY_SR;
                  b = b\<lparr>readings := readings b + 1\<rparr>
              in if w AND 0x1 \<noteq> 0 then netif_set_link_up phy tick b else netif_set_link_down phy tick b
         else Some b)"

definition HAL_GPIO_EXTI_Callback :: "(nat \<Rightarrow> nat \<Rightarrow> u32) \<Rightarrow> (nat \<Rightarrow> u32) \<Rightarrow> nat \<Rightarrow> board \<Rightarrow> board option" where
  "HAL_GPIO_EXTI_Callback phy tick pin b =
     (if pin = 14 then ethernetif_set_link phy tick b
      else if pin = 15 then Some (b\<lparr>leds := (if 3 \<in> leds b then leds b - {3} else insert 3 (leds b))\<rparr>)
      else Some b)"

subsection \<open>Start of the interface (ethernetif.c, main.c)\<close>

definition MAC_ADDR :: "nat list" where
  "MAC_ADDR = [2, 0, 0, 0, 0, 0]"

text \<open>\<open>hal HAL_ETH_Init\<close> decides whether the link is up at the start.\<close>

definition low_level_init :: "(hal_call \<Rightarrow> bool) \<Rightarrow> (nat \<Rightarrow> nat \<Rightarrow> u32) \<Rightarrow> board \<Rightarrow> board" where
  "low_level_init hal phy b =
     (let b = do_call HAL_ETH_Init (b\<lparr>autoneg := True, full_duplex := True, speed_100 := True\<rparr>);
          b = (if hal HAL_ETH_Init then b\<lparr>nif := (nif b)\<lparr>nif_link_up := True\<rparr>\<rparr> else b);
          b = do_call HAL_ETH_DMARxDescListInit (do_call HAL_ETH_DMATxDescListInit b);
          b = b\<lparr>nif := (nif b)\<lparr>nif_hwaddr := MAC_ADDR, nif_mtu := 1500, nif_broadcast := True, nif_etharp := True\<rparr>\<rparr>;
          b = do_call HAL_ETH_Start b;
          micr = phy (readings b) PHY_MICR OR (0x2 OR 0x1);
          b = do_call (HAL_ETH_WritePHYRegister PHY_MICR micr) (b\<lparr>readings := readings b + 1\<rparr>);
          misr = phy (readings b) PHY_MISR OR 0x20
      in do_call (HAL_ETH_WritePHYRegister PHY_MISR misr) (b\<lparr>readings := readings b + 1\<rparr>))"

definition ethernetif_init :: "(hal_call \<Rightarrow> bool) \<Rightarrow> (nat \<Rightarrow> nat \<Rightarrow> u32) \<Rightarrow> board \<Rightarrow> board \<times> err" where
  "ethernetif_init hal phy b = (low_level_init hal phy b, ERR_OK)"

definition netif_add :: "(hal_call \<Rightarrow> bool) \<Rightarrow> (nat \<Rightarrow> nat \<Rightarrow> u32) \<Rightarrow> board \<Rightarrow> ip_addr \<Rightarrow> ip_addr \<Rightarrow> ip_addr \<Rightarrow> board" where
  "netif_add hal phy b ip netmask gw =
     (let b = b\<lparr>nif := (nif b)\<lparr>nif_ip := (0, 0, 0, 0), nif_netmask := (0, 0, 0, 0), nif_gw := (0, 0, 0, 0), nif_up := False,
                       nif_link_up := False, nif_broadcast := False, nif_etharp := False, nif_link_callback := False\<rparr>\<rparr>;
          (b, e) = ethernetif_init hal phy (netif_set_addr b ip netmask gw)
      in if e \<noteq> ERR_OK then b else b\<lparr>nif_listed := True\<rparr>)"

definition Netif_Config :: "(hal_call \<Rightarrow> bool) \<Rightarrow> (nat \<Rightarrow> nat \<Rightarrow> u32) \<Rightarrow> board \<Rightarrow> board" where
  "Netif_Config hal phy b =
     (let b = (netif_add hal phy b IP_ADDR NETMASK_ADDR GW_ADDR)\<lparr>nif_default := True\<rparr>;
          b = (if nif_link_up (nif b) then netif_set_up b else netif_set_down b)
      in b\<lparr>nif := (nif b)\<lparr>nif_link_callback := True\<rparr>\<rparr>)"

subsection \<open>Timers and converter (main.c)\<close>

definition prescaler :: "nat \<Rightarrow> nat \<Rightarrow> u32" where
  "prescaler clock rate = of_nat (clock div 2 div rate) - 1"

definition TIM_Config :: "(hal_call \<Rightarrow> bool) \<Rightarrow> board \<Rightarrow> outcome" where
  "TIM_Config hal b =
     foldl (\<lambda>r c. and_then r (checked hal c)) (Inr b)
       [HAL_TIM_OC_Init TIM3 10000 (prescaler (SystemCoreClock b) 10000),
        HAL_TIM_OC_ConfigChannel TIM3 1 TIM_OCMODE_TOGGLE 100 TIM_OCPOLARITY_LOW,
        HAL_TIM_OC_Start_IT TIM3 1,
        HAL_TIM_OC_Init TIM4 10000 (prescaler (SystemCoreClock b) 100000),
        HAL_TIM_OC_ConfigChannel TIM4 2 TIM_OCMODE_TOGGLE 100 TIM_OCPOLARITY_LOW,
        HAL_TIM_OC_Start_IT TIM4 2,
        HAL_TIM_Base_Init TIM8 0x3C 0,
        HAL_TIMEx_MasterConfigSynchronization TIM8,
        HAL_TIM_Base_Start TIM8,
        HAL_TIM_PWM_Init TIM1 (uhTimerPeriod (cl b)) 3,
        HAL_TIM_PWM_ConfigChannel TIM1 3 TIM_OCMODE_PWM1 (aCCValue_Buffer (cl b)) TIM_OCPOLARITY_HIGH,
        HAL_TIM_PWM_Start_DMA TIM1 3]"

text \<open>Ten bits of resolution, channel 7.\<close>

definition ADC_Config :: "(hal_call \<Rightarrow> bool) \<Rightarrow> board \<Rightarrow> outcome" where
  "ADC_Config hal b =
     foldl (\<lambda>r c. and_then r (checked hal c)) (Inr b) [HAL_ADC_Init 10, HAL_ADC_ConfigChannel 7, HAL_ADC_Start_IT]"

definition HAL_ADC_ConvCpltCallback :: "u16 \<Rightarrow> board \<Rightarrow> board" where
  "HAL_ADC_ConvCpltCallback v b = b\<lparr>cl := (cl b)\<lparr>uhADCxConvertedValue := v\<rparr>\<rparr>"

text \<open>\<open>main\<close> up to its endless loop; \<open>pcb\<close> and \<open>e\<close> are the results of \<open>udp_new\<close> and \<open>udp_connect\<close>.\<close>

definition main_init :: "(hal_call \<Rightarrow> bool) \<Rightarrow> (nat \<Rightarrow> nat \<Rightarrow> u32) \<Rightarrow> udp_pcb option \<Rightarrow> err \<Rightarrow> board \<Rightarrow> outcome" where
  "main_init hal phy pcb e b =
     and_then (SystemClock_Config hal (do_call HAL_Init b)) (\<lambda>b.
     let b = do_call Lwip_init (BSP_Config b);
         b = Netif_Config hal phy b;
         b = b\<lparr>cl := concentrator_init pcb e (cl b)\<rparr>;
         b = User_notification b;
         period = of_nat (SystemCoreClock b div 17570) - 1;
         c = cl b;
         b = b\<lparr>cl := c\<lparr>uhTimerPeriod := period, aCCValue_Buffer := duty (uhADCxConvertedValuePercent c) period\<rparr>\<rparr>
     in and_then (TIM_Config hal b) (ADC_Config hal))"

text \<open>
  The timer callback; \<open>channel\<close> is the active channel of the handle.  The two clients share the
  packet buffers.
\<close>

definition HAL_TIM_OC_DelayElapsedCallback ::
    "(nat \<Rightarrow> byte) \<Rightarrow> (pstate \<Rightarrow> addr \<Rightarrow> pstate \<times> err) \<Rightarrow> (ip_addr \<times> nat) option \<Rightarrow> u32 \<Rightarrow>
     (tcp_pcb \<Rightarrow> err \<times> tcp_pcb) \<Rightarrow> (tcp_pcb \<Rightarrow> tcp_pcb) \<Rightarrow> addr option \<Rightarrow> nat \<Rightarrow> board \<Rightarrow> board option" where
  "HAL_TIM_OC_DelayElapsedCallback junk udp_send route iss enqueue output t channel b =
     do { b \<leftarrow> (if channel = 1 then do { s \<leftarrow> tcp_echoclient_connect route iss enqueue output t (tc b); Some (b\<lparr>tc := s\<rparr>) }
                else Some b);
          if channel = 2
          then do { c \<leftarrow> concentrator_send junk udp_send ((cl b)\<lparr>ps := tps (tc b)\<rparr>);
                    Some (b\<lparr>cl := c, tc := (tc b)\<lparr>tps := ps c\<rparr>\<rparr>) }
          else Some b }"

subsection \<open>The start of the program\<close>

lemma and_then_simps [simp]: "and_then (Inl b) f = Inl b" "and_then (Inr b) f = f b"
  by (simp_all add: and_then_def)

text \<open>A sequence of checked calls stops at the first one that fails.\<close>

lemma checked_sequence:
  "foldl (\<lambda>r c. and_then r (checked hal c)) (Inr b) cs =
     (if list_all hal cs then Inr (b\<lparr>trace := trace b @ cs\<rparr>)
      else Error_Handler (b\<lparr>trace := trace b @ takeWhile hal cs @ [hd (dropWhile hal cs)]\<rparr>))"
proof (induction cs arbitrary: b)
  case (Cons c cs)
  have stuck: "foldl (\<lambda>r c. and_then r (checked hal c)) (Inl x) ds = Inl x" for x ds by (induction ds) auto
  show ?case
  proof (cases "hal c")
    case True
    then have "checked hal c b = Inr (do_call c b)" by (simp add: checked_def)
    then show ?thesis using Cons[of "do_call c b"] True by (simp add: do_call_def)
  next
    case False
    then have "checked hal c b = Inl (b\<lparr>trace := trace b @ [c], leds := leds b \<union> {1, 2, 3, 4}\<rparr>)"
      by (simp add: checked_def do_call_def Error_Handler_def)
    then show ?thesis using stuck False by (simp add: Error_Handler_def)
  qed
qed simp

text \<open>The fields that the steps between the clock and the timers leave alone.\<close>

lemma keep_simps [simp]:
  "SystemCoreClock (do_call c b) = SystemCoreClock b" "rcc (do_call c b) = rcc b" "cl (do_call c b) = cl b" "nif (do_call c b) = nif b" "leds (do_call c b) = leds b"
  "readings (do_call c b) = readings b" "autoneg (do_call c b) = autoneg b" "trace (do_call c b) = trace b @ [c]"
  by (simp_all add: do_call_def)

lemma clock_168: "SystemClock_Config hal b = Inr b' \<Longrightarrow> SystemCoreClock b' = 168000000"
  by (auto simp: SystemClock_Config_def checked_def Error_Handler_def HAL_RCC_GetHCLKFreq_def HAL_RCC_GetSysClockFreq_def
      HSE_VALUE_def APBAHBPrescTable_def Let_def numeral_2_eq_2[symmetric] split: if_splits)

lemma netif_keep [simp]:
  "SystemCoreClock (netif_set_up b) = SystemCoreClock b" "cl (netif_set_up b) = cl b"
  "SystemCoreClock (netif_set_down b) = SystemCoreClock b" "cl (netif_set_down b) = cl b"
  "SystemCoreClock (netif_set_addr b i m g) = SystemCoreClock b" "cl (netif_set_addr b i m g) = cl b"
  "leds (netif_set_up b) = leds b" "leds (netif_set_down b) = leds b" "leds (netif_set_addr b i m g) = leds b"
  "nif_link_up (nif (netif_set_up b)) = nif_link_up (nif b)" "nif_link_up (nif (netif_set_down b)) = nif_link_up (nif b)"
  "nif_link_up (nif (netif_set_addr b i m g)) = nif_link_up (nif b)" "nif_up (nif (netif_set_up b))" "\<not> nif_up (nif (netif_set_down b))"
  "nif_link_callback (nif (netif_set_up b)) = nif_link_callback (nif b)" "nif_link_callback (nif (netif_set_down b)) = nif_link_callback (nif b)"
  "nif_link_callback (nif (netif_set_addr b i m g)) = nif_link_callback (nif b)"
  by (simp_all add: netif_set_up_def netif_set_down_def netif_set_addr_def netif_set_ipaddr_def Let_def)

lemma Netif_Config_keep: "SystemCoreClock (Netif_Config hal phy b) = SystemCoreClock b" "cl (Netif_Config hal phy b) = cl b"
  by (simp_all add: Netif_Config_def netif_add_def ethernetif_init_def low_level_init_def Let_def)

lemma BSP_Config_keep: "SystemCoreClock (BSP_Config b) = SystemCoreClock b" "cl (BSP_Config b) = cl b"
  by (simp_all add: BSP_Config_def)


text \<open>A board after reset.\<close>

definition board0 :: board where
  "board0 = \<lparr>leds = {}, trace = [], rcc = \<lparr>sws = SWS_HSI, pllsrc_hse = False, pllm = 16, plln = 192, pllp = 0, hpre = 0\<rparr>, SystemCoreClock = 16000000,
     cl = client0, tc = tcp_client1, nif = \<lparr>nif_up = False, nif_link_up = False, nif_broadcast = False, nif_etharp = False, nif_ip = (0, 0, 0, 0),
       nif_netmask = (0, 0, 0, 0), nif_gw = (0, 0, 0, 0), nif_mtu = 0, nif_hwaddr = [], nif_link_callback = False\<rparr>,
     nif_listed = False, nif_default = False, autoneg = False, full_duplex = False, speed_100 = False, readings = 0\<rparr>"


subsection \<open>Link state\<close>

text \<open>The interface is up exactly when the link is, LED 1 shows the link, LED 2 its absence.\<close>

definition link_shown :: "board \<Rightarrow> bool" where
  "link_shown b \<longleftrightarrow> nif_link_callback (nif b) \<and> nif_up (nif b) = nif_link_up (nif b) \<and>
     (1 \<in> leds b) = nif_link_up (nif b) \<and> (2 \<in> leds b) = (\<not> nif_link_up (nif b))"

definition clock_runs :: "(nat \<Rightarrow> u32) \<Rightarrow> bool" where
  "clock_runs tick \<longleftrightarrow> (\<forall>t n. \<exists>m\<ge>n. 1000 < tick m - t)"

lemma autoneg_wait_returns:
  assumes "1000 < tick m - t" "n \<le> m"
  shows "\<exists>k timeout. autoneg_wait phy tick t n = Some (k, timeout)"
  using assms(2)
proof (induction "m - n" arbitrary: n)
  case 0
  then show ?case using assms(1) by (subst autoneg_wait.simps) auto
next
  case (Suc d)
  then have "d = m - Suc n" "Suc n \<le> m" by auto
  from Suc.hyps(1)[OF this] show ?case by (subst autoneg_wait.simps) auto
qed

lemma notify_shown: "nif_link_callback (nif b) \<Longrightarrow> link_shown (ethernetif_notify_conn_changed b) \<and>
    nif_link_up (nif (ethernetif_notify_conn_changed b)) = nif_link_up (nif b)"
  by (simp add: ethernetif_notify_conn_changed_def link_shown_def led_on_def led_off_def)

lemma update_config_shown:
  assumes "clock_runs tick" "nif_link_callback (nif b)"
  shows "\<exists>b'. ethernetif_update_config phy tick b = Some b' \<and> link_shown b' \<and> nif_link_up (nif b') = nif_link_up (nif b)"
proof -
  note sh = notify_shown[THEN conjunct1] notify_shown[THEN conjunct2]
  show ?thesis
  proof (cases "nif_link_up (nif b) \<and> autoneg b")
    case True
    from assms(1) obtain m where "readings b + 1 \<le> m" "1000 < tick m - tick (readings b)" unfolding clock_runs_def by blast
    from autoneg_wait_returns[of tick m "tick (readings b)" "readings b + 1" phy] this obtain k to where
      "autoneg_wait phy tick (tick (readings b)) (readings b + 1) = Some (k, to)" by blast
    then show ?thesis using True assms(2) by (simp add: ethernetif_update_config_def Let_def sh)
  next
    case False
    then show ?thesis using assms(2) by (auto simp: ethernetif_update_config_def Let_def sh)
  qed
qed

text \<open>
  C39. The link interrupt.  Its handler returns when the tick counter runs, keeps the link shown on
  the LEDs and the state of the interface in step with it, and after a pending link interrupt
  the link state is the one that the transceiver reports.
\<close>

theorem link_interrupt:
  assumes "link_shown b" "clock_runs tick"
  shows "\<exists>b'. HAL_GPIO_EXTI_Callback phy tick 14 b = Some b' \<and> link_shown b' \<and>
    nif_link_up (nif b') = (if phy (readings b) PHY_MISR AND 0x2000 \<noteq> 0 then phy (readings b + 1) PHY_SR AND 0x1 \<noteq> 0
                            else nif_link_up (nif b))"
proof -
  let ?b = "b\<lparr>readings := readings b + 2\<rparr>"
  have s: "link_shown ?b" "nif_link_callback (nif ?b)" using assms(1) by (simp_all add: link_shown_def)
  have "\<exists>b'. netif_set_link_up phy tick ?b = Some b' \<and> link_shown b' \<and> nif_link_up (nif b')"
  proof (cases "nif_link_up (nif b)")
    case True
    then show ?thesis using s by (simp add: netif_set_link_up_def)
  next
    case False
    then have "\<not> nif_up (nif b)" using assms(1) by (simp add: link_shown_def)
    with False show ?thesis
      using update_config_shown[OF assms(2), of "?b\<lparr>nif := (nif b)\<lparr>nif_link_up := True\<rparr>\<rparr>" phy] s(2)
      by (auto simp: netif_set_link_up_def Let_def)
  qed
  moreover have "\<exists>b'. netif_set_link_down phy tick ?b = Some b' \<and> link_shown b' \<and> \<not> nif_link_up (nif b')"
  proof (cases "nif_link_up (nif b)")
    case True
    then show ?thesis
      using update_config_shown[OF assms(2), of "?b\<lparr>nif := (nif b)\<lparr>nif_link_up := False\<rparr>\<rparr>" phy] s(2)
      by (auto simp: netif_set_link_down_def Let_def)
  next
    case False
    then show ?thesis using s by (simp add: netif_set_link_down_def)
  qed
  moreover have "link_shown (b\<lparr>readings := readings b + 1\<rparr>)" using assms(1) by (simp add: link_shown_def)
  ultimately show ?thesis by (auto simp: HAL_GPIO_EXTI_Callback_def ethernetif_set_link_def Let_def)
qed

definition board_up :: board where
  "board_up = board0\<lparr>leds := {1}, nif := (nif board0)\<lparr>nif_up := True, nif_link_up := True, nif_link_callback := True\<rparr>\<rparr>"

lemma of_nat_clock_runs: "clock_runs of_nat"
  unfolding clock_runs_def
proof (intro allI)
  fix t :: u32 and n :: nat
  have z: "of_nat (2 ^ 32 * n) = (0 :: u32)" unfolding word_of_nat_eq_0_iff by simp
  have "unat (of_nat (unat t + 2000 + 2 ^ 32 * n) - t) = 2000" unfolding of_nat_add z by simp
  then have "1000 < of_nat (unat t + 2000 + 2 ^ 32 * n) - t" by (simp add: word_less_nat_alt)
  then show "\<exists>m\<ge>n. 1000 < of_nat m - t" by (intro exI[of _ "unat t + 2000 + 2 ^ 32 * n"]) simp
qed

theorem link_interrupt_witness:
  "\<exists>b'. HAL_GPIO_EXTI_Callback (\<lambda>_ r. if r = PHY_MISR then 0x2000 else 0) of_nat 14 board_up = Some b' \<and> link_shown b' \<and>
    nif_link_up (nif b') = (if (if PHY_MISR = PHY_MISR then 0x2000 else 0 :: u32) AND 0x2000 \<noteq> 0
      then (if PHY_SR = PHY_MISR then 0x2000 else 0 :: u32) AND 0x1 \<noteq> 0 else nif_link_up (nif board_up))"
  using link_interrupt[OF _ of_nat_clock_runs, of board_up "\<lambda>_ r. if r = PHY_MISR then 0x2000 else 0"]
  by (simp add: link_shown_def board_up_def)

end
