(* ===== verification/Sds.thy ===== *)
theory Sds
  imports Interfaces Util
begin

text \<open>
  Simple dynamic strings (\<open>src/redis/src/sds.c\<close>, \<open>sds.h\<close>).  A string is its header and the
  memory block behind it; every access to the block is checked, and \<open>None\<close> is an access out of
  bounds or a failed \<open>assert\<close>.  The invariant \<open>sds_ok\<close> says that the block has the size the
  header claims and that the contents are followed by a NUL; the lemmas show that each operation
  keeps it and acts on the contents \<open>sds_str\<close> as the corresponding list operation.

  \<open>zmalloc\<close> and \<open>zrealloc\<close> abort the process when memory is exhausted, so the NULL branches of
  the sources are never taken.  The header fields are \<open>unsigned int\<close>: what is stored there is
  reduced modulo \<open>2 ^ 32\<close>.  \<open>size_t\<close> has 64 bits and the sums of the sources stay below
  \<open>2 ^ 64\<close>.
\<close>

subsection \<open>Header and contents\<close>

abbreviation NUL :: char where "NUL \<equiv> CHR 0x00"
abbreviation LF :: char where "LF \<equiv> CHR 0x0A"
abbreviation CR :: char where "CR \<equiv> CHR 0x0D"

record sdshdr =
  sh_len :: nat
  sh_free :: nat
  sh_buf :: string

definition to_u32 :: "int \<Rightarrow> nat" where
  "to_u32 i = nat (i mod 2 ^ 32)"

definition SDS_MAX_PREALLOC :: nat where
  "SDS_MAX_PREALLOC = 1024 * 1024"

definition sdslen :: "sdshdr \<Rightarrow> nat" where
  "sdslen s = sh_len s"

definition sdsavail :: "sdshdr \<Rightarrow> nat" where
  "sdsavail s = sh_free s"

text \<open>The length of the C string at the start of a block.\<close>

definition c_strlen :: "string \<Rightarrow> nat option" where
  "c_strlen m = (let n = length (takeWhile (\<lambda>c. c \<noteq> NUL) m) in if n < length m then Some n else None)"

definition sds_str :: "sdshdr \<Rightarrow> string" where
  "sds_str s = take (sh_len s) (sh_buf s)"

definition sds_ok :: "sdshdr \<Rightarrow> bool" where
  "sds_ok s \<longleftrightarrow> length (sh_buf s) = sh_len s + sh_free s + 1 \<and> sh_buf s ! sh_len s = NUL \<and>
     sh_len s + sh_free s < 2 ^ 32"

subsection \<open>Creation\<close>

definition sdsnewlen :: "string option \<Rightarrow> nat \<Rightarrow> sdshdr option" where
  "sdsnewlen init initlen =
     do { xs \<leftarrow> (case init of None \<Rightarrow> Some (replicate initlen NUL) | Some m \<Rightarrow> mem_read m 0 initlen);
          Some \<lparr>sh_len = to_u32 (int initlen), sh_free = 0, sh_buf = xs @ [NUL]\<rparr> }"

definition sdsempty :: "sdshdr option" where
  "sdsempty = sdsnewlen (Some [NUL]) 0"

definition sdsnew :: "string option \<Rightarrow> sdshdr option" where
  "sdsnew init =
     do { initlen \<leftarrow> (case init of None \<Rightarrow> Some 0 | Some m \<Rightarrow> c_strlen m);
          sdsnewlen init initlen }"

definition sdsdup :: "sdshdr \<Rightarrow> sdshdr option" where
  "sdsdup s = sdsnewlen (Some (sh_buf s)) (sdslen s)"

subsection \<open>Length and room\<close>

definition sdsupdatelen :: "sdshdr \<Rightarrow> sdshdr option" where
  "sdsupdatelen s =
     do { reallen \<leftarrow> c_strlen (sh_buf s);
          Some (s\<lparr>sh_free := to_u32 (int (sh_free s) + (int (sh_len s) - int reallen)), sh_len := to_u32 (int reallen)\<rparr>) }"

definition sdsclear :: "sdshdr \<Rightarrow> sdshdr option" where
  "sdsclear s =
     do { b \<leftarrow> arr_set (sh_buf s) 0 NUL;
          Some (s\<lparr>sh_free := to_u32 (int (sh_free s) + int (sh_len s)), sh_len := 0, sh_buf := b\<rparr>) }"

text \<open>\<open>junk\<close> is what \<open>zrealloc\<close> leaves in the new part of a block.\<close>

definition prealloc :: "nat \<Rightarrow> nat" where
  "prealloc newlen = (if newlen < SDS_MAX_PREALLOC then newlen * 2 else newlen + SDS_MAX_PREALLOC)"

definition sdsMakeRoomFor :: "(nat \<Rightarrow> char) \<Rightarrow> sdshdr \<Rightarrow> nat \<Rightarrow> sdshdr" where
  "sdsMakeRoomFor junk s addlen =
     (if sdsavail s \<ge> addlen then s
      else let newlen = prealloc (sdslen s + addlen)
           in s\<lparr>sh_buf := mem_resize junk (sh_buf s) (newlen + 1), sh_free := to_u32 (int newlen - int (sdslen s))\<rparr>)"

definition sdsRemoveFreeSpace :: "(nat \<Rightarrow> char) \<Rightarrow> sdshdr \<Rightarrow> sdshdr" where
  "sdsRemoveFreeSpace junk s = s\<lparr>sh_buf := mem_resize junk (sh_buf s) (sh_len s + 1), sh_free := 0\<rparr>"

text \<open>The header has two fields of four bytes.\<close>

definition sdsAllocSize :: "sdshdr \<Rightarrow> nat" where
  "sdsAllocSize s = 8 + sh_len s + sh_free s + 1"

definition sdsIncrLen :: "sdshdr \<Rightarrow> int \<Rightarrow> sdshdr option" where
  "sdsIncrLen s incr =
     (if (if 0 \<le> incr then incr \<le> int (sh_free s) else - incr \<le> int (sh_len s))
      then let len = to_u32 (int (sh_len s) + incr)
           in do { b \<leftarrow> arr_set (sh_buf s) (int len) NUL;
                   Some (s\<lparr>sh_len := len, sh_free := to_u32 (int (sh_free s) - incr), sh_buf := b\<rparr>) }
      else None)"

definition sdsgrowzero :: "(nat \<Rightarrow> char) \<Rightarrow> sdshdr \<Rightarrow> nat \<Rightarrow> sdshdr option" where
  "sdsgrowzero junk s len =
     (let curlen = sh_len s
      in if len \<le> curlen then Some s
         else let s = sdsMakeRoomFor junk s (len - curlen)
              in do { b \<leftarrow> mem_write (sh_buf s) curlen (replicate (len - curlen + 1) NUL);
                      let totlen = sh_len s + sh_free s
                      in Some (s\<lparr>sh_buf := b, sh_len := to_u32 (int len),
                                 sh_free := to_u32 (int totlen - int (to_u32 (int len)))\<rparr>) })"

subsection \<open>Appending and copying\<close>

text \<open>\<open>t\<close> is the memory at the second pointer, which the operation does not free or move.\<close>

definition sdscatlen :: "(nat \<Rightarrow> char) \<Rightarrow> sdshdr \<Rightarrow> string \<Rightarrow> nat \<Rightarrow> sdshdr option" where
  "sdscatlen junk s t len =
     (let curlen = sdslen s;
          s = sdsMakeRoomFor junk s len
      in do { xs \<leftarrow> mem_read t 0 len;
              b \<leftarrow> mem_write (sh_buf s) curlen xs;
              b \<leftarrow> arr_set b (int (curlen + len)) NUL;
              Some (s\<lparr>sh_len := to_u32 (int (curlen + len)), sh_free := to_u32 (int (sh_free s) - int len), sh_buf := b\<rparr>) })"

definition sdscat :: "(nat \<Rightarrow> char) \<Rightarrow> sdshdr \<Rightarrow> string \<Rightarrow> sdshdr option" where
  "sdscat junk s t = do { n \<leftarrow> c_strlen t; sdscatlen junk s t n }"

definition sdscatsds :: "(nat \<Rightarrow> char) \<Rightarrow> sdshdr \<Rightarrow> sdshdr \<Rightarrow> sdshdr option" where
  "sdscatsds junk s t = sdscatlen junk s (sh_buf t) (sdslen t)"

definition sdscpylen :: "(nat \<Rightarrow> char) \<Rightarrow> sdshdr \<Rightarrow> string \<Rightarrow> nat \<Rightarrow> sdshdr option" where
  "sdscpylen junk s t len =
     (let s = (if sh_free s + sh_len s < len then sdsMakeRoomFor junk s (len - sh_len s) else s);
          totlen = sh_free s + sh_len s
      in do { xs \<leftarrow> mem_read t 0 len;
              b \<leftarrow> mem_write (sh_buf s) 0 xs;
              b \<leftarrow> arr_set b (int len) NUL;
              Some (s\<lparr>sh_buf := b, sh_len := to_u32 (int len), sh_free := to_u32 (int totlen - int len)\<rparr>) })"

definition sdscpy :: "(nat \<Rightarrow> char) \<Rightarrow> sdshdr \<Rightarrow> string \<Rightarrow> sdshdr option" where
  "sdscpy junk s t = do { n \<leftarrow> c_strlen t; sdscpylen junk s t n }"

subsection \<open>Trimming and slicing\<close>

text \<open>\<open>strchr cset c\<close> also finds the NUL that ends the C string \<open>cset\<close>.\<close>

definition in_cset :: "string \<Rightarrow> char \<Rightarrow> bool" where
  "in_cset cset c \<longleftrightarrow> c = NUL \<or> c \<in> set (takeWhile (\<lambda>c. c \<noteq> NUL) cset)"

function trim_left :: "string \<Rightarrow> string \<Rightarrow> int \<Rightarrow> int \<Rightarrow> int option" where
  "trim_left cset b sp e =
     (if \<not> sp \<le> e then Some sp
      else Option.bind (arr_get b sp) (\<lambda>c. if in_cset cset c then trim_left cset b (sp + 1) e else Some sp))"
  by auto
termination by (relation "measure (\<lambda>(_, _, sp, e). nat (e + 1 - sp))") auto

function trim_right :: "string \<Rightarrow> string \<Rightarrow> int \<Rightarrow> int option" where
  "trim_right cset b ep =
     (if \<not> 0 < ep then Some ep
      else Option.bind (arr_get b ep) (\<lambda>c. if in_cset cset c then trim_right cset b (ep - 1) else Some ep))"
  by auto
termination by (relation "measure (\<lambda>(_, _, ep). nat ep)") auto

declare trim_left.simps [simp del] trim_right.simps [simp del]

definition sdstrim :: "sdshdr \<Rightarrow> string \<Rightarrow> sdshdr option" where
  "sdstrim s cset =
     do { let e = int (sdslen s) - 1;
          sp \<leftarrow> trim_left cset (sh_buf s) 0 e;
          ep \<leftarrow> trim_right cset (sh_buf s) e;
          let len = (if ep < sp then 0 else nat (ep - sp + 1));
          b \<leftarrow> (if sp \<noteq> 0 then mem_move (sh_buf s) 0 (nat sp) len else Some (sh_buf s));
          b \<leftarrow> arr_set b (int len) NUL;
          Some (s\<lparr>sh_buf := b, sh_free := to_u32 (int (sh_free s) + (int (sh_len s) - int len)), sh_len := to_u32 (int len)\<rparr>) }"

text \<open>Where the part that is kept starts, and its length.\<close>

definition range_bounds :: "nat \<Rightarrow> int \<Rightarrow> int \<Rightarrow> int \<times> int" where
  "range_bounds len start end =
     (let start = (if start < 0 then (if int len + start < 0 then 0 else int len + start) else start);
          end = (if end < 0 then (if int len + end < 0 then 0 else int len + end) else end);
          newlen = (if start > end then 0 else end - start + 1)
      in if newlen \<noteq> 0
         then if start \<ge> int len then (start, 0)
              else if end \<ge> int len
              then let end = int len - 1 in (start, if start > end then 0 else end - start + 1)
              else (start, newlen)
         else (0, newlen))"

definition sdsrange :: "sdshdr \<Rightarrow> int \<Rightarrow> int \<Rightarrow> sdshdr option" where
  "sdsrange s start end =
     (if sdslen s = 0 then Some s
      else let (start, newlen) = range_bounds (sdslen s) start end
           in do { b \<leftarrow> (if start \<noteq> 0 \<and> newlen \<noteq> 0 then mem_move (sh_buf s) 0 (nat start) (nat newlen) else Some (sh_buf s));
                   b \<leftarrow> arr_set b newlen NUL;
                   Some (s\<lparr>sh_buf := b, sh_free := to_u32 (int (sh_free s) + (int (sh_len s) - newlen)), sh_len := to_u32 newlen\<rparr>) })"

subsection \<open>The layout of a string\<close>

lemma to_u32_id [simp]: "0 \<le> i \<Longrightarrow> i < 2 ^ 32 \<Longrightarrow> to_u32 i = nat i"
  by (simp add: to_u32_def)

definition sds_of :: "string \<Rightarrow> string \<Rightarrow> sdshdr" where
  "sds_of xs room = \<lparr>sh_len = length xs, sh_free = length room, sh_buf = xs @ NUL # room\<rparr>"

lemma sds_of_sel [simp]:
  "sh_len (sds_of xs room) = length xs" "sh_free (sds_of xs room) = length room"
  "sh_buf (sds_of xs room) = xs @ NUL # room" "sdslen (sds_of xs room) = length xs" "sdsavail (sds_of xs room) = length room"
  by (simp_all add: sds_of_def sdslen_def sdsavail_def)

lemma sds_str_sds_of [simp]: "sds_str (sds_of xs room) = xs"
  by (simp add: sds_str_def)

lemma sds_ok_sds_of [simp]: "sds_ok (sds_of xs room) \<longleftrightarrow> length xs + length room < 2 ^ 32"
  by (simp add: sds_ok_def nth_append)

lemma sds_okE:
  assumes "sds_ok s"
  obtains room where "s = sds_of (sds_str s) room" "length (sds_str s) + length room < 2 ^ 32"
proof -
  from assms have l: "length (sh_buf s) = sh_len s + sh_free s + 1" "sh_buf s ! sh_len s = NUL" "sh_len s + sh_free s < 2 ^ 32"
    by (simp_all add: sds_ok_def)
  then have "sh_buf s = take (sh_len s) (sh_buf s) @ NUL # drop (sh_len s + 1) (sh_buf s)"
    using id_take_nth_drop[of "sh_len s" "sh_buf s"] by simp
  then have "s = sds_of (sds_str s) (drop (sh_len s + 1) (sh_buf s))"
    using l by (cases s) (simp add: sds_of_def sds_str_def)
  moreover have "length (sds_str s) + length (drop (sh_len s + 1) (sh_buf s)) < 2 ^ 32" using l by (simp add: sds_str_def)
  ultimately show thesis by (rule that)
qed

lemma sdslen_str [simp]: "sds_ok s \<Longrightarrow> length (sds_str s) = sdslen s"
  by (auto simp: sds_ok_def sds_str_def sdslen_def)

text \<open>Storing contents and terminator over the old contents, when they fit.\<close>

lemma sds_of_eqI:
  "n = length xs \<Longrightarrow> k = length room \<Longrightarrow> b = xs @ NUL # room \<Longrightarrow> \<lparr>sh_len = n, sh_free = k, sh_buf = b\<rparr> = sds_of xs room"
  by (simp add: sds_of_def)

lemma sds_updates:
  "s\<lparr>sh_len := n, sh_free := k, sh_buf := b\<rparr> = \<lparr>sh_len = n, sh_free = k, sh_buf = b\<rparr>"
  "s\<lparr>sh_buf := b, sh_free := k, sh_len := n\<rparr> = \<lparr>sh_len = n, sh_free = k, sh_buf = b\<rparr>"
  "s\<lparr>sh_free := k, sh_len := n, sh_buf := b\<rparr> = \<lparr>sh_len = n, sh_free = k, sh_buf = b\<rparr>"
  "s\<lparr>sh_buf := b, sh_len := n, sh_free := k\<rparr> = \<lparr>sh_len = n, sh_free = k, sh_buf = b\<rparr>"
  by (cases s; simp)+

lemma arr_set_mid [mem_simps]: "i = int (length xs) \<Longrightarrow> arr_set (xs @ y # ys) i z = Some (xs @ z # ys)"
  by (simp add: arr_set_def)

subsection \<open>Creation\<close>

lemma sdsnewlen_spec: "n \<le> length m \<Longrightarrow> n < 2 ^ 32 \<Longrightarrow> sdsnewlen (Some m) n = Some (sds_of (take n m) [])"
  by (simp add: sdsnewlen_def mem_simps sds_of_def)

lemma sdsempty_spec: "sdsempty = Some (sds_of [] [])"
  by (simp add: sdsempty_def sdsnewlen_spec)

lemma c_strlen_app [simp]: "NUL \<notin> set xs \<Longrightarrow> c_strlen (xs @ NUL # ys) = Some (length xs)"
proof -
  assume "NUL \<notin> set xs"
  then have "takeWhile (\<lambda>c. c \<noteq> NUL) (xs @ NUL # ys) = xs" by (subst takeWhile_append2) auto
  then show ?thesis by (simp add: c_strlen_def)
qed

lemma sdsnew_spec: "NUL \<notin> set xs \<Longrightarrow> length xs < 2 ^ 32 \<Longrightarrow> sdsnew (Some (xs @ NUL # ys)) = Some (sds_of xs [])"
  by (simp add: sdsnew_def sdsnewlen_spec)

lemma sdsdup_spec: "sds_ok s \<Longrightarrow> sdsdup s = Some (sds_of (sds_str s) [])"
  by (simp add: sdsdup_def sdsnewlen_spec sds_ok_def sdslen_def sds_str_def)

subsection \<open>Room\<close>

lemma grow_block:
  assumes "length xs + length room \<le> new" "new < 2 ^ 32"
  shows "(sds_of xs room)\<lparr>sh_buf := mem_resize junk (xs @ NUL # room) (new + 1), sh_free := to_u32 (int new - int (length xs))\<rparr> =
    sds_of xs (room @ map junk [length (xs @ NUL # room)..<new + 1])"
  using assms by (simp add: sds_of_def mem_resize_def del: upt_Suc)

lemma sdsMakeRoomFor_spec:
  assumes "length xs + length room < 2 ^ 32" "length xs + n + SDS_MAX_PREALLOC < 2 ^ 32"
  shows "\<exists>room'. sdsMakeRoomFor junk (sds_of xs room) n = sds_of xs room' \<and> n \<le> length room' \<and> length xs + length room' < 2 ^ 32"
proof (cases "n \<le> length room")
  case True
  with assms show ?thesis by (auto simp: sdsMakeRoomFor_def)
next
  case False
  obtain new where new: "new = prealloc (length xs + n)" by simp
  then have b: "length xs + n \<le> new" "new < 2 ^ 32" using assms by (auto simp: prealloc_def SDS_MAX_PREALLOC_def)
  with False have l: "length xs + length room \<le> new" by simp
  let ?room = "room @ map junk [length (xs @ NUL # room)..<new + 1]"
  from grow_block[OF l b(2)] False new have "sdsMakeRoomFor junk (sds_of xs room) n = sds_of xs ?room"
    by (simp add: sdsMakeRoomFor_def Let_def del: upt_Suc)
  moreover have "length ?room = new - length xs" using l by (simp del: upt_Suc)
  ultimately show ?thesis using b by (intro exI[of _ ?room]) simp
qed

subsection \<open>Appending and copying\<close>

text \<open>Writing \<open>ys\<close> and a terminator over the terminator and the room behind \<open>xs\<close>.\<close>

lemma write_terminated:
  assumes "length ys \<le> length room"
  shows "Option.bind (mem_write (xs @ NUL # room) (length xs) ys) (\<lambda>b. arr_set b (int (length xs + length ys)) NUL) =
    Some ((xs @ ys) @ NUL # drop (length ys) room)"
proof -
  obtain z zs where d: "drop (length ys) (NUL # room) = z # zs"
    using assms by (cases "drop (length ys) (NUL # room)") auto
  then have "zs = drop (length ys) room"
    by (metis drop_Suc tl_drop list.sel(3))
  moreover have "mem_write (xs @ NUL # room) (length xs) ys = Some ((xs @ ys) @ z # zs)"
    using assms d by (simp add: mem_write_def)
  ultimately show ?thesis using arr_set_mid[of "int (length xs + length ys)" "xs @ ys" z zs NUL] by simp
qed

lemma sdscatlen_spec:
  assumes "sds_ok s" "n \<le> length t" "sdslen s + n + SDS_MAX_PREALLOC < 2 ^ 32"
  shows "\<exists>s'. sdscatlen junk s t n = Some s' \<and> sds_ok s' \<and> sds_str s' = sds_str s @ take n t"
proof -
  from assms(1) obtain xs room where s: "s = sds_of xs room" "length xs + length room < 2 ^ 32" by (metis sds_okE)
  with assms(3) obtain r where r: "sdsMakeRoomFor junk s n = sds_of xs r" "n \<le> length r" "length xs + length r < 2 ^ 32"
    using sdsMakeRoomFor_spec[of xs room n junk] by auto
  have l: "length (take n t) = n" using assms(2) by simp
  have "sdscatlen junk s t n = Some (sds_of (xs @ take n t) (drop n r))"
    using write_terminated[of "take n t" r xs] assms(2) r s(1) l
    by (auto simp: sdscatlen_def Let_def mem_simps bind_eq_Some_conv sds_updates intro!: sds_of_eqI)
  then show ?thesis using r s by auto
qed

lemma sdscat_spec:
  assumes "sds_ok s" "NUL \<notin> set t" "sdslen s + length t + SDS_MAX_PREALLOC < 2 ^ 32"
  shows "\<exists>s'. sdscat junk s (t @ NUL # m) = Some s' \<and> sds_ok s' \<and> sds_str s' = sds_str s @ t"
  using sdscatlen_spec[of s "length t" "t @ NUL # m" junk] assms by (simp add: sdscat_def)

lemma sdscatsds_spec:
  assumes "sds_ok s" "sds_ok t" "sdslen s + sdslen t + SDS_MAX_PREALLOC < 2 ^ 32"
  shows "\<exists>s'. sdscatsds junk s t = Some s' \<and> sds_ok s' \<and> sds_str s' = sds_str s @ sds_str t"
  using sdscatlen_spec[of s "sdslen t" "sh_buf t" junk] assms by (simp add: sdscatsds_def sds_ok_def sdslen_def sds_str_def)

lemma write_over:
  assumes "length ys \<le> length xs + length room"
  shows "Option.bind (mem_write (xs @ NUL # room) 0 ys) (\<lambda>b. arr_set b (int (length ys)) NUL) =
    Some (ys @ NUL # drop (Suc (length ys)) (xs @ NUL # room))"
proof -
  obtain z zs where d: "drop (length ys) (xs @ NUL # room) = z # zs"
    using assms by (cases "drop (length ys) (xs @ NUL # room)") (auto simp del: drop_append)
  then have "zs = drop (Suc (length ys)) (xs @ NUL # room)"
    by (metis drop_Suc tl_drop list.sel(3))
  moreover have "mem_write (xs @ NUL # room) 0 ys = Some (ys @ z # zs)"
    using assms d by (simp add: mem_write_def del: drop_append)
  ultimately show ?thesis using arr_set_mid[of "int (length ys)" ys z zs NUL] by simp
qed

lemma sdscpylen_spec:
  assumes "sds_ok s" "n \<le> length t" "n + SDS_MAX_PREALLOC < 2 ^ 32"
  shows "\<exists>s'. sdscpylen junk s t n = Some s' \<and> sds_ok s' \<and> sds_str s' = take n t"
proof -
  from assms(1) obtain xs room where s: "s = sds_of xs room" "length xs + length room < 2 ^ 32" by (metis sds_okE)
  obtain r where r: "(if sh_free s + sh_len s < n then sdsMakeRoomFor junk s (n - sh_len s) else s) = sds_of xs r"
    "n \<le> length xs + length r" "length xs + length r < 2 ^ 32"
  proof (cases "sh_free s + sh_len s < n")
    case True
    then show ?thesis using sdsMakeRoomFor_spec[of xs room "n - length xs" junk] assms s that by auto
  next
    case False
    then show ?thesis using that[of room] s by simp
  qed
  have l: "length (take n t) = n" using assms(2) by simp
  have "sdscpylen junk s t n = Some (sds_of (take n t) (drop (Suc n) (xs @ NUL # r)))"
    unfolding sdscpylen_def Let_def r(1) using write_over[of "take n t" xs r] assms(2) r(2,3) l
    by (auto simp: mem_simps bind_eq_Some_conv sds_updates simp del: drop_append intro!: sds_of_eqI)
  then show ?thesis using r by (auto simp del: drop_append)
qed

lemma sdsIncrLen_extends:
  assumes "length xs + length room < 2 ^ 32" "k \<le> length room"
  shows "\<exists>s'. sdsIncrLen (sds_of xs room) (int k) = Some s' \<and> sds_ok s' \<and> sds_str s' = take (length xs + k) (xs @ NUL # room)"
proof -
  let ?m = "xs @ NUL # room"
  have lt: "length xs + k < length ?m" using assms by simp
  have "sdsIncrLen (sds_of xs room) (int k) =
    Some \<lparr>sh_len = length xs + k, sh_free = length room - k, sh_buf = ?m[length xs + k := NUL]\<rparr>"
    using assms lt arr_set_in[OF lt] by (simp add: sdsIncrLen_def Let_def sds_updates nat_add_distrib del: list_update_append)
  then show ?thesis using assms lt
    by (auto simp: sds_ok_def sds_str_def simp del: list_update_append take_append)
qed

lemma sdsgrowzero_spec:
  assumes "sds_ok s" "n + SDS_MAX_PREALLOC < 2 ^ 32"
  shows "\<exists>s'. sdsgrowzero junk s n = Some s' \<and> sds_ok s' \<and> sds_str s' = sds_str s @ replicate (n - sdslen s) NUL"
proof (cases "n \<le> sdslen s")
  case True
  then show ?thesis using assms by (simp add: sdsgrowzero_def sdslen_def)
next
  case False
  from assms(1) obtain xs room where s: "s = sds_of xs room" "length xs + length room < 2 ^ 32" by (metis sds_okE)
  let ?k = "n - length xs"
  from False s assms(2) obtain r where r: "sdsMakeRoomFor junk s ?k = sds_of xs r" "?k \<le> length r" "length xs + length r < 2 ^ 32"
    using sdsMakeRoomFor_spec[of xs room ?k junk] by auto
  have "mem_write (xs @ NUL # r) (length xs) (replicate ?k NUL @ [NUL]) = Some ((xs @ replicate ?k NUL) @ NUL # drop ?k r)"
    using r(2) by (simp add: mem_write_def)
  moreover have "replicate (Suc ?k) NUL = replicate ?k NUL @ [NUL]" by (simp add: replicate_append_same)
  ultimately have "sdsgrowzero junk s n = Some (sds_of (xs @ replicate ?k NUL) (drop ?k r))"
    using False r s by (auto simp: sdsgrowzero_def Let_def sds_updates simp del: replicate.simps intro!: sds_of_eqI)
  then show ?thesis using False r s by auto
qed

lemma sdsclear_spec: "sds_ok s \<Longrightarrow> \<exists>s'. sdsclear s = Some s' \<and> sds_ok s' \<and> sds_str s' = []"
  by (auto simp: sdsclear_def arr_set_def sds_ok_def sds_str_def)

lemma sdsRemoveFreeSpace_spec: "sds_ok s \<Longrightarrow> sds_ok (sdsRemoveFreeSpace junk s) \<and> sds_str (sdsRemoveFreeSpace junk s) = sds_str s"
  by (auto simp: sdsRemoveFreeSpace_def sds_ok_def sds_str_def mem_resize_def nth_append)

subsection \<open>Slices\<close>

text \<open>The positions of the string that the inclusive interval names, in order.\<close>

definition from_end :: "nat \<Rightarrow> int \<Rightarrow> int" where
  "from_end n i = (if i < 0 then max 0 (int n + i) else i)"

definition slice :: "string \<Rightarrow> int \<Rightarrow> int \<Rightarrow> string" where
  "slice xs a b = (let n = length xs in map ((!) xs) (filter (\<lambda>i. from_end n a \<le> int i \<and> int i \<le> from_end n b) [0..<n]))"

lemma filter_upt_between: "filter (\<lambda>i. a \<le> int i \<and> int i \<le> b) [0..<n] = [nat a..<min n (nat (b + 1))]"
proof (induction n)
  case 0
  then show ?case by simp
next
  case (Suc n)
  show ?case
  proof (cases "a \<le> int n \<and> int n \<le> b")
    case True
    then have "[nat a..<min (Suc n) (nat (b + 1))] = [nat a..<n] @ [n]" "min n (nat (b + 1)) = n"
      by (auto simp: min_def upt_Suc_append)
    with Suc True show ?thesis by simp
  next
    case False
    then have "n < nat a \<or> min (Suc n) (nat (b + 1)) = min n (nat (b + 1))" by auto
    then have "[nat a..<min (Suc n) (nat (b + 1))] = [nat a..<min n (nat (b + 1))]" by auto
    with Suc False show ?thesis by simp
  qed
qed

lemma map_nth_upt: "j \<le> length xs \<Longrightarrow> map ((!) xs) [i..<j] = take (j - i) (drop i xs)"
  by (rule nth_equalityI) auto

lemma slice_take_drop:
  "slice xs a b = (let i = nat (from_end (length xs) a); j = min (length xs) (nat (from_end (length xs) b + 1)) in take (j - i) (drop i xs))"
  by (simp add: slice_def filter_upt_between map_nth_upt Let_def)

lemma slice_suffix: "0 \<le> k \<Longrightarrow> slice xs k (- 1) = drop (nat k) xs"
  by (cases "xs = []") (auto simp: slice_take_drop Let_def from_end_def)

text \<open>Moving a slice to the front of the block and terminating it there.\<close>

lemma move_terminated:
  assumes "i + k \<le> length xs"
  shows "Option.bind (if i \<noteq> 0 \<and> k \<noteq> 0 then mem_move (xs @ NUL # room) 0 i k else Some (xs @ NUL # room)) (\<lambda>b. arr_set b (int k) NUL) =
    Some (take k (drop i xs) @ NUL # drop (Suc k) (xs @ NUL # room))"
proof (cases "i = 0 \<or> k = 0")
  case True
  then have "take k (drop i xs) = take k (xs @ NUL # room)" using assms by auto
  moreover have "arr_set (xs @ NUL # room) (int k) NUL = Some (take k (xs @ NUL # room) @ NUL # drop (Suc k) (xs @ NUL # room))"
    using assms by (subst arr_set_in) (auto simp: upd_conv_take_nth_drop simp del: take_append drop_append list_update_append)
  ultimately show ?thesis using True by (auto simp del: take_append drop_append)
next
  case False
  let ?y = "take k (drop i xs)"
  have "mem_move (xs @ NUL # room) 0 i k = mem_write (xs @ NUL # room) 0 ?y"
    using assms by (simp add: mem_move_def mem_read_def)
  moreover have "length ?y = k" using assms by simp
  ultimately show ?thesis using write_over[of ?y xs room] False assms by (simp del: drop_append)
qed

lemma range_bounds_spec:
  assumes "0 < n" "range_bounds n a b = (i, k)"
  shows "0 \<le> i \<and> k = int (min n (nat (from_end n b + 1)) - nat (from_end n a)) \<and> (k \<noteq> 0 \<longrightarrow> i = from_end n a)"
proof -
  have e: "(if x < 0 then (if int n + x < 0 then 0 else int n + x) else x) = from_end n x" for x
    by (auto simp: from_end_def)
  have p: "0 \<le> from_end n x" for x by (simp add: from_end_def)
  show ?thesis using assms p[of a] p[of b] unfolding range_bounds_def Let_def e
    by (auto split: if_splits)
qed

lemma sdsrange_spec:
  assumes "sds_ok s"
  shows "\<exists>s'. sdsrange s a b = Some s' \<and> sds_ok s' \<and> sds_str s' = slice (sds_str s) a b"
proof (cases "sdslen s = 0")
  case True
  with assms have "sds_str s = []" by (metis sdslen_str length_0_conv)
  then show ?thesis using True assms by (simp add: sdsrange_def slice_def)
next
  case False
  from assms obtain xs room where s: "s = sds_of xs room" "length xs + length room < 2 ^ 32" by (metis sds_okE)
  obtain i k where ik: "range_bounds (length xs) a b = (i, k)" by fastforce
  from range_bounds_spec[OF _ ik] False s(1)
  have b: "0 \<le> i" "k = int (min (length xs) (nat (from_end (length xs) b + 1)) - nat (from_end (length xs) a))"
    "k \<noteq> 0 \<longrightarrow> i = from_end (length xs) a" by auto
  let ?k = "nat k" and ?i = "if k = 0 then 0 else nat i"
  have le: "?i + ?k \<le> length xs" using b by (cases "k = 0") (auto simp: min_def split: if_splits)
  have k0: "int ?k = k" using b(2) by simp
  have sl: "take ?k (drop ?i xs) = slice xs a b" using b by (simp add: slice_take_drop Let_def)
  have "sdsrange s a b = Some (sds_of (slice xs a b) (drop (Suc ?k) (xs @ NUL # room)))"
    using move_terminated[OF le, of room] False s ik k0 b(1) le unfolding sl
    by (auto simp: sdsrange_def bind_eq_Some_conv sds_updates sl[symmetric] simp del: drop_append split: if_splits intro!: sds_of_eqI)
  moreover have "length (slice xs a b) = ?k" using le by (simp add: sl[symmetric])
  ultimately show ?thesis using s le by (auto simp del: drop_append)
qed

subsection \<open>Trimming\<close>

lemma trim_left_spec:
  assumes "i \<le> length xs"
  shows "trim_left cset (xs @ ys) (int i) (int (length xs) - 1) = Some (int (i + length (takeWhile (in_cset cset) (drop i xs))))"
  using assms
proof (induction "length xs - i" arbitrary: i)
  case 0
  then show ?case by (subst trim_left.simps) simp
next
  case (Suc n)
  then have i: "i < length xs" by simp
  have IH: "trim_left cset (xs @ ys) (int (Suc i)) (int (length xs) - 1) =
      Some (int (Suc i + length (takeWhile (in_cset cset) (drop (Suc i) xs))))" using Suc i by (intro Suc.hyps(1)) auto
  show ?case using i IH
    by (subst trim_left.simps) (simp add: arr_get_in[of i "xs @ ys"] nth_append Cons_nth_drop_Suc[symmetric] add.commute)
qed

text \<open>The right end stops at the last byte that is not in the set, or at 0.\<close>

lemma trim_right_spec:
  assumes "i < length xs"
  shows "\<exists>j\<le>i. trim_right cset (xs @ ys) (int i) = Some (int j) \<and> (\<forall>m. j < m \<and> m \<le> i \<longrightarrow> in_cset cset (xs ! m)) \<and>
    (j = 0 \<or> \<not> in_cset cset (xs ! j))"
  using assms
proof (induction i)
  case 0
  then show ?case by (subst trim_right.simps) simp
next
  case (Suc i)
  have g: "arr_get (xs @ ys) (1 + int i) = Some (xs ! Suc i)"
    using Suc.prems arr_get_in[of "Suc i" "xs @ ys"] by (simp add: nth_append)
  show ?case
  proof (cases "in_cset cset (xs ! Suc i)")
    case True
    from Suc obtain j where "j \<le> i" "trim_right cset (xs @ ys) (int i) = Some (int j)"
      "\<forall>m. j < m \<and> m \<le> i \<longrightarrow> in_cset cset (xs ! m)" "j = 0 \<or> \<not> in_cset cset (xs ! j)" by auto
    with True g show ?thesis
      by (intro exI[of _ j]) (subst trim_right.simps, auto simp: le_Suc_eq)
  next
    case False
    with g show ?thesis by (intro exI[of _ "Suc i"]) (subst trim_right.simps, auto)
  qed
qed

definition trim :: "(char \<Rightarrow> bool) \<Rightarrow> string \<Rightarrow> string" where
  "trim P xs = rev (dropWhile P (rev (dropWhile P xs)))"

lemma rev_dropWhile_rev_take:
  assumes "j < length xs" "\<not> P (xs ! j)" "\<forall>m. j < m \<and> m < length xs \<longrightarrow> P (xs ! m)"
  shows "rev (dropWhile P (rev xs)) = take (Suc j) xs"
proof -
  have "xs = take (Suc j) xs @ drop (Suc j) xs" by simp
  moreover have "\<forall>x\<in>set (rev (drop (Suc j) xs)). P x"
    using assms(3) by (auto simp: in_set_conv_nth)
  ultimately have "dropWhile P (rev xs) = dropWhile P (rev (take (Suc j) xs))"
    by (metis dropWhile_append2 rev_append)
  also have "\<dots> = rev (take (Suc j) xs)"
    using assms(1,2) by (simp add: take_Suc_conv_app_nth)
  finally show ?thesis by simp
qed

lemma trim_ends:
  assumes "i = length (takeWhile (in_cset cset) xs)"
  shows "\<exists>ep k. trim_right cset (xs @ ys) (int (length xs) - 1) = Some ep \<and>
      (if ep < int i then 0 else nat (ep - int i + 1)) = k \<and> i + k \<le> length xs \<and> trim (in_cset cset) xs = take k (drop i xs)"
proof -
  let ?P = "in_cset cset"
  have di: "dropWhile ?P xs = drop i xs" by (simp add: assms dropWhile_eq_drop)
  consider "xs = []" | "xs \<noteq> []" "i = length xs" | "i < length xs"
    using length_takeWhile_le[of ?P xs] assms by linarith
  then show ?thesis
  proof cases
    case 1
    then show ?thesis using assms by (subst trim_right.simps) (simp add: trim_def)
  next
    case 2
    then obtain j where "j \<le> length xs - 1" "trim_right cset (xs @ ys) (int (length xs - 1)) = Some (int j)"
      using trim_right_spec[of "length xs - 1" xs cset ys] by auto
    moreover from this(1) 2 have "j < length xs" by (cases xs) auto
    ultimately show ?thesis using 2 di by (auto simp: trim_def of_nat_diff Suc_leI dest: set_dropWhileD)
  next
    case 3
    then have np: "\<not> ?P (xs ! i)" using nth_length_takeWhile assms by blast
    have lt: "length xs - 1 < length xs" using 3 by linarith
    obtain j where j: "j \<le> length xs - 1" "trim_right cset (xs @ ys) (int (length xs - 1)) = Some (int j)"
      "\<forall>m. j < m \<and> m \<le> length xs - 1 \<longrightarrow> ?P (xs ! m)" "j = 0 \<or> \<not> ?P (xs ! j)"
      using trim_right_spec[OF lt, of cset ys] by blast
    have ij: "i \<le> j" using j(3) np 3 by (metis Suc_pred' less_Suc_eq_le not_le_imp_less zero_less_iff_neq_zero not_less_zero)
    then have nj: "\<not> ?P (xs ! j)" using j(4) np by auto
    have jn: "j < length xs" using j(1) 3 by linarith
    have "?P (xs ! (i + m))" if "j - i < m" "i + m < length xs" for m
      using that ij j(3) by (intro mp[OF spec[OF j(3)]]) linarith
    then have "rev (dropWhile ?P (rev (drop i xs))) = take (Suc (j - i)) (drop i xs)"
      using ij jn nj 3 by (intro rev_dropWhile_rev_take) auto
    then have "trim ?P xs = take (Suc (j - i)) (drop i xs)" by (simp add: trim_def di)
    moreover have "nat (int j - int i + 1) = Suc (j - i)" using ij by simp
    moreover have "int (length xs - 1) = int (length xs) - 1" using 3 by simp
    ultimately show ?thesis using j(2) ij jn by auto
  qed
qed

lemma sdstrim_spec:
  assumes "sds_ok s"
  shows "\<exists>s'. sdstrim s cset = Some s' \<and> sds_ok s' \<and> sds_str s' = trim (in_cset cset) (sds_str s)"
proof -
  from assms obtain xs room where s: "s = sds_of xs room" "length xs + length room < 2 ^ 32" by (metis sds_okE)
  obtain i where i: "i = length (takeWhile (in_cset cset) xs)" by simp
  have left: "trim_left cset (xs @ NUL # room) 0 (int (length xs) - 1) = Some (int i)"
    using trim_left_spec[of 0 xs cset "NUL # room"] by (simp add: i)
  obtain ep k where k: "trim_right cset (xs @ NUL # room) (int (length xs) - 1) = Some ep"
    "(if ep < int i then 0 else nat (ep - int i + 1)) = k" "i + k \<le> length xs" "trim (in_cset cset) xs = take k (drop i xs)"
    using trim_ends[OF i] by blast
  have mv: "(if int i \<noteq> 0 then mem_move (xs @ NUL # room) 0 (nat (int i)) k else Some (xs @ NUL # room)) =
      (if i \<noteq> 0 \<and> k \<noteq> 0 then mem_move (xs @ NUL # room) 0 i k else Some (xs @ NUL # room))"
    using k(3) by (simp add: mem_move_def mem_read_def mem_write_def)
  have "sdstrim s cset = Some (sds_of (take k (drop i xs)) (drop (Suc k) (xs @ NUL # room)))"
    unfolding sdstrim_def Let_def s(1) sds_of_sel left Option.bind.bind_lunit k(1) k(2) mv
    using move_terminated[OF k(3), of room] s(2) k(3)
    by (auto simp: bind_eq_Some_conv sds_updates simp del: drop_append intro!: sds_of_eqI)
  then show ?thesis using s k(3,4) by (auto simp del: drop_append)
qed

end
