(* ===== verification/SdsText.thy ===== *)
theory SdsText
  imports Sds
begin

text \<open>
  The text routines of \<open>src/redis/src/sds.c\<close>: decimal output, comparison, character maps,
  \<open>sdsjoin\<close>, \<open>sdssplitlen\<close>, the quoted form that \<open>sdscatrepr\<close> writes and the splitter
  \<open>sdssplitargs\<close> that reads it.  The loops that append to a string do so through the interface
  \<open>append_buffer\<close>, interpreted here on \<open>sdscatlen\<close>.  \<open>isprint\<close>, \<open>isspace\<close>, \<open>tolower\<close> and
  \<open>toupper\<close> are those of the C locale.
\<close>

abbreviation BSL :: char where "BSL \<equiv> CHR 0x5C"
abbreviation DQ :: char where "DQ \<equiv> CHR 0x22"
abbreviation SQ :: char where "SQ \<equiv> CHR 0x27"

abbreviation code :: "char \<Rightarrow> nat" where "code \<equiv> of_char"

subsection \<open>Decimal output\<close>

text \<open>
  The digits of \<open>v\<close> are written from position \<open>n\<close> on, the lowest first; then the part that was
  written is reversed in place.
\<close>

function ll2str_digits :: "string \<Rightarrow> nat \<Rightarrow> nat \<Rightarrow> (string \<times> nat) option" where
  "ll2str_digits m n v =
     Option.bind (arr_set m (int n) (digit_char (v mod 10)))
       (\<lambda>m. if v div 10 \<noteq> 0 then ll2str_digits m (n + 1) (v div 10) else Some (m, n + 1))"
  by auto
termination by (relation "measure (\<lambda>(_, _, v). v)") auto

function reverse_range :: "string \<Rightarrow> int \<Rightarrow> int \<Rightarrow> string option" where
  "reverse_range m s p =
     (if \<not> s < p then Some m
      else Option.bind (arr_get m s) (\<lambda>aux. Option.bind (arr_get m p) (\<lambda>c.
           Option.bind (arr_set m s c) (\<lambda>m. Option.bind (arr_set m p aux) (\<lambda>m. reverse_range m (s + 1) (p - 1))))))"
  by auto
termination by (relation "measure (\<lambda>(_, s, p). nat (p - s))") auto

declare ll2str_digits.simps [simp del] reverse_range.simps [simp del]

definition sdsll2str :: "string \<Rightarrow> u64 \<Rightarrow> (string \<times> nat) option" where
  "sdsll2str m value =
     do { let v = (if sint value < 0 then unat (- value) else unat value);
          (m, l) \<leftarrow> ll2str_digits m 0 v;
          (m, l) \<leftarrow> (if sint value < 0 then do { m \<leftarrow> arr_set m (int l) (CHR ''-''); Some (m, l + 1) } else Some (m, l));
          m \<leftarrow> arr_set m (int l) NUL;
          m \<leftarrow> reverse_range m 0 (int l - 1);
          Some (m, l) }"

definition sdsull2str :: "string \<Rightarrow> u64 \<Rightarrow> (string \<times> nat) option" where
  "sdsull2str m v =
     do { (m, l) \<leftarrow> ll2str_digits m 0 (unat v);
          m \<leftarrow> arr_set m (int l) NUL;
          m \<leftarrow> reverse_range m 0 (int l - 1);
          Some (m, l) }"

definition SDS_LLSTR_SIZE :: nat where
  "SDS_LLSTR_SIZE = 21"

text \<open>\<open>junk\<close> is what the buffer on the stack holds at first.\<close>

definition sdsfromlonglong :: "(nat \<Rightarrow> char) \<Rightarrow> u64 \<Rightarrow> sdshdr option" where
  "sdsfromlonglong junk value =
     do { (m, len) \<leftarrow> sdsll2str (map junk [0..<SDS_LLSTR_SIZE]) value;
          sdsnewlen (Some m) len }"

subsection \<open>Comparison and character maps\<close>

text \<open>\<open>memcmp\<close>: the sign of the first difference of two blocks, as unsigned bytes.\<close>

fun memcmp_loop :: "string \<Rightarrow> string \<Rightarrow> int" where
  "memcmp_loop (x # xs) (y # ys) = (if code x < code y then -1 else if code y < code x then 1 else memcmp_loop xs ys)"
| "memcmp_loop xs ys = 0"

definition sdscmp :: "sdshdr \<Rightarrow> sdshdr \<Rightarrow> int option" where
  "sdscmp s1 s2 =
     do { let l1 = sdslen s1;
          let l2 = sdslen s2;
          let minlen = (if l1 < l2 then l1 else l2);
          xs \<leftarrow> mem_read (sh_buf s1) 0 minlen;
          ys \<leftarrow> mem_read (sh_buf s2) 0 minlen;
          let cmp = memcmp_loop xs ys;
          Some (if cmp = 0 then sint (word_of_int (int l1 - int l2) :: u32) else cmp) }"

definition tolower :: "char \<Rightarrow> char" where
  "tolower c = (if 65 \<le> code c \<and> code c \<le> 90 then char_of (code c + 32) else c)"

definition toupper :: "char \<Rightarrow> char" where
  "toupper c = (if 97 \<le> code c \<and> code c \<le> 122 then char_of (code c - 32) else c)"

function map_range :: "(char \<Rightarrow> char) \<Rightarrow> string \<Rightarrow> nat \<Rightarrow> nat \<Rightarrow> string option" where
  "map_range f m j len =
     (if \<not> j < len then Some m
      else Option.bind (arr_get m (int j)) (\<lambda>c. Option.bind (arr_set m (int j) (f c)) (\<lambda>m. map_range f m (j + 1) len)))"
  by auto
termination by (relation "measure (\<lambda>(_, _, j, len). len - j)") auto

declare map_range.simps [simp del]

definition sdstolower :: "sdshdr \<Rightarrow> sdshdr option" where
  "sdstolower s = do { b \<leftarrow> map_range tolower (sh_buf s) 0 (sdslen s); Some (s\<lparr>sh_buf := b\<rparr>) }"

definition sdstoupper :: "sdshdr \<Rightarrow> sdshdr option" where
  "sdstoupper s = do { b \<leftarrow> map_range toupper (sh_buf s) 0 (sdslen s); Some (s\<lparr>sh_buf := b\<rparr>) }"

text \<open>The first position of \<open>from\<close> that holds the character gives its replacement.\<close>

fun map_char :: "string \<Rightarrow> string \<Rightarrow> char \<Rightarrow> char" where
  "map_char (f # fs) (t # ts) c = (if c = f then t else map_char fs ts c)"
| "map_char fs ts c = c"

definition sdsmapchars :: "sdshdr \<Rightarrow> string \<Rightarrow> string \<Rightarrow> nat \<Rightarrow> sdshdr option" where
  "sdsmapchars s from to setlen =
     do { from \<leftarrow> mem_read from 0 setlen;
          to \<leftarrow> mem_read to 0 setlen;
          b \<leftarrow> map_range (map_char from to) (sh_buf s) 0 (sdslen s);
          Some (s\<lparr>sh_buf := b\<rparr>) }"

subsection \<open>Join and split\<close>

text \<open>\<open>argv\<close> and \<open>sep\<close> are C strings.\<close>

fun join_loop :: "(nat \<Rightarrow> char) \<Rightarrow> string \<Rightarrow> sdshdr \<Rightarrow> string list \<Rightarrow> sdshdr option" where
  "join_loop junk sep s [] = Some s"
| "join_loop junk sep s (a # argv) =
     do { s \<leftarrow> sdscat junk s a;
          s \<leftarrow> (if argv \<noteq> [] then sdscat junk s sep else Some s);
          join_loop junk sep s argv }"

definition sdsjoin :: "(nat \<Rightarrow> char) \<Rightarrow> string list \<Rightarrow> string \<Rightarrow> sdshdr option" where
  "sdsjoin junk argv sep = do { s \<leftarrow> sdsempty; join_loop junk sep s argv }"

text \<open>
  The loop of \<open>sdssplitlen\<close> over the position \<open>j\<close>: \<open>slots\<close> is the size of the token array,
  which a store must not exceed, \<open>start\<close> the start of the current token.
\<close>

definition put_token :: "nat \<Rightarrow> sdshdr list \<Rightarrow> sdshdr \<Rightarrow> sdshdr list option" where
  "put_token slots tokens t = (if length tokens < slots then Some (tokens @ [t]) else None)"

function split_len_loop :: "string \<Rightarrow> nat \<Rightarrow> string \<Rightarrow> nat \<Rightarrow> nat \<Rightarrow> sdshdr list \<Rightarrow> nat \<Rightarrow> nat \<Rightarrow> (nat \<times> sdshdr list \<times> nat) option" where
  "split_len_loop s len sep seplen slots tokens start j =
     (if \<not> int j < int len - (int seplen - 1) then Some (slots, tokens, start)
      else let slots = (if slots < length tokens + 2 then slots * 2 else slots)
           in Option.bind (mem_read s j seplen) (\<lambda>xs. Option.bind (mem_read sep 0 seplen) (\<lambda>ys.
              if xs = ys \<and> 0 < seplen
              then Option.bind (sdsnewlen (Some (drop start s)) (j - start)) (\<lambda>t.
                   Option.bind (put_token slots tokens t) (\<lambda>tokens.
                     split_len_loop s len sep seplen slots tokens (j + seplen) (j + seplen)))
              else split_len_loop s len sep seplen slots tokens start (j + 1))))"
  by auto
termination by (relation "measure (\<lambda>(_, len, _, _, _, _, _, j). len + 1 - j)") auto

declare split_len_loop.simps [simp del]

text \<open>The outer \<open>option\<close> is a memory error, the inner one the NULL result.\<close>

definition sdssplitlen :: "string \<Rightarrow> int \<Rightarrow> string \<Rightarrow> int \<Rightarrow> sdshdr list option option" where
  "sdssplitlen s len sep seplen =
     (if seplen < 1 \<or> len < 0 then Some None
      else if len = 0 then Some (Some [])
      else do { (slots, tokens, start) \<leftarrow> split_len_loop s (nat len) sep (nat seplen) 5 [] 0 0;
                t \<leftarrow> sdsnewlen (Some (drop start s)) (nat len - start);
                tokens \<leftarrow> put_token slots tokens t;
                Some (Some tokens) })"

subsection \<open>The quoted form\<close>

definition isprint :: "char \<Rightarrow> bool" where
  "isprint c \<longleftrightarrow> 32 \<le> code c \<and> code c \<le> 126"

definition isspace :: "char \<Rightarrow> bool" where
  "isspace c \<longleftrightarrow> 9 \<le> code c \<and> code c \<le> 13 \<or> code c = 32"

definition hex_char :: "nat \<Rightarrow> char" where
  "hex_char d = char_of (if d < 10 then 48 + d else 87 + d)"

text \<open>
  One byte of \<open>sdscatrepr\<close>.  \<open>sdscatprintf\<close> formats into a C string and appends it with
  \<open>sdscat\<close>.
\<close>

definition repr_step :: "(nat \<Rightarrow> char) \<Rightarrow> sdshdr \<Rightarrow> char \<Rightarrow> sdshdr option" where
  "repr_step junk s c =
     (if c = BSL \<or> c = DQ then sdscat junk s [BSL, c, NUL]
      else if c = LF then sdscatlen junk s [BSL, CHR ''n''] 2
      else if c = CR then sdscatlen junk s [BSL, CHR ''r''] 2
      else if c = CHR 0x09 then sdscatlen junk s [BSL, CHR ''t''] 2
      else if c = CHR 0x07 then sdscatlen junk s [BSL, CHR ''a''] 2
      else if c = CHR 0x08 then sdscatlen junk s [BSL, CHR ''b''] 2
      else if isprint c then sdscat junk s [c, NUL]
      else sdscat junk s [BSL, CHR ''x'', hex_char (code c div 16), hex_char (code c mod 16), NUL])"

fun repr_loop :: "(nat \<Rightarrow> char) \<Rightarrow> sdshdr \<Rightarrow> string \<Rightarrow> sdshdr option" where
  "repr_loop junk s [] = Some s"
| "repr_loop junk s (c # p) = do { s \<leftarrow> repr_step junk s c; repr_loop junk s p }"

definition sdscatrepr :: "(nat \<Rightarrow> char) \<Rightarrow> sdshdr \<Rightarrow> string \<Rightarrow> nat \<Rightarrow> sdshdr option" where
  "sdscatrepr junk s p len =
     do { s \<leftarrow> sdscatlen junk s [DQ] 1;
          xs \<leftarrow> mem_read p 0 len;
          s \<leftarrow> repr_loop junk s xs;
          sdscatlen junk s [DQ] 1 }"

subsection \<open>Splitting a line into arguments\<close>

definition is_hex_digit :: "char \<Rightarrow> bool" where
  "is_hex_digit c \<longleftrightarrow> 48 \<le> code c \<and> code c \<le> 57 \<or> 97 \<le> code c \<and> code c \<le> 102 \<or> 65 \<le> code c \<and> code c \<le> 70"

definition hex_digit_to_int :: "char \<Rightarrow> nat" where
  "hex_digit_to_int c =
     (if 48 \<le> code c \<and> code c \<le> 57 then code c - 48
      else if 97 \<le> code c \<and> code c \<le> 102 then code c - 87
      else if 65 \<le> code c \<and> code c \<le> 70 then code c - 55
      else 0)"

text \<open>
  The pointer \<open>p\<close> is the rest of the block from there on.  The tests below read the bytes behind
  it one by one and stop at the first that decides, as \<open>&&\<close> does.
\<close>

definition rd :: "string \<Rightarrow> nat \<Rightarrow> char option" where
  "rd p k = arr_get p (int k)"

definition hex_escape :: "string \<Rightarrow> bool option" where
  "hex_escape p =
     do { c \<leftarrow> rd p 0;
          if c \<noteq> BSL then Some False
          else do { c \<leftarrow> rd p 1;
                    if c \<noteq> CHR ''x'' then Some False
                    else do { c \<leftarrow> rd p 2;
                              if \<not> is_hex_digit c then Some False
                              else do { c \<leftarrow> rd p 3; Some (is_hex_digit c) } } } }"

definition unescape :: "char \<Rightarrow> char" where
  "unescape c =
     (if c = CHR ''n'' then LF else if c = CHR ''r'' then CR else if c = CHR ''t'' then CHR 0x09
      else if c = CHR ''b'' then CHR 0x08 else if c = CHR ''a'' then CHR 0x07 else c)"

text \<open>The step to the next byte at the end of the loop body, \<open>if (*p) p++\<close>.\<close>

definition advance :: "string \<Rightarrow> string option" where
  "advance p = do { c \<leftarrow> rd p 0; Some (if c \<noteq> NUL then drop 1 p else p) }"

text \<open>A closing quote must be followed by a space or the end.\<close>

definition closes :: "string \<Rightarrow> bool option" where
  "closes p = do { c \<leftarrow> rd p 1; Some (c = NUL \<or> isspace c) }"

datatype split_step = Split_err | Split_done string string | Split_more bool bool string string

text \<open>One iteration inside a token: \<open>inq\<close>, \<open>insq\<close>, the pointer and the token so far.\<close>

definition token_step :: "bool \<Rightarrow> bool \<Rightarrow> string \<Rightarrow> string \<Rightarrow> split_step option" where
  "token_step inq insq p current =
     do { c \<leftarrow> rd p 0;
          if inq then
            do { h \<leftarrow> hex_escape p;
                 if h then
                   do { h1 \<leftarrow> rd p 2;
                        h0 \<leftarrow> rd p 3;
                        q \<leftarrow> advance (drop 3 p);
                        Some (Split_more inq insq q (current @ [char_of (hex_digit_to_int h1 * 16 + hex_digit_to_int h0)])) }
                 else do { e \<leftarrow> (if c = BSL then do { c1 \<leftarrow> rd p 1; Some (c1 \<noteq> NUL) } else Some False);
                   if e then
                     do { c1 \<leftarrow> rd p 1;
                          q \<leftarrow> advance (drop 1 p);
                          Some (Split_more inq insq q (current @ [unescape c1])) }
                   else if c = DQ then
                     do { ok \<leftarrow> closes p;
                          if \<not> ok then Some Split_err else do { q \<leftarrow> advance p; Some (Split_done q current) } }
                   else if c = NUL then Some Split_err
                   else do { q \<leftarrow> advance p; Some (Split_more inq insq q (current @ [c])) } } }
          else if insq then
            do { e \<leftarrow> (if c = BSL then do { c1 \<leftarrow> rd p 1; Some (c1 = SQ) } else Some False);
                 if e then do { q \<leftarrow> advance (drop 1 p); Some (Split_more inq insq q (current @ [SQ])) }
                 else if c = SQ then
                   do { ok \<leftarrow> closes p;
                        if \<not> ok then Some Split_err else do { q \<leftarrow> advance p; Some (Split_done q current) } }
                 else if c = NUL then Some Split_err
                 else do { q \<leftarrow> advance p; Some (Split_more inq insq q (current @ [c])) } }
          else
            do { q \<leftarrow> advance p;
                 Some (if c = CHR '' '' \<or> c = LF \<or> c = CR \<or> c = CHR 0x09 \<or> c = NUL then Split_done q current
                       else if c = DQ then Split_more True insq q current
                       else if c = SQ then Split_more inq True q current
                       else Split_more inq insq q (current @ [c])) } }"

lemma rd_Some: "rd p k = Some c \<longleftrightarrow> k < length p \<and> c = p ! k"
  by (auto simp: rd_def arr_get_def)

lemma advance_Some: "advance p = Some q \<longleftrightarrow> p \<noteq> [] \<and> q = (if p ! 0 \<noteq> NUL then drop 1 p else p)"
  by (auto simp: advance_def rd_Some bind_eq_Some_conv)

lemma token_step_shorter:
  "token_step inq insq p cur = Some (Split_more i j q cur') \<Longrightarrow> length q < length p"
  by (auto simp: token_step_def bind_eq_Some_conv rd_Some advance_Some is_hex_digit_def hex_escape_def split: if_splits)

lemma token_step_done:
  "token_step inq insq p cur = Some (Split_done q cur') \<Longrightarrow>
   p \<noteq> [] \<and> q = (if p ! 0 \<noteq> NUL then drop 1 p else p)"
  by (auto simp: token_step_def bind_eq_Some_conv rd_Some advance_Some split: if_splits)

function token_loop :: "bool \<Rightarrow> bool \<Rightarrow> string \<Rightarrow> string \<Rightarrow> (string \<times> string) option option" where
  "token_loop inq insq p current =
     (case token_step inq insq p current of
        None \<Rightarrow> None
      | Some Split_err \<Rightarrow> Some None
      | Some (Split_done p current) \<Rightarrow> Some (Some (p, current))
      | Some (Split_more inq insq p current) \<Rightarrow> token_loop inq insq p current)"
  by auto
termination
  by (relation "measure (\<lambda>(_, _, p, _). length p)") (auto dest: token_step_shorter)

declare token_loop.simps [simp del]

fun skip_blanks :: "string \<Rightarrow> string option" where
  "skip_blanks [] = None"
| "skip_blanks (c # p) = (if c \<noteq> NUL \<and> isspace c then skip_blanks p else Some (c # p))"

lemma token_loop_shorter:
  "token_loop inq insq p cur = Some (Some (q, cur')) \<Longrightarrow> length q \<le> length p \<and>
     (p \<noteq> [] \<and> p ! 0 \<noteq> NUL \<longrightarrow> length q < length p)"
proof (induction inq insq p cur rule: token_loop.induct)
  case (1 inq insq p cur)
  from "1.prems" obtain st where st: "token_step inq insq p cur = Some st"
    by (subst (asm) token_loop.simps) (auto split: option.splits)
  show ?case
  proof (cases st)
    case Split_err
    with st "1.prems" show ?thesis by (subst (asm) token_loop.simps) simp
  next
    case (Split_done q' c)
    with st "1.prems" have "q = q'" by (subst (asm) token_loop.simps) simp
    with Split_done st token_step_done[of inq insq p cur q' c] show ?thesis by simp
  next
    case (Split_more i j q' c)
    with st "1.prems" have "token_loop i j q' c = Some (Some (q, cur'))" by (subst (asm) token_loop.simps) simp
    with "1.IH"[OF st Split_more] have "length q \<le> length q'" by blast
    with Split_more st token_step_shorter[of inq insq p cur i j q' c] show ?thesis by auto
  qed
qed

lemma skip_blanks_length: "skip_blanks p = Some q \<Longrightarrow> length q \<le> length p \<and> q \<noteq> []"
  by (induction p) (auto split: if_splits)

function args_loop :: "string \<Rightarrow> string list \<Rightarrow> string list option option" where
  "args_loop p vector =
     (case skip_blanks p of
        None \<Rightarrow> None
      | Some p \<Rightarrow>
          if p ! 0 = NUL then Some (Some vector)
          else (case token_loop False False p [] of
                  None \<Rightarrow> None
                | Some None \<Rightarrow> Some None
                | Some (Some (p, current)) \<Rightarrow> args_loop p (vector @ [current])))"
  by auto
termination
  by (relation "measure (\<lambda>(p, _). length p)") (auto dest!: token_loop_shorter skip_blanks_length)

declare args_loop.simps [simp del]

text \<open>The outer \<open>option\<close> is a memory error, the inner one the NULL result.\<close>

definition sdssplitargs :: "string \<Rightarrow> string list option option" where
  "sdssplitargs line = args_loop line []"


subsection \<open>Appending through the interface\<close>

definition sds_limit :: nat where
  "sds_limit = 2 ^ 32 - 1 - SDS_MAX_PREALLOC"

definition sds_app :: "(nat \<Rightarrow> char) \<Rightarrow> sdshdr \<Rightarrow> string \<Rightarrow> sdshdr option" where
  "sds_app junk s t = sdscatlen junk s t (length t)"

interpretation sds_buffer: append_buffer "sds_app junk" sds_str sds_ok sds_limit for junk
proof
  fix s and xs :: string assume a: "sds_ok s" "length (sds_str s) + length xs \<le> sds_limit"
  then have "sdslen s + length xs + SDS_MAX_PREALLOC < 2 ^ 32" by (simp add: sds_limit_def SDS_MAX_PREALLOC_def)
  then show "\<exists>s'. sds_app junk s xs = Some s' \<and> sds_ok s' \<and> sds_str s' = sds_str s @ xs"
    unfolding sds_app_def using sdscatlen_spec[OF a(1), of "length xs" xs junk] by simp
qed

lemma sdscatlen_app: "n = length t \<Longrightarrow> sdscatlen junk s t n = sds_app junk s t"
  by (simp add: sds_app_def)

lemma sdscat_app: "NUL \<notin> set t \<Longrightarrow> sdscat junk s (t @ NUL # m) = sds_app junk s t"
  by (simp add: sdscat_def sds_app_def sdscatlen_def mem_read_def)

subsection \<open>What the quoted form is\<close>

definition repr_char :: "char \<Rightarrow> string" where
  "repr_char c =
     (if c = BSL \<or> c = DQ then [BSL, c]
      else if c = LF then [BSL, CHR ''n'']
      else if c = CR then [BSL, CHR ''r'']
      else if c = CHR 0x09 then [BSL, CHR ''t'']
      else if c = CHR 0x07 then [BSL, CHR ''a'']
      else if c = CHR 0x08 then [BSL, CHR ''b'']
      else if isprint c then [c]
      else [BSL, CHR ''x'', hex_char (code c div 16), hex_char (code c mod 16)])"

definition quoted :: "string \<Rightarrow> string" where
  "quoted xs = DQ # concat (map repr_char xs) @ [DQ]"

lemma code_less [simp]: "code c < 256"
  by (cases c) (simp add: of_char_def of_bool_def)

lemma code_nibbles: "code c div 16 < 16" "code c mod 16 < 16"
  using code_less[of c] by linarith+

lemma code_hex_char: "d < 16 \<Longrightarrow> code (hex_char d) = (if d < 10 then 48 + d else 87 + d)"
  by (simp add: hex_char_def)

lemma code_0 [simp]: "code NUL = 0"
  by simp

lemma hex_char_digit:
  assumes "d < 16"
  shows "is_hex_digit (hex_char d)" "hex_digit_to_int (hex_char d) = d" "hex_char d \<noteq> NUL"
proof -
  show "is_hex_digit (hex_char d)" "hex_digit_to_int (hex_char d) = d"
    using assms by (auto simp: is_hex_digit_def hex_digit_to_int_def code_hex_char)
  show "hex_char d \<noteq> NUL"
  proof
    assume "hex_char d = NUL"
    then have "code (hex_char d) = 0" by (simp only: code_0)
    with assms show False by (simp add: code_hex_char split: if_splits)
  qed
qed

lemma sdscat_short:
  "a \<noteq> NUL \<Longrightarrow> sdscat junk s [a, NUL] = sds_app junk s [a]"
  "a \<noteq> NUL \<Longrightarrow> b \<noteq> NUL \<Longrightarrow> sdscat junk s [a, b, NUL] = sds_app junk s [a, b]"
  "a \<noteq> NUL \<Longrightarrow> b \<noteq> NUL \<Longrightarrow> c \<noteq> NUL \<Longrightarrow> d \<noteq> NUL \<Longrightarrow> sdscat junk s [a, b, c, d, NUL] = sds_app junk s [a, b, c, d]"
  using sdscat_app[of "[a]" junk s "[]"] sdscat_app[of "[a, b]" junk s "[]"] sdscat_app[of "[a, b, c, d]" junk s "[]"] by auto

lemma repr_step_app: "repr_step junk s c = sds_app junk s (repr_char c)"
proof -
  have h: "hex_char (code c div 16) \<noteq> NUL" "hex_char (code c mod 16) \<noteq> NUL"
    using hex_char_digit(3) code_nibbles by blast+
  have p: "\<not> isprint NUL" by (simp add: isprint_def)
  show ?thesis
    unfolding repr_step_def repr_char_def using h p
    by (cases "c = NUL") (simp_all add: sdscatlen_app sdscat_short)
qed

lemma repr_loop_app: "repr_loop junk s xs = app_loop (sds_app junk) s (map repr_char xs)"
  by (induction xs arbitrary: s) (simp_all add: repr_step_app)

lemma app_loop_snoc: "app_loop f s (xs @ [x]) = do { s \<leftarrow> app_loop f s xs; f s x }"
proof (induction xs arbitrary: s)
  case (Cons a xs)
  then show ?case by (cases "f s a") auto
qed simp

lemma sdscatrepr_app:
  assumes "n \<le> length p"
  shows "sdscatrepr junk s p n = app_loop (sds_app junk) s ([DQ] # map repr_char (take n p) @ [[DQ]])"
  using assms by (simp add: sdscatrepr_def sdscatlen_app mem_simps repr_loop_app app_loop_snoc)

lemma sdscatrepr_spec:
  assumes "sds_ok s" "n \<le> length p" "sdslen s + length (quoted (take n p)) \<le> sds_limit"
  shows "\<exists>s'. sdscatrepr junk s p n = Some s' \<and> sds_ok s' \<and> sds_str s' = sds_str s @ quoted (take n p)"
  using sds_buffer.app_loop_correct[OF assms(1), of "[DQ] # map repr_char (take n p) @ [[DQ]]" junk] assms
  by (simp add: sdscatrepr_app quoted_def)

subsection \<open>Reading the quoted form back\<close>

lemma rd_simps [simp]: "rd (c # p) 0 = Some c" "rd (c # p) (Suc k) = rd p k"
  by (simp_all add: rd_def arr_get_def nat_add_distrib)

lemma advance_Cons [simp]: "advance (c # p) = Some (if c \<noteq> NUL then p else c # p)"
  by (simp add: advance_def)

lemma rd_numeral [simp]:
  "rd (a # b # p) 1 = Some b" "rd (a # b # c # p) 2 = Some c" "rd (a # b # c # d # p) 3 = Some d" "drop 3 (a # b # c # p) = p"
  by (simp_all add: numeral_2_eq_2 numeral_3_eq_3)

lemma token_step_repr:
  "token_step True False (repr_char c @ q) cur = Some (Split_more True False q (cur @ [c]))"
proof -
  consider "c = BSL \<or> c = DQ" | "c \<in> {LF, CR, CHR 0x09, CHR 0x07, CHR 0x08}"
    | "isprint c" "c \<notin> {BSL, DQ, LF, CR, CHR 0x09, CHR 0x07, CHR 0x08}"
    | "\<not> isprint c" "c \<notin> {BSL, DQ, LF, CR, CHR 0x09, CHR 0x07, CHR 0x08}" by blast
  then show ?thesis
  proof cases
    case 1
    then show ?thesis by (auto simp: repr_char_def token_step_def hex_escape_def unescape_def)
  next
    case 2
    then show ?thesis by (auto simp: repr_char_def token_step_def hex_escape_def unescape_def)
  next
    case 3
    then have "c \<noteq> NUL" by (auto simp: isprint_def)
    with 3 show ?thesis by (auto simp: repr_char_def token_step_def hex_escape_def)
  next
    case 4
    note h = hex_char_digit[OF code_nibbles(1)[of c]] hex_char_digit[OF code_nibbles(2)[of c]]
    have "char_of (code c div 16 * 16 + code c mod 16) = c" by (simp only: div_mult_mod_eq char_of_char)
    with 4 h show ?thesis by (auto simp: repr_char_def token_step_def hex_escape_def)
  qed
qed

definition at_end :: "string \<Rightarrow> bool" where
  "at_end q \<longleftrightarrow> q \<noteq> [] \<and> (hd q = NUL \<or> isspace (hd q))"

lemma token_loop_repr:
  "at_end q \<Longrightarrow> token_loop True False (concat (map repr_char xs) @ DQ # q) cur = Some (Some (q, cur @ xs))"
proof (induction xs arbitrary: cur)
  case Nil
  then show ?case
    by (subst token_loop.simps) (auto simp: at_end_def token_step_def hex_escape_def closes_def neq_Nil_conv)
next
  case (Cons c xs)
  then show ?case by (subst token_loop.simps) (simp add: token_step_repr)
qed

lemma token_loop_quoted:
  assumes "at_end q"
  shows "token_loop False False (quoted xs @ q) [] = Some (Some (q, xs))"
proof -
  have "token_step False False (quoted xs @ q) [] = Some (Split_more True False (concat (map repr_char xs) @ DQ # q) [])"
    by (simp add: quoted_def token_step_def)
  then show ?thesis using token_loop_repr[OF assms, of xs "[]"] by (subst token_loop.simps) simp
qed

lemma isspace_DQ [simp]: "\<not> isspace DQ" "isspace CHR 0x20"
  by (simp_all add: isspace_def)

text \<open>Quoted arguments between single spaces, as they stand in a line.\<close>

fun quoted_args :: "string list \<Rightarrow> string" where
  "quoted_args [] = []"
| "quoted_args [x] = quoted x"
| "quoted_args (x # xs) = quoted x @ CHR 0x20 # quoted_args xs"

lemma quoted_args_Cons: "xs \<noteq> [] \<Longrightarrow> quoted_args (x # xs) = quoted x @ CHR 0x20 # quoted_args xs"
  by (cases xs) auto

lemma args_loop_skip: "args_loop (CHR 0x20 # p) v = args_loop p v"
  by (subst (1 2) args_loop.simps) simp

lemma args_loop_quoted:
  assumes "at_end q"
  shows "args_loop (quoted x @ q) v = args_loop q (v @ [x])"
proof -
  have "skip_blanks (quoted x @ q) = Some (quoted x @ q)" "(quoted x @ q) ! 0 = DQ"
    by (simp_all add: quoted_def)
  then show ?thesis using token_loop_quoted[OF assms, of x] by (subst args_loop.simps) simp
qed

lemma args_loop_quoted_args:
  "skip_blanks q = Some (NUL # m) \<Longrightarrow> at_end q \<Longrightarrow> args_loop (quoted_args xs @ q) v = Some (Some (v @ xs))"
proof (induction xs arbitrary: v rule: quoted_args.induct)
  case 1
  then show ?case by (subst args_loop.simps) simp
next
  case (2 x)
  then show ?case by (subst quoted_args.simps, subst args_loop_quoted, simp, subst args_loop.simps) simp
next
  case (3 x y xs)
  have "at_end (CHR 0x20 # quoted_args (y # xs) @ q)" by (simp add: at_end_def)
  from args_loop_quoted[OF this, of x v] 3 show ?case by (simp add: args_loop_skip del: quoted_args.simps(2))
qed

subsection \<open>Decimal output is the decimal text\<close>

lemma ll2str_digits_spec:
  "length (dec_nat v) \<le> length zs \<Longrightarrow>
   ll2str_digits (ys @ zs) (length ys) v = Some (ys @ rev (dec_nat v) @ drop (length (dec_nat v)) zs, length ys + length (dec_nat v))"
proof (induction v arbitrary: ys zs rule: dec_nat.induct)
  case (1 v)
  from "1.prems" dec_nat_nonempty[of v] obtain z zs' where z: "zs = z # zs'"
    by (cases zs) auto
  let ?d = "digit_char (v mod 10)"
  have st: "arr_set (ys @ zs) (int (length ys)) ?d = Some (ys @ ?d # zs')" unfolding z by (simp add: arr_set_mid)
  show ?case
  proof (cases "v < 10")
    case True
    then have "dec_nat v = [?d]" by (subst dec_nat.simps) simp
    with True st z show ?thesis by (subst ll2str_digits.simps) simp
  next
    case False
    then have d: "dec_nat v = dec_nat (v div 10) @ [?d]" by (subst dec_nat.simps) simp
    with "1.prems" z have "length (dec_nat (v div 10)) \<le> length zs'" by simp
    from "1.IH"[OF False this, of "ys @ [?d]"]
    have "ll2str_digits (ys @ ?d # zs') (Suc (length ys)) (v div 10) =
      Some (ys @ ?d # rev (dec_nat (v div 10)) @ drop (length (dec_nat (v div 10))) zs', Suc (length ys) + length (dec_nat (v div 10)))"
      by simp
    with False st z d show ?thesis by (subst ll2str_digits.simps) simp
  qed
qed

lemma reverse_range_spec:
  "reverse_range (a @ xs @ b) (int (length a)) (int (length a) + int (length xs) - 1) = Some (a @ rev xs @ b)"
proof (induction "length xs" arbitrary: a xs b rule: less_induct)
  case less
  show ?case
  proof (cases "length xs \<le> 1")
    case True
    then have "rev xs = xs" by (cases xs) auto
    with True show ?thesis by (subst reverse_range.simps) simp
  next
    case False
    then obtain x ys where x: "xs = x # ys" "ys \<noteq> []" by (cases xs) auto
    then obtain zs y where y: "xs = x # zs @ [y]" by (metis rev_exhaust)
    have p: "int (length a) + int (length xs) - 1 = int (length (a @ x # zs))" using y by simp
    have g: "arr_get (a @ xs @ b) (int (length a)) = Some x" "arr_get (a @ xs @ b) (int (length (a @ x # zs))) = Some y"
      unfolding y by (simp_all add: arr_get_def nth_append nat_add_distrib)
    have st: "arr_set (a @ xs @ b) (int (length a)) y = Some ((a @ y # zs) @ y # b)"
      "arr_set ((a @ y # zs) @ y # b) (int (length (a @ x # zs))) x = Some ((a @ y # zs) @ x # b)"
      unfolding y by (simp_all add: arr_set_mid) (simp add: arr_set_def nat_add_distrib list_update_append)
    from less[of zs "a @ [y]" "x # b"] y
    have IH: "reverse_range ((a @ y # zs) @ x # b) (int (length a) + 1) (int (length (a @ x # zs)) - 1) = Some (a @ y # rev zs @ x # b)"
      by (simp add: add.commute)
    show ?thesis unfolding p
      by (subst reverse_range.simps) (simp add: g[simplified] st[simplified] IH[simplified], simp add: y)
  qed
qed

lemma terminate_reverse:
  assumes "length t < length m"
  shows "Option.bind (arr_set (rev t @ drop (length t) m) (int (length t)) NUL)
      (\<lambda>m. Option.bind (reverse_range m 0 (int (length t) - 1)) (\<lambda>m. Some (m, length t))) =
    Some (t @ NUL # drop (Suc (length t)) m, length t)"
proof -
  obtain z where "drop (length t) m = z # drop (Suc (length t)) m"
    using assms by (metis Cons_nth_drop_Suc)
  then have "arr_set (rev t @ drop (length t) m) (int (length t)) NUL = Some (rev t @ NUL # drop (Suc (length t)) m)"
    using arr_set_mid[of "int (length t)" "rev t"] by simp
  moreover have "reverse_range (rev t @ NUL # drop (Suc (length t)) m) 0 (int (length t) - 1) = Some (t @ NUL # drop (Suc (length t)) m)"
    using reverse_range_spec[of "[]" "rev t" "NUL # drop (Suc (length t)) m"] by simp
  ultimately show ?thesis by simp
qed

lemma uminus_value: "sint (w :: u64) < 0 \<Longrightarrow> unat (- w) = nat \<bar>sint w\<bar>"
proof -
  assume n: "sint w < 0"
  have "w = LLONG_MIN \<Longrightarrow> - w = LLONG_MAX + 1" by simp
  with n show ?thesis using ll2string_value[of w] by (metis (full_types))
qed

lemma sdsll2str_spec:
  assumes "21 \<le> length m"
  shows "sdsll2str m w = Some (dec_int (sint w) @ NUL # drop (Suc (length (dec_int (sint w)))) m, length (dec_int (sint w)))"
proof -
  let ?v = "nat \<bar>sint w\<bar>"
  let ?d = "dec_nat ?v"
  have l: "length (dec_int (sint w)) < length m" using length_dec_int_le_20[OF sint_u64_range, of w] assms by linarith
  then have ld: "length ?d < length m" using length_dec_int[of "sint w"] by simp
  have dg: "ll2str_digits m 0 ?v = Some (rev ?d @ drop (length ?d) m, length ?d)"
    using ll2str_digits_spec[of ?v m "[]"] ld by simp
  show ?thesis
  proof (cases "sint w < 0")
    case True
    then have t: "dec_int (sint w) = CHR ''-'' # ?d" by (simp add: dec_int_def)
    have "drop (length ?d) m = m ! length ?d # drop (Suc (length ?d)) m" using ld by (metis Cons_nth_drop_Suc)
    then have "arr_set (rev ?d @ drop (length ?d) m) (int (length ?d)) CHR ''-'' = Some (rev ?d @ CHR ''-'' # drop (Suc (length ?d)) m)"
      using arr_set_mid[of "int (length ?d)" "rev ?d"] by simp
    then show ?thesis
      using terminate_reverse[OF l] True dg uminus_value[OF True] by (simp add: sdsll2str_def t)
  next
    case False
    then have t: "dec_int (sint w) = ?d" by (simp add: dec_int_def)
    have "unat w = ?v" using False uint_eq_sint[of w] by (simp add: unat_eq_nat_uint)
    then show ?thesis using terminate_reverse[OF l] False dg by (simp add: sdsll2str_def t)
  qed
qed

lemma sdsull2str_spec:
  assumes "21 \<le> length m"
  shows "sdsull2str m w = Some (dec_nat (unat w) @ NUL # drop (Suc (length (dec_nat (unat w)))) m, length (dec_nat (unat w)))"
proof -
  let ?d = "dec_nat (unat w)"
  have "unat w < 10 ^ 20" using unsigned_less[where 'a = nat, of w] by simp
  then have ld: "length ?d < length m" using length_dec_nat_le[of "unat w" 20] assms by simp
  have "ll2str_digits m 0 (unat w) = Some (rev ?d @ drop (length ?d) m, length ?d)"
    using ll2str_digits_spec[of "unat w" m "[]"] ld by simp
  then show ?thesis using terminate_reverse[OF ld] by (simp add: sdsull2str_def)
qed

lemma sdsfromlonglong_spec: "sdsfromlonglong junk w = Some (sds_of (dec_int (sint w)) [])"
proof -
  let ?t = "dec_int (sint w)"
  have l: "length ?t \<le> 20" by (rule length_dec_int_le_20[OF sint_u64_range])
  have "sdsll2str (map junk [0..<SDS_LLSTR_SIZE]) w = Some (?t @ NUL # drop (Suc (length ?t)) (map junk [0..<SDS_LLSTR_SIZE]), length ?t)"
    by (rule sdsll2str_spec) (simp add: SDS_LLSTR_SIZE_def)
  then show ?thesis using l by (simp add: sdsfromlonglong_def sdsnewlen_spec)
qed

subsection \<open>Comparison is the lexicographic order of bytes\<close>

definition cmp_result :: "string \<Rightarrow> string \<Rightarrow> int" where
  "cmp_result xs ys = (if memcmp_loop xs ys = 0 then int (length xs) - int (length ys) else memcmp_loop xs ys)"

lemma memcmp_take: "memcmp_loop (take (min (length xs) (length ys)) xs) (take (min (length xs) (length ys)) ys) = memcmp_loop xs ys"
  by (induction xs ys rule: memcmp_loop.induct) auto

lemma cmp_result_Cons:
  "cmp_result (x # xs) (y # ys) = (if code x < code y then -1 else if code y < code x then 1 else cmp_result xs ys)"
  by (simp add: cmp_result_def)

lemma cmp_result_less: "cmp_result xs ys < 0 \<longleftrightarrow> ord_class.lexordp (map code xs) (map code ys)"
proof (induction xs arbitrary: ys)
  case Nil
  then show ?case by (cases ys) (auto simp: cmp_result_def)
next
  case (Cons x xs)
  then show ?case by (cases ys) (auto simp: cmp_result_Cons cmp_result_def[of "x # xs" "[]"])
qed

lemma cmp_result_eq: "cmp_result xs ys = 0 \<longleftrightarrow> xs = ys"
proof (induction xs arbitrary: ys)
  case Nil
  then show ?case by (cases ys) (auto simp: cmp_result_def)
next
  case (Cons x xs)
  show ?case
  proof (cases ys)
    case Nil
    then show ?thesis by (auto simp: cmp_result_def)
  next
    case (Cons y zs)
    have e: "code x = code y \<longleftrightarrow> x = y" by simp
    consider "code x < code y" | "code y < code x" | "x = y" using e by (metis linorder_neqE_nat)
    then show ?thesis
    proof cases
      case 3
      with Cons Cons.IH[of zs] show ?thesis by (simp add: cmp_result_Cons)
    qed (use Cons in \<open>auto simp: cmp_result_Cons\<close>)
  qed
qed

lemma sdscmp_spec:
  assumes "sds_ok s1" "sds_ok s2" "sdslen s1 < 2 ^ 31" "sdslen s2 < 2 ^ 31"
  shows "sdscmp s1 s2 = Some (cmp_result (sds_str s1) (sds_str s2))"
proof -
  have l: "length (sds_str s1) = sdslen s1" "length (sds_str s2) = sdslen s2" using assms by simp_all
  let ?m = "if sdslen s1 < sdslen s2 then sdslen s1 else sdslen s2"
  have m: "?m = min (length (sds_str s1)) (length (sds_str s2))" unfolding l by simp
  have "mem_read (sh_buf s) 0 k = Some (take k (sds_str s))" if "sds_ok s" "k \<le> sdslen s" for s k
    using that by (auto simp: mem_read_def sds_str_def sdslen_def sds_ok_def min_def)
  with assms(1,2) have "mem_read (sh_buf s1) 0 ?m = Some (take ?m (sds_str s1))" "mem_read (sh_buf s2) 0 ?m = Some (take ?m (sds_str s2))"
    by simp_all
  moreover have "sint (word_of_int (int (sdslen s1) - int (sdslen s2)) :: u32) = int (sdslen s1) - int (sdslen s2)"
    using assms(3,4) by (simp only: signed_of_int) (simp add: signed_take_bit_int_eq_self)
  moreover have "memcmp_loop (take ?m (sds_str s1)) (take ?m (sds_str s2)) = memcmp_loop (sds_str s1) (sds_str s2)"
    unfolding m by (rule memcmp_take)
  ultimately show ?thesis
    unfolding sdscmp_def Let_def cmp_result_def l by (simp split del: if_split cong: if_cong)
qed

subsection \<open>Character maps\<close>

lemma map_range_spec:
  "map_range f (map f ys @ xs @ zs) (length ys) (length ys + length xs) = Some (map f (ys @ xs) @ zs)"
proof (induction xs arbitrary: ys)
  case Nil
  then show ?case by (subst map_range.simps) simp
next
  case (Cons x xs)
  have g: "arr_get (map f ys @ (x # xs) @ zs) (int (length ys)) = Some x" by (simp add: arr_get_def nth_append)
  have st: "arr_set (map f ys @ (x # xs) @ zs) (int (length ys)) (f x) = Some (map f (ys @ [x]) @ xs @ zs)"
    by (simp add: arr_set_mid)
  from Cons[of "ys @ [x]"] g st show ?case by (subst map_range.simps) simp
qed

lemma map_range_sds:
  assumes "sds_ok s"
  shows "\<exists>b. map_range f (sh_buf s) 0 (sdslen s) = Some b \<and> sds_ok (s\<lparr>sh_buf := b\<rparr>) \<and> sds_str (s\<lparr>sh_buf := b\<rparr>) = map f (sds_str s)"
proof -
  from assms obtain xs room where s: "s = sds_of xs room" "length xs + length room < 2 ^ 32" by (metis sds_okE)
  then show ?thesis using map_range_spec[of f "[]" xs "NUL # room"]
    by (auto simp: sds_of_def sds_ok_def sds_str_def sdslen_def nth_append)
qed

lemma sdstolower_spec: "sds_ok s \<Longrightarrow> \<exists>s'. sdstolower s = Some s' \<and> sds_ok s' \<and> sds_str s' = map tolower (sds_str s)"
  using map_range_sds[of s tolower] by (auto simp: sdstolower_def)

lemma sdstoupper_spec: "sds_ok s \<Longrightarrow> \<exists>s'. sdstoupper s = Some s' \<and> sds_ok s' \<and> sds_str s' = map toupper (sds_str s)"
  using map_range_sds[of s toupper] by (auto simp: sdstoupper_def)

lemma sdsmapchars_spec:
  "sds_ok s \<Longrightarrow> n \<le> length from \<Longrightarrow> n \<le> length to \<Longrightarrow>
   \<exists>s'. sdsmapchars s from to n = Some s' \<and> sds_ok s' \<and> sds_str s' = map (map_char (take n from) (take n to)) (sds_str s)"
  using map_range_sds[of s "map_char (take n from) (take n to)"] by (auto simp: sdsmapchars_def mem_simps)

subsection \<open>Join and split\<close>

fun join_with :: "string \<Rightarrow> string list \<Rightarrow> string" where
  "join_with sep [] = []"
| "join_with sep [x] = x"
| "join_with sep (x # xs) = x @ sep @ join_with sep xs"

lemma join_with_Cons: "xs \<noteq> [] \<Longrightarrow> join_with sep (x # xs) = x @ sep @ join_with sep xs"
  by (cases xs) auto

lemma join_with_snoc: "xs \<noteq> [] \<Longrightarrow> join_with sep (xs @ [x]) = join_with sep xs @ sep @ x"
  by (induction sep xs rule: join_with.induct) (auto simp: join_with_Cons)

lemma join_with_split_last: "join_with sep (xs @ [a @ sep @ b]) = join_with sep (xs @ [a, b])"
  by (induction sep xs rule: join_with.induct) auto

fun join_pieces :: "string \<Rightarrow> string list \<Rightarrow> string list" where
  "join_pieces sep [] = []"
| "join_pieces sep [x] = [x]"
| "join_pieces sep (x # xs) = x # sep # join_pieces sep xs"

lemma concat_join_pieces: "concat (join_pieces sep xs) = join_with sep xs"
  by (induction sep xs rule: join_pieces.induct) auto

lemma join_loop_app:
  "NUL \<notin> set sep \<Longrightarrow> \<forall>x\<in>set xs. NUL \<notin> set x \<Longrightarrow>
   join_loop junk (sep @ [NUL]) s (map (\<lambda>x. x @ [NUL]) xs) = app_loop (sds_app junk) s (join_pieces sep xs)"
  by (induction sep xs arbitrary: s rule: join_pieces.induct) (auto simp: sdscat_app intro!: Option.bind_cong)

lemma sdsjoin_spec:
  assumes "NUL \<notin> set sep" "\<forall>x\<in>set xs. NUL \<notin> set x" "length (join_with sep xs) \<le> sds_limit"
  shows "\<exists>s. sdsjoin junk (map (\<lambda>x. x @ [NUL]) xs) (sep @ [NUL]) = Some s \<and> sds_ok s \<and> sds_str s = join_with sep xs"
  using sds_buffer.app_loop_correct[of "sds_of [] []" "join_pieces sep xs" junk] assms
  by (simp add: sdsjoin_def sdsempty_spec join_loop_app concat_join_pieces)

text \<open>The separator stands at position \<open>i\<close>.\<close>

definition sep_at :: "string \<Rightarrow> string \<Rightarrow> nat \<Rightarrow> bool" where
  "sep_at sep xs i \<longleftrightarrow> i + length sep \<le> length xs \<and> take (length sep) (drop i xs) = sep"

definition sep_free :: "string \<Rightarrow> string \<Rightarrow> bool" where
  "sep_free sep xs \<longleftrightarrow> (\<forall>i\<le>length xs. \<not> sep_at sep xs i)"

lemma sep_free_part:
  assumes "\<forall>i. a \<le> i \<and> i < b \<longrightarrow> \<not> sep_at sep xs i" "a \<le> b" "b \<le> length xs" "sep \<noteq> []"
  shows "sep_free sep (take (b - a) (drop a xs))"
  unfolding sep_free_def
proof (intro allI impI notI)
  fix i assume "sep_at sep (take (b - a) (drop a xs)) i"
  then have l: "i + length sep \<le> b - a" and m: "take (length sep) (drop i (take (b - a) (drop a xs))) = sep"
    using assms(2,3) by (auto simp: sep_at_def)
  have "min (length sep) (b - (a + i)) = length sep" using l by simp
  with m have "take (length sep) (drop (a + i) xs) = sep" by (simp add: drop_take add.commute)
  moreover have "0 < length sep" using assms(4) by simp
  then have "a \<le> a + i" "a + i < b" "a + i + length sep \<le> length xs" using l assms(2,3) by linarith+
  ultimately show False using assms(1) by (auto simp: sep_at_def)
qed

definition split_inv :: "string \<Rightarrow> string \<Rightarrow> nat \<Rightarrow> sdshdr list \<Rightarrow> nat \<Rightarrow> bool" where
  "split_inv xs sep slots tokens start \<longleftrightarrow> length tokens < slots \<and> start \<le> length xs \<and>
     (\<forall>t\<in>set tokens. sds_ok t \<and> sep_free sep (sds_str t)) \<and> join_with sep (map sds_str tokens @ [drop start xs]) = xs"

lemma split_inv_push:
  assumes "split_inv xs sep slots tokens start" "start \<le> j" "sep_at sep xs j" "sep \<noteq> []"
    "\<forall>i. start \<le> i \<and> i < j \<longrightarrow> \<not> sep_at sep xs i" "length xs < 2 ^ 32"
  shows "split_inv xs sep (if slots < length tokens + 2 then slots * 2 else slots)
    (tokens @ [sds_of (take (j - start) (drop start xs)) []]) (j + length sep)"
proof -
  let ?t = "take (j - start) (drop start xs)"
  have jl: "j + length sep \<le> length xs" using assms(3) by (simp add: sep_at_def)
  have "drop start xs = ?t @ drop j xs" using assms(2) by (metis append_take_drop_id drop_drop le_add_diff_inverse2)
  also have "drop j xs = sep @ drop (j + length sep) xs"
    using assms(3) by (metis append_take_drop_id add.commute drop_drop sep_at_def)
  finally have d: "drop start xs = ?t @ sep @ drop (j + length sep) xs" .
  have "sep_free sep ?t" using assms(2,4,5) jl by (intro sep_free_part) auto
  moreover have "sds_ok (sds_of ?t [])" using assms(6) by simp
  moreover have "join_with sep (map sds_str tokens @ [drop start xs]) = join_with sep (map sds_str tokens @ [?t, drop (j + length sep) xs])"
    by (subst d) (rule join_with_split_last)
  moreover have "length tokens + 1 < (if slots < length tokens + 2 then slots * 2 else slots)" "start \<le> length xs"
    using assms(1) by (simp_all add: split_inv_def)
  ultimately show ?thesis using assms(1) jl unfolding split_inv_def by (simp del: drop_append take_append)
qed

lemma split_len_loop_spec:
  assumes "split_inv xs sep slots tokens start" "start \<le> j" "sep \<noteq> []" "length xs < 2 ^ 32"
    "\<forall>i. start \<le> i \<and> i < j \<longrightarrow> \<not> sep_at sep xs i"
  shows "\<exists>slots' tokens' start'. split_len_loop xs (length xs) sep (length sep) slots tokens start j = Some (slots', tokens', start') \<and>
    split_inv xs sep slots' tokens' start' \<and> sep_free sep (drop start' xs)"
  using assms(1,2,5)
proof (induction "length xs + 1 - j" arbitrary: slots tokens start j rule: less_induct)
  case less
  let ?slots = "if slots < length tokens + 2 then slots * 2 else slots"
  show ?case
  proof (cases "j + length sep \<le> length xs")
    case False
    have st: "start \<le> length xs" using less.prems(1) by (simp add: split_inv_def)
    have "\<forall>i. start \<le> i \<and> i < length xs \<longrightarrow> \<not> sep_at sep xs i"
      using False less.prems(3) by (auto simp: sep_at_def not_less)
    from sep_free_part[OF this st order_refl assms(3)] have "sep_free sep (drop start xs)" by simp
    then show ?thesis using False less.prems(1) by (subst split_len_loop.simps) auto
  next
    case True
    then have g: "int j < int (length xs) - (int (length sep) - 1)" by linarith
    have rd: "mem_read xs j (length sep) = Some (take (length sep) (drop j xs))" "mem_read sep 0 (length sep) = Some sep"
      using True by (simp_all add: mem_read_def)
    have inv': "split_inv xs sep ?slots tokens start" using less.prems(1) by (auto simp: split_inv_def)
    have l0: "0 < length sep" using assms(3) by simp
    show ?thesis
    proof (cases "sep_at sep xs j")
      case m: True
      let ?t = "sds_of (take (j - start) (drop start xs)) []"
      have nl: "sdsnewlen (Some (drop start xs)) (j - start) = Some ?t"
        using True less.prems(2) assms(4) by (intro sdsnewlen_spec) auto
      have pt: "put_token ?slots tokens ?t = Some (tokens @ [?t])" using inv' by (simp add: put_token_def split_inv_def)
      note inv2 = split_inv_push[OF less.prems(1,2) m assms(3) less.prems(3) assms(4)]
      have dec: "length xs + 1 - (j + length sep) < length xs + 1 - j" using True l0 by linarith
      show ?thesis using less.hyps[OF dec inv2] g rd nl pt m l0
        by (subst split_len_loop.simps) (simp add: Let_def sep_at_def)
    next
      case m: False
      have dec: "length xs + 1 - (j + 1) < length xs + 1 - j" using True by linarith
      have scan: "\<forall>i. start \<le> i \<and> i < j + 1 \<longrightarrow> \<not> sep_at sep xs i" using less.prems(3) m by (auto simp: less_Suc_eq)
      show ?thesis using less.hyps[OF dec inv' _ scan] less.prems(2) g rd m True
        by (subst split_len_loop.simps) (simp add: Let_def sep_at_def)
    qed
  qed
qed

lemma sdssplitlen_spec:
  assumes "xs \<noteq> []" "sep \<noteq> []" "length xs < 2 ^ 31"
  shows "\<exists>tokens. sdssplitlen xs (int (length xs)) sep (int (length sep)) = Some (Some tokens) \<and>
    join_with sep (map sds_str tokens) = xs \<and> (\<forall>t\<in>set tokens. sds_ok t \<and> sep_free sep (sds_str t))"
proof -
  have "split_inv xs sep 5 [] 0" by (simp add: split_inv_def)
  from split_len_loop_spec[OF this order_refl assms(2)] assms(3) obtain slots tokens start where
    l: "split_len_loop xs (length xs) sep (length sep) 5 [] 0 0 = Some (slots, tokens, start)"
    "split_inv xs sep slots tokens start" "sep_free sep (drop start xs)" by auto
  let ?t = "sds_of (drop start xs) []"
  have "sdsnewlen (Some (drop start xs)) (length xs - start) = Some ?t"
    using sdsnewlen_spec[of "length xs - start" "drop start xs"] assms(3) by simp
  moreover have "put_token slots tokens ?t = Some (tokens @ [?t])" using l(2) by (simp add: put_token_def split_inv_def)
  moreover have "0 < length sep" using assms(2) by simp
  ultimately have "sdssplitlen xs (int (length xs)) sep (int (length sep)) = Some (Some (tokens @ [?t]))"
    using l(1) assms(1) by (simp add: sdssplitlen_def)
  then show ?thesis using l(2,3) assms(3) by (auto simp: split_inv_def)
qed

subsection \<open>Sequences of operations\<close>

datatype sds_op =
    Op_catlen string
  | Op_cpylen string
  | Op_range int int
  | Op_trim string
  | Op_growzero nat
  | Op_clear
  | Op_lower
  | Op_upper
  | Op_mapchars string string
  | Op_room nat
  | Op_shrink

fun sds_exec :: "(nat \<Rightarrow> char) \<Rightarrow> sds_op \<Rightarrow> sdshdr \<Rightarrow> sdshdr option" where
  "sds_exec junk (Op_catlen t) s = sdscatlen junk s t (length t)"
| "sds_exec junk (Op_cpylen t) s = sdscpylen junk s t (length t)"
| "sds_exec junk (Op_range a b) s = sdsrange s a b"
| "sds_exec junk (Op_trim cset) s = sdstrim s cset"
| "sds_exec junk (Op_growzero n) s = sdsgrowzero junk s n"
| "sds_exec junk Op_clear s = sdsclear s"
| "sds_exec junk Op_lower s = sdstolower s"
| "sds_exec junk Op_upper s = sdstoupper s"
| "sds_exec junk (Op_mapchars from to) s = sdsmapchars s from to (min (length from) (length to))"
| "sds_exec junk (Op_room n) s = Some (sdsMakeRoomFor junk s n)"
| "sds_exec junk Op_shrink s = Some (sdsRemoveFreeSpace junk s)"

fun list_exec :: "sds_op \<Rightarrow> string \<Rightarrow> string" where
  "list_exec (Op_catlen t) xs = xs @ t"
| "list_exec (Op_cpylen t) xs = t"
| "list_exec (Op_range a b) xs = slice xs a b"
| "list_exec (Op_trim cset) xs = trim (in_cset cset) xs"
| "list_exec (Op_growzero n) xs = xs @ replicate (n - length xs) NUL"
| "list_exec Op_clear xs = []"
| "list_exec Op_lower xs = map tolower xs"
| "list_exec Op_upper xs = map toupper xs"
| "list_exec (Op_mapchars from to) xs = map (map_char from to) xs"
| "list_exec (Op_room n) xs = xs"
| "list_exec Op_shrink xs = xs"

fun op_fits :: "sds_op \<Rightarrow> string \<Rightarrow> bool" where
  "op_fits (Op_room n) xs \<longleftrightarrow> length xs + n \<le> sds_limit"
| "op_fits (Op_growzero n) xs \<longleftrightarrow> n \<le> sds_limit"
| "op_fits op xs \<longleftrightarrow> length (list_exec op xs) \<le> sds_limit"

lemma sds_limit_fits: "n \<le> sds_limit \<Longrightarrow> n + SDS_MAX_PREALLOC < 2 ^ 32"
  by (simp add: sds_limit_def SDS_MAX_PREALLOC_def)

lemma map_char_take: "map_char (take (min (length f) (length t)) f) (take (min (length f) (length t)) t) = map_char f t"
proof
  fix c show "map_char (take (min (length f) (length t)) f) (take (min (length f) (length t)) t) c = map_char f t c"
    by (induction f t c rule: map_char.induct) auto
qed

lemma sds_exec_spec:
  assumes "sds_ok s" "op_fits op (sds_str s)"
  shows "\<exists>s'. sds_exec junk op s = Some s' \<and> sds_ok s' \<and> sds_str s' = list_exec op (sds_str s)"
proof (cases op)
  case (Op_catlen t)
  with assms sds_limit_fits[of "sdslen s + length t"] sdscatlen_spec[of s "length t" t junk] show ?thesis by simp
next
  case (Op_cpylen t)
  with assms sds_limit_fits[of "length t"] sdscpylen_spec[of s "length t" t junk] show ?thesis by simp
next
  case (Op_range a b)
  with assms sdsrange_spec show ?thesis by simp
next
  case (Op_trim cset)
  with assms sdstrim_spec show ?thesis by simp
next
  case (Op_growzero n)
  with assms sds_limit_fits[of n] sdsgrowzero_spec[of s n junk] show ?thesis by simp
next
  case Op_clear
  with assms sdsclear_spec show ?thesis by simp
next
  case Op_lower
  with assms sdstolower_spec show ?thesis by simp
next
  case Op_upper
  with assms sdstoupper_spec show ?thesis by simp
next
  case (Op_mapchars f t)
  with assms(1) sdsmapchars_spec[of s "min (length f) (length t)" f t] show ?thesis by (simp add: map_char_take)
next
  case (Op_room n)
  from assms(1) obtain xs room where s: "s = sds_of xs room" "length xs + length room < 2 ^ 32" by (metis sds_okE)
  with Op_room assms(2) sds_limit_fits[of "length xs + n"] sdsMakeRoomFor_spec[of xs room n junk] show ?thesis by auto
next
  case Op_shrink
  with assms sdsRemoveFreeSpace_spec show ?thesis by simp
qed

fun sds_run :: "(nat \<Rightarrow> char) \<Rightarrow> sds_op list \<Rightarrow> sdshdr \<Rightarrow> sdshdr option" where
  "sds_run junk [] s = Some s"
| "sds_run junk (op # ops) s = do { s \<leftarrow> sds_exec junk op s; sds_run junk ops s }"

fun list_run :: "sds_op list \<Rightarrow> string \<Rightarrow> string" where
  "list_run [] xs = xs"
| "list_run (op # ops) xs = list_run ops (list_exec op xs)"

fun ops_fit :: "sds_op list \<Rightarrow> string \<Rightarrow> bool" where
  "ops_fit [] xs \<longleftrightarrow> True"
| "ops_fit (op # ops) xs \<longleftrightarrow> op_fits op xs \<and> ops_fit ops (list_exec op xs)"

lemma sds_run_spec:
  "sds_ok s \<Longrightarrow> ops_fit ops (sds_str s) \<Longrightarrow>
   \<exists>s'. sds_run junk ops s = Some s' \<and> sds_ok s' \<and> sds_str s' = list_run ops (sds_str s)"
proof (induction ops arbitrary: s)
  case (Cons op ops)
  from Cons.prems sds_exec_spec[of s op junk] obtain s1 where
    "sds_exec junk op s = Some s1" "sds_ok s1" "sds_str s1 = list_exec op (sds_str s)" by auto
  with Cons.IH[of s1] Cons.prems(2) show ?case by simp
qed simp

subsection \<open>Properties\<close>



text \<open>
  \<open>sdscmp\<close> orders strings by their bytes, lexicographically and as unsigned numbers: its result
  is negative exactly when the first string is smaller, and zero exactly when they are equal.
\<close>

theorem sdscmp_orders:
  assumes "sds_ok s1" "sds_ok s2" "sdslen s1 < 2 ^ 31" "sdslen s2 < 2 ^ 31"
  shows "\<exists>r. sdscmp s1 s2 = Some r \<and> (r < 0 \<longleftrightarrow> ord_class.lexordp (map code (sds_str s1)) (map code (sds_str s2))) \<and>
    (r = 0 \<longleftrightarrow> sds_str s1 = sds_str s2)"
  using sdscmp_spec[OF assms] by (simp add: cmp_result_less cmp_result_eq)

theorem sdscmp_orders_witness:
  "\<exists>r. sdscmp (sds_of ''ab'' []) (sds_of ''abc'' ''x'') = Some r \<and>
     (r < 0 \<longleftrightarrow> ord_class.lexordp (map code (sds_str (sds_of ''ab'' []))) (map code (sds_str (sds_of ''abc'' ''x'')))) \<and>
     (r = 0 \<longleftrightarrow> sds_str (sds_of ''ab'' []) = sds_str (sds_of ''abc'' ''x''))"
  by (rule sdscmp_orders) simp_all

text \<open>
  The two decimal printers of the sources agree: \<open>sdsll2str\<close>, which writes one digit at a time
  and reverses the result, and \<open>ll2string\<close>, which writes two digits at a time from the end, produce
  the same text of the same length for every 64-bit value.
\<close>

theorem sdsll2str_equals_ll2string:
  assumes "21 \<le> length m" "21 \<le> length m'"
  shows "\<exists>r r' n. sdsll2str m w = Some (r, n) \<and> ll2string m' (length m') w = Some (r', n) \<and> take (n + 1) r = take (n + 1) r'"
proof -
  have l: "length (dec_int (sint w)) \<le> 20" by (rule length_dec_int_le_20[OF sint_u64_range])
  show ?thesis using sdsll2str_spec[OF assms(1), of w] ll2string_spec[of "length m'" m' w] l assms(2) by simp
qed

theorem sdsll2str_equals_ll2string_witness:
  "\<exists>r r' n. sdsll2str (replicate 21 NUL) (- 42) = Some (r, n) \<and>
     ll2string (replicate 32 NUL) (length (replicate 32 NUL)) (- 42) = Some (r', n) \<and> take (n + 1) r = take (n + 1) r'"
  by (rule sdsll2str_equals_ll2string) simp_all

text \<open>
  Splitting a non-empty text at a separator with \<open>sdssplitlen\<close> and joining the pieces with
  \<open>sdsjoin\<close> gives the text back, no piece contains the separator, and the token array never
  overflows while it grows.
\<close>

theorem sdssplitlen_sdsjoin_roundtrip:
  assumes "xs \<noteq> []" "sep \<noteq> []" "length xs < 2 ^ 31" "NUL \<notin> set xs" "NUL \<notin> set sep"
  shows "\<exists>tokens s. sdssplitlen xs (int (length xs)) sep (int (length sep)) = Some (Some tokens) \<and>
    (\<forall>t\<in>set tokens. sep_free sep (sds_str t)) \<and>
    sdsjoin junk (map (\<lambda>t. sds_str t @ [NUL]) tokens) (sep @ [NUL]) = Some s \<and> sds_str s = xs"
proof -
  from sdssplitlen_spec[OF assms(1-3)] obtain tokens where t: "sdssplitlen xs (int (length xs)) sep (int (length sep)) = Some (Some tokens)"
    "join_with sep (map sds_str tokens) = xs" "\<forall>t\<in>set tokens. sds_ok t \<and> sep_free sep (sds_str t)" by blast
  have "set x \<subseteq> set (join_with sep ys)" if "x \<in> set ys" for x ys
    using that by (induction sep ys rule: join_with.induct) auto
  then have n: "\<forall>x\<in>set (map sds_str tokens). NUL \<notin> set x" using t(2) assms(4) by blast
  have "length (join_with sep (map sds_str tokens)) \<le> sds_limit"
    using t(2) assms(3) by (simp add: sds_limit_def SDS_MAX_PREALLOC_def)
  from sdsjoin_spec[OF assms(5) n this, of junk] t show ?thesis by (auto simp: comp_def)
qed

theorem sdssplitlen_sdsjoin_roundtrip_witness:
  "\<exists>tokens s. sdssplitlen ''foo_-_bar'' (int (length ''foo_-_bar'')) ''_-_'' (int (length ''_-_'')) = Some (Some tokens) \<and>
    (\<forall>t\<in>set tokens. sep_free ''_-_'' (sds_str t)) \<and>
    sdsjoin (\<lambda>_. NUL) (map (\<lambda>t. sds_str t @ [NUL]) tokens) (''_-_'' @ [NUL]) = Some s \<and> sds_str s = ''foo_-_bar''"
  by (rule sdssplitlen_sdsjoin_roundtrip) simp_all

end
