(* ===== verification/Object.thy ===== *)
theory Object
  imports SdsText
begin

text \<open>
  String objects (\<open>src/redis/src/object.c\<close>).  A string value is either raw (an sds string, given
  by its contents) or an integer kept in the pointer field; \<open>long\<close> has 32 bits on the Windows
  target.  The theory models the encoder, the decoder and the operations that look at string
  objects, and shows that none of them can tell an encoded object from the raw one.
\<close>

subsection \<open>Objects\<close>

datatype robj = ENC_RAW string | ENC_INT int

definition LONG_MIN :: int where "LONG_MIN = - (2 ^ 31)"
definition LONG_MAX :: int where "LONG_MAX = 2 ^ 31 - 1"

fun obj_ok :: "robj \<Rightarrow> bool" where
  "obj_ok (ENC_RAW s) \<longleftrightarrow> length s < 2 ^ 31"
| "obj_ok (ENC_INT n) \<longleftrightarrow> LONG_MIN \<le> n \<and> n \<le> LONG_MAX"

definition REDIS_SHARED_INTEGERS :: int where
  "REDIS_SHARED_INTEGERS = 10000"

text \<open>The shared integers are integer-encoded objects of their value.\<close>

definition createStringObjectFromLongLong :: "(nat \<Rightarrow> char) \<Rightarrow> u64 \<Rightarrow> robj option" where
  "createStringObjectFromLongLong junk value =
     (if 0 \<le> sint value \<and> sint value < REDIS_SHARED_INTEGERS then Some (ENC_INT (sint value))
      else if LONG_MIN \<le> sint value \<and> sint value \<le> LONG_MAX then Some (ENC_INT (sint value))
      else do { s \<leftarrow> sdsfromlonglong junk value; Some (ENC_RAW (sds_str s)) })"

text \<open>
  \<open>shared\<close> is the test \<open>refcount > 1\<close>.  Releasing spare room of a long string does not change its
  contents.
\<close>

definition tryObjectEncoding :: "bool \<Rightarrow> robj \<Rightarrow> robj" where
  "tryObjectEncoding shared o1 =
     (case o1 of
        ENC_INT n \<Rightarrow> ENC_INT n
      | ENC_RAW s \<Rightarrow>
          if shared then ENC_RAW s
          else if 21 < length s then ENC_RAW s
          else (case string2l s of None \<Rightarrow> ENC_RAW s | Some value \<Rightarrow> ENC_INT value))"

text \<open>The text of an integer, printed into a buffer of \<open>sz\<close> bytes on the stack.\<close>

definition int_text :: "(nat \<Rightarrow> char) \<Rightarrow> nat \<Rightarrow> int \<Rightarrow> (string \<times> nat) option" where
  "int_text junk sz n = ll2string (map junk [0..<sz]) sz (word_of_int n)"

definition getDecodedObject :: "(nat \<Rightarrow> char) \<Rightarrow> robj \<Rightarrow> robj option" where
  "getDecodedObject junk o1 =
     (case o1 of
        ENC_RAW s \<Rightarrow> Some (ENC_RAW s)
      | ENC_INT n \<Rightarrow> do { (m, _) \<leftarrow> int_text junk 32 n;
                     len \<leftarrow> c_strlen m;
                     s \<leftarrow> mem_read m 0 len;
                     Some (ENC_RAW s) })"

text \<open>The bytes and the length that a comparison works on.\<close>

definition obj_bytes :: "(nat \<Rightarrow> char) \<Rightarrow> robj \<Rightarrow> (string \<times> nat) option" where
  "obj_bytes junk o1 = (case o1 of ENC_RAW s \<Rightarrow> Some (s, length s) | ENC_INT n \<Rightarrow> int_text junk 128 n)"

definition compareStringObjects :: "(nat \<Rightarrow> char) \<Rightarrow> robj \<Rightarrow> robj \<Rightarrow> int option" where
  "compareStringObjects junk a b =
     do { (astr, alen) \<leftarrow> obj_bytes junk a;
          (bstr, blen) \<leftarrow> obj_bytes junk b;
          let minlen = (if alen < blen then alen else blen);
          xs \<leftarrow> mem_read astr 0 minlen;
          ys \<leftarrow> mem_read bstr 0 minlen;
          let cmp = memcmp_loop xs ys;
          Some (if cmp = 0 then sint (word_of_int (int alen - int blen) :: u32) else cmp) }"

definition equalStringObjects :: "(nat \<Rightarrow> char) \<Rightarrow> robj \<Rightarrow> robj \<Rightarrow> bool option" where
  "equalStringObjects junk a b =
     (case (a, b) of
        (ENC_INT m, ENC_INT n) \<Rightarrow> Some (m = n)
      | _ \<Rightarrow> do { r \<leftarrow> compareStringObjects junk a b; Some (r = 0) })"

definition stringObjectLen :: "(nat \<Rightarrow> char) \<Rightarrow> robj \<Rightarrow> nat option" where
  "stringObjectLen junk o1 =
     (case o1 of ENC_RAW s \<Rightarrow> Some (length s) | ENC_INT n \<Rightarrow> do { (_, len) \<leftarrow> int_text junk 32 n; Some len })"

definition isObjectRepresentableAsLongLong :: "robj \<Rightarrow> int option" where
  "isObjectRepresentableAsLongLong o1 = (case o1 of ENC_INT n \<Rightarrow> Some n | ENC_RAW s \<Rightarrow> string2ll s)"

subsection \<open>Reading an integer with \<open>strtoll\<close>\<close>

text \<open>
  The C function in base 10: white space, a sign, digits.  The result is the value, clamped to the
  range of \<open>long long\<close>, the text from the end pointer on and whether \<open>errno\<close> is \<open>ERANGE\<close>.  When
  there are no digits the value is 0 and the end pointer is the start of the text.
\<close>

definition strtoll :: "string \<Rightarrow> int \<times> string \<times> bool" where
  "strtoll s =
     (let t = dropWhile isspace s;
          negative = (t \<noteq> [] \<and> hd t = CHR ''-'');
          t = (if t \<noteq> [] \<and> (hd t = CHR ''-'' \<or> hd t = CHR ''+'') then tl t else t);
          digits = takeWhile is_digit t;
          v = (if negative then - int (dec_val digits) else int (dec_val digits))
      in if digits = [] then (0, s, False)
         else if v < - (2 ^ 63) then (- (2 ^ 63), dropWhile is_digit t, True)
         else if 2 ^ 63 - 1 < v then (2 ^ 63 - 1, dropWhile is_digit t, True)
         else (v, dropWhile is_digit t, False))"

text \<open>
  \<open>None\<close> is \<open>REDIS_ERR\<close>.  The tests look at the first byte of the string and at the byte at the end
  pointer; the contents are followed by a NUL.
\<close>

definition getLongLongFromObject :: "robj option \<Rightarrow> int option" where
  "getLongLongFromObject o1 =
     (case o1 of
        None \<Rightarrow> Some 0
      | Some (ENC_INT n) \<Rightarrow> Some n
      | Some (ENC_RAW s) \<Rightarrow>
          let m = s @ [NUL];
              (value, eptr, erange) = strtoll m
          in if isspace (hd m) \<or> eptr = [] \<or> hd eptr \<noteq> NUL \<or> erange then None else Some value)"

subsection \<open>The contents of an object\<close>

fun obj_str :: "robj \<Rightarrow> string" where
  "obj_str (ENC_RAW s) = s"
| "obj_str (ENC_INT n) = dec_int n"

lemma sint_long:
  assumes "LONG_MIN \<le> n" "n \<le> LONG_MAX"
  shows "sint (word_of_int n :: u64) = n"
  using assms by (simp add: LONG_MIN_def LONG_MAX_def signed_of_int signed_take_bit_int_eq_self)

lemma length_dec_int_long:
  assumes "LONG_MIN \<le> n" "n \<le> LONG_MAX"
  shows "length (dec_int n) \<le> 20"
  using assms by (intro length_dec_int_le_20) (auto simp: LONG_MIN_def LONG_MAX_def)

lemma int_text_spec:
  assumes "LONG_MIN \<le> n" "n \<le> LONG_MAX" "21 \<le> sz"
  shows "int_text junk sz n = Some (dec_int n @ NUL # drop (Suc (length (dec_int n))) (map junk [0..<sz]), length (dec_int n))"
  using ll2string_spec[of sz "map junk [0..<sz]" "word_of_int n"] assms(3) sint_long[OF assms(1,2)] length_dec_int_long[OF assms(1,2)]
  by (simp add: int_text_def)

lemma dec_int_no_NUL: "NUL \<notin> set (dec_int n)"
proof -
  have "NUL \<notin> set (dec_nat k)" for k using dec_nat_digits[of k] by (auto simp: list_all_iff is_digit_def)
  then show ?thesis by (simp add: dec_int_def)
qed

lemma getDecodedObject_spec: "obj_ok o1 \<Longrightarrow> getDecodedObject junk o1 = Some (ENC_RAW (obj_str o1))"
  by (cases o1) (simp_all add: getDecodedObject_def int_text_spec dec_int_no_NUL mem_read_def)

lemma stringObjectLen_spec: "obj_ok o1 \<Longrightarrow> stringObjectLen junk o1 = Some (length (obj_str o1))"
  by (cases o1) (simp_all add: stringObjectLen_def int_text_spec)

lemma obj_bytes_spec:
  "obj_ok o1 \<Longrightarrow> \<exists>m. obj_bytes junk o1 = Some (m, length (obj_str o1)) \<and> take (length (obj_str o1)) m = obj_str o1 \<and> length (obj_str o1) \<le> length m"
  by (cases o1) (simp_all add: obj_bytes_def int_text_spec)

lemma compare_bytes:
  assumes "length xs < 2 ^ 31" "length ys < 2 ^ 31" "take (length xs) m = xs" "length xs \<le> length m"
    "take (length ys) m' = ys" "length ys \<le> length m'"
  shows "do { let minlen = (if length xs < length ys then length xs else length ys);
              a \<leftarrow> mem_read m 0 minlen;
              b \<leftarrow> mem_read m' 0 minlen;
              let cmp = memcmp_loop a b;
              Some (if cmp = 0 then sint (word_of_int (int (length xs) - int (length ys)) :: u32) else cmp) } =
    Some (cmp_result xs ys)"
proof -
  let ?k = "if length xs < length ys then length xs else length ys"
  have k: "?k = min (length xs) (length ys)" by simp
  have t: "take ?k m = take ?k xs" "take ?k m' = take ?k ys" 
    using take_take[of ?k "length xs" m] take_take[of ?k "length ys" m'] unfolding assms(3,5) by (simp_all add: min_def split: if_splits)
  have r: "mem_read m 0 ?k = Some (take ?k xs)" "mem_read m' 0 ?k = Some (take ?k ys)"
    unfolding t[symmetric] using assms(4,6) by (auto simp: mem_read_def)
  have c: "memcmp_loop (take ?k xs) (take ?k ys) = memcmp_loop xs ys" unfolding k by (rule memcmp_take)
  have "sint (word_of_int (int (length xs) - int (length ys)) :: u32) = int (length xs) - int (length ys)"
    using assms(1,2) by (simp only: signed_of_int) (simp add: signed_take_bit_int_eq_self)
  then show ?thesis unfolding Let_def cmp_result_def using r c by (simp split del: if_split cong: if_cong)
qed

lemma length_obj_str: "obj_ok o1 \<Longrightarrow> length (obj_str o1) < 2 ^ 31"
  by (cases o1) (auto dest: length_dec_int_long)

lemma compareStringObjects_spec:
  assumes "obj_ok a" "obj_ok b"
  shows "compareStringObjects junk a b = Some (cmp_result (obj_str a) (obj_str b))"
proof -
  obtain m where m: "obj_bytes junk a = Some (m, length (obj_str a))" "take (length (obj_str a)) m = obj_str a" "length (obj_str a) \<le> length m"
    using obj_bytes_spec[OF assms(1)] by blast
  obtain m' where m': "obj_bytes junk b = Some (m', length (obj_str b))" "take (length (obj_str b)) m' = obj_str b" "length (obj_str b) \<le> length m'"
    using obj_bytes_spec[OF assms(2)] by blast
  show ?thesis
    using compare_bytes[OF length_obj_str[OF assms(1)] length_obj_str[OF assms(2)] m(2,3) m'(2,3)] m(1) m'(1)
    unfolding compareStringObjects_def by (simp only: Option.bind.bind_lunit prod.case)
qed

lemma dec_int_inj: "dec_int m = dec_int n \<longleftrightarrow> m = n"
  using dec_nat_not_minus[of "nat m" "dec_nat (nat (- n))"] dec_nat_not_minus[of "nat n" "dec_nat (nat (- m))"]
  by (auto simp: dec_int_def eq_nat_nat_iff)

lemma equalStringObjects_spec:
  assumes "obj_ok a" "obj_ok b"
  shows "equalStringObjects junk a b = Some (obj_str a = obj_str b)"
  using compareStringObjects_spec[OF assms, of junk]
  by (cases a; cases b) (simp_all add: equalStringObjects_def cmp_result_eq dec_int_inj)

subsection \<open>Encoding\<close>

lemma string2l_spec: "string2l s = Some v \<longleftrightarrow> s = dec_int v \<and> LONG_MIN \<le> v \<and> v \<le> LONG_MAX"
proof
  assume "string2l s = Some v"
  then have "string2ll s = Some v" "LONG_MIN \<le> v" "v \<le> LONG_MAX"
    by (auto simp: string2l_def LONG_MIN_def LONG_MAX_def split: option.splits if_splits)
  then show "s = dec_int v \<and> LONG_MIN \<le> v \<and> v \<le> LONG_MAX" using string2ll_spec[of s v] by blast
next
  assume a: "s = dec_int v \<and> LONG_MIN \<le> v \<and> v \<le> LONG_MAX"
  then have "string2ll s = Some v" using string2ll_spec[of s v] by (simp add: LONG_MIN_def LONG_MAX_def)
  then show "string2l s = Some v" using a by (simp add: string2l_def LONG_MIN_def LONG_MAX_def)
qed

lemma tryObjectEncoding_str: "obj_str (tryObjectEncoding shared o1) = obj_str o1"
  by (cases o1) (auto simp: tryObjectEncoding_def string2l_spec split: option.splits)

lemma tryObjectEncoding_ok: "obj_ok o1 \<Longrightarrow> obj_ok (tryObjectEncoding shared o1)"
  by (cases o1) (auto simp: tryObjectEncoding_def string2l_spec split: option.splits)

lemma not_isspace_sign [simp]: "\<not> isspace CHR ''-''" "\<not> isspace CHR ''+''" "\<not> isspace NUL" "\<not> is_digit NUL"
  "\<not> is_digit CHR ''-''" "\<not> is_digit CHR ''+''"
  by (simp_all add: isspace_def is_digit_def)

lemma digit_not_space: "is_digit c \<Longrightarrow> \<not> isspace c"
  by (auto simp: isspace_def is_digit_def)

lemma takeWhile_digits: "list_all is_digit d \<Longrightarrow> takeWhile is_digit (d @ NUL # m) = d \<and> dropWhile is_digit (d @ NUL # m) = NUL # m"
  by (induction d) auto

lemma strtoll_dec_int:
  assumes "- (2 ^ 63) \<le> v" "v \<le> 2 ^ 63 - 1"
  shows "strtoll (dec_int v @ [NUL]) = (v, [NUL], False)"
proof -
  let ?d = "dec_nat (nat \<bar>v\<bar>)"
  obtain c r where c: "?d = c # r" "is_digit c" using dec_nat_nonempty[of "nat \<bar>v\<bar>"] dec_nat_digits[of "nat \<bar>v\<bar>"]
    by (cases ?d) auto
  have s: "c \<noteq> CHR ''-''" "c \<noteq> CHR ''+''" "\<not> isspace c" using c(2) digit_not_space by (auto simp: is_digit_def)
  have tw: "takeWhile is_digit (c # r @ [NUL]) = ?d" "dropWhile is_digit (c # r @ [NUL]) = [NUL]"
    using takeWhile_digits[OF dec_nat_digits[of "nat \<bar>v\<bar>"], of "[]"] c(1) by simp_all
  have dv: "dec_val (c # r) = nat \<bar>v\<bar>" using c(1) dec_val_dec_nat[of "nat \<bar>v\<bar>"] by simp
  show ?thesis
  proof (cases "v < 0")
    case True
    then have "dec_int v = CHR ''-'' # c # r" using c(1) by (simp add: dec_int_def)
    then show ?thesis using True assms tw c(1) dv by (simp add: strtoll_def Let_def)
  next
    case False
    then have "dec_int v = c # r" using c(1) by (simp add: dec_int_def)
    then show ?thesis using False assms tw c(1) s dv by (simp add: strtoll_def Let_def)
  qed
qed

lemma getLongLong_dec_int:
  assumes "- (2 ^ 63) \<le> v" "v \<le> 2 ^ 63 - 1"
  shows "getLongLongFromObject (Some (ENC_RAW (dec_int v))) = Some v"
proof -
  have "dec_int v \<noteq> []" "\<not> isspace (hd (dec_int v))"
    using dec_nat_nonempty dec_nat_digits[of "nat v"] digit_not_space
    by (auto simp: dec_int_def list_all_iff dest!: hd_in_set)
  then show ?thesis using strtoll_dec_int[OF assms] by (simp add: getLongLongFromObject_def)
qed

lemma getLongLong_encoding: "getLongLongFromObject (Some (tryObjectEncoding shared o1)) = getLongLongFromObject (Some o1)"
proof (cases o1)
  case (ENC_RAW s)
  then show ?thesis
  proof (cases "shared \<or> 21 < length s \<or> string2l s = None")
    case False
    then obtain v where v: "string2l s = Some v" by auto
    then have "s = dec_int v" "- (2 ^ 63) \<le> v" "v \<le> 2 ^ 63 - 1" by (auto simp: string2l_spec LONG_MIN_def LONG_MAX_def)
    with getLongLong_dec_int have "getLongLongFromObject (Some (ENC_RAW s)) = Some v" by blast
    with False v ENC_RAW show ?thesis by (simp add: tryObjectEncoding_def getLongLongFromObject_def[of "Some (ENC_INT v)"])
  qed (auto simp: tryObjectEncoding_def)
qed (simp add: tryObjectEncoding_def)

lemma string2ll_dec_int: "- (2 ^ 63) \<le> v \<Longrightarrow> v < 2 ^ 63 \<Longrightarrow> string2ll (dec_int v) = Some v"
  using string2ll_spec by blast

lemma isObjectRepresentable_encoding:
  "isObjectRepresentableAsLongLong (tryObjectEncoding shared o1) = isObjectRepresentableAsLongLong o1"
  by (cases o1) (auto simp: tryObjectEncoding_def isObjectRepresentableAsLongLong_def string2l_spec LONG_MIN_def LONG_MAX_def
      string2ll_dec_int split: option.splits)

lemma createStringObjectFromLongLong_spec:
  "\<exists>o1. createStringObjectFromLongLong junk w = Some o1 \<and> obj_str o1 = dec_int (sint w) \<and> obj_ok o1"
  using length_dec_int_le_20[OF sint_u64_range, of w]
  by (auto simp: createStringObjectFromLongLong_def sdsfromlonglong_spec REDIS_SHARED_INTEGERS_def LONG_MIN_def LONG_MAX_def)

subsection \<open>Properties\<close>

text \<open>
  C29. Encoding a string object as an integer (\<open>tryObjectEncoding\<close>) is invisible: the decoder, the
  length, the comparison, the equality test and both readers of integers give the same results on
  the encoded object as on the original.
\<close>

theorem encoding_transparent:
  assumes "obj_ok a" "obj_ok b"
  shows "let a' = tryObjectEncoding shared a in
    obj_ok a' \<and>
    getDecodedObject junk a' = getDecodedObject junk a \<and>
    stringObjectLen junk a' = stringObjectLen junk a \<and>
    compareStringObjects junk a' b = compareStringObjects junk a b \<and>
    equalStringObjects junk a' b = equalStringObjects junk a b \<and>
    getLongLongFromObject (Some a') = getLongLongFromObject (Some a) \<and>
    isObjectRepresentableAsLongLong a' = isObjectRepresentableAsLongLong a"
proof -
  note ok = tryObjectEncoding_ok[OF assms(1), of shared]
  show ?thesis unfolding Let_def
    using ok assms by (simp add: getDecodedObject_spec stringObjectLen_spec compareStringObjects_spec equalStringObjects_spec
        tryObjectEncoding_str getLongLong_encoding isObjectRepresentable_encoding)
qed

theorem encoding_transparent_witness:
  "let a' = tryObjectEncoding False (ENC_RAW ''-15'') in
    obj_ok a' \<and>
    getDecodedObject (\<lambda>_. NUL) a' = getDecodedObject (\<lambda>_. NUL) (ENC_RAW ''-15'') \<and>
    stringObjectLen (\<lambda>_. NUL) a' = stringObjectLen (\<lambda>_. NUL) (ENC_RAW ''-15'') \<and>
    compareStringObjects (\<lambda>_. NUL) a' (ENC_INT 7) = compareStringObjects (\<lambda>_. NUL) (ENC_RAW ''-15'') (ENC_INT 7) \<and>
    equalStringObjects (\<lambda>_. NUL) a' (ENC_INT 7) = equalStringObjects (\<lambda>_. NUL) (ENC_RAW ''-15'') (ENC_INT 7) \<and>
    getLongLongFromObject (Some a') = getLongLongFromObject (Some (ENC_RAW ''-15'')) \<and>
    isObjectRepresentableAsLongLong a' = isObjectRepresentableAsLongLong (ENC_RAW ''-15'')"
  by (rule encoding_transparent) (simp_all add: LONG_MIN_def LONG_MAX_def)

text \<open>
  The two integer readers disagree on the empty string and on text behind a NUL:
  \<open>getLongLongFromObject\<close> takes the empty string for 0 and \<open>5\<close> followed by a NUL and anything else
  for 5, because it only looks at the byte at the end pointer, while \<open>string2ll\<close> rejects both.
\<close>

theorem getLongLong_accepts_empty:
  "getLongLongFromObject (Some (ENC_RAW [])) = Some 0 \<and> isObjectRepresentableAsLongLong (ENC_RAW []) = None \<and>
   getLongLongFromObject (Some (ENC_RAW (CHR ''5'' # NUL # s))) = Some 5 \<and>
   isObjectRepresentableAsLongLong (ENC_RAW (CHR ''5'' # NUL # s)) = None"
proof -
  have d: "is_digit CHR ''5''" "\<not> isspace CHR ''5''" by (simp_all add: is_digit_def isspace_def)
  have v: "dec_val ''5'' = 5" using dec_val_snoc[of "[]" "CHR ''5''"] by (simp add: digit_val_def)
  have "NUL \<notin> set (dec_int i)" for i by (rule dec_int_no_NUL)
  then have n: "CHR ''5'' # NUL # s \<noteq> dec_int i" for i by (metis list.set_intros(1) list.set_intros(2))
  have "dec_int i \<noteq> []" for i by (simp add: dec_int_def)
  then have e: "[] \<noteq> dec_int i" for i by metis
  have "string2ll (CHR ''5'' # NUL # s) = None" "string2ll [] = None"
    using string2ll_spec n e by (metis not_None_eq)+
  then show ?thesis using d v
    by (simp add: getLongLongFromObject_def isObjectRepresentableAsLongLong_def strtoll_def Let_def)
qed

end
