(* ===== verification/Reply.thy ===== *)
theory Reply
  imports Object
begin

text \<open>
  The reply side of a client connection (\<open>src/redis/src/networking.c\<close>): replies are appended to a
  static buffer and, when that is full, to a list of objects; the write handler sends both in
  order.  The state is the C structure, without the fields that only other parts use.  The bytes a
  client has still to receive, \<open>pending\<close>, are the abstraction: appending appends to it, sending takes
  a prefix away.  An access out of bounds or a failed assertion is \<open>None\<close>.

  Objects are values here: an object in the reply list is its string, or \<open>None\<close> for the empty
  object of a length that is not known yet.  \<open>dupLastObjectIfNeeded\<close> copies an object that others
  share before it is changed, which is what makes this view right.
\<close>

subsection \<open>Clients\<close>

datatype client_flag = REDIS_SLAVE | REDIS_MASTER | REDIS_MULTI | REDIS_BLOCKED | REDIS_CLOSE_AFTER_REPLY
  | REDIS_LUA_CLIENT | REDIS_ASKING | REDIS_CLOSE_ASAP | REDIS_MASTER_FORCE_REPLY

record redisClient =
  fd :: int
  flags :: "client_flag set"
  replstate :: nat
  cbuf :: string
  bufpos :: nat
  sentlen :: nat
  reply :: "string option list"
  writable :: bool
  querybuf :: string
  reqtype :: nat
  argv :: "string list"
  argv_size :: nat
  multibulklen :: nat
  bulklen :: int
  repl_ack_time :: int

text \<open>
  What the handlers read of their surroundings: whether the event loop accepts a write handler,
  whether the client exceeds its output limits (configuration, allocator and clock), the time.
\<close>

record net_env =
  ae_create :: "int \<Rightarrow> bool"
  over_limits :: "redisClient \<Rightarrow> bool"
  unixtime :: int

definition REDIS_REPLY_CHUNK_BYTES :: nat where
  "REDIS_REPLY_CHUNK_BYTES = 16 * 1024"

definition REDIS_SHARED_BULKHDR_LEN :: int where
  "REDIS_SHARED_BULKHDR_LEN = 32"

definition crlf :: string where
  "crlf = [CR, LF]"

definition createClient :: "net_env \<Rightarrow> (nat \<Rightarrow> char) \<Rightarrow> int \<Rightarrow> redisClient option" where
  "createClient env junk fd0 =
     (if fd0 \<noteq> -1 \<and> \<not> ae_create env fd0 then None
      else Some \<lparr>fd = fd0, flags = {}, replstate = 0, cbuf = map junk [0..<REDIS_REPLY_CHUNK_BYTES], bufpos = 0, sentlen = 0,
                 reply = [], writable = False, querybuf = [], reqtype = 0, argv = [], argv_size = 0,
                 multibulklen = 0, bulklen = -1, repl_ack_time = 0\<rparr>)"

text \<open>The boolean result is \<open>REDIS_OK\<close>.\<close>

definition prepareClientToWrite :: "net_env \<Rightarrow> redisClient \<Rightarrow> redisClient \<times> bool" where
  "prepareClientToWrite env c =
     (if REDIS_LUA_CLIENT \<in> flags c then (c, True)
      else if REDIS_MASTER \<in> flags c \<and> REDIS_MASTER_FORCE_REPLY \<notin> flags c then (c, False)
      else if fd c \<le> 0 then (c, False)
      else if bufpos c = 0 \<and> length (reply c) = 0 \<and> (replstate c = 0 \<or> replstate c = 9)
      then if ae_create env (fd c) then (c\<lparr>writable := True\<rparr>, True) else (c, False)
      else (c, True))"

subsection \<open>The output buffers\<close>

definition addReplyToBuffer :: "redisClient \<Rightarrow> string \<Rightarrow> (redisClient \<times> bool) option" where
  "addReplyToBuffer c s =
     (if REDIS_CLOSE_AFTER_REPLY \<in> flags c then Some (c, True)
      else if 0 < length (reply c) then Some (c, False)
      else if int (length s) > int REDIS_REPLY_CHUNK_BYTES - int (bufpos c) then Some (c, False)
      else do { b \<leftarrow> mem_write (cbuf c) (bufpos c) s;
                Some (c\<lparr>cbuf := b, bufpos := bufpos c + length s\<rparr>, True) })"

text \<open>A closing is scheduled by a flag and an entry in the queue of clients to close.\<close>

definition freeClientAsync :: "redisClient \<Rightarrow> redisClient" where
  "freeClientAsync c = c\<lparr>flags := insert REDIS_CLOSE_ASAP (flags c)\<rparr>"

definition asyncCloseClientOnOutputBufferLimitReached :: "net_env \<Rightarrow> redisClient \<Rightarrow> redisClient" where
  "asyncCloseClientOnOutputBufferLimitReached env c =
     (if REDIS_CLOSE_ASAP \<in> flags c then c else if over_limits env c then freeClientAsync c else c)"

text \<open>The new end of the reply list: glued to the last object when both fit into one chunk.\<close>

definition glue_reply :: "string option list \<Rightarrow> string \<Rightarrow> string option list" where
  "glue_reply r s =
     (if length r = 0 then [Some s]
      else case last r of
             Some t \<Rightarrow> if length t + length s \<le> REDIS_REPLY_CHUNK_BYTES then butlast r @ [Some (t @ s)] else r @ [Some s]
           | None \<Rightarrow> r @ [Some s])"

definition addReplyObjectToList :: "net_env \<Rightarrow> redisClient \<Rightarrow> string \<Rightarrow> redisClient" where
  "addReplyObjectToList env c s =
     (if REDIS_CLOSE_AFTER_REPLY \<in> flags c then c
      else asyncCloseClientOnOutputBufferLimitReached env (c\<lparr>reply := glue_reply (reply c) s\<rparr>))"

definition addReplySdsToList :: "net_env \<Rightarrow> redisClient \<Rightarrow> string \<Rightarrow> redisClient" where
  "addReplySdsToList env c s =
     (if REDIS_CLOSE_AFTER_REPLY \<in> flags c then c
      else asyncCloseClientOnOutputBufferLimitReached env (c\<lparr>reply := glue_reply (reply c) s\<rparr>))"

definition addReplyStringToList :: "net_env \<Rightarrow> redisClient \<Rightarrow> string \<Rightarrow> redisClient" where
  "addReplyStringToList env c s =
     (if REDIS_CLOSE_AFTER_REPLY \<in> flags c then c
      else asyncCloseClientOnOutputBufferLimitReached env (c\<lparr>reply := glue_reply (reply c) s\<rparr>))"

subsection \<open>Replies\<close>

definition addReply :: "net_env \<Rightarrow> (nat \<Rightarrow> char) \<Rightarrow> redisClient \<Rightarrow> robj \<Rightarrow> redisClient option" where
  "addReply env junk c obj =
     (let (c, ok) = prepareClientToWrite env c in
      if \<not> ok then Some c
      else case obj of
             ENC_RAW s \<Rightarrow> do { (c, ok) \<leftarrow> addReplyToBuffer c s; Some (if ok then c else addReplyObjectToList env c s) }
           | ENC_INT n \<Rightarrow>
               do { (c, ok) \<leftarrow> (if length (reply c) = 0 \<and> int REDIS_REPLY_CHUNK_BYTES - int (bufpos c) \<ge> 32
                               then do { (m, len) \<leftarrow> int_text junk 32 n;
                                         s \<leftarrow> mem_read m 0 len;
                                         addReplyToBuffer c s }
                               else Some (c, False));
                    if ok then Some c
                    else do { obj \<leftarrow> getDecodedObject junk (ENC_INT n);
                              (c, ok) \<leftarrow> addReplyToBuffer c (obj_str obj);
                              Some (if ok then c else addReplyObjectToList env c (obj_str obj)) } })"

definition addReplySds :: "net_env \<Rightarrow> redisClient \<Rightarrow> string \<Rightarrow> redisClient option" where
  "addReplySds env c s =
     (let (c, ok) = prepareClientToWrite env c in
      if \<not> ok then Some c
      else do { (c, ok) \<leftarrow> addReplyToBuffer c s; Some (if ok then c else addReplySdsToList env c s) })"

definition addReplyString :: "net_env \<Rightarrow> redisClient \<Rightarrow> string \<Rightarrow> redisClient option" where
  "addReplyString env c s =
     (let (c, ok) = prepareClientToWrite env c in
      if \<not> ok then Some c
      else do { (c, ok) \<leftarrow> addReplyToBuffer c s; Some (if ok then c else addReplyStringToList env c s) })"

definition addReplyErrorLength :: "net_env \<Rightarrow> redisClient \<Rightarrow> string \<Rightarrow> redisClient option" where
  "addReplyErrorLength env c s =
     do { c \<leftarrow> addReplyString env c ''-ERR '';
          c \<leftarrow> addReplyString env c s;
          addReplyString env c crlf }"

definition addReplyError :: "net_env \<Rightarrow> redisClient \<Rightarrow> string \<Rightarrow> redisClient option" where
  "addReplyError env c err = addReplyErrorLength env c err"

text \<open>\<open>s\<close> is the formatted text.\<close>

definition addReplyErrorFormat :: "net_env \<Rightarrow> redisClient \<Rightarrow> string \<Rightarrow> redisClient option" where
  "addReplyErrorFormat env c s = addReplyErrorLength env c (map (\<lambda>x. if x = CR \<or> x = LF then CHR 0x20 else x) s)"

definition addReplyStatusLength :: "net_env \<Rightarrow> redisClient \<Rightarrow> string \<Rightarrow> redisClient option" where
  "addReplyStatusLength env c s =
     do { c \<leftarrow> addReplyString env c ''+'';
          c \<leftarrow> addReplyString env c s;
          addReplyString env c crlf }"

definition addReplyStatus :: "net_env \<Rightarrow> redisClient \<Rightarrow> string \<Rightarrow> redisClient option" where
  "addReplyStatus env c status = addReplyStatusLength env c status"

text \<open>The shared headers; an index outside the array is out of bounds.\<close>

definition shared_hdr :: "char \<Rightarrow> int \<Rightarrow> robj option" where
  "shared_hdr prefix j =
     (if 0 \<le> j \<and> j < REDIS_SHARED_BULKHDR_LEN then Some (ENC_RAW (prefix # dec_nat (nat j) @ crlf)) else None)"

definition addReplyLongLongWithPrefix :: "net_env \<Rightarrow> (nat \<Rightarrow> char) \<Rightarrow> redisClient \<Rightarrow> u64 \<Rightarrow> char \<Rightarrow> redisClient option" where
  "addReplyLongLongWithPrefix env junk c ll prefix =
     (if (prefix = CHR ''*'' \<or> prefix = CHR ''$'') \<and> sint ll < REDIS_SHARED_BULKHDR_LEN
      then do { hdr \<leftarrow> shared_hdr prefix (sint ll); addReply env junk c hdr }
      else do { (m, len) \<leftarrow> ll2string (map junk [1..<128]) 127 ll;
                m \<leftarrow> arr_set (prefix # m) (int len + 1) CR;
                m \<leftarrow> arr_set m (int len + 2) LF;
                s \<leftarrow> mem_read m 0 (len + 3);
                addReplyString env c s })"

definition addReplyLongLong :: "net_env \<Rightarrow> (nat \<Rightarrow> char) \<Rightarrow> redisClient \<Rightarrow> u64 \<Rightarrow> redisClient option" where
  "addReplyLongLong env junk c ll =
     (if ll = 0 then addReply env junk c (ENC_RAW ('':0'' @ crlf))
      else if ll = 1 then addReply env junk c (ENC_RAW ('':1'' @ crlf))
      else addReplyLongLongWithPrefix env junk c ll (CHR '':''))"

definition addReplyMultiBulkLen :: "net_env \<Rightarrow> (nat \<Rightarrow> char) \<Rightarrow> redisClient \<Rightarrow> u64 \<Rightarrow> redisClient option" where
  "addReplyMultiBulkLen env junk c n =
     (if sint n < REDIS_SHARED_BULKHDR_LEN
      then do { hdr \<leftarrow> shared_hdr (CHR ''*'') (sint n); addReply env junk c hdr }
      else addReplyLongLongWithPrefix env junk c n (CHR ''*''))"

text \<open>The loop that counts the digits of an integer.\<close>

function count_digits :: "nat \<Rightarrow> nat \<Rightarrow> nat" where
  "count_digits n len = (if n div 10 \<noteq> 0 then count_digits (n div 10) (len + 1) else len)"
  by auto
termination by (relation "measure fst") auto

declare count_digits.simps [simp del]

text \<open>Negating the smallest \<open>long\<close> overflows.\<close>

definition bulk_len :: "robj \<Rightarrow> nat option" where
  "bulk_len obj =
     (case obj of
        ENC_RAW s \<Rightarrow> Some (length s)
      | ENC_INT n \<Rightarrow> if n < 0 then (if n = LONG_MIN then None else Some (count_digits (nat (- n)) 2))
                    else Some (count_digits (nat n) 1))"

definition addReplyBulkLen :: "net_env \<Rightarrow> (nat \<Rightarrow> char) \<Rightarrow> redisClient \<Rightarrow> robj \<Rightarrow> redisClient option" where
  "addReplyBulkLen env junk c obj =
     do { len \<leftarrow> bulk_len obj;
          if int len < REDIS_SHARED_BULKHDR_LEN
          then do { hdr \<leftarrow> shared_hdr (CHR ''$'') (int len); addReply env junk c hdr }
          else addReplyLongLongWithPrefix env junk c (of_nat len) (CHR ''$'') }"

definition addReplyBulk :: "net_env \<Rightarrow> (nat \<Rightarrow> char) \<Rightarrow> redisClient \<Rightarrow> robj \<Rightarrow> redisClient option" where
  "addReplyBulk env junk c obj =
     do { c \<leftarrow> addReplyBulkLen env junk c obj;
          c \<leftarrow> addReply env junk c obj;
          addReply env junk c (ENC_RAW crlf) }"

definition addReplyBulkCBuffer :: "net_env \<Rightarrow> (nat \<Rightarrow> char) \<Rightarrow> redisClient \<Rightarrow> string \<Rightarrow> redisClient option" where
  "addReplyBulkCBuffer env junk c p =
     do { c \<leftarrow> addReplyLongLongWithPrefix env junk c (of_nat (length p)) (CHR ''$'');
          c \<leftarrow> addReplyString env c p;
          addReply env junk c (ENC_RAW crlf) }"

definition addReplyBulkCString :: "net_env \<Rightarrow> (nat \<Rightarrow> char) \<Rightarrow> redisClient \<Rightarrow> string option \<Rightarrow> redisClient option" where
  "addReplyBulkCString env junk c s =
     (case s of None \<Rightarrow> addReply env junk c (ENC_RAW (''$-1'' @ crlf)) | Some s \<Rightarrow> addReplyBulkCBuffer env junk c s)"

definition addReplyBulkLongLong :: "net_env \<Rightarrow> (nat \<Rightarrow> char) \<Rightarrow> redisClient \<Rightarrow> u64 \<Rightarrow> redisClient option" where
  "addReplyBulkLongLong env junk c ll =
     do { (m, len) \<leftarrow> ll2string (map junk [0..<64]) 64 ll;
          s \<leftarrow> mem_read m 0 len;
          addReplyBulkCBuffer env junk c s }"

subsection \<open>Lengths that are not known yet\<close>

text \<open>The result is the position of the new node in the list, which is its last.\<close>

definition addDeferredMultiBulkLength :: "net_env \<Rightarrow> redisClient \<Rightarrow> redisClient \<times> nat option" where
  "addDeferredMultiBulkLength env c =
     (let (c, ok) = prepareClientToWrite env c in
      if \<not> ok then (c, None) else (c\<lparr>reply := reply c @ [None]\<rparr>, Some (length (reply c))))"

definition setDeferredMultiBulkLength :: "net_env \<Rightarrow> redisClient \<Rightarrow> nat option \<Rightarrow> int \<Rightarrow> redisClient option" where
  "setDeferredMultiBulkLength env c node n =
     (case node of
        None \<Rightarrow> Some c
      | Some k \<Rightarrow>
          if \<not> k < length (reply c) then None
          else let hdr = CHR ''*'' # dec_int n @ crlf;
                   r = (if Suc k < length (reply c)
                        then (case reply c ! Suc k of
                                Some t \<Rightarrow> take k (reply c) @ Some (hdr @ t) # drop (k + 2) (reply c)
                              | None \<Rightarrow> (reply c)[k := Some hdr])
                        else (reply c)[k := Some hdr])
               in Some (asyncCloseClientOnOutputBufferLimitReached env (c\<lparr>reply := r\<rparr>)))"

definition copyClientOutputBuffer :: "redisClient \<Rightarrow> redisClient \<Rightarrow> redisClient option" where
  "copyClientOutputBuffer dst src =
     do { s \<leftarrow> mem_read (cbuf src) 0 (bufpos src);
          b \<leftarrow> mem_write (cbuf dst) 0 s;
          Some (dst\<lparr>reply := reply src, cbuf := b, bufpos := bufpos src\<rparr>) }"

subsection \<open>The write handler on POSIX\<close>

text \<open>
  \<open>wr k n\<close> is what the \<open>k\<close>-th call of \<open>write\<close> returns when it is offered \<open>n\<close> bytes; \<open>capped\<close> says
  whether the amount per event is limited (no memory limit, or below it).  The loop returns the
  client, the number of calls, the total, the bytes written and the last result.
\<close>

definition REDIS_MAX_WRITE_PER_EVENT :: nat where
  "REDIS_MAX_WRITE_PER_EVENT = 1024 * 64"

partial_function (option) posix_loop ::
    "(nat \<Rightarrow> nat \<Rightarrow> int) \<Rightarrow> bool \<Rightarrow> redisClient \<Rightarrow> nat \<Rightarrow> nat \<Rightarrow> string \<Rightarrow> int \<Rightarrow> (redisClient \<times> nat \<times> nat \<times> string \<times> int) option" where
  "posix_loop wr capped c k tot sent nw =
     (if \<not> (0 < bufpos c \<or> 0 < length (reply c)) then Some (c, k, tot, sent, nw)
      else if 0 < bufpos c
      then if bufpos c < sentlen c then None
           else let nw = wr k (bufpos c - sentlen c)
                in if nw \<le> 0 then Some (c, k + 1, tot, sent, nw)
                   else Option.bind (mem_read (cbuf c) (sentlen c) (nat nw)) (\<lambda>xs.
                     let c = c\<lparr>sentlen := sentlen c + nat nw\<rparr>;
                         c = (if sentlen c = bufpos c then c\<lparr>bufpos := 0, sentlen := 0\<rparr> else c);
                         tot = tot + nat nw
                     in if REDIS_MAX_WRITE_PER_EVENT < tot \<and> capped then Some (c, k + 1, tot, sent @ xs, nw)
                        else posix_loop wr capped c (k + 1) tot (sent @ xs) nw)
      else case hd (reply c) of
             None \<Rightarrow> None
           | Some t \<Rightarrow>
               if length t = 0 then posix_loop wr capped (c\<lparr>reply := tl (reply c)\<rparr>) k tot sent nw
               else if length t < sentlen c then None
               else let nw = wr k (length t - sentlen c)
                    in if nw \<le> 0 then Some (c, k + 1, tot, sent, nw)
                       else Option.bind (mem_read t (sentlen c) (nat nw)) (\<lambda>xs.
                         let c = c\<lparr>sentlen := sentlen c + nat nw\<rparr>;
                             c = (if sentlen c = length t then c\<lparr>reply := tl (reply c), sentlen := 0\<rparr> else c);
                             tot = tot + nat nw
                         in if REDIS_MAX_WRITE_PER_EVENT < tot \<and> capped then Some (c, k + 1, tot, sent @ xs, nw)
                            else posix_loop wr capped c (k + 1) tot (sent @ xs) nw))"

text \<open>\<open>None\<close> as the client means that it was freed; \<open>eagain\<close> is the error of a failed write.\<close>

definition sendReplyToClient_posix ::
    "(nat \<Rightarrow> nat \<Rightarrow> int) \<Rightarrow> bool \<Rightarrow> bool \<Rightarrow> redisClient \<Rightarrow> nat \<Rightarrow> (string \<times> nat \<times> redisClient option) option" where
  "sendReplyToClient_posix wr capped eagain c k =
     do { (c, k, tot, sent, nw) \<leftarrow> posix_loop wr capped c k 0 [] 0;
          if nw = -1 \<and> \<not> eagain then Some (sent, k, None)
          else if bufpos c = 0 \<and> length (reply c) = 0
          then let c = c\<lparr>sentlen := 0, writable := False\<rparr>
               in Some (sent, k, if REDIS_CLOSE_AFTER_REPLY \<in> flags c then None else Some c)
          else Some (sent, k, Some c) }"

subsection \<open>The write handler with overlapped sends\<close>

text \<open>
  The Windows build hands each piece to \<open>aeWinSocketSend\<close>, which sends it later; \<open>acc k\<close> says
  whether the \<open>k\<close>-th piece is accepted.  A piece of the static buffer is read from there until its
  completion is reported, an object of the list is kept by a reference.
\<close>

datatype send_req = Buf_req nat string | Obj_req string

function iocp_loop ::
    "(nat \<Rightarrow> bool) \<Rightarrow> bool \<Rightarrow> redisClient \<Rightarrow> nat \<Rightarrow> nat \<Rightarrow> send_req list \<Rightarrow> (redisClient option \<times> send_req list) option" where
  "iocp_loop acc capped c k tot reqs =
     (if \<not> (sentlen c < bufpos c \<or> 0 < length (reply c)) then Some (Some c, reqs)
      else if sentlen c < bufpos c
      then Option.bind (mem_read (cbuf c) (sentlen c) (bufpos c - sentlen c)) (\<lambda>xs.
             if \<not> acc k then Some (None, reqs)
             else let reqs = reqs @ [Buf_req (sentlen c) xs];
                      tot = tot + (bufpos c - sentlen c);
                      c = c\<lparr>sentlen := bufpos c\<rparr>
                  in if REDIS_MAX_WRITE_PER_EVENT < tot \<and> capped then Some (Some c, reqs)
                     else iocp_loop acc capped c (k + 1) tot reqs)
      else case hd (reply c) of
             None \<Rightarrow> None
           | Some t \<Rightarrow>
               if length t = 0 then iocp_loop acc capped (c\<lparr>reply := tl (reply c)\<rparr>) k tot reqs
               else if \<not> acc k then Some (None, reqs)
               else let c = c\<lparr>reply := tl (reply c)\<rparr>;
                        reqs = reqs @ [Obj_req t];
                        tot = tot + length t
                    in if REDIS_MAX_WRITE_PER_EVENT < tot \<and> capped then Some (Some c, reqs)
                       else iocp_loop acc capped c (k + 1) tot reqs)"
  by pat_completeness auto
termination
  by (relation "measure (\<lambda>(_, _, c, _). (if sentlen c < bufpos c then 1 else 0) + length (reply c))") auto

declare iocp_loop.simps [simp del]

definition sendReplyToClient :: "(nat \<Rightarrow> bool) \<Rightarrow> bool \<Rightarrow> redisClient \<Rightarrow> (redisClient option \<times> send_req list) option" where
  "sendReplyToClient acc capped c = iocp_loop acc capped c 0 0 []"

definition send_finished :: "redisClient \<Rightarrow> redisClient" where
  "send_finished c =
     (if bufpos c = 0 \<and> length (reply c) = 0
      then let c = c\<lparr>writable := False\<rparr> in if REDIS_CLOSE_AFTER_REPLY \<in> flags c then freeClientAsync c else c
      else c)"

text \<open>\<open>offset\<close> is where the part that was sent ends in the static buffer.\<close>

definition sendReplyBufferDone :: "redisClient \<Rightarrow> nat \<Rightarrow> redisClient" where
  "sendReplyBufferDone c offset =
     send_finished (if bufpos c = offset then c\<lparr>bufpos := 0, sentlen := 0\<rparr> else c)"

definition sendReplyListDone :: "redisClient \<Rightarrow> redisClient" where
  "sendReplyListDone c =
     send_finished (if bufpos c = 0 \<and> length (reply c) = 0 then c\<lparr>sentlen := 0\<rparr> else c)"

subsection \<open>The bytes a client has still to receive\<close>

definition chunk_str :: "string option \<Rightarrow> string" where
  "chunk_str x = (case x of Some t \<Rightarrow> t | None \<Rightarrow> [])"

definition queued :: "redisClient \<Rightarrow> string" where
  "queued c = take (bufpos c) (cbuf c) @ concat (map chunk_str (reply c))"

definition pending :: "redisClient \<Rightarrow> string" where
  "pending c = drop (sentlen c) (queued c)"

definition out_inv :: "redisClient \<Rightarrow> bool" where
  "out_inv c \<longleftrightarrow> length (cbuf c) = REDIS_REPLY_CHUNK_BYTES \<and> bufpos c \<le> REDIS_REPLY_CHUNK_BYTES \<and>
     sentlen c \<le> length (queued c) \<and> (0 < bufpos c \<longrightarrow> sentlen c \<le> bufpos c)"

text \<open>The client takes replies: it is connected (or a script), and is not being closed.\<close>

definition takes_replies :: "net_env \<Rightarrow> redisClient \<Rightarrow> bool" where
  "takes_replies env c \<longleftrightarrow> REDIS_CLOSE_AFTER_REPLY \<notin> flags c \<and>
     (REDIS_LUA_CLIENT \<in> flags c \<or>
      (REDIS_MASTER \<in> flags c \<longrightarrow> REDIS_MASTER_FORCE_REPLY \<in> flags c) \<and> 0 < fd c \<and> ae_create env (fd c))"

text \<open>Only output changes, and the client may be scheduled for closing.\<close>

definition out_only :: "redisClient \<Rightarrow> redisClient \<Rightarrow> bool" where
  "out_only c c' \<longleftrightarrow> fd c' = fd c \<and> flags c' - {REDIS_CLOSE_ASAP} = flags c - {REDIS_CLOSE_ASAP} \<and> replstate c' = replstate c \<and>
     sentlen c' = sentlen c \<and> querybuf c' = querybuf c \<and> reqtype c' = reqtype c \<and> argv c' = argv c \<and> argv_size c' = argv_size c \<and>
     multibulklen c' = multibulklen c \<and> bulklen c' = bulklen c \<and> repl_ack_time c' = repl_ack_time c"

lemma out_only_refl [simp]: "out_only c c"
  by (simp add: out_only_def)

lemma out_only_trans: "out_only a b \<Longrightarrow> out_only b c \<Longrightarrow> out_only a c"
  by (simp add: out_only_def)

lemma out_only_flag: "out_only c c' \<Longrightarrow> f \<noteq> REDIS_CLOSE_ASAP \<Longrightarrow> f \<in> flags c' \<longleftrightarrow> f \<in> flags c"
  unfolding out_only_def by blast

lemma out_only_takes: "out_only c c' \<Longrightarrow> takes_replies env c' \<longleftrightarrow> takes_replies env c"
  using out_only_flag[of c c' REDIS_CLOSE_AFTER_REPLY] out_only_flag[of c c' REDIS_LUA_CLIENT]
    out_only_flag[of c c' REDIS_MASTER] out_only_flag[of c c' REDIS_MASTER_FORCE_REPLY]
  by (simp add: takes_replies_def out_only_def)

lemma prepare_ok:
  assumes "takes_replies env c"
  obtains w where "prepareClientToWrite env c = (c\<lparr>writable := w\<rparr>, True)"
proof -
  have "prepareClientToWrite env c = (c\<lparr>writable := True\<rparr>, True) \<or> prepareClientToWrite env c = (c\<lparr>writable := writable c\<rparr>, True)"
    using assms by (auto simp: prepareClientToWrite_def takes_replies_def)
  then show thesis using that by blast
qed

lemma set_writable [simp]:
  "queued (c\<lparr>writable := w\<rparr>) = queued c" "pending (c\<lparr>writable := w\<rparr>) = pending c"
  "out_inv (c\<lparr>writable := w\<rparr>) = out_inv c" "out_only c (c\<lparr>writable := w\<rparr>)"
  by (simp_all add: queued_def pending_def out_inv_def out_only_def)

text \<open>Anything that only appends to what is queued appends to what is pending.\<close>

lemma pending_app:
  assumes "out_inv c" "queued c' = queued c @ s" "out_only c c'" "length (cbuf c') = length (cbuf c)" "bufpos c' \<le> REDIS_REPLY_CHUNK_BYTES"
    "bufpos c' = 0 \<or> bufpos c \<le> bufpos c' \<and> (0 < bufpos c \<or> reply c = [])"
  shows "pending c' = pending c @ s \<and> out_inv c'"
proof -
  have sl: "sentlen c' = sentlen c" using assms(3) by (simp add: out_only_def)
  have "sentlen c \<le> bufpos c'" if "0 < bufpos c'"
    using that assms(1,6) by (auto simp: out_inv_def queued_def)
  then show ?thesis using assms sl by (auto simp: out_inv_def pending_def)
qed

lemma async_close_queued:
  fixes env c
  defines "c' \<equiv> asyncCloseClientOnOutputBufferLimitReached env c"
  shows "queued c' = queued c" "out_only c c'" "cbuf c' = cbuf c" "bufpos c' = bufpos c" "reply c' = reply c"
  unfolding c'_def by (auto simp: asyncCloseClientOnOutputBufferLimitReached_def freeClientAsync_def queued_def out_only_def)

lemma glue_reply_str: "concat (map chunk_str (glue_reply r s)) = concat (map chunk_str r) @ s"
proof (cases r rule: rev_cases)
  case Nil
  then show ?thesis by (simp add: glue_reply_def chunk_str_def)
next
  case (snoc q x)
  then show ?thesis by (cases x) (simp_all add: glue_reply_def chunk_str_def)
qed

lemma addReplyStringToList_spec:
  assumes "out_inv c" "REDIS_CLOSE_AFTER_REPLY \<notin> flags c"
  shows "pending (addReplyStringToList env c s) = pending c @ s \<and> out_inv (addReplyStringToList env c s) \<and>
    out_only c (addReplyStringToList env c s)"
proof -
  let ?c = "c\<lparr>reply := glue_reply (reply c) s\<rparr>"
  let ?d = "asyncCloseClientOnOutputBufferLimitReached env ?c"
  have d: "addReplyStringToList env c s = ?d" using assms(2) by (simp add: addReplyStringToList_def)
  have q: "queued ?c = queued c @ s" by (simp add: queued_def glue_reply_str)
  have o1: "out_only c ?d" using async_close_queued(2)[of ?c env] by (auto simp: out_only_def)
  have "pending ?d = pending c @ s \<and> out_inv ?d"
  proof (cases "0 < bufpos c")
    case True
    show ?thesis by (rule pending_app[OF assms(1) _ o1]) (use True q assms(1) in \<open>auto simp: async_close_queued out_inv_def\<close>)
  next
    case False
    show ?thesis by (rule pending_app[OF assms(1) _ o1]) (use False q assms(1) in \<open>auto simp: async_close_queued out_inv_def\<close>)
  qed
  then show ?thesis unfolding d using o1 by blast
qed

lemma list_variants: "addReplyObjectToList = addReplyStringToList" "addReplySdsToList = addReplyStringToList"
  by (intro ext, simp add: addReplyObjectToList_def addReplyStringToList_def addReplySdsToList_def)+

lemma addReplyToBuffer_spec:
  assumes "out_inv c" "REDIS_CLOSE_AFTER_REPLY \<notin> flags c"
  shows "\<exists>c' b. addReplyToBuffer c s = Some (c', b) \<and> out_only c c' \<and>
    (if b then pending c' = pending c @ s \<and> out_inv c' else c' = c)"
proof (cases "reply c = [] \<and> bufpos c + length s \<le> REDIS_REPLY_CHUNK_BYTES")
  case True
  obtain m where m: "m = take (bufpos c) (cbuf c) @ s @ drop (bufpos c + length s) (cbuf c)" by simp
  have mw: "mem_write (cbuf c) (bufpos c) s = Some m" using True assms(1) by (simp add: m mem_write_def out_inv_def)
  let ?c = "c\<lparr>cbuf := m, bufpos := bufpos c + length s\<rparr>"
  have l: "length (take (bufpos c) (cbuf c)) = bufpos c" using assms(1) by (simp add: out_inv_def)
  have q: "queued ?c = queued c @ s" using True l by (simp add: queued_def m)
  have o1: "out_only c ?c" by (simp add: out_only_def)
  have "pending ?c = pending c @ s \<and> out_inv ?c"
    by (rule pending_app[OF assms(1) q o1]) (use True length_mem_write[OF mw] in auto)
  then show ?thesis using True mw o1 assms(2) by (intro exI[of _ ?c] exI[of _ True]) (simp add: addReplyToBuffer_def)
next
  case False
  then have "addReplyToBuffer c s = Some (c, False)" using assms(2) by (auto simp: addReplyToBuffer_def)
  then show ?thesis by (intro exI[of _ c] exI[of _ False]) simp
qed

text \<open>The step common to all reply functions: try the buffer, else the list.\<close>

lemma reply_step:
  assumes "out_inv c" "takes_replies env c"
  shows "\<exists>c'. do { (c, ok) \<leftarrow> addReplyToBuffer c s; Some (if ok then c else addReplyStringToList env c s) } = Some c' \<and>
    out_inv c' \<and> takes_replies env c' \<and> pending c' = pending c @ s \<and> out_only c c'"
proof -
  have f: "REDIS_CLOSE_AFTER_REPLY \<notin> flags c" using assms(2) by (simp add: takes_replies_def)
  obtain c1 b where c1: "addReplyToBuffer c s = Some (c1, b)" "out_only c c1"
    "if b then pending c1 = pending c @ s \<and> out_inv c1 else c1 = c"
    using addReplyToBuffer_spec[OF assms(1) f] by blast
  show ?thesis
  proof (cases b)
    case True
    then show ?thesis using c1 out_only_takes[OF c1(2)] assms(2) by simp
  next
    case False
    then show ?thesis using c1 addReplyStringToList_spec[OF assms(1) f, of env s] out_only_takes[of c "addReplyStringToList env c s" env] assms(2)
      by simp
  qed
qed

lemma addReplyString_spec:
  assumes "out_inv c" "takes_replies env c"
  shows "\<exists>c'. addReplyString env c s = Some c' \<and> out_inv c' \<and> takes_replies env c' \<and> pending c' = pending c @ s \<and> out_only c c'"
proof -
  obtain w where w: "prepareClientToWrite env c = (c\<lparr>writable := w\<rparr>, True)" by (rule prepare_ok[OF assms(2)])
  let ?c = "c\<lparr>writable := w\<rparr>"
  have "out_inv ?c" "takes_replies env ?c" using assms by (simp_all add: takes_replies_def)
  from reply_step[OF this, of s] show ?thesis using w out_only_trans[of c ?c] by (auto simp: addReplyString_def)
qed

text \<open>Appending a reply, with everything a client of the operation needs to know.\<close>

definition appends :: "net_env \<Rightarrow> redisClient \<Rightarrow> string \<Rightarrow> redisClient option \<Rightarrow> bool" where
  "appends env c s r \<longleftrightarrow>
     (\<exists>c'. r = Some c' \<and> out_inv c' \<and> takes_replies env c' \<and> pending c' = pending c @ s \<and> out_only c c')"

lemma appends_bind:
  assumes "appends env c s r" "\<And>c'. out_inv c' \<Longrightarrow> takes_replies env c' \<Longrightarrow> appends env c' t (f c')"
  shows "appends env c (s @ t) (Option.bind r f)"
  using assms out_only_trans unfolding appends_def by fastforce

lemma appends_string: "out_inv c \<Longrightarrow> takes_replies env c \<Longrightarrow> appends env c s (addReplyString env c s)"
  using addReplyString_spec by (simp add: appends_def)

interpretation client_out: append_buffer "addReplyString env" pending "\<lambda>c. out_inv c \<and> takes_replies env c" limit for env limit
  using addReplyString_spec by unfold_locales blast

lemma appends_obj:
  assumes "out_inv c" "takes_replies env c" "obj_ok obj"
  shows "appends env c (obj_str obj) (addReply env junk c obj)"
proof -
  obtain w where w: "prepareClientToWrite env c = (c\<lparr>writable := w\<rparr>, True)" by (rule prepare_ok[OF assms(2)])
  let ?c = "c\<lparr>writable := w\<rparr>"
  have c: "out_inv ?c" "takes_replies env ?c" using assms by (simp_all add: takes_replies_def)
  have st: "appends env ?c t (do { (c, ok) \<leftarrow> addReplyToBuffer ?c t; Some (if ok then c else addReplyStringToList env c t) })" for t
    using reply_step[OF c] by (simp add: appends_def)
  have lift: "appends env ?c t r \<Longrightarrow> appends env c t r" for t r
    using out_only_trans[of c ?c] by (auto simp: appends_def)
  show ?thesis
  proof (cases obj)
    case (ENC_RAW t)
    then show ?thesis using lift[OF st[of t]] w unfolding addReply_def list_variants by simp
  next
    case (ENC_INT n)
    let ?t = "dec_int n"
    have it: "int_text junk 32 n = Some (?t @ NUL # drop (Suc (length ?t)) (map junk [0..<32]), length ?t)"
      using assms(3) ENC_INT by (intro int_text_spec) auto
    have dec: "getDecodedObject junk (ENC_INT n) = Some (ENC_RAW ?t)" using getDecodedObject_spec[OF assms(3)] ENC_INT by simp
    obtain c1 b where c1: "addReplyToBuffer ?c ?t = Some (c1, b)" "out_only ?c c1"
      "if b then pending c1 = pending ?c @ ?t \<and> out_inv c1 else c1 = ?c"
      using addReplyToBuffer_spec[OF c(1)] c(2) unfolding takes_replies_def by blast
    show ?thesis
    proof (cases b)
      case True
      have "appends env ?c ?t (Some c1)" using True c1 out_only_takes[OF c1(2)] c(2) by (simp add: appends_def)
      from lift[OF this] show ?thesis using True c1(1) w it dec ENC_INT
        unfolding addReply_def by (simp add: mem_read_def)
    next
      case False
      then show ?thesis using lift[OF st[of ?t]] c1 w it dec ENC_INT
        unfolding addReply_def list_variants by (simp add: mem_read_def)
    qed
  qed
qed

lemma appends_raw: "out_inv c \<Longrightarrow> takes_replies env c \<Longrightarrow> length s < 2 ^ 31 \<Longrightarrow> appends env c s (addReply env junk c (ENC_RAW s))"
  using appends_obj[of c env "ENC_RAW s"] by simp

subsection \<open>Protocol framing\<close>

definition resp_header :: "char \<Rightarrow> int \<Rightarrow> string" where
  "resp_header prefix n = prefix # dec_int n @ crlf"

definition resp_bulk :: "string \<Rightarrow> string" where
  "resp_bulk s = resp_header (CHR ''$'') (int (length s)) @ s @ crlf"

lemma dec_int_nat: "dec_int (int n) = dec_nat n"
  by (simp add: dec_int_def)

lemma appends_shared_hdr:
  assumes "out_inv c" "takes_replies env c" "0 \<le> n" "n < REDIS_SHARED_BULKHDR_LEN"
  shows "appends env c (resp_header prefix n) (do { hdr \<leftarrow> shared_hdr prefix n; addReply env junk c hdr })"
proof -
  have "nat n < 10 ^ 2" using assms(4) by (simp add: REDIS_SHARED_BULKHDR_LEN_def)
  from length_dec_nat_le[OF this] have "length (prefix # dec_nat (nat n) @ crlf) < 2 ^ 31" by (simp add: crlf_def)
  from appends_raw[OF assms(1,2) this] show ?thesis using assms(3,4)
    by (simp add: shared_hdr_def resp_header_def dec_int_def)
qed

lemma prefix_buffer:
  assumes "length t + 3 \<le> length (prefix # t @ NUL # rest)"
  shows "do { m \<leftarrow> arr_set (prefix # t @ NUL # rest) (int (length t) + 1) CR;
              m \<leftarrow> arr_set m (int (length t) + 2) LF;
              mem_read m 0 (length t + 3) } = Some (prefix # t @ crlf)"
proof -
  from assms obtain z rest' where r: "rest = z # rest'" by (cases rest) auto
  have "arr_set ((prefix # t) @ NUL # z # rest') (int (length t) + 1) CR = Some ((prefix # t) @ CR # z # rest')"
    by (rule arr_set_mid) simp
  moreover have "arr_set ((prefix # t @ [CR]) @ z # rest') (int (length t) + 2) LF = Some ((prefix # t @ [CR]) @ LF # rest')"
    by (rule arr_set_mid) simp
  ultimately show ?thesis unfolding r by (simp add: mem_read_def crlf_def numeral_3_eq_3)
qed

lemma prefix_string:
  assumes "\<not> ((prefix = CHR ''*'' \<or> prefix = CHR ''$'') \<and> sint ll < REDIS_SHARED_BULKHDR_LEN)"
  shows "addReplyLongLongWithPrefix env junk c ll prefix = addReplyString env c (resp_header prefix (sint ll))"
proof -
  let ?t = "dec_int (sint ll)" and ?m = "map junk [1..<128]"
  have l: "length ?t \<le> 20" by (rule length_dec_int_le_20[OF sint_u64_range])
  have ll: "ll2string ?m 127 ll = Some (?t @ NUL # drop (Suc (length ?t)) ?m, length ?t)"
    using ll2string_spec[of 127 ?m ll] l by (simp del: upt_rec_numeral)
  have "length ?t + 3 \<le> length (prefix # ?t @ NUL # drop (Suc (length ?t)) ?m)" using l by (simp del: upt_rec_numeral)
  from prefix_buffer[OF this] have b: "do { m \<leftarrow> arr_set (prefix # ?t @ NUL # drop (Suc (length ?t)) ?m) (int (length ?t) + 1) CR;
              m \<leftarrow> arr_set m (int (length ?t) + 2) LF;
              mem_read m 0 (length ?t + 3) } = Some (resp_header prefix (sint ll))" by (simp add: resp_header_def del: upt_rec_numeral)
  then show ?thesis
    using assms ll by (auto simp: addReplyLongLongWithPrefix_def bind_eq_Some_conv simp del: upt_rec_numeral)
qed

lemma appends_prefix:
  assumes "out_inv c" "takes_replies env c" "prefix \<in> {CHR ''*'', CHR ''$''} \<longrightarrow> 0 \<le> sint ll"
  shows "appends env c (resp_header prefix (sint ll)) (addReplyLongLongWithPrefix env junk c ll prefix)"
proof (cases "(prefix = CHR ''*'' \<or> prefix = CHR ''$'') \<and> sint ll < REDIS_SHARED_BULKHDR_LEN")
  case True
  then show ?thesis using appends_shared_hdr[OF assms(1,2), of "sint ll" prefix junk] assms(3)
    by (auto simp: addReplyLongLongWithPrefix_def)
next
  case False
  then show ?thesis using appends_string[OF assms(1,2)] by (simp add: prefix_string)
qed

lemma count_digits_spec: "count_digits n len + 1 = len + length (dec_nat n)"
proof (induction n len rule: count_digits.induct)
  case (1 n len)
  show ?case
  proof (cases "n < 10")
    case True
    then have "length (dec_nat n) = 1" by (subst dec_nat.simps) simp
    with True show ?thesis by (subst count_digits.simps) simp
  next
    case False
    then have "length (dec_nat n) = length (dec_nat (n div 10)) + 1" by (subst dec_nat.simps) simp
    with False 1 show ?thesis by (subst count_digits.simps) simp
  qed
qed

lemma bulk_len_spec:
  assumes "obj \<noteq> ENC_INT LONG_MIN"
  shows "bulk_len obj = Some (length (obj_str obj))"
proof (cases obj)
  case (ENC_INT n)
  then show ?thesis using assms count_digits_spec[of "nat (- n)" 2] count_digits_spec[of "nat n" 1]
    by (simp add: bulk_len_def dec_int_def)
qed (simp add: bulk_len_def)

lemma appends_bulk_len:
  assumes "out_inv c" "takes_replies env c" "obj_ok obj" "obj \<noteq> ENC_INT LONG_MIN"
  shows "appends env c (resp_header (CHR ''$'') (int (length (obj_str obj)))) (addReplyBulkLen env junk c obj)"
proof -
  let ?n = "length (obj_str obj)"
  have "sint (of_nat ?n :: u64) = int ?n" using length_obj_str[OF assms(3)] by (intro sint_of_nat_u64) simp
  then show ?thesis
    using appends_shared_hdr[OF assms(1,2), of "int ?n" "CHR ''$''" junk] appends_prefix[OF assms(1,2), of "CHR ''$''" "of_nat ?n" junk] bulk_len_spec[OF assms(4)]
    by (simp add: addReplyBulkLen_def)
qed

lemma appends_bulk:
  assumes "out_inv c" "takes_replies env c" "obj_ok obj" "obj \<noteq> ENC_INT LONG_MIN"
  shows "appends env c (resp_bulk (obj_str obj)) (addReplyBulk env junk c obj)"
  unfolding addReplyBulk_def resp_bulk_def using assms
  by (intro appends_bind appends_bulk_len appends_obj appends_raw) (simp_all add: crlf_def)

lemma appends_bulk_buffer:
  assumes "out_inv c" "takes_replies env c" "length p < 2 ^ 63"
  shows "appends env c (resp_bulk p) (addReplyBulkCBuffer env junk c p)"
proof -
  have n: "sint (of_nat (length p) :: u64) = int (length p)" using assms(3) by (rule sint_of_nat_u64)
  have h: "appends env c (resp_header (CHR ''$'') (int (length p))) (addReplyLongLongWithPrefix env junk c (of_nat (length p)) (CHR ''$''))"
    using appends_prefix[OF assms(1,2), of "CHR ''$''" "of_nat (length p)" junk] by (simp only: n) simp
  show ?thesis unfolding addReplyBulkCBuffer_def resp_bulk_def
    by (intro appends_bind h appends_string appends_raw) (simp_all add: crlf_def)
qed

lemma appends_longlong:
  assumes "out_inv c" "takes_replies env c"
  shows "appends env c (resp_header (CHR '':'') (sint ll)) (addReplyLongLong env junk c ll)"
proof -
  have d: "resp_header (CHR '':'') 0 = '':0'' @ crlf" "resp_header (CHR '':'') 1 = '':1'' @ crlf"
    by (simp_all add: resp_header_def dec_int_def dec_nat.simps[of "Suc 0"] digit_char_def char_of_def bit_simps)
  show ?thesis
    using appends_raw[OF assms, of "'':0'' @ crlf" junk] appends_raw[OF assms, of "'':1'' @ crlf" junk] appends_prefix[OF assms, of "CHR '':''" ll junk] d
    by (auto simp: addReplyLongLong_def crlf_def)
qed

lemma appends_mbulk_len:
  assumes "out_inv c" "takes_replies env c" "0 \<le> sint n"
  shows "appends env c (resp_header (CHR ''*'') (sint n)) (addReplyMultiBulkLen env junk c n)"
  using appends_shared_hdr[OF assms(1,2), of "sint n" "CHR ''*''" junk] appends_prefix[OF assms(1,2), of "CHR ''*''" n junk] assms(3)
  by (auto simp: addReplyMultiBulkLen_def)

lemma appends_error:
  "out_inv c \<Longrightarrow> takes_replies env c \<Longrightarrow> appends env c (''-ERR '' @ s @ crlf) (addReplyErrorLength env c s)"
  unfolding addReplyErrorLength_def by (intro appends_bind appends_string)

lemma appends_status:
  "out_inv c \<Longrightarrow> takes_replies env c \<Longrightarrow> appends env c (''+'' @ s @ crlf) (addReplyStatusLength env c s)"
  unfolding addReplyStatusLength_def by (intro appends_bind appends_string)

subsection \<open>Deferred lengths\<close>

text \<open>Between the two calls: the empty object stands behind what was queued before.\<close>

definition deferred :: "redisClient \<Rightarrow> string \<Rightarrow> redisClient \<Rightarrow> bool" where
  "deferred c0 es c \<longleftrightarrow> (\<exists>rest. reply c = reply c0 @ None # rest \<and> concat (map chunk_str rest) = es) \<and>
     bufpos c = bufpos c0 \<and> cbuf c = cbuf c0 \<and> out_only c0 c"

lemma glue_after_None: "\<exists>rest'. glue_reply (r @ None # rest) s = r @ None # rest' \<and> concat (map chunk_str rest') = concat (map chunk_str rest) @ s"
proof (cases rest rule: rev_cases)
  case Nil
  then show ?thesis by (simp add: glue_reply_def chunk_str_def)
next
  case (snoc q x)
  then show ?thesis by (cases x) (simp_all add: glue_reply_def chunk_str_def butlast_append)
qed

lemma deferred_string:
  assumes "deferred c0 es c" "takes_replies env c"
  shows "\<exists>c'. addReplyString env c s = Some c' \<and> deferred c0 (es @ s) c' \<and> takes_replies env c'"
proof -
  obtain w where w: "prepareClientToWrite env c = (c\<lparr>writable := w\<rparr>, True)" by (rule prepare_ok[OF assms(2)])
  let ?c = "c\<lparr>writable := w, reply := glue_reply (reply c) s\<rparr>"
  let ?d = "asyncCloseClientOnOutputBufferLimitReached env ?c"
  have f: "REDIS_CLOSE_AFTER_REPLY \<notin> flags c" using assms(2) by (simp add: takes_replies_def)
  have r: "reply c \<noteq> []" using assms(1) by (auto simp: deferred_def)
  have e: "addReplyString env c s = Some ?d" using w f r
    by (simp add: addReplyString_def addReplyToBuffer_def addReplyStringToList_def)
  have o1: "out_only c ?d" using async_close_queued(2)[of ?c env] by (auto simp: out_only_def)
  obtain rest where "reply c = reply c0 @ None # rest" "concat (map chunk_str rest) = es" using assms(1) by (auto simp: deferred_def)
  with glue_after_None[of "reply c0" rest s] have "deferred c0 (es @ s) ?d"
    using assms(1) o1 out_only_trans[of c0 c ?d] by (auto simp: deferred_def async_close_queued)
  then show ?thesis using e out_only_takes[OF o1, of env] assms(2) by simp
qed

lemma deferred_loop:
  "deferred c0 es c \<Longrightarrow> takes_replies env c \<Longrightarrow>
   \<exists>c'. app_loop (addReplyString env) c xs = Some c' \<and> deferred c0 (es @ concat xs) c' \<and> takes_replies env c'"
proof (induction xs arbitrary: c es)
  case (Cons x xs)
  from deferred_string[OF Cons.prems, of x] obtain c1 where c1: "addReplyString env c x = Some c1" "deferred c0 (es @ x) c1" "takes_replies env c1"
    by blast
  from Cons.IH[OF c1(2,3)] c1(1) show ?case by simp
qed auto

lemma deferred_start:
  assumes "takes_replies env c"
  shows "\<exists>c'. addDeferredMultiBulkLength env c = (c', Some (length (reply c))) \<and> deferred c [] c' \<and> takes_replies env c'"
proof -
  obtain w where w: "prepareClientToWrite env c = (c\<lparr>writable := w\<rparr>, True)" by (rule prepare_ok[OF assms])
  then show ?thesis using assms
    by (simp add: addDeferredMultiBulkLength_def deferred_def out_only_def takes_replies_def)
qed

lemma deferred_finish:
  assumes "deferred c0 es c" "out_inv c0"
  shows "\<exists>c'. setDeferredMultiBulkLength env c (Some (length (reply c0))) n = Some c' \<and>
    pending c' = pending c0 @ resp_header (CHR ''*'') n @ es \<and> out_inv c' \<and> out_only c0 c'"
proof -
  obtain rest where r: "reply c = reply c0 @ None # rest" "concat (map chunk_str rest) = es" using assms(1) by (auto simp: deferred_def)
  let ?h = "CHR ''*'' # dec_int n @ crlf"
  obtain r' where r': "setDeferredMultiBulkLength env c (Some (length (reply c0))) n =
      Some (asyncCloseClientOnOutputBufferLimitReached env (c\<lparr>reply := r'\<rparr>))" "concat (map chunk_str r') = concat (map chunk_str (reply c0)) @ ?h @ es"
  proof (cases rest)
    case Nil
    then show ?thesis using that[of "reply c0 @ [Some ?h]"] r by (simp add: setDeferredMultiBulkLength_def chunk_str_def)
  next
    case (Cons x xs)
    then show ?thesis
      using that[of "reply c0 @ Some ?h # rest"] that[of "reply c0 @ Some (?h @ chunk_str x) # xs"] r
      by (cases x) (simp_all add: setDeferredMultiBulkLength_def chunk_str_def nth_append)
  qed
  let ?d = "asyncCloseClientOnOutputBufferLimitReached env (c\<lparr>reply := r'\<rparr>)"
  have b: "bufpos c = bufpos c0" "cbuf c = cbuf c0" "out_only c0 c" using assms(1) by (simp_all add: deferred_def)
  have q: "queued ?d = queued c0 @ ?h @ es" using r'(2) b by (simp add: async_close_queued) (simp add: queued_def)
  have o1: "out_only c0 ?d" using async_close_queued(2)[of "c\<lparr>reply := r'\<rparr>" env] b(3) by (auto simp: out_only_def)
  have "pending ?d = pending c0 @ (?h @ es) \<and> out_inv ?d"
    by (rule pending_app[OF assms(2) q o1]) (use assms(2) b in \<open>auto simp: async_close_queued out_inv_def\<close>)
  then show ?thesis using r'(1) o1 by (simp add: resp_header_def)
qed

subsection \<open>Sending with \<open>write\<close>\<close>

definition write_contract :: "(nat \<Rightarrow> nat \<Rightarrow> int) \<Rightarrow> bool" where
  "write_contract wr \<longleftrightarrow> (\<forall>k n. wr k n \<le> int n)"

text \<open>No length is missing, and a position inside the list is inside its first object.\<close>

definition send_inv :: "redisClient \<Rightarrow> bool" where
  "send_inv c \<longleftrightarrow> out_inv c \<and> None \<notin> set (reply c) \<and>
     (0 < bufpos c \<longrightarrow> sentlen c < bufpos c) \<and>
     (bufpos c = 0 \<and> reply c \<noteq> [] \<longrightarrow> sentlen c = 0 \<or> sentlen c < length (chunk_str (hd (reply c))))"

lemma send_inv_buffer:
  assumes "send_inv c" "0 < bufpos c" "0 < n" "sentlen c + n \<le> bufpos c"
  defines "c1 \<equiv> c\<lparr>sentlen := sentlen c + n\<rparr>"
  defines "c' \<equiv> (if sentlen c1 = bufpos c1 then c1\<lparr>bufpos := 0, sentlen := 0\<rparr> else c1)"
  shows "mem_read (cbuf c) (sentlen c) n = Some (take n (pending c))" "pending c' = drop n (pending c)" "send_inv c'"
    "length (reply c') \<le> length (reply c)" "length (pending c') + n = length (pending c)" "flags c' = flags c"
proof -
  have l: "length (take (bufpos c) (cbuf c)) = bufpos c" "bufpos c \<le> length (cbuf c)" using assms(1) by (auto simp: send_inv_def out_inv_def)
  have "pending c = take (bufpos c - sentlen c) (drop (sentlen c) (cbuf c)) @ concat (map chunk_str (reply c))"
    using assms(4) l by (simp add: pending_def queued_def drop_take)
  then have "take n (pending c) = take n (drop (sentlen c) (cbuf c))" using assms(4) l(2) by simp
  then show "mem_read (cbuf c) (sentlen c) n = Some (take n (pending c))"
    using assms(4) l by (simp add: mem_read_def)
  show p: "pending c' = drop n (pending c)" unfolding c'_def c1_def using assms(4) l
    by (auto simp: pending_def queued_def add.commute)
  show "send_inv c'" unfolding c'_def c1_def using assms(1-4) l by (auto simp: send_inv_def out_inv_def queued_def)
  show "length (reply c') \<le> length (reply c)" "flags c' = flags c" by (simp_all add: c'_def c1_def)
  have "n \<le> length (pending c)" using assms(4) l by (simp add: pending_def queued_def)
  then show "length (pending c') + n = length (pending c)" by (simp add: p)
qed

lemma send_inv_object:
  assumes "send_inv c" "bufpos c = 0" "reply c = Some t # r" "0 < n" "sentlen c + n \<le> length t"
  defines "c1 \<equiv> c\<lparr>sentlen := sentlen c + n\<rparr>"
  defines "c' \<equiv> (if sentlen c1 = length t then c1\<lparr>reply := tl (reply c1), sentlen := 0\<rparr> else c1)"
  shows "mem_read t (sentlen c) n = Some (take n (pending c))" "pending c' = drop n (pending c)" "send_inv c'"
    "length (reply c') \<le> length (reply c)" "length (pending c') + n = length (pending c)" "flags c' = flags c"
proof -
  show "mem_read t (sentlen c) n = Some (take n (pending c))"
    using assms(2,3,5) by (simp add: mem_read_def pending_def queued_def chunk_str_def)
  show p: "pending c' = drop n (pending c)" unfolding c'_def c1_def using assms(2,3,5)
    by (auto simp: pending_def queued_def chunk_str_def add.commute)
  show "send_inv c'" unfolding c'_def c1_def using assms(1-5) by (auto simp: send_inv_def out_inv_def queued_def chunk_str_def)
  show "length (reply c') \<le> length (reply c)" "flags c' = flags c" by (simp_all add: c'_def c1_def)
  have "n \<le> length (pending c)" using assms(2,3,5) by (simp add: pending_def queued_def chunk_str_def)
  then show "length (pending c') + n = length (pending c)" by (simp add: p)
qed

lemma send_inv_empty:
  assumes "send_inv c" "bufpos c = 0" "reply c = Some [] # r"
  shows "send_inv (c\<lparr>reply := r\<rparr>)" "pending (c\<lparr>reply := r\<rparr>) = pending c"
  using assms by (auto simp: send_inv_def out_inv_def queued_def pending_def chunk_str_def)

text \<open>The loop returns whatever \<open>write\<close> does, and has written a prefix of what was pending.\<close>

definition posix_result :: "(nat \<Rightarrow> nat \<Rightarrow> int) \<Rightarrow> bool \<Rightarrow> redisClient \<Rightarrow> string \<Rightarrow> (redisClient \<times> nat \<times> nat \<times> string \<times> int) option \<Rightarrow> bool" where
  "posix_result wr capped c sent r \<longleftrightarrow> (\<exists>c' k tot d nw. r = Some (c', k, tot, sent @ d, nw) \<and> d @ pending c' = pending c \<and> send_inv c' \<and>
     flags c' = flags c \<and> (\<not> capped \<and> (\<forall>k n. 0 < n \<longrightarrow> 0 < wr k n) \<longrightarrow> bufpos c' = 0 \<and> reply c' = []))"

lemma posix_result_step:
  assumes "posix_result wr capped c' (sent @ take n (pending c)) r" "pending c' = drop n (pending c)" "flags c' = flags c"
  shows "posix_result wr capped c sent r"
proof -
  from assms(1) obtain c2 k tot d nw where r: "r = Some (c2, k, tot, (sent @ take n (pending c)) @ d, nw)" "d @ pending c2 = pending c'"
    "send_inv c2" "flags c2 = flags c'" "\<not> capped \<and> (\<forall>k n. 0 < n \<longrightarrow> 0 < wr k n) \<longrightarrow> bufpos c2 = 0 \<and> reply c2 = []"
    unfolding posix_result_def by blast
  have "(take n (pending c) @ d) @ pending c2 = pending c" using r(2) assms(2) by (metis append.assoc append_take_drop_id)
  then show ?thesis using r assms(3) unfolding posix_result_def by (intro exI[of _ c2] exI[of _ k] exI[of _ tot] exI[of _ "take n (pending c) @ d"] exI[of _ nw]) auto
qed

lemma posix_result_stop:
  assumes "send_inv c" "capped \<or> \<not> (\<forall>k n. 0 < n \<longrightarrow> 0 < wr k n) \<or> bufpos c = 0 \<and> reply c = []"
  shows "posix_result wr capped c sent (Some (c, k, tot, sent, nw))"
  using assms unfolding posix_result_def by (intro exI[of _ c] exI[of _ k] exI[of _ tot] exI[of _ "[]"] exI[of _ nw]) auto

lemma posix_loop_spec:
  assumes "send_inv c" "write_contract wr"
  shows "posix_result wr capped c sent (posix_loop wr capped c k tot sent nw)"
  using assms(1)
proof (induction "length (pending c) + length (reply c)" arbitrary: c k tot sent nw rule: less_induct)
  case less
  have w: "wr k n \<le> int n" for k n using assms(2) by (simp add: write_contract_def)
  show ?case
  proof (cases "0 < bufpos c")
    case True
    let ?n = "bufpos c - sentlen c"
    have sl: "sentlen c < bufpos c" using less.prems True by (simp add: send_inv_def)
    show ?thesis
    proof (cases "wr k ?n \<le> 0")
      case stop: True
      then have "\<not> (\<forall>k n. 0 < n \<longrightarrow> 0 < wr k n)" using sl by (metis diff_is_0_eq' not_le not_less_iff_gr_or_eq zero_less_diff)
      then show ?thesis using posix_result_stop[OF less.prems] True sl stop by (subst posix_loop.simps) simp
    next
      case False
      let ?m = "nat (wr k ?n)"
      let ?c1 = "c\<lparr>sentlen := sentlen c + ?m\<rparr>"
      let ?c' = "if sentlen ?c1 = bufpos ?c1 then ?c1\<lparr>bufpos := 0, sentlen := 0\<rparr> else ?c1"
      have m: "0 < ?m" "sentlen c + ?m \<le> bufpos c" using False w[of k ?n] sl by linarith+
      note st = send_inv_buffer[OF less.prems True m]
      have "posix_loop wr capped c k tot sent nw =
          (if REDIS_MAX_WRITE_PER_EVENT < tot + ?m \<and> capped then Some (?c', k + 1, tot + ?m, sent @ take ?m (pending c), wr k ?n)
           else posix_loop wr capped ?c' (k + 1) (tot + ?m) (sent @ take ?m (pending c)) (wr k ?n))"
        using True sl False st(1) by (subst posix_loop.simps) (simp add: Let_def)
      moreover have "length (pending ?c') + length (reply ?c') < length (pending c) + length (reply c)" using st(4,5) m(1) by linarith
      ultimately show ?thesis
        using posix_result_step[OF _ st(2) st(6)] posix_result_stop[OF st(3)] less.hyps[OF _ st(3)] by auto
    qed
  next
    case False
    then have b0: "bufpos c = 0" by simp
    show ?thesis
    proof (cases "reply c")
      case Nil
      then show ?thesis using posix_result_stop[OF less.prems] b0 by (subst posix_loop.simps) simp
    next
      case (Cons x r)
      then obtain t where x: "reply c = Some t # r" using less.prems by (cases x) (auto simp: send_inv_def)
      show ?thesis
      proof (cases "t = []")
        case True
        note e = send_inv_empty[OF less.prems b0 x[unfolded True]]
        have "posix_result wr capped (c\<lparr>reply := r\<rparr>) sent (posix_loop wr capped (c\<lparr>reply := r\<rparr>) k tot sent nw)"
          by (rule less.hyps[OF _ e(1)]) (simp add: e(2) x)
        moreover have "posix_loop wr capped c k tot sent nw = posix_loop wr capped (c\<lparr>reply := r\<rparr>) k tot sent nw"
          using b0 x True by (subst posix_loop.simps) simp
        ultimately show ?thesis using posix_result_step[of wr capped "c\<lparr>reply := r\<rparr>" sent 0 c] e(2) by simp
      next
        case tn: False
        let ?n = "length t - sentlen c"
        have sl: "sentlen c < length t" using less.prems b0 x tn by (auto simp: send_inv_def chunk_str_def)
        show ?thesis
        proof (cases "wr k ?n \<le> 0")
          case stop: True
          then have "\<not> (\<forall>k n. 0 < n \<longrightarrow> 0 < wr k n)" using sl by (metis diff_is_0_eq' not_le not_less_iff_gr_or_eq zero_less_diff)
          then show ?thesis using posix_result_stop[OF less.prems] b0 x tn sl stop by (subst posix_loop.simps) simp
        next
          case go: False
          let ?m = "nat (wr k ?n)"
          let ?c1 = "c\<lparr>sentlen := sentlen c + ?m\<rparr>"
          let ?c' = "if sentlen ?c1 = length t then ?c1\<lparr>reply := tl (reply ?c1), sentlen := 0\<rparr> else ?c1"
          have m: "0 < ?m" "sentlen c + ?m \<le> length t" using go w[of k ?n] sl by linarith+
          note st = send_inv_object[OF less.prems b0 x m]
          have "posix_loop wr capped c k tot sent nw =
              (if REDIS_MAX_WRITE_PER_EVENT < tot + ?m \<and> capped then Some (?c', k + 1, tot + ?m, sent @ take ?m (pending c), wr k ?n)
               else posix_loop wr capped ?c' (k + 1) (tot + ?m) (sent @ take ?m (pending c)) (wr k ?n))"
            using b0 x tn sl go st(1) by (subst posix_loop.simps) (simp add: Let_def)
          moreover have "length (pending ?c') + length (reply ?c') < length (pending c) + length (reply c)" using st(4,5) m(1) by linarith
          ultimately show ?thesis
            using posix_result_step[OF _ st(2) st(6)] posix_result_stop[OF st(3)] less.hyps[OF _ st(3)] by auto
        qed
      qed
    qed
  qed
qed

subsection \<open>Overlapped sends\<close>

fun req_str :: "send_req \<Rightarrow> string" where
  "req_str (Buf_req st xs) = xs"
| "req_str (Obj_req xs) = xs"

text \<open>
  The requests that are under way, oldest first: those of the static buffer lie one behind the
  other below \<open>sentlen\<close>, and the buffer still holds the bytes they were made for.
\<close>

fun flight_ok :: "nat \<Rightarrow> redisClient \<Rightarrow> send_req list \<Rightarrow> bool" where
  "flight_ok lo c [] \<longleftrightarrow> lo \<le> sentlen c"
| "flight_ok lo c (Obj_req xs # fl) \<longleftrightarrow> flight_ok lo c fl"
| "flight_ok lo c (Buf_req st xs # fl) \<longleftrightarrow> lo \<le> st \<and> xs \<noteq> [] \<and> take (length xs) (drop st (cbuf c)) = xs \<and> flight_ok (st + length xs) c fl"

lemma flight_ok_le: "flight_ok lo c fl \<Longrightarrow> lo \<le> sentlen c"
  by (induction lo c fl rule: flight_ok.induct) auto

lemma flight_weaken: "flight_ok k c fl \<Longrightarrow> lo \<le> k \<Longrightarrow> flight_ok lo c fl"
  by (induction k c fl arbitrary: lo rule: flight_ok.induct) auto

lemma flight_ok_app:
  assumes "flight_ok lo c fl" "flight_ok (sentlen c) c' d" "take (sentlen c) (cbuf c') = take (sentlen c) (cbuf c)"
  shows "flight_ok lo c' (fl @ d)"
  using assms
proof (induction lo c fl rule: flight_ok.induct)
  case (1 lo c)
  then show ?case using flight_weaken[of "sentlen c" c' d lo] by simp
next
  case (3 lo c st xs fl)
  from "3.prems"(1) flight_ok_le[of "st + length xs" c fl] have le: "st + length xs \<le> sentlen c" by simp
  have "take (length xs) (drop st m) = drop st (take (st + length xs) (take (sentlen c) m))" for m
    using le by (simp add: drop_take)
  with "3.prems" have "take (length xs) (drop st (cbuf c')) = xs" by (metis flight_ok.simps(3))
  with 3 show ?case by simp
qed simp

lemma flight_ok_keep:
  assumes "flight_ok lo c fl" "sentlen c \<le> sentlen c'" "take (sentlen c) (cbuf c') = take (sentlen c) (cbuf c)"
  shows "flight_ok lo c' fl"
  using flight_ok_app[OF assms(1) _ assms(3), of "[]"] assms(2) by simp

lemma flight_no_buffer: "flight_ok lo c fl \<Longrightarrow> sentlen c \<le> lo \<Longrightarrow> flight_ok k c' fl \<longleftrightarrow> k \<le> sentlen c'"
proof (induction lo c fl rule: flight_ok.induct)
  case (3 lo c st xs fl)
  from "3.prems" flight_ok_le[of "st + length xs" c fl] have "xs \<noteq> []" "lo \<le> st" "st + length xs \<le> sentlen c" by simp_all
  with "3.prems"(2) show ?case by (cases xs) auto
qed auto

definition iocp_inv :: "redisClient \<Rightarrow> bool" where
  "iocp_inv c \<longleftrightarrow> out_inv c \<and> sentlen c \<le> bufpos c \<and> None \<notin> set (reply c)"

lemma iocp_pending: "iocp_inv c \<Longrightarrow> pending c = take (bufpos c - sentlen c) (drop (sentlen c) (cbuf c)) @ concat (map chunk_str (reply c))"
  by (simp add: iocp_inv_def out_inv_def pending_def queued_def drop_take)

definition iocp_result :: "redisClient \<Rightarrow> send_req list \<Rightarrow> (redisClient option \<times> send_req list) option \<Rightarrow> bool" where
  "iocp_result c reqs r \<longleftrightarrow> (\<exists>oc d. r = Some (oc, reqs @ d) \<and>
     (\<forall>c'. oc = Some c' \<longrightarrow> iocp_inv c' \<and> concat (map req_str d) @ pending c' = pending c \<and> flight_ok (sentlen c) c' d \<and>
        cbuf c' = cbuf c \<and> bufpos c' = bufpos c \<and> flags c' = flags c))"

lemma iocp_result_stop: "iocp_inv c \<Longrightarrow> iocp_result c reqs (Some (Some c, reqs))"
  by (auto simp: iocp_result_def)

lemma iocp_result_freed: "iocp_result c reqs (Some (None, reqs))"
  by (auto simp: iocp_result_def)

lemma iocp_result_step:
  assumes "iocp_result c1 (reqs @ [q]) r" "req_str q @ pending c1 = pending c" "cbuf c1 = cbuf c" "bufpos c1 = bufpos c" "flags c1 = flags c"
    "\<And>c' d. flight_ok (sentlen c1) c' d \<Longrightarrow> cbuf c' = cbuf c \<Longrightarrow> flight_ok (sentlen c) c' (q # d)"
  shows "iocp_result c reqs r"
proof -
  from assms(1) obtain oc d where r: "r = Some (oc, (reqs @ [q]) @ d)" and
    c': "\<And>c'. oc = Some c' \<Longrightarrow> iocp_inv c' \<and> concat (map req_str d) @ pending c' = pending c1 \<and> flight_ok (sentlen c1) c' d \<and>
        cbuf c' = cbuf c1 \<and> bufpos c' = bufpos c1 \<and> flags c' = flags c1"
    unfolding iocp_result_def by blast
  have "iocp_inv c' \<and> concat (map req_str (q # d)) @ pending c' = pending c \<and> flight_ok (sentlen c) c' (q # d) \<and>
      cbuf c' = cbuf c \<and> bufpos c' = bufpos c \<and> flags c' = flags c" if "oc = Some c'" for c'
    using c'[OF that] assms(2-5) assms(6)[of c' d] by simp
  then show ?thesis unfolding iocp_result_def using r by (intro exI[of _ oc] exI[of _ "q # d"]) simp
qed

lemma iocp_loop_spec:
  "iocp_inv c \<Longrightarrow> iocp_result c reqs (iocp_loop acc capped c k tot reqs)"
proof (induction "(if sentlen c < bufpos c then 1 else 0) + length (reply c)" arbitrary: c k tot reqs rule: less_induct)
  case less
  show ?case
  proof (cases "sentlen c < bufpos c")
    case True
    let ?xs = "take (bufpos c - sentlen c) (drop (sentlen c) (cbuf c))"
    let ?c = "c\<lparr>sentlen := bufpos c\<rparr>"
    have rd: "mem_read (cbuf c) (sentlen c) (bufpos c - sentlen c) = Some ?xs"
      using less.prems True by (simp add: mem_read_def iocp_inv_def out_inv_def)
    have inv: "iocp_inv ?c" using less.prems by (auto simp: iocp_inv_def out_inv_def queued_def)
    have lx: "length ?xs = bufpos c - sentlen c" using less.prems by (auto simp: iocp_inv_def out_inv_def)
    have p: "?xs @ pending ?c = pending c" using iocp_pending[OF less.prems] iocp_pending[OF inv] by simp
    have fl: "flight_ok (sentlen c) c' (Buf_req (sentlen c) ?xs # d)" if "flight_ok (sentlen ?c) c' d" "cbuf c' = cbuf c" for c' d
      using that True lx by auto
    have IH: "iocp_result ?c (reqs @ [Buf_req (sentlen c) ?xs]) (iocp_loop acc capped ?c (k + 1) tot' (reqs @ [Buf_req (sentlen c) ?xs]))" for tot'
      by (rule less.hyps[OF _ inv]) (use True in simp)
    have st: "iocp_result c reqs r" if a: "iocp_result ?c (reqs @ [Buf_req (sentlen c) ?xs]) r" for r
    proof (rule iocp_result_step[OF a])
      show "req_str (Buf_req (sentlen c) ?xs) @ pending ?c = pending c" using p by simp
    qed (use fl in simp_all)
    show ?thesis using True rd st[OF IH] st[OF iocp_result_stop[OF inv]] iocp_result_freed[of c reqs]
      by (subst iocp_loop.simps) (simp add: Let_def)
  next
    case nb: False
    show ?thesis
    proof (cases "reply c")
      case Nil
      then show ?thesis using nb iocp_result_stop[OF less.prems] by (subst iocp_loop.simps) simp
    next
      case (Cons x r)
      then obtain t where x: "reply c = Some t # r" using less.prems by (cases x) (auto simp: iocp_inv_def)
      let ?c = "c\<lparr>reply := r\<rparr>"
      have inv: "iocp_inv ?c" using less.prems x by (auto simp: iocp_inv_def out_inv_def queued_def)
      have p: "t @ pending ?c = pending c" using iocp_pending[OF less.prems] iocp_pending[OF inv] x nb by (simp add: chunk_str_def)
      have IH: "iocp_result ?c rq (iocp_loop acc capped ?c k' tot' rq)" for k' tot' rq
        by (rule less.hyps[OF _ inv]) (use nb x in simp)
      have st: "iocp_result c reqs q" if a: "iocp_result ?c (reqs @ [Obj_req t]) q" for q
        by (rule iocp_result_step[OF a]) (use p in simp_all)
      have em: "t = [] \<Longrightarrow> iocp_result ?c reqs q \<Longrightarrow> iocp_result c reqs q" for q
        using p by (simp add: iocp_result_def)
      show ?thesis using nb x st[OF IH] st[OF iocp_result_stop[OF inv]] em[OF _ IH] iocp_result_freed[of c reqs]
        by (subst iocp_loop.simps) (simp add: Let_def)
    qed
  qed
qed

subsection \<open>A connection as a state machine\<close>

text \<open>
  Replies are added, the write handler runs, and completions are reported, in any order; the sends
  of one socket complete in the order they were made.  \<open>handed\<close> is what was given to the socket and
  \<open>accepted\<close> what was added by replies since the start.
\<close>

record conn =
  conn_client :: redisClient
  in_flight :: "send_req list"
  handed :: string
  accepted :: string

inductive conn_step :: "net_env \<Rightarrow> conn \<Rightarrow> conn \<Rightarrow> bool" for env where
  conn_reply: "takes_replies env (conn_client s) \<Longrightarrow> addReplyString env (conn_client s) xs = Some c \<Longrightarrow>
     conn_step env s (s\<lparr>conn_client := c, accepted := accepted s @ xs\<rparr>)"
| conn_send: "sendReplyToClient acc capped (conn_client s) = Some (Some c, reqs) \<Longrightarrow>
     conn_step env s (s\<lparr>conn_client := c, in_flight := in_flight s @ reqs, handed := handed s @ concat (map req_str reqs)\<rparr>)"
| conn_buf_done: "in_flight s = Buf_req st xs # fl \<Longrightarrow>
     conn_step env s (s\<lparr>conn_client := sendReplyBufferDone (conn_client s) (st + length xs), in_flight := fl\<rparr>)"
| conn_obj_done: "in_flight s = Obj_req xs # fl \<Longrightarrow>
     conn_step env s (s\<lparr>conn_client := sendReplyListDone (conn_client s), in_flight := fl\<rparr>)"

definition conn_inv :: "conn \<Rightarrow> bool" where
  "conn_inv s \<longleftrightarrow> iocp_inv (conn_client s) \<and> flight_ok 0 (conn_client s) (in_flight s) \<and>
     handed s @ pending (conn_client s) = accepted s"

lemma glue_no_None: "None \<notin> set r \<Longrightarrow> None \<notin> set (glue_reply r s)"
  by (auto simp: glue_reply_def split: option.splits dest: in_set_butlastD)

lemma addReplyString_frame:
  assumes "out_inv c" "takes_replies env c" "addReplyString env c s = Some c'"
  shows "bufpos c \<le> bufpos c' \<and> take (bufpos c) (cbuf c') = take (bufpos c) (cbuf c) \<and> (None \<notin> set (reply c) \<longrightarrow> None \<notin> set (reply c'))"
proof -
  obtain w where w: "prepareClientToWrite env c = (c\<lparr>writable := w\<rparr>, True)" by (rule prepare_ok[OF assms(2)])
  let ?c = "c\<lparr>writable := w\<rparr>"
  obtain c1 b where c1: "addReplyToBuffer ?c s = Some (c1, b)" "c' = (if b then c1 else addReplyStringToList env c1 s)"
    using assms(3) w by (auto simp: addReplyString_def bind_eq_Some_conv)
  have f: "REDIS_CLOSE_AFTER_REPLY \<notin> flags c" using assms(2) by (simp add: takes_replies_def)
  have "bufpos c \<le> bufpos c1 \<and> take (bufpos c) (cbuf c1) = take (bufpos c) (cbuf c) \<and> reply c1 = reply c \<and> flags c1 = flags c"
    using c1(1) f assms(1) by (auto simp: addReplyToBuffer_def mem_write_def out_inv_def bind_eq_Some_conv split: if_splits)
  then show ?thesis using c1(2) glue_no_None[of "reply c" s]
    by (auto simp: addReplyStringToList_def async_close_queued)
qed

lemma send_finished_same:
  "cbuf (send_finished c) = cbuf c" "bufpos (send_finished c) = bufpos c" "sentlen (send_finished c) = sentlen c" "reply (send_finished c) = reply c"
  by (auto simp: send_finished_def Let_def freeClientAsync_def)

lemma send_finished_inv: "iocp_inv (send_finished c) = iocp_inv c" "pending (send_finished c) = pending c"
  by (simp_all add: iocp_inv_def out_inv_def queued_def pending_def send_finished_same)

lemma flight_same: "cbuf c' = cbuf c \<Longrightarrow> sentlen c' = sentlen c \<Longrightarrow> flight_ok lo c' fl \<longleftrightarrow> flight_ok lo c fl"
  by (induction lo c fl rule: flight_ok.induct) auto

lemma conn_inv_reply:
  assumes "conn_inv s" "takes_replies env (conn_client s)" "addReplyString env (conn_client s) xs = Some c"
  shows "conn_inv (s\<lparr>conn_client := c, accepted := accepted s @ xs\<rparr>)"
proof -
  let ?c = "conn_client s"
  have i: "out_inv ?c" "sentlen ?c \<le> bufpos ?c" "None \<notin> set (reply ?c)" using assms(1) by (auto simp: conn_inv_def iocp_inv_def)
  from addReplyString_spec[OF i(1) assms(2), of xs] assms(3) have c: "out_inv c" "pending c = pending ?c @ xs" "sentlen c = sentlen ?c"
    by (auto simp: out_only_def)
  note fr = addReplyString_frame[OF i(1) assms(2,3)]
  have "take (sentlen ?c) (cbuf c) = take (sentlen ?c) (cbuf ?c)" using fr i(2) by (metis min.absorb1 take_take)
  then have "flight_ok 0 c (in_flight s)" using flight_ok_keep[of 0 ?c "in_flight s" c] assms(1) c(3) by (simp add: conn_inv_def)
  then show ?thesis using assms(1) c fr i by (auto simp: conn_inv_def iocp_inv_def)
qed

lemma conn_inv_send:
  assumes "conn_inv s" "sendReplyToClient acc capped (conn_client s) = Some (Some c, reqs)"
  shows "conn_inv (s\<lparr>conn_client := c, in_flight := in_flight s @ reqs, handed := handed s @ concat (map req_str reqs)\<rparr>)"
proof -
  have "iocp_result (conn_client s) [] (Some (Some c, reqs))"
    using iocp_loop_spec[of "conn_client s" "[]" acc capped 0 0] assms by (simp add: sendReplyToClient_def conn_inv_def)
  then have c: "iocp_inv c" "concat (map req_str reqs) @ pending c = pending (conn_client s)"
    "flight_ok (sentlen (conn_client s)) c reqs" "cbuf c = cbuf (conn_client s)" by (auto simp: iocp_result_def)
  then show ?thesis using assms(1) flight_ok_app[of 0 "conn_client s" "in_flight s" c reqs] by (auto simp: conn_inv_def)
qed

lemma conn_inv_buf_done:
  assumes "conn_inv s" "in_flight s = Buf_req st xs # fl"
  shows "conn_inv (s\<lparr>conn_client := sendReplyBufferDone (conn_client s) (st + length xs), in_flight := fl\<rparr>)"
proof -
  let ?c = "conn_client s"
  have i: "iocp_inv ?c" "flight_ok (st + length xs) ?c fl" "handed s @ pending ?c = accepted s" "sentlen ?c \<le> bufpos ?c"
    using assms by (auto simp: conn_inv_def iocp_inv_def)
  show ?thesis
  proof (cases "bufpos ?c = st + length xs")
    case True
    let ?d = "?c\<lparr>bufpos := 0, sentlen := 0\<rparr>"
    have e: "sentlen ?c = bufpos ?c" using flight_ok_le[OF i(2)] i(4) True by simp
    have "iocp_inv ?d" using i(1) by (auto simp: iocp_inv_def out_inv_def)
    moreover have "pending ?d = pending ?c" using iocp_pending[OF i(1)] iocp_pending[OF calculation] e by simp
    moreover have "flight_ok 0 (send_finished ?d) fl" using flight_no_buffer[OF i(2), of 0] e True by simp
    ultimately show ?thesis using i True by (simp add: conn_inv_def sendReplyBufferDone_def send_finished_inv)
  next
    case False
    have "flight_ok 0 (send_finished ?c) fl"
      using flight_same[of "send_finished ?c" ?c 0 fl] send_finished_same flight_weaken[OF i(2)] by simp
    then show ?thesis using i False by (simp add: conn_inv_def sendReplyBufferDone_def send_finished_inv)
  qed
qed

lemma conn_inv_obj_done:
  assumes "conn_inv s" "in_flight s = Obj_req xs # fl"
  shows "conn_inv (s\<lparr>conn_client := sendReplyListDone (conn_client s), in_flight := fl\<rparr>)"
proof -
  let ?c = "conn_client s"
  have i: "iocp_inv ?c" "flight_ok 0 ?c fl" "handed s @ pending ?c = accepted s" "sentlen ?c \<le> bufpos ?c"
    using assms by (auto simp: conn_inv_def iocp_inv_def)
  have "(if bufpos ?c = 0 \<and> length (reply ?c) = 0 then ?c\<lparr>sentlen := 0\<rparr> else ?c) = ?c" using i(4) by (cases ?c) auto
  then have "sendReplyListDone ?c = send_finished ?c" by (simp only: sendReplyListDone_def)
  then show ?thesis using i flight_same[of "send_finished ?c" ?c 0 fl] send_finished_same
    by (simp add: conn_inv_def send_finished_inv)
qed

lemma conn_inv_step: "conn_step env s s' \<Longrightarrow> conn_inv s \<Longrightarrow> conn_inv s'"
  by (induction rule: conn_step.induct) (auto intro: conn_inv_reply conn_inv_send conn_inv_buf_done conn_inv_obj_done)

lemma conn_inv_run: "(conn_step env)\<^sup>*\<^sup>* s s' \<Longrightarrow> conn_inv s \<Longrightarrow> conn_inv s'"
  by (induction rule: rtranclp_induct) (auto intro: conn_inv_step)

lemma createClient_inv:
  assumes "createClient env junk fd0 = Some c"
  shows "iocp_inv c" "send_inv c" "pending c = []" "out_inv c" "reply c = []"
    "takes_replies env c \<longleftrightarrow> 0 < fd0 \<and> ae_create env fd0"
  using assms by (auto simp: createClient_def iocp_inv_def send_inv_def out_inv_def pending_def queued_def takes_replies_def split: if_splits)

definition conn_start :: "redisClient \<Rightarrow> conn" where
  "conn_start c = \<lparr>conn_client = c, in_flight = [], handed = [], accepted = []\<rparr>"

lemma conn_start_inv: "createClient env junk fd0 = Some c \<Longrightarrow> conn_inv (conn_start c)"
  using createClient_inv[of env junk fd0 c] by (simp add: conn_inv_def conn_start_def)

lemma flight_intact: "flight_ok lo c fl \<Longrightarrow> Buf_req st xs \<in> set fl \<Longrightarrow> take (length xs) (drop st (cbuf c)) = xs"
  by (induction lo c fl rule: flight_ok.induct) auto

text \<open>An environment and a client for the concrete examples.\<close>

definition quiet_env :: net_env where
  "quiet_env = \<lparr>ae_create = \<lambda>_. True, over_limits = \<lambda>_. False, unixtime = 0\<rparr>"

definition new_client :: redisClient where
  "new_client = the (createClient quiet_env (\<lambda>_. NUL) 7)"

lemma new_client_create: "createClient quiet_env (\<lambda>_. NUL) 7 = Some new_client"
  by (simp add: new_client_def createClient_def quiet_env_def)

lemma new_client_ok: "out_inv new_client" "takes_replies quiet_env new_client" "pending new_client = []" "send_inv new_client" "reply new_client = []"
  using createClient_inv[OF new_client_create] by (simp_all add: quiet_env_def)

subsection \<open>Properties\<close>

text \<open>
  C6. However replies, runs of the write handler and completions interleave on a connection of the
  Windows build, no reply byte is lost, duplicated or reordered: what was handed to the socket
  followed by what is still pending is exactly what the replies added; and the part of the static
  buffer behind a send that is under way still holds the bytes of that send.
\<close>

theorem conn_no_loss:
  assumes "createClient env junk fd0 = Some c" "(conn_step env)\<^sup>*\<^sup>* (conn_start c) s"
  shows "handed s @ pending (conn_client s) = accepted s \<and>
    (\<forall>st xs. Buf_req st xs \<in> set (in_flight s) \<longrightarrow> take (length xs) (drop st (cbuf (conn_client s))) = xs)"
  using conn_inv_run[OF assms(2) conn_start_inv[OF assms(1)]] flight_intact by (auto simp: conn_inv_def)

theorem conn_no_loss_witness:
  "\<exists>s. (conn_step quiet_env)\<^sup>*\<^sup>* (conn_start new_client) s \<and> accepted s = ''+OK'' \<and>
    (handed s @ pending (conn_client s) = accepted s \<and>
     (\<forall>st xs. Buf_req st xs \<in> set (in_flight s) \<longrightarrow> take (length xs) (drop st (cbuf (conn_client s))) = xs))"
proof -
  from addReplyString_spec[OF new_client_ok(1,2), of "''+OK''"] obtain c where c: "addReplyString quiet_env new_client ''+OK'' = Some c" by blast
  let ?s = "(conn_start new_client)\<lparr>conn_client := c, accepted := accepted (conn_start new_client) @ ''+OK''\<rparr>"
  have "conn_step quiet_env (conn_start new_client) ?s"
    by (rule conn_reply) (simp_all add: conn_start_def c new_client_ok)
  then have "(conn_step quiet_env)\<^sup>*\<^sup>* (conn_start new_client) ?s" by (rule r_into_rtranclp)
  with conn_no_loss[OF new_client_create this] show ?thesis by (intro exI[of _ ?s]) (simp add: conn_start_def)
qed

text \<open>
  The write handler of the POSIX build returns for every behaviour of \<open>write\<close>; the bytes it
  wrote followed by those still pending are the bytes that were pending before; and when \<open>write\<close>
  always takes something and the amount per event is not limited, it sends everything and removes
  itself, or closes the client if that was asked for.
\<close>

theorem sendReplyToClient_posix_sends:
  assumes "send_inv c" "write_contract wr"
  shows "\<exists>sent k' oc. sendReplyToClient_posix wr capped eagain c k = Some (sent, k', oc) \<and>
    (\<forall>c'. oc = Some c' \<longrightarrow> sent @ pending c' = pending c \<and> out_inv c') \<and>
    (\<not> capped \<and> (\<forall>k n. 0 < n \<longrightarrow> 0 < wr k n) \<and> eagain \<longrightarrow> sent = pending c \<and>
       (oc = None \<longleftrightarrow> REDIS_CLOSE_AFTER_REPLY \<in> flags c) \<and> (\<forall>c'. oc = Some c' \<longrightarrow> \<not> writable c'))"
proof -
  from posix_loop_spec[OF assms, of capped "[]" k 0 0, unfolded posix_result_def append_Nil] obtain c1 k1 tot1 d nw1 where
    l: "posix_loop wr capped c k 0 [] 0 = Some (c1, k1, tot1, d, nw1)" "d @ pending c1 = pending c" "send_inv c1" "flags c1 = flags c"
    "\<not> capped \<and> (\<forall>k n. 0 < n \<longrightarrow> 0 < wr k n) \<longrightarrow> bufpos c1 = 0 \<and> reply c1 = []"
    by blast
  have e: "pending c1 = []" "out_inv (c1\<lparr>sentlen := 0, writable := False\<rparr>)" "pending (c1\<lparr>sentlen := 0, writable := False\<rparr>) = []"
    if "bufpos c1 = 0" "reply c1 = []" using that l(3) by (simp_all add: send_inv_def out_inv_def pending_def queued_def)
  have o1: "out_inv c1" using l(3) by (simp add: send_inv_def)
  show ?thesis
  proof (cases "nw1 = -1 \<and> \<not> eagain")
    case True
    then have r: "sendReplyToClient_posix wr capped eagain c k = Some (d, k1, None)"
      unfolding sendReplyToClient_posix_def l(1) by simp
    show ?thesis unfolding r using True by blast
  next
    case f: False
    show ?thesis
    proof (cases "bufpos c1 = 0 \<and> reply c1 = []")
      case True
      have r: "sendReplyToClient_posix wr capped eagain c k =
          Some (d, k1, if REDIS_CLOSE_AFTER_REPLY \<in> flags c then None else Some (c1\<lparr>sentlen := 0, writable := False\<rparr>))"
        unfolding sendReplyToClient_posix_def l(1) using True f l(4) by simp
      have "d = pending c" using l(2) e True by simp
      then show ?thesis unfolding r using e(2,3) True
        by (cases "REDIS_CLOSE_AFTER_REPLY \<in> flags c") auto
    next
      case False
      have r: "sendReplyToClient_posix wr capped eagain c k = Some (d, k1, Some c1)"
        unfolding sendReplyToClient_posix_def l(1) using False f by auto
      have "\<not> (\<not> capped \<and> (\<forall>k n. 0 < n \<longrightarrow> 0 < wr k n))" using l(5) False by blast
      then show ?thesis unfolding r using l(2) o1 by blast
    qed
  qed
qed

theorem sendReplyToClient_posix_sends_witness:
  "\<exists>sent k' oc. sendReplyToClient_posix (\<lambda>k n. int n) False True new_client 0 = Some (sent, k', oc) \<and>
    (\<forall>c'. oc = Some c' \<longrightarrow> sent @ pending c' = pending new_client \<and> out_inv c') \<and>
    (\<not> False \<and> (\<forall>(k::nat) n. 0 < n \<longrightarrow> 0 < int n) \<and> True \<longrightarrow> sent = pending new_client \<and>
       (oc = None \<longleftrightarrow> REDIS_CLOSE_AFTER_REPLY \<in> flags new_client) \<and> (\<forall>c'. oc = Some c' \<longrightarrow> \<not> writable c'))"
  by (rule sendReplyToClient_posix_sends) (simp_all add: new_client_ok write_contract_def)

text \<open>
  The framing of bulk replies is right for both encodings of a string object: \<open>addReplyBulk\<close>
  adds the dollar sign, the length in decimal, a line break, the bytes of the object and a line
  break, whether the pieces go to the static buffer or to the list, and changes nothing else of the
  client than its output.
\<close>

theorem addReplyBulk_framing:
  assumes "out_inv c" "takes_replies env c" "obj_ok obj" "obj \<noteq> ENC_INT LONG_MIN"
  shows "\<exists>c'. addReplyBulk env junk c obj = Some c' \<and>
    pending c' = pending c @ CHR ''$'' # dec_nat (length (obj_str obj)) @ [CR, LF] @ obj_str obj @ [CR, LF] \<and>
    out_inv c' \<and> takes_replies env c' \<and> out_only c c'"
  using appends_bulk[OF assms, of junk]
  by (auto simp: appends_def resp_bulk_def resp_header_def dec_int_nat crlf_def)

theorem addReplyBulk_framing_witness:
  "\<exists>c'. addReplyBulk quiet_env (\<lambda>_. NUL) new_client (ENC_INT (-512)) = Some c' \<and>
    pending c' = pending new_client @ CHR ''$'' # dec_nat (length (obj_str (ENC_INT (-512)))) @ [CR, LF] @ obj_str (ENC_INT (-512)) @ [CR, LF] \<and>
    out_inv c' \<and> takes_replies quiet_env c' \<and> out_only new_client c'"
  by (rule addReplyBulk_framing) (simp_all add: new_client_ok LONG_MIN_def LONG_MAX_def)

text \<open>
  A length that is set after the elements were added (\<open>addDeferredMultiBulkLength\<close>, any number
  of replies, \<open>setDeferredMultiBulkLength\<close>) stands before them in what the client receives, and
  behind everything that was queued earlier.
\<close>

theorem deferred_length_first:
  assumes "out_inv c" "takes_replies env c"
  shows "\<exists>c1 node c2 c3. addDeferredMultiBulkLength env c = (c1, node) \<and> app_loop (addReplyString env) c1 xs = Some c2 \<and>
    setDeferredMultiBulkLength env c2 node n = Some c3 \<and>
    pending c3 = pending c @ CHR ''*'' # dec_int n @ [CR, LF] @ concat xs \<and> out_inv c3"
proof -
  from deferred_start[OF assms(2)] obtain c1 where c1: "addDeferredMultiBulkLength env c = (c1, Some (length (reply c)))"
    "deferred c [] c1" "takes_replies env c1" by blast
  from deferred_loop[OF c1(2,3), of xs] obtain c2 where c2: "app_loop (addReplyString env) c1 xs = Some c2" "deferred c (concat xs) c2" by auto
  from deferred_finish[OF c2(2) assms(1), of env n] c1(1) c2(1) show ?thesis
    by (auto simp: resp_header_def crlf_def)
qed

theorem deferred_length_first_witness:
  "\<exists>c1 node c2 c3. addDeferredMultiBulkLength quiet_env new_client = (c1, node) \<and>
    app_loop (addReplyString quiet_env) c1 ['':1'' @ crlf, '':0'' @ crlf] = Some c2 \<and>
    setDeferredMultiBulkLength quiet_env c2 node 2 = Some c3 \<and>
    pending c3 = pending new_client @ CHR ''*'' # dec_int 2 @ [CR, LF] @ concat ['':1'' @ crlf, '':0'' @ crlf] \<and> out_inv c3"
  by (rule deferred_length_first) (simp_all add: new_client_ok)

end
