(* ===== verification/Query.thy ===== *)
theory Query
  imports Reply
begin

text \<open>
  The request side of a client connection (\<open>src/redis/src/networking.c\<close>): the query buffer collects
  what was read from the socket, and \<open>processInputBuffer\<close> takes commands out of it, in the inline
  form or in the multi bulk form, whatever the pieces in which they arrive.

  The query buffer and the arguments are sds strings, represented by their contents; what the
  parser does with them (\<open>sdsrange\<close>, \<open>sdsnewlen\<close>, \<open>sdsIncrLen\<close>, \<open>sdsMakeRoomFor\<close>) acts on the contents as
  shown in the theory on sds strings.  \<open>argv_size\<close> is the size of the allocated argument array.
  A failed assertion and an access out of bounds are \<open>None\<close>.  The execution of a command,
  \<open>processCommand\<close>, is a parameter.
\<close>

subsection \<open>Lines\<close>

definition REDIS_INLINE_MAX_SIZE :: nat where
  "REDIS_INLINE_MAX_SIZE = 1024 * 64"

definition REDIS_MBULK_BIG_ARG :: nat where
  "REDIS_MBULK_BIG_ARG = 1024 * 32"

text \<open>\<open>strchr\<close> on a NUL-terminated string.\<close>

definition find_char :: "char \<Rightarrow> string \<Rightarrow> nat option" where
  "find_char ch s =
     (let n = length (takeWhile (\<lambda>x. x \<noteq> ch \<and> x \<noteq> NUL) s) in if n < length s \<and> s ! n = ch then Some n else None)"

definition setProtocolError :: "redisClient \<Rightarrow> nat \<Rightarrow> redisClient" where
  "setProtocolError c pos = c\<lparr>flags := insert REDIS_CLOSE_AFTER_REPLY (flags c), querybuf := slice (querybuf c) (int pos) (- 1)\<rparr>"

definition protocol_error :: "net_env \<Rightarrow> redisClient \<Rightarrow> string \<Rightarrow> nat \<Rightarrow> (redisClient \<times> bool) option" where
  "protocol_error env c msg pos = do { c \<leftarrow> addReplyError env c msg; Some (setProtocolError c pos, False) }"

definition resetClient :: "redisClient \<Rightarrow> redisClient" where
  "resetClient c =
     c\<lparr>argv := [], reqtype := 0, multibulklen := 0, bulklen := -1,
       flags := (if REDIS_MULTI \<notin> flags c then flags c - {REDIS_ASKING} else flags c)\<rparr>"

subsection \<open>Inline requests\<close>

text \<open>The boolean result is \<open>REDIS_OK\<close>.\<close>

definition processInlineBuffer :: "net_env \<Rightarrow> redisClient \<Rightarrow> (redisClient \<times> bool) option" where
  "processInlineBuffer env c =
     (case find_char LF (querybuf c) of
        None \<Rightarrow>
          if length (querybuf c) > REDIS_INLINE_MAX_SIZE
          then protocol_error env c ''Protocol error: too big inline request'' 0
          else Some (c, False)
      | Some newline \<Rightarrow>
          let querylen = (if newline \<noteq> 0 \<and> querybuf c ! (newline - 1) = CR then newline - 1 else newline)
          in do { r \<leftarrow> sdssplitargs (take querylen (querybuf c) @ [NUL]);
                  case r of
                    None \<Rightarrow> protocol_error env c ''Protocol error: unbalanced quotes in request'' 0
                  | Some args \<Rightarrow>
                      let c = (if querylen = 0 \<and> REDIS_SLAVE \<in> flags c then c\<lparr>repl_ack_time := unixtime env\<rparr> else c)
                      in Some (c\<lparr>querybuf := slice (querybuf c) (int (querylen + 2)) (- 1), argv_size := length args,
                                 argv := filter (\<lambda>a. length a \<noteq> 0) args\<rparr>, True) })"

subsection \<open>Multi bulk requests\<close>

text \<open>
  The count of arguments.  \<open>Inl\<close> is a return of the whole function, \<open>Inr\<close> the client and the
  position behind the line.
\<close>

definition mbulk_header :: "net_env \<Rightarrow> redisClient \<Rightarrow> ((redisClient \<times> bool) + (redisClient \<times> nat)) option" where
  "mbulk_header env c =
     (if argv c \<noteq> [] then None
      else case find_char CR (querybuf c) of
             None \<Rightarrow>
               if length (querybuf c) > REDIS_INLINE_MAX_SIZE
               then do { r \<leftarrow> protocol_error env c ''Protocol error: too big mbulk count string'' 0; Some (Inl r) }
               else Some (Inl (c, False))
           | Some newline \<Rightarrow>
               if int newline > int (length (querybuf c)) - 2 then Some (Inl (c, False))
               else if querybuf c ! 0 \<noteq> CHR ''*'' then None
               else case string2ll (take (newline - 1) (drop 1 (querybuf c))) of
                      None \<Rightarrow> do { r \<leftarrow> protocol_error env c ''Protocol error: invalid multibulk length'' 0; Some (Inl r) }
                    | Some ll \<Rightarrow>
                        if ll > 1024 * 1024
                        then do { r \<leftarrow> protocol_error env c ''Protocol error: invalid multibulk length'' 0; Some (Inl r) }
                        else let pos = newline + 2
                             in if ll \<le> 0 then Some (Inl (c\<lparr>querybuf := slice (querybuf c) (int pos) (- 1)\<rparr>, True))
                                else Some (Inr (c\<lparr>multibulklen := nat ll, argv_size := nat ll\<rparr>, pos)))"

datatype bulk_step = Bulk_return "redisClient \<times> bool" | Bulk_break redisClient nat | Bulk_next redisClient nat

text \<open>The length of the next argument, when it is not known.\<close>

definition bulk_header :: "net_env \<Rightarrow> redisClient \<Rightarrow> nat \<Rightarrow> bulk_step option" where
  "bulk_header env c pos =
     (if bulklen c \<noteq> -1 then Some (Bulk_next c pos)
      else case find_char CR (drop pos (querybuf c)) of
             None \<Rightarrow>
               if length (querybuf c) > REDIS_INLINE_MAX_SIZE
               then do { r \<leftarrow> protocol_error env c ''Protocol error: too big bulk count string'' 0; Some (Bulk_return r) }
               else Some (Bulk_break c pos)
           | Some k \<Rightarrow>
               if int (pos + k) > int (length (querybuf c)) - 2 then Some (Bulk_break c pos)
               else if querybuf c ! pos \<noteq> CHR ''$''
               then do { c \<leftarrow> addReplyErrorFormat env c (''Protocol error: expected '' @ [SQ] @ ''$'' @ [SQ] @ '', got '' @ [SQ, querybuf c ! pos, SQ]);
                         Some (Bulk_return (setProtocolError c pos, False)) }
               else case string2ll (take (k - 1) (drop (pos + 1) (querybuf c))) of
                      None \<Rightarrow> do { r \<leftarrow> protocol_error env c ''Protocol error: invalid bulk length'' pos; Some (Bulk_return r) }
                    | Some ll \<Rightarrow>
                        if ll < 0 \<or> ll > 512 * 1024 * 1024
                        then do { r \<leftarrow> protocol_error env c ''Protocol error: invalid bulk length'' pos; Some (Bulk_return r) }
                        else let pos = pos + k + 2
                             in if ll \<ge> int REDIS_MBULK_BIG_ARG
                                then Some (Bulk_next (c\<lparr>querybuf := slice (querybuf c) (int pos) (- 1), bulklen := ll\<rparr>) 0)
                                else Some (Bulk_next (c\<lparr>bulklen := ll\<rparr>) pos))"

text \<open>A store behind the argument array is out of bounds.\<close>

definition push_arg :: "redisClient \<Rightarrow> string \<Rightarrow> redisClient option" where
  "push_arg c a = (if length (argv c) < argv_size c then Some (c\<lparr>argv := argv c @ [a]\<rparr>) else None)"

definition bulk_arg :: "redisClient \<Rightarrow> nat \<Rightarrow> bulk_step option" where
  "bulk_arg c pos =
     (if int (length (querybuf c)) - int pos < bulklen c + 2 then Some (Bulk_break c pos)
      else if pos = 0 \<and> bulklen c \<ge> int REDIS_MBULK_BIG_ARG \<and> int (length (querybuf c)) = bulklen c + 2
      then do { c \<leftarrow> push_arg c (take (nat (bulklen c)) (querybuf c));
                Some (Bulk_next (c\<lparr>querybuf := [], bulklen := -1, multibulklen := multibulklen c - 1\<rparr>) 0) }
      else do { a \<leftarrow> mem_read (querybuf c) pos (nat (bulklen c));
                c1 \<leftarrow> push_arg c a;
                Some (Bulk_next (c1\<lparr>bulklen := -1, multibulklen := multibulklen c - 1\<rparr>) (pos + nat (bulklen c) + 2)) })"

lemma bulk_header_multibulklen: "bulk_header env c pos = Some (Bulk_next c' pos') \<Longrightarrow> multibulklen c' = multibulklen c"
  by (auto simp: bulk_header_def Let_def bind_eq_Some_conv split: if_splits option.splits)

lemma bulk_arg_multibulklen: "bulk_arg c pos = Some (Bulk_next c' pos') \<Longrightarrow> multibulklen c' = multibulklen c - 1"
  by (auto simp: bulk_arg_def push_arg_def bind_eq_Some_conv split: if_splits)

function bulk_loop :: "net_env \<Rightarrow> redisClient \<Rightarrow> nat \<Rightarrow> ((redisClient \<times> bool) + (redisClient \<times> nat)) option" where
  "bulk_loop env c pos =
     (if multibulklen c = 0 then Some (Inr (c, pos))
      else case bulk_header env c pos of
             None \<Rightarrow> None
           | Some (Bulk_return r) \<Rightarrow> Some (Inl r)
           | Some (Bulk_break c pos) \<Rightarrow> Some (Inr (c, pos))
           | Some (Bulk_next c pos) \<Rightarrow>
               (case bulk_arg c pos of
                  None \<Rightarrow> None
                | Some (Bulk_return r) \<Rightarrow> Some (Inl r)
                | Some (Bulk_break c pos) \<Rightarrow> Some (Inr (c, pos))
                | Some (Bulk_next c pos) \<Rightarrow> bulk_loop env c pos))"
  by pat_completeness auto

termination
  by (relation "measure (\<lambda>(_, c, _). multibulklen c)") (auto dest!: bulk_header_multibulklen bulk_arg_multibulklen)

declare bulk_loop.simps [simp del]

text \<open>The arguments and what follows them.\<close>

definition mbulk_args :: "net_env \<Rightarrow> redisClient \<Rightarrow> nat \<Rightarrow> (redisClient \<times> bool) option" where
  "mbulk_args env c pos =
     do { l \<leftarrow> bulk_loop env c pos;
          case l of
            Inl r \<Rightarrow> Some r
          | Inr (c, pos) \<Rightarrow>
              let c = (if pos \<noteq> 0 then c\<lparr>querybuf := slice (querybuf c) (int pos) (- 1)\<rparr> else c)
              in Some (c, multibulklen c = 0) }"

definition processMultibulkBuffer :: "net_env \<Rightarrow> redisClient \<Rightarrow> (redisClient \<times> bool) option" where
  "processMultibulkBuffer env c =
     do { h \<leftarrow> (if multibulklen c = 0 then mbulk_header env c else Some (Inr (c, 0)));
          case h of Inl r \<Rightarrow> Some r | Inr (c, pos) \<Rightarrow> mbulk_args env c pos }"

subsection \<open>The input loop\<close>

text \<open>
  The commands that are executed are recorded; the boolean result of \<open>process\<close> is \<open>REDIS_OK\<close>.  The
  loop may go on as long as commands do, so it is a partial function.
\<close>

partial_function (option) processInputBuffer ::
    "net_env \<Rightarrow> (redisClient \<Rightarrow> (redisClient \<times> bool) option) \<Rightarrow> redisClient \<Rightarrow> string list list \<Rightarrow> (redisClient \<times> string list list) option" where
  "processInputBuffer env process c done1 =
     (if querybuf c = [] then Some (c, done1)
      else if REDIS_BLOCKED \<in> flags c then Some (c, done1)
      else if REDIS_CLOSE_AFTER_REPLY \<in> flags c then Some (c, done1)
      else let c = (if reqtype c = 0 then c\<lparr>reqtype := (if querybuf c ! 0 = CHR ''*'' then 2 else 1)\<rparr> else c)
           in Option.bind (if reqtype c = 1 then processInlineBuffer env c
                           else if reqtype c = 2 then processMultibulkBuffer env c
                           else None) (\<lambda>(c, ok).
                if \<not> ok then Some (c, done1)
                else if argv c = [] then processInputBuffer env process (resetClient c) done1
                else Option.bind (process c) (\<lambda>(c', ok).
                       processInputBuffer env process (if ok then resetClient c' else c') (done1 @ [argv c]))))"

text \<open>
  What \<open>readQueryFromClient\<close> does with the bytes of one read: append them and process the buffer.
\<close>

definition feed :: "net_env \<Rightarrow> (redisClient \<Rightarrow> (redisClient \<times> bool) option) \<Rightarrow> redisClient \<Rightarrow> string \<Rightarrow> (redisClient \<times> string list list) option" where
  "feed env process c xs = processInputBuffer env process (c\<lparr>querybuf := querybuf c @ xs\<rparr>) []"

definition REDIS_IOBUF_LEN :: nat where
  "REDIS_IOBUF_LEN = 1024 * 16"

text \<open>How much is read: not beyond the end of a big argument.\<close>

definition read_length :: "redisClient \<Rightarrow> int" where
  "read_length c =
     (if reqtype c = 2 \<and> multibulklen c \<noteq> 0 \<and> bulklen c \<noteq> -1 \<and> bulklen c \<ge> int REDIS_MBULK_BIG_ARG
      then min (int REDIS_IOBUF_LEN) (bulklen c + 2 - int (length (querybuf c))) else int REDIS_IOBUF_LEN)"

datatype read_result = Read_bytes string | Read_again | Read_error

text \<open>
  \<open>recv n\<close> is the result of reading at most \<open>n\<close> bytes, \<open>limit\<close> the configured size of the query buffer.
  \<open>None\<close> as the client means that it was freed.
\<close>

definition readQueryFromClient ::
    "net_env \<Rightarrow> (redisClient \<Rightarrow> (redisClient \<times> bool) option) \<Rightarrow> nat \<Rightarrow> (int \<Rightarrow> read_result) \<Rightarrow> redisClient \<Rightarrow>
     (redisClient option \<times> string list list) option" where
  "readQueryFromClient env process limit recv c =
     (case recv (read_length c) of
        Read_error \<Rightarrow> Some (None, [])
      | Read_again \<Rightarrow> Some (Some c, [])
      | Read_bytes xs \<Rightarrow>
          if xs = [] then Some (None, [])
          else if length (querybuf c @ xs) > limit then Some (None, [])
          else do { (c, cmds) \<leftarrow> feed env process c xs; Some (Some c, cmds) })"

subsection \<open>Lines in a buffer\<close>

definition plain :: "string \<Rightarrow> bool" where
  "plain p \<longleftrightarrow> CR \<notin> set p \<and> NUL \<notin> set p"

lemma find_char_None: "ch \<notin> set xs \<Longrightarrow> find_char ch xs = None"
proof -
  assume a: "ch \<notin> set xs"
  obtain n where n: "n = length (takeWhile (\<lambda>x. x \<noteq> ch \<and> x \<noteq> NUL) xs)" by simp
  have "\<not> (n < length xs \<and> xs ! n = ch)" using a nth_mem by metis
  then show ?thesis by (simp add: find_char_def n[symmetric])
qed

lemma find_char_Some: "ch \<notin> set p \<Longrightarrow> NUL \<notin> set p \<Longrightarrow> find_char ch (p @ ch # q) = Some (length p)"
proof -
  assume "ch \<notin> set p" "NUL \<notin> set p"
  then have "takeWhile (\<lambda>x. x \<noteq> ch \<and> x \<noteq> NUL) (p @ ch # q) = p" by (subst takeWhile_append2) auto
  then show ?thesis by (simp add: find_char_def)
qed

text \<open>What a piece of a stream holds of its first line: not all of it, all but the line feed, or the whole line.\<close>

lemma line_cases:
  assumes "xs @ fut = p @ [CR, LF] @ q" "plain p"
  obtains (partial) "find_char CR xs = None" "length xs \<le> length p" "fut \<noteq> []"
    | (no_lf) "find_char CR xs = Some (length p)" "length xs = length p + 1" "fut \<noteq> []"
    | (line) xs' where "find_char CR xs = Some (length p)" "xs = p @ [CR, LF] @ xs'" "xs' @ fut = q"
proof -
  have l: "length xs + length fut = length p + 2 + length q" using arg_cong[OF assms(1), of length] by simp
  consider "length xs \<le> length p" | "length xs = length p + 1" | "length p + 2 \<le> length xs" by linarith
  then show thesis
  proof cases
    case 1
    then have "xs = take (length xs) p" using assms(1) by (metis append_eq_append_conv_if)
    then have "CR \<notin> set xs" using assms(2) by (metis in_set_takeD plain_def)
    moreover have "fut \<noteq> []" using 1 l by (cases fut) auto
    ultimately show thesis using partial[OF find_char_None] 1 by blast
  next
    case 2
    then have "xs = p @ [CR]" using assms(1) by (simp add: append_eq_append_conv2 append_eq_Cons_conv) auto
    moreover have "fut \<noteq> []" using 2 l by (cases fut) auto
    ultimately show thesis using no_lf find_char_Some[of CR p "[]"] assms(2) 2 by (simp add: plain_def)
  next
    case 3
    define xs' where "xs' = drop (length p + 2) xs"
    have "take (length p + 2) (xs @ fut) = p @ [CR, LF]" unfolding assms(1) by simp
    then have "xs = p @ [CR, LF] @ xs'" using 3 unfolding xs'_def by (metis append_assoc append_take_drop_id diff_is_0_eq' take0 take_append append_Nil2)
    moreover from this assms(1) have "xs' @ fut = q" by simp
    ultimately show thesis using line[of xs'] find_char_Some[of CR p "LF # xs'"] assms(2) by (auto simp: plain_def)
  qed
qed

lemma slice_drop: "slice xs (int k) (- 1) = drop k xs"
  using slice_suffix[of "int k" xs] by simp

lemma plain_dec_nat: "plain (dec_nat n)"
  using dec_nat_digits[of n] by (auto simp: plain_def list_all_iff is_digit_def)

subsection \<open>The arguments of a command\<close>

definition encode :: "string list \<Rightarrow> string" where
  "encode args = CHR ''*'' # dec_nat (length args) @ crlf @ concat (map resp_bulk args)"

definition bulk_tail :: "int \<Rightarrow> string list \<Rightarrow> string" where
  "bulk_tail b rest = (if b = -1 then concat (map resp_bulk rest) else hd rest @ crlf @ concat (map resp_bulk (tl rest)))"

definition arg_ok :: "string \<Rightarrow> bool" where
  "arg_ok x \<longleftrightarrow> length x \<le> 512 * 1024 * 1024"

text \<open>
  The parser stands at \<open>pos\<close>, has read the first arguments of a command and waits for \<open>rest\<close>; behind
  them comes \<open>tail\<close>.  The bytes after the buffer are still to come, \<open>fut\<close>.  The buffer is small, but
  for one that holds a part of a big argument from its start.
\<close>

definition args_inv :: "redisClient \<Rightarrow> nat \<Rightarrow> string list \<Rightarrow> string \<Rightarrow> string \<Rightarrow> bool" where
  "args_inv c pos rest tail fut \<longleftrightarrow> pos \<le> length (querybuf c) \<and> multibulklen c = length rest \<and>
     (bulklen c = -1 \<or> rest \<noteq> [] \<and> bulklen c = int (length (hd rest))) \<and>
     drop pos (querybuf c) @ fut = bulk_tail (bulklen c) rest @ tail \<and>
     length (argv c) + length rest = argv_size c \<and> list_all arg_ok rest \<and>
     (bulklen c \<ge> int REDIS_MBULK_BIG_ARG \<longrightarrow> pos = 0) \<and>
     (length (querybuf c) \<le> REDIS_INLINE_MAX_SIZE \<or>
      bulklen c \<ge> int REDIS_MBULK_BIG_ARG \<and> int (length (querybuf c)) \<le> bulklen c + 2)"

text \<open>What is left in the buffer behind \<open>pos\<close> when the parser has to wait for more.\<close>

definition waits :: "redisClient \<Rightarrow> nat \<Rightarrow> bool" where
  "waits c pos \<longleftrightarrow> int (length (querybuf c)) - int pos < max (int REDIS_MBULK_BIG_ARG) (bulklen c) + 2"

text \<open>The fields that the argument parser may change.\<close>

definition parse_only :: "redisClient \<Rightarrow> redisClient \<Rightarrow> bool" where
  "parse_only c c' \<longleftrightarrow> (\<exists>q b m a. c' = c\<lparr>querybuf := q, bulklen := b, multibulklen := m, argv := a\<rparr>)"

lemma parse_only_refl: "parse_only c c"
  unfolding parse_only_def by (intro exI[of _ "querybuf c"] exI[of _ "bulklen c"] exI[of _ "multibulklen c"] exI[of _ "argv c"]) simp

lemma parse_only_trans: "parse_only a b \<Longrightarrow> parse_only b c \<Longrightarrow> parse_only a c"
  unfolding parse_only_def by (cases a) auto

lemma resp_bulk_alt: "resp_bulk x = (CHR ''$'' # dec_nat (length x)) @ [CR, LF] @ x @ crlf"
  by (simp add: resp_bulk_def resp_header_def dec_int_nat crlf_def)

lemma string2ll_dec_nat: "int n < 2 ^ 63 \<Longrightarrow> string2ll (dec_nat n) = Some (int n)"
  using string2ll_dec_int[of "int n"] by (simp add: dec_int_nat)

lemma dec_nat_length20: "n \<le> 512 * 1024 * 1024 \<Longrightarrow> length (dec_nat n) \<le> 20"
  using length_dec_int_le_20[of "int n"] by (simp add: dec_int_nat)

lemma bulk_header_spec:
  assumes "args_inv c pos (x # rest) tail fut"
  shows "(\<exists>c' pos'. bulk_header env c pos = Some (Bulk_next c' pos') \<and> args_inv c' pos' (x # rest) tail fut \<and>
      bulklen c' = int (length x) \<and> parse_only c c' \<and> argv c' = argv c \<and> argv_size c' = argv_size c) \<or>
    bulk_header env c pos = Some (Bulk_break c pos) \<and> fut \<noteq> [] \<and> waits c pos"
proof (cases "bulklen c = -1")
  case False
  then show ?thesis using assms parse_only_refl by (auto simp: bulk_header_def args_inv_def)
next
  case True
  let ?p = "CHR ''$'' # dec_nat (length x)"
  let ?q = "x @ crlf @ concat (map resp_bulk rest) @ tail"
  have i: "pos \<le> length (querybuf c)" "multibulklen c = Suc (length rest)" "length (argv c) + Suc (length rest) = argv_size c"
    "length (querybuf c) \<le> REDIS_INLINE_MAX_SIZE" "length x \<le> 512 * 1024 * 1024" "list_all arg_ok (x # rest)"
    using assms True by (auto simp: args_inv_def bulk_tail_def arg_ok_def)
  have st: "drop pos (querybuf c) @ fut = ?p @ [CR, LF] @ ?q"
    using assms True by (simp add: args_inv_def bulk_tail_def resp_bulk_alt)
  have pl: "plain ?p" using plain_dec_nat[of "length x"] by (simp add: plain_def)
  have lp: "length ?p \<le> 21" using dec_nat_length20[of "length x"] i(5) by simp
  from st pl show ?thesis
  proof (cases rule: line_cases)
    case partial
    then have "waits c pos" using lp i(1) by (simp add: waits_def REDIS_MBULK_BIG_ARG_def)
    with partial True i(4) show ?thesis by (simp add: bulk_header_def)
  next
    case no_lf
    then have l: "length (querybuf c) = pos + length ?p + 1" using i(1) by simp
    then have "waits c pos" using lp by (simp add: waits_def REDIS_MBULK_BIG_ARG_def)
    with no_lf True l show ?thesis by (simp add: bulk_header_def)
  next
    case (line xs')
    let ?pos = "pos + length ?p + 2"
    have d: "querybuf c ! pos = CHR ''$''" using line(2) i(1) by (metis append_Cons nth_append_length nth_via_drop)
    have lq: "length (querybuf c) = ?pos + length xs'" using arg_cong[OF line(2), of length] i(1) by simp
    have dr: "drop (pos + 1) (querybuf c) = dec_nat (length x) @ [CR, LF] @ xs'"
      using line(2) by (metis Suc_eq_plus1 append_Cons drop_Suc list.sel(3) tl_drop)
    have dr2: "drop ?pos (querybuf c) = xs'"
    proof -
      have "drop ?pos (querybuf c) = drop (length ?p + 2) (drop pos (querybuf c))" by (simp add: add.commute add.left_commute)
      then show ?thesis unfolding line(2) by simp
    qed
    have s2: "string2ll (take (length ?p - 1) (drop (pos + 1) (querybuf c))) = Some (int (length x))"
      unfolding dr using string2ll_dec_nat[of "length x"] i(5) by simp
    have big: "int (length x) \<le> 512 * 1024 * 1024" using i(5) by simp
    have sl: "slice (querybuf c) (int ?pos) (- 1) = xs'" by (simp only: slice_drop dr2)
    let ?c1 = "c\<lparr>querybuf := xs', bulklen := int (length x)\<rparr>"
    let ?c2 = "c\<lparr>bulklen := int (length x)\<rparr>"
    have h: "bulk_header env c pos = Some (if int (length x) \<ge> int REDIS_MBULK_BIG_ARG then Bulk_next ?c1 0 else Bulk_next ?c2 ?pos)"
      unfolding bulk_header_def Let_def line(1) option.case sl[symmetric] using True d lq s2 big by simp
    have po: "parse_only c ?c1" "parse_only c ?c2" unfolding parse_only_def
      by (intro exI[of _ xs'] exI[of _ "int (length x)"] exI[of _ "multibulklen c"] exI[of _ "argv c"], simp)
        (intro exI[of _ "querybuf c"] exI[of _ "int (length x)"] exI[of _ "multibulklen c"] exI[of _ "argv c"], simp)
    have "args_inv ?c1 0 (x # rest) tail fut" "\<not> int (length x) \<ge> int REDIS_MBULK_BIG_ARG \<Longrightarrow> args_inv ?c2 ?pos (x # rest) tail fut"
      using i lq line(3) dr2 unfolding args_inv_def by (simp_all add: bulk_tail_def crlf_def)
    then show ?thesis using h po by (cases "int (length x) \<ge> int REDIS_MBULK_BIG_ARG") auto
  qed
qed

lemma bulk_arg_spec:
  assumes "args_inv c pos (x # rest) tail fut" "bulklen c = int (length x)"
  shows "(\<exists>c' pos'. bulk_arg c pos = Some (Bulk_next c' pos') \<and> args_inv c' pos' rest tail fut \<and> argv c' = argv c @ [x] \<and>
      argv_size c' = argv_size c \<and> parse_only c c') \<or>
    bulk_arg c pos = Some (Bulk_break c pos) \<and> fut \<noteq> [] \<and> waits c pos"
proof -
  have i: "pos \<le> length (querybuf c)" "multibulklen c = Suc (length rest)" "length (argv c) + Suc (length rest) = argv_size c"
    "list_all arg_ok rest" "length x < REDIS_MBULK_BIG_ARG \<or> pos = 0"
    "length (querybuf c) \<le> REDIS_INLINE_MAX_SIZE \<or> REDIS_MBULK_BIG_ARG \<le> length x \<and> length (querybuf c) \<le> length x + 2"
    and st: "drop pos (querybuf c) @ fut = x @ crlf @ concat (map resp_bulk rest) @ tail"
    using assms by (auto simp: args_inv_def bulk_tail_def crlf_def)
  show ?thesis
  proof (cases "int (length (querybuf c)) - int pos < bulklen c + 2")
    case True
    then have "length (drop pos (querybuf c)) < length (x @ crlf)" using assms(2) i(1) by (simp add: crlf_def)
    moreover have "length (drop pos (querybuf c)) + length fut = length (x @ crlf) + length (concat (map resp_bulk rest) @ tail)"
      using arg_cong[OF st, of length] by simp
    ultimately have "fut \<noteq> []" by (cases fut) auto
    moreover have "waits c pos" using True by (simp add: waits_def)
    ultimately show ?thesis using True by (simp add: bulk_arg_def)
  next
    case False
    then have le: "length x + 2 \<le> length (drop pos (querybuf c))" using assms(2) i(1) by simp
    define ys where "ys = drop (length x + 2) (drop pos (querybuf c))"
    have "take (length x + 2) (drop pos (querybuf c) @ fut) = x @ crlf" unfolding st by (simp add: crlf_def)
    then have d: "drop pos (querybuf c) = x @ crlf @ ys" using le unfolding ys_def
      by (metis append_assoc append_take_drop_id diff_is_0_eq' take0 take_append append_Nil2)
    have ys: "ys @ fut = concat (map resp_bulk rest) @ tail" using st unfolding d by simp
    have lq: "length (querybuf c) = pos + length x + 2 + length ys" using arg_cong[OF d, of length] i(1) by (simp add: crlf_def)
    have dr: "drop (pos + length x + 2) (querybuf c) = ys" unfolding ys_def by (simp add: add.commute add.left_commute)
    have rd: "mem_read (querybuf c) pos (length x) = Some x" unfolding mem_read_def d using lq by simp
    have len: "length (argv c) < argv_size c" using i(3) by simp
    show ?thesis
    proof (cases "pos = 0 \<and> bulklen c \<ge> int REDIS_MBULK_BIG_ARG \<and> int (length (querybuf c)) = bulklen c + 2")
      case True
      let ?c = "c\<lparr>argv := argv c @ [x], querybuf := [], bulklen := -1, multibulklen := length rest\<rparr>"
      have "ys = []" using lq True assms(2) by simp
      then have ai: "args_inv ?c 0 rest tail fut" using i ys by (simp add: args_inv_def bulk_tail_def)
      have tk: "take (length x) (querybuf c) = x" using d True by simp
      have "bulk_arg c pos = Some (Bulk_next ?c 0)" using False True assms(2) i(2) len tk by (simp add: bulk_arg_def push_arg_def)
      moreover have "parse_only c ?c" unfolding parse_only_def
        by (intro exI[of _ "[]"] exI[of _ "-1"] exI[of _ "length rest"] exI[of _ "argv c @ [x]"]) simp
      ultimately show ?thesis using ai by auto
    next
      case nb: False
      let ?c = "c\<lparr>argv := argv c @ [x], bulklen := -1, multibulklen := length rest\<rparr>"
      have "length (querybuf c) \<le> REDIS_INLINE_MAX_SIZE" using i(5,6) nb lq assms(2) by auto
      then have "args_inv ?c (pos + length x + 2) rest tail fut" using i lq dr ys by (simp add: args_inv_def bulk_tail_def)
      moreover have "bulk_arg c pos = Some (Bulk_next ?c (pos + length x + 2))"
        using False nb assms(2) i(2) len rd by (auto simp: bulk_arg_def push_arg_def)
      moreover have "parse_only c ?c" unfolding parse_only_def
        by (intro exI[of _ "querybuf c"] exI[of _ "-1"] exI[of _ "length rest"] exI[of _ "argv c @ [x]"]) simp
      ultimately show ?thesis by auto
    qed
  qed
qed

text \<open>The loop reads arguments as far as the buffer goes, and stops early only when bytes are missing.\<close>

lemma bulk_loop_spec:
  "args_inv c pos rest tail fut \<Longrightarrow>
   \<exists>c' pos' rest'. bulk_loop env c pos = Some (Inr (c', pos')) \<and> args_inv c' pos' rest' tail fut \<and>
     argv c' @ rest' = argv c @ rest \<and> (rest' = [] \<or> fut \<noteq> [] \<and> waits c' pos') \<and> parse_only c c'"
proof (induction rest arbitrary: c pos)
  case Nil
  then have "bulk_loop env c pos = Some (Inr (c, pos))" by (subst bulk_loop.simps) (simp add: args_inv_def)
  then show ?case using Nil parse_only_refl by (intro exI[of _ c] exI[of _ pos] exI[of _ "[]"]) simp
next
  case (Cons x rest)
  have m: "multibulklen c \<noteq> 0" using Cons.prems by (simp add: args_inv_def)
  from bulk_header_spec[OF Cons.prems, of env] show ?case
  proof (elim disjE exE conjE)
    fix c1 pos1
    assume h: "bulk_header env c pos = Some (Bulk_next c1 pos1)" "args_inv c1 pos1 (x # rest) tail fut" "bulklen c1 = int (length x)"
      "parse_only c c1" "argv c1 = argv c" "argv_size c1 = argv_size c"
    from bulk_arg_spec[OF h(2,3)] show ?thesis
    proof (elim disjE exE conjE)
      fix c2 pos2
      assume a: "bulk_arg c1 pos1 = Some (Bulk_next c2 pos2)" "args_inv c2 pos2 rest tail fut" "argv c2 = argv c1 @ [x]"
        "argv_size c2 = argv_size c1" "parse_only c1 c2"
      from Cons.IH[OF a(2)] obtain c' pos' rest' where r: "bulk_loop env c2 pos2 = Some (Inr (c', pos'))" "args_inv c' pos' rest' tail fut"
        "argv c' @ rest' = argv c2 @ rest" "rest' = [] \<or> fut \<noteq> [] \<and> waits c' pos'" "parse_only c2 c'" by blast
      have "bulk_loop env c pos = Some (Inr (c', pos'))" using m h(1) a(1) r(1) by (subst bulk_loop.simps) simp
      moreover have "argv c' @ rest' = argv c @ x # rest" using r(3) a(3) h(5) by simp
      moreover have "parse_only c c'" using parse_only_trans h(4) a(5) r(5) by blast
      ultimately show ?thesis using r(2,4) by (intro exI[of _ c'] exI[of _ pos'] exI[of _ rest']) simp
    next
      assume b: "bulk_arg c1 pos1 = Some (Bulk_break c1 pos1)" "fut \<noteq> []" "waits c1 pos1"
      then have "bulk_loop env c pos = Some (Inr (c1, pos1))" using m h(1) by (subst bulk_loop.simps) simp
      then show ?thesis using h(2,4,5) b(2,3) by (intro exI[of _ c1] exI[of _ pos1] exI[of _ "x # rest"]) simp
    qed
  next
    assume b: "bulk_header env c pos = Some (Bulk_break c pos)" "fut \<noteq> []" "waits c pos"
    then have "bulk_loop env c pos = Some (Inr (c, pos))" using m by (subst bulk_loop.simps) simp
    then show ?thesis using Cons.prems b(2,3) parse_only_refl by (intro exI[of _ c] exI[of _ pos] exI[of _ "x # rest"]) simp
  qed
qed

subsection \<open>Streams of commands\<close>

definition cmd_ok :: "string list \<Rightarrow> bool" where
  "cmd_ok args \<longleftrightarrow> args \<noteq> [] \<and> length args \<le> 1024 * 1024 \<and> list_all arg_ok args"

text \<open>Between commands, or before the count of a command is complete.\<close>

definition idle :: "redisClient \<Rightarrow> string list list \<Rightarrow> string \<Rightarrow> bool" where
  "idle c cmds fut \<longleftrightarrow> argv c = [] \<and> multibulklen c = 0 \<and> bulklen c = -1 \<and> reqtype c \<in> {0, 2} \<and>
     querybuf c @ fut = concat (map encode cmds) \<and> length (querybuf c) \<le> REDIS_INLINE_MAX_SIZE"

text \<open>Inside the first command.\<close>

definition inside :: "redisClient \<Rightarrow> string list list \<Rightarrow> string \<Rightarrow> bool" where
  "inside c cmds fut \<longleftrightarrow> reqtype c = 2 \<and> (\<exists>rest later. rest \<noteq> [] \<and> cmds = (argv c @ rest) # later \<and>
     args_inv c 0 rest (concat (map encode later)) fut)"

lemma trim_args:
  assumes "args_inv c pos rest tail fut"
  defines "c' \<equiv> (if pos \<noteq> 0 then c\<lparr>querybuf := slice (querybuf c) (int pos) (- 1)\<rparr> else c)"
  shows "args_inv c' 0 rest tail fut" "argv c' = argv c" "reqtype c' = reqtype c" "flags c' = flags c"
    "parse_only c0 c \<Longrightarrow> parse_only c0 c'" "waits c pos \<Longrightarrow> waits c' 0"
proof -
  show "args_inv c' 0 rest tail fut" using assms(1) unfolding c'_def args_inv_def by (auto simp: slice_drop)
  show "argv c' = argv c" "reqtype c' = reqtype c" "flags c' = flags c" by (simp_all add: c'_def)
  show "waits c pos \<Longrightarrow> waits c' 0" using assms(1) by (auto simp: waits_def c'_def slice_drop args_inv_def)
  have "parse_only c c'" unfolding c'_def parse_only_def
    by (intro exI[of _ "if pos \<noteq> 0 then slice (querybuf c) (int pos) (- 1) else querybuf c"] exI[of _ "bulklen c"] exI[of _ "multibulklen c"] exI[of _ "argv c"]) simp
  then show "parse_only c0 c \<Longrightarrow> parse_only c0 c'" using parse_only_trans by blast
qed

lemma parse_only_same: "parse_only c c' \<Longrightarrow> flags c' = flags c \<and> reqtype c' = reqtype c"
  by (auto simp: parse_only_def)

text \<open>What one call of the parser does on a stream of commands.\<close>

definition mbulk_result :: "redisClient \<Rightarrow> string list list \<Rightarrow> string \<Rightarrow> (redisClient \<times> bool) option \<Rightarrow> bool" where
  "mbulk_result c cmds fut r \<longleftrightarrow> (\<exists>c' ok. r = Some (c', ok) \<and> flags c' = flags c \<and> reqtype c' = reqtype c \<and>
     (if ok then argv c' = hd cmds \<and> querybuf c' @ fut = concat (map encode (tl cmds)) \<and> length (querybuf c') \<le> REDIS_INLINE_MAX_SIZE \<and> cmds \<noteq> []
      else fut \<noteq> [] \<and> waits c' 0 \<and> (idle c' cmds fut \<or> inside c' cmds fut)))"

lemma args_result:
  assumes "args_inv c pos rest (concat (map encode later)) fut" "reqtype c = 2" "cmds = (argv c @ rest) # later"
  shows "mbulk_result c cmds fut (mbulk_args env c pos)"
proof -
  from bulk_loop_spec[OF assms(1), of env] obtain c1 pos1 rest1 where l: "bulk_loop env c pos = Some (Inr (c1, pos1))"
    "args_inv c1 pos1 rest1 (concat (map encode later)) fut" "argv c1 @ rest1 = argv c @ rest" "rest1 = [] \<or> fut \<noteq> [] \<and> waits c1 pos1" "parse_only c c1" by blast
  obtain c2 where c2: "c2 = (if pos1 \<noteq> 0 then c1\<lparr>querybuf := slice (querybuf c1) (int pos1) (- 1)\<rparr> else c1)" by simp
  note t = trim_args[OF l(2), folded c2]
  have f: "flags c2 = flags c" "reqtype c2 = reqtype c" using parse_only_same[OF l(5)] t(3,4) by simp_all
  have m: "multibulklen c2 = length rest1" using t(1) by (simp add: args_inv_def)
  have r: "mbulk_args env c pos = Some (c2, multibulklen c2 = 0)" unfolding mbulk_args_def l(1) c2 by (simp add: Let_def)
  show ?thesis unfolding r
  proof (cases "rest1 = []")
    case True
    then have "querybuf c2 @ fut = concat (map encode later) \<and> length (querybuf c2) \<le> REDIS_INLINE_MAX_SIZE" using t(1) by (auto simp: args_inv_def bulk_tail_def)
    then show "mbulk_result c cmds fut (Some (c2, multibulklen c2 = 0))"
      unfolding mbulk_result_def using True f m l(3) t(2) assms(3) by (intro exI[of _ c2] exI[of _ True]) simp
  next
    case False
    then have "inside c2 cmds fut" unfolding inside_def using t(1,2) l(3) f assms(2,3) by (intro conjI exI[of _ rest1] exI[of _ later]) simp_all
    then show "mbulk_result c cmds fut (Some (c2, multibulklen c2 = 0))"
      unfolding mbulk_result_def using False f m l(4) t(6) by (intro exI[of _ c2] exI[of _ False]) simp
  qed
qed

lemma mbulk_header_spec:
  assumes "idle c (cmd # later) fut" "cmd_ok cmd" "reqtype c = 2"
  shows "(\<exists>c' pos. mbulk_header env c = Some (Inr (c', pos)) \<and> args_inv c' pos cmd (concat (map encode later)) fut \<and> argv c' = [] \<and>
      flags c' = flags c \<and> reqtype c' = reqtype c) \<or>
    mbulk_header env c = Some (Inl (c, False)) \<and> fut \<noteq> [] \<and> waits c 0"
proof -
  let ?n = "length cmd"
  let ?p = "CHR ''*'' # dec_nat ?n"
  let ?q = "concat (map resp_bulk cmd) @ concat (map encode later)"
  have i: "argv c = []" "bulklen c = -1" and st: "querybuf c @ fut = ?p @ [CR, LF] @ ?q"
    using assms(1) by (auto simp: idle_def encode_def crlf_def)
  have pl: "plain ?p" using plain_dec_nat[of ?n] by (simp add: plain_def)
  have n: "0 < ?n" "?n \<le> 1024 * 1024" and ok: "list_all arg_ok cmd"
    using assms(2) by (auto simp: cmd_ok_def)
  have le: "length (querybuf c) \<le> REDIS_INLINE_MAX_SIZE" using assms(1) by (simp add: idle_def)
  have lp: "length ?p \<le> 21" using dec_nat_length20[of ?n] n(2) by simp
  from st pl show ?thesis
  proof (cases rule: line_cases)
    case partial
    then have "waits c 0" using lp by (simp add: waits_def REDIS_MBULK_BIG_ARG_def)
    then show ?thesis using partial i le by (simp add: mbulk_header_def)
  next
    case no_lf
    then have "waits c 0" using lp by (simp add: waits_def REDIS_MBULK_BIG_ARG_def)
    then show ?thesis using i no_lf by (simp add: mbulk_header_def)
  next
    case (line xs')
    have d: "take (length ?p - 1) (drop 1 (querybuf c)) = dec_nat ?n" "querybuf c ! 0 = CHR ''*''" unfolding line(2) by simp_all
    have s2: "string2ll (dec_nat ?n) = Some (int ?n)" using n(2) by (intro string2ll_dec_nat) simp
    let ?c = "c\<lparr>multibulklen := ?n, argv_size := ?n\<rparr>"
    have lq: "length (querybuf c) = length ?p + 2 + length xs'" unfolding line(2) by simp
    have dq: "drop (length ?p + 2) (querybuf c) = xs'" unfolding line(2) by simp
    have "mbulk_header env c = Some (Inr (?c, length ?p + 2))"
      unfolding mbulk_header_def line(1) option.case d s2 Let_def using i(1) n lq d(2) by simp
    moreover have "args_inv ?c (length ?p + 2) cmd (concat (map encode later)) fut"
      using i line(3) lq le dq ok by (simp add: args_inv_def bulk_tail_def REDIS_MBULK_BIG_ARG_def)
    ultimately show ?thesis using i(1) by auto
  qed
qed

lemma processMultibulkBuffer_spec:
  assumes "idle c cmds fut \<and> querybuf c \<noteq> [] \<or> inside c cmds fut" "reqtype c = 2" "list_all cmd_ok cmds"
  shows "mbulk_result c cmds fut (processMultibulkBuffer env c)"
proof (cases "inside c cmds fut")
  case True
  then obtain rest later where r: "rest \<noteq> []" "cmds = (argv c @ rest) # later" "args_inv c 0 rest (concat (map encode later)) fut"
    by (auto simp: inside_def)
  then have "multibulklen c \<noteq> 0" by (auto simp: args_inv_def)
  then show ?thesis using args_result[OF r(3) assms(2) r(2), of env] by (simp add: processMultibulkBuffer_def)
next
  case False
  then have i: "idle c cmds fut" "querybuf c \<noteq> []" using assms(1) by auto
  have "cmds \<noteq> []" using i by (auto simp: idle_def)
  then obtain cmd later where cmds: "cmds = cmd # later" by (cases cmds) auto
  have m: "multibulklen c = 0" using i by (simp add: idle_def)
  have ok: "cmd_ok cmd" using assms(3) cmds by simp
  from mbulk_header_spec[OF i(1)[unfolded cmds] ok assms(2), of env] show ?thesis
  proof (elim disjE exE conjE)
    fix c1 pos
    assume h: "mbulk_header env c = Some (Inr (c1, pos))" "args_inv c1 pos cmd (concat (map encode later)) fut" "argv c1 = []"
      "flags c1 = flags c" "reqtype c1 = reqtype c"
    have "mbulk_result c1 cmds fut (processMultibulkBuffer env c)"
      using args_result[OF h(2), of cmds env] h m assms(2) cmds by (simp add: processMultibulkBuffer_def)
    then show ?thesis using h(4,5) by (simp add: mbulk_result_def)
  next
    assume h: "mbulk_header env c = Some (Inl (c, False))" "fut \<noteq> []" "waits c 0"
    then have "processMultibulkBuffer env c = Some (c, False)" using m by (simp add: processMultibulkBuffer_def)
    then show ?thesis unfolding mbulk_result_def using h(2,3) i(1) by (intro exI[of _ c] exI[of _ False]) simp
  qed
qed

subsection \<open>The input loop on streams\<close>

text \<open>What the loop relies on: commands run, and leave the input of the connection alone.\<close>

definition commands_run :: "(redisClient \<Rightarrow> (redisClient \<times> bool) option) \<Rightarrow> bool" where
  "commands_run process \<longleftrightarrow> (\<forall>c. \<exists>c'. process c = Some (c', True) \<and> querybuf c' = querybuf c \<and>
     (REDIS_BLOCKED \<in> flags c' \<longleftrightarrow> REDIS_BLOCKED \<in> flags c) \<and> (REDIS_CLOSE_AFTER_REPLY \<in> flags c' \<longleftrightarrow> REDIS_CLOSE_AFTER_REPLY \<in> flags c))"

definition stream :: "redisClient \<Rightarrow> string list list \<Rightarrow> string \<Rightarrow> bool" where
  "stream c cmds fut \<longleftrightarrow> REDIS_BLOCKED \<notin> flags c \<and> REDIS_CLOSE_AFTER_REPLY \<notin> flags c \<and> (idle c cmds fut \<or> inside c cmds fut)"

lemma encode_nonempty [simp]: "encode cmd \<noteq> []"
  by (simp add: encode_def)

lemma stream_no_future:
  assumes "stream c cmds []" "querybuf c = []"
  shows "cmds = []"
  using assms unfolding stream_def
proof (elim conjE disjE)
  assume "idle c cmds []"
  then show ?thesis using assms(2) by (cases cmds) (auto simp: idle_def)
next
  assume "inside c cmds []"
  then obtain rest later where "rest \<noteq> []" "args_inv c 0 rest (concat (map encode later)) []" by (auto simp: inside_def)
  then have "bulk_tail (bulklen c) rest = []" "rest \<noteq> []" using assms(2) by (auto simp: args_inv_def)
  then show ?thesis by (cases rest) (auto simp: bulk_tail_def crlf_def resp_bulk_alt split: if_splits)
qed

lemma stream_first:
  assumes "stream c cmds fut" "querybuf c \<noteq> []"
  defines "c1 \<equiv> (if reqtype c = 0 then c\<lparr>reqtype := (if querybuf c ! 0 = CHR ''*'' then 2 else 1)\<rparr> else c)"
  shows "stream c1 cmds fut" "reqtype c1 = 2" "querybuf c1 = querybuf c"
proof -
  have d: "idle c1 cmds fut \<and> reqtype c1 = 2 \<or> inside c1 cmds fut"
  proof (cases "inside c cmds fut")
    case True
    then show ?thesis by (simp add: c1_def inside_def)
  next
    case False
    then have i: "idle c cmds fut" using assms(1) by (simp add: stream_def)
    then obtain cmd later where "cmds = cmd # later" using assms(2) by (cases cmds) (auto simp: idle_def)
    then have "(querybuf c @ fut) ! 0 = CHR ''*''" using i by (simp add: idle_def encode_def)
    then have "querybuf c ! 0 = CHR ''*''" using assms(2) by (simp add: nth_append)
    then show ?thesis using i by (auto simp: c1_def idle_def)
  qed
  then show "reqtype c1 = 2" by (auto simp: inside_def)
  have "flags c1 = flags c" by (simp add: c1_def)
  then show "stream c1 cmds fut" using d assms(1) unfolding stream_def by auto
  show "querybuf c1 = querybuf c" by (simp add: c1_def)
qed

lemma processInputBuffer_spec:
  assumes "commands_run process" "stream c cmds fut" "list_all cmd_ok cmds"
  shows "\<exists>c' n. processInputBuffer env process c done1 = Some (c', done1 @ take n cmds) \<and> n \<le> length cmds \<and>
    stream c' (drop n cmds) fut \<and> (fut = [] \<longrightarrow> querybuf c' = []) \<and> waits c' 0"
  using assms(2,3)
proof (induction cmds arbitrary: c done1)
  case Nil
  have "querybuf c = []" using Nil.prems(1) by (auto simp: stream_def idle_def inside_def)
  then show ?case using Nil.prems(1) by (subst processInputBuffer.simps) (simp add: waits_def REDIS_MBULK_BIG_ARG_def)
next
  case (Cons cmd cmds)
  show ?case
  proof (cases "querybuf c = []")
    case True
    then show ?thesis using Cons.prems(1) by (subst processInputBuffer.simps) (auto simp: waits_def REDIS_MBULK_BIG_ARG_def intro!: exI[of _ 0])
  next
    case False
    let ?c = "if reqtype c = 0 then c\<lparr>reqtype := (if querybuf c ! 0 = CHR ''*'' then 2 else 1)\<rparr> else c"
    obtain c1 where c1: "c1 = ?c" by simp
    note f = stream_first[OF Cons.prems(1) False, folded c1]
    have fl: "REDIS_BLOCKED \<notin> flags c" "REDIS_CLOSE_AFTER_REPLY \<notin> flags c" "REDIS_BLOCKED \<notin> flags c1" "REDIS_CLOSE_AFTER_REPLY \<notin> flags c1"
      using Cons.prems(1) f(1) by (simp_all add: stream_def)
    have "idle c1 (cmd # cmds) fut \<and> querybuf c1 \<noteq> [] \<or> inside c1 (cmd # cmds) fut" using f False by (auto simp: stream_def)
    from processMultibulkBuffer_spec[OF this f(2) Cons.prems(2), of env] obtain c2 ok where
      r: "processMultibulkBuffer env c1 = Some (c2, ok)" "flags c2 = flags c1" "reqtype c2 = reqtype c1"
      "if ok then argv c2 = cmd \<and> querybuf c2 @ fut = concat (map encode cmds) \<and> length (querybuf c2) \<le> REDIS_INLINE_MAX_SIZE
        else fut \<noteq> [] \<and> waits c2 0 \<and> (idle c2 (cmd # cmds) fut \<or> inside c2 (cmd # cmds) fut)"
      unfolding mbulk_result_def by (metis list.sel(1,3))
    show ?thesis
    proof (cases ok)
      case no: False
      have "processInputBuffer env process c done1 = Some (c2, done1)"
        using False fl f(2) r(1) no by (subst processInputBuffer.simps) (simp add: c1[symmetric] Let_def)
      moreover have "stream c2 (cmd # cmds) fut" "fut \<noteq> []" "waits c2 0" using r no fl by (simp_all add: stream_def)
      ultimately show ?thesis by (intro exI[of _ c2] exI[of _ 0]) simp
    next
      case yes: True
      then have a: "argv c2 = cmd" "cmd \<noteq> []" "querybuf c2 @ fut = concat (map encode cmds)" "length (querybuf c2) \<le> REDIS_INLINE_MAX_SIZE" using r(4) Cons.prems(2) by (simp_all add: cmd_ok_def)
      obtain c3 where c3: "process c2 = Some (c3, True)" "querybuf c3 = querybuf c2"
        "REDIS_BLOCKED \<in> flags c3 \<longleftrightarrow> REDIS_BLOCKED \<in> flags c2" "REDIS_CLOSE_AFTER_REPLY \<in> flags c3 \<longleftrightarrow> REDIS_CLOSE_AFTER_REPLY \<in> flags c2"
        using assms(1) unfolding commands_run_def by blast
      have "stream (resetClient c3) cmds fut" using c3 a fl r(2) by (auto simp: stream_def idle_def resetClient_def)
      from Cons.IH[OF this, of "done1 @ [cmd]"] Cons.prems(2) obtain c' n where
        n: "processInputBuffer env process (resetClient c3) (done1 @ [cmd]) = Some (c', (done1 @ [cmd]) @ take n cmds)" "n \<le> length cmds"
        "stream c' (drop n cmds) fut" "fut = [] \<longrightarrow> querybuf c' = []" "waits c' 0" by auto
      have "processInputBuffer env process c done1 = processInputBuffer env process (resetClient c3) (done1 @ [cmd])"
        using False fl f(2) r(1) yes a(1,2) c3(1) by (subst processInputBuffer.simps) (simp add: c1[symmetric] Let_def)
      then show ?thesis using n by (intro exI[of _ c'] exI[of _ "Suc n"]) simp
    qed
  qed
qed

subsection \<open>Pieces of a stream\<close>

text \<open>What a read may add to the buffer of a parser that waits.\<close>

lemma read_length_pos: "waits c 0 \<Longrightarrow> 0 < read_length c"
  by (auto simp: read_length_def waits_def REDIS_IOBUF_LEN_def)

lemma stream_append:
  assumes "stream c cmds (xs @ fut)" "waits c 0" "int (length xs) \<le> read_length c"
  shows "stream (c\<lparr>querybuf := querybuf c @ xs\<rparr>) cmds fut"
proof -
  have "bulklen c \<noteq> -1 \<longrightarrow> reqtype c = 2 \<and> multibulklen c \<noteq> 0" using assms(1) by (auto simp: stream_def idle_def inside_def args_inv_def)
  then have "length (querybuf c @ xs) \<le> REDIS_INLINE_MAX_SIZE \<or>
      reqtype c = 2 \<and> multibulklen c \<noteq> 0 \<and> bulklen c \<ge> int REDIS_MBULK_BIG_ARG \<and> int (length (querybuf c @ xs)) \<le> bulklen c + 2"
    using assms(2,3) unfolding waits_def read_length_def REDIS_INLINE_MAX_SIZE_def REDIS_MBULK_BIG_ARG_def REDIS_IOBUF_LEN_def
    by (cases "bulklen c = -1") (auto split: if_splits)
  then show ?thesis using assms(1) by (auto simp: stream_def idle_def inside_def args_inv_def)
qed

text \<open>
  A connection that delivers \<open>bytes\<close>; the \<open>i\<close>th read gets at most \<open>ks ! i + 1\<close> bytes and never more
  than it asks for.  The result is the client, what was not read yet, and the commands that were
  executed.
\<close>

fun serve :: "net_env \<Rightarrow> (redisClient \<Rightarrow> (redisClient \<times> bool) option) \<Rightarrow> nat \<Rightarrow> redisClient \<Rightarrow> string \<Rightarrow> nat list \<Rightarrow>
    (redisClient option \<times> string \<times> string list list) option" where
  "serve env process limit c bytes [] = Some (Some c, bytes, [])"
| "serve env process limit c bytes (k # ks) =
     (let recv = (\<lambda>n. if bytes = [] then Read_again else Read_bytes (take (min (Suc k) (nat n)) bytes))
      in do { (oc, done1) \<leftarrow> readQueryFromClient env process limit recv c;
              case oc of
                None \<Rightarrow> Some (None, bytes, done1)
              | Some c' \<Rightarrow> do { (oc, rest, done2) \<leftarrow> serve env process limit c' (drop (min (Suc k) (nat (read_length c))) bytes) ks;
                                Some (oc, rest, done1 @ done2) } })"

definition limit_ok :: "nat \<Rightarrow> string list list \<Rightarrow> bool" where
  "limit_ok limit cmds \<longleftrightarrow> REDIS_INLINE_MAX_SIZE \<le> limit \<and> list_all (list_all (\<lambda>a. length a + 2 \<le> limit)) cmds"

lemma stream_limit:
  assumes "stream c cmds fut" "limit_ok limit cmds"
  shows "length (querybuf c) \<le> limit"
  using assms unfolding stream_def
proof (elim conjE disjE)
  assume "inside c cmds fut"
  then obtain rest later where r: "rest \<noteq> []" "cmds = (argv c @ rest) # later" "args_inv c 0 rest (concat (map encode later)) fut"
    by (auto simp: inside_def)
  then have "length (hd rest) + 2 \<le> limit" using assms(2) by (cases rest) (auto simp: limit_ok_def)
  then show ?thesis using r(3) assms(2) by (auto simp: args_inv_def limit_ok_def)
qed (auto simp: idle_def limit_ok_def)

lemma take_then_drop: "xs = take n xs @ drop (min (length xs) n) xs"
  by (simp add: min_def)

lemma read_step:
  assumes "commands_run process" "stream c cmds bytes" "waits c 0" "list_all cmd_ok cmds" "limit_ok limit cmds" "bytes \<noteq> []" "0 < k"
  defines "xs \<equiv> take (min k (nat (read_length c))) bytes"
  shows "\<exists>c' n. readQueryFromClient env process limit (\<lambda>n. if bytes = [] then Read_again else Read_bytes (take (min k (nat n)) bytes)) c =
      Some (Some c', take n cmds) \<and> stream c' (drop n cmds) (drop (length xs) bytes) \<and> waits c' 0 \<and>
      (drop (length xs) bytes = [] \<longrightarrow> querybuf c' = []) \<and> xs \<noteq> []"
proof -
  have p: "0 < read_length c" by (rule read_length_pos[OF assms(3)])
  have xs: "xs \<noteq> []" "int (length xs) \<le> read_length c" "bytes = xs @ drop (length xs) bytes"
    using p assms(6,7) take_then_drop[of bytes] by (auto simp: xs_def)
  obtain fut where fut: "fut = drop (length xs) bytes" by simp
  have st: "stream (c\<lparr>querybuf := querybuf c @ xs\<rparr>) cmds fut"
    using stream_append[of c cmds xs fut] assms(2,3) xs(2,3) fut by simp
  have "length (querybuf c @ xs) \<le> limit" using stream_limit[OF st assms(5)] by simp
  moreover from processInputBuffer_spec[OF assms(1) st assms(4), of env "[]"] obtain c1 n where
    f: "feed env process c xs = Some (c1, take n cmds)" "stream c1 (drop n cmds) fut" "fut = [] \<longrightarrow> querybuf c1 = []" "waits c1 0"
    by (auto simp: feed_def)
  ultimately have "readQueryFromClient env process limit (\<lambda>n. if bytes = [] then Read_again else Read_bytes (take (min k (nat n)) bytes)) c =
      Some (Some c1, take n cmds)" using assms(6) xs(1) by (simp add: readQueryFromClient_def xs_def[symmetric])
  then show ?thesis using f(2-4) xs(1) fut by (intro exI[of _ c1] exI[of _ n]) simp
qed

lemma serve_spec:
  assumes "commands_run process" "stream c cmds bytes" "waits c 0" "list_all cmd_ok cmds" "limit_ok limit cmds"
    "length bytes \<le> length ks" "bytes \<noteq> [] \<or> querybuf c = []"
  shows "\<exists>c'. serve env process limit c bytes ks = Some (Some c', [], cmds) \<and> querybuf c' = []"
  using assms(2-7)
proof (induction ks arbitrary: c cmds bytes)
  case Nil
  then have "stream c cmds []" "querybuf c = []" by simp_all
  moreover from stream_no_future[OF this] have "cmds = []" .
  ultimately show ?case using Nil.prems(5) by simp
next
  case (Cons k ks)
  let ?l = "list_all cmd_ok" and ?m = "limit_ok limit"
  show ?case
  proof (cases "bytes = []")
    case True
    then have "serve env process limit c bytes (k # ks) = serve env process limit c [] ks"
      by (simp add: readQueryFromClient_def split_def)
    then show ?thesis using Cons.IH[of c cmds "[]"] Cons.prems True by simp
  next
    case False
    obtain xs where xs: "xs = take (min (Suc k) (nat (read_length c))) bytes" by simp
    from read_step[OF assms(1) Cons.prems(1-4) False, of "Suc k" env] obtain c1 n where
      r: "readQueryFromClient env process limit (\<lambda>n. if bytes = [] then Read_again else Read_bytes (take (min (Suc k) (nat n)) bytes)) c =
        Some (Some c1, take n cmds)" "stream c1 (drop n cmds) (drop (length xs) bytes)" "waits c1 0"
      "drop (length xs) bytes = [] \<longrightarrow> querybuf c1 = []" "xs \<noteq> []" unfolding xs by blast
    have d: "drop (min (Suc k) (nat (read_length c))) bytes = drop (length xs) bytes" unfolding xs by (simp add: min_def)
    have "?l (drop n cmds)" "?m (drop n cmds)" using Cons.prems(3,4) by (auto simp: list_all_iff limit_ok_def dest: in_set_dropD)
    moreover have "length (drop (length xs) bytes) \<le> length ks" using r(5) Cons.prems(5) False by (cases xs) auto
    ultimately obtain c' where c': "serve env process limit c1 (drop (length xs) bytes) ks = Some (Some c', [], drop n cmds)" "querybuf c' = []"
      using Cons.IH[OF r(2,3)] r(4) by blast
    have "serve env process limit c bytes (k # ks) = Some (Some c', [], take n cmds @ drop n cmds)"
      unfolding serve.simps Let_def r(1) d by (simp add: c'(1))
    then show ?thesis using c'(2) by simp
  qed
qed

lemma createClient_stream:
  assumes "createClient env junk fd0 = Some c"
  shows "stream c cmds (concat (map encode cmds))" "waits c 0" "querybuf c = []"
  using assms by (auto simp: createClient_def stream_def idle_def waits_def REDIS_MBULK_BIG_ARG_def split: if_splits)



subsection \<open>Inline requests on lines\<close>

lemma find_char_line: "LF \<notin> set l \<Longrightarrow> NUL \<notin> set l \<Longrightarrow> find_char LF (l @ LF # rest) = Some (length l)"
  by (rule find_char_Some)

text \<open>A line with either ending.\<close>

lemma processInlineBuffer_line:
  assumes "querybuf c = l @ LF # rest" "LF \<notin> set l" "NUL \<notin> set l"
  defines "q \<equiv> (if l \<noteq> [] \<and> last l = CR then butlast l else l)"
  assumes "sdssplitargs (q @ [NUL]) = Some (Some args)"
  shows "\<exists>c'. processInlineBuffer env c = Some (c', True) \<and> argv c' = filter (\<lambda>a. a \<noteq> []) args \<and>
    querybuf c' = (if l \<noteq> [] \<and> last l = CR then rest else tl rest) \<and> flags c' = flags c"
proof -
  have n: "find_char LF (querybuf c) = Some (length l)" unfolding assms(1) by (rule find_char_line[OF assms(2,3)])
  let ?cr = "l \<noteq> [] \<and> last l = CR"
  let ?n = "if ?cr then length l - 1 else length l"
  have e: "(length l \<noteq> 0 \<and> querybuf c ! (length l - 1) = CR) \<longleftrightarrow> ?cr" unfolding assms(1) by (auto simp: nth_append last_conv_nth)
  have t: "take ?n (querybuf c) = q" unfolding assms(1) q_def by (auto simp: butlast_conv_take)
  have d: "slice (querybuf c) (int (?n + 2)) (- 1) = (if ?cr then rest else tl rest)"
    unfolding slice_drop assms(1) by (auto simp: drop_Suc)
  have f: "filter (\<lambda>a. length a \<noteq> 0) args = filter (\<lambda>a. a \<noteq> []) args" by simp
  obtain c1 where c1: "c1 = (if ?n = 0 \<and> REDIS_SLAVE \<in> flags c then c\<lparr>repl_ack_time := unixtime env\<rparr> else c)" by simp
  have q: "querybuf c1 = querybuf c" "flags c1 = flags c" by (simp_all add: c1)
  have "processInlineBuffer env c =
      Some (c1\<lparr>querybuf := slice (querybuf c1) (int (?n + 2)) (- 1), argv_size := length args, argv := filter (\<lambda>a. a \<noteq> []) args\<rparr>, True)"
    unfolding processInlineBuffer_def n option.case Let_def e t assms(5) f c1 by simp
  then show ?thesis unfolding q d by (auto simp: q)
qed

text \<open>
  C30. An inline request that ends with a carriage return and a line feed is taken out of the query
  buffer exactly, and its nonempty arguments become the command.  When a bare line feed ends it,
  which the code accepts as well, two bytes are still dropped: the first byte of what follows is
  lost.
\<close>

theorem processInlineBuffer_line_ends:
  assumes "LF \<notin> set l" "CR \<notin> set l" "NUL \<notin> set l" "sdssplitargs (l @ [NUL]) = Some (Some args)"
  shows "(\<exists>c'. processInlineBuffer env (c\<lparr>querybuf := l @ crlf @ rest\<rparr>) = Some (c', True) \<and> argv c' = filter (\<lambda>a. a \<noteq> []) args \<and> querybuf c' = rest) \<and>
    (\<exists>c'. processInlineBuffer env (c\<lparr>querybuf := l @ LF # rest\<rparr>) = Some (c', True) \<and> argv c' = filter (\<lambda>a. a \<noteq> []) args \<and> querybuf c' = tl rest)"
proof
  have l: "\<not> (l \<noteq> [] \<and> last l = CR)" using assms(2) last_in_set by metis
  show "\<exists>c'. processInlineBuffer env (c\<lparr>querybuf := l @ crlf @ rest\<rparr>) = Some (c', True) \<and> argv c' = filter (\<lambda>a. a \<noteq> []) args \<and> querybuf c' = rest"
    using processInlineBuffer_line[of "c\<lparr>querybuf := l @ crlf @ rest\<rparr>" "l @ [CR]" rest args env] assms by (auto simp: crlf_def)
  show "\<exists>c'. processInlineBuffer env (c\<lparr>querybuf := l @ LF # rest\<rparr>) = Some (c', True) \<and> argv c' = filter (\<lambda>a. a \<noteq> []) args \<and> querybuf c' = tl rest"
    using processInlineBuffer_line[of "c\<lparr>querybuf := l @ LF # rest\<rparr>" l rest args env] assms l by auto
qed

theorem processInlineBuffer_line_ends_witness:
  "(\<exists>c'. processInlineBuffer quiet_env (new_client\<lparr>querybuf := ''PING'' @ crlf @ ''QUIT''\<rparr>) = Some (c', True) \<and>
      argv c' = filter (\<lambda>a. a \<noteq> []) [''PING''] \<and> querybuf c' = ''QUIT'') \<and>
   (\<exists>c'. processInlineBuffer quiet_env (new_client\<lparr>querybuf := ''PING'' @ LF # ''QUIT''\<rparr>) = Some (c', True) \<and>
      argv c' = filter (\<lambda>a. a \<noteq> []) [''PING''] \<and> querybuf c' = tl ''QUIT'')"
proof (rule processInlineBuffer_line_ends)
  show "sdssplitargs (''PING'' @ [NUL]) = Some (Some [''PING''])" by code_simp
qed simp_all

end
