(* ===== verification/Replication.thy ===== *)
theory Replication
  imports Query
begin

text \<open>
  The master side of replication (\<open>src/redis/src/replication.c\<close>): the backlog, a circular buffer of
  the last bytes of the replication stream; the feeding of commands to the backlog and to the
  slaves; the partial resynchronization of a slave that was away; and the feeding of monitors.

  The offsets count bytes and are integers; the sizes are natural numbers.  The slaves are the
  clients of the theory on replies.  A failed assertion, an access out of bounds and a loop that
  does not end are \<open>None\<close>.
\<close>

record repl_server =
  repl_backlog :: "string option"
  repl_backlog_size :: nat
  repl_backlog_histlen :: nat
  repl_backlog_idx :: nat
  repl_backlog_off :: int
  master_repl_offset :: int
  slaveseldb :: int
  slaves :: "redisClient list"
  runid :: string

definition REDIS_REPL_WAIT_BGSAVE_START :: nat where
  "REDIS_REPL_WAIT_BGSAVE_START = 6"

definition REDIS_REPL_ONLINE :: nat where
  "REDIS_REPL_ONLINE = 9"

definition REDIS_REPL_BACKLOG_MIN_SIZE :: nat where
  "REDIS_REPL_BACKLOG_MIN_SIZE = 1024 * 16"

definition REDIS_LONGSTR_SIZE :: nat where
  "REDIS_LONGSTR_SIZE = 21"

subsection \<open>The backlog\<close>

definition createReplicationBacklog :: "(nat \<Rightarrow> char) \<Rightarrow> repl_server \<Rightarrow> repl_server option" where
  "createReplicationBacklog junk r =
     (if repl_backlog r \<noteq> None then None
      else let r = r\<lparr>repl_backlog := Some (map junk [0..<repl_backlog_size r]), repl_backlog_histlen := 0, repl_backlog_idx := 0,
                     master_repl_offset := master_repl_offset r + 1\<rparr>
           in Some (r\<lparr>repl_backlog_off := master_repl_offset r + 1\<rparr>))"

definition resizeReplicationBacklog :: "(nat \<Rightarrow> char) \<Rightarrow> repl_server \<Rightarrow> int \<Rightarrow> repl_server" where
  "resizeReplicationBacklog junk r newsize0 =
     (let newsize = (if newsize0 < int REDIS_REPL_BACKLOG_MIN_SIZE then REDIS_REPL_BACKLOG_MIN_SIZE else nat newsize0) in
      if repl_backlog_size r = newsize then r
      else let r = r\<lparr>repl_backlog_size := newsize\<rparr>
           in if repl_backlog r \<noteq> None
              then r\<lparr>repl_backlog := Some (map junk [0..<repl_backlog_size r]), repl_backlog_histlen := 0, repl_backlog_idx := 0,
                     repl_backlog_off := master_repl_offset r + 1\<rparr>
              else r)"

definition freeReplicationBacklog :: "repl_server \<Rightarrow> repl_server option" where
  "freeReplicationBacklog r = (if slaves r \<noteq> [] then None else Some (r\<lparr>repl_backlog := None\<rparr>))"

text \<open>The copying loop, on the buffer, its index and the length of the history.\<close>

partial_function (option) backlog_loop :: "nat \<Rightarrow> string \<Rightarrow> nat \<Rightarrow> nat \<Rightarrow> string \<Rightarrow> (string \<times> nat \<times> nat) option" where
  "backlog_loop sz b idx hist p =
     (if p = [] then Some (b, idx, hist)
      else let thislen = (if sz - idx > length p then length p else sz - idx)
           in Option.bind (mem_write b idx (take thislen p)) (\<lambda>b.
                backlog_loop sz b (if idx + thislen = sz then 0 else idx + thislen) (hist + thislen) (drop thislen p)))"

definition feedReplicationBacklog :: "repl_server \<Rightarrow> string \<Rightarrow> repl_server option" where
  "feedReplicationBacklog r p =
     (let r = r\<lparr>master_repl_offset := master_repl_offset r + int (length p)\<rparr> in
      case repl_backlog r of
        None \<Rightarrow> None
      | Some b \<Rightarrow>
          do { (b, idx, hist) \<leftarrow> backlog_loop (repl_backlog_size r) b (repl_backlog_idx r) (repl_backlog_histlen r) p;
               let r = r\<lparr>repl_backlog := Some b, repl_backlog_idx := idx,
                         repl_backlog_histlen := (if hist > repl_backlog_size r then repl_backlog_size r else hist)\<rparr>;
               Some (r\<lparr>repl_backlog_off := master_repl_offset r - int (repl_backlog_histlen r) + 1\<rparr>) })"

definition feedReplicationBacklogWithObject :: "(nat \<Rightarrow> char) \<Rightarrow> repl_server \<Rightarrow> robj \<Rightarrow> repl_server option" where
  "feedReplicationBacklogWithObject junk r obj =
     (case obj of
        ENC_INT n \<Rightarrow> do { (m, len) \<leftarrow> int_text junk REDIS_LONGSTR_SIZE n; p \<leftarrow> mem_read m 0 len; feedReplicationBacklog r p }
      | ENC_RAW s \<Rightarrow> feedReplicationBacklog r s)"

subsection \<open>Feeding slaves\<close>

definition REDIS_SHARED_SELECT_CMDS :: int where
  "REDIS_SHARED_SELECT_CMDS = 10"

text \<open>The shared object, made with a buffer of 64 bytes at start-up, or a new one.\<close>

definition select_cmd :: "(nat \<Rightarrow> char) \<Rightarrow> int \<Rightarrow> robj option" where
  "select_cmd junk dictid =
     do { (m, len) \<leftarrow> int_text junk (if dictid \<ge> 0 \<and> dictid < REDIS_SHARED_SELECT_CMDS then 64 else REDIS_LONGSTR_SIZE) dictid;
          Some (ENC_RAW (''*2'' @ crlf @ ''$6'' @ crlf @ ''SELECT'' @ crlf @ ''$'' @ dec_int (int len) @ crlf @
                         takeWhile (\<lambda>ch. ch \<noteq> NUL) m @ crlf)) }"

text \<open>A line of the stream in the local array \<open>aux\<close>: a mark, a number and a line break.\<close>

definition aux_line :: "(nat \<Rightarrow> char) \<Rightarrow> char \<Rightarrow> int \<Rightarrow> string option" where
  "aux_line junk ch n =
     do { (m, len) \<leftarrow> int_text junk (REDIS_LONGSTR_SIZE + 3 - 1) n;
          s \<leftarrow> mem_read m 0 len;
          if len + 2 < REDIS_LONGSTR_SIZE + 3 then Some (ch # s @ crlf) else None }"

fun backlog_args :: "(nat \<Rightarrow> char) \<Rightarrow> repl_server \<Rightarrow> robj list \<Rightarrow> repl_server option" where
  "backlog_args junk r [] = Some r"
| "backlog_args junk r (a # as) =
     do { objlen \<leftarrow> stringObjectLen junk a;
          aux \<leftarrow> aux_line junk (CHR ''$'') (int objlen);
          r \<leftarrow> feedReplicationBacklog r aux;
          r \<leftarrow> feedReplicationBacklogWithObject junk r a;
          r \<leftarrow> feedReplicationBacklog r crlf;
          backlog_args junk r as }"

definition backlog_command :: "(nat \<Rightarrow> char) \<Rightarrow> repl_server \<Rightarrow> robj list \<Rightarrow> repl_server option" where
  "backlog_command junk r as =
     do { aux \<leftarrow> aux_line junk (CHR ''*'') (int (length as));
          r \<leftarrow> feedReplicationBacklog r aux;
          backlog_args junk r as }"

fun bulk_args :: "net_env \<Rightarrow> (nat \<Rightarrow> char) \<Rightarrow> redisClient \<Rightarrow> robj list \<Rightarrow> redisClient option" where
  "bulk_args env junk c [] = Some c"
| "bulk_args env junk c (a # as) = do { c \<leftarrow> addReplyBulk env junk c a; bulk_args env junk c as }"

definition feed_slave :: "net_env \<Rightarrow> (nat \<Rightarrow> char) \<Rightarrow> robj list \<Rightarrow> redisClient \<Rightarrow> redisClient option" where
  "feed_slave env junk as slave =
     (if replstate slave = REDIS_REPL_WAIT_BGSAVE_START then Some slave
      else do { slave \<leftarrow> addReplyMultiBulkLen env junk slave (of_nat (length as)); bulk_args env junk slave as })"

fun each_client :: "(redisClient \<Rightarrow> redisClient option) \<Rightarrow> redisClient list \<Rightarrow> redisClient list option" where
  "each_client f [] = Some []"
| "each_client f (c # cs) = do { c \<leftarrow> f c; cs \<leftarrow> each_client f cs; Some (c # cs) }"

definition feed_select :: "net_env \<Rightarrow> (nat \<Rightarrow> char) \<Rightarrow> repl_server \<Rightarrow> int \<Rightarrow> repl_server option" where
  "feed_select env junk r dictid =
     (if slaveseldb r \<noteq> dictid
      then do { selectcmd \<leftarrow> select_cmd junk dictid;
                r \<leftarrow> (if repl_backlog r \<noteq> None then feedReplicationBacklogWithObject junk r selectcmd else Some r);
                cs \<leftarrow> each_client (\<lambda>slave. addReply env junk slave selectcmd) (slaves r);
                Some (r\<lparr>slaves := cs\<rparr>) }
      else Some r)"

definition replicationFeedSlaves :: "net_env \<Rightarrow> (nat \<Rightarrow> char) \<Rightarrow> repl_server \<Rightarrow> int \<Rightarrow> robj list \<Rightarrow> repl_server option" where
  "replicationFeedSlaves env junk r dictid as =
     (if repl_backlog r = None \<and> slaves r = [] then Some r
      else if slaves r \<noteq> [] \<and> repl_backlog r = None then None
      else do { r \<leftarrow> feed_select env junk r dictid;
                let r = r\<lparr>slaveseldb := dictid\<rparr>;
                r \<leftarrow> (if repl_backlog r \<noteq> None then backlog_command junk r as else Some r);
                cs \<leftarrow> each_client (feed_slave env junk as) (slaves r);
                Some (r\<lparr>slaves := cs\<rparr>) })"

subsection \<open>Partial resynchronization\<close>

text \<open>The loop that sends the history from index \<open>j\<close> on, in at most two parts.\<close>

partial_function (option) backlog_reply :: "net_env \<Rightarrow> nat \<Rightarrow> string \<Rightarrow> redisClient \<Rightarrow> nat \<Rightarrow> nat \<Rightarrow> redisClient option" where
  "backlog_reply env sz b c j len =
     (if len = 0 then Some c
      else let thislen = (if sz - j < len then sz - j else len)
           in Option.bind (mem_read b j thislen) (\<lambda>s. Option.bind (addReplySds env c s) (\<lambda>c. backlog_reply env sz b c 0 (len - thislen))))"

text \<open>
  The second remainder is that of C, of the sign of the dividend.  The result also holds the number
  of bytes that are sent.
\<close>

definition addReplyReplicationBacklog :: "net_env \<Rightarrow> repl_server \<Rightarrow> redisClient \<Rightarrow> int \<Rightarrow> (redisClient \<times> int) option" where
  "addReplyReplicationBacklog env r c offset =
     (if repl_backlog_histlen r = 0 then Some (c, 0)
      else let skip = offset - repl_backlog_off r;
               sz = repl_backlog_size r;
               j = (int (repl_backlog_idx r) + (int sz - int (repl_backlog_histlen r))) mod int sz;
               j = (if j + skip < 0 then - ((- (j + skip)) mod int sz) else (j + skip) mod int sz);
               len = int (repl_backlog_histlen r) - skip
           in if j < 0 \<or> len < 0 then None
              else do { b \<leftarrow> repl_backlog r;
                        c \<leftarrow> backlog_reply env sz b c (nat j) (nat len);
                        Some (c, len) })"

text \<open>\<open>strcasecmp\<close> of two C strings is 0.\<close>

definition same_nocase :: "string \<Rightarrow> string \<Rightarrow> bool" where
  "same_nocase a b \<longleftrightarrow> map tolower (takeWhile (\<lambda>ch. ch \<noteq> NUL) a) = map tolower (takeWhile (\<lambda>ch. ch \<noteq> NUL) b)"

text \<open>
  \<open>written\<close> tells whether the direct write to the socket takes all its bytes.  The result holds the
  server, the client, the bytes of the direct write, and whether it is \<open>REDIS_OK\<close>.  A client that
  was accepted is the last of the slaves.
\<close>

definition full_resync :: "bool \<Rightarrow> repl_server \<Rightarrow> redisClient \<Rightarrow> (repl_server \<times> redisClient \<times> string \<times> bool) option" where
  "full_resync written r c =
     (let psync_offset = (if repl_backlog r = None then master_repl_offset r + 1 else master_repl_offset r);
          s = ''+FULLRESYNC '' @ takeWhile (\<lambda>ch. ch \<noteq> NUL) (runid r) @ '' '' @ dec_int psync_offset @ crlf
      in if length s \<ge> 128 then None
         else if \<not> written then Some (r, freeClientAsync c, [], True)
         else Some (r, c, s, False))"

definition masterTryPartialResynchronization ::
    "net_env \<Rightarrow> bool \<Rightarrow> repl_server \<Rightarrow> redisClient \<Rightarrow> (repl_server \<times> redisClient \<times> string \<times> bool) option" where
  "masterTryPartialResynchronization env written r c =
     (if length (argv c) < 3 then None
      else if \<not> same_nocase (argv c ! 1) (runid r) then full_resync written r c
      else case getLongLongFromObject (Some (ENC_RAW (argv c ! 2))) of
             None \<Rightarrow> do { c \<leftarrow> addReplyError env c ''value is not an integer or out of range''; full_resync written r c }
           | Some psync_offset \<Rightarrow>
               if repl_backlog r = None \<or> psync_offset < repl_backlog_off r \<or>
                  psync_offset > repl_backlog_off r + int (repl_backlog_histlen r)
               then full_resync written r c
               else let c = c\<lparr>flags := insert REDIS_SLAVE (flags c), replstate := REDIS_REPL_ONLINE, repl_ack_time := unixtime env\<rparr>
                    in if \<not> written
                       then let c = freeClientAsync c in Some (r\<lparr>slaves := slaves r @ [c]\<rparr>, c, [], True)
                       else do { (c, psync_len) \<leftarrow> addReplyReplicationBacklog env r c psync_offset;
                                 Some (r\<lparr>slaves := slaves r @ [c]\<rparr>, c, ''+CONTINUE'' @ crlf, True) })"

subsection \<open>Feeding monitors\<close>

text \<open>The formats \<open>%ld.%06ld\<close> and \<open>[%d %s]\<close>; the name of the connection is \<open>lua\<close>, a socket path or an address.\<close>

definition monitor_time :: "int \<Rightarrow> int \<Rightarrow> string" where
  "monitor_time sec usec = dec_int sec @ ''.'' @ replicate (6 - length (dec_int usec)) (CHR ''0'') @ dec_int usec @ '' ''"

definition monitor_origin :: "redisClient \<Rightarrow> string \<Rightarrow> int \<Rightarrow> string" where
  "monitor_origin c peer dictid = ''['' @ dec_int dictid @ '' '' @ (if REDIS_LUA_CLIENT \<in> flags c then ''lua'' else peer) @ ''] ''"

fun monitor_args :: "(nat \<Rightarrow> char) \<Rightarrow> sdshdr \<Rightarrow> robj list \<Rightarrow> sdshdr option" where
  "monitor_args junk s [] = Some s"
| "monitor_args junk s (a # as) =
     do { s \<leftarrow> (case a of
                 ENC_INT n \<Rightarrow> sdscat junk s ([DQ] @ dec_int n @ [DQ, NUL])
               | ENC_RAW t \<Rightarrow> sdscatrepr junk s t (length t));
          s \<leftarrow> (if as \<noteq> [] then sdscatlen junk s [CHR 0x20] 1 else Some s);
          monitor_args junk s as }"

definition replicationFeedMonitors ::
    "net_env \<Rightarrow> (nat \<Rightarrow> char) \<Rightarrow> redisClient \<Rightarrow> string \<Rightarrow> int \<times> int \<Rightarrow> redisClient list \<Rightarrow> int \<Rightarrow> robj list \<Rightarrow> redisClient list option" where
  "replicationFeedMonitors env junk c peer now monitors dictid as =
     do { cmdrepr \<leftarrow> sdsnew (Some (''+'' @ [NUL]));
          cmdrepr \<leftarrow> sdscat junk cmdrepr (monitor_time (fst now) (snd now) @ [NUL]);
          cmdrepr \<leftarrow> sdscat junk cmdrepr (monitor_origin c peer dictid @ [NUL]);
          cmdrepr \<leftarrow> monitor_args junk cmdrepr as;
          cmdrepr \<leftarrow> sdscatlen junk cmdrepr crlf 2;
          each_client (\<lambda>monitor. addReply env junk monitor (ENC_RAW (sds_str cmdrepr))) monitors }"

subsection \<open>The backlog as a window on the stream\<close>

text \<open>The last \<open>n\<close> elements of a list.\<close>

definition lastn :: "nat \<Rightarrow> 'a list \<Rightarrow> 'a list" where
  "lastn n xs = drop (length xs - n) xs"

lemma length_lastn [simp]: "length (lastn n xs) = min n (length xs)"
  by (simp add: lastn_def min_def)

lemma lastn_append: "lastn n (lastn n xs @ ys) = lastn n (xs @ ys)"
  by (cases "n \<le> length xs") (simp_all add: lastn_def add.commute)

text \<open>The buffer from its oldest byte on.\<close>

definition rotation :: "string \<Rightarrow> nat \<Rightarrow> string" where
  "rotation b idx = drop idx b @ take idx b"

lemma length_rotation [simp]: "length (rotation b idx) = length b"
  by (simp add: rotation_def)

lemma rotation_write:
  assumes "idx + length t \<le> length b" "0 < length b"
  shows "mem_write b idx t = Some (take idx b @ t @ drop (idx + length t) b)"
    "rotation (take idx b @ t @ drop (idx + length t) b) (if idx + length t = length b then 0 else idx + length t) = drop (length t) (rotation b idx) @ t"
  using assms by (auto simp: mem_write_def rotation_def add.commute)

lemma backlog_loop_spec:
  assumes "idx < length b"
  shows "\<exists>b' idx'. backlog_loop (length b) b idx hist p = Some (b', idx', hist + length p) \<and> length b' = length b \<and> idx' < length b' \<and>
    rotation b' idx' = lastn (length b) (rotation b idx @ p)"
  using assms
proof (induction p arbitrary: b idx hist rule: length_induct)
  case (1 p)
  show ?case
  proof (cases "p = []")
    case True
    then show ?thesis using 1(2) by (subst backlog_loop.simps) (simp add: lastn_def)
  next
    case False
    define k where "k = (if length b - idx > length p then length p else length b - idx)"
    have k: "0 < k" "k \<le> length p" "idx + k \<le> length b" using 1(2) False by (auto simp: k_def)
    let ?t = "take k p"
    let ?b = "take idx b @ ?t @ drop (idx + k) b"
    let ?i = "if idx + k = length b then 0 else idx + k"
    have lt: "length ?t = k" using k by simp
    have w: "mem_write b idx ?t = Some ?b" "rotation ?b ?i = drop k (rotation b idx) @ ?t" "length ?b = length b" "?i < length ?b"
      using rotation_write[of idx ?t b] k 1(2) lt by force+
    have "length (drop k p) < length p" using k False by simp
    from 1(1)[rule_format, OF this w(4), of "hist + k"] obtain b' idx' where
      r: "backlog_loop (length b) ?b ?i (hist + k) (drop k p) = Some (b', idx', hist + k + length (drop k p))" "length b' = length b" "idx' < length b'"
      "rotation b' idx' = lastn (length b) (rotation ?b ?i @ drop k p)" unfolding w(3) by blast
    have "backlog_loop (length b) b idx hist p = backlog_loop (length b) ?b ?i (hist + k) (drop k p)"
      using False w(1) unfolding k_def by (subst backlog_loop.simps) (simp add: Let_def)
    moreover have "lastn (length b) (rotation ?b ?i @ drop k p) = lastn (length b) (rotation b idx @ p)"
    proof -
      have "rotation ?b ?i @ drop k p = drop k (rotation b idx) @ p" unfolding w(2) by simp
      then show ?thesis using k 1(2) by (simp add: lastn_def)
    qed
    ultimately show ?thesis using r k by (intro exI[of _ b'] exI[of _ idx']) simp
  qed
qed

definition backlog_ok :: "repl_server \<Rightarrow> bool" where
  "backlog_ok r \<longleftrightarrow> (\<exists>b. repl_backlog r = Some b \<and> length b = repl_backlog_size r) \<and> repl_backlog_idx r < repl_backlog_size r \<and>
     repl_backlog_histlen r \<le> repl_backlog_size r \<and> repl_backlog_off r = master_repl_offset r - int (repl_backlog_histlen r) + 1"

text \<open>The bytes that can be sent again.\<close>

definition window :: "repl_server \<Rightarrow> string" where
  "window r = (case repl_backlog r of None \<Rightarrow> [] | Some b \<Rightarrow> lastn (repl_backlog_histlen r) (rotation b (repl_backlog_idx r)))"

definition backlog_only :: "repl_server \<Rightarrow> repl_server \<Rightarrow> bool" where
  "backlog_only r r' \<longleftrightarrow> repl_backlog_size r' = repl_backlog_size r \<and> slaveseldb r' = slaveseldb r \<and> slaves r' = slaves r \<and> runid r' = runid r"

lemma lastn_lastn: "n \<le> m \<Longrightarrow> lastn n (lastn m xs) = lastn n xs"
  by (cases "m \<le> length xs") (simp_all add: lastn_def)

lemma feedReplicationBacklog_spec:
  assumes "backlog_ok r"
  shows "\<exists>r'. feedReplicationBacklog r p = Some r' \<and> backlog_ok r' \<and> window r' = lastn (repl_backlog_size r) (window r @ p) \<and>
    repl_backlog_histlen r' = min (repl_backlog_size r) (repl_backlog_histlen r + length p) \<and>
    master_repl_offset r' = master_repl_offset r + int (length p) \<and> backlog_only r r'"
proof -
  let ?n = "repl_backlog_size r" and ?h = "repl_backlog_histlen r" and ?i = "repl_backlog_idx r"
  from assms obtain b where b: "repl_backlog r = Some b" "length b = ?n" "?i < length b" "?h \<le> ?n"
    "repl_backlog_off r = master_repl_offset r - int ?h + 1" by (auto simp: backlog_ok_def)
  from backlog_loop_spec[OF b(3), of ?h p] obtain b' i' where
    l: "backlog_loop ?n b ?i ?h p = Some (b', i', ?h + length p)" "length b' = ?n" "i' < length b'"
    "rotation b' i' = lastn ?n (rotation b ?i @ p)" unfolding b(2) by blast
  let ?h' = "min ?n (?h + length p)"
  let ?r = "r\<lparr>master_repl_offset := master_repl_offset r + int (length p), repl_backlog := Some b', repl_backlog_idx := i',
      repl_backlog_histlen := ?h', repl_backlog_off := master_repl_offset r + int (length p) - int ?h' + 1\<rparr>"
  have f: "feedReplicationBacklog r p = Some ?r"
    unfolding feedReplicationBacklog_def by (simp add: b(1) l(1) Let_def min_def)
  have "lastn ?h' (lastn ?n (rotation b ?i @ p)) = lastn ?n (lastn ?h (rotation b ?i) @ p)"
    using b(2,4) by (auto simp: lastn_def min_def)
  then have "window ?r = lastn ?n (window r @ p)" by (simp add: window_def b(1) l(4))
  moreover have "backlog_ok ?r" using l(2,3) by (simp add: backlog_ok_def)
  ultimately show ?thesis using f by (intro exI[of _ ?r]) (simp add: backlog_only_def)
qed

text \<open>
  The server has sent the stream \<open>h\<close> since its backlog was made: the byte at position \<open>i\<close> of it has
  the offset \<open>base + i + 1\<close>.
\<close>

definition holds :: "repl_server \<Rightarrow> int \<Rightarrow> string \<Rightarrow> bool" where
  "holds r base h \<longleftrightarrow> backlog_ok r \<and> window r = lastn (repl_backlog_size r) h \<and>
     repl_backlog_histlen r = min (repl_backlog_size r) (length h) \<and> master_repl_offset r = base + int (length h)"

lemma holds_feed:
  assumes "holds r base h"
  shows "\<exists>r'. feedReplicationBacklog r p = Some r' \<and> holds r' base (h @ p) \<and> backlog_only r r'"
  using feedReplicationBacklog_spec[of r p] assms unfolding holds_def backlog_only_def
  by (auto simp: lastn_append)

lemma holds_create:
  assumes "createReplicationBacklog junk r = Some r'" "0 < repl_backlog_size r"
  shows "holds r' (master_repl_offset r + 1) []"
  using assms by (auto simp: createReplicationBacklog_def holds_def backlog_ok_def window_def lastn_def split: if_splits)

lemma holds_frame [simp]: "holds (r\<lparr>slaves := cs\<rparr>) = holds r" "holds (r\<lparr>slaveseldb := d\<rparr>) = holds r"
  by (auto simp: holds_def backlog_ok_def window_def fun_eq_iff split: option.splits)

text \<open>A new size empties the backlog; the stream of the slaves goes on.\<close>

lemma holds_resize:
  assumes "holds r base h"
  shows "holds (resizeReplicationBacklog junk r n) base h \<or> holds (resizeReplicationBacklog junk r n) (master_repl_offset r) []"
  using assms by (auto simp: resizeReplicationBacklog_def Let_def holds_def backlog_ok_def window_def lastn_def REDIS_REPL_BACKLOG_MIN_SIZE_def)

subsection \<open>Sending the window\<close>

lemma appends_sds: "out_inv c \<Longrightarrow> takes_replies env c \<Longrightarrow> appends env c s (addReplySds env c s)"
proof -
  have "addReplySds = addReplyString" unfolding addReplySds_def addReplyString_def list_variants ..
  then show "out_inv c \<Longrightarrow> takes_replies env c \<Longrightarrow> appends env c s (addReplySds env c s)" using appends_string by simp
qed

lemma backlog_reply_one:
  assumes "out_inv c" "takes_replies env c" "j + len \<le> length b" "0 < len"
  shows "appends env c (take len (drop j b)) (backlog_reply env (length b) b c j len)"
proof -
  from appends_sds[OF assms(1,2), of "take len (drop j b)"] obtain c1 where
    c1: "addReplySds env c (take len (drop j b)) = Some c1" "appends env c (take len (drop j b)) (Some c1)" by (auto simp: appends_def)
  have "backlog_reply env (length b) b c j len = backlog_reply env (length b) b c1 0 0"
    using assms(3,4) c1(1) by (subst backlog_reply.simps) (auto simp: Let_def mem_read_def)
  then show ?thesis using c1(2) by (simp add: backlog_reply.simps)
qed

lemma backlog_reply_two:
  assumes "out_inv c" "takes_replies env c" "j < length b" "length b - j < len" "len \<le> length b"
  shows "appends env c (drop j b @ take (len - (length b - j)) b) (backlog_reply env (length b) b c j len)"
proof -
  let ?k = "length b - j"
  have "appends env c (drop j b @ take (len - ?k) b) (Option.bind (addReplySds env c (drop j b)) (\<lambda>c. backlog_reply env (length b) b c 0 (len - ?k)))"
    using backlog_reply_one[of _ env 0 "len - ?k" b] assms by (intro appends_bind appends_sds) auto
  moreover have "backlog_reply env (length b) b c j len = Option.bind (addReplySds env c (drop j b)) (\<lambda>c. backlog_reply env (length b) b c 0 (len - ?k))"
    using assms(3-5) by (subst backlog_reply.simps) (simp add: Let_def mem_read_def)
  ultimately show ?thesis by simp
qed

lemma drop_rotation:
  assumes "idx < length b" "k < length b"
  defines "j \<equiv> (idx + k) mod length b"
  shows "drop k (rotation b idx) = (if length b - j < length b - k then drop j b @ take (length b - k - (length b - j)) b else take (length b - k) (drop j b))"
proof (cases "idx + k < length b")
  case True
  then show ?thesis using assms by (auto simp: rotation_def add.commute)
next
  case False
  then have "j = idx + k - length b" using assms by (simp add: le_mod_geq)
  then show ?thesis using assms False by (auto simp: rotation_def drop_take add.commute)
qed

lemma backlog_reply_spec:
  assumes "out_inv c" "takes_replies env c" "idx < length b" "k \<le> length b"
  shows "appends env c (drop k (rotation b idx)) (backlog_reply env (length b) b c ((idx + k) mod length b) (length b - k))"
proof (cases "k = length b")
  case True
  then show ?thesis using assms by (subst backlog_reply.simps) (simp add: appends_def)
next
  case False
  let ?j = "(idx + k) mod length b"
  have j: "?j < length b" and k: "k < length b" using assms(3,4) False by (auto intro!: mod_less_divisor)
  show ?thesis
  proof (cases "length b - ?j < length b - k")
    case True
    then show ?thesis using backlog_reply_two[OF assms(1,2) j True] drop_rotation[OF assms(3) k] by simp
  next
    case nt: False
    then have "?j + (length b - k) \<le> length b" using j k by linarith
    from backlog_reply_one[OF assms(1,2) this] show ?thesis using drop_rotation[OF assms(3) k] nt k by simp
  qed
qed

lemma addReplyReplicationBacklog_spec:
  assumes "holds r base h" "out_inv c" "takes_replies env c" "repl_backlog_off r \<le> offset" "offset \<le> master_repl_offset r + 1"
  shows "\<exists>c'. addReplyReplicationBacklog env r c offset = Some (c', master_repl_offset r + 1 - offset) \<and>
    appends env c (drop (nat (offset - base - 1)) h) (Some c')"
proof -
  let ?n = "repl_backlog_size r" and ?h = "repl_backlog_histlen r" and ?i = "repl_backlog_idx r"
  from assms(1) obtain b where b: "repl_backlog r = Some b" "length b = ?n" "?i < length b" "?h \<le> length b"
    "repl_backlog_off r = master_repl_offset r - int ?h + 1" by (auto simp: holds_def backlog_ok_def)
  have w: "lastn ?h (rotation b ?i) = lastn ?n h" "?h = min ?n (length h)" "master_repl_offset r = base + int (length h)"
    using assms(1) b(1) by (auto simp: holds_def window_def)
  show ?thesis
  proof (cases "?h = 0")
    case True
    then have "length h = 0" using w(2) b(2,3) by (auto simp: min_def split: if_splits)
    then show ?thesis using True assms(2-5) b(5) w(3) by (simp add: addReplyReplicationBacklog_def appends_def)
  next
    case False
    define skip where "skip = nat (offset - repl_backlog_off r)"
    have s: "offset - repl_backlog_off r = int skip" "skip \<le> ?h" using assms(4,5) b(5) by (auto simp: skip_def)
    define k where "k = ?n - ?h + skip"
    have k: "k \<le> length b" "?n - k = ?h - skip" using s b(2,4) by (auto simp: k_def)
    have j: "((int ?i + (int ?n - int ?h)) mod int ?n + int skip) mod int ?n = int ((?i + k) mod ?n)"
      using b(2,4) by (simp add: k_def of_nat_mod mod_simps) (simp add: algebra_simps)
    have ge: "\<not> (int ?i + (int ?n - int ?h)) mod int ?n + int skip < 0" using b(2,3) by (simp add: not_less)
    have len: "int ?h - int skip = int (?n - k)" using s(2) k(2) by simp
    from backlog_reply_spec[OF assms(2,3) b(3) k(1)] obtain c' where
      c': "backlog_reply env ?n b c ((?i + k) mod ?n) (?n - k) = Some c'" "appends env c (drop k (rotation b ?i)) (Some c')"
      unfolding b(2) by (auto simp: appends_def)
    have "addReplyReplicationBacklog env r c offset = Some (c', int (?n - k))"
      unfolding addReplyReplicationBacklog_def Let_def s(1) using False ge by (simp add: j len b(1) c'(1))
    moreover have "int (?n - k) = master_repl_offset r + 1 - offset" using len s(1) b(5) by simp
    moreover have "drop k (rotation b ?i) = drop (nat (offset - base - 1)) h"
    proof -
      have "drop k (rotation b ?i) = drop skip (lastn ?h (rotation b ?i))" by (simp add: k_def lastn_def b(2) add.commute)
      also have "\<dots> = drop (skip + (length h - ?n)) h" unfolding w(1) by (simp add: lastn_def)
      also have "skip + (length h - ?n) = nat (offset - base - 1)"
        using s(1) b(5) w(2,3) by (auto simp: min_def split: if_splits)
      finally show ?thesis .
    qed
    ultimately show ?thesis using c'(2) by auto
  qed
qed

subsection \<open>Feeding the backlog and the slaves\<close>

definition repl_arg :: "robj \<Rightarrow> bool" where
  "repl_arg a \<longleftrightarrow> obj_ok a \<and> a \<noteq> ENC_INT LONG_MIN"

lemma int_text_str:
  assumes "LONG_MIN \<le> n" "n \<le> LONG_MAX" "21 \<le> sz"
  shows "\<exists>m. int_text junk sz n = Some (m, length (dec_int n)) \<and> mem_read m 0 (length (dec_int n)) = Some (dec_int n) \<and>
    takeWhile (\<lambda>ch. ch \<noteq> NUL) m = dec_int n"
proof -
  let ?rest = "drop (Suc (length (dec_int n))) (map junk [0..<sz])"
  have "takeWhile (\<lambda>ch. ch \<noteq> NUL) (dec_int n @ NUL # ?rest) = dec_int n"
    using dec_int_no_NUL[of n] by (subst takeWhile_append2) auto
  moreover have "mem_read (dec_int n @ NUL # ?rest) 0 (length (dec_int n)) = Some (dec_int n)" by (simp add: mem_read_def)
  ultimately show ?thesis using int_text_spec[OF assms, of junk] by blast
qed

lemma aux_line_spec:
  assumes "LONG_MIN \<le> n" "n \<le> LONG_MAX"
  shows "aux_line junk ch n = Some (resp_header ch n)"
proof -
  from int_text_str[OF assms, of 23 junk] obtain m where m: "int_text junk 23 n = Some (m, length (dec_int n))"
    "mem_read m 0 (length (dec_int n)) = Some (dec_int n)" by auto
  then show ?thesis using length_dec_int_long[OF assms] by (simp add: aux_line_def REDIS_LONGSTR_SIZE_def resp_header_def)
qed

lemma feed_object_spec: "obj_ok a \<Longrightarrow> feedReplicationBacklogWithObject junk r a = feedReplicationBacklog r (obj_str a)"
  using int_text_str[of _ 21 junk]
  by (cases a) (fastforce simp: feedReplicationBacklogWithObject_def REDIS_LONGSTR_SIZE_def)+

lemma encode_select: "encode [''SELECT'', x] = ''*2'' @ crlf @ ''$6'' @ crlf @ ''SELECT'' @ crlf @ ''$'' @ dec_nat (length x) @ crlf @ x @ crlf"
proof -
  have d: "dec_nat 2 = ''2''" "dec_nat 6 = ''6''" by code_simp+
  have "length ''SELECT'' = 6" "length [''SELECT'', x] = 2" by simp_all
  then show ?thesis unfolding encode_def by (simp add: resp_bulk_alt d crlf_def del: length_Cons list.size)
qed

lemma select_cmd_spec:
  assumes "LONG_MIN \<le> d" "d \<le> LONG_MAX"
  shows "select_cmd junk d = Some (ENC_RAW (encode [''SELECT'', dec_int d]))"
proof -
  have "21 \<le> (if d \<ge> 0 \<and> d < REDIS_SHARED_SELECT_CMDS then 64 else REDIS_LONGSTR_SIZE)" by (simp add: REDIS_LONGSTR_SIZE_def)
  from int_text_str[OF assms this, of junk] obtain m where
    m: "int_text junk (if d \<ge> 0 \<and> d < REDIS_SHARED_SELECT_CMDS then 64 else REDIS_LONGSTR_SIZE) d = Some (m, length (dec_int d))"
    "takeWhile (\<lambda>ch. ch \<noteq> NUL) m = dec_int d" by blast
  show ?thesis unfolding select_cmd_def m(1) encode_select by (simp add: m(2) dec_int_nat)
qed

lemma backlog_only_trans: "backlog_only a b \<Longrightarrow> backlog_only b c \<Longrightarrow> backlog_only a c"
  by (simp add: backlog_only_def)

lemma backlog_args_spec:
  assumes "holds r base h" "list_all repl_arg as"
  shows "\<exists>r'. backlog_args junk r as = Some r' \<and> holds r' base (h @ concat (map (\<lambda>a. resp_bulk (obj_str a)) as)) \<and> backlog_only r r'"
  using assms
proof (induction as arbitrary: r h)
  case Nil
  then show ?case by (simp add: backlog_only_def)
next
  case (Cons a as)
  let ?s = "obj_str a"
  have a: "obj_ok a" using Cons.prems(2) by (simp add: repl_arg_def)
  have "int (length ?s) \<le> LONG_MAX" using length_obj_str[OF a] by (simp add: LONG_MAX_def)
  then have x: "aux_line junk (CHR ''$'') (int (length ?s)) = Some (resp_header (CHR ''$'') (int (length ?s)))"
    by (intro aux_line_spec) (simp_all add: LONG_MIN_def)
  from holds_feed[OF Cons.prems(1), of "resp_header (CHR ''$'') (int (length ?s))"] obtain r1 where
    r1: "feedReplicationBacklog r (resp_header (CHR ''$'') (int (length ?s))) = Some r1" "holds r1 base (h @ resp_header (CHR ''$'') (int (length ?s)))" "backlog_only r r1" by blast
  from holds_feed[OF r1(2), of ?s] obtain r2 where
    r2: "feedReplicationBacklog r1 ?s = Some r2" "holds r2 base (h @ resp_header (CHR ''$'') (int (length ?s)) @ ?s)" "backlog_only r1 r2" by auto
  from holds_feed[OF r2(2), of crlf] obtain r3 where
    r3: "feedReplicationBacklog r2 crlf = Some r3" "holds r3 base (h @ resp_bulk ?s)" "backlog_only r2 r3" by (auto simp: resp_bulk_def)
  from Cons.IH[OF r3(2)] Cons.prems(2) obtain r' where
    r': "backlog_args junk r3 as = Some r'" "holds r' base ((h @ resp_bulk ?s) @ concat (map (\<lambda>a. resp_bulk (obj_str a)) as))" "backlog_only r3 r'" by auto
  have "backlog_args junk r (a # as) = Some r'"
    using x r1(1) r2(1) r3(1) r'(1) by (simp add: stringObjectLen_spec[OF a] feed_object_spec[OF a])
  then show ?case using r' backlog_only_trans r1(3) r2(3) r3(3) by (intro exI[of _ r']) (auto simp: backlog_only_def)
qed

lemma encode_objs: "encode (map obj_str as) = resp_header (CHR ''*'') (int (length as)) @ concat (map (\<lambda>a. resp_bulk (obj_str a)) as)"
  by (simp add: encode_def resp_header_def dec_int_nat comp_def)

lemma backlog_command_spec:
  assumes "holds r base h" "list_all repl_arg as" "length as < 2 ^ 31"
  shows "\<exists>r'. backlog_command junk r as = Some r' \<and> holds r' base (h @ encode (map obj_str as)) \<and> backlog_only r r'"
proof -
  let ?x = "resp_header (CHR ''*'') (int (length as))"
  have x: "aux_line junk (CHR ''*'') (int (length as)) = Some ?x"
    using assms(3) by (intro aux_line_spec) (simp_all add: LONG_MIN_def LONG_MAX_def)
  from holds_feed[OF assms(1), of ?x] obtain r1 where r1: "feedReplicationBacklog r ?x = Some r1" "holds r1 base (h @ ?x)" "backlog_only r r1" by blast
  from backlog_args_spec[OF r1(2) assms(2), of junk] obtain r' where
    "backlog_args junk r1 as = Some r'" "holds r' base (h @ encode (map obj_str as))" "backlog_only r1 r'" by (auto simp: encode_objs)
  then show ?thesis using x r1 backlog_only_trans by (auto simp: backlog_command_def)
qed

lemma appends_bulk_args:
  assumes "out_inv c" "takes_replies env c" "list_all repl_arg as"
  shows "appends env c (concat (map (\<lambda>a. resp_bulk (obj_str a)) as)) (bulk_args env junk c as)"
  using assms
proof (induction as arbitrary: c)
  case Nil
  then show ?case by (simp add: appends_def)
next
  case (Cons a as)
  then have "obj_ok a" "a \<noteq> ENC_INT LONG_MIN" by (simp_all add: repl_arg_def)
  then show ?case using Cons by (simp add: appends_bind appends_bulk)
qed

lemma appends_feed_slave:
  assumes "out_inv c" "takes_replies env c" "list_all repl_arg as" "length as < 2 ^ 31"
  shows "appends env c (if replstate c = REDIS_REPL_WAIT_BGSAVE_START then [] else encode (map obj_str as)) (feed_slave env junk as c)"
proof -
  have n: "sint (of_nat (length as) :: u64) = int (length as)" using assms(4) by (intro sint_of_nat_u64) simp
  have "appends env c (resp_header (CHR ''*'') (int (length as))) (addReplyMultiBulkLen env junk c (of_nat (length as)))"
    using appends_mbulk_len[OF assms(1,2), of "of_nat (length as)" junk] by (simp only: n)
  from appends_bind[OF this appends_bulk_args[OF _ _ assms(3)]] show ?thesis
    using assms(1,2) by (auto simp: feed_slave_def encode_objs appends_def)
qed

lemma each_client_spec:
  assumes "\<And>c. c \<in> set cs \<Longrightarrow> appends env c (g c) (f c)"
  shows "\<exists>cs'. each_client f cs = Some cs' \<and> list_all2 (\<lambda>c c'. appends env c (g c) (Some c')) cs cs'"
  using assms
proof (induction cs)
  case (Cons c cs)
  then obtain c' where "f c = Some c'" "appends env c (g c) (Some c')" unfolding appends_def by force
  then show ?case using Cons by fastforce
qed simp

definition slaves_ok :: "net_env \<Rightarrow> repl_server \<Rightarrow> bool" where
  "slaves_ok env r \<longleftrightarrow> list_all (\<lambda>c. out_inv c \<and> takes_replies env c) (slaves r)"

text \<open>What a command adds to the stream: a selection of its database when it has changed, and the command.\<close>

definition select_text :: "repl_server \<Rightarrow> int \<Rightarrow> string" where
  "select_text r d = (if slaveseldb r \<noteq> d then encode [''SELECT'', dec_int d] else [])"

lemma length_select_text: "LONG_MIN \<le> d \<Longrightarrow> d \<le> LONG_MAX \<Longrightarrow> length (encode [''SELECT'', dec_int d]) < 2 ^ 31"
proof -
  assume "LONG_MIN \<le> d" "d \<le> LONG_MAX"
  then have "length (dec_int d) \<le> 20" by (rule length_dec_int_long)
  moreover from this have "length (dec_nat (length (dec_int d))) \<le> 20" by (intro dec_nat_length20) simp
  ultimately show ?thesis unfolding encode_select by (simp add: crlf_def)
qed

lemma feed_select_spec:
  assumes "holds r base h" "slaves_ok env r" "LONG_MIN \<le> d" "d \<le> LONG_MAX"
  shows "\<exists>r'. feed_select env junk r d = Some r' \<and> holds r' base (h @ select_text r d) \<and> slaveseldb r' = slaveseldb r \<and>
    runid r' = runid r \<and> list_all2 (\<lambda>c c'. appends env c (select_text r d) (Some c')) (slaves r) (slaves r')"
proof (cases "slaveseldb r = d")
  case True
  then show ?thesis using assms by (auto simp: feed_select_def select_text_def slaves_ok_def appends_def list_all_iff list_all2_same)
next
  case False
  let ?s = "encode [''SELECT'', dec_int d]"
  have sel: "select_cmd junk d = Some (ENC_RAW ?s)" by (rule select_cmd_spec[OF assms(3,4)])
  have len: "length ?s < 2 ^ 31" using length_select_text[OF assms(3,4)] .
  from holds_feed[OF assms(1), of ?s] obtain r1 where r1: "feedReplicationBacklog r ?s = Some r1" "holds r1 base (h @ ?s)" "backlog_only r r1" by blast
  have b: "repl_backlog r \<noteq> None" using assms(1) by (auto simp: holds_def backlog_ok_def)
  have "\<exists>cs'. each_client (\<lambda>c. addReply env junk c (ENC_RAW ?s)) (slaves r) = Some cs' \<and>
      list_all2 (\<lambda>c c'. appends env c ?s (Some c')) (slaves r) cs'"
    using assms(2) len by (intro each_client_spec appends_raw) (auto simp: slaves_ok_def list_all_iff)
  then obtain cs where cs: "each_client (\<lambda>c. addReply env junk c (ENC_RAW ?s)) (slaves r) = Some cs"
    "list_all2 (\<lambda>c c'. appends env c ?s (Some c')) (slaves r) cs" by blast
  have "feed_select env junk r d = Some (r1\<lparr>slaves := cs\<rparr>)"
    using False sel b r1(1,3) cs(1) by (simp add: feed_select_def feedReplicationBacklogWithObject_def backlog_only_def)
  moreover have "holds (r1\<lparr>slaves := cs\<rparr>) base (h @ ?s)" using r1(2) by simp
  ultimately show ?thesis using False r1(3) cs(2) by (auto simp: select_text_def backlog_only_def)
qed

lemma appends_two: "appends env a s (Some b) \<Longrightarrow> appends env b t (Some c) \<Longrightarrow> appends env a (s @ t) (Some c)"
  using out_only_trans by (auto simp: appends_def)

lemma replicationFeedSlaves_spec:
  assumes "holds r base h" "slaves_ok env r" "LONG_MIN \<le> d" "d \<le> LONG_MAX" "list_all repl_arg as" "length as < 2 ^ 31"
  shows "\<exists>r'. replicationFeedSlaves env junk r d as = Some r' \<and> holds r' base (h @ select_text r d @ encode (map obj_str as)) \<and>
    slaveseldb r' = d \<and> runid r' = runid r \<and>
    list_all2 (\<lambda>c c'. appends env c (select_text r d @ (if replstate c = REDIS_REPL_WAIT_BGSAVE_START then [] else encode (map obj_str as))) (Some c'))
      (slaves r) (slaves r')"
proof -
  from feed_select_spec[OF assms(1-4), of junk] obtain r1 where r1: "feed_select env junk r d = Some r1" "holds r1 base (h @ select_text r d)"
    "slaveseldb r1 = slaveseldb r" "runid r1 = runid r" "list_all2 (\<lambda>c c'. appends env c (select_text r d) (Some c')) (slaves r) (slaves r1)" by blast
  let ?r1 = "r1\<lparr>slaveseldb := d\<rparr>"
  have "holds ?r1 base (h @ select_text r d)" using r1(2) by simp
  from backlog_command_spec[OF this assms(5,6), of junk] obtain r2 where r2: "backlog_command junk ?r1 as = Some r2"
    "holds r2 base (h @ select_text r d @ encode (map obj_str as))" "backlog_only ?r1 r2" by auto
  let ?g = "\<lambda>c. if replstate c = REDIS_REPL_WAIT_BGSAVE_START then [] else encode (map obj_str as)"
  have ok: "out_inv c \<and> takes_replies env c" if "c \<in> set (slaves r1)" for c
    using r1(5) that unfolding list_all2_conv_all_nth in_set_conv_nth appends_def by force
  have "\<exists>cs'. each_client (feed_slave env junk as) (slaves r1) = Some cs' \<and> list_all2 (\<lambda>c c'. appends env c (?g c) (Some c')) (slaves r1) cs'"
    using ok assms(5,6) by (intro each_client_spec appends_feed_slave) auto
  then obtain cs where cs: "each_client (feed_slave env junk as) (slaves r1) = Some cs" "list_all2 (\<lambda>c c'. appends env c (?g c) (Some c')) (slaves r1) cs" by blast
  have b: "repl_backlog r \<noteq> None" "repl_backlog r1 \<noteq> None" using assms(1) r1(2) by (auto simp: holds_def backlog_ok_def)
  have "replicationFeedSlaves env junk r d as = Some (r2\<lparr>slaves := cs\<rparr>)"
    using b r1(1) r2(1,3) cs(1) by (auto simp: replicationFeedSlaves_def backlog_only_def)
  moreover have "holds (r2\<lparr>slaves := cs\<rparr>) base (h @ select_text r d @ encode (map obj_str as))"
    using r2(2) by simp
  moreover have "list_all2 (\<lambda>c c'. appends env c (select_text r d @ ?g c) (Some c')) (slaves r) cs"
  proof (rule list_all2_trans[OF _ r1(5) cs(2)])
    fix a b1 c1
    assume ab: "appends env a (select_text r d) (Some b1)" "appends env b1 (?g b1) (Some c1)"
    have "replstate b1 = replstate a" using ab(1) by (auto simp: appends_def out_only_def)
    with appends_two[OF ab] show "appends env a (select_text r d @ ?g a) (Some c1)" by simp
  qed
  ultimately show ?thesis using r1(4) r2(3) by (auto simp: backlog_only_def)
qed

subsection \<open>Streams and what slaves make of them\<close>

text \<open>A sequence of commands, each with its database.\<close>

fun feed_commands :: "net_env \<Rightarrow> (nat \<Rightarrow> char) \<Rightarrow> repl_server \<Rightarrow> (int \<times> robj list) list \<Rightarrow> repl_server option" where
  "feed_commands env junk r [] = Some r"
| "feed_commands env junk r ((d, as) # cmds) = do { r \<leftarrow> replicationFeedSlaves env junk r d as; feed_commands env junk r cmds }"

fun stream_commands :: "int \<Rightarrow> (int \<times> robj list) list \<Rightarrow> string list list" where
  "stream_commands sel [] = []"
| "stream_commands sel ((d, as) # cmds) = (if sel \<noteq> d then [[''SELECT'', dec_int d]] else []) @ map obj_str as # stream_commands d cmds"

definition command_ok :: "int \<times> robj list \<Rightarrow> bool" where
  "command_ok cmd \<longleftrightarrow> LONG_MIN \<le> fst cmd \<and> fst cmd \<le> LONG_MAX \<and> list_all repl_arg (snd cmd) \<and> length (snd cmd) < 2 ^ 31"

definition online :: "net_env \<Rightarrow> repl_server \<Rightarrow> bool" where
  "online env r \<longleftrightarrow> slaves_ok env r \<and> list_all (\<lambda>c. replstate c \<noteq> REDIS_REPL_WAIT_BGSAVE_START) (slaves r)"

lemma feed_commands_spec:
  assumes "holds r base h" "online env r" "list_all command_ok cmds"
  shows "\<exists>r'. feed_commands env junk r cmds = Some r' \<and> holds r' base (h @ concat (map encode (stream_commands (slaveseldb r) cmds))) \<and>
    runid r' = runid r \<and> online env r' \<and>
    list_all2 (\<lambda>c c'. pending c' = pending c @ concat (map encode (stream_commands (slaveseldb r) cmds))) (slaves r) (slaves r')"
  using assms
proof (induction cmds arbitrary: r h)
  case Nil
  then show ?case by (simp add: list_all2_same)
next
  case (Cons cmd cmds)
  obtain d as where cmd: "cmd = (d, as)" by (cases cmd)
  let ?t = "select_text r d @ encode (map obj_str as)"
  have ok: "LONG_MIN \<le> d" "d \<le> LONG_MAX" "list_all repl_arg as" "length as < 2 ^ 31" "slaves_ok env r"
    using Cons.prems cmd by (simp_all add: command_ok_def online_def)
  from replicationFeedSlaves_spec[OF Cons.prems(1) ok(5,1-4), of junk] obtain r1 where
    r1: "replicationFeedSlaves env junk r d as = Some r1" "holds r1 base (h @ ?t)" "slaveseldb r1 = d" "runid r1 = runid r"
    "list_all2 (\<lambda>c c'. appends env c (select_text r d @ (if replstate c = REDIS_REPL_WAIT_BGSAVE_START then [] else encode (map obj_str as))) (Some c')) (slaves r) (slaves r1)"
    by blast
  have a1: "list_all2 (\<lambda>c c'. appends env c ?t (Some c') \<and> replstate c' \<noteq> REDIS_REPL_WAIT_BGSAVE_START) (slaves r) (slaves r1)"
    using r1(5) Cons.prems(2) unfolding online_def list_all2_conv_all_nth list_all_length by (auto simp: appends_def out_only_def)
  then have o1: "online env r1" unfolding online_def slaves_ok_def list_all2_conv_all_nth list_all_length by (auto simp: appends_def)
  have "list_all command_ok cmds" using Cons.prems(3) by simp
  from Cons.IH[OF r1(2) o1 this] r1(3) obtain r' where
    r': "feed_commands env junk r1 cmds = Some r'" "holds r' base ((h @ ?t) @ concat (map encode (stream_commands d cmds)))" "runid r' = runid r1" "online env r'"
    "list_all2 (\<lambda>c c'. pending c' = pending c @ concat (map encode (stream_commands d cmds))) (slaves r1) (slaves r')" by auto
  have t: "?t @ concat (map encode (stream_commands d cmds)) = concat (map encode (stream_commands (slaveseldb r) (cmd # cmds)))"
    by (simp add: cmd select_text_def)
  have "list_all2 (\<lambda>c c'. pending c' = pending c @ ?t @ concat (map encode (stream_commands d cmds))) (slaves r) (slaves r')"
    by (rule list_all2_trans[OF _ a1 r'(5)]) (auto simp: appends_def)
  then show ?case using r' r1(1,4) unfolding t by (intro exI[of _ r']) (simp add: cmd[symmetric] t[symmetric], simp add: cmd)
qed


definition sample_repl :: repl_server where
  "sample_repl = \<lparr>repl_backlog = None, repl_backlog_size = 16384, repl_backlog_histlen = 0, repl_backlog_idx = 0, repl_backlog_off = 0,
     master_repl_offset = 41, slaveseldb = -1, slaves = [], runid = ''0f''\<rparr>"

lemma sample_repl_create: "\<exists>r0. createReplicationBacklog (\<lambda>_. NUL) sample_repl = Some r0 \<and> slaves r0 = [] \<and> slaveseldb r0 = -1 \<and> runid r0 = ''0f''"
  by (simp add: createReplicationBacklog_def sample_repl_def Let_def)



lemma createClient_replstate: "createClient env junk fd0 = Some c \<Longrightarrow> replstate c = 0"
  by (auto simp: createClient_def split: if_splits)




text \<open>
  C27. A slave that waits for a snapshot to start loses its place in the stream.  It was told the
  offset of the master when it asked; every command after that moves the offset of the master by
  all bytes of the stream, but queues for this slave only the selection of a database and not the
  command.  So its own count of the bytes falls behind by the length of each command, and a later
  partial resynchronization sends it commands again that its snapshot already holds.
\<close>

theorem waiting_slave_falls_behind:
  assumes "holds r base h" "slaves_ok env r" "LONG_MIN \<le> d" "d \<le> LONG_MAX" "list_all repl_arg as" "length as < 2 ^ 31"
    "i < length (slaves r)" "replstate (slaves r ! i) = REDIS_REPL_WAIT_BGSAVE_START"
  shows "\<exists>r'. replicationFeedSlaves env junk r d as = Some r' \<and>
    pending (slaves r' ! i) = pending (slaves r ! i) @ (if slaveseldb r \<noteq> d then encode [''SELECT'', dec_int d] else []) \<and>
    master_repl_offset r' - master_repl_offset r = int (length (pending (slaves r' ! i))) - int (length (pending (slaves r ! i))) +
      int (length (encode (map obj_str as)))"
proof -
  from replicationFeedSlaves_spec[OF assms(1-6), of junk] obtain r' where r': "replicationFeedSlaves env junk r d as = Some r'"
    "holds r' base (h @ select_text r d @ encode (map obj_str as))"
    "list_all2 (\<lambda>c c'. appends env c (select_text r d @ (if replstate c = REDIS_REPL_WAIT_BGSAVE_START then [] else encode (map obj_str as))) (Some c')) (slaves r) (slaves r')"
    by blast
  have p: "pending (slaves r' ! i) = pending (slaves r ! i) @ select_text r d"
    using list_all2_nthD[OF r'(3) assms(7)] assms(8) by (simp add: appends_def)
  have "master_repl_offset r' - master_repl_offset r = int (length (select_text r d)) + int (length (encode (map obj_str as)))"
    using assms(1) r'(2) by (simp add: holds_def)
  then show ?thesis using r'(1) p by (auto simp: select_text_def)
qed

theorem waiting_slave_falls_behind_witness:
  "\<exists>r r'. replstate (slaves r ! 0) = REDIS_REPL_WAIT_BGSAVE_START \<and>
    replicationFeedSlaves quiet_env (\<lambda>_. NUL) r 0 [ENC_RAW ''INCR'', ENC_RAW ''x''] = Some r' \<and>
    master_repl_offset r' - master_repl_offset r = int (length (pending (slaves r' ! 0))) - int (length (pending (slaves r ! 0))) +
      int (length (encode [''INCR'', ''x'']))"
proof -
  obtain r0 where r0: "createReplicationBacklog (\<lambda>_. NUL) sample_repl = Some r0" using sample_repl_create by blast
  let ?c = "new_client\<lparr>replstate := 6\<rparr>"
  let ?r = "r0\<lparr>slaves := [?c]\<rparr>"
  have "holds r0 42 []" using holds_create[OF r0(1)] by (simp add: sample_repl_def)
  then have h: "holds ?r 42 []" by simp
  have "slaves_ok quiet_env ?r" using new_client_ok by (auto simp: slaves_ok_def out_inv_def takes_replies_def pending_def queued_def)
  from waiting_slave_falls_behind[OF h this, of 0 "[ENC_RAW ''INCR'', ENC_RAW ''x'']" 0 "\<lambda>_. NUL"] obtain r' where
    r': "replicationFeedSlaves quiet_env (\<lambda>_. NUL) ?r 0 [ENC_RAW ''INCR'', ENC_RAW ''x''] = Some r'"
    "master_repl_offset r' - master_repl_offset ?r = int (length (pending (slaves r' ! 0))) - int (length (pending (slaves ?r ! 0))) +
      int (length (encode (map obj_str [ENC_RAW ''INCR'', ENC_RAW ''x''])))"
    by (auto simp: LONG_MIN_def LONG_MAX_def repl_arg_def REDIS_REPL_WAIT_BGSAVE_START_def)
  have "replstate (slaves ?r ! 0) = REDIS_REPL_WAIT_BGSAVE_START" by (simp add: REDIS_REPL_WAIT_BGSAVE_START_def)
  moreover have "map obj_str [ENC_RAW ''INCR'', ENC_RAW ''x''] = [''INCR'', ''x'']" by simp
  ultimately show ?thesis using r' by metis
qed

subsection \<open>The line of a monitor\<close>

lemma dec_int_plain: "ch \<in> set (dec_int n) \<Longrightarrow> is_digit ch \<or> ch = CHR ''-''"
  using dec_nat_digits[of "nat \<bar>n\<bar>"] by (auto simp: dec_int_def list_all_iff split: if_splits)

lemma repr_digit:
  assumes "is_digit ch \<or> ch = CHR ''-''"
  shows "repr_char ch = [ch]"
proof (cases "is_digit ch")
  case True
  have "list_all (\<lambda>d. repr_char (digit_char d) = [digit_char d]) [0..<10]" by code_simp
  then have "repr_char (digit_char (digit_val ch)) = [digit_char (digit_val ch)]" using digit_val_less[OF True] by (simp only: list_all_iff) auto
  then show ?thesis using True by simp
next
  case False
  have "repr_char (CHR ''-'') = ''-''" by code_simp
  then show ?thesis using False assms by simp
qed

lemma quoted_dec_int: "quoted (dec_int n) = DQ # dec_int n @ [DQ]"
proof -
  have "concat (map repr_char xs) = xs" if "\<And>ch. ch \<in> set xs \<Longrightarrow> is_digit ch \<or> ch = CHR ''-''" for xs
    using that by (induction xs) (auto simp: repr_digit)
  then show ?thesis using dec_int_plain by (simp add: quoted_def)
qed

definition fits :: "sdshdr \<Rightarrow> string \<Rightarrow> bool" where
  "fits s t \<longleftrightarrow> sds_ok s \<and> length (sds_str s) + length t \<le> sds_limit"

definition sds_appends :: "sdshdr \<Rightarrow> string \<Rightarrow> sdshdr option \<Rightarrow> bool" where
  "sds_appends s t r \<longleftrightarrow> (\<exists>s'. r = Some s' \<and> sds_ok s' \<and> sds_str s' = sds_str s @ t)"

lemma sds_appends_bind:
  assumes "fits s (t @ u)" "fits s t \<Longrightarrow> sds_appends s t r" "\<And>s'. fits s' u \<Longrightarrow> sds_appends s' u (f s')"
  shows "sds_appends s (t @ u) (Option.bind r f)"
proof -
  have "fits s t" using assms(1) by (auto simp: fits_def)
  from assms(2)[OF this] obtain s1 where s1: "r = Some s1" "sds_ok s1" "sds_str s1 = sds_str s @ t" by (auto simp: sds_appends_def)
  then have "fits s1 u" using assms(1) by (auto simp: fits_def)
  from assms(3)[OF this] show ?thesis using s1 by (auto simp: sds_appends_def)
qed

lemma sds_appends_cat: "fits s t \<Longrightarrow> NUL \<notin> set t \<Longrightarrow> sds_appends s t (sdscat junk s (t @ [NUL]))"
  unfolding sds_appends_def fits_def by (subst sdscat_app) (auto intro: sds_buffer.app)

lemma sds_appends_catlen: "fits s t \<Longrightarrow> n = length t \<Longrightarrow> sds_appends s t (sdscatlen junk s t n)"
  unfolding sds_appends_def fits_def by (subst sdscatlen_app) (auto intro: sds_buffer.app)

lemma sds_appends_repr: "fits s (quoted t) \<Longrightarrow> sds_appends s (quoted t) (sdscatrepr junk s t (length t))"
  using sdscatrepr_spec[of s "length t" t junk] by (auto simp: sds_appends_def fits_def sdslen_def sds_str_def sds_ok_def)

lemma monitor_args_spec:
  "fits s (quoted_args (map obj_str as)) \<Longrightarrow> sds_appends s (quoted_args (map obj_str as)) (monitor_args junk s as)"
proof (induction as arbitrary: s)
  case Nil
  then show ?case by (simp add: sds_appends_def fits_def)
next
  case (Cons a as)
  have one: "fits s (quoted (obj_str a)) \<Longrightarrow> sds_appends s (quoted (obj_str a))
      (case a of ENC_INT n \<Rightarrow> sdscat junk s ([DQ] @ dec_int n @ [DQ, NUL]) | ENC_RAW t \<Rightarrow> sdscatrepr junk s t (length t))" for s
    using sds_appends_repr sds_appends_cat[of s "DQ # dec_int n @ [DQ]" junk for n] dec_int_no_NUL
    by (cases a) (auto simp: quoted_dec_int)
  show ?case
  proof (cases "as = []")
    case True
    then have "sds_appends s (quoted (obj_str a) @ []) (monitor_args junk s (a # as))" unfolding monitor_args.simps
      using Cons.prems one by (intro sds_appends_bind) (auto simp: sds_appends_def fits_def)
    then show ?thesis using True by simp
  next
    case False
    then have q: "quoted_args (map obj_str (a # as)) = quoted (obj_str a) @ [CHR 0x20] @ quoted_args (map obj_str as)"
      by (simp add: quoted_args_Cons)
    show ?thesis unfolding q monitor_args.simps if_P[OF False]
      by (intro sds_appends_bind one Cons.IH sds_appends_catlen) (use Cons.prems q in simp_all)
  qed
qed

definition monitor_line :: "redisClient \<Rightarrow> string \<Rightarrow> int \<times> int \<Rightarrow> int \<Rightarrow> string" where
  "monitor_line c peer now dictid = ''+'' @ monitor_time (fst now) (snd now) @ monitor_origin c peer dictid"

lemma replicationFeedMonitors_spec:
  assumes "list_all (\<lambda>m. out_inv m \<and> takes_replies env m) monitors" "NUL \<notin> set peer"
    "length (monitor_line c peer now d @ quoted_args (map obj_str as) @ crlf) < 2 ^ 31"
  shows "\<exists>ms. replicationFeedMonitors env junk c peer now monitors d as = Some ms \<and>
    list_all2 (\<lambda>m m'. pending m' = pending m @ monitor_line c peer now d @ quoted_args (map obj_str as) @ crlf) monitors ms"
proof -
  let ?t = "monitor_time (fst now) (snd now)" and ?o = "monitor_origin c peer d" and ?a = "quoted_args (map obj_str as)"
  have n: "NUL \<notin> set ?t" "NUL \<notin> set ?o" using dec_int_no_NUL assms(2) by (auto simp: monitor_time_def monitor_origin_def)
  have s0: "sdsnew (Some (''+'' @ [NUL])) = Some (sds_of ''+'' [])" using sdsnew_spec[of "''+''" "[]"] by simp
  have ok0: "sds_ok (sds_of ''+'' [])" "sds_str (sds_of ''+'' []) = ''+''" by (simp_all add: sds_ok_def sds_of_def sds_str_def)
  have f0: "fits (sds_of ''+'' []) (?t @ ?o @ ?a @ crlf)"
    using assms(3) ok0 by (simp add: fits_def monitor_line_def sds_limit_def SDS_MAX_PREALLOC_def)
  have "sds_appends (sds_of ''+'' []) (?t @ ?o @ ?a @ crlf)
      (do { s \<leftarrow> sdscat junk (sds_of ''+'' []) (?t @ [NUL]); s \<leftarrow> sdscat junk s (?o @ [NUL]); s \<leftarrow> monitor_args junk s as; sdscatlen junk s crlf 2 })"
    using f0 n by (intro sds_appends_bind sds_appends_cat sds_appends_catlen monitor_args_spec) (simp_all add: crlf_def)
  then obtain s where s: "do { s \<leftarrow> sdscat junk (sds_of ''+'' []) (?t @ [NUL]); s \<leftarrow> sdscat junk s (?o @ [NUL]); s \<leftarrow> monitor_args junk s as; sdscatlen junk s crlf 2 } = Some s"
    "sds_str s = monitor_line c peer now d @ ?a @ crlf" using ok0(2) by (auto simp: sds_appends_def monitor_line_def)
  have "\<exists>ms. each_client (\<lambda>m. addReply env junk m (ENC_RAW (sds_str s))) monitors = Some ms \<and>
      list_all2 (\<lambda>m m'. appends env m (sds_str s) (Some m')) monitors ms"
    using assms(1,3) s(2) by (intro each_client_spec appends_raw) (auto simp: list_all_iff)
  then obtain ms where ms: "each_client (\<lambda>m. addReply env junk m (ENC_RAW (sds_str s))) monitors = Some ms"
    "list_all2 (\<lambda>m m'. appends env m (sds_str s) (Some m')) monitors ms" by blast
  have "replicationFeedMonitors env junk c peer now monitors d as = Some ms"
    unfolding replicationFeedMonitors_def s0 using s(1) ms(1) by (auto simp: bind_eq_Some_conv)
  moreover have "list_all2 (\<lambda>m m'. pending m' = pending m @ monitor_line c peer now d @ ?a @ crlf) monitors ms"
    using ms(2) s(2) by (auto simp: appends_def elim!: list_all2_mono)
  ultimately show ?thesis by blast
qed

text \<open>
  C26. The line that monitors are sent for a command can be read back: behind the time and the
  connection it holds every argument in quotes, and the splitting of request lines gives exactly
  the arguments of the command again, whatever bytes they hold and whichever encoding they have.
\<close>

theorem monitor_line_roundtrip:
  assumes "list_all (\<lambda>m. out_inv m \<and> takes_replies env m) monitors" "NUL \<notin> set peer"
    "length (monitor_line c peer now d @ quoted_args (map obj_str as) @ crlf) < 2 ^ 31"
  shows "\<exists>ms line. replicationFeedMonitors env junk c peer now monitors d as = Some ms \<and>
    list_all2 (\<lambda>m m'. pending m' = pending m @ monitor_line c peer now d @ line) monitors ms \<and>
    sdssplitargs (line @ [NUL]) = Some (Some (map obj_str as))"
proof -
  have "isspace CR" "isspace LF" "\<not> isspace NUL" by code_simp+
  then have "skip_blanks (crlf @ [NUL]) = Some [NUL]" "at_end (crlf @ [NUL])" by (simp_all add: crlf_def at_end_def)
  then have "sdssplitargs ((quoted_args (map obj_str as) @ crlf) @ [NUL]) = Some (Some (map obj_str as))"
    using args_loop_quoted_args[of "crlf @ [NUL]" "[]" "map obj_str as" "[]"] by (simp add: sdssplitargs_def)
  then show ?thesis using replicationFeedMonitors_spec[OF assms, of junk] by blast
qed

theorem monitor_line_roundtrip_witness:
  "\<exists>ms line. replicationFeedMonitors quiet_env (\<lambda>_. NUL) new_client ''10.0.0.1:6379'' (1, 2) [new_client] 0 [ENC_RAW [LF, NUL, DQ], ENC_INT (-7)] = Some ms \<and>
    list_all2 (\<lambda>m m'. pending m' = pending m @ monitor_line new_client ''10.0.0.1:6379'' (1, 2) 0 @ line) [new_client] ms \<and>
    sdssplitargs (line @ [NUL]) = Some (Some (map obj_str [ENC_RAW [LF, NUL, DQ], ENC_INT (-7)]))"
proof (rule monitor_line_roundtrip)
  have d: "dec_int 0 = ''0''" "dec_int 1 = ''1''" "dec_int 2 = ''2''" "dec_int (-7) = ''-7''" by code_simp+
  have q: "quoted_args (map obj_str [ENC_RAW [LF, NUL, DQ], ENC_INT (-7)]) = quoted [LF, NUL, DQ] @ CHR 0x20 # quoted ''-7''" using d by simp
  have "length (quoted [LF, NUL, DQ]) < 20" "length (quoted ''-7'') < 20" by code_simp+
  then show "length (monitor_line new_client ''10.0.0.1:6379'' (1, 2) 0 @ quoted_args (map obj_str [ENC_RAW [LF, NUL, DQ], ENC_INT (-7)]) @ crlf) < 2 ^ 31"
    unfolding q by (simp add: monitor_line_def monitor_time_def monitor_origin_def d crlf_def)
qed (simp_all add: new_client_ok)

end
