(* ===== verification/SetType.thy ===== *)
theory SetType
  imports Intset DictScan Object
begin

text \<open>
  The set values of Redis (\<open>src/redis/src/t_set.c\<close>): a set of strings is kept as an integer set as long
  as all its elements are texts of integers and there are few of them, and as a hash table otherwise.
  The operations are those of the theories on integer sets and on hash tables.

  An entry of the hash table has an object as its key, and the table is searched with
  \<open>dictEncObjHash\<close> and \<open>dictEncObjKeyCompare\<close> (\<open>redis.c\<close>), which both depend on the contents of an
  object only, as shown below.  So the key of an entry is modelled as the contents, and the object
  itself is kept in the place of the value, which the code does not use.
\<close>

subsection \<open>Hashing and comparing objects\<close>

abbreviation obj_mem :: "string \<Rightarrow> byte list" where "obj_mem s \<equiv> map of_char s"

definition dictSdsKeyCompare :: "string \<Rightarrow> string \<Rightarrow> bool" where
  "dictSdsKeyCompare a b \<longleftrightarrow> length a = length b \<and> SdsText.memcmp_loop a b = 0"

definition dictEncObjKeyCompare :: "(nat \<Rightarrow> char) \<Rightarrow> robj \<Rightarrow> robj \<Rightarrow> bool option" where
  "dictEncObjKeyCompare junk a b =
     (case (a, b) of
        (ENC_INT m, ENC_INT n) \<Rightarrow> Some (m = n)
      | _ \<Rightarrow> do { a \<leftarrow> getDecodedObject junk a;
                 b \<leftarrow> getDecodedObject junk b;
                 Some (dictSdsKeyCompare (obj_str a) (obj_str b)) })"

definition dictEncObjHash :: "(nat \<Rightarrow> char) \<Rightarrow> u32 \<Rightarrow> robj \<Rightarrow> u32 option" where
  "dictEncObjHash junk seed a =
     (case a of
        ENC_RAW s \<Rightarrow> dictGenHashFunction seed (obj_mem s) (length s)
      | ENC_INT n \<Rightarrow> do { (m, len) \<leftarrow> int_text junk 32 n; dictGenHashFunction seed (obj_mem m) len })"

definition setDictType :: "u32 \<Rightarrow> (string, robj) dictType" where
  "setDictType seed = \<lparr>hashFunction = (\<lambda>s. the (dictGenHashFunction seed (obj_mem s) (length s))), keyDup = None, valDup = None,
     keyCompare = Some dictSdsKeyCompare\<rparr>"

subsection \<open>Sets\<close>

datatype set_obj = ENC_HT "(string, robj) dict" | ENC_INTSET intset

text \<open>
  The configuration and the surroundings: the largest integer set, whether tables may be resized,
  the seed of the hash function, and the contents of uninitialised memory.
\<close>

record set_env =
  set_max_intset_entries :: nat
  dict_can_resize :: bool
  hash_seed :: u32
  byte_junk :: "nat \<Rightarrow> byte"
  char_junk :: "nat \<Rightarrow> char"
  obj_junk :: robj

definition createIntsetObject :: set_obj where
  "createIntsetObject = ENC_INTSET intsetNew"

definition createSetObject :: "set_env \<Rightarrow> set_obj" where
  "createSetObject env = ENC_HT (dictCreate (setDictType (hash_seed env)))"

definition setTypeCreate :: "set_env \<Rightarrow> robj \<Rightarrow> set_obj" where
  "setTypeCreate env value = (if isObjectRepresentableAsLongLong value \<noteq> None then createIntsetObject else createSetObject env)"

definition set_dictAdd :: "set_env \<Rightarrow> (string, robj) dict \<Rightarrow> robj \<Rightarrow> ((string, robj) dict \<times> bool) option" where
  "set_dictAdd env d value = dictAdd (dict_can_resize env) (obj_junk env) d (obj_str value) value"

subsection \<open>Iterators\<close>

datatype set_iter = It_HT "(string, robj) dictIterator" | It_INTSET nat

text \<open>What \<open>setTypeNext\<close> delivers: an object or an integer.\<close>

datatype set_elem = El_obj robj | El_int int

definition setTypeInitIterator :: "set_obj \<Rightarrow> set_iter" where
  "setTypeInitIterator subject = (case subject of ENC_HT d \<Rightarrow> It_HT dictGetIterator | ENC_INTSET is \<Rightarrow> It_INTSET 0)"

text \<open>\<open>p0\<close> and \<open>p1\<close> are the addresses of the tables, which the fingerprint of an iteration contains.\<close>

definition setTypeNext :: "u32 \<Rightarrow> u32 \<Rightarrow> set_obj \<Rightarrow> set_iter \<Rightarrow> (set_obj \<times> set_iter \<times> set_elem option) option" where
  "setTypeNext p0 p1 subject si =
     (case (subject, si) of
        (ENC_HT d, It_HT di) \<Rightarrow>
          do { (d, di, de) \<leftarrow> dictNext p0 p1 d di;
               Some (ENC_HT d, It_HT di, map_option (\<lambda>(_, obj). El_obj obj) de) }
      | (ENC_INTSET is, It_INTSET ii) \<Rightarrow>
          do { r \<leftarrow> intsetGet is ii;
               Some (ENC_INTSET is, It_INTSET (ii + 1), map_option El_int r) }
      | _ \<Rightarrow> None)"

definition elem_obj :: "set_env \<Rightarrow> set_elem \<Rightarrow> robj option" where
  "elem_obj env el = (case el of El_obj obj \<Rightarrow> Some obj | El_int n \<Rightarrow> createStringObjectFromLongLong (char_junk env) (word_of_int n))"

definition setTypeNextObject :: "set_env \<Rightarrow> u32 \<Rightarrow> u32 \<Rightarrow> set_obj \<Rightarrow> set_iter \<Rightarrow> (set_obj \<times> set_iter \<times> robj option) option" where
  "setTypeNextObject env p0 p1 subject si =
     do { (subject, si, el) \<leftarrow> setTypeNext p0 p1 subject si;
          case el of
            None \<Rightarrow> Some (subject, si, None)
          | Some el \<Rightarrow> do { obj \<leftarrow> elem_obj env el; Some (subject, si, Some obj) } }"

definition setTypeReleaseIterator :: "u32 \<Rightarrow> u32 \<Rightarrow> set_obj \<Rightarrow> set_iter \<Rightarrow> set_obj option" where
  "setTypeReleaseIterator p0 p1 subject si =
     (case (subject, si) of
        (ENC_HT d, It_HT di) \<Rightarrow> do { d \<leftarrow> dictReleaseIterator p0 p1 d di; Some (ENC_HT d) }
      | _ \<Rightarrow> Some subject)"

text \<open>
  A loop over a set whose body does not touch the set: the elements, in the order in which
  \<open>setTypeNext\<close> delivers them.
\<close>

partial_function (option) next_loop :: "u32 \<Rightarrow> u32 \<Rightarrow> set_obj \<Rightarrow> set_iter \<Rightarrow> set_elem list \<Rightarrow> (set_obj \<times> set_iter \<times> set_elem list) option" where
  "next_loop p0 p1 subject si els =
     Option.bind (setTypeNext p0 p1 subject si) (\<lambda>(subject, si, el).
       case el of None \<Rightarrow> Some (subject, si, els) | Some x \<Rightarrow> next_loop p0 p1 subject si (els @ [x]))"

definition set_elements :: "u32 \<Rightarrow> u32 \<Rightarrow> set_obj \<Rightarrow> (set_obj \<times> set_elem list) option" where
  "set_elements p0 p1 subject =
     do { (subject, si, els) \<leftarrow> next_loop p0 p1 subject (setTypeInitIterator subject) [];
          subject \<leftarrow> setTypeReleaseIterator p0 p1 subject si;
          Some (subject, els) }"

subsection \<open>Operations\<close>

fun convert_loop :: "set_env \<Rightarrow> (string, robj) dict \<Rightarrow> set_elem list \<Rightarrow> (string, robj) dict option" where
  "convert_loop env d [] = Some d"
| "convert_loop env d (el # els) =
     do { element \<leftarrow> elem_obj env el;
          (d, ok) \<leftarrow> set_dictAdd env d element;
          if ok then convert_loop env d els else None }"

text \<open>The only conversion that the code supports is that of an integer set into a hash table.\<close>

definition setTypeConvert :: "set_env \<Rightarrow> set_obj \<Rightarrow> set_obj option" where
  "setTypeConvert env setobj =
     (case setobj of
        ENC_HT d \<Rightarrow> None
      | ENC_INTSET is \<Rightarrow>
          do { let d = fst (dictExpand (dictCreate (setDictType (hash_seed env))) (intsetLen is));
               (_, els) \<leftarrow> set_elements 0 0 setobj;
               d \<leftarrow> convert_loop env d els;
               Some (ENC_HT d) })"

text \<open>The boolean result is the result 1.\<close>

definition setTypeAdd :: "set_env \<Rightarrow> set_obj \<Rightarrow> robj \<Rightarrow> (set_obj \<times> bool) option" where
  "setTypeAdd env subject value =
     (case subject of
        ENC_HT d \<Rightarrow> do { (d, ok) \<leftarrow> set_dictAdd env d value; Some (ENC_HT d, ok) }
      | ENC_INTSET is \<Rightarrow>
          (case isObjectRepresentableAsLongLong value of
             Some llval \<Rightarrow>
               do { (is, success) \<leftarrow> intsetAdd (byte_junk env) is llval;
                    if success
                    then if intsetLen is > set_max_intset_entries env
                         then do { subject \<leftarrow> setTypeConvert env (ENC_INTSET is); Some (subject, True) }
                         else Some (ENC_INTSET is, True)
                    else Some (ENC_INTSET is, False) }
           | None \<Rightarrow>
               do { subject \<leftarrow> setTypeConvert env subject;
                    case subject of
                      ENC_INTSET _ \<Rightarrow> None
                    | ENC_HT d \<Rightarrow> do { (d, ok) \<leftarrow> set_dictAdd env d value;
                                      if ok then Some (ENC_HT d, True) else None } }))"

definition REDIS_HT_MINFILL :: nat where
  "REDIS_HT_MINFILL = 10"

definition htNeedsResize :: "('k, 'v) dict \<Rightarrow> bool" where
  "htNeedsResize d \<longleftrightarrow>
     (let size = dictSlots d; used = dictSize d
      in size \<noteq> 0 \<and> used \<noteq> 0 \<and> size > DICT_HT_INITIAL_SIZE \<and> used * 100 div size < REDIS_HT_MINFILL)"

definition setTypeRemove :: "set_env \<Rightarrow> set_obj \<Rightarrow> robj \<Rightarrow> (set_obj \<times> bool) option" where
  "setTypeRemove env setobj value =
     (case setobj of
        ENC_HT d \<Rightarrow>
          do { (d, ok, _) \<leftarrow> dictDelete d (obj_str value);
               Some (ENC_HT (if ok \<and> htNeedsResize d then fst (dictResize (dict_can_resize env) d) else d), ok) }
      | ENC_INTSET is \<Rightarrow>
          (case isObjectRepresentableAsLongLong value of
             Some llval \<Rightarrow> do { (is, success) \<leftarrow> intsetRemove (byte_junk env) is llval; Some (ENC_INTSET is, success) }
           | None \<Rightarrow> Some (ENC_INTSET is, False)))"

text \<open>The search in a hash table may move entries, so the set is a result as well.\<close>

definition setTypeIsMember :: "set_obj \<Rightarrow> robj \<Rightarrow> (set_obj \<times> bool) option" where
  "setTypeIsMember subject value =
     (case subject of
        ENC_HT d \<Rightarrow> do { (d, he) \<leftarrow> dictFind d (obj_str value); Some (ENC_HT d, he \<noteq> None) }
      | ENC_INTSET is \<Rightarrow>
          (case isObjectRepresentableAsLongLong value of
             Some llval \<Rightarrow> do { found \<leftarrow> intsetFind is llval; Some (ENC_INTSET is, found) }
           | None \<Rightarrow> Some (ENC_INTSET is, False)))"

text \<open>\<open>rnd i\<close> is the value of the \<open>i\<close>-th call of the random number generator.\<close>

definition setTypeRandomElement :: "(nat \<Rightarrow> nat) \<Rightarrow> set_obj \<Rightarrow> (set_obj \<times> set_elem) option" where
  "setTypeRandomElement rnd setobj =
     (case setobj of
        ENC_HT d \<Rightarrow> do { (d, de) \<leftarrow> dictGetRandomKey rnd d;
                        case de of None \<Rightarrow> None | Some (_, obj) \<Rightarrow> Some (ENC_HT d, El_obj obj) }
      | ENC_INTSET is \<Rightarrow> do { n \<leftarrow> intsetRandom (rnd 0) is; Some (ENC_INTSET is, El_int n) })"

definition setTypeSize :: "set_obj \<Rightarrow> nat" where
  "setTypeSize subject = (case subject of ENC_HT d \<Rightarrow> dictSize d | ENC_INTSET is \<Rightarrow> intsetLen is)"

subsection \<open>Hashing depends on the contents\<close>

lemma murmur_loop_app:
  "off + n \<le> length xs \<Longrightarrow> murmur_loop (xs @ ys) off n h = murmur_loop xs off n h"
proof (induction xs off n h rule: murmur_loop.induct)
  case (1 xs off n h)
  show ?case
  proof (cases "4 \<le> n")
    case True
    have rd: "read_u32 (xs @ ys) off = read_u32 xs off" using True "1.prems" by (simp add: read_u32_def mem_read_def)
    show ?thesis
    proof (cases "read_u32 xs off")
      case None
      then show ?thesis using True rd by (subst (1 2) murmur_loop.simps) simp
    next
      case (Some k)
      show ?thesis using "1.IH"[OF True Some refl refl refl refl refl] "1.prems" True rd Some
        by (subst (1 2) murmur_loop.simps) (simp add: Let_def)
    qed
  next
    case False
    then show ?thesis by (subst (1 2) murmur_loop.simps) simp
  qed
qed

lemma murmur_loop_Some:
  "off + n \<le> length xs \<Longrightarrow> \<exists>h' off' n'. murmur_loop xs off n h = Some (h', off', n') \<and> off' + n' = off + n \<and> n' < 4"
proof (induction xs off n h rule: murmur_loop.induct)
  case (1 xs off n h)
  show ?case
  proof (cases "4 \<le> n")
    case True
    then obtain k where k: "read_u32 xs off = Some k" using "1.prems" by (auto simp: read_u32_def mem_read_def)
    show ?thesis using "1.IH"[OF True k refl refl refl refl refl] "1.prems" True k
      by (subst murmur_loop.simps) (simp add: Let_def)
  next
    case False
    then show ?thesis by (subst murmur_loop.simps) simp
  qed
qed

lemma murmur_tail_app:
  assumes "off + n \<le> length xs"
  shows "murmur_tail (xs @ ys) off n h = murmur_tail xs off n h"
  using assms by (auto simp: murmur_tail_def arr_get_def nth_append)

lemma dictGenHashFunction_app:
  assumes "n \<le> length xs"
  shows "dictGenHashFunction seed (xs @ ys) n = dictGenHashFunction seed xs n"
proof -
  have "0 + n \<le> length xs" using assms by simp
  from murmur_loop_Some[OF this, of "seed XOR of_nat n"] obtain h' off' n' where
    m: "murmur_loop xs 0 n (seed XOR of_nat n) = Some (h', off', n')" "off' + n' \<le> length xs" using assms by auto
  have "murmur_loop (xs @ ys) 0 n (seed XOR of_nat n) = Some (h', off', n')"
    using murmur_loop_app[of 0 n xs ys] assms m(1) by simp
  then show ?thesis using m murmur_tail_app[OF m(2)] by (simp add: dictGenHashFunction_def)
qed

lemma dictGenHashFunction_Some: "n \<le> length xs \<Longrightarrow> \<exists>h. dictGenHashFunction seed xs n = Some h"
proof -
  assume "n \<le> length xs"
  then have "0 + n \<le> length xs" by simp
  from murmur_loop_Some[OF this, of "seed XOR of_nat n"] obtain h' off' n' where
    m: "murmur_loop xs 0 n (seed XOR of_nat n) = Some (h', off', n')" "off' + n' \<le> length xs" using \<open>n \<le> length xs\<close> by auto
  have "\<exists>h. murmur_tail xs off' n' h' = Some h" using m(2) by (auto simp: murmur_tail_def arr_get_def)
  then show ?thesis using m(1) by (auto simp: dictGenHashFunction_def Let_def)
qed

lemma dictEncObjHash_spec:
  assumes "obj_ok a"
  shows "dictEncObjHash junk seed a = Some (hashFunction (setDictType seed) (obj_str a))"
proof -
  have h: "dictGenHashFunction seed (obj_mem t) (length t) = Some (hashFunction (setDictType seed) t)" for t
    using dictGenHashFunction_Some[of "length t" "obj_mem t" seed] by (auto simp: setDictType_def)
  show ?thesis
  proof (cases a)
    case (ENC_RAW t)
    then show ?thesis using h by (simp add: dictEncObjHash_def)
  next
    case (ENC_INT n)
    let ?t = "dec_int n"
    have "int_text junk 32 n = Some (?t @ NUL # drop (Suc (length ?t)) (map junk [0..<32]), length ?t)"
      using assms ENC_INT by (intro int_text_spec) auto
    then show ?thesis using h[of ?t] dictGenHashFunction_app[of "length ?t" "obj_mem ?t" seed] ENC_INT
      by (simp add: dictEncObjHash_def)
  qed
qed

lemma memcmp_zero: "length a = length b \<Longrightarrow> SdsText.memcmp_loop a b = 0 \<longleftrightarrow> a = b"
  by (induction a b rule: list_induct2) auto

lemma dictSdsKeyCompare_eq: "dictSdsKeyCompare a b \<longleftrightarrow> a = b"
  using memcmp_zero[of a b] by (auto simp: dictSdsKeyCompare_def)

lemma dictEncObjKeyCompare_spec:
  assumes "obj_ok a" "obj_ok b"
  shows "dictEncObjKeyCompare junk a b = Some (obj_str a = obj_str b)"
  using assms getDecodedObject_spec[OF assms(1), of junk] getDecodedObject_spec[OF assms(2), of junk]
  by (auto simp: dictEncObjKeyCompare_def dictSdsKeyCompare_eq dec_int_inj split: robj.splits)

lemma type_ok_set: "type_ok (setDictType seed)"
  by (simp add: type_ok_def setDictType_def dictSdsKeyCompare_eq)

subsection \<open>The elements of a set\<close>

fun set_strs :: "set_obj \<Rightarrow> string set" where
  "set_strs (ENC_HT d) = dom (lookup d)"
| "set_strs (ENC_INTSET is) = dec_int ` set (intset_vals is)"

fun set_inv :: "set_obj \<Rightarrow> bool" where
  "set_inv (ENC_HT d) \<longleftrightarrow> dict_inv d \<and> (\<forall>k a. lookup d k = Some a \<longrightarrow> obj_str a = k \<and> obj_ok a)"
| "set_inv (ENC_INTSET is) \<longleftrightarrow> intset_inv is"

fun elem_str :: "set_elem \<Rightarrow> string" where
  "elem_str (El_obj a) = obj_str a"
| "elem_str (El_int n) = dec_int n"

fun elem_ok :: "set_elem \<Rightarrow> bool" where
  "elem_ok (El_obj a) \<longleftrightarrow> obj_ok a"
| "elem_ok (El_int n) \<longleftrightarrow> fits 8 n"

lemma representable_iff:
  "obj_ok a \<Longrightarrow> isObjectRepresentableAsLongLong a = Some n \<longleftrightarrow> obj_str a = dec_int n \<and> fits 8 n"
  by (cases a) (auto simp: isObjectRepresentableAsLongLong_def string2ll_spec fits_def dec_int_inj Object.LONG_MIN_def Object.LONG_MAX_def)

lemma elem_obj_spec: "elem_ok el \<Longrightarrow> \<exists>a. elem_obj env el = Some a \<and> obj_str a = elem_str el \<and> obj_ok a"
proof (cases el)
  case (El_int n)
  assume "elem_ok el"
  then have "sint (word_of_int n :: u64) = n" using El_int by (simp add: fits_def signed_of_int signed_take_bit_int_eq_self)
  then show ?thesis using createStringObjectFromLongLong_spec[of "char_junk env" "word_of_int n"] El_int by (simp add: elem_obj_def)
qed (simp add: elem_obj_def)

lemma next_loop_intset:
  assumes "intset_inv is"
  shows "next_loop p0 p1 (ENC_INTSET is) (It_INTSET ii) els =
    Some (ENC_INTSET is, It_INTSET (max ii (len is) + 1), els @ map El_int (drop ii (intset_vals is)))"
proof (induction "len is - ii" arbitrary: ii els)
  case 0
  then show ?case using intsetGet_spec[OF assms, of ii] inv_holds(3)[OF assms]
    by (subst next_loop.simps) (simp add: setTypeNext_def max_def)
next
  case (Suc k)
  then have i: "ii < len is" by simp
  then have "drop ii (intset_vals is) = intset_vals is ! ii # drop (Suc ii) (intset_vals is)"
    using inv_holds(3)[OF assms] by (simp add: Cons_nth_drop_Suc)
  moreover have "max (Suc ii) (len is) = max ii (len is)" using i by simp
  ultimately show ?case using Suc(1)[of "Suc ii" "els @ [El_int (intset_vals is ! ii)]"] Suc(2) i intsetGet_spec[OF assms, of ii]
    by (subst next_loop.simps) (simp add: setTypeNext_def)
qed

lemma dictNext_unsafe:
  assumes "dict_inv d" "iter_ok d it" "entry it \<noteq> [] \<Longrightarrow> nextEntry it = tl (entry it)" "iter_tracks p0 p1 d d it" "\<not> safe it"
  shows "\<exists>it' r. dictNext p0 p1 d it = Some (d, it', r) \<and> iter_ok d it' \<and> (entry it' \<noteq> [] \<longrightarrow> nextEntry it' = tl (entry it')) \<and>
    iter_tracks p0 p1 d d it' \<and> \<not> safe it' \<and> (case iter_rest d it of [] \<Rightarrow> r = None | e # rest \<Rightarrow> r = Some e \<and> iter_rest d it' = rest)"
proof -
  from dictNext_spec[OF assms(1-3), of p0 p1] obtain d1 it1 r where r:
    "dictNext p0 p1 d it = Some (d1, it1, r)" "iter_ok d1 it1" "entry it1 \<noteq> [] \<longrightarrow> nextEntry it1 = tl (entry it1)"
    "case iter_rest d it of [] \<Rightarrow> r = None | e # rest \<Rightarrow> r = Some e \<and> iter_rest d1 it1 = rest" by blast
  have t: "iter_tracks p0 p1 d d1 it1" "\<not> safe it1" using dictNext_tracks[OF assms(4) r(1)] assms(5) by simp_all
  then have "d1 = d" unfolding iter_tracks_def by presburger
  then show ?thesis using r t by blast
qed

lemma next_loop_ht:
  assumes "dict_inv d" "iter_ok d it" "entry it \<noteq> [] \<Longrightarrow> nextEntry it = tl (entry it)" "iter_tracks p0 p1 d d it" "\<not> safe it"
  shows "\<exists>it'. next_loop p0 p1 (ENC_HT d) (It_HT it) els = Some (ENC_HT d, It_HT it', els @ map (\<lambda>e. El_obj (snd e)) (iter_rest d it)) \<and>
    iter_tracks p0 p1 d d it' \<and> \<not> safe it'"
  using assms(2-)
proof (induction "length (iter_rest d it)" arbitrary: it els)
  case 0
  from dictNext_unsafe[OF assms(1) "0.prems"] "0.hyps" obtain it1 where
    r: "dictNext p0 p1 d it = Some (d, it1, None)" "iter_tracks p0 p1 d d it1" "\<not> safe it1" by auto
  then have "next_loop p0 p1 (ENC_HT d) (It_HT it) els = Some (ENC_HT d, It_HT it1, els)"
    by (subst next_loop.simps) (simp add: setTypeNext_def)
  then show ?case using r "0.hyps" by simp
next
  case (Suc k)
  then obtain e rest where e: "iter_rest d it = e # rest" by (cases "iter_rest d it") auto
  from dictNext_unsafe[OF assms(1) Suc.prems] e obtain it1 where
    r: "dictNext p0 p1 d it = Some (d, it1, Some e)" "iter_ok d it1" "entry it1 \<noteq> [] \<longrightarrow> nextEntry it1 = tl (entry it1)"
    "iter_tracks p0 p1 d d it1" "\<not> safe it1" "iter_rest d it1 = rest" by auto
  have "k = length (iter_rest d it1)" using Suc.hyps(2) e r(6) by simp
  from Suc.hyps(1)[OF this r(2) _ r(4,5), of "els @ [El_obj (snd e)]"] r(3) obtain it' where
    n: "next_loop p0 p1 (ENC_HT d) (It_HT it1) (els @ [El_obj (snd e)]) =
      Some (ENC_HT d, It_HT it', (els @ [El_obj (snd e)]) @ map (\<lambda>e. El_obj (snd e)) rest)" "iter_tracks p0 p1 d d it'" "\<not> safe it'"
    unfolding r(6) by auto
  have "next_loop p0 p1 (ENC_HT d) (It_HT it) els = next_loop p0 p1 (ENC_HT d) (It_HT it1) (els @ [El_obj (snd e)])"
    using r(1) by (subst next_loop.simps) (simp add: setTypeNext_def split_def)
  then show ?case using n e by (intro exI[of _ it']) simp
qed

lemma intset_vals_fit:
  assumes "intset_inv is"
  shows "list_all (fits 8) (intset_vals is)"
  using assms
proof (rule inv_cases)
  fix e vs
  assume "e \<in> {2, 4, 8}" "list_all (fits e) vs" "intset_vals is = vs"
  then show ?thesis using fits_mono[of e _ 8] by (auto simp: list_all_iff)
qed

definition elements_ok :: "set_obj \<Rightarrow> set_elem list \<Rightarrow> bool" where
  "elements_ok so els \<longleftrightarrow> distinct (map elem_str els) \<and> set (map elem_str els) = set_strs so \<and> list_all elem_ok els \<and>
     length els = setTypeSize so \<and> list_all (\<lambda>el. (\<exists>n. el = El_int n) \<longleftrightarrow> (\<exists>is. so = ENC_INTSET is)) els"

lemma set_elements_spec:
  assumes "set_inv so"
  shows "\<exists>els. set_elements p0 p1 so = Some (so, els) \<and> elements_ok so els"
proof (cases so)
  case (ENC_HT d)
  then have inv: "dict_inv d" "\<And>k a. lookup d k = Some a \<Longrightarrow> obj_str a = k \<and> obj_ok a" using assms by auto
  let ?it = "dictGetIterator :: (string, robj) dictIterator"
  have it: "it_index ?it = -1" "it_table ?it = 0" "entry ?it = []" "\<not> safe ?it" by (simp_all add: dictGetIterator_def)
  have r: "iter_rest d ?it = entries d" by (simp add: iter_rest_def it entries_def)
  have "iter_ok d ?it" "iter_tracks p0 p1 d d ?it" by (simp_all add: iter_ok_def iter_tracks_def it)
  from next_loop_ht[OF inv(1) this(1) _ this(2) it(4), of "[]"] obtain it' where
    n: "next_loop p0 p1 (ENC_HT d) (It_HT ?it) [] = Some (ENC_HT d, It_HT it', map (\<lambda>e. El_obj (snd e)) (entries d))"
    "iter_tracks p0 p1 d d it'" "\<not> safe it'" unfolding r using it(3) by auto
  have rel: "dictReleaseIterator p0 p1 d it' = Some d"
    using n(2,3) by (auto simp: iter_tracks_def dictReleaseIterator_def split: if_splits)
  have d: "distinct (map fst (entries d))" using inv(1) by (simp add: dict_inv_def)
  have ks: "obj_str a = k \<and> obj_ok a" if "(k, a) \<in> set (entries d)" for k a
    using inv(2) that d by (simp add: lookup_def)
  then have m: "map elem_str (map (\<lambda>e. El_obj (snd e)) (entries d)) = map fst (entries d)" by auto
  then have "elements_ok so (map (\<lambda>e. El_obj (snd e)) (entries d))"
    using d ks dictSize_entries[OF inv(1)] unfolding elements_ok_def ENC_HT m
    by (auto simp: setTypeSize_def lookup_def dom_map_of_conv_image_fst list_all_iff)
  moreover have "set_elements p0 p1 so = Some (so, map (\<lambda>e. El_obj (snd e)) (entries d))"
    using n(1) rel by (simp add: set_elements_def setTypeInitIterator_def setTypeReleaseIterator_def ENC_HT)
  ultimately show ?thesis by blast
next
  case (ENC_INTSET "is")
  then have inv: "intset_inv is" using assms by simp
  have d: "distinct (intset_vals is)" using inv_holds(4)[OF inv] by (simp add: strict_sorted_iff)
  have "inj dec_int" using dec_int_inj by (auto simp: inj_on_def)
  moreover have "list_all (fits 8) (intset_vals is)" using inv by (rule intset_vals_fit)
  ultimately have "elements_ok so (map El_int (intset_vals is))" unfolding elements_ok_def ENC_INTSET
    using d inv_holds(3)[OF inv] by (auto simp: setTypeSize_def intsetLen_def list_all_iff distinct_map comp_def inj_on_def)
  moreover have "set_elements p0 p1 so = Some (so, map El_int (intset_vals is))"
    using next_loop_intset[OF inv, of p0 p1 0 "[]"]
    by (simp add: set_elements_def setTypeInitIterator_def setTypeReleaseIterator_def ENC_INTSET)
  ultimately show ?thesis by blast
qed

subsection \<open>The operations on the elements\<close>

lemma set_size: "set_inv so \<Longrightarrow> finite (set_strs so) \<and> setTypeSize so = card (set_strs so)"
proof (cases so)
  case (ENC_HT d)
  assume "set_inv so"
  then show ?thesis using dictSize_card[of d] by (simp add: ENC_HT setTypeSize_def lookup_def finite_dom_map_of)
next
  case (ENC_INTSET "is")
  assume "set_inv so"
  then show ?thesis using intset_card[of "is"] dec_int_inj
    by (auto simp: ENC_INTSET setTypeSize_def intsetLen_def card_image inj_on_def)
qed

lemma set_dictAdd_spec:
  assumes "set_inv (ENC_HT d)" "obj_ok a" "dictSize d < dict_max"
  shows "\<exists>d'. set_dictAdd env d a = Some (d', obj_str a \<notin> set_strs (ENC_HT d)) \<and> set_inv (ENC_HT d') \<and>
    set_strs (ENC_HT d') = insert (obj_str a) (set_strs (ENC_HT d))"
proof -
  have inv: "dict_inv d" using assms(1) by simp
  have "length (entries d) < dict_max" using dictSize_entries[OF inv] assms(3) by simp
  from dictAdd_spec[OF inv this, of "dict_can_resize env" "obj_junk env" "obj_str a" a] obtain d' where
    d': "dictAdd (dict_can_resize env) (obj_junk env) d (obj_str a) a = Some (d', lookup d (obj_str a) = None)" "dict_inv d'"
    "lookup d' = (if lookup d (obj_str a) = None then (lookup d)(obj_str a \<mapsto> a) else lookup d)" by blast
  have "set_inv (ENC_HT d')" using assms(1,2) d'(2,3) by (auto split: if_splits)
  moreover have "set_strs (ENC_HT d') = insert (obj_str a) (set_strs (ENC_HT d))" using d'(3) by auto
  ultimately show ?thesis using d'(1) by (auto simp: set_dictAdd_def domIff)
qed

lemma convert_loop_spec:
  assumes "set_inv (ENC_HT d)" "list_all elem_ok els" "distinct (map elem_str els)"
    "set (map elem_str els) \<inter> set_strs (ENC_HT d) = {}" "dictSize d + length els \<le> dict_max"
  shows "\<exists>d'. convert_loop env d els = Some d' \<and> set_inv (ENC_HT d') \<and> set_strs (ENC_HT d') = set_strs (ENC_HT d) \<union> set (map elem_str els)"
  using assms
proof (induction els arbitrary: d)
  case (Cons el els)
  from elem_obj_spec[of el env] Cons.prems(2) obtain a where a: "elem_obj env el = Some a" "obj_str a = elem_str el" "obj_ok a" by auto
  from set_dictAdd_spec[OF Cons.prems(1) a(3), of env] Cons.prems(4,5) a(2) obtain d1 where
    d1: "set_dictAdd env d a = Some (d1, True)" "set_inv (ENC_HT d1)" "set_strs (ENC_HT d1) = insert (elem_str el) (set_strs (ENC_HT d))" by auto
  have "dictSize d1 = Suc (dictSize d)"
    using set_size[OF Cons.prems(1)] set_size[OF d1(2)] d1(3) Cons.prems(4) by (simp add: setTypeSize_def)
  then have "dictSize d1 + length els \<le> dict_max" using Cons.prems(5) by simp
  moreover have "set (map elem_str els) \<inter> set_strs (ENC_HT d1) = {}" using Cons.prems(3,4) d1(3) by auto
  ultimately show ?case using Cons.IH[OF d1(2)] Cons.prems(2,3) a(1) d1 by auto
qed simp

lemma new_set_inv:
  "set_inv createIntsetObject" "set_strs createIntsetObject = {}" "set_inv (createSetObject env)" "set_strs (createSetObject env) = {}"
  by (simp_all add: createIntsetObject_def createSetObject_def intsetNew_inv dict_inv_create[OF type_ok_set] lookup_create)

lemma setTypeConvert_spec:
  assumes "intset_inv is"
  shows "\<exists>d. setTypeConvert env (ENC_INTSET is) = Some (ENC_HT d) \<and> set_inv (ENC_HT d) \<and> set_strs (ENC_HT d) = set_strs (ENC_INTSET is)"
proof -
  let ?c = "dictCreate (setDictType (hash_seed env))"
  have c: "dict_inv ?c" using type_ok_set by (rule dict_inv_create)
  have l: "intsetLen is < 2 ^ 29" using inv_holds(5)[OF assms] by (simp add: intsetLen_def)
  then have "intsetLen is < Dict.LONG_MAX" by (simp add: Dict.LONG_MAX_def)
  from dictExpand_spec[OF c this] obtain d where d: "fst (dictExpand ?c (intsetLen is)) = d" "dict_inv d" "same_entries ?c d" by auto
  have lk: "lookup d = Map.empty" using same_entries_lookup[OF c d(3)] by (simp add: lookup_create)
  have sd: "set_inv (ENC_HT d)" "set_strs (ENC_HT d) = {}" "dictSize d = 0" using d(2) lk dictSize_card[OF d(2)] by simp_all
  have "set_inv (ENC_INTSET is)" using assms by simp
  from set_elements_spec[OF this, of 0 0] obtain els where
    els: "set_elements 0 0 (ENC_INTSET is) = Some (ENC_INTSET is, els)" "elements_ok (ENC_INTSET is) els" by blast
  have "\<exists>d'. convert_loop env d els = Some d' \<and> set_inv (ENC_HT d') \<and> set_strs (ENC_HT d') = set_strs (ENC_HT d) \<union> set (map elem_str els)"
    using els(2) sd l by (intro convert_loop_spec) (auto simp: elements_ok_def setTypeSize_def dict_max_def)
  then obtain d' where "convert_loop env d els = Some d'" "set_inv (ENC_HT d')" "set_strs (ENC_HT d') = set_strs (ENC_INTSET is)"
    using els(2) sd(2) unfolding elements_ok_def by auto
  then show ?thesis using els(1) d(1) by (auto simp: setTypeConvert_def Let_def)
qed

lemma setTypeAdd_spec:
  assumes "set_inv so" "obj_ok a" "setTypeSize so < 2 ^ 29 - 1"
  shows "\<exists>so'. setTypeAdd env so a = Some (so', obj_str a \<notin> set_strs so) \<and> set_inv so' \<and> set_strs so' = insert (obj_str a) (set_strs so)"
proof (cases so)
  case (ENC_HT d)
  then have "set_inv (ENC_HT d)" "dictSize d < dict_max" using assms by (simp_all add: setTypeSize_def dict_max_def)
  from set_dictAdd_spec[OF this(1) assms(2) this(2), of env] show ?thesis by (auto simp: setTypeAdd_def ENC_HT)
next
  case (ENC_INTSET "is")
  then have inv: "intset_inv is" and n: "len is + 1 < 2 ^ 29" using assms(1,3) by (simp_all add: setTypeSize_def intsetLen_def)
  show ?thesis
  proof (cases "isObjectRepresentableAsLongLong a")
    case (Some v)
    then have v: "obj_str a = dec_int v" "fits 8 v" using representable_iff[OF assms(2)] by simp_all
    from intsetAdd_spec[OF inv v(2) n, of "byte_junk env"] obtain is1 where
      i: "intsetAdd (byte_junk env) is v = Some (is1, v \<notin> set (intset_vals is))" "intset_inv is1"
      "set (intset_vals is1) = insert v (set (intset_vals is))"
      by (metis insert_absorb set_insert_at_rank)
    have s: "set_strs (ENC_INTSET is1) = insert (obj_str a) (set_strs so)" "obj_str a \<in> set_strs so \<longleftrightarrow> v \<in> set (intset_vals is)"
      using i(3) v(1) dec_int_inj by (auto simp: ENC_INTSET)
    from setTypeConvert_spec[OF i(2), of env] show ?thesis using i s Some by (auto simp: setTypeAdd_def ENC_INTSET)
  next
    case None
    have new: "obj_str a \<notin> set_strs so"
    proof
      assume "obj_str a \<in> set_strs so"
      then obtain v where "obj_str a = dec_int v" "v \<in> set (intset_vals is)" by (auto simp: ENC_INTSET)
      then show False using intset_vals_fit[OF inv] None representable_iff[OF assms(2), of v] by (auto simp: list_all_iff)
    qed
    from setTypeConvert_spec[OF inv, of env] obtain d where
      d: "setTypeConvert env so = Some (ENC_HT d)" "set_inv (ENC_HT d)" "set_strs (ENC_HT d) = set_strs so" by (auto simp: ENC_INTSET)
    have "dictSize d < dict_max"
      using set_size[OF d(2)] set_size[OF assms(1)] assms(3) d(3) by (simp add: setTypeSize_def dict_max_def)
    from set_dictAdd_spec[OF d(2) assms(2) this, of env] show ?thesis using d new None
      by (auto simp: setTypeAdd_def ENC_INTSET)
  qed
qed

lemma resize_same:
  assumes "set_inv (ENC_HT d)"
  shows "set_inv (ENC_HT (fst (dictResize cr d)))" "set_strs (ENC_HT (fst (dictResize cr d))) = set_strs (ENC_HT d)"
proof -
  from assms have inv: "dict_inv d" by simp
  from dictResize_spec[OF inv, of cr] obtain d' b where r: "dictResize cr d = (d', b)" "dict_inv d'" "same_entries d d'" by blast
  have "lookup d' = lookup d" by (rule same_entries_lookup[OF inv r(3)])
  then show "set_inv (ENC_HT (fst (dictResize cr d)))" "set_strs (ENC_HT (fst (dictResize cr d))) = set_strs (ENC_HT d)"
    using assms r(1,2) by simp_all
qed

lemma setTypeRemove_spec:
  assumes "set_inv so" "obj_ok a"
  shows "\<exists>so'. setTypeRemove env so a = Some (so', obj_str a \<in> set_strs so) \<and> set_inv so' \<and> set_strs so' = set_strs so - {obj_str a}"
proof (cases so)
  case (ENC_HT d)
  then have inv: "dict_inv d" using assms by simp
  from dictGenericDelete_spec[OF inv, of "obj_str a" False] obtain d1 fr where
    d1: "dictDelete d (obj_str a) = Some (d1, lookup d (obj_str a) \<noteq> None, fr)" "dict_inv d1" "lookup d1 = (lookup d)(obj_str a := None)"
    unfolding dictDelete_def by blast
  have s: "set_inv (ENC_HT d1)" "set_strs (ENC_HT d1) = set_strs so - {obj_str a}"
    using assms(1) d1(2,3) by (auto simp: ENC_HT split: if_splits)
  let ?d2 = "if lookup d (obj_str a) \<noteq> None \<and> htNeedsResize d1 then fst (dictResize (dict_can_resize env) d1) else d1"
  have "setTypeRemove env so a = Some (ENC_HT ?d2, obj_str a \<in> set_strs so)"
    using d1(1) by (simp add: setTypeRemove_def ENC_HT domIff)
  moreover have "set_inv (ENC_HT ?d2) \<and> set_strs (ENC_HT ?d2) = set_strs so - {obj_str a}"
    using s resize_same[OF s(1)] by (simp only: split: if_split) blast
  ultimately show ?thesis by blast
next
  case (ENC_INTSET "is")
  then have inv: "intset_inv is" using assms(1) by simp
  show ?thesis
  proof (cases "isObjectRepresentableAsLongLong a")
    case (Some v)
    then have v: "obj_str a = dec_int v" "fits 8 v" using representable_iff[OF assms(2)] by simp_all
    have d: "distinct (intset_vals is)" using inv_holds(4)[OF inv] by (simp add: strict_sorted_iff)
    from intsetRemove_spec[OF inv v(2), of "byte_junk env"] obtain is1 where
      i: "intsetRemove (byte_junk env) is v = Some (is1, v \<in> set (intset_vals is))" "intset_inv is1"
      "set (intset_vals is1) = set (intset_vals is) - {v}" using d by auto
    have "set_strs (ENC_INTSET is1) = set_strs so - {obj_str a}" "obj_str a \<in> set_strs so \<longleftrightarrow> v \<in> set (intset_vals is)"
      using i(3) v(1) dec_int_inj by (auto simp: ENC_INTSET)
    then show ?thesis using i Some by (auto simp: setTypeRemove_def ENC_INTSET)
  next
    case None
    have "obj_str a \<notin> set_strs so"
      using intset_vals_fit[OF inv] None representable_iff[OF assms(2)] by (auto simp: ENC_INTSET list_all_iff)
    then show ?thesis using None assms(1) by (simp add: setTypeRemove_def ENC_INTSET)
  qed
qed

lemma setTypeIsMember_spec:
  assumes "set_inv so" "obj_ok a"
  shows "\<exists>so'. setTypeIsMember so a = Some (so', obj_str a \<in> set_strs so) \<and> set_inv so' \<and> set_strs so' = set_strs so"
proof (cases so)
  case (ENC_HT d)
  then have inv: "dict_inv d" using assms by simp
  from dictFind_spec[OF inv, of "obj_str a"] obtain d1 l where
    f: "dictFind d (obj_str a) = Some (d1, l)" "dict_inv d1" "same_entries d d1"
    "case l of None \<Rightarrow> lookup d (obj_str a) = None | Some l \<Rightarrow> holds_key d1 l (obj_str a)" by blast
  have lk: "lookup d1 = lookup d" using same_entries_lookup[OF inv f(3)] .
  have "(l \<noteq> None) = (obj_str a \<in> dom (lookup d))"
    using f(4) entry_at_holds[OF f(2)] lk by (cases l) (fastforce simp: domIff)+
  then show ?thesis using f(1,2) lk assms(1) by (auto simp: setTypeIsMember_def ENC_HT)
next
  case (ENC_INTSET "is")
  then have inv: "intset_inv is" using assms(1) by simp
  show ?thesis
  proof (cases "isObjectRepresentableAsLongLong a")
    case (Some v)
    then have "obj_str a = dec_int v" using representable_iff[OF assms(2)] by simp
    then show ?thesis using Some intsetFind_spec[OF inv, of v] assms(1) dec_int_inj by (auto simp: setTypeIsMember_def ENC_INTSET)
  next
    case None
    have "obj_str a \<notin> set_strs so"
      using intset_vals_fit[OF inv] None representable_iff[OF assms(2)] by (auto simp: ENC_INTSET list_all_iff)
    then show ?thesis using None assms(1) by (simp add: setTypeIsMember_def ENC_INTSET)
  qed
qed

interpretation set_type: bounded_set "setTypeAdd env" "setTypeRemove env" "\<lambda>so a. map_option snd (setTypeIsMember so a)"
  setTypeSize obj_str set_strs set_inv obj_ok "2 ^ 29 - 1" for env
proof
  fix so a
  assume so: "set_inv so"
  show "finite (set_strs so) \<and> setTypeSize so = card (set_strs so)" by (rule set_size[OF so])
  assume a: "obj_ok a"
  show "\<exists>s'. setTypeRemove env so a = Some (s', obj_str a \<in> set_strs so) \<and> set_inv s' \<and> set_strs s' = set_strs so - {obj_str a}"
    by (rule setTypeRemove_spec[OF so a])
  show "map_option snd (setTypeIsMember so a) = Some (obj_str a \<in> set_strs so)"
    using setTypeIsMember_spec[OF so a] by auto
  assume "setTypeSize so < 2 ^ 29 - 1"
  then show "\<exists>s'. setTypeAdd env so a = Some (s', obj_str a \<notin> set_strs so) \<and> set_inv s' \<and> set_strs s' = insert (obj_str a) (set_strs so)"
    by (rule setTypeAdd_spec[OF so a])
qed

lemma setTypeCreate_spec: "set_inv (setTypeCreate env v) \<and> set_strs (setTypeCreate env v) = {}"
  using new_set_inv by (simp add: setTypeCreate_def)

text \<open>
  C15. The representation of a set is invisible: a batch of additions to a new set followed by a batch
  of removals leaves exactly the set of strings that it should, whatever mixture of numbers and other
  strings, encoded as integers or not, the batches have and whenever the set is converted from the
  sorted block of integers to the hash table.  The counts of the elements that were new or present,
  the size and the membership test agree with this set.
\<close>

theorem set_type_refines_sets:
  assumes "list_all obj_ok xs" "list_all obj_ok ys" "length xs < 2 ^ 29"
  defines "S \<equiv> obj_str ` set xs - obj_str ` set ys"
  shows "\<exists>s1 n1 s2 n2. add_loop (setTypeAdd env) (setTypeCreate env v) xs = Some (s1, n1) \<and> n1 = card (obj_str ` set xs) \<and>
    add_loop (setTypeRemove env) s1 ys = Some (s2, n2) \<and> n2 = n1 - card S \<and> set_inv s2 \<and> setTypeSize s2 = card S \<and>
    (\<forall>x. obj_ok x \<longrightarrow> (\<exists>s3. setTypeIsMember s2 x = Some (s3, obj_str x \<in> S)))"
proof -
  let ?s = "setTypeCreate env v"
  have c: "set_inv ?s" "set_strs ?s = {}" using setTypeCreate_spec by blast+
  have sz: "setTypeSize ?s = 0" using set_size[OF c(1)] c(2) by simp
  have "setTypeSize ?s + length xs \<le> 2 ^ 29 - 1" using sz assms(3) by simp
  from set_type.add_loop_correct[OF c(1) assms(1) this, of env] obtain s1 n1 where
    s1: "add_loop (setTypeAdd env) ?s xs = Some (s1, n1)" "set_inv s1" "set_strs s1 = obj_str ` set xs" "setTypeSize s1 = n1"
    unfolding c(2) sz by auto
  from set_type.rem_loop_correct[OF s1(2) assms(2), of env] obtain s2 n2 where
    s2: "add_loop (setTypeRemove env) s1 ys = Some (s2, n2)" "set_inv s2" "set_strs s2 = S" "setTypeSize s1 = setTypeSize s2 + n2"
    unfolding s1(3) S_def by blast
  have "setTypeSize s1 = card (obj_str ` set xs)" "setTypeSize s2 = card S" using set_size[OF s1(2)] set_size[OF s2(2)] s1(3) s2(3) by simp_all
  moreover have "\<exists>s3. setTypeIsMember s2 x = Some (s3, obj_str x \<in> S)" if "obj_ok x" for x
    using setTypeIsMember_spec[OF s2(2) that] s2(3) by auto
  ultimately show ?thesis using s1(1,4) s2(1,2,4) by (intro exI[of _ s1] exI[of _ n1] exI[of _ s2] exI[of _ n2]) simp
qed

definition small_env :: set_env where
  "small_env = \<lparr>set_max_intset_entries = 1, dict_can_resize = True, hash_seed = 0, byte_junk = \<lambda>_. 0, char_junk = \<lambda>_. NUL, obj_junk = ENC_INT 0\<rparr>"

theorem set_type_refines_sets_witness:
  "\<exists>s1 n1 s2 n2. add_loop (setTypeAdd small_env) (setTypeCreate small_env (ENC_RAW ''1'')) [ENC_RAW ''1'', ENC_INT 7, ENC_RAW ''x''] = Some (s1, n1) \<and>
    add_loop (setTypeRemove small_env) s1 [ENC_RAW ''x'', ENC_RAW ''y''] = Some (s2, n2) \<and> set_inv s2 \<and>
    (\<exists>s3. setTypeIsMember s2 (ENC_RAW ''x'') = Some (s3, False))"
proof -
  let ?xs = "[ENC_RAW ''1'', ENC_INT 7, ENC_RAW ''x'']" and ?ys = "[ENC_RAW ''x'', ENC_RAW ''y'']"
  have h: "list_all obj_ok ?xs" "list_all obj_ok ?ys" "length ?xs < 2 ^ 29" "obj_ok (ENC_RAW ''x'')" by (simp_all add: Object.LONG_MIN_def Object.LONG_MAX_def)
  have n: "obj_str (ENC_RAW ''x'') \<notin> obj_str ` set ?xs - obj_str ` set ?ys" by simp
  from set_type_refines_sets[OF h(1-3), of small_env "ENC_RAW ''1''"] obtain s1 n1 s2 n2 where
    "add_loop (setTypeAdd small_env) (setTypeCreate small_env (ENC_RAW ''1'')) ?xs = Some (s1, n1)"
    "add_loop (setTypeRemove small_env) s1 ?ys = Some (s2, n2)" "set_inv s2"
    "\<exists>s3. setTypeIsMember s2 (ENC_RAW ''x'') = Some (s3, False)" using h(4) n by metis
  then show ?thesis by blast
qed

end
