(* ===== verification/Db.thy ===== *)
theory Db
  imports SetType Reply
begin

text \<open>
  The key space of the server (\<open>src/redis/src/db.c\<close>): databases that map keys to objects, times at
  which keys expire, and the commands on keys.  Objects are counted references: a database holds
  addresses, and the objects with their reference counts are a separate store, so that the transfer
  of references between keys (RENAME, MOVE) and the release of objects are the ones of the code.

  The effects on parts that are not modelled (transactions that watch keys, notifications, the
  append only file, blocked clients) are recorded in order, as \<open>trace\<close>.  The clock is read call by
  call: \<open>mstime_at n\<close> is what the \<open>n\<close>-th call of \<open>mstime\<close> returns.
\<close>

subsection \<open>Objects\<close>

datatype vtype = TY_STRING | TY_LIST | TY_ZSET | TY_HASH

text \<open>The contents of values other than sets are not looked at here.\<close>

datatype value_obj = V_set set_obj | V_other vtype

record obj_hdr =
  refcount :: nat
  lru :: nat
  oval :: value_obj

record redisDb =
  db_dict :: "(string, nat) dict"
  db_expires :: "(string, int) dict"

datatype notify_class = REDIS_NOTIFY_GENERIC | REDIS_NOTIFY_SET | REDIS_NOTIFY_EXPIRED

datatype srv_event =
    Modified nat string
  | Notify notify_class string string nat
  | FeedAOF nat "string list"
  | FeedSlaves nat "string list"
  | ListReady nat string
  | Flushed nat

record redisServer =
  dbs :: "redisDb list"
  objs :: "nat \<Rightarrow> obj_hdr option"
  next_obj :: nat
  dirty :: int
  ticks :: nat
  stat_expiredkeys :: int
  stat_keyspace_hits :: int
  stat_keyspace_misses :: int
  trace :: "srv_event list"

text \<open>
  Configuration and surroundings; \<open>masterhost\<close> says that the server is a slave, \<open>lua_time_start\<close> is
  the time at which the running script started.
\<close>

record srv_env = set_env +
  loading :: bool
  masterhost :: bool
  lua_time_start :: "int option"
  mstime_at :: "nat \<Rightarrow> int"
  aof_on :: bool
  saving_child :: bool
  lruclock :: nat
  share_ints :: bool
  netenv :: net_env
  qsort :: "(nat option \<Rightarrow> nat option \<Rightarrow> int) \<Rightarrow> nat option list \<Rightarrow> nat option list"

definition createObject :: "srv_env \<Rightarrow> redisServer \<Rightarrow> value_obj \<Rightarrow> redisServer \<times> nat" where
  "createObject env s v =
     (s\<lparr>objs := (objs s)(next_obj s \<mapsto> \<lparr>refcount = 1, lru = lruclock env, oval = v\<rparr>), next_obj := next_obj s + 1\<rparr>, next_obj s)"

definition incrRefCount :: "redisServer \<Rightarrow> nat \<Rightarrow> redisServer option" where
  "incrRefCount s a = do { x \<leftarrow> objs s a; Some (s\<lparr>objs := (objs s)(a \<mapsto> x\<lparr>refcount := refcount x + 1\<rparr>)\<rparr>) }"

definition decrRefCount :: "redisServer \<Rightarrow> nat \<Rightarrow> redisServer option" where
  "decrRefCount s a =
     do { x \<leftarrow> objs s a;
          if refcount x = 0 then None
          else if refcount x = 1 then Some (s\<lparr>objs := (objs s)(a := None)\<rparr>)
          else Some (s\<lparr>objs := (objs s)(a \<mapsto> x\<lparr>refcount := refcount x - 1\<rparr>)\<rparr>) }"

fun decr_all :: "redisServer \<Rightarrow> nat list \<Rightarrow> redisServer option" where
  "decr_all s [] = Some s"
| "decr_all s (a # as) = do { s \<leftarrow> decrRefCount s a; decr_all s as }"

definition get_db :: "redisServer \<Rightarrow> nat \<Rightarrow> redisDb option" where
  "get_db s i = (if i < length (dbs s) then Some (dbs s ! i) else None)"

definition put_db :: "redisServer \<Rightarrow> nat \<Rightarrow> redisDb \<Rightarrow> redisServer" where
  "put_db s i db = s\<lparr>dbs := (dbs s)[i := db]\<rparr>"

definition note_event :: "redisServer \<Rightarrow> srv_event \<Rightarrow> redisServer" where
  "note_event s e = s\<lparr>trace := trace s @ [e]\<rparr>"

definition mstime :: "srv_env \<Rightarrow> redisServer \<Rightarrow> redisServer \<times> int" where
  "mstime env s = (s\<lparr>ticks := ticks s + 1\<rparr>, mstime_at env (ticks s))"

subsection \<open>Tables of keys\<close>

definition dbDictType :: "u32 \<Rightarrow> (string, nat) dictType" where
  "dbDictType seed = \<lparr>hashFunction = (\<lambda>s. the (dictGenHashFunction seed (obj_mem s) (length s))), keyDup = None, valDup = None,
     keyCompare = Some dictSdsKeyCompare\<rparr>"

definition keyptrDictType :: "u32 \<Rightarrow> (string, int) dictType" where
  "keyptrDictType seed = \<lparr>hashFunction = (\<lambda>s. the (dictGenHashFunction seed (obj_mem s) (length s))), keyDup = None, valDup = None,
     keyCompare = Some dictSdsKeyCompare\<rparr>"

text \<open>The part of \<open>initServer\<close> that sets up the databases.\<close>

definition init_server :: "srv_env \<Rightarrow> nat \<Rightarrow> redisServer" where
  "init_server env dbnum =
     \<lparr>dbs = replicate dbnum \<lparr>db_dict = dictCreate (dbDictType (hash_seed env)), db_expires = dictCreate (keyptrDictType (hash_seed env))\<rparr>,
      objs = Map.empty, next_obj = 0, dirty = 0, ticks = 0, stat_expiredkeys = 0, stat_keyspace_hits = 0, stat_keyspace_misses = 0, trace = []\<rparr>"

text \<open>\<open>dictFind\<close> in the table of keys of database \<open>i\<close>: the value of the entry.\<close>

definition find_key :: "redisServer \<Rightarrow> nat \<Rightarrow> string \<Rightarrow> (redisServer \<times> nat option) option" where
  "find_key s i key =
     do { db \<leftarrow> get_db s i;
          (d, v) \<leftarrow> dictFetchValue (db_dict db) key;
          Some (put_db s i (db\<lparr>db_dict := d\<rparr>), v) }"

definition lookupKey :: "srv_env \<Rightarrow> redisServer \<Rightarrow> nat \<Rightarrow> string \<Rightarrow> (redisServer \<times> nat option) option" where
  "lookupKey env s i key =
     do { (s, de) \<leftarrow> find_key s i key;
          case de of
            None \<Rightarrow> Some (s, None)
          | Some a \<Rightarrow>
              do { x \<leftarrow> objs s a;
                   let s = (if \<not> saving_child env then s\<lparr>objs := (objs s)(a \<mapsto> x\<lparr>lru := lruclock env\<rparr>)\<rparr> else s);
                   Some (s, Some a) } }"

definition dbExists :: "redisServer \<Rightarrow> nat \<Rightarrow> string \<Rightarrow> (redisServer \<times> bool) option" where
  "dbExists s i key = do { (s, de) \<leftarrow> find_key s i key; Some (s, de \<noteq> None) }"

definition dbAdd :: "srv_env \<Rightarrow> redisServer \<Rightarrow> nat \<Rightarrow> string \<Rightarrow> nat \<Rightarrow> redisServer option" where
  "dbAdd env s i key a =
     do { db \<leftarrow> get_db s i;
          (d, ok) \<leftarrow> dictAdd (dict_can_resize env) 0 (db_dict db) key a;
          if \<not> ok then None
          else do { x \<leftarrow> objs s a;
                    let s = put_db s i (db\<lparr>db_dict := d\<rparr>);
                    Some (if oval x = V_other TY_LIST then note_event s (ListReady i key) else s) } }"

text \<open>The old value goes to the destructor of the table, \<open>decrRefCount\<close>.\<close>

definition dbOverwrite :: "srv_env \<Rightarrow> redisServer \<Rightarrow> nat \<Rightarrow> string \<Rightarrow> nat \<Rightarrow> redisServer option" where
  "dbOverwrite env s i key a =
     do { (s, de) \<leftarrow> find_key s i key;
          if de = None then None
          else do { db \<leftarrow> get_db s i;
                    (d, _, freed) \<leftarrow> dictReplace (dict_can_resize env) 0 (db_dict db) key a;
                    decr_all (put_db s i (db\<lparr>db_dict := d\<rparr>)) freed } }"

definition dbDelete :: "redisServer \<Rightarrow> nat \<Rightarrow> string \<Rightarrow> (redisServer \<times> bool) option" where
  "dbDelete s i key =
     do { db \<leftarrow> get_db s i;
          ex \<leftarrow> (if dictSize (db_expires db) > 0
                then do { (ex, _, _) \<leftarrow> dictDelete (db_expires db) key; Some ex }
                else Some (db_expires db));
          (d, ok, freed) \<leftarrow> dictDelete (db_dict db) key;
          s \<leftarrow> decr_all (put_db s i \<lparr>db_dict = d, db_expires = ex\<rparr>) (map snd freed);
          Some (s, ok) }"

subsection \<open>Expiration\<close>

definition removeExpire :: "redisServer \<Rightarrow> nat \<Rightarrow> string \<Rightarrow> (redisServer \<times> bool) option" where
  "removeExpire s i key =
     do { (s, de) \<leftarrow> find_key s i key;
          if de = None then None
          else do { db \<leftarrow> get_db s i;
                    (ex, ok, _) \<leftarrow> dictDelete (db_expires db) key;
                    Some (put_db s i (db\<lparr>db_expires := ex\<rparr>), ok) } }"

definition setExpire :: "srv_env \<Rightarrow> redisServer \<Rightarrow> nat \<Rightarrow> string \<Rightarrow> int \<Rightarrow> redisServer option" where
  "setExpire env s i key when =
     do { (s, kde) \<leftarrow> find_key s i key;
          if kde = None then None
          else do { db \<leftarrow> get_db s i;
                    (ex, de) \<leftarrow> dictReplaceRaw (dict_can_resize env) 0 (db_expires db) key;
                    l \<leftarrow> de;
                    ex \<leftarrow> dictSetVal ex l when;
                    Some (put_db s i (db\<lparr>db_expires := ex\<rparr>)) } }"

definition getExpire :: "redisServer \<Rightarrow> nat \<Rightarrow> string \<Rightarrow> (redisServer \<times> int) option" where
  "getExpire s i key =
     do { db \<leftarrow> get_db s i;
          if dictSize (db_expires db) = 0 then Some (s, -1)
          else do { (ex, de) \<leftarrow> dictFetchValue (db_expires db) key;
                    let s = put_db s i (db\<lparr>db_expires := ex\<rparr>);
                    case de of
                      None \<Rightarrow> Some (s, -1)
                    | Some when \<Rightarrow> do { (s, kde) \<leftarrow> find_key s i key;
                                       if kde = None then None else Some (s, when) } } }"

definition propagateExpire :: "srv_env \<Rightarrow> redisServer \<Rightarrow> nat \<Rightarrow> string \<Rightarrow> redisServer" where
  "propagateExpire env s i key =
     (let s = (if aof_on env then note_event s (FeedAOF i [''DEL'', key]) else s)
      in note_event s (FeedSlaves i [''DEL'', key]))"

definition expireIfNeeded :: "srv_env \<Rightarrow> redisServer \<Rightarrow> nat \<Rightarrow> string \<Rightarrow> (redisServer \<times> bool) option" where
  "expireIfNeeded env s i key =
     do { (s, when) \<leftarrow> getExpire s i key;
          if when < 0 then Some (s, False)
          else if loading env then Some (s, False)
          else do { let (s, now) = (case lua_time_start env of Some t \<Rightarrow> (s, t) | None \<Rightarrow> mstime env s);
                    if masterhost env then Some (s, now > when)
                    else if now \<le> when then Some (s, False)
                    else do { let s = s\<lparr>stat_expiredkeys := stat_expiredkeys s + 1\<rparr>;
                              let s = propagateExpire env s i key;
                              let s = note_event s (Notify REDIS_NOTIFY_EXPIRED ''expired'' key i);
                              dbDelete s i key } } }"

definition lookupKeyRead :: "srv_env \<Rightarrow> redisServer \<Rightarrow> nat \<Rightarrow> string \<Rightarrow> (redisServer \<times> nat option) option" where
  "lookupKeyRead env s i key =
     do { (s, _) \<leftarrow> expireIfNeeded env s i key;
          (s, a) \<leftarrow> lookupKey env s i key;
          Some (if a = None then s\<lparr>stat_keyspace_misses := stat_keyspace_misses s + 1\<rparr>
                else s\<lparr>stat_keyspace_hits := stat_keyspace_hits s + 1\<rparr>, a) }"

definition lookupKeyWrite :: "srv_env \<Rightarrow> redisServer \<Rightarrow> nat \<Rightarrow> string \<Rightarrow> (redisServer \<times> nat option) option" where
  "lookupKeyWrite env s i key = do { (s, _) \<leftarrow> expireIfNeeded env s i key; lookupKey env s i key }"

definition signalModifiedKey :: "redisServer \<Rightarrow> nat \<Rightarrow> string \<Rightarrow> redisServer" where
  "signalModifiedKey s i key = note_event s (Modified i key)"

definition setKey :: "srv_env \<Rightarrow> redisServer \<Rightarrow> nat \<Rightarrow> string \<Rightarrow> nat \<Rightarrow> redisServer option" where
  "setKey env s i key a =
     do { (s, old) \<leftarrow> lookupKeyWrite env s i key;
          s \<leftarrow> (if old = None then dbAdd env s i key a else dbOverwrite env s i key a);
          s \<leftarrow> incrRefCount s a;
          (s, _) \<leftarrow> removeExpire s i key;
          Some (signalModifiedKey s i key) }"

subsection \<open>Commands on keys\<close>

definition shared_czero :: string where "shared_czero = '':0'' @ crlf"
definition shared_cone :: string where "shared_cone = '':1'' @ crlf"
definition shared_ok :: string where "shared_ok = ''+OK'' @ crlf"
definition shared_emptymultibulk :: string where "shared_emptymultibulk = ''*0'' @ crlf"
definition shared_wrongtypeerr :: string where
  "shared_wrongtypeerr = ''-WRONGTYPE Operation against a key holding the wrong kind of value'' @ crlf"
definition shared_nokeyerr :: string where "shared_nokeyerr = ''-ERR no such key'' @ crlf"
definition shared_sameobjecterr :: string where "shared_sameobjecterr = ''-ERR source and destination objects are the same'' @ crlf"
definition shared_outofrangeerr :: string where "shared_outofrangeerr = ''-ERR index out of range'' @ crlf"

definition reply_shared :: "srv_env \<Rightarrow> redisClient \<Rightarrow> string \<Rightarrow> redisClient option" where
  "reply_shared env c t = addReply (netenv env) (char_junk env) c (ENC_RAW t)"

definition reply_int :: "srv_env \<Rightarrow> redisClient \<Rightarrow> int \<Rightarrow> redisClient option" where
  "reply_int env c n = addReplyLongLong (netenv env) (char_junk env) c (word_of_int n)"

text \<open>A command gets the server, the database of the client and the client.\<close>

fun del_loop :: "srv_env \<Rightarrow> redisServer \<Rightarrow> nat \<Rightarrow> string list \<Rightarrow> int \<Rightarrow> (redisServer \<times> int) option" where
  "del_loop env s i [] deleted = Some (s, deleted)"
| "del_loop env s i (key # keys) deleted =
     do { (s, _) \<leftarrow> expireIfNeeded env s i key;
          (s, ok) \<leftarrow> dbDelete s i key;
          if ok
          then do { let s = signalModifiedKey s i key;
                    let s = note_event s (Notify REDIS_NOTIFY_GENERIC ''del'' key i);
                    del_loop env (s\<lparr>dirty := dirty s + 1\<rparr>) i keys (deleted + 1) }
          else del_loop env s i keys deleted }"

definition delCommand :: "srv_env \<Rightarrow> redisServer \<Rightarrow> nat \<Rightarrow> redisClient \<Rightarrow> (redisServer \<times> redisClient) option" where
  "delCommand env s i c =
     do { (s, deleted) \<leftarrow> del_loop env s i (tl (argv c)) 0;
          c \<leftarrow> reply_int env c deleted;
          Some (s, c) }"

definition existsCommand :: "srv_env \<Rightarrow> redisServer \<Rightarrow> nat \<Rightarrow> redisClient \<Rightarrow> (redisServer \<times> redisClient) option" where
  "existsCommand env s i c =
     do { key \<leftarrow> arr_get (argv c) 1;
          (s, _) \<leftarrow> expireIfNeeded env s i key;
          (s, ex) \<leftarrow> dbExists s i key;
          c \<leftarrow> reply_shared env c (if ex then shared_cone else shared_czero);
          Some (s, c) }"

definition flushdbCommand :: "srv_env \<Rightarrow> redisServer \<Rightarrow> nat \<Rightarrow> redisClient \<Rightarrow> (redisServer \<times> redisClient) option" where
  "flushdbCommand env s i c =
     do { db \<leftarrow> get_db s i;
          let s = s\<lparr>dirty := dirty s + int (dictSize (db_dict db))\<rparr>;
          let s = note_event s (Flushed i);
          (d, freed) \<leftarrow> dictEmpty (db_dict db) False;
          s \<leftarrow> decr_all (put_db s i (db\<lparr>db_dict := d\<rparr>)) (map snd freed);
          (ex, _) \<leftarrow> dictEmpty (db_expires db) False;
          c \<leftarrow> reply_shared env c shared_ok;
          Some (put_db s i \<lparr>db_dict = d, db_expires = ex\<rparr>, c) }"

definition dbsizeCommand :: "srv_env \<Rightarrow> redisServer \<Rightarrow> nat \<Rightarrow> redisClient \<Rightarrow> (redisServer \<times> redisClient) option" where
  "dbsizeCommand env s i c =
     do { db \<leftarrow> get_db s i;
          c \<leftarrow> reply_int env c (int (dictSize (db_dict db)));
          Some (s, c) }"

definition type_name :: "value_obj \<Rightarrow> string" where
  "type_name v = (case v of V_set _ \<Rightarrow> ''set'' | V_other TY_STRING \<Rightarrow> ''string'' | V_other TY_LIST \<Rightarrow> ''list''
     | V_other TY_ZSET \<Rightarrow> ''zset'' | V_other TY_HASH \<Rightarrow> ''hash'')"

definition typeCommand :: "srv_env \<Rightarrow> redisServer \<Rightarrow> nat \<Rightarrow> redisClient \<Rightarrow> (redisServer \<times> redisClient) option" where
  "typeCommand env s i c =
     do { key \<leftarrow> arr_get (argv c) 1;
          (s, a) \<leftarrow> lookupKeyRead env s i key;
          t \<leftarrow> (case a of None \<Rightarrow> Some ''none'' | Some a \<Rightarrow> do { x \<leftarrow> objs s a; Some (type_name (oval x)) });
          c \<leftarrow> addReplyStatus (netenv env) c t;
          Some (s, c) }"

text \<open>The command from the lookup of the destination on; \<open>w\<close> is the expiration of the source.\<close>

definition rename_rest :: "srv_env \<Rightarrow> redisServer \<Rightarrow> nat \<Rightarrow> redisClient \<Rightarrow> bool \<Rightarrow> string \<Rightarrow> string \<Rightarrow> nat \<Rightarrow> int \<Rightarrow> nat option \<Rightarrow> (redisServer \<times> redisClient) option" where
  "rename_rest env s i c nx src dst a expire old =
     (if old \<noteq> None \<and> nx
      then do { s \<leftarrow> decrRefCount s a;
                c \<leftarrow> reply_shared env c shared_czero;
                Some (s, c) }
      else do { s \<leftarrow> (if old \<noteq> None then do { (s, _) \<leftarrow> dbDelete s i dst; Some s } else Some s);
                s \<leftarrow> dbAdd env s i dst a;
                s \<leftarrow> (if expire \<noteq> -1 then setExpire env s i dst expire else Some s);
                (s, _) \<leftarrow> dbDelete s i src;
                let s = signalModifiedKey s i src;
                let s = signalModifiedKey s i dst;
                let s = note_event s (Notify REDIS_NOTIFY_GENERIC ''rename_from'' src i);
                let s = note_event s (Notify REDIS_NOTIFY_GENERIC ''rename_to'' dst i);
                c \<leftarrow> reply_shared env c (if nx then shared_cone else shared_ok);
                Some (s\<lparr>dirty := dirty s + 1\<rparr>, c) })"

text \<open>\<open>cmp_result\<close> is the result of \<open>sdscmp\<close> on strings with these contents.\<close>

definition renameGenericCommand :: "srv_env \<Rightarrow> redisServer \<Rightarrow> nat \<Rightarrow> redisClient \<Rightarrow> bool \<Rightarrow> (redisServer \<times> redisClient) option" where
  "renameGenericCommand env s i c nx =
     do { src \<leftarrow> arr_get (argv c) 1;
          dst \<leftarrow> arr_get (argv c) 2;
          if SdsText.cmp_result src dst = 0
          then do { c \<leftarrow> reply_shared env c shared_sameobjecterr; Some (s, c) }
          else do { (s, ob) \<leftarrow> lookupKeyWrite env s i src;
                    case ob of
                      None \<Rightarrow> do { c \<leftarrow> reply_shared env c shared_nokeyerr; Some (s, c) }
                    | Some a \<Rightarrow>
                        do { s \<leftarrow> incrRefCount s a;
                             (s, expire) \<leftarrow> getExpire s i src;
                             (s, old) \<leftarrow> lookupKeyWrite env s i dst;
                             rename_rest env s i c nx src dst a expire old } } }"

definition renameCommand :: "srv_env \<Rightarrow> redisServer \<Rightarrow> nat \<Rightarrow> redisClient \<Rightarrow> (redisServer \<times> redisClient) option" where
  "renameCommand env s i c = renameGenericCommand env s i c False"

definition renamenxCommand :: "srv_env \<Rightarrow> redisServer \<Rightarrow> nat \<Rightarrow> redisClient \<Rightarrow> (redisServer \<times> redisClient) option" where
  "renamenxCommand env s i c = renameGenericCommand env s i c True"

text \<open>The numbers of the databases are those of \<open>selectDb\<close>: \<open>None\<close> is \<open>REDIS_ERR\<close>.\<close>

definition selectDb :: "redisServer \<Rightarrow> int \<Rightarrow> nat option" where
  "selectDb s n = (if n < 0 \<or> n \<ge> int (length (dbs s)) then None else Some (nat n))"

definition INT_MIN :: int where "INT_MIN = - (2 ^ 31)"
definition INT_MAX :: int where "INT_MAX = 2 ^ 31 - 1"

definition move_target :: "redisServer \<Rightarrow> string \<Rightarrow> nat option" where
  "move_target s arg =
     (case getLongLongFromObject (Some (ENC_RAW arg)) of
        None \<Rightarrow> None
      | Some dbid \<Rightarrow> if dbid < INT_MIN \<or> dbid > INT_MAX then None else selectDb s dbid)"

definition move_key :: "srv_env \<Rightarrow> redisServer \<Rightarrow> nat \<Rightarrow> nat \<Rightarrow> string \<Rightarrow> redisClient \<Rightarrow> (redisServer \<times> redisClient) option" where
  "move_key env s src dst key c =
     do { (s, ob) \<leftarrow> lookupKeyWrite env s src key;
          case ob of
            None \<Rightarrow> do { c \<leftarrow> reply_shared env c shared_czero; Some (s, c) }
          | Some a \<Rightarrow>
              do { (s, old) \<leftarrow> lookupKeyWrite env s dst key;
                   if old \<noteq> None then do { c \<leftarrow> reply_shared env c shared_czero; Some (s, c) }
                   else do { s \<leftarrow> dbAdd env s dst key a;
                             s \<leftarrow> incrRefCount s a;
                             (s, _) \<leftarrow> dbDelete s src key;
                             c \<leftarrow> reply_shared env c shared_cone;
                             Some (s\<lparr>dirty := dirty s + 1\<rparr>, c) } } }"

definition moveCommand :: "srv_env \<Rightarrow> redisServer \<Rightarrow> nat \<Rightarrow> redisClient \<Rightarrow> (redisServer \<times> redisClient) option" where
  "moveCommand env s src c =
     do { key \<leftarrow> arr_get (argv c) 1;
          dbarg \<leftarrow> arr_get (argv c) 2;
          case move_target s dbarg of
            None \<Rightarrow> do { c \<leftarrow> reply_shared env c shared_outofrangeerr; Some (s, c) }
          | Some dst \<Rightarrow>
              if src = dst then do { c \<leftarrow> reply_shared env c shared_sameobjecterr; Some (s, c) }
              else move_key env s src dst key c }"

text \<open>\<open>Inl c\<close> is \<open>REDIS_ERR\<close>, with the error in the replies of the client.\<close>

definition getLongLongFromObjectOrReply :: "srv_env \<Rightarrow> redisClient \<Rightarrow> robj \<Rightarrow> string option \<Rightarrow> (redisClient + int) option" where
  "getLongLongFromObjectOrReply env c ob msg =
     (case getLongLongFromObject (Some ob) of
        Some v \<Rightarrow> Some (Inr v)
      | None \<Rightarrow> do { c \<leftarrow> addReplyError (netenv env) c (case msg of Some m \<Rightarrow> m | None \<Rightarrow> ''value is not an integer or out of range'');
                    Some (Inl c) })"

definition getLongFromObjectOrReply :: "srv_env \<Rightarrow> redisClient \<Rightarrow> robj \<Rightarrow> string option \<Rightarrow> (redisClient + int) option" where
  "getLongFromObjectOrReply env c ob msg =
     do { r \<leftarrow> getLongLongFromObjectOrReply env c ob msg;
          case r of
            Inl c \<Rightarrow> Some (Inl c)
          | Inr v \<Rightarrow> if v < Object.LONG_MIN \<or> v > Object.LONG_MAX
                    then do { c \<leftarrow> addReplyError (netenv env) c (case msg of Some m \<Rightarrow> m | None \<Rightarrow> ''value is out of range'');
                              Some (Inl c) }
                    else Some (Inr v) }"

definition selectCommand :: "srv_env \<Rightarrow> redisServer \<Rightarrow> nat \<Rightarrow> redisClient \<Rightarrow> (nat \<times> redisClient) option" where
  "selectCommand env s i c =
     do { arg \<leftarrow> arr_get (argv c) 1;
          r \<leftarrow> getLongFromObjectOrReply env c (ENC_RAW arg) (Some ''invalid DB index'');
          case r of
            Inl c \<Rightarrow> Some (i, c)
          | Inr n \<Rightarrow> (case selectDb s n of
                       None \<Rightarrow> do { c \<leftarrow> addReplyError (netenv env) c ''invalid DB index''; Some (i, c) }
                     | Some j \<Rightarrow> do { c \<leftarrow> reply_shared env c shared_ok; Some (j, c) }) }"

text \<open>The command that replicas and the append only file get instead.\<close>

definition rewriteClientCommandVector :: "redisClient \<Rightarrow> string list \<Rightarrow> redisClient" where
  "rewriteClientCommandVector c args = c\<lparr>argv := args\<rparr>"

text \<open>A 64-bit signed result, as the multiplication and the addition give it.\<close>

definition to_s64 :: "int \<Rightarrow> int" where
  "to_s64 n = sint (word_of_int n :: u64)"

text \<open>The command for a key that exists.\<close>

definition expire_found :: "srv_env \<Rightarrow> redisServer \<Rightarrow> nat \<Rightarrow> redisClient \<Rightarrow> string \<Rightarrow> int \<Rightarrow> (redisServer \<times> redisClient) option" where
  "expire_found env s i c key when =
     (let (s, now) = mstime env s in
      if when \<le> now \<and> \<not> loading env \<and> \<not> masterhost env
      then do { (s, ok) \<leftarrow> dbDelete s i key;
                if \<not> ok then None
                else do { let s = s\<lparr>dirty := dirty s + 1\<rparr>;
                          let c = rewriteClientCommandVector c [''DEL'', key];
                          let s = signalModifiedKey s i key;
                          let s = note_event s (Notify REDIS_NOTIFY_GENERIC ''del'' key i);
                          c \<leftarrow> reply_shared env c shared_cone;
                          Some (s, c) } }
      else do { s \<leftarrow> setExpire env s i key when;
                c \<leftarrow> reply_shared env c shared_cone;
                let s = signalModifiedKey s i key;
                let s = note_event s (Notify REDIS_NOTIFY_GENERIC ''expire'' key i);
                Some (s\<lparr>dirty := dirty s + 1\<rparr>, c) })"

definition expireGenericCommand ::
    "srv_env \<Rightarrow> redisServer \<Rightarrow> nat \<Rightarrow> redisClient \<Rightarrow> int \<Rightarrow> bool \<Rightarrow> (redisServer \<times> redisClient) option" where
  "expireGenericCommand env s i c basetime seconds =
     do { key \<leftarrow> arr_get (argv c) 1;
          param \<leftarrow> arr_get (argv c) 2;
          r \<leftarrow> getLongLongFromObjectOrReply env c (ENC_RAW param) None;
          case r of
            Inl c \<Rightarrow> Some (s, c)
          | Inr when \<Rightarrow>
              do { let when = (if seconds then to_s64 (when * 1000) else when);
                   let when = to_s64 (when + basetime);
                   (s, a) \<leftarrow> lookupKeyRead env s i key;
                   if a = None then do { c \<leftarrow> reply_shared env c shared_czero; Some (s, c) }
                   else expire_found env s i c key when } }"

definition expireCommand :: "srv_env \<Rightarrow> redisServer \<Rightarrow> nat \<Rightarrow> redisClient \<Rightarrow> (redisServer \<times> redisClient) option" where
  "expireCommand env s i c = (let (s, now) = mstime env s in expireGenericCommand env s i c now True)"

definition expireatCommand :: "srv_env \<Rightarrow> redisServer \<Rightarrow> nat \<Rightarrow> redisClient \<Rightarrow> (redisServer \<times> redisClient) option" where
  "expireatCommand env s i c = expireGenericCommand env s i c 0 True"

definition pexpireCommand :: "srv_env \<Rightarrow> redisServer \<Rightarrow> nat \<Rightarrow> redisClient \<Rightarrow> (redisServer \<times> redisClient) option" where
  "pexpireCommand env s i c = (let (s, now) = mstime env s in expireGenericCommand env s i c now False)"

definition pexpireatCommand :: "srv_env \<Rightarrow> redisServer \<Rightarrow> nat \<Rightarrow> redisClient \<Rightarrow> (redisServer \<times> redisClient) option" where
  "pexpireatCommand env s i c = expireGenericCommand env s i c 0 False"

text \<open>The division is that of C, which rounds towards 0.\<close>

definition ttl_reply :: "bool \<Rightarrow> int \<Rightarrow> int" where
  "ttl_reply output_ms ttl =
     (if ttl = -1 then -1 else if output_ms then ttl else sgn (to_s64 (ttl + 500)) * (\<bar>to_s64 (ttl + 500)\<bar> div 1000))"

definition ttlGenericCommand :: "srv_env \<Rightarrow> redisServer \<Rightarrow> nat \<Rightarrow> redisClient \<Rightarrow> bool \<Rightarrow> (redisServer \<times> redisClient) option" where
  "ttlGenericCommand env s i c output_ms =
     do { key \<leftarrow> arr_get (argv c) 1;
          (s, a) \<leftarrow> lookupKeyRead env s i key;
          if a = None then do { c \<leftarrow> reply_int env c (-2); Some (s, c) }
          else do { (s, expire) \<leftarrow> getExpire s i key;
                    let (s, ttl) = (if expire \<noteq> -1
                                    then let (s, now) = mstime env s; t = to_s64 (expire - now) in (s, if t < 0 then 0 else t)
                                    else (s, -1));
                    c \<leftarrow> reply_int env c (ttl_reply output_ms ttl);
                    Some (s, c) } }"

definition ttlCommand :: "srv_env \<Rightarrow> redisServer \<Rightarrow> nat \<Rightarrow> redisClient \<Rightarrow> (redisServer \<times> redisClient) option" where
  "ttlCommand env s i c = ttlGenericCommand env s i c False"

definition pttlCommand :: "srv_env \<Rightarrow> redisServer \<Rightarrow> nat \<Rightarrow> redisClient \<Rightarrow> (redisServer \<times> redisClient) option" where
  "pttlCommand env s i c = ttlGenericCommand env s i c True"

definition persistCommand :: "srv_env \<Rightarrow> redisServer \<Rightarrow> nat \<Rightarrow> redisClient \<Rightarrow> (redisServer \<times> redisClient) option" where
  "persistCommand env s i c =
     do { key \<leftarrow> arr_get (argv c) 1;
          (s, de) \<leftarrow> find_key s i key;
          if de = None then do { c \<leftarrow> reply_shared env c shared_czero; Some (s, c) }
          else do { (s, ok) \<leftarrow> removeExpire s i key;
                    if ok
                    then do { c \<leftarrow> reply_shared env c shared_cone; Some (s\<lparr>dirty := dirty s + 1\<rparr>, c) }
                    else do { c \<leftarrow> reply_shared env c shared_czero; Some (s, c) } } }"

subsection \<open>The abstract key space\<close>

text \<open>
  Keys are pairs of a database and a name.  \<open>aK\<close> maps a key to the address of its object, \<open>aE\<close> to the
  time at which it expires, and \<open>aH\<close> an address to the reference count and the value of the object;
  a set is the set of its elements, whatever its encoding.
\<close>

datatype aval = A_set "string set" | A_other vtype

record astate =
  aK :: "nat \<times> string \<Rightarrow> nat option"
  aE :: "nat \<times> string \<Rightarrow> int option"
  aH :: "nat \<Rightarrow> (nat \<times> aval) option"
  aN :: nat
  aD :: nat
  aT :: nat

fun aval_of :: "value_obj \<Rightarrow> aval" where
  "aval_of (V_set so) = A_set (set_strs so)"
| "aval_of (V_other t) = A_other t"

definition kmap :: "redisServer \<Rightarrow> nat \<times> string \<Rightarrow> nat option" where
  "kmap s p = (if fst p < length (dbs s) then lookup (db_dict (dbs s ! fst p)) (snd p) else None)"

definition emap :: "redisServer \<Rightarrow> nat \<times> string \<Rightarrow> int option" where
  "emap s p = (if fst p < length (dbs s) then lookup (db_expires (dbs s ! fst p)) (snd p) else None)"

definition hmap :: "redisServer \<Rightarrow> nat \<Rightarrow> (nat \<times> aval) option" where
  "hmap s a = map_option (\<lambda>x. (refcount x, aval_of (oval x))) (objs s a)"

definition absv :: "redisServer \<Rightarrow> astate" where
  "absv s = \<lparr>aK = kmap s, aE = emap s, aH = hmap s, aN = next_obj s, aD = length (dbs s), aT = ticks s\<rparr>"

text \<open>The tables, the sets and the store of objects are well formed.\<close>

definition srv_ok :: "redisServer \<Rightarrow> bool" where
  "srv_ok s \<longleftrightarrow> (\<forall>db \<in> set (dbs s). dict_inv (db_dict db) \<and> dict_inv (db_expires db)) \<and>
     (\<forall>a x so. objs s a = Some x \<longrightarrow> oval x = V_set so \<longrightarrow> set_inv so) \<and> (\<forall>a \<ge> next_obj s. objs s a = None)"

definition rep :: "redisServer \<Rightarrow> astate \<Rightarrow> bool" where
  "rep s A \<longleftrightarrow> srv_ok s \<and> absv s = A"

lemma rep_frame [simp]:
  "rep (s\<lparr>dirty := n\<rparr>) A \<longleftrightarrow> rep s A" "rep (s\<lparr>stat_expiredkeys := n\<rparr>) A \<longleftrightarrow> rep s A"
  "rep (s\<lparr>stat_keyspace_hits := n\<rparr>) A \<longleftrightarrow> rep s A" "rep (s\<lparr>stat_keyspace_misses := n\<rparr>) A \<longleftrightarrow> rep s A"
  "rep (note_event s e) A \<longleftrightarrow> rep s A" "rep (signalModifiedKey s i k) A \<longleftrightarrow> rep s A" "rep (propagateExpire env s i k) A \<longleftrightarrow> rep s A"
proof -
  have *: "rep s' A \<longleftrightarrow> rep s A" if "dbs s' = dbs s" "objs s' = objs s" "next_obj s' = next_obj s" "ticks s' = ticks s" for s'
  proof -
    have "kmap s' = kmap s" "emap s' = emap s" "hmap s' = hmap s" using that by (auto simp: kmap_def emap_def hmap_def)
    then show ?thesis using that by (simp add: rep_def srv_ok_def absv_def)
  qed
  show "rep (s\<lparr>dirty := n\<rparr>) A \<longleftrightarrow> rep s A" "rep (s\<lparr>stat_expiredkeys := n\<rparr>) A \<longleftrightarrow> rep s A"
    "rep (s\<lparr>stat_keyspace_hits := n\<rparr>) A \<longleftrightarrow> rep s A" "rep (s\<lparr>stat_keyspace_misses := n\<rparr>) A \<longleftrightarrow> rep s A"
    "rep (note_event s e) A \<longleftrightarrow> rep s A" "rep (signalModifiedKey s i k) A \<longleftrightarrow> rep s A" "rep (propagateExpire env s i k) A \<longleftrightarrow> rep s A"
    by (rule *; simp add: note_event_def signalModifiedKey_def propagateExpire_def Let_def)+
qed

lemma rep_get_db:
  assumes "rep s A" "i < aD A"
  obtains db where "get_db s i = Some db" "dict_inv (db_dict db)" "dict_inv (db_expires db)"
    "lookup (db_dict db) = (\<lambda>k. aK A (i, k))" "lookup (db_expires db) = (\<lambda>k. aE A (i, k))"
proof
  have A: "absv s = A" "srv_ok s" using assms(1) by (simp_all add: rep_def)
  then have i: "i < length (dbs s)" using assms(2) by (auto simp: absv_def)
  then show "get_db s i = Some (dbs s ! i)" by (simp add: get_db_def)
  show "dict_inv (db_dict (dbs s ! i))" "dict_inv (db_expires (dbs s ! i))" using A(2) i by (simp_all add: srv_ok_def)
  show "lookup (db_dict (dbs s ! i)) = (\<lambda>k. aK A (i, k))" "lookup (db_expires (dbs s ! i)) = (\<lambda>k. aE A (i, k))"
    using A(1) i by (auto simp: absv_def kmap_def emap_def)
qed

lemma rep_put_db:
  assumes "rep s A" "i < aD A" "dict_inv d" "dict_inv ex"
    "\<And>k. lookup d k = aK B (i, k)" "\<And>k. lookup ex k = aE B (i, k)" "\<And>j k. j \<noteq> i \<Longrightarrow> aK B (j, k) = aK A (j, k) \<and> aE B (j, k) = aE A (j, k)"
    "aH B = aH A" "aN B = aN A" "aD B = aD A" "aT B = aT A"
  shows "rep (put_db s i \<lparr>db_dict = d, db_expires = ex\<rparr>) B"
proof -
  let ?s = "put_db s i \<lparr>db_dict = d, db_expires = ex\<rparr>"
  have A: "absv s = A" "srv_ok s" using assms(1) by (simp_all add: rep_def)
  then have i: "i < length (dbs s)" and K: "kmap s = aK A" "emap s = aE A" "hmap s = aH A" "next_obj s = aN A" "length (dbs s) = aD A" "ticks s = aT A"
    using assms(2) by (auto simp: absv_def)
  have "kmap ?s (j, k) = aK B (j, k) \<and> emap ?s (j, k) = aE B (j, k)" for j k
    using i assms(5-7) fun_cong[OF K(1), of "(j, k)"] fun_cong[OF K(2), of "(j, k)"]
    by (cases "j = i") (auto simp: put_db_def kmap_def emap_def split: if_splits)
  then have "kmap ?s = aK B" "emap ?s = aE B" by auto
  moreover have "hmap ?s = aH B" using K(3) assms(8) by (auto simp: hmap_def put_db_def fun_eq_iff)
  ultimately have "absv ?s = B" using K assms(9-) by (simp add: absv_def put_db_def)
  moreover have "srv_ok ?s" using A(2) assms(3,4) by (auto simp: srv_ok_def put_db_def dest: subsetD[OF set_update_subset_insert])
  ultimately show ?thesis by (simp add: rep_def)
qed

lemma db_update: "db\<lparr>db_dict := d\<rparr> = \<lparr>db_dict = d, db_expires = db_expires db\<rparr>" "db\<lparr>db_expires := ex\<rparr> = \<lparr>db_dict = db_dict db, db_expires = ex\<rparr>"
  by simp_all

lemma rep_obj:
  assumes "rep s A" "aH A a = Some (n, v)"
  obtains x where "objs s a = Some x" "refcount x = n" "aval_of (oval x) = v"
  using assms by (auto simp: rep_def absv_def hmap_def)

lemma rep_obj_upd:
  assumes "rep s A" "a < aN A" "\<And>so. oval x = V_set so \<Longrightarrow> set_inv so"
  shows "rep (s\<lparr>objs := (objs s)(a \<mapsto> x)\<rparr>) (A\<lparr>aH := (aH A)(a \<mapsto> (refcount x, aval_of (oval x)))\<rparr>)"
  using assms by (auto simp: rep_def absv_def srv_ok_def hmap_def kmap_def emap_def fun_eq_iff)

lemma rep_obj_free: "rep s A \<Longrightarrow> rep (s\<lparr>objs := (objs s)(a := None)\<rparr>) (A\<lparr>aH := (aH A)(a := None)\<rparr>)"
  by (auto simp: rep_def absv_def srv_ok_def hmap_def kmap_def emap_def fun_eq_iff)

lemma rep_fresh: "rep s A \<Longrightarrow> aN A \<le> a \<Longrightarrow> aH A a = None"
  by (auto simp: rep_def absv_def srv_ok_def hmap_def)

subsection \<open>References\<close>

definition a_refs :: "astate \<Rightarrow> nat \<Rightarrow> nat" where
  "a_refs A a = card {p. aK A p = Some a}"

definition a_cnt :: "astate \<Rightarrow> nat \<Rightarrow> nat" where
  "a_cnt A a = (case aH A a of None \<Rightarrow> 0 | Some (n, v) \<Rightarrow> n)"

text \<open>
  The count of every object is the number of the keys that refer to it and of the references \<open>own\<close>
  that the running code holds; there are no other objects.  Only keys that exist expire.
\<close>

definition ref_ok :: "nat multiset \<Rightarrow> astate \<Rightarrow> bool" where
  "ref_ok own A \<longleftrightarrow> finite (dom (aK A)) \<and> dom (aE A) \<subseteq> dom (aK A) \<and> fst ` dom (aK A) \<subseteq> {..<aD A} \<and>
     (\<forall>a. a_cnt A a = a_refs A a + count own a) \<and> (\<forall>a v. aH A a \<noteq> Some (0, v))"

definition a_incr :: "nat \<Rightarrow> astate \<Rightarrow> astate" where
  "a_incr a A = A\<lparr>aH := (aH A)(a := map_option (\<lambda>(n, v). (n + 1, v)) (aH A a))\<rparr>"

definition a_decr :: "nat \<Rightarrow> astate \<Rightarrow> astate" where
  "a_decr a A = A\<lparr>aH := (aH A)(a := case aH A a of None \<Rightarrow> None | Some (n, v) \<Rightarrow> if n \<le> 1 then None else Some (n - 1, v))\<rparr>"

definition a_link :: "nat \<times> string \<Rightarrow> nat \<Rightarrow> astate \<Rightarrow> astate" where
  "a_link p a A = A\<lparr>aK := (aK A)(p \<mapsto> a)\<rparr>"

definition a_unlink :: "nat \<times> string \<Rightarrow> astate \<Rightarrow> astate" where
  "a_unlink p A = A\<lparr>aK := (aK A)(p := None), aE := (aE A)(p := None)\<rparr>"

definition a_delete :: "nat \<times> string \<Rightarrow> astate \<Rightarrow> astate" where
  "a_delete p A = (case aK A p of None \<Rightarrow> A | Some a \<Rightarrow> a_decr a (a_unlink p A))"

lemma a_sel [simp]:
  "aK (a_incr a A) = aK A" "aE (a_incr a A) = aE A" "aD (a_incr a A) = aD A" "aN (a_incr a A) = aN A" "aT (a_incr a A) = aT A"
  "aK (a_decr a A) = aK A" "aE (a_decr a A) = aE A" "aD (a_decr a A) = aD A" "aN (a_decr a A) = aN A" "aT (a_decr a A) = aT A"
  "aK (a_link p a A) = (aK A)(p \<mapsto> a)" "aE (a_link p a A) = aE A" "aH (a_link p a A) = aH A" "aD (a_link p a A) = aD A"
  "aN (a_link p a A) = aN A" "aT (a_link p a A) = aT A"
  "aK (a_unlink p A) = (aK A)(p := None)" "aE (a_unlink p A) = (aE A)(p := None)" "aH (a_unlink p A) = aH A" "aD (a_unlink p A) = aD A"
  "aN (a_unlink p A) = aN A" "aT (a_unlink p A) = aT A"
  "aK (a_delete p A) = (aK A)(p := None)" "aD (a_delete p A) = aD A" "aN (a_delete p A) = aN A" "aT (a_delete p A) = aT A"
  by (simp_all add: a_incr_def a_decr_def a_link_def a_unlink_def a_delete_def fun_upd_idem split: option.split)

lemma ref_okD:
  assumes "ref_ok own A"
  shows "finite (dom (aK A))" "dom (aE A) \<subseteq> dom (aK A)" "fst ` dom (aK A) \<subseteq> {..<aD A}"
    "a_cnt A a = a_refs A a + count own a" "aH A a \<noteq> Some (0, v)"
  using assms unfolding ref_ok_def by simp_all

lemma a_refs_upd:
  assumes "finite (dom (aK A))"
  shows "a_refs (a_unlink p A) a = a_refs A a - (if aK A p = Some a then 1 else 0)"
    "aK A p = None \<Longrightarrow> a_refs (a_link p b A) a = a_refs A a + (if a = b then 1 else 0)"
    "aK A p = Some a \<Longrightarrow> 0 < a_refs A a"
proof -
  have f: "finite {q. aK A q = Some a}" using assms by (rule finite_subset[rotated]) auto
  have "{q. ((aK A)(p := None)) q = Some a} = {q. aK A q = Some a} - {p}" by (auto split: if_splits)
  then show "a_refs (a_unlink p A) a = a_refs A a - (if aK A p = Some a then 1 else 0)"
    by (simp add: a_refs_def a_unlink_def card_Diff_singleton_if)
  show "0 < a_refs A a" if "aK A p = Some a"
  proof -
    have "p \<in> {q. aK A q = Some a}" using that by simp
    then show ?thesis using f unfolding a_refs_def by (metis card_gt_0_iff empty_iff)
  qed
  assume p: "aK A p = None"
  have "{q. ((aK A)(p \<mapsto> b)) q = Some a} = (if a = b then insert p {q. aK A q = Some a} else {q. aK A q = Some a})"
    using p by (auto split: if_splits)
  then show "a_refs (a_link p b A) a = a_refs A a + (if a = b then 1 else 0)"
    using f p by (auto simp: a_refs_def a_link_def)
qed

lemma a_refs_same [simp]: "a_refs (a_incr b A) = a_refs A" "a_refs (a_decr b A) = a_refs A"
  by (simp_all add: a_refs_def a_incr_def a_decr_def fun_eq_iff)

lemma a_cnt_upd [simp]:
  "a_cnt (a_link p b A) = a_cnt A" "a_cnt (a_unlink p A) = a_cnt A"
  "a_cnt (a_incr b A) a = a_cnt A a + (if a = b \<and> aH A b \<noteq> None then 1 else 0)"
  "a_cnt (a_decr b A) a = a_cnt A a - (if a = b then 1 else 0)"
  by (auto simp: a_cnt_def a_link_def a_unlink_def a_incr_def a_decr_def split: option.split)

lemma cnt_pos:
  assumes "0 < a_cnt A a"
  obtains n v where "aH A a = Some (n, v)" "0 < n"
  using assms by (auto simp: a_cnt_def split: option.splits)

lemma ref_ok_live:
  assumes "ref_ok own A" "aK A p = Some a"
  obtains n v where "aH A a = Some (n, v)" "0 < n"
proof -
  have "0 < a_cnt A a" using ref_okD(4)[OF assms(1), of a] a_refs_upd(3)[OF ref_okD(1)[OF assms(1)] assms(2)] by linarith
  then show thesis using that by (rule cnt_pos)
qed

lemma ref_ok_owned:
  assumes "ref_ok own A" "a \<in># own"
  obtains n v where "aH A a = Some (n, v)" "0 < n"
proof -
  have "0 < count own a" using assms(2) by simp
  then have "0 < a_cnt A a" using ref_okD(4)[OF assms(1), of a] by linarith
  then show thesis using that by (rule cnt_pos)
qed

lemma ref_ok_incr: "ref_ok own A \<Longrightarrow> aH A a \<noteq> None \<Longrightarrow> ref_ok (add_mset a own) (a_incr a A)"
  unfolding ref_ok_def by (auto simp: a_incr_def[THEN arg_cong[of _ _ aH]])

lemma ref_ok_decr: "ref_ok (add_mset a own) A \<Longrightarrow> ref_ok own (a_decr a A)"
  unfolding ref_ok_def by (auto simp: a_decr_def[THEN arg_cong[of _ _ aH]] split: if_splits option.splits)

lemma ref_ok_link:
  assumes "ref_ok (add_mset a own) A" "aK A p = None" "fst p < aD A"
  shows "ref_ok own (a_link p a A)"
  using assms a_refs_upd(2)[OF ref_okD(1)[OF assms(1)] assms(2)] unfolding ref_ok_def by auto

lemma ref_ok_unlink:
  assumes "ref_ok own A" "aK A p = Some a"
  shows "ref_ok (add_mset a own) (a_unlink p A)"
proof -
  note f = ref_okD(1)[OF assms(1)]
  have "a_refs (a_unlink p A) b + count (add_mset a own) b = a_refs A b + count own b" for b
    using a_refs_upd(1)[OF f, of p b] a_refs_upd(3)[OF f assms(2)] assms(2) by auto
  moreover have "dom ((aK A)(p := None)) \<subseteq> dom (aK A)" by auto
  then have "fst ` dom ((aK A)(p := None)) \<subseteq> {..<aD A}" using ref_okD(3)[OF assms(1)] by (meson image_mono order_trans)
  ultimately show ?thesis using ref_okD(2,4,5)[OF assms(1)] f unfolding ref_ok_def by (auto split: if_splits)
qed

lemma ref_ok_delete: "ref_ok own A \<Longrightarrow> ref_ok own (a_delete p A)"
  using ref_ok_decr ref_ok_unlink by (auto simp: a_delete_def split: option.split)

subsection \<open>The operations on the abstract key space\<close>

lemma createObject_spec:
  assumes "rep s A" "\<And>so. v = V_set so \<Longrightarrow> set_inv so"
  shows "\<exists>s'. createObject env s v = (s', aN A) \<and> rep s' (A\<lparr>aH := (aH A)(aN A \<mapsto> (1, aval_of v)), aN := aN A + 1\<rparr>)"
  using assms by (auto simp: createObject_def rep_def absv_def srv_ok_def hmap_def kmap_def emap_def fun_eq_iff)

lemma ref_ok_create:
  assumes "ref_ok own A" "aH A (aN A) = None"
  shows "ref_ok (add_mset (aN A) own) (A\<lparr>aH := (aH A)(aN A \<mapsto> (1, v)), aN := aN A + 1\<rparr>)"
proof -
  have "a_refs A (aN A) + count own (aN A) = 0" using ref_okD(4)[OF assms(1), of "aN A"] assms(2) by (simp add: a_cnt_def)
  then show ?thesis using assms by (auto simp: ref_ok_def a_cnt_def a_refs_def)
qed

lemma incrRefCount_spec:
  assumes "rep s A" "aH A a = Some (n, v)"
  shows "\<exists>s'. incrRefCount s a = Some s' \<and> rep s' (a_incr a A)"
proof -
  obtain x where x: "objs s a = Some x" "refcount x = n" "aval_of (oval x) = v" using assms by (rule rep_obj)
  have l: "a < aN A" using rep_fresh[OF assms(1), of a] assms(2) by force
  have "set_inv so" if "oval x = V_set so" for so using assms(1) x(1) that by (auto simp: rep_def srv_ok_def)
  then show ?thesis using rep_obj_upd[OF assms(1) l, of "x\<lparr>refcount := refcount x + 1\<rparr>"] x assms(2)
    by (simp add: incrRefCount_def a_incr_def)
qed

lemma decrRefCount_spec:
  assumes "rep s A" "aH A a = Some (n, v)" "0 < n"
  shows "\<exists>s'. decrRefCount s a = Some s' \<and> rep s' (a_decr a A)"
proof -
  obtain x where x: "objs s a = Some x" "refcount x = n" "aval_of (oval x) = v" using assms(1,2) by (rule rep_obj)
  have l: "a < aN A" using rep_fresh[OF assms(1), of a] assms(2) by force
  have "set_inv so" if "oval x = V_set so" for so using assms(1) x(1) that by (auto simp: rep_def srv_ok_def)
  then show ?thesis using rep_obj_upd[OF assms(1) l, of "x\<lparr>refcount := refcount x - 1\<rparr>"] rep_obj_free[OF assms(1), of a] x assms(2,3)
    by (simp add: decrRefCount_def a_decr_def)
qed

lemma find_key_spec:
  assumes "rep s A" "i < aD A"
  shows "\<exists>s'. find_key s i k = Some (s', aK A (i, k)) \<and> rep s' A"
proof -
  obtain db where db: "get_db s i = Some db" "dict_inv (db_dict db)" "dict_inv (db_expires db)"
    "lookup (db_dict db) = (\<lambda>k. aK A (i, k))" "lookup (db_expires db) = (\<lambda>k. aE A (i, k))" using assms by (rule rep_get_db)
  from dictFetchValue_spec[OF db(2), of k] obtain d where
    d: "dictFetchValue (db_dict db) k = Some (d, aK A (i, k))" "dict_inv d" "same_entries (db_dict db) d" unfolding db(4) by blast
  have "lookup d = (\<lambda>k. aK A (i, k))" using same_entries_lookup[OF db(2) d(3)] db(4) by simp
  then have "rep (put_db s i (db\<lparr>db_dict := d\<rparr>)) A" unfolding db_update
    by (intro rep_put_db[OF assms d(2) db(3)]) (simp_all add: db(5))
  then show ?thesis using db(1) d(1) by (simp add: find_key_def)
qed

lemma lookupKey_spec:
  assumes "rep s A" "ref_ok own A" "i < aD A"
  shows "\<exists>s'. lookupKey env s i k = Some (s', aK A (i, k)) \<and> rep s' A"
proof -
  from find_key_spec[OF assms(1,3), of k] obtain s1 where s1: "find_key s i k = Some (s1, aK A (i, k))" "rep s1 A" by blast
  show ?thesis
  proof (cases "aK A (i, k)")
    case None
    then show ?thesis using s1 by (simp add: lookupKey_def)
  next
    case (Some a)
    obtain n v where h: "aH A a = Some (n, v)" using assms(2) Some by (rule ref_ok_live)
    obtain x where x: "objs s1 a = Some x" "refcount x = n" "aval_of (oval x) = v" using s1(2) h by (rule rep_obj)
    have l: "a < aN A" using rep_fresh[OF s1(2), of a] h by force
    have "set_inv so" if "oval x = V_set so" for so using s1(2) x(1) that by (auto simp: rep_def srv_ok_def)
    moreover have "A\<lparr>aH := (aH A)(a \<mapsto> (n, v))\<rparr> = A" using h by (simp add: fun_upd_idem)
    ultimately have "rep (s1\<lparr>objs := (objs s1)(a \<mapsto> x\<lparr>lru := lruclock env\<rparr>)\<rparr>) A"
      using rep_obj_upd[OF s1(2) l, of "x\<lparr>lru := lruclock env\<rparr>"] x by simp
    then show ?thesis using s1 x(1) Some by (simp add: lookupKey_def)
  qed
qed

text \<open>The room that a table has for another key.\<close>

definition a_room :: "astate \<Rightarrow> nat \<Rightarrow> bool" where
  "a_room A i \<longleftrightarrow> card {k. aK A (i, k) \<noteq> None} < dict_max"

lemma dict_length_card: "dict_inv d \<Longrightarrow> length (entries d) = card {k. lookup d k \<noteq> None}"
  using dictSize_card[of d] dictSize_entries[of d] by (simp add: dom_def)

lemma dbAdd_spec:
  assumes "rep s A" "i < aD A" "aK A (i, k) = None" "a_room A i" "aH A a \<noteq> None"
  shows "\<exists>s'. dbAdd env s i k a = Some s' \<and> rep s' (a_link (i, k) a A)"
proof -
  obtain db where db: "get_db s i = Some db" "dict_inv (db_dict db)" "dict_inv (db_expires db)"
    "lookup (db_dict db) = (\<lambda>k. aK A (i, k))" "lookup (db_expires db) = (\<lambda>k. aE A (i, k))" using assms(1,2) by (rule rep_get_db)
  have "length (entries (db_dict db)) < dict_max" using dict_length_card[OF db(2)] assms(4) db(4) by (simp add: a_room_def)
  from dictAdd_spec[OF db(2) this, of "dict_can_resize env" 0 k a] assms(3) obtain d where
    d: "dictAdd (dict_can_resize env) 0 (db_dict db) k a = Some (d, True)" "dict_inv d" "lookup d = (\<lambda>k. aK A (i, k))(k \<mapsto> a)"
    unfolding db(4) by auto
  obtain n v where "aH A a = Some (n, v)" using assms(5) by auto
  with assms(1) obtain x where x: "objs s a = Some x" by (rule rep_obj)
  have "rep (put_db s i (db\<lparr>db_dict := d\<rparr>)) (a_link (i, k) a A)" unfolding db_update
    by (intro rep_put_db[OF assms(1,2) d(2) db(3)]) (auto simp: d(3) db(5))
  then show ?thesis using db(1) d(1) x by (simp add: dbAdd_def Let_def)
qed

lemma decr_all_spec:
  assumes "rep s A" "ref_ok (add_mset a own) A"
  shows "\<exists>s'. decr_all s [a] = Some s' \<and> rep s' (a_decr a A)"
proof -
  obtain n v where "aH A a = Some (n, v)" "0 < n" using assms(2) by (rule ref_ok_owned[of _ _ a]) auto
  from decrRefCount_spec[OF assms(1) this] show ?thesis by auto
qed

lemma expires_delete:
  assumes "dict_inv ex"
  shows "\<exists>ex'. (if dictSize ex > 0 then do { (ex, _, _) \<leftarrow> dictDelete ex k; Some ex } else Some ex) = Some ex' \<and> dict_inv ex' \<and> lookup ex' = (lookup ex)(k := None)"
proof (cases "dictSize ex > 0")
  case True
  from dictGenericDelete_spec[OF assms, of k False] show ?thesis using True unfolding dictDelete_def by auto
next
  case False
  then have "dom (lookup ex) = {}" using dictSize_card[OF assms] by (simp add: lookup_def finite_dom_map_of)
  then show ?thesis using False assms by (simp add: fun_upd_idem)
qed

lemma dbDelete_spec:
  assumes "rep s A" "ref_ok own A" "i < aD A"
  shows "\<exists>s'. dbDelete s i k = Some (s', aK A (i, k) \<noteq> None) \<and> rep s' (a_delete (i, k) A)"
proof -
  obtain db where db: "get_db s i = Some db" "dict_inv (db_dict db)" "dict_inv (db_expires db)"
    "lookup (db_dict db) = (\<lambda>k. aK A (i, k))" "lookup (db_expires db) = (\<lambda>k. aE A (i, k))" using assms(1,3) by (rule rep_get_db)
  from expires_delete[OF db(3), of k] obtain ex where
    ex: "(if dictSize (db_expires db) > 0 then do { (ex, _, _) \<leftarrow> dictDelete (db_expires db) k; Some ex } else Some (db_expires db)) = Some ex"
    "dict_inv ex" "lookup ex = (\<lambda>k. aE A (i, k))(k := None)" unfolding db(5) by blast
  from dictGenericDelete_spec[OF db(2), of k False] obtain d where
    d: "dictDelete (db_dict db) k = Some (d, aK A (i, k) \<noteq> None, case aK A (i, k) of None \<Rightarrow> [] | Some v \<Rightarrow> [(k, v)])"
    "dict_inv d" "lookup d = (\<lambda>k. aK A (i, k))(k := None)" unfolding db(4) dictDelete_def if_False by auto
  have r: "rep (put_db s i \<lparr>db_dict = d, db_expires = ex\<rparr>) (a_unlink (i, k) A)"
    by (intro rep_put_db[OF assms(1,3) d(2) ex(2)]) (auto simp: d(3) ex(3))
  show ?thesis
  proof (cases "aK A (i, k)")
    case None
    then have "aE A (i, k) = None" using ref_okD(2)[OF assms(2)] by auto
    then have "a_unlink (i, k) A = A" using None by (simp add: a_unlink_def fun_upd_idem)
    then show ?thesis using None r db(1) d(1) ex(1) by (simp add: dbDelete_def a_delete_def)
  next
    case (Some a)
    from decr_all_spec[OF r ref_ok_unlink[OF assms(2) Some]] show ?thesis using Some db(1) d(1) ex(1)
      by (auto simp: dbDelete_def a_delete_def)
  qed
qed

lemma removeExpire_spec:
  assumes "rep s A" "i < aD A" "aK A (i, k) \<noteq> None"
  shows "\<exists>s'. removeExpire s i k = Some (s', aE A (i, k) \<noteq> None) \<and> rep s' (A\<lparr>aE := (aE A)((i, k) := None)\<rparr>)"
proof -
  from find_key_spec[OF assms(1,2), of k] obtain s1 where s1: "find_key s i k = Some (s1, aK A (i, k))" "rep s1 A" by blast
  obtain db where db: "get_db s1 i = Some db" "dict_inv (db_dict db)" "dict_inv (db_expires db)"
    "lookup (db_dict db) = (\<lambda>k. aK A (i, k))" "lookup (db_expires db) = (\<lambda>k. aE A (i, k))" using s1(2) assms(2) by (rule rep_get_db)
  from dictGenericDelete_spec[OF db(3), of k False] obtain ex fr where
    ex: "dictDelete (db_expires db) k = Some (ex, aE A (i, k) \<noteq> None, fr)" "dict_inv ex" "lookup ex = (\<lambda>k. aE A (i, k))(k := None)"
    unfolding db(5) dictDelete_def by blast
  have "rep (put_db s1 i (db\<lparr>db_expires := ex\<rparr>)) (A\<lparr>aE := (aE A)((i, k) := None)\<rparr>)" unfolding db_update
    by (intro rep_put_db[OF s1(2) assms(2) db(2) ex(2)]) (auto simp: ex(3) db(4))
  then show ?thesis using s1(1) db(1) ex(1) assms(3) by (simp add: removeExpire_def)
qed

lemma dictReplaceRaw_spec:
  assumes inv: "dict_inv d" and room: "lookup d k = None \<Longrightarrow> length (entries d) < dict_max"
  shows "\<exists>d' l. dictReplaceRaw cr junk d k = Some (d', Some l) \<and> dict_inv d' \<and> holds_key d' l k \<and>
    lookup d' = (if lookup d k = None then (lookup d)(k \<mapsto> junk) else lookup d)"
proof -
  from dictFind_spec[OF inv, of k] obtain d1 l where
    f: "dictFind d k = Some (d1, l)" "dict_inv d1" "same_entries d d1" "case l of None \<Rightarrow> lookup d k = None | Some l \<Rightarrow> holds_key d1 l k" by blast
  note lk = same_entries_lookup[OF inv f(3)] same_entries_length[OF f(3)]
  show ?thesis
  proof (cases l)
    case None
    then have "lookup d1 k = None" "length (entries d1) < dict_max" using f(4) lk room by simp_all
    from dictAddRaw_spec[OF f(2) this(2), of cr junk k] this(1) None f(1) lk show ?thesis by (auto simp: dictReplaceRaw_def)
  next
    case (Some m)
    then have "lookup d k \<noteq> None" using f(4) entry_at_holds[OF f(2), of m k] lk by auto
    then show ?thesis using f Some lk by (auto simp: dictReplaceRaw_def)
  qed
qed

lemma setExpire_spec:
  assumes "rep s A" "ref_ok own A" "i < aD A" "aK A (i, k) \<noteq> None" "\<not> a_room A i \<Longrightarrow> card {k. aK A (i, k) \<noteq> None} = dict_max"
  shows "\<exists>s'. setExpire env s i k w = Some s' \<and> rep s' (A\<lparr>aE := (aE A)((i, k) \<mapsto> w)\<rparr>)"
proof -
  from find_key_spec[OF assms(1,3), of k] obtain s1 where s1: "find_key s i k = Some (s1, aK A (i, k))" "rep s1 A" by blast
  obtain db where db: "get_db s1 i = Some db" "dict_inv (db_dict db)" "dict_inv (db_expires db)"
    "lookup (db_dict db) = (\<lambda>k. aK A (i, k))" "lookup (db_expires db) = (\<lambda>k. aE A (i, k))" using s1(2) assms(3) by (rule rep_get_db)
  let ?K = "{k. aK A (i, k) \<noteq> None}" and ?E = "{k. aE A (i, k) \<noteq> None}"
  have sub: "?E \<subseteq> ?K" using ref_okD(2)[OF assms(2)] by auto
  have fin: "finite ?K" using finite_dom_map_of[of "entries (db_dict db)"] db(4) by (simp add: lookup_def dom_def)
  have "length (entries (db_expires db)) < dict_max" if "lookup (db_expires db) k = None"
  proof -
    have "k \<in> ?K - ?E" using that assms(4) db(5) by simp
    then have "?E \<subset> ?K" using sub by blast
    then have "card ?E < card ?K" using fin by (intro psubset_card_mono)
    moreover have "card ?K \<le> dict_max" using assms(5) by (cases "a_room A i") (auto simp: a_room_def)
    ultimately show ?thesis using dict_length_card[OF db(3)] db(5) by simp
  qed
  from dictReplaceRaw_spec[OF db(3) this, where cr = "dict_can_resize env" and junk = 0] obtain ex1 l where
    e1: "dictReplaceRaw (dict_can_resize env) 0 (db_expires db) k = Some (ex1, Some l)" "dict_inv ex1" "holds_key ex1 l k"
    "lookup ex1 = (if lookup (db_expires db) k = None then (lookup (db_expires db))(k \<mapsto> 0) else lookup (db_expires db))" by blast
  from dictSetVal_spec[OF e1(2,3), of w] obtain ex where e: "dictSetVal ex1 l w = Some ex" "dict_inv ex" "lookup ex = (lookup ex1)(k \<mapsto> w)" by blast
  have "lookup ex = (\<lambda>k. aE A (i, k))(k \<mapsto> w)" using e(3) e1(4) db(5) by auto
  then have "rep (put_db s1 i (db\<lparr>db_expires := ex\<rparr>)) (A\<lparr>aE := (aE A)((i, k) \<mapsto> w)\<rparr>)" unfolding db_update
    by (intro rep_put_db[OF s1(2) assms(3) db(2) e(2)]) (auto simp: db(4))
  then show ?thesis using s1(1) db(1) e1(1) e(1) assms(4) by (simp add: setExpire_def)
qed

definition a_when :: "nat \<times> string \<Rightarrow> astate \<Rightarrow> int" where
  "a_when p A = (case aE A p of None \<Rightarrow> -1 | Some w \<Rightarrow> w)"

lemma getExpire_spec:
  assumes "rep s A" "ref_ok own A" "i < aD A"
  shows "\<exists>s'. getExpire s i k = Some (s', a_when (i, k) A) \<and> rep s' A"
proof -
  obtain db where db: "get_db s i = Some db" "dict_inv (db_dict db)" "dict_inv (db_expires db)"
    "lookup (db_dict db) = (\<lambda>k. aK A (i, k))" "lookup (db_expires db) = (\<lambda>k. aE A (i, k))" using assms(1,3) by (rule rep_get_db)
  show ?thesis
  proof (cases "dictSize (db_expires db) = 0")
    case True
    then have "dom (lookup (db_expires db)) = {}" using dictSize_card[OF db(3)] by (simp add: lookup_def finite_dom_map_of)
    then have "aE A (i, k) = None" using db(5) by (metis dom_eq_empty_conv)
    then show ?thesis using True db(1) assms(1) by (simp add: getExpire_def a_when_def)
  next
    case False
    from dictFetchValue_spec[OF db(3), of k] obtain ex where
      e: "dictFetchValue (db_expires db) k = Some (ex, aE A (i, k))" "dict_inv ex" "same_entries (db_expires db) ex" unfolding db(5) by blast
    have "lookup ex = (\<lambda>k. aE A (i, k))" using same_entries_lookup[OF db(3) e(3)] db(5) by simp
    then have r: "rep (put_db s i (db\<lparr>db_expires := ex\<rparr>)) A" unfolding db_update
      by (intro rep_put_db[OF assms(1,3) db(2) e(2)]) (simp_all add: db(4))
    from find_key_spec[OF r assms(3), of k] obtain s2 where "find_key (put_db s i (db\<lparr>db_expires := ex\<rparr>)) i k = Some (s2, aK A (i, k))" "rep s2 A" by blast
    moreover have "aE A (i, k) \<noteq> None \<Longrightarrow> aK A (i, k) \<noteq> None" using ref_okD(2)[OF assms(2)] by auto
    ultimately show ?thesis using False db(1) e(1) r
      by (cases "aE A (i, k)") (auto simp: getExpire_def a_when_def Let_def)
  qed
qed

text \<open>The reading of the clock that decides about a key, and whether it counts as expired.\<close>

definition a_now :: "srv_env \<Rightarrow> astate \<Rightarrow> int" where
  "a_now env A = (case lua_time_start env of Some t \<Rightarrow> t | None \<Rightarrow> mstime_at env (aT A))"

definition a_tick :: "srv_env \<Rightarrow> astate \<Rightarrow> astate" where
  "a_tick env A = (if lua_time_start env = None then A\<lparr>aT := aT A + 1\<rparr> else A)"

definition a_expire :: "srv_env \<Rightarrow> nat \<times> string \<Rightarrow> astate \<Rightarrow> astate \<times> bool" where
  "a_expire env p A =
     (if a_when p A < 0 \<or> loading env then (A, False)
      else if masterhost env then (a_tick env A, a_now env A > a_when p A)
      else if a_now env A \<le> a_when p A then (a_tick env A, False)
      else (a_delete p (a_tick env A), aK A p \<noteq> None))"

lemma a_tick_sel [simp]: "aK (a_tick env A) = aK A" "aE (a_tick env A) = aE A" "aH (a_tick env A) = aH A" "aD (a_tick env A) = aD A" "aN (a_tick env A) = aN A"
  by (simp_all add: a_tick_def)

lemma ref_ok_tick [simp]: "ref_ok own (a_tick env A) = ref_ok own A"
  by (simp add: ref_ok_def a_refs_def a_cnt_def)

lemma ref_ok_expire: "ref_ok own A \<Longrightarrow> ref_ok own (fst (a_expire env p A))"
  by (simp add: a_expire_def ref_ok_delete)

lemma clock_spec:
  assumes "rep s A"
  shows "\<exists>s'. (case lua_time_start env of Some t \<Rightarrow> (s, t) | None \<Rightarrow> mstime env s) = (s', a_now env A) \<and> rep s' (a_tick env A)"
  using assms by (auto simp: mstime_def a_now_def a_tick_def rep_def absv_def srv_ok_def kmap_def emap_def hmap_def fun_eq_iff split: option.split)

lemma mstime_spec:
  assumes "rep s A"
  shows "\<exists>s'. mstime env s = (s', mstime_at env (aT A)) \<and> rep s' (A\<lparr>aT := aT A + 1\<rparr>)"
  using assms by (auto simp: mstime_def rep_def absv_def srv_ok_def kmap_def emap_def hmap_def fun_eq_iff)

lemma expireIfNeeded_spec:
  assumes "rep s A" "ref_ok own A" "i < aD A"
  shows "\<exists>s'. expireIfNeeded env s i k = Some (s', snd (a_expire env (i, k) A)) \<and> rep s' (fst (a_expire env (i, k) A))"
proof -
  from getExpire_spec[OF assms, of k] obtain s1 where s1: "getExpire s i k = Some (s1, a_when (i, k) A)" "rep s1 A" by blast
  from clock_spec[OF s1(2), of env] obtain s2 where
    s2: "(case lua_time_start env of Some t \<Rightarrow> (s1, t) | None \<Rightarrow> mstime env s1) = (s2, a_now env A)" "rep s2 (a_tick env A)" by blast
  let ?s3 = "note_event (propagateExpire env (s2\<lparr>stat_expiredkeys := stat_expiredkeys s2 + 1\<rparr>) i k) (Notify REDIS_NOTIFY_EXPIRED ''expired'' k i)"
  have "rep ?s3 (a_tick env A)" using s2(2) by simp
  from dbDelete_spec[OF this, of own i k] assms(2,3) obtain s4 where
    "dbDelete ?s3 i k = Some (s4, aK A (i, k) \<noteq> None)" "rep s4 (a_delete (i, k) (a_tick env A))" by auto
  then show ?thesis using s1 s2 by (simp add: expireIfNeeded_def a_expire_def Let_def)
qed

lemma a_expire_sel [simp]:
  "aD (fst (a_expire env p A)) = aD A" "aN (fst (a_expire env p A)) = aN A"
  by (simp_all add: a_expire_def)

text \<open>A lookup: first the key is removed if it has expired, then its address is taken.\<close>

lemma lookupKeyWrite_spec:
  assumes "rep s A" "ref_ok own A" "i < aD A"
  shows "\<exists>s'. lookupKeyWrite env s i k = Some (s', aK (fst (a_expire env (i, k) A)) (i, k)) \<and> rep s' (fst (a_expire env (i, k) A))"
proof -
  let ?A = "fst (a_expire env (i, k) A)"
  from expireIfNeeded_spec[OF assms, of env k] obtain s1 where s1: "expireIfNeeded env s i k = Some (s1, snd (a_expire env (i, k) A))" "rep s1 ?A" by blast
  from lookupKey_spec[OF s1(2) ref_ok_expire[OF assms(2)], of i env k] assms(3) s1(1) show ?thesis by (auto simp: lookupKeyWrite_def)
qed

lemma lookupKeyRead_spec:
  assumes "rep s A" "ref_ok own A" "i < aD A"
  shows "\<exists>s'. lookupKeyRead env s i k = Some (s', aK (fst (a_expire env (i, k) A)) (i, k)) \<and> rep s' (fst (a_expire env (i, k) A))"
proof -
  let ?A = "fst (a_expire env (i, k) A)"
  from expireIfNeeded_spec[OF assms, of env k] obtain s1 where s1: "expireIfNeeded env s i k = Some (s1, snd (a_expire env (i, k) A))" "rep s1 ?A" by blast
  from lookupKey_spec[OF s1(2) ref_ok_expire[OF assms(2)], of i env k] assms(3) obtain s2 where
    s2: "lookupKey env s1 i k = Some (s2, aK ?A (i, k))" "rep s2 ?A" by auto
  then show ?thesis using s1(1) by (simp add: lookupKeyRead_def)
qed

subsection \<open>Commands and replies\<close>

definition cl_ok :: "srv_env \<Rightarrow> redisClient \<Rightarrow> bool" where
  "cl_ok env c \<longleftrightarrow> out_inv c \<and> takes_replies (netenv env) c"

text \<open>The replies of the client have been extended by \<open>t\<close>.\<close>

definition replied :: "srv_env \<Rightarrow> redisClient \<Rightarrow> string \<Rightarrow> redisClient \<Rightarrow> bool" where
  "replied env c t c' \<longleftrightarrow> cl_ok env c' \<and> pending c' = pending c @ t \<and> out_only c c'"

lemma replied_appends: "appends (netenv env) c t r \<longleftrightarrow> (\<exists>c'. r = Some c' \<and> replied env c t c')"
  by (auto simp: appends_def replied_def cl_ok_def)

lemma replied_argv: "replied env c t c' \<Longrightarrow> argv c' = argv c"
  by (simp add: replied_def out_only_def)

lemma replied_trans: "replied env c t c' \<Longrightarrow> replied env c' u c'' \<Longrightarrow> replied env c (t @ u) c''"
  using out_only_trans by (auto simp: replied_def)

lemma reply_shared_spec: "cl_ok env c \<Longrightarrow> length t \<le> 100 \<Longrightarrow> \<exists>c'. reply_shared env c t = Some c' \<and> replied env c t c'"
  using appends_raw[of c "netenv env" t "char_junk env"] by (simp add: reply_shared_def cl_ok_def replied_appends)

lemma reply_int_spec:
  assumes "cl_ok env c" "- (2 ^ 63) \<le> n" "n < 2 ^ 63"
  shows "\<exists>c'. reply_int env c n = Some c' \<and> replied env c (resp_header (CHR '':'') n) c'"
proof -
  have "sint (word_of_int n :: u64) = n" using assms(2,3) by (simp add: signed_of_int signed_take_bit_int_eq_self)
  then show ?thesis using appends_longlong[of c "netenv env" "word_of_int n" "char_junk env"] assms(1)
    by (simp add: reply_int_def cl_ok_def replied_appends)
qed

lemmas shared_defs = shared_czero_def shared_cone_def shared_ok_def shared_emptymultibulk_def shared_wrongtypeerr_def shared_nokeyerr_def
  shared_sameobjecterr_def shared_outofrangeerr_def

lemma shared_short [simp]:
  "length shared_czero \<le> 100" "length shared_cone \<le> 100" "length shared_ok \<le> 100" "length shared_emptymultibulk \<le> 100"
  "length shared_wrongtypeerr \<le> 100" "length shared_nokeyerr \<le> 100" "length shared_sameobjecterr \<le> 100" "length shared_outofrangeerr \<le> 100"
  by (simp_all add: shared_defs crlf_def)

text \<open>
  The invariant between commands: references are counted right, no key holds an empty set, and no
  set belongs to two keys.
\<close>

definition ks_inv :: "astate \<Rightarrow> bool" where
  "ks_inv A \<longleftrightarrow> ref_ok {#} A \<and> (\<forall>a n S. aH A a = Some (n, A_set S) \<longrightarrow> n = 1 \<and> S \<noteq> {})"

lemma ks_inv_delete: "ks_inv A \<Longrightarrow> ks_inv (a_delete p A)"
  unfolding ks_inv_def using ref_ok_delete
  by (auto simp: a_delete_def a_decr_def a_unlink_def split: option.splits if_splits)

lemma ks_inv_expire: "ks_inv A \<Longrightarrow> ks_inv (fst (a_expire env p A))"
  using ks_inv_delete[of "a_tick env A"] by (auto simp: a_expire_def ks_inv_def)

lemma ks_inv_ref: "ks_inv A \<Longrightarrow> ref_ok {#} A"
  by (simp add: ks_inv_def)

fun a_del :: "srv_env \<Rightarrow> nat \<Rightarrow> string list \<Rightarrow> astate \<Rightarrow> astate \<times> nat" where
  "a_del env i [] A = (A, 0)"
| "a_del env i (k # ks) A =
     (let A1 = fst (a_expire env (i, k) A); (A2, n) = a_del env i ks (a_delete (i, k) A1)
      in (A2, n + (if aK A1 (i, k) = None then 0 else 1)))"

lemma del_loop_spec:
  assumes "rep s A" "ks_inv A" "i < aD A"
  shows "\<exists>s'. del_loop env s i ks m = Some (s', m + int (snd (a_del env i ks A))) \<and> rep s' (fst (a_del env i ks A)) \<and> ks_inv (fst (a_del env i ks A))"
  using assms
proof (induction ks arbitrary: s A m)
  case (Cons k ks)
  let ?A1 = "fst (a_expire env (i, k) A)"
  from expireIfNeeded_spec[OF Cons.prems(1) ks_inv_ref[OF Cons.prems(2)] Cons.prems(3)] obtain s1 where
    s1: "expireIfNeeded env s i k = Some (s1, snd (a_expire env (i, k) A))" "rep s1 ?A1" by blast
  have k1: "ks_inv ?A1" "i < aD ?A1" using ks_inv_expire[OF Cons.prems(2)] Cons.prems(3) by simp_all
  from dbDelete_spec[OF s1(2) ks_inv_ref[OF k1(1)] k1(2)] obtain s2 where
    s2: "dbDelete s1 i k = Some (s2, aK ?A1 (i, k) \<noteq> None)" "rep s2 (a_delete (i, k) ?A1)" by blast
  let ?s3 = "note_event (signalModifiedKey s2 i k) (Notify REDIS_NOTIFY_GENERIC ''del'' k i)"
  note IH = Cons.IH[OF _ ks_inv_delete[OF k1(1)], of _ "(i, k)"]
  show ?case
  proof (cases "aK ?A1 (i, k) = None")
    case True
    from IH[of s2 m] s2(2) k1(2) show ?thesis using s1(1) s2(1) True by (auto simp: split_def Let_def)
  next
    case False
    from IH[of "?s3\<lparr>dirty := dirty ?s3 + 1\<rparr>" "m + 1"] s2(2) k1(2) show ?thesis using s1(1) s2(1) False
      by (auto simp: split_def Let_def algebra_simps)
  qed
qed simp

lemma a_del_count: "snd (a_del env i ks A) \<le> length ks"
  by (induction ks arbitrary: A) (auto simp: split_def Let_def le_SucI)

lemma delCommand_spec:
  assumes "rep s A" "ks_inv A" "i < aD A" "cl_ok env c" "length (argv c) < 2 ^ 31"
  shows "\<exists>s' c'. delCommand env s i c = Some (s', c') \<and> rep s' (fst (a_del env i (tl (argv c)) A)) \<and> ks_inv (fst (a_del env i (tl (argv c)) A)) \<and>
    replied env c (resp_header (CHR '':'') (int (snd (a_del env i (tl (argv c)) A)))) c'"
proof -
  let ?r = "a_del env i (tl (argv c)) A"
  from del_loop_spec[OF assms(1-3), of env "tl (argv c)" 0] obtain s1 where
    s1: "del_loop env s i (tl (argv c)) 0 = Some (s1, int (snd ?r))" "rep s1 (fst ?r)" "ks_inv (fst ?r)" by auto
  have "snd ?r < 2 ^ 63" using a_del_count[of env i "tl (argv c)" A] assms(5) by simp
  then obtain c' where "reply_int env c (int (snd ?r)) = Some c'" "replied env c (resp_header (CHR '':'') (int (snd ?r))) c'"
    using reply_int_spec[OF assms(4), of "int (snd ?r)"] by auto
  then show ?thesis using s1 by (simp add: delCommand_def)
qed

lemma existsCommand_spec:
  assumes "rep s A" "ks_inv A" "i < aD A" "cl_ok env c" "argv c = [cmd, k]"
  shows "\<exists>s' c' A'. existsCommand env s i c = Some (s', c') \<and> A' = fst (a_expire env (i, k) A) \<and> rep s' A' \<and> ks_inv A' \<and>
    replied env c (if aK A' (i, k) = None then shared_czero else shared_cone) c'"
proof -
  let ?A = "fst (a_expire env (i, k) A)"
  from expireIfNeeded_spec[OF assms(1) ks_inv_ref[OF assms(2)] assms(3)] obtain s1 where
    s1: "expireIfNeeded env s i k = Some (s1, snd (a_expire env (i, k) A))" "rep s1 ?A" by blast
  from find_key_spec[OF s1(2), of i k] assms(3) obtain s2 where s2: "find_key s1 i k = Some (s2, aK ?A (i, k))" "rep s2 ?A" by auto
  have "length (if aK ?A (i, k) = None then shared_czero else shared_cone) \<le> 100" by simp
  from reply_shared_spec[OF assms(4) this] obtain c' where
    c': "reply_shared env c (if aK ?A (i, k) = None then shared_czero else shared_cone) = Some c'"
    "replied env c (if aK ?A (i, k) = None then shared_czero else shared_cone) c'" by blast
  then show ?thesis using s1 s2 ks_inv_expire[OF assms(2)] assms(5)
    by (intro exI[of _ s2] exI[of _ c'] exI[of _ ?A]) (auto simp: existsCommand_def dbExists_def arr_get_def split: if_splits)
qed

subsection \<open>The values of the keys\<close>

definition a_val :: "astate \<Rightarrow> nat \<times> string \<Rightarrow> aval option" where
  "a_val A p = (case aK A p of None \<Rightarrow> None | Some a \<Rightarrow> map_option snd (aH A a))"

lemma a_val_simps [simp]:
  "a_val (a_incr a A) = a_val A" "a_val (a_unlink p A) = (a_val A)(p := None)" "a_val (a_link p a A) = (a_val A)(p := map_option snd (aH A a))"
  "a_val (A\<lparr>aE := f\<rparr>) = a_val A" "a_val (A\<lparr>aT := n\<rparr>) = a_val A" "a_val (a_tick env A) = a_val A"
  by (auto simp: a_val_def a_incr_def fun_eq_iff a_tick_def option.map_comp comp_def split_def split: option.split)

lemma a_val_decr:
  assumes "ref_ok (add_mset a own) A"
  shows "a_val (a_decr a A) = a_val A"
proof
  fix p
  show "a_val (a_decr a A) p = a_val A p"
  proof (cases "aK A p = Some a")
    case True
    have "0 < a_refs A a" by (rule a_refs_upd(3)[OF ref_okD(1)[OF assms] True])
    then have "1 < a_cnt A a" using ref_okD(4)[OF assms, of a] by simp
    then obtain n v where "aH A a = Some (n, v)" "1 < n" by (auto simp: a_cnt_def split: option.splits)
    then show ?thesis using True by (simp add: a_val_def a_decr_def)
  next
    case False
    then show ?thesis by (auto simp: a_val_def a_decr_def split: option.split)
  qed
qed

lemma a_val_delete: "ref_ok own A \<Longrightarrow> a_val (a_delete p A) = (a_val A)(p := None)"
proof (cases "aK A p")
  case None
  then show ?thesis by (simp add: a_delete_def a_val_def fun_eq_iff)
next
  case (Some a)
  assume "ref_ok own A"
  from a_val_decr[OF ref_ok_unlink[OF this Some]] show ?thesis using Some by (simp add: a_delete_def)
qed

lemma aE_delete: "ref_ok own A \<Longrightarrow> aE (a_delete p A) = (aE A)(p := None)"
proof (cases "aK A p")
  case None
  assume "ref_ok own A"
  then have "aE A p = None" using ref_okD(2) None by blast
  then show ?thesis using None by (simp add: a_delete_def fun_upd_idem)
next
  case (Some a)
  then show ?thesis by (simp add: a_delete_def)
qed

lemma a_val_None: "ref_ok own A \<Longrightarrow> a_val A p = None \<longleftrightarrow> aK A p = None"
  by (auto simp: a_val_def split: option.split elim: ref_ok_live)

text \<open>Whether a lookup removes the key first.\<close>

definition a_gone :: "srv_env \<Rightarrow> nat \<times> string \<Rightarrow> astate \<Rightarrow> bool" where
  "a_gone env p A \<longleftrightarrow> 0 \<le> a_when p A \<and> \<not> loading env \<and> \<not> masterhost env \<and> a_when p A < a_now env A"

lemma a_val_expire:
  assumes "ref_ok own A"
  shows "a_val (fst (a_expire env p A)) = (if a_gone env p A then (a_val A)(p := None) else a_val A)"
    "aE (fst (a_expire env p A)) = (if a_gone env p A then (aE A)(p := None) else aE A)"
    "aK (fst (a_expire env p A)) = (if a_gone env p A then (aK A)(p := None) else aK A)"
proof -
  have *: "ref_ok own (a_tick env A)" using assms by simp
  show "a_val (fst (a_expire env p A)) = (if a_gone env p A then (a_val A)(p := None) else a_val A)"
    "aE (fst (a_expire env p A)) = (if a_gone env p A then (aE A)(p := None) else aE A)"
    "aK (fst (a_expire env p A)) = (if a_gone env p A then (aK A)(p := None) else aK A)"
    by (auto simp: a_expire_def a_gone_def a_val_delete[OF *] aE_delete[OF *])
qed

lemma a_room_mono: "a_room A i \<Longrightarrow> finite (dom (aK A)) \<Longrightarrow> dom (aK B) \<subseteq> dom (aK A) \<Longrightarrow> a_room B i"
proof -
  assume r: "a_room A i" and f: "finite (dom (aK A))" and s: "dom (aK B) \<subseteq> dom (aK A)"
  have "{k. aK A (i, k) \<noteq> None} \<subseteq> snd ` dom (aK A)" by force
  then have "finite {k. aK A (i, k) \<noteq> None}" using f by (meson finite_imageI finite_subset)
  then have "card {k. aK B (i, k) \<noteq> None} \<le> card {k. aK A (i, k) \<noteq> None}" using s by (intro card_mono) auto
  then show ?thesis using r by (simp add: a_room_def)
qed

lemma ref_ok_setE: "ref_ok own A \<Longrightarrow> aK A p \<noteq> None \<Longrightarrow> ref_ok own (A\<lparr>aE := (aE A)(p := w)\<rparr>)"
  by (auto simp: ref_ok_def a_refs_def a_cnt_def)

text \<open>Only the counts of objects change, or objects go: sets stay what they are.\<close>

definition sets_ok :: "astate \<Rightarrow> bool" where
  "sets_ok A \<longleftrightarrow> (\<forall>a n S. aH A a = Some (n, A_set S) \<longrightarrow> S \<noteq> {})"

lemma sets_ok_upd [simp]:
  "sets_ok A \<Longrightarrow> sets_ok (a_incr a A)" "sets_ok A \<Longrightarrow> sets_ok (a_decr a A)" "sets_ok A \<Longrightarrow> sets_ok (a_delete p A)"
  "sets_ok (a_link p a A) = sets_ok A" "sets_ok (A\<lparr>aE := f\<rparr>) = sets_ok A" "sets_ok (A\<lparr>aT := n\<rparr>) = sets_ok A" "sets_ok (a_tick env A) = sets_ok A"
  by (auto simp: sets_ok_def a_incr_def a_decr_def a_delete_def a_unlink_def a_link_def a_tick_def split: option.splits if_splits)

lemma sets_ok_expire [simp]: "sets_ok A \<Longrightarrow> sets_ok (fst (a_expire env p A))"
  by (simp add: a_expire_def)

text \<open>That no set has two references is the same as that no two keys share one.\<close>

definition uniq_sets :: "astate \<Rightarrow> bool" where
  "uniq_sets A \<longleftrightarrow> (\<forall>p q a S. aK A p = Some a \<longrightarrow> aK A q = Some a \<longrightarrow> a_val A p = Some (A_set S) \<longrightarrow> p = q)"

definition ks_own :: "nat multiset \<Rightarrow> astate \<Rightarrow> bool" where
  "ks_own own A \<longleftrightarrow> ref_ok own A \<and> sets_ok A \<and> uniq_sets A"

lemma set_refs:
  assumes "ref_ok {#} A" "aH A a = Some (n, v)"
  shows "n = 1 \<longleftrightarrow> (\<forall>p q. aK A p = Some a \<longrightarrow> aK A q = Some a \<longrightarrow> p = q)"
proof -
  have f: "finite {p. aK A p = Some a}" using ref_okD(1)[OF assms(1)] by (rule finite_subset[rotated]) auto
  have "n = card {p. aK A p = Some a}" using ref_okD(4)[OF assms(1), of a] assms(2) by (simp add: a_cnt_def a_refs_def)
  moreover have "n \<noteq> 0" using ref_okD(5)[OF assms(1), of a] assms(2) by auto
  ultimately have "n = 1 \<longleftrightarrow> card {p. aK A p = Some a} \<le> Suc 0" by linarith
  also have "\<dots> \<longleftrightarrow> (\<forall>p q. aK A p = Some a \<longrightarrow> aK A q = Some a \<longrightarrow> p = q)" unfolding card_le_Suc0_iff_eq[OF f] by blast
  finally show ?thesis .
qed

lemma ks_inv_alt: "ks_inv A \<longleftrightarrow> ks_own {#} A"
proof
  assume k: "ks_inv A"
  have "uniq_sets A" unfolding uniq_sets_def
  proof (intro allI impI)
    fix p q a S
    assume p: "aK A p = Some a" "aK A q = Some a" "a_val A p = Some (A_set S)"
    obtain n v where n0: "aH A a = Some (n, v)" using ref_ok_live[OF ks_inv_ref[OF k] p(1)] .
    then have n: "aH A a = Some (n, A_set S)" using p by (simp add: a_val_def)
    then have "n = 1" using k unfolding ks_inv_def by blast
    then show "p = q" using set_refs[OF ks_inv_ref[OF k] n] p by blast
  qed
  then show "ks_own {#} A" using k unfolding ks_own_def ks_inv_def sets_ok_def by blast
next
  assume k: "ks_own {#} A"
  then have r: "ref_ok {#} A" by (simp add: ks_own_def)
  have "n = 1" if n: "aH A a = Some (n, A_set S)" for a n S
  proof -
    have "aK A p = Some a \<Longrightarrow> a_val A p = Some (A_set S)" for p using n by (simp add: a_val_def)
    then have "\<forall>p q. aK A p = Some a \<longrightarrow> aK A q = Some a \<longrightarrow> p = q" using k unfolding ks_own_def uniq_sets_def by blast
    then show ?thesis using set_refs[OF r n] by simp
  qed
  then have "\<forall>a n S. aH A a = Some (n, A_set S) \<longrightarrow> n = 1" by simp
  then show "ks_inv A" using k r unfolding ks_own_def ks_inv_def sets_ok_def by blast
qed

lemma ks_own_ref: "ks_own own A \<Longrightarrow> ref_ok own A"
  by (simp add: ks_own_def)

lemma uniq_sub:
  assumes "uniq_sets A" "\<And>p a. aK B p = Some a \<Longrightarrow> aK A p = Some a \<and> a_val B p = a_val A p"
  shows "uniq_sets B"
  using assms unfolding uniq_sets_def by metis

lemma ks_own_delete:
  assumes "ks_own own A"
  shows "ks_own own (a_delete p A)"
proof -
  have "aK A q = Some a \<and> a_val (a_delete p A) q = a_val A q" if "aK (a_delete p A) q = Some a" for q a
    using that a_val_delete[OF ks_own_ref[OF assms], of p] by (cases "q = p") simp_all
  then have "uniq_sets (a_delete p A)" using uniq_sub[of A "a_delete p A"] assms unfolding ks_own_def by blast
  then show ?thesis using assms ref_ok_delete by (simp add: ks_own_def)
qed

lemma ks_own_tick [simp]: "ks_own own (a_tick env A) = ks_own own A"
  by (simp add: ks_own_def uniq_sets_def)

lemma ks_own_expire: "ks_own own A \<Longrightarrow> ks_own own (fst (a_expire env p A))"
  by (simp add: a_expire_def ks_own_delete)

lemma ks_own_incr: "ks_own own A \<Longrightarrow> aH A a \<noteq> None \<Longrightarrow> ks_own (add_mset a own) (a_incr a A)"
  by (simp add: ks_own_def ref_ok_incr uniq_sets_def)

lemma ks_own_decr: "ks_own (add_mset a own) A \<Longrightarrow> ks_own own (a_decr a A)"
  using ref_ok_decr[of a own A] a_val_decr[of a own A] by (simp add: ks_own_def uniq_sets_def)

lemma ks_own_setE: "ks_own own A \<Longrightarrow> aK A p \<noteq> None \<Longrightarrow> ks_own own (A\<lparr>aE := (aE A)(p := w)\<rparr>)"
  by (simp add: ks_own_def ref_ok_setE uniq_sets_def)

subsection \<open>Renaming and moving keys\<close>

text \<open>
  The core of both commands: the running code holds a reference to the object at \<open>a\<close>, the value of
  the key \<open>p\<close>.  The object gets a new key \<open>q\<close>, whose old value goes, with the expiration \<open>w\<close>, and the
  key \<open>p\<close> is removed.
\<close>

definition a_rekey :: "nat \<times> string \<Rightarrow> nat \<times> string \<Rightarrow> nat \<Rightarrow> int option \<Rightarrow> astate \<Rightarrow> astate" where
  "a_rekey p q a w A = a_delete p ((a_link q a (a_delete q A))\<lparr>aE := (aE (a_delete q A))(q := w)\<rparr>)"

lemma a_rekey_spec:
  assumes "ks_own {#a#} A" "aK A p = Some a" "p \<noteq> q" "fst q < aD A"
  shows "ks_own {#} (a_rekey p q a w A)" "a_val (a_rekey p q a w A) = (a_val A)(q := a_val A p, p := None)"
    "aE (a_rekey p q a w A) = (aE A)(q := w, p := None)" "aK (a_rekey p q a w A) = (aK A)(q \<mapsto> a, p := None)"
proof -
  note r0 = ks_own_ref[OF assms(1)]
  let ?B = "a_delete q A" and ?C = "a_link q a (a_delete q A)"
  have r1: "ref_ok {#a#} ?B" by (rule ref_ok_delete[OF r0])
  have r2: "ref_ok {#} ?C" using r1 assms(4) by (intro ref_ok_link) simp_all
  have r3: "ref_ok {#} (?C\<lparr>aE := (aE ?B)(q := w)\<rparr>)" using ref_ok_setE[OF r2, of q w] by simp
  then have r: "ref_ok {#} (a_rekey p q a w A)" unfolding a_rekey_def by (rule ref_ok_delete)
  show K: "aK (a_rekey p q a w A) = (aK A)(q \<mapsto> a, p := None)" by (simp add: a_rekey_def)
  show "aE (a_rekey p q a w A) = (aE A)(q := w, p := None)"
    unfolding a_rekey_def aE_delete[OF r3] by (simp add: aE_delete[OF r0])
  have Bp: "a_val ?B p = a_val A p" "aK ?B p = Some a" using assms(2,3) by (simp_all add: a_val_delete[OF r0])
  then have "a_val A p = map_option snd (aH ?B a)" by (simp add: a_val_def)
  then show V: "a_val (a_rekey p q a w A) = (a_val A)(q := a_val A p, p := None)"
    unfolding a_rekey_def a_val_delete[OF r3] by (simp add: a_val_delete[OF r0])
  have s: "sets_ok (a_rekey p q a w A)" using assms(1) unfolding a_rekey_def ks_own_def by simp
  have "uniq_sets (a_rekey p q a w A)" unfolding uniq_sets_def
  proof (intro allI impI)
    fix x y b S
    let ?x = "if x = q then p else x" and ?y = "if y = q then p else y"
    assume k: "aK (a_rekey p q a w A) x = Some b" "aK (a_rekey p q a w A) y = Some b" "a_val (a_rekey p q a w A) x = Some (A_set S)"
    then have "a_val A ?x = Some (A_set S)" unfolding V using assms(3) by (auto split: if_splits)
    moreover have "aK A ?x = Some b" "aK A ?y = Some b" using k(1,2) assms(2) unfolding K by (auto split: if_splits)
    ultimately have "?x = ?y" using assms(1) unfolding ks_own_def uniq_sets_def by blast
    then show "x = y" using k(1,2) unfolding K by (auto split: if_splits)
  qed
  then show "ks_own {#} (a_rekey p q a w A)" using r s by (simp add: ks_own_def)
qed

definition opt_when :: "int \<Rightarrow> int option" where
  "opt_when w = (if w = -1 then None else Some w)"

lemma a_when_incr [simp]: "a_when p (a_incr a A) = a_when p A"
  by (simp add: a_when_def)

text \<open>The part of \<open>rename_rest\<close> that changes the tables.\<close>

definition rename_tail :: "srv_env \<Rightarrow> redisServer \<Rightarrow> nat \<Rightarrow> string \<Rightarrow> string \<Rightarrow> nat \<Rightarrow> int \<Rightarrow> bool \<Rightarrow> redisServer option" where
  "rename_tail env s i src dst a expire old =
     do { s \<leftarrow> (if old then do { (s, _) \<leftarrow> dbDelete s i dst; Some s } else Some s);
          s \<leftarrow> dbAdd env s i dst a;
          s \<leftarrow> (if expire \<noteq> -1 then setExpire env s i dst expire else Some s);
          (s, _) \<leftarrow> dbDelete s i src;
          Some s }"

lemma link_room:
  assumes "a_room A i" "finite (dom (aK A))"
  shows "\<not> a_room (a_link (i, k) a A) i \<Longrightarrow> card {x. aK (a_link (i, k) a A) (i, x) \<noteq> None} = dict_max"
proof -
  have "{x. aK (a_link (i, k) a A) (i, x) \<noteq> None} = insert k {x. aK A (i, x) \<noteq> None}" by auto
  moreover have "{k. aK A (i, k) \<noteq> None} \<subseteq> snd ` dom (aK A)" by force
  then have "finite {k. aK A (i, k) \<noteq> None}" using assms(2) by (meson finite_imageI finite_subset)
  ultimately have "card {x. aK (a_link (i, k) a A) (i, x) \<noteq> None} \<le> Suc (card {x. aK A (i, x) \<noteq> None})"
    by (simp add: card_insert_if)
  then show "\<not> a_room (a_link (i, k) a A) i \<Longrightarrow> card {x. aK (a_link (i, k) a A) (i, x) \<noteq> None} = dict_max"
    using assms(1) unfolding a_room_def by linarith
qed

lemma rename_tail_spec:
  assumes "rep s A" "ks_own {#a#} A" "i < aD A" "aK A (i, src) = Some a" "src \<noteq> dst" "a_room A i"
  shows "\<exists>s'. rename_tail env s i src dst a w (aK A (i, dst) \<noteq> None) = Some s' \<and> rep s' (a_rekey (i, src) (i, dst) a (opt_when w) A)"
proof -
  note r0 = ks_own_ref[OF assms(2)]
  let ?B = "a_delete (i, dst) A"
  have "\<exists>s1. (if aK A (i, dst) \<noteq> None then do { (s, _) \<leftarrow> dbDelete s i dst; Some s } else Some s) = Some s1 \<and> rep s1 ?B"
  proof (cases "aK A (i, dst)")
    case None
    then show ?thesis using assms(1) by (simp add: a_delete_def)
  next
    case (Some b)
    then show ?thesis using dbDelete_spec[OF assms(1) r0 assms(3), of dst] by auto
  qed
  then obtain s1 where s1: "(if aK A (i, dst) \<noteq> None then do { (s, _) \<leftarrow> dbDelete s i dst; Some s } else Some s) = Some s1" "rep s1 ?B" by blast
  have r1: "ref_ok {#a#} ?B" by (rule ref_ok_delete[OF r0])
  have room: "a_room ?B i" by (rule a_room_mono[OF assms(6) ref_okD(1)[OF r0]]) auto
  obtain n v where "aH ?B a = Some (n, v)" using r1 by (rule ref_ok_owned[of _ _ a]) auto
  then have h: "aH ?B a \<noteq> None" by simp
  have iB: "i < aD ?B" "aK ?B (i, dst) = None" using assms(3) by simp_all
  from dbAdd_spec[OF s1(2) iB room h, of env] obtain s2 where s2: "dbAdd env s1 i dst a = Some s2" "rep s2 (a_link (i, dst) a ?B)" by blast
  let ?C = "a_link (i, dst) a ?B"
  have r2: "ref_ok {#} ?C" using r1 assms(3) by (intro ref_ok_link) simp_all
  have e: "aE ?B (i, dst) = None" by (simp add: aE_delete[OF r0])
  let ?D = "?C\<lparr>aE := (aE ?B)((i, dst) := opt_when w)\<rparr>"
  have "\<exists>s3. (if w \<noteq> -1 then setExpire env s2 i dst w else Some s2) = Some s3 \<and> rep s3 ?D"
  proof (cases "w = -1")
    case True
    then have "?D = ?C" using e by (simp add: opt_when_def fun_upd_idem)
    then show ?thesis using s2(2) True by simp
  next
    case False
    have "\<not> a_room ?C i \<Longrightarrow> card {k. aK ?C (i, k) \<noteq> None} = dict_max" using link_room[OF room] ref_okD(1)[OF r1] by blast
    from setExpire_spec[OF s2(2) r2 _ _ this, of dst env w] assms(3) obtain s3 where
      "setExpire env s2 i dst w = Some s3" "rep s3 (?C\<lparr>aE := (aE ?C)((i, dst) \<mapsto> w)\<rparr>)" by auto
    then show ?thesis using False by (simp add: opt_when_def)
  qed
  then obtain s3 where s3: "(if w \<noteq> -1 then setExpire env s2 i dst w else Some s2) = Some s3" "rep s3 ?D" by blast
  have r3: "ref_ok {#} ?D" using ref_ok_setE[OF r2, of "(i, dst)" "opt_when w"] by simp
  have "i < aD ?D" using assms(3) by simp
  from dbDelete_spec[OF s3(2) r3 this, of src] obtain s4 b where
    s4: "dbDelete s3 i src = Some (s4, b)" "rep s4 (a_delete (i, src) ?D)" by blast
  then show ?thesis using s1(1) s2(1) s3(1) unfolding rename_tail_def a_rekey_def by simp
qed

lemma rename_rest_tail:
  "\<not> (old \<noteq> None \<and> nx) \<Longrightarrow> rename_rest env s i c nx src dst a w old =
   (do { s \<leftarrow> rename_tail env s i src dst a w (old \<noteq> None);
         let s = signalModifiedKey s i src;
         let s = signalModifiedKey s i dst;
         let s = note_event s (Notify REDIS_NOTIFY_GENERIC ''rename_from'' src i);
         let s = note_event s (Notify REDIS_NOTIFY_GENERIC ''rename_to'' dst i);
         c \<leftarrow> reply_shared env c (if nx then shared_cone else shared_ok);
         Some (s\<lparr>dirty := dirty s + 1\<rparr>, c) })"
  unfolding rename_rest_def rename_tail_def by (simp only: if_False Option.bind_assoc split_def Option.bind.bind_lunit)

lemma rename_rest_spec:
  assumes "rep s A" "ks_own {#a#} A" "i < aD A" "aK A (i, src) = Some a" "src \<noteq> dst" "a_room A i" "cl_ok env c"
  shows "\<exists>s' c' A' t. rename_rest env s i c nx src dst a w (aK A (i, dst)) = Some (s', c') \<and> rep s' A' \<and> ks_inv A' \<and> replied env c t c' \<and>
    (if aK A (i, dst) \<noteq> None \<and> nx then a_val A' = a_val A \<and> aE A' = aE A \<and> t = shared_czero
     else a_val A' = (a_val A)((i, dst) := a_val A (i, src), (i, src) := None) \<and>
          aE A' = (aE A)((i, dst) := opt_when w, (i, src) := None) \<and> t = (if nx then shared_cone else shared_ok))"
proof (cases "aK A (i, dst) \<noteq> None \<and> nx")
  case True
  obtain n v where "aH A a = Some (n, v)" "0 < n" using ks_own_ref[OF assms(2)] by (rule ref_ok_owned[of _ _ a]) auto
  from decrRefCount_spec[OF assms(1) this] obtain s1 where s1: "decrRefCount s a = Some s1" "rep s1 (a_decr a A)" by blast
  obtain c' where c': "reply_shared env c shared_czero = Some c'" "replied env c shared_czero c'"
    using reply_shared_spec[OF assms(7)] by (metis shared_short(1))
  have "ks_inv (a_decr a A)" using ks_own_decr[OF assms(2)] by (simp add: ks_inv_alt)
  moreover have "a_val (a_decr a A) = a_val A" by (rule a_val_decr[OF ks_own_ref[OF assms(2)]])
  moreover have "rename_rest env s i c nx src dst a w (aK A (i, dst)) = Some (s1, c')"
    unfolding rename_rest_def if_P[OF True] using s1(1) c'(1) by simp
  ultimately show ?thesis unfolding if_P[OF True] using s1(2) c'(2)
    by (intro exI[of _ s1] exI[of _ c'] exI[of _ "a_decr a A"] exI[of _ shared_czero]) simp
next
  case False
  let ?R = "a_rekey (i, src) (i, dst) a (opt_when w) A"
  from rename_tail_spec[OF assms(1-6), of env w] obtain s1 where
    s1: "rename_tail env s i src dst a w (aK A (i, dst) \<noteq> None) = Some s1" "rep s1 ?R" by blast
  have ne: "(i, src) \<noteq> (i, dst)" "fst (i, dst) < aD A" using assms(3,5) by simp_all
  note rk = a_rekey_spec[OF assms(2,4) ne, of "opt_when w"]
  have "length (if nx then shared_cone else shared_ok) \<le> 100" by simp
  from reply_shared_spec[OF assms(7) this] obtain c' where
    c': "reply_shared env c (if nx then shared_cone else shared_ok) = Some c'" "replied env c (if nx then shared_cone else shared_ok) c'" by blast
  let ?s = "note_event (note_event (signalModifiedKey (signalModifiedKey s1 i src) i dst) (Notify REDIS_NOTIFY_GENERIC ''rename_from'' src i))
    (Notify REDIS_NOTIFY_GENERIC ''rename_to'' dst i)"
  have "rename_rest env s i c nx src dst a w (aK A (i, dst)) = Some (?s\<lparr>dirty := dirty ?s + 1\<rparr>, c')"
    unfolding rename_rest_tail[OF False] s1(1) Let_def using c'(1) by simp
  moreover have "rep (?s\<lparr>dirty := dirty ?s + 1\<rparr>) ?R" "ks_inv ?R" using s1(2) rk(1) by (simp_all add: ks_inv_alt)
  ultimately show ?thesis unfolding if_not_P[OF False] using c'(2) rk(2,3)
    by (intro exI[of _ "?s\<lparr>dirty := dirty ?s + 1\<rparr>"] exI[of _ c'] exI[of _ ?R] exI[of _ "if nx then shared_cone else shared_ok"]) simp
qed

text \<open>What RENAME does, by the cases in which it replies.\<close>

definition rename_result :: "srv_env \<Rightarrow> nat \<Rightarrow> string \<Rightarrow> string \<Rightarrow> bool \<Rightarrow> astate \<Rightarrow> astate \<Rightarrow> string \<Rightarrow> bool" where
  "rename_result env i src dst nx A A' t \<longleftrightarrow>
     (let A1 = fst (a_expire env (i, src) A) in
      if src = dst then A' = A \<and> t = shared_sameobjecterr
      else if a_val A1 (i, src) = None then A' = A1 \<and> t = shared_nokeyerr
      else (nx \<and> a_val A1 (i, dst) \<noteq> None \<and> a_val A' = a_val A1 \<and> aE A' = aE A1 \<and> t = shared_czero) \<or>
           (a_val A' = (a_val A1)((i, dst) := a_val A1 (i, src), (i, src) := None) \<and>
            aE A' = (aE A1)((i, dst) := opt_when (a_when (i, src) A1), (i, src) := None) \<and> t = (if nx then shared_cone else shared_ok)))"

lemma rename_found:
  assumes "rep s A1" "ks_own {#} A1" "i < aD A1" "cl_ok env c" "aK A1 (i, src) = Some a" "src \<noteq> dst" "a_room A1 i"
  shows "\<exists>s' c' A' t. (do { s \<leftarrow> incrRefCount s a;
                            (s, expire) \<leftarrow> getExpire s i src;
                            (s, old) \<leftarrow> lookupKeyWrite env s i dst;
                            rename_rest env s i c nx src dst a expire old }) = Some (s', c') \<and> rep s' A' \<and> ks_inv A' \<and> replied env c t c' \<and>
    ((nx \<and> a_val A1 (i, dst) \<noteq> None \<and> a_val A' = a_val A1 \<and> aE A' = aE A1 \<and> t = shared_czero) \<or>
     (a_val A' = (a_val A1)((i, dst) := a_val A1 (i, src), (i, src) := None) \<and>
      aE A' = (aE A1)((i, dst) := opt_when (a_when (i, src) A1), (i, src) := None) \<and> t = (if nx then shared_cone else shared_ok)))"
proof -
  let ?w = "a_when (i, src) A1"
  obtain n v where h: "aH A1 a = Some (n, v)" using ref_ok_live[OF ks_own_ref[OF assms(2)] assms(5)] .
  from incrRefCount_spec[OF assms(1) h] obtain s2 where s2: "incrRefCount s a = Some s2" "rep s2 (a_incr a A1)" by blast
  have k2: "ks_own {#a#} (a_incr a A1)" "i < aD (a_incr a A1)" using ks_own_incr[OF assms(2), of a] h assms(3) by simp_all
  note r2 = ks_own_ref[OF k2(1)]
  from getExpire_spec[OF s2(2) r2 k2(2), of src] obtain s3 where s3: "getExpire s2 i src = Some (s3, ?w)" "rep s3 (a_incr a A1)" by auto
  let ?A2 = "fst (a_expire env (i, dst) (a_incr a A1))"
  from lookupKeyWrite_spec[OF s3(2) r2 k2(2), of env dst] obtain s4 where
    s4: "lookupKeyWrite env s3 i dst = Some (s4, aK ?A2 (i, dst))" "rep s4 ?A2" by blast
  have k4: "ks_own {#a#} ?A2" "i < aD ?A2" using k2 ks_own_expire by simp_all
  note v2 = a_val_expire[OF r2, of env "(i, dst)"]
  have src2: "aK ?A2 (i, src) = Some a" "a_val ?A2 (i, src) = a_val A1 (i, src)" using assms(5,6) v2 by (auto split: if_splits)
  have room: "a_room ?A2 i" by (rule a_room_mono[OF assms(7) ref_okD(1)[OF ks_own_ref[OF assms(2)]]]) (use v2(3) in \<open>auto split: if_splits\<close>)
  from rename_rest_spec[OF s4(2) k4 src2(1) assms(6) room assms(4), of nx ?w] obtain s' c' A' t where
    r: "rename_rest env s4 i c nx src dst a ?w (aK ?A2 (i, dst)) = Some (s', c')" "rep s' A'" "ks_inv A'" "replied env c t c'"
    "if aK ?A2 (i, dst) \<noteq> None \<and> nx then a_val A' = a_val ?A2 \<and> aE A' = aE ?A2 \<and> t = shared_czero
     else a_val A' = (a_val ?A2)((i, dst) := a_val ?A2 (i, src), (i, src) := None) \<and>
          aE A' = (aE ?A2)((i, dst) := opt_when ?w, (i, src) := None) \<and> t = (if nx then shared_cone else shared_ok)" by blast
  have "(nx \<and> a_val A1 (i, dst) \<noteq> None \<and> a_val A' = a_val A1 \<and> aE A' = aE A1 \<and> t = shared_czero) \<or>
     (a_val A' = (a_val A1)((i, dst) := a_val A1 (i, src), (i, src) := None) \<and>
      aE A' = (aE A1)((i, dst) := opt_when ?w, (i, src) := None) \<and> t = (if nx then shared_cone else shared_ok))"
  proof (cases "aK ?A2 (i, dst) \<noteq> None \<and> nx")
    case True
    then have "\<not> a_gone env (i, dst) (a_incr a A1)" using v2(3) by (auto split: if_splits)
    then show ?thesis using r(5) True v2 a_val_None[OF ks_own_ref[OF assms(2)], of "(i, dst)"] by simp
  next
    case False
    have u: "(a_val ?A2)((i, dst) := x) = (a_val A1)((i, dst) := x)" "(aE ?A2)((i, dst) := y) = (aE A1)((i, dst) := y)" for x y
      using v2(1,2) by simp_all
    show ?thesis using r(5) unfolding if_not_P[OF False] src2(2) u by blast
  qed
  moreover have "(do { s \<leftarrow> incrRefCount s a; (s, expire) \<leftarrow> getExpire s i src; (s, old) \<leftarrow> lookupKeyWrite env s i dst;
                      rename_rest env s i c nx src dst a expire old }) = Some (s', c')" using s2(1) s3(1) s4(1) r(1) by simp
  ultimately show ?thesis using r(2-4) by blast
qed

lemma renameGenericCommand_spec:
  assumes "rep s A" "ks_inv A" "i < aD A" "cl_ok env c" "argv c = [cmd, src, dst]" "a_room A i"
  shows "\<exists>s' c' A' t. renameGenericCommand env s i c nx = Some (s', c') \<and> rep s' A' \<and> ks_inv A' \<and> replied env c t c' \<and>
    rename_result env i src dst nx A A' t"
proof -
  have args: "arr_get (argv c) 1 = Some src" "arr_get (argv c) 2 = Some dst" using assms(5) by (simp_all add: arr_get_def)
  let ?A1 = "fst (a_expire env (i, src) A)"
  from lookupKeyWrite_spec[OF assms(1) ks_inv_ref[OF assms(2)] assms(3), of env src] obtain s1 where
    s1: "lookupKeyWrite env s i src = Some (s1, aK ?A1 (i, src))" "rep s1 ?A1" by blast
  have k1: "ks_own {#} ?A1" "i < aD ?A1" "ks_inv ?A1" using ks_inv_expire[OF assms(2)] assms(3) by (simp_all add: ks_inv_alt)
  note v1 = a_val_None[OF ks_own_ref[OF k1(1)], of "(i, src)"]
  consider "src = dst" | "src \<noteq> dst" "aK ?A1 (i, src) = None" | a where "src \<noteq> dst" "aK ?A1 (i, src) = Some a" by fastforce
  then show ?thesis
  proof cases
    case 1
    obtain c' where "reply_shared env c shared_sameobjecterr = Some c'" "replied env c shared_sameobjecterr c'"
      using reply_shared_spec[OF assms(4)] by (metis shared_short(7))
    then show ?thesis using 1 args assms(1,2) unfolding renameGenericCommand_def rename_result_def by (auto simp: SdsText.cmp_result_eq)
  next
    case 2
    obtain c' where c': "reply_shared env c shared_nokeyerr = Some c'" "replied env c shared_nokeyerr c'"
      using reply_shared_spec[OF assms(4)] by (metis shared_short(6))
    have "renameGenericCommand env s i c nx = Some (s1, c')" using 2 args s1(1) c'(1) unfolding renameGenericCommand_def by (simp add: SdsText.cmp_result_eq)
    moreover have "rename_result env i src dst nx A ?A1 shared_nokeyerr" using 2 v1 by (simp add: rename_result_def)
    ultimately show ?thesis using c'(2) s1(2) k1(3) by blast
  next
    case (3 a)
    have room: "a_room ?A1 i" by (rule a_room_mono[OF assms(6) ref_okD(1)[OF ks_inv_ref[OF assms(2)]]])
      (use a_val_expire(3)[OF ks_inv_ref[OF assms(2)], of env "(i, src)"] in \<open>auto split: if_splits\<close>)
    have body: "renameGenericCommand env s i c nx = (do { s \<leftarrow> incrRefCount s1 a; (s, expire) \<leftarrow> getExpire s i src;
      (s, old) \<leftarrow> lookupKeyWrite env s i dst; rename_rest env s i c nx src dst a expire old })"
      using 3 args s1(1) unfolding renameGenericCommand_def by (simp add: SdsText.cmp_result_eq)
    have "a_val ?A1 (i, src) \<noteq> None" using v1 3(2) by simp
    then have res: "rename_result env i src dst nx A A' t \<longleftrightarrow>
      (nx \<and> a_val ?A1 (i, dst) \<noteq> None \<and> a_val A' = a_val ?A1 \<and> aE A' = aE ?A1 \<and> t = shared_czero) \<or>
      (a_val A' = (a_val ?A1)((i, dst) := a_val ?A1 (i, src), (i, src) := None) \<and>
       aE A' = (aE ?A1)((i, dst) := opt_when (a_when (i, src) ?A1), (i, src) := None) \<and> t = (if nx then shared_cone else shared_ok))" for A' t
      unfolding rename_result_def Let_def if_not_P[OF 3(1)] by (simp only: if_False)
    show ?thesis unfolding body res by (rule rename_found[OF s1(2) k1(1,2) assms(4) 3(2,1) room])
  qed
qed

definition move_result :: "srv_env \<Rightarrow> nat \<Rightarrow> nat option \<Rightarrow> string \<Rightarrow> astate \<Rightarrow> astate \<Rightarrow> string \<Rightarrow> bool" where
  "move_result env src dst key A A' t \<longleftrightarrow>
     (case dst of
        None \<Rightarrow> A' = A \<and> t = shared_outofrangeerr
      | Some dst \<Rightarrow>
          let A1 = fst (a_expire env (src, key) A); A2 = fst (a_expire env (dst, key) A1) in
          if src = dst then A' = A \<and> t = shared_sameobjecterr
          else if a_val A1 (src, key) = None then A' = A1 \<and> t = shared_czero
          else if a_val A2 (dst, key) \<noteq> None then A' = A2 \<and> t = shared_czero
          else a_val A' = (a_val A1)((dst, key) := a_val A1 (src, key), (src, key) := None) \<and>
               aE A' = (aE A1)((dst, key) := None, (src, key) := None) \<and> t = shared_cone)"

lemma move_transfer:
  assumes "rep s A" "ks_own {#} A" "src < aD A" "dst < aD A" "src \<noteq> dst" "aK A (src, k) = Some a" "aK A (dst, k) = None" "a_room A dst"
  shows "\<exists>s' b A'. (do { s \<leftarrow> dbAdd env s dst k a; s \<leftarrow> incrRefCount s a; dbDelete s src k }) = Some (s', b) \<and> rep s' A' \<and> ks_own {#} A' \<and>
    a_val A' = (a_val A)((dst, k) := a_val A (src, k), (src, k) := None) \<and> aE A' = (aE A)((src, k) := None)"
proof -
  let ?p = "(src, k)" and ?q = "(dst, k)"
  obtain n v where h: "aH A a = Some (n, v)" using ref_ok_live[OF ks_own_ref[OF assms(2)] assms(6)] .
  have "aH A a \<noteq> None" using h by simp
  from dbAdd_spec[OF assms(1,4,7,8) this, of env] obtain s1 where s1: "dbAdd env s dst k a = Some s1" "rep s1 (a_link ?q a A)" by blast
  have "aH (a_link ?q a A) a = Some (n, v)" using h by simp
  from incrRefCount_spec[OF s1(2) this] obtain s2 where s2: "incrRefCount s1 a = Some s2" "rep s2 (a_incr a (a_link ?q a A))" by blast
  have k: "ks_own {#a#} (a_incr a A)" using ks_own_incr[OF assms(2), of a] h by simp
  have comm: "a_incr a (a_link ?q a A) = a_link ?q a (a_incr a A)" by (simp add: a_incr_def a_link_def)
  have "ref_ok {#} (a_link ?q a (a_incr a A))" using ks_own_ref[OF k] assms(4,7) by (intro ref_ok_link) simp_all
  from dbDelete_spec[OF s2(2)[unfolded comm] this, of src k] assms(3) obtain s3 b where
    s3: "dbDelete s2 src k = Some (s3, b)" "rep s3 (a_delete ?p (a_link ?q a (a_incr a A)))" by auto
  have d: "a_delete ?q (a_incr a A) = a_incr a A" using assms(7) by (simp add: a_delete_def)
  have "aE A ?q = None" using ref_okD(2)[OF ks_own_ref[OF assms(2)]] assms(7) by blast
  then have "(a_link ?q a (a_incr a A))\<lparr>aE := (aE (a_incr a A))(?q := None)\<rparr> = a_link ?q a (a_incr a A)"
    by (simp add: a_link_def fun_upd_idem)
  then have rk: "a_delete ?p (a_link ?q a (a_incr a A)) = a_rekey ?p ?q a None (a_incr a A)" by (simp add: a_rekey_def d)
  have pq: "aK (a_incr a A) ?p = Some a" "?p \<noteq> ?q" "fst ?q < aD (a_incr a A)" using assms(4-6) by simp_all
  note R = a_rekey_spec[OF k pq, of None]
  have "aE (a_rekey ?p ?q a None (a_incr a A)) = (aE A)(?p := None)" using R(3) \<open>aE A ?q = None\<close> by (simp add: fun_upd_idem)
  then show ?thesis using s1(1) s2(1) s3 R(1,2) unfolding rk by auto
qed

lemma move_key_spec:
  assumes "rep s A" "ks_inv A" "src < aD A" "dst < aD A" "src \<noteq> dst" "cl_ok env c" "a_room A dst"
  shows "\<exists>s' c' A' t. move_key env s src dst key c = Some (s', c') \<and> rep s' A' \<and> ks_inv A' \<and> replied env c t c' \<and>
    move_result env src (Some dst) key A A' t"
proof -
  let ?A1 = "fst (a_expire env (src, key) A)"
  let ?A2 = "fst (a_expire env (dst, key) ?A1)"
  from lookupKeyWrite_spec[OF assms(1) ks_inv_ref[OF assms(2)] assms(3), of env key] obtain s1 where
    s1: "lookupKeyWrite env s src key = Some (s1, aK ?A1 (src, key))" "rep s1 ?A1" by blast
  have k1: "ks_own {#} ?A1" "dst < aD ?A1" "ks_inv ?A1" using ks_inv_expire[OF assms(2)] assms(4) by (simp_all add: ks_inv_alt)
  from lookupKeyWrite_spec[OF s1(2) ks_own_ref[OF k1(1)] k1(2), of env key] obtain s2 where
    s2: "lookupKeyWrite env s1 dst key = Some (s2, aK ?A2 (dst, key))" "rep s2 ?A2" by blast
  have k2: "ks_own {#} ?A2" "src < aD ?A2" "dst < aD ?A2" "ks_inv ?A2" using ks_own_expire[OF k1(1)] assms(3,4) by (simp_all add: ks_inv_alt)
  note n1 = a_val_None[OF ks_own_ref[OF k1(1)], of "(src, key)"] and n2 = a_val_None[OF ks_own_ref[OF k2(1)], of "(dst, key)"]
  obtain c0 where c0: "reply_shared env c shared_czero = Some c0" "replied env c shared_czero c0"
    using reply_shared_spec[OF assms(6)] by (metis shared_short(1))
  consider "aK ?A1 (src, key) = None" | a b where "aK ?A1 (src, key) = Some a" "aK ?A2 (dst, key) = Some b"
    | a where "aK ?A1 (src, key) = Some a" "aK ?A2 (dst, key) = None" by (metis not_None_eq)
  then show ?thesis
  proof cases
    case 1
    then have "move_result env src (Some dst) key A ?A1 shared_czero" using n1 assms(5) by (simp add: move_result_def Let_def)
    moreover have "move_key env s src dst key c = Some (s1, c0)" using 1 s1(1) c0(1) by (simp add: move_key_def)
    ultimately show ?thesis using s1(2) k1(3) c0(2) by blast
  next
    case (2 a b)
    then have "move_result env src (Some dst) key A ?A2 shared_czero" using n1 n2 assms(5) by (auto simp: move_result_def Let_def)
    moreover have "move_key env s src dst key c = Some (s2, c0)" using 2 s1(1) s2(1) c0(1) by (simp add: move_key_def)
    ultimately show ?thesis using s2(2) k2(4) c0(2) by blast
  next
    case (3 a)
    note v2 = a_val_expire[OF ks_own_ref[OF k1(1)], of env "(dst, key)"]
    have src2: "aK ?A2 (src, key) = Some a" "a_val ?A2 (src, key) = a_val ?A1 (src, key)" using 3(1) assms(5) v2 by (auto split: if_splits)
    have room: "a_room ?A2 dst" by (rule a_room_mono[OF assms(7) ref_okD(1)[OF ks_inv_ref[OF assms(2)]]])
      (use a_val_expire(3)[OF ks_inv_ref[OF assms(2)], of env "(src, key)"] v2(3) in \<open>auto split: if_splits\<close>)
    from move_transfer[OF s2(2) k2(1-3) assms(5) src2(1) 3(2) room, of env] obtain s3 b A' where
      m: "(do { s \<leftarrow> dbAdd env s2 dst key a; s \<leftarrow> incrRefCount s a; dbDelete s src key }) = Some (s3, b)" "rep s3 A'" "ks_own {#} A'"
      "a_val A' = (a_val ?A2)((dst, key) := a_val ?A2 (src, key), (src, key) := None)" "aE A' = (aE ?A2)((src, key) := None)" by blast
    obtain c1 where c1: "reply_shared env c shared_cone = Some c1" "replied env c shared_cone c1"
      using reply_shared_spec[OF assms(6)] by (metis shared_short(2))
    have "move_key env s src dst key c = (do { (s, _) \<leftarrow> (do { s \<leftarrow> dbAdd env s2 dst key a; s \<leftarrow> incrRefCount s a; dbDelete s src key });
      c \<leftarrow> reply_shared env c shared_cone; Some (s\<lparr>dirty := dirty s + 1\<rparr>, c) })" using 3 s1(1) s2(1) by (simp add: move_key_def)
    then have body: "move_key env s src dst key c = Some (s3\<lparr>dirty := dirty s3 + 1\<rparr>, c1)" unfolding m(1) using c1(1) by simp
    have e: "aE ?A2 (dst, key) = None" using ref_okD(2)[OF ks_own_ref[OF k2(1)]] 3(2) by blast
    have "(a_val ?A2)((dst, key) := x) = (a_val ?A1)((dst, key) := x)" for x using v2(1) by simp
    moreover have "aE ?A2 = (aE ?A1)((dst, key) := None)" using v2(2) e by (auto simp: fun_upd_idem split: if_splits)
    ultimately have "move_result env src (Some dst) key A A' shared_cone" using m(4,5) 3 n1 n2 assms(5) src2(2)
      by (auto simp: move_result_def Let_def)
    moreover have "rep (s3\<lparr>dirty := dirty s3 + 1\<rparr>) A'" "ks_inv A'" using m(2,3) by (simp_all add: ks_inv_alt)
    ultimately show ?thesis using body c1(2) by blast
  qed
qed

lemma moveCommand_spec:
  assumes "rep s A" "ks_inv A" "src < aD A" "cl_ok env c" "argv c = [cmd, key, arg]" "\<And>i. a_room A i"
  shows "\<exists>s' c' A' t. moveCommand env s src c = Some (s', c') \<and> rep s' A' \<and> ks_inv A' \<and> replied env c t c' \<and>
    move_result env src (move_target s arg) key A A' t"
proof -
  have args: "arr_get (argv c) 1 = Some key" "arr_get (argv c) 2 = Some arg" using assms(5) by (simp_all add: arr_get_def)
  have rs: "\<exists>c'. reply_shared env c t = Some c' \<and> replied env c t c'" if "length t \<le> 100" for t using assms(4) that by (rule reply_shared_spec)
  show ?thesis
  proof (cases "move_target s arg")
    case None
    with rs[of shared_outofrangeerr] args assms(1,2) show ?thesis by (auto simp: moveCommand_def move_result_def)
  next
    case (Some dst)
    have d: "dst < aD A" using Some assms(1) by (auto simp: move_target_def selectDb_def rep_def absv_def split: option.splits if_splits)
    show ?thesis
    proof (cases "src = dst")
      case True
      with rs[of shared_sameobjecterr] args assms(1,2) Some show ?thesis by (auto simp: moveCommand_def move_result_def Let_def)
    next
      case False
      from move_key_spec[OF assms(1-3) d False assms(4,6), of key] show ?thesis using Some args False by (simp add: moveCommand_def)
    qed
  qed
qed

subsection \<open>Expiration commands\<close>

lemma cl_ok_argv [simp]: "cl_ok env (c\<lparr>argv := x\<rparr>) = cl_ok env c"
  by (simp add: cl_ok_def out_inv_def takes_replies_def queued_def)

lemma ks_own_T [simp]: "ks_own own (A\<lparr>aT := n\<rparr>) = ks_own own A"
  by (simp add: ks_own_def ref_ok_def a_refs_def a_cnt_def uniq_sets_def)

lemma ks_inv_T [simp]: "ks_inv (A\<lparr>aT := n\<rparr>) = ks_inv A"
  by (simp add: ks_inv_alt)

text \<open>The time at which the key is to expire, as the code computes it.\<close>

definition expire_when :: "int \<Rightarrow> bool \<Rightarrow> int \<Rightarrow> int" where
  "expire_when basetime seconds v = to_s64 ((if seconds then to_s64 (v * 1000) else v) + basetime)"

definition expire_result :: "srv_env \<Rightarrow> nat \<times> string \<Rightarrow> int \<Rightarrow> astate \<Rightarrow> astate \<Rightarrow> string \<Rightarrow> bool \<Rightarrow> bool" where
  "expire_result env p when A A' t deleted \<longleftrightarrow>
     (let A1 = fst (a_expire env p A) in
      if a_val A1 p = None then A' = A1 \<and> t = shared_czero \<and> \<not> deleted
      else if when \<le> mstime_at env (aT A1) \<and> \<not> loading env \<and> \<not> masterhost env
      then a_val A' = (a_val A1)(p := None) \<and> aE A' = (aE A1)(p := None) \<and> t = shared_cone \<and> deleted
      else a_val A' = a_val A1 \<and> aE A' = (aE A1)(p \<mapsto> when) \<and> t = shared_cone \<and> \<not> deleted)"

lemma expire_found_spec:
  assumes "rep s A" "ks_own {#} A" "i < aD A" "cl_ok env c" "aK A (i, key) \<noteq> None" "a_room A i"
  shows "\<exists>s' c' A' deleted. expire_found env s i c key w = Some (s', c') \<and> rep s' A' \<and> ks_inv A' \<and>
    replied env (if deleted then c\<lparr>argv := [''DEL'', key]\<rparr> else c) shared_cone c' \<and>
    deleted = (w \<le> mstime_at env (aT A) \<and> \<not> loading env \<and> \<not> masterhost env) \<and>
    a_val A' = (if deleted then (a_val A)((i, key) := None) else a_val A) \<and> aE A' = (aE A)((i, key) := if deleted then None else Some w)"
proof -
  let ?A = "A\<lparr>aT := aT A + 1\<rparr>" and ?b = "w \<le> mstime_at env (aT A) \<and> \<not> loading env \<and> \<not> masterhost env"
  from mstime_spec[OF assms(1), of env] obtain s2 where s2: "mstime env s = (s2, mstime_at env (aT A))" "rep s2 ?A" by blast
  have k2: "ks_own {#} ?A" "i < aD ?A" "aK ?A (i, key) \<noteq> None" "a_room ?A i" using assms(2,3,5,6) by (simp_all add: a_room_def)
  note r2 = ks_own_ref[OF k2(1)]
  show ?thesis
  proof (cases ?b)
    case True
    let ?c = "c\<lparr>argv := [''DEL'', key]\<rparr>" and ?R = "a_delete (i, key) ?A"
    have "cl_ok env ?c" using assms(4) by simp
    then obtain c' where c': "reply_shared env ?c shared_cone = Some c'" "replied env ?c shared_cone c'"
      using reply_shared_spec by (metis shared_short(2))
    from dbDelete_spec[OF s2(2) r2 k2(2), of key] k2(3) obtain s3 where s3: "dbDelete s2 i key = Some (s3, True)" "rep s3 ?R" by auto
    let ?s = "note_event (signalModifiedKey (s3\<lparr>dirty := dirty s3 + 1\<rparr>) i key) (Notify REDIS_NOTIFY_GENERIC ''del'' key i)"
    have "expire_found env s i c key w = Some (?s, c')" unfolding expire_found_def s2(1)
      using s3(1) c'(1) True by (simp add: rewriteClientCommandVector_def)
    moreover have "rep ?s ?R" "ks_inv ?R" using s3(2) ks_own_delete[OF k2(1)] by (simp_all add: ks_inv_alt)
    ultimately show ?thesis using c'(2) True a_val_delete[OF r2, of "(i, key)"] aE_delete[OF r2, of "(i, key)"]
      by (intro exI[of _ ?s] exI[of _ c'] exI[of _ ?R] exI[of _ True]) simp
  next
    case False
    obtain c' where c': "reply_shared env c shared_cone = Some c'" "replied env c shared_cone c'"
      using reply_shared_spec[OF assms(4)] by (metis shared_short(2))
    let ?R = "?A\<lparr>aE := (aE ?A)((i, key) \<mapsto> w)\<rparr>"
    from setExpire_spec[OF s2(2) r2 k2(2,3), of env w] k2(4) obtain s3 where s3: "setExpire env s2 i key w = Some s3" "rep s3 ?R" by blast
    let ?s = "note_event (signalModifiedKey s3 i key) (Notify REDIS_NOTIFY_GENERIC ''expire'' key i)"
    have "expire_found env s i c key w = Some (?s\<lparr>dirty := dirty ?s + 1\<rparr>, c')" unfolding expire_found_def s2(1) prod.case Let_def if_not_P[OF False]
      using s3(1) c'(1) by simp
    moreover have "rep (?s\<lparr>dirty := dirty ?s + 1\<rparr>) ?R" "ks_inv ?R" using s3(2) ks_own_setE[OF k2(1,3), of "Some w"] by (simp_all add: ks_inv_alt)
    ultimately show ?thesis using c'(2) False
      by (intro exI[of _ "?s\<lparr>dirty := dirty ?s + 1\<rparr>"] exI[of _ c'] exI[of _ ?R] exI[of _ False]) auto
  qed
qed

lemma expireGenericCommand_spec:
  assumes "rep s A" "ks_inv A" "i < aD A" "cl_ok env c" "argv c = [cmd, key, param]" "a_room A i"
    "getLongLongFromObject (Some (ENC_RAW param)) = Some v"
  shows "\<exists>s' c' A' t deleted. expireGenericCommand env s i c basetime seconds = Some (s', c') \<and> rep s' A' \<and> ks_inv A' \<and>
    replied env (if deleted then c\<lparr>argv := [''DEL'', key]\<rparr> else c) t c' \<and> expire_result env (i, key) (expire_when basetime seconds v) A A' t deleted"
proof -
  let ?w = "expire_when basetime seconds v" and ?A1 = "fst (a_expire env (i, key) A)"
  from lookupKeyRead_spec[OF assms(1) ks_inv_ref[OF assms(2)] assms(3), of env key] obtain s1 where
    s1: "lookupKeyRead env s i key = Some (s1, aK ?A1 (i, key))" "rep s1 ?A1" by blast
  have k1: "ks_own {#} ?A1" "i < aD ?A1" "ks_inv ?A1" using ks_inv_expire[OF assms(2)] assms(3) by (simp_all add: ks_inv_alt)
  note n1 = a_val_None[OF ks_own_ref[OF k1(1)], of "(i, key)"]
  have args: "arr_get (argv c) 1 = Some key" "arr_get (argv c) 2 = Some param" using assms(5) by (simp_all add: arr_get_def)
  have body: "expireGenericCommand env s i c basetime seconds =
     (if aK ?A1 (i, key) = None then do { c \<leftarrow> reply_shared env c shared_czero; Some (s1, c) } else expire_found env s1 i c key ?w)"
    using args assms(7) s1(1) unfolding expireGenericCommand_def expire_when_def getLongLongFromObjectOrReply_def by (simp add: Let_def)
  show ?thesis
  proof (cases "aK ?A1 (i, key) = None")
    case True
    obtain c' where c': "reply_shared env c shared_czero = Some c'" "replied env c shared_czero c'"
      using reply_shared_spec[OF assms(4)] by (metis shared_short(1))
    have "expire_result env (i, key) ?w A ?A1 shared_czero False" using True n1 by (simp add: expire_result_def)
    moreover have "expireGenericCommand env s i c basetime seconds = Some (s1, c')" using body True c'(1) by simp
    ultimately show ?thesis using s1(2) k1(3) c'(2)
      by (intro exI[of _ s1] exI[of _ c'] exI[of _ ?A1] exI[of _ shared_czero] exI[of _ False]) simp
  next
    case False
    have room: "a_room ?A1 i" by (rule a_room_mono[OF assms(6) ref_okD(1)[OF ks_inv_ref[OF assms(2)]]])
      (use a_val_expire(3)[OF ks_inv_ref[OF assms(2)], of env "(i, key)"] in \<open>auto split: if_splits\<close>)
    from expire_found_spec[OF s1(2) k1(1,2) assms(4) False room, of ?w] obtain s' c' A' deleted where
      r: "expire_found env s1 i c key ?w = Some (s', c')" "rep s' A'" "ks_inv A'"
      "replied env (if deleted then c\<lparr>argv := [''DEL'', key]\<rparr> else c) shared_cone c'"
      "deleted = (?w \<le> mstime_at env (aT ?A1) \<and> \<not> loading env \<and> \<not> masterhost env)"
      "a_val A' = (if deleted then (a_val ?A1)((i, key) := None) else a_val ?A1)" "aE A' = (aE ?A1)((i, key) := if deleted then None else Some ?w)" by blast
    have v: "a_val ?A1 (i, key) \<noteq> None" using n1 False by simp
    have "expire_result env (i, key) ?w A A' shared_cone deleted" unfolding expire_result_def Let_def if_not_P[OF v] r(5)[symmetric] using r(6,7) by simp
    then show ?thesis using body False r(1-4)
      by (intro exI[of _ s'] exI[of _ c'] exI[of _ A'] exI[of _ shared_cone] exI[of _ deleted]) simp
  qed
qed

subsection \<open>The other commands on keys\<close>

text \<open>All that a command has to keep: it returns, the invariant holds again, and the client got a reply.\<close>

definition keeps :: "srv_env \<Rightarrow> redisClient \<Rightarrow> (redisServer \<times> redisClient) option \<Rightarrow> bool" where
  "keeps env c r \<longleftrightarrow> (\<exists>s' c' A' t args. r = Some (s', c') \<and> rep s' A' \<and> ks_inv A' \<and> replied env (c\<lparr>argv := args\<rparr>) t c')"

lemma keepsI:
  assumes "r = Some (s', c')" "rep s' A'" "ks_inv A'" "replied env c t c'"
  shows "keeps env c r"
  unfolding keeps_def using assms by (intro exI[of _ s'] exI[of _ c'] exI[of _ A'] exI[of _ t] exI[of _ "argv c"]) simp

lemma to_s64_range: "- (2 ^ 63) \<le> to_s64 n" "to_s64 n < 2 ^ 63"
  using sint_u64_range[of "word_of_int n"] by (simp_all add: to_s64_def)

lemma ttl_reply_range: "- (2 ^ 63) \<le> t \<Longrightarrow> t < 2 ^ 63 \<Longrightarrow> - (2 ^ 63) \<le> ttl_reply ms t \<and> ttl_reply ms t < 2 ^ 63"
  using to_s64_range[of "t + 500"] by (cases "to_s64 (t + 500)" "0 :: int" rule: linorder_cases) (auto simp: ttl_reply_def)

lemma ttlGenericCommand_keeps:
  assumes "rep s A" "ks_inv A" "i < aD A" "cl_ok env c" "argv c = [cmd, key]"
  shows "keeps env c (ttlGenericCommand env s i c ms)"
proof -
  let ?A1 = "fst (a_expire env (i, key) A)"
  from lookupKeyRead_spec[OF assms(1) ks_inv_ref[OF assms(2)] assms(3), of env key] obtain s1 where
    s1: "lookupKeyRead env s i key = Some (s1, aK ?A1 (i, key))" "rep s1 ?A1" by blast
  have k1: "ks_inv ?A1" "i < aD ?A1" using ks_inv_expire[OF assms(2)] assms(3) by simp_all
  have arg: "arr_get (argv c) 1 = Some key" using assms(5) by (simp add: arr_get_def)
  obtain w where w: "a_when (i, key) ?A1 = w" by simp
  from getExpire_spec[OF s1(2) ks_inv_ref[OF k1(1)] k1(2), of key] obtain s2 where s2: "getExpire s1 i key = Some (s2, w)" "rep s2 ?A1" unfolding w by blast
  obtain now where now: "mstime_at env (aT ?A1) = now" by simp
  from mstime_spec[OF s2(2), of env] obtain s3 where s3: "mstime env s2 = (s3, now)" "rep s3 (?A1\<lparr>aT := aT ?A1 + 1\<rparr>)" unfolding now by blast
  note ri = reply_int_spec[OF assms(4)]
  consider "aK ?A1 (i, key) = None" | a where "aK ?A1 (i, key) = Some a" "w = -1" | a where "aK ?A1 (i, key) = Some a" "w \<noteq> -1" by (metis not_None_eq)
  then show ?thesis
  proof cases
    case 1
    from ri[of "-2"] obtain c' where c': "reply_int env c (-2) = Some c'" "replied env c (resp_header (CHR '':'') (-2)) c'" by auto
    have "ttlGenericCommand env s i c ms = Some (s1, c')" using arg s1(1) 1 c'(1) by (simp add: ttlGenericCommand_def)
    then show ?thesis using s1(2) k1(1) c'(2) by (rule keepsI)
  next
    case (2 a)
    from ri[of "ttl_reply ms (-1)"] obtain c' t where c': "reply_int env c (ttl_reply ms (-1)) = Some c'" "replied env c t c'" by (auto simp: ttl_reply_def)
    have "ttlGenericCommand env s i c ms = Some (s2, c')" using arg s1(1) s2(1) 2 c'(1) by (simp add: ttlGenericCommand_def)
    then show ?thesis using s2(2) k1(1) c'(2) by (rule keepsI)
  next
    case (3 a)
    let ?t = "if to_s64 (w - now) < 0 then 0 else to_s64 (w - now)"
    have "- (2 ^ 63) \<le> ?t" "?t < 2 ^ 63" using to_s64_range[of "w - now"] by auto
    then obtain c' t where c': "reply_int env c (ttl_reply ms ?t) = Some c'" "replied env c t c'" using ri ttl_reply_range by blast
    have "ttlGenericCommand env s i c ms = Some (s3, c')" using arg s1(1) s2(1) s3(1) 3 c'(1) by (simp add: ttlGenericCommand_def Let_def)
    moreover have "ks_inv (?A1\<lparr>aT := aT ?A1 + 1\<rparr>)" using k1(1) by simp
    ultimately show ?thesis using s3(2) c'(2) by (metis keepsI)
  qed
qed

lemma persistCommand_keeps:
  assumes "rep s A" "ks_inv A" "i < aD A" "cl_ok env c" "argv c = [cmd, key]"
  shows "keeps env c (persistCommand env s i c)"
proof -
  have arg: "arr_get (argv c) 1 = Some key" using assms(5) by (simp add: arr_get_def)
  from find_key_spec[OF assms(1,3), of key] obtain s1 where s1: "find_key s i key = Some (s1, aK A (i, key))" "rep s1 A" by blast
  obtain c0 where c0: "reply_shared env c shared_czero = Some c0" "replied env c shared_czero c0"
    using reply_shared_spec[OF assms(4)] by (metis shared_short(1))
  obtain c1 where c1: "reply_shared env c shared_cone = Some c1" "replied env c shared_cone c1"
    using reply_shared_spec[OF assms(4)] by (metis shared_short(2))
  show ?thesis
  proof (cases "aK A (i, key) = None")
    case True
    then show ?thesis using arg s1 c0 assms(2) unfolding persistCommand_def by (intro keepsI[of _ s1 c0 A]) simp_all
  next
    case False
    let ?A = "A\<lparr>aE := (aE A)((i, key) := None)\<rparr>"
    from removeExpire_spec[OF s1(2) assms(3) False] obtain s2 where s2: "removeExpire s1 i key = Some (s2, aE A (i, key) \<noteq> None)" "rep s2 ?A" by blast
    have k: "ks_inv ?A" using ks_own_setE[of "{#}" A "(i, key)" None] assms(2) False by (simp add: ks_inv_alt)
    show ?thesis
    proof (cases "aE A (i, key) = None")
      case True
      then have "persistCommand env s i c = Some (s2, c0)" using arg s1(1) s2(1) c0(1) False unfolding persistCommand_def by auto
      then show ?thesis using s2(2) k c0(2) by (rule keepsI)
    next
      case e: False
      have "persistCommand env s i c = Some (s2\<lparr>dirty := dirty s2 + 1\<rparr>, c1)" using arg s1(1) s2(1) c1(1) False e unfolding persistCommand_def by auto
      then show ?thesis using s2(2) c1(2) k by (intro keepsI[of _ "s2\<lparr>dirty := dirty s2 + 1\<rparr>" c1 ?A]) simp_all
    qed
  qed
qed

lemma typeCommand_keeps:
  assumes "rep s A" "ks_inv A" "i < aD A" "cl_ok env c" "argv c = [cmd, key]"
  shows "keeps env c (typeCommand env s i c)"
proof -
  let ?A1 = "fst (a_expire env (i, key) A)"
  from lookupKeyRead_spec[OF assms(1) ks_inv_ref[OF assms(2)] assms(3), of env key] obtain s1 where
    s1: "lookupKeyRead env s i key = Some (s1, aK ?A1 (i, key))" "rep s1 ?A1" by blast
  have k1: "ks_inv ?A1" using ks_inv_expire[OF assms(2)] by simp
  have "\<exists>t. (case aK ?A1 (i, key) of None \<Rightarrow> Some ''none'' | Some a \<Rightarrow> do { x \<leftarrow> objs s1 a; Some (type_name (oval x)) }) = Some t"
  proof (cases "aK ?A1 (i, key)")
    case (Some a)
    obtain n v where "aH ?A1 a = Some (n, v)" using ref_ok_live[OF ks_inv_ref[OF k1] Some] .
    with s1(2) obtain x where "objs s1 a = Some x" by (rule rep_obj)
    then show ?thesis using Some by simp
  qed simp
  then obtain t where t: "(case aK ?A1 (i, key) of None \<Rightarrow> Some ''none'' | Some a \<Rightarrow> do { x \<leftarrow> objs s1 a; Some (type_name (oval x)) }) = Some t" by blast
  from appends_status[of c "netenv env" t] assms(4) obtain c' where
    c': "addReplyStatus (netenv env) c t = Some c'" "replied env c (''+'' @ t @ crlf) c'" by (auto simp: cl_ok_def addReplyStatus_def replied_appends)
  have "typeCommand env s i c = Some (s1, c')" using assms(5) s1(1) t c'(1) unfolding typeCommand_def by (simp add: arr_get_def)
  then show ?thesis using s1(2) k1 c'(2) by (rule keepsI)
qed

lemma dbsizeCommand_spec:
  assumes "rep s A" "i < aD A" "cl_ok env c"
  shows "\<exists>c'. dbsizeCommand env s i c = Some (s, c') \<and> replied env c (resp_header (CHR '':'') (int (card {k. aK A (i, k) \<noteq> None}))) c'"
proof -
  obtain db where db: "get_db s i = Some db" "dict_inv (db_dict db)" "dict_inv (db_expires db)"
    "lookup (db_dict db) = (\<lambda>k. aK A (i, k))" "lookup (db_expires db) = (\<lambda>k. aE A (i, k))" using assms(1,2) by (rule rep_get_db)
  have n: "dictSize (db_dict db) = card {k. aK A (i, k) \<noteq> None}" using dictSize_card[OF db(2)] db(4) by (simp add: dom_def)
  have "dictSize (db_dict db) < 2 ^ 63" using dictSize_entries[OF db(2)] db(2) by (simp add: dict_inv_def dict_max_def)
  then obtain c' where "reply_int env c (int (dictSize (db_dict db))) = Some c'" "replied env c (resp_header (CHR '':'') (int (dictSize (db_dict db)))) c'"
    using reply_int_spec[OF assms(3), of "int (dictSize (db_dict db))"] by auto
  then show ?thesis using db(1) n by (simp add: dbsizeCommand_def)
qed

lemma decr_list_spec:
  assumes "rep s A" "\<And>a. count (mset as) a \<le> a_cnt A a"
  shows "\<exists>s' A'. decr_all s as = Some s' \<and> rep s' A' \<and> A' = A\<lparr>aH := aH A'\<rparr> \<and> (\<forall>a. a_cnt A' a = a_cnt A a - count (mset as) a) \<and>
    (\<forall>a n v. aH A' a = Some (n, v) \<longrightarrow> (\<exists>m. aH A a = Some (m, v) \<and> (n = m \<or> 0 < n)))"
  using assms
proof (induction as arbitrary: s A)
  case Nil
  then show ?case by auto
next
  case (Cons a as)
  have "1 \<le> a_cnt A a" using Cons.prems(2)[of a] by simp
  then obtain n v where "aH A a = Some (n, v)" "0 < n" by (metis cnt_pos less_eq_Suc_le One_nat_def)
  from decrRefCount_spec[OF Cons.prems(1) this] obtain s1 where s1: "decrRefCount s a = Some s1" "rep s1 (a_decr a A)" by blast
  have "count (mset as) b \<le> a_cnt (a_decr a A) b" for b using Cons.prems(2)[of b] by (cases "b = a") simp_all
  from Cons.IH[OF s1(2) this] obtain s' A' where r: "decr_all s1 as = Some s'" "rep s' A'" "A' = (a_decr a A)\<lparr>aH := aH A'\<rparr>"
    "\<And>b. a_cnt A' b = a_cnt (a_decr a A) b - count (mset as) b"
    "\<And>b n v. aH A' b = Some (n, v) \<Longrightarrow> \<exists>m. aH (a_decr a A) b = Some (m, v) \<and> (n = m \<or> 0 < n)" by blast
  have "A' = A\<lparr>aH := aH A'\<rparr>" using r(3) by (simp add: a_decr_def)
  moreover have "a_cnt A' b = a_cnt A b - count (mset (a # as)) b" for b using r(4)[of b] by simp
  moreover have "\<exists>m. aH A b = Some (m, v) \<and> (n = m \<or> 0 < n)" if "aH A' b = Some (n, v)" for b n v
    using r(5)[OF that] by (auto simp: a_decr_def split: if_splits option.splits)
  ultimately show ?case using s1(1) r(1,2) by auto
qed

lemma count_values:
  assumes "dict_inv d"
  shows "count (mset (map snd (entries d))) a = card {k. lookup d k = Some a}"
proof -
  have d: "distinct (map fst (entries d))" using assms by (simp add: dict_inv_def)
  have "count (mset (map snd (entries d))) a = length (filter (\<lambda>e. snd e = a) (entries d))"
  proof -
    have "count (mset (map snd xs)) a = length (filter (\<lambda>e. snd e = a) xs)" for xs :: "('a \<times> 'b) list" by (induction xs) auto
    then show ?thesis .
  qed
  also have "\<dots> = card (set (filter (\<lambda>e. snd e = a) (entries d)))" using d by (intro distinct_card[symmetric]) (simp add: distinct_map)
  also have "\<dots> = card (fst ` set (filter (\<lambda>e. snd e = a) (entries d)))"
    using d by (intro card_image[symmetric]) (auto simp: distinct_map intro: inj_on_subset)
  also have "fst ` set (filter (\<lambda>e. snd e = a) (entries d)) = {k. lookup d k = Some a}"
    using d by (force simp: lookup_def)
  finally show ?thesis .
qed

definition a_flush :: "nat \<Rightarrow> astate \<Rightarrow> astate" where
  "a_flush i A = A\<lparr>aK := (\<lambda>p. if fst p = i then None else aK A p), aE := (\<lambda>p. if fst p = i then None else aE A p)\<rparr>"

lemma a_refs_flush:
  assumes "finite (dom (aK A))"
  shows "a_refs A a = a_refs (a_flush i A) a + card {k. aK A (i, k) = Some a}"
proof -
  let ?X = "{p. aK (a_flush i A) p = Some a}" and ?Y = "Pair i ` {k. aK A (i, k) = Some a}"
  have f: "finite {p. aK A p = Some a}" using assms by (rule finite_subset[rotated]) auto
  have u: "{p. aK A p = Some a} = ?X \<union> ?Y" by (auto simp: a_flush_def split: if_splits)
  have "?X \<inter> ?Y = {}" by (auto simp: a_flush_def)
  then have "card {p. aK A p = Some a} = card ?X + card ?Y" using f u by (simp add: card_Un_disjoint)
  then show ?thesis by (simp add: a_refs_def card_image inj_on_def)
qed

lemma flush_inv:
  assumes "ks_inv A" "aK B = aK (a_flush i A)" "aE B = aE (a_flush i A)" "aD B = aD A"
    "\<And>a. a_cnt B a = a_cnt A a - card {k. aK A (i, k) = Some a}"
    "\<And>a n v. aH B a = Some (n, v) \<Longrightarrow> \<exists>m. aH A a = Some (m, v) \<and> (n = m \<or> 0 < n)"
  shows "ks_inv B" "a_val B = (\<lambda>p. if fst p = i then None else a_val A p)"
proof -
  note r = ks_inv_ref[OF assms(1)]
  have cnt: "a_cnt B a = a_refs B a" for a
    using assms(5)[of a] ref_okD(4)[OF r, of a] a_refs_flush[OF ref_okD(1)[OF r], of a i] assms(2) by (simp add: a_refs_def)
  have pos: "aH B a \<noteq> Some (0, v)" for a v using assms(6)[of a 0 v] ref_okD(5)[OF r, of a] by auto
  have "ref_ok {#} B" unfolding ref_ok_def
  proof (intro conjI allI)
    have "dom (aK B) \<subseteq> dom (aK A)" using assms(2) by (auto simp: a_flush_def split: if_splits)
    then show "finite (dom (aK B))" "fst ` dom (aK B) \<subseteq> {..<aD B}"
      using ref_okD(1,3)[OF r] assms(4) by (auto dest: finite_subset)
    have "aE A p \<noteq> None \<Longrightarrow> aK A p \<noteq> None" for p using ref_okD(2)[OF r] by blast
    then show "dom (aE B) \<subseteq> dom (aK B)" using assms(2,3) by (auto simp: a_flush_def split: if_splits)
  qed (use cnt pos in simp_all)
  then show "ks_inv B" unfolding ks_inv_def
  proof (intro conjI allI impI)
    fix a n S
    assume b: "aH B a = Some (n, A_set S)"
    then obtain m where m: "aH A a = Some (m, A_set S)" using assms(6) by blast
    then have "m = 1" "S \<noteq> {}" using assms(1) by (auto simp: ks_inv_def)
    moreover have "n \<le> m" using assms(5)[of a] m b by (simp add: a_cnt_def)
    moreover have "n \<noteq> 0" using pos b by metis
    ultimately show "n = 1" "S \<noteq> {}" by simp_all
  qed
  show "a_val B = (\<lambda>p. if fst p = i then None else a_val A p)"
  proof
    fix p
    show "a_val B p = (if fst p = i then None else a_val A p)"
    proof (cases "aK B p")
      case None
      then show ?thesis using assms(2) by (auto simp: a_val_def a_flush_def split: if_splits)
    next
      case (Some a)
      obtain n v where b: "aH B a = Some (n, v)" using ref_ok_live[OF \<open>ref_ok {#} B\<close> Some] .
      then show ?thesis using Some assms(2) assms(6)[OF b] by (auto simp: a_val_def a_flush_def split: if_splits)
    qed
  qed
qed

lemma flushdbCommand_spec:
  assumes "rep s A" "ks_inv A" "i < aD A" "cl_ok env c"
  shows "\<exists>s' c' A'. flushdbCommand env s i c = Some (s', c') \<and> rep s' A' \<and> ks_inv A' \<and> replied env c shared_ok c' \<and>
    a_val A' = (\<lambda>p. if fst p = i then None else a_val A p) \<and> aE A' = (\<lambda>p. if fst p = i then None else aE A p)"
proof -
  note r = ks_inv_ref[OF assms(2)]
  obtain db where db: "get_db s i = Some db" "dict_inv (db_dict db)" "dict_inv (db_expires db)"
    "lookup (db_dict db) = (\<lambda>k. aK A (i, k))" "lookup (db_expires db) = (\<lambda>k. aE A (i, k))" using assms(1,3) by (rule rep_get_db)
  let ?s0 = "note_event (s\<lparr>dirty := dirty s + int (dictSize (db_dict db))\<rparr>) (Flushed i)"
  let ?d = "dictCreate (dtype (db_dict db))" and ?ex = "dictCreate (dtype (db_expires db))"
  have inv: "dict_inv ?d" "dict_inv ?ex" using db(2,3) by (auto intro: dict_inv_create dict_inv_type)
  have e: "dictEmpty (db_dict db) False = Some (?d, entries (db_dict db))" "dictEmpty (db_expires db) False = Some (?ex, entries (db_expires db))"
    using dictEmpty_spec[OF db(2)] dictEmpty_spec[OF db(3)] by auto
  let ?B = "A\<lparr>aK := aK (a_flush i A)\<rparr>"
  have s0: "rep ?s0 A" using assms(1) by simp
  have r1: "rep (put_db ?s0 i (db\<lparr>db_dict := ?d\<rparr>)) ?B" unfolding db_update
    by (intro rep_put_db[OF s0 assms(3) inv(1) db(3)]) (simp_all add: lookup_create a_flush_def db(5))
  have cv: "count (mset (map snd (entries (db_dict db)))) a = card {k. aK A (i, k) = Some a}" for a using count_values[OF db(2)] db(4) by simp
  have "count (mset (map snd (entries (db_dict db)))) a \<le> a_cnt ?B a" for a
    using cv[of a] ref_okD(4)[OF r, of a] a_refs_flush[OF ref_okD(1)[OF r], of a i] by (simp add: a_cnt_def)
  from decr_list_spec[OF r1 this] obtain s2 A2 where d: "decr_all (put_db ?s0 i (db\<lparr>db_dict := ?d\<rparr>)) (map snd (entries (db_dict db))) = Some s2"
    "rep s2 A2" "A2 = ?B\<lparr>aH := aH A2\<rparr>" "\<And>a. a_cnt A2 a = a_cnt ?B a - card {k. aK A (i, k) = Some a}"
    "\<And>a n v. aH A2 a = Some (n, v) \<Longrightarrow> \<exists>m. aH ?B a = Some (m, v) \<and> (n = m \<or> 0 < n)" unfolding cv by blast
  let ?A' = "A2\<lparr>aE := aE (a_flush i A)\<rparr>"
  have A2: "aK A2 = aK (a_flush i A)" "aE A2 = aE A" "aD A2 = aD A" using arg_cong[OF d(3), of aK] arg_cong[OF d(3), of aE] arg_cong[OF d(3), of aD] by simp_all
  then have "i < aD A2" using assms(3) by simp
  then have r3: "rep (put_db s2 i \<lparr>db_dict = ?d, db_expires = ?ex\<rparr>) ?A'"
    by (intro rep_put_db[OF d(2) _ inv]) (simp_all add: lookup_create a_flush_def A2)
  obtain c' where c': "reply_shared env c shared_ok = Some c'" "replied env c shared_ok c'"
    using reply_shared_spec[OF assms(4)] by (metis shared_short(3))
  have "ks_inv ?A'" "a_val ?A' = (\<lambda>p. if fst p = i then None else a_val A p)"
    using A2 d(4,5) by (intro flush_inv[OF assms(2)]; simp add: a_cnt_def)+
  moreover have "flushdbCommand env s i c = Some (put_db s2 i \<lparr>db_dict = ?d, db_expires = ?ex\<rparr>, c')"
    unfolding flushdbCommand_def using db(1) e d(1) c'(1) by simp
  ultimately show ?thesis using r3 c'(2) by (auto simp: a_flush_def)
qed

subsection \<open>A new server\<close>

definition a_init :: "nat \<Rightarrow> astate" where
  "a_init n = \<lparr>aK = Map.empty, aE = Map.empty, aH = Map.empty, aN = 0, aD = n, aT = 0\<rparr>"

lemma type_ok_keys: "type_ok (dbDictType seed)" "type_ok (keyptrDictType seed)"
  by (simp_all add: type_ok_def dbDictType_def keyptrDictType_def dictSdsKeyCompare_eq)

lemma init_rep: "rep (init_server env n) (a_init n)"
  using dict_inv_create[OF type_ok_keys(1)] dict_inv_create[OF type_ok_keys(2)]
  by (simp add: rep_def srv_ok_def absv_def a_init_def init_server_def kmap_def emap_def hmap_def fun_eq_iff lookup_create)

lemma init_inv: "ks_inv (a_init n)"
  by (simp add: ks_inv_def ref_ok_def a_init_def a_cnt_def a_refs_def)

text \<open>A key is added that holds a value of another type.\<close>

lemma add_other:
  assumes "rep s A" "ks_inv A" "i < aD A" "aK A (i, k) = None" "a_room A i"
  obtains s1 a s' A' where "createObject env s (V_other t) = (s1, a)" "dbAdd env s1 i k a = Some s'" "rep s' A'" "ks_inv A'"
    "a_val A' = (a_val A)((i, k) \<mapsto> A_other t)" "aE A' = aE A" "aD A' = aD A" "aT A' = aT A"
proof -
  let ?A = "A\<lparr>aH := (aH A)(aN A \<mapsto> (1, A_other t)), aN := aN A + 1\<rparr>"
  let ?B = "a_link (i, k) (aN A) ?A"
  have fresh: "aH A (aN A) = None" using rep_fresh[OF assms(1)] by simp
  obtain s1 where s1: "createObject env s (V_other t) = (s1, aN A)" "rep s1 ?A" using createObject_spec[OF assms(1), of "V_other t" env] by auto
  have "i < aD ?A" "aK ?A (i, k) = None" "a_room ?A i" "aH ?A (aN A) \<noteq> None" using assms(3-5) by (simp_all add: a_room_def)
  from dbAdd_spec[OF s1(2) this, of env] obtain s' where s': "dbAdd env s1 i k (aN A) = Some s'" "rep s' ?B" by blast
  have "ref_ok {#} ?B" using ref_ok_create[OF ks_inv_ref[OF assms(2)] fresh, of "A_other t"] assms(3,4) by (intro ref_ok_link) simp_all
  then have inv: "ks_inv ?B" using assms(2) by (auto simp: ks_inv_def split: if_splits)
  have "aK A q \<noteq> Some (aN A)" for q using ref_ok_live[OF ks_inv_ref[OF assms(2)]] fresh by (metis option.distinct(1))
  then have "a_val ?A = a_val A" by (auto simp: a_val_def fun_eq_iff split: option.split)
  then have "a_val ?B = (a_val A)((i, k) \<mapsto> A_other t)" by simp
  then show thesis using that[OF s1(1) s' inv] by simp
qed

text \<open>Surroundings in which the clock stands still, for concrete runs.\<close>

definition idle_env :: srv_env where
  "idle_env = \<lparr>set_max_intset_entries = 512, dict_can_resize = True, hash_seed = 5381, byte_junk = \<lambda>_. 0, char_junk = \<lambda>_. NUL,
     obj_junk = ENC_INT 0, loading = False, masterhost = False, lua_time_start = None, mstime_at = \<lambda>_. 1000000, aof_on = False,
     saving_child = False, lruclock = 0, share_ints = False, netenv = quiet_env, qsort = \<lambda>_ xs. xs\<rparr>"

lemma idle_env_simps [simp]:
  "netenv idle_env = quiet_env" "loading idle_env = False" "masterhost idle_env = False" "lua_time_start idle_env = None"
  "mstime_at idle_env n = 1000000" "qsort idle_env f xs = xs"
  by (simp_all add: idle_env_def)

lemma idle_client: "cl_ok idle_env (new_client\<lparr>argv := xs\<rparr>)"
proof -
  have "cl_ok idle_env new_client" using new_client_ok by (simp add: cl_ok_def)
  then show ?thesis by simp
qed

lemma one_key:
  obtains s A where "rep s A" "ks_inv A" "aD A = 2" "a_val A = [(0, k) \<mapsto> A_other TY_STRING]" "aE A = Map.empty" "\<forall>i. a_room A i"
proof -
  have "0 < aD (a_init 2)" "aK (a_init 2) (0, k) = None" "a_room (a_init 2) 0" by (simp_all add: a_init_def a_room_def dict_max_def)
  from add_other[OF init_rep init_inv this] obtain s1 a s' A' where
    r: "rep s' A'" "ks_inv A'" "a_val A' = (a_val (a_init 2))((0, k) \<mapsto> A_other TY_STRING)" "aE A' = aE (a_init 2)" "aD A' = aD (a_init 2)" .
  have v: "a_val A' = [(0, k) \<mapsto> A_other TY_STRING]" "aE A' = Map.empty" "aD A' = 2" using r(3-5) by (simp_all add: a_init_def a_val_def fun_eq_iff)
  have "a_room A' i" for i
  proof -
    have "aK A' (i, x) \<noteq> None \<Longrightarrow> x \<in> {k}" for x using a_val_None[OF ks_inv_ref[OF r(2)], of "(i, x)"] v(1) by (auto split: if_splits)
    then have "card {x. aK A' (i, x) \<noteq> None} \<le> card {k}" by (intro card_mono) auto
    then show ?thesis by (simp add: a_room_def dict_max_def)
  qed
  then show thesis using that[OF r(1,2) v(3,1,2)] by blast
qed

text \<open>
  C17. RENAME of a key that has not expired to another name succeeds: afterwards the new name holds
  the value and the expiration of the old one, whatever it held before, the old name is gone, no
  other key changed, and the reference counts are right again: the value that was overwritten is
  released and the renamed one is held once.
\<close>

theorem rename_moves_value_and_expire:
  assumes "rep s A" "ks_inv A" "i < aD A" "cl_ok env c" "argv c = [cmd, src, dst]" "a_room A i"
    "src \<noteq> dst" "\<not> a_gone env (i, src) A" "a_val A (i, src) = Some v"
  shows "\<exists>s' c' A'. renameCommand env s i c = Some (s', c') \<and> rep s' A' \<and> ks_inv A' \<and>
    a_val A' = (a_val A)((i, dst) \<mapsto> v, (i, src) := None) \<and>
    aE A' = (aE A)((i, dst) := opt_when (a_when (i, src) A), (i, src) := None) \<and> replied env c shared_ok c'"
proof -
  let ?B = "fst (a_expire env (i, src) A)"
  have e: "a_val ?B = a_val A" "aE ?B = aE A" "a_when (i, src) ?B = a_when (i, src) A"
    using a_val_expire[OF ks_inv_ref[OF assms(2)], of env "(i, src)"] assms(8) by (simp_all add: a_when_def)
  from renameGenericCommand_spec[OF assms(1-6), of False] obtain s' c' A' t where
    r: "renameCommand env s i c = Some (s', c')" "rep s' A'" "ks_inv A'" "replied env c t c'" "rename_result env i src dst False A A' t"
    unfolding renameCommand_def by blast
  have "a_val A' = (a_val A)((i, dst) := a_val A (i, src), (i, src) := None) \<and>
    aE A' = (aE A)((i, dst) := opt_when (a_when (i, src) A), (i, src) := None) \<and> t = shared_ok"
    using r(5) assms(7,9) unfolding rename_result_def Let_def e by simp
  then show ?thesis using r(1-4) assms(9) by auto
qed

theorem rename_moves_value_and_expire_witness:
  "\<exists>s A s' c' A'. rep s A \<and> renameCommand idle_env s 0 (new_client\<lparr>argv := [''rename'', ''a'', ''b'']\<rparr>) = Some (s', c') \<and> rep s' A' \<and>
    a_val A (0, ''a'') = Some (A_other TY_STRING) \<and> a_val A' (0, ''b'') = Some (A_other TY_STRING) \<and> a_val A' (0, ''a'') = None"
proof -
  obtain s A where k: "rep s A" "ks_inv A" "aD A = 2" "a_val A = [(0, ''a'') \<mapsto> A_other TY_STRING]" "aE A = Map.empty" "\<forall>i. a_room A i" by (rule one_key)
  let ?c = "new_client\<lparr>argv := [''rename'', ''a'', ''b'']\<rparr>"
  have h: "0 < aD A" "argv ?c = [''rename'', ''a'', ''b'']" "a_room A 0" "''a'' \<noteq> ''b''" "\<not> a_gone idle_env (0, ''a'') A" "a_val A (0, ''a'') = Some (A_other TY_STRING)"
    using k by (simp_all add: a_gone_def a_when_def)
  from rename_moves_value_and_expire[OF k(1,2) h(1) idle_client h(2-6)] obtain s' c' A' where
    "renameCommand idle_env s 0 ?c = Some (s', c')" "rep s' A'" "a_val A' = (a_val A)((0, ''b'') \<mapsto> A_other TY_STRING, (0, ''a'') := None)" by blast
  then show ?thesis using k(1,4) by (intro exI[of _ s] exI[of _ A] exI[of _ s'] exI[of _ c'] exI[of _ A']) simp
qed

text \<open>The largest time to live, in seconds.\<close>

lemma to_s64_small: "- (2 ^ 63) \<le> n \<Longrightarrow> n < 2 ^ 63 \<Longrightarrow> to_s64 n = n"
  by (simp add: to_s64_def signed_of_int signed_take_bit_int_eq_self)

lemma expire_when_overflow:
  assumes "0 \<le> now" "now < 2 ^ 62"
  shows "expire_when now True (2 ^ 63 - 1) = now - 1000"
proof -
  have "to_s64 ((2 ^ 63 - 1) * 1000) = -1000" unfolding to_s64_def by code_simp
  then show ?thesis using assms to_s64_small[of "now - 1000"] unfolding expire_when_def by (simp add: algebra_simps)
qed

text \<open>
  C19. EXPIRE with the largest time to live that the parser of integers accepts deletes the key at
  once: the conversion to milliseconds overflows to -1000, so that the time of expiration lies in the
  past.  The client is told that the expiration was set (\<open>:1\<close>).
\<close>

theorem expire_overflow_deletes:
  assumes "rep s A" "ks_inv A" "i < aD A" "cl_ok env c" "argv c = [cmd, key, dec_int (2 ^ 63 - 1)]" "a_room A i"
    "a_val A (i, key) \<noteq> None" "aE A (i, key) = None" "\<not> loading env" "\<not> masterhost env"
    "\<forall>n \<ge> aT A. mstime_at env (aT A) \<le> mstime_at env n" "0 \<le> mstime_at env (aT A)" "mstime_at env (aT A) < 2 ^ 62"
  shows "\<exists>s' c' A'. expireCommand env s i c = Some (s', c') \<and> rep s' A' \<and> ks_inv A' \<and> a_val A' = (a_val A)((i, key) := None) \<and>
    replied env (c\<lparr>argv := [''DEL'', key]\<rparr>) shared_cone c'"
proof -
  let ?A = "A\<lparr>aT := aT A + 1\<rparr>" and ?now = "mstime_at env (aT A)"
  from mstime_spec[OF assms(1), of env] obtain s1 where s1: "mstime env s = (s1, ?now)" "rep s1 ?A" by blast
  have A: "ks_inv ?A" "i < aD ?A" "a_room ?A i" using assms(2,3,6) by (simp_all add: a_room_def)
  have g: "getLongLongFromObject (Some (ENC_RAW (dec_int (2 ^ 63 - 1)))) = Some (2 ^ 63 - 1)" by (rule getLongLong_dec_int) simp_all
  from expireGenericCommand_spec[OF s1(2) A(1,2) assms(4,5) A(3) g, of ?now True] obtain s' c' A' t deleted where
    r: "expireCommand env s i c = Some (s', c')" "rep s' A'" "ks_inv A'" "replied env (if deleted then c\<lparr>argv := [''DEL'', key]\<rparr> else c) t c'"
    "expire_result env (i, key) (?now - 1000) ?A A' t deleted" unfolding expireCommand_def s1(1) expire_when_overflow[OF assms(12,13)] by auto
  have e: "fst (a_expire env (i, key) ?A) = ?A" using assms(8) by (simp add: a_expire_def a_when_def)
  have "?now - 1000 \<le> mstime_at env (aT A + 1)" using assms(11) by (smt (verit) le_add1)
  then have "a_val A' = (a_val A)((i, key) := None) \<and> t = shared_cone \<and> deleted"
    using r(5) assms(7,9,10) unfolding expire_result_def e by simp
  then show ?thesis using r(1-4) by auto
qed

theorem expire_overflow_deletes_witness:
  "\<exists>s A s' c' A'. rep s A \<and> expireCommand idle_env s 0 (new_client\<lparr>argv := [''expire'', ''k'', dec_int (2 ^ 63 - 1)]\<rparr>) = Some (s', c') \<and> rep s' A' \<and>
    a_val A (0, ''k'') = Some (A_other TY_STRING) \<and> a_val A' (0, ''k'') = None"
proof -
  obtain s A where k: "rep s A" "ks_inv A" "aD A = 2" "a_val A = [(0, ''k'') \<mapsto> A_other TY_STRING]" "aE A = Map.empty" "\<forall>i. a_room A i" by (rule one_key)
  let ?c = "new_client\<lparr>argv := [''expire'', ''k'', dec_int (2 ^ 63 - 1)]\<rparr>"
  have "0 < aD A" "argv ?c = [''expire'', ''k'', dec_int (2 ^ 63 - 1)]" "a_room A 0" "a_val A (0, ''k'') \<noteq> None" "aE A (0, ''k'') = None" using k by simp_all
  from expire_overflow_deletes[OF k(1,2) this(1) idle_client this(2-5)] obtain s' c' A' where
    "expireCommand idle_env s 0 ?c = Some (s', c')" "rep s' A'" "a_val A' = (a_val A)((0, ''k'') := None)" by auto
  then show ?thesis using k(1,4) by (intro exI[of _ s] exI[of _ A] exI[of _ s'] exI[of _ c'] exI[of _ A']) simp
qed

text \<open>MOVE takes the value to the other database but not its expiration, which is lost.\<close>

lemma move_drops_expire:
  assumes "rep s A" "ks_inv A" "src < aD A" "cl_ok env c" "argv c = [cmd, key, arg]" "\<And>i. a_room A i" "move_target s arg = Some dst" "src \<noteq> dst"
    "\<not> a_gone env (src, key) A" "a_val A (src, key) = Some v" "a_val A (dst, key) = None"
  shows "\<exists>s' c' A'. moveCommand env s src c = Some (s', c') \<and> rep s' A' \<and> ks_inv A' \<and>
    a_val A' = (a_val A)((dst, key) \<mapsto> v, (src, key) := None) \<and> aE A' (dst, key) = None \<and> replied env c shared_cone c'"
proof -
  let ?B = "fst (a_expire env (src, key) A)" and ?C = "fst (a_expire env (dst, key) (fst (a_expire env (src, key) A)))"
  have e: "a_val ?B = a_val A" using a_val_expire[OF ks_inv_ref[OF assms(2)], of env "(src, key)"] assms(9) by simp
  have c: "a_val ?C (dst, key) = None"
    using a_val_expire(1)[OF ks_inv_ref[OF ks_inv_expire[OF assms(2)]], of env "(dst, key)" env "(src, key)"] e assms(11) by simp
  from moveCommand_spec[OF assms(1-6)] obtain s' c' A' t where
    r: "moveCommand env s src c = Some (s', c')" "rep s' A'" "ks_inv A'" "replied env c t c'" "move_result env src (Some dst) key A A' t"
    unfolding assms(7) by blast
  have "a_val A' = (a_val A)((dst, key) := a_val A (src, key), (src, key) := None) \<and> aE A' (dst, key) = None \<and> t = shared_cone"
    using r(5) assms(8,10) c unfolding move_result_def option.case Let_def e by auto
  then show ?thesis using r(1-4) assms(10) by auto
qed

end
