(* ===== verification/SetCmd.thy ===== *)
theory SetCmd
  imports Db
begin

text \<open>
  The commands on sets (\<open>src/redis/src/t_set.c\<close>) over the key space.  A variable that points to a set
  is the address of its object, so that two names of one set are seen as such.

  A loop over a set whose body does not change this set is modelled with the list of its elements,
  in the order of the iteration (\<open>set_elements\<close>).  \<open>qsort\<close> of the C library is a parameter: only that
  it permutes its argument is used.
\<close>

subsection \<open>Sets in the store\<close>

definition get_set :: "redisServer \<Rightarrow> nat \<Rightarrow> set_obj option" where
  "get_set s a = do { x \<leftarrow> objs s a; case oval x of V_set so \<Rightarrow> Some so | V_other _ \<Rightarrow> None }"

definition put_set :: "redisServer \<Rightarrow> nat \<Rightarrow> set_obj \<Rightarrow> redisServer option" where
  "put_set s a so = do { x \<leftarrow> objs s a; Some (s\<lparr>objs := (objs s)(a \<mapsto> x\<lparr>oval := V_set so\<rparr>)\<rparr>) }"

definition heap_add :: "srv_env \<Rightarrow> redisServer \<Rightarrow> nat \<Rightarrow> robj \<Rightarrow> (redisServer \<times> bool) option" where
  "heap_add env s a e =
     do { so \<leftarrow> get_set s a; (so, ok) \<leftarrow> setTypeAdd (set_env.truncate env) so e; s \<leftarrow> put_set s a so; Some (s, ok) }"

definition heap_rem :: "srv_env \<Rightarrow> redisServer \<Rightarrow> nat \<Rightarrow> robj \<Rightarrow> (redisServer \<times> bool) option" where
  "heap_rem env s a e =
     do { so \<leftarrow> get_set s a; (so, ok) \<leftarrow> setTypeRemove (set_env.truncate env) so e; s \<leftarrow> put_set s a so; Some (s, ok) }"

definition heap_mem :: "redisServer \<Rightarrow> nat \<Rightarrow> robj \<Rightarrow> (redisServer \<times> bool) option" where
  "heap_mem s a e =
     do { so \<leftarrow> get_set s a; (so, ok) \<leftarrow> setTypeIsMember so e; s \<leftarrow> put_set s a so; Some (s, ok) }"

definition heap_elements :: "redisServer \<Rightarrow> nat \<Rightarrow> (redisServer \<times> set_elem list) option" where
  "heap_elements s a =
     do { so \<leftarrow> get_set s a; (so, els) \<leftarrow> set_elements 0 0 so; s \<leftarrow> put_set s a so; Some (s, els) }"

definition heap_size :: "redisServer \<Rightarrow> nat \<Rightarrow> nat option" where
  "heap_size s a = do { so \<leftarrow> get_set s a; Some (setTypeSize so) }"

text \<open>\<open>True\<close>: the object is not a set, and the client has the error.\<close>

definition checkType :: "srv_env \<Rightarrow> redisServer \<Rightarrow> redisClient \<Rightarrow> nat \<Rightarrow> (redisClient \<times> bool) option" where
  "checkType env s c a =
     do { x \<leftarrow> objs s a;
          case oval x of
            V_set _ \<Rightarrow> Some (c, False)
          | V_other _ \<Rightarrow> do { c \<leftarrow> reply_shared env c shared_wrongtypeerr; Some (c, True) } }"

definition encode_arg :: "srv_env \<Rightarrow> string \<Rightarrow> robj" where
  "encode_arg env v = tryObjectEncoding (share_ints env) (ENC_RAW v)"

subsection \<open>Elements\<close>

fun sadd_loop :: "srv_env \<Rightarrow> redisServer \<Rightarrow> nat \<Rightarrow> string list \<Rightarrow> nat \<Rightarrow> (redisServer \<times> nat) option" where
  "sadd_loop env s a [] added = Some (s, added)"
| "sadd_loop env s a (v # vs) added =
     do { (s, ok) \<leftarrow> heap_add env s a (encode_arg env v);
          sadd_loop env s a vs (if ok then added + 1 else added) }"

definition sadd_found :: "srv_env \<Rightarrow> redisServer \<Rightarrow> nat \<Rightarrow> redisClient \<Rightarrow> string \<Rightarrow> nat \<Rightarrow> (redisServer \<times> redisClient) option" where
  "sadd_found env s i c key a =
     do { (s, added) \<leftarrow> sadd_loop env s a (drop 2 (argv c)) 0;
          let s = (if added \<noteq> 0 then note_event (signalModifiedKey s i key) (Notify REDIS_NOTIFY_SET ''sadd'' key i) else s);
          c \<leftarrow> reply_int env c (int added);
          Some (s\<lparr>dirty := dirty s + int added\<rparr>, c) }"

definition saddCommand :: "srv_env \<Rightarrow> redisServer \<Rightarrow> nat \<Rightarrow> redisClient \<Rightarrow> (redisServer \<times> redisClient) option" where
  "saddCommand env s i c =
     do { key \<leftarrow> arr_get (argv c) 1;
          (s, a) \<leftarrow> lookupKeyWrite env s i key;
          case a of
            None \<Rightarrow>
              do { v \<leftarrow> arr_get (argv c) 2;
                   let (s, a) = createObject env s (V_set (setTypeCreate (set_env.truncate env) (ENC_RAW v)));
                   s \<leftarrow> dbAdd env s i key a;
                   sadd_found env s i c key a }
          | Some a \<Rightarrow>
              do { (c, bad) \<leftarrow> checkType env s c a;
                   if bad then Some (s, c) else sadd_found env s i c key a } }"

text \<open>The loop of SREM: the count and whether the key was removed, after which the loop ends.\<close>

fun srem_loop :: "srv_env \<Rightarrow> redisServer \<Rightarrow> nat \<Rightarrow> string \<Rightarrow> nat \<Rightarrow> string list \<Rightarrow> nat \<Rightarrow> (redisServer \<times> nat \<times> bool) option" where
  "srem_loop env s i key a [] deleted = Some (s, deleted, False)"
| "srem_loop env s i key a (v # vs) deleted =
     do { (s, ok) \<leftarrow> heap_rem env s a (ENC_RAW v);
          if ok
          then do { n \<leftarrow> heap_size s a;
                    if n = 0 then do { (s, _) \<leftarrow> dbDelete s i key; Some (s, deleted + 1, True) }
                    else srem_loop env s i key a vs (deleted + 1) }
          else srem_loop env s i key a vs deleted }"

definition srem_found :: "srv_env \<Rightarrow> redisServer \<Rightarrow> nat \<Rightarrow> redisClient \<Rightarrow> string \<Rightarrow> nat \<Rightarrow> (redisServer \<times> redisClient) option" where
  "srem_found env s i c key a =
     do { (s, deleted, keyremoved) \<leftarrow> srem_loop env s i key a (drop 2 (argv c)) 0;
          let s = (if deleted \<noteq> 0
                   then let s = note_event (signalModifiedKey s i key) (Notify REDIS_NOTIFY_SET ''srem'' key i);
                            s = (if keyremoved then note_event s (Notify REDIS_NOTIFY_GENERIC ''del'' key i) else s)
                        in s\<lparr>dirty := dirty s + int deleted\<rparr>
                   else s);
          c \<leftarrow> reply_int env c (int deleted);
          Some (s, c) }"

definition sremCommand :: "srv_env \<Rightarrow> redisServer \<Rightarrow> nat \<Rightarrow> redisClient \<Rightarrow> (redisServer \<times> redisClient) option" where
  "sremCommand env s i c =
     do { key \<leftarrow> arr_get (argv c) 1;
          (s, a) \<leftarrow> lookupKeyWrite env s i key;
          case a of
            None \<Rightarrow> do { c \<leftarrow> reply_shared env c shared_czero; Some (s, c) }
          | Some a \<Rightarrow>
              do { (c, bad) \<leftarrow> checkType env s c a;
                   if bad then Some (s, c) else srem_found env s i c key a } }"

text \<open>The end of SMOVE, after the element has been removed from the source.\<close>

definition smove_add :: "srv_env \<Rightarrow> redisServer \<Rightarrow> nat \<Rightarrow> redisClient \<Rightarrow> string \<Rightarrow> string \<Rightarrow> nat \<Rightarrow> nat option \<Rightarrow> robj \<Rightarrow> (redisServer \<times> redisClient) option" where
  "smove_add env s i c src dst a b ele =
     do { let s = note_event s (Notify REDIS_NOTIFY_SET ''srem'' src i);
          n \<leftarrow> heap_size s a;
          s \<leftarrow> (if n = 0
               then do { (s, _) \<leftarrow> dbDelete s i src; Some (note_event s (Notify REDIS_NOTIFY_GENERIC ''del'' src i)) }
               else Some s);
          let s = signalModifiedKey (signalModifiedKey s i src) i dst;
          let s = s\<lparr>dirty := dirty s + 1\<rparr>;
          (s, b) \<leftarrow> (case b of
                       Some b \<Rightarrow> Some (s, b)
                     | None \<Rightarrow> do { let (s, b) = createObject env s (V_set (setTypeCreate (set_env.truncate env) ele));
                                   s \<leftarrow> dbAdd env s i dst b;
                                   Some (s, b) });
          (s, ok) \<leftarrow> heap_add env s b ele;
          let s = (if ok then note_event (s\<lparr>dirty := dirty s + 1\<rparr>) (Notify REDIS_NOTIFY_SET ''sadd'' dst i) else s);
          c \<leftarrow> reply_shared env c shared_cone;
          Some (s, c) }"

definition smoveCommand :: "srv_env \<Rightarrow> redisServer \<Rightarrow> nat \<Rightarrow> redisClient \<Rightarrow> (redisServer \<times> redisClient) option" where
  "smoveCommand env s i c =
     do { src \<leftarrow> arr_get (argv c) 1;
          dst \<leftarrow> arr_get (argv c) 2;
          v \<leftarrow> arr_get (argv c) 3;
          (s, srcset) \<leftarrow> lookupKeyWrite env s i src;
          (s, dstset) \<leftarrow> lookupKeyWrite env s i dst;
          let ele = encode_arg env v;
          case srcset of
            None \<Rightarrow> do { c \<leftarrow> reply_shared env c shared_czero; Some (s, c) }
          | Some a \<Rightarrow>
              do { (c, bad) \<leftarrow> checkType env s c a;
                   if bad then Some (s, c)
                   else do { (c, bad) \<leftarrow> (case dstset of None \<Rightarrow> Some (c, False) | Some b \<Rightarrow> checkType env s c b);
                             if bad then Some (s, c)
                             else if srcset = dstset then do { c \<leftarrow> reply_shared env c shared_cone; Some (s, c) }
                             else do { (s, ok) \<leftarrow> heap_rem env s a ele;
                                       if \<not> ok then do { c \<leftarrow> reply_shared env c shared_czero; Some (s, c) }
                                       else smove_add env s i c src dst a dstset ele } } } }"

definition sismemberCommand :: "srv_env \<Rightarrow> redisServer \<Rightarrow> nat \<Rightarrow> redisClient \<Rightarrow> (redisServer \<times> redisClient) option" where
  "sismemberCommand env s i c =
     do { key \<leftarrow> arr_get (argv c) 1;
          v \<leftarrow> arr_get (argv c) 2;
          (s, a) \<leftarrow> lookupKeyRead env s i key;
          case a of
            None \<Rightarrow> do { c \<leftarrow> reply_shared env c shared_czero; Some (s, c) }
          | Some a \<Rightarrow>
              do { (c, bad) \<leftarrow> checkType env s c a;
                   if bad then Some (s, c)
                   else do { (s, ok) \<leftarrow> heap_mem s a (encode_arg env v);
                             c \<leftarrow> reply_shared env c (if ok then shared_cone else shared_czero);
                             Some (s, c) } } }"

definition scardCommand :: "srv_env \<Rightarrow> redisServer \<Rightarrow> nat \<Rightarrow> redisClient \<Rightarrow> (redisServer \<times> redisClient) option" where
  "scardCommand env s i c =
     do { key \<leftarrow> arr_get (argv c) 1;
          (s, a) \<leftarrow> lookupKeyRead env s i key;
          case a of
            None \<Rightarrow> do { c \<leftarrow> reply_shared env c shared_czero; Some (s, c) }
          | Some a \<Rightarrow>
              do { (c, bad) \<leftarrow> checkType env s c a;
                   if bad then Some (s, c)
                   else do { n \<leftarrow> heap_size s a; c \<leftarrow> reply_int env c (int n); Some (s, c) } } }"

subsection \<open>Storing a result\<close>

text \<open>The end of the STORE variants: \<open>dstset\<close> is the address of the result.\<close>

definition store_result ::
    "srv_env \<Rightarrow> redisServer \<Rightarrow> nat \<Rightarrow> redisClient \<Rightarrow> string \<Rightarrow> nat \<Rightarrow> string \<Rightarrow> (redisServer \<times> redisClient) option" where
  "store_result env s i c dstkey dstset event =
     do { (s, deleted) \<leftarrow> dbDelete s i dstkey;
          n \<leftarrow> heap_size s dstset;
          (s, c) \<leftarrow> (if n > 0
                    then do { s \<leftarrow> dbAdd env s i dstkey dstset;
                              c \<leftarrow> reply_int env c (int n);
                              Some (note_event s (Notify REDIS_NOTIFY_SET event dstkey i), c) }
                    else do { s \<leftarrow> decrRefCount s dstset;
                              c \<leftarrow> reply_shared env c shared_czero;
                              Some (if deleted then note_event s (Notify REDIS_NOTIFY_GENERIC ''del'' dstkey i) else s, c) });
          let s = signalModifiedKey s i dstkey;
          Some (s\<lparr>dirty := dirty s + 1\<rparr>, c) }"

subsection \<open>Intersection\<close>

text \<open>\<open>long\<close> differences of sizes, converted to \<open>int\<close>.\<close>

definition to_s32 :: "int \<Rightarrow> int" where
  "to_s32 n = sint (word_of_int n :: u32)"

definition size_or_0 :: "redisServer \<Rightarrow> nat option \<Rightarrow> int" where
  "size_or_0 s a = (case a of None \<Rightarrow> 0 | Some a \<Rightarrow> (case heap_size s a of None \<Rightarrow> 0 | Some n \<Rightarrow> int n))"

definition qsortCompareSetsByCardinality :: "redisServer \<Rightarrow> nat option \<Rightarrow> nat option \<Rightarrow> int" where
  "qsortCompareSetsByCardinality s s1 s2 = to_s32 (size_or_0 s s1 - size_or_0 s s2)"

definition qsortCompareSetsByRevCardinality :: "redisServer \<Rightarrow> nat option \<Rightarrow> nat option \<Rightarrow> int" where
  "qsortCompareSetsByRevCardinality s s1 s2 = to_s32 (size_or_0 s s2 - size_or_0 s s1)"

datatype lookup_res = Missing | WrongType | Sets "nat option list"

fun inter_sets :: "srv_env \<Rightarrow> redisServer \<Rightarrow> nat \<Rightarrow> bool \<Rightarrow> string list \<Rightarrow> nat option list \<Rightarrow> (redisServer \<times> lookup_res) option" where
  "inter_sets env s i store [] sets = Some (s, Sets sets)"
| "inter_sets env s i store (key # keys) sets =
     do { (s, a) \<leftarrow> (if store then lookupKeyWrite env s i key else lookupKeyRead env s i key);
          case a of
            None \<Rightarrow> Some (s, Missing)
          | Some a \<Rightarrow> do { x \<leftarrow> objs s a;
                          case oval x of
                            V_other _ \<Rightarrow> Some (s, WrongType)
                          | V_set _ \<Rightarrow> inter_sets env s i store keys (sets @ [Some a]) } }"

text \<open>The test of one element against one set, with the short cuts for integers.\<close>

definition inter_member :: "srv_env \<Rightarrow> redisServer \<Rightarrow> set_elem \<Rightarrow> nat \<Rightarrow> (redisServer \<times> bool) option" where
  "inter_member env s el a =
     do { so \<leftarrow> get_set s a;
          case (el, so) of
            (El_int n, ENC_INTSET is) \<Rightarrow> do { found \<leftarrow> intsetFind is n; Some (s, found) }
          | (El_int n, ENC_HT _) \<Rightarrow> do { e \<leftarrow> createStringObjectFromLongLong (char_junk env) (word_of_int n); heap_mem s a e }
          | (El_obj (ENC_INT n), ENC_INTSET is) \<Rightarrow>
              do { found \<leftarrow> intsetFind is n;
                   if \<not> found then Some (s, False) else heap_mem s a (ENC_INT n) }
          | (El_obj e, _) \<Rightarrow> heap_mem s a e }"

fun inter_test :: "srv_env \<Rightarrow> redisServer \<Rightarrow> nat \<Rightarrow> set_elem \<Rightarrow> nat list \<Rightarrow> (redisServer \<times> bool) option" where
  "inter_test env s a0 el [] = Some (s, True)"
| "inter_test env s a0 el (a # as) =
     (if a = a0 then inter_test env s a0 el as
      else do { (s, ok) \<leftarrow> inter_member env s el a;
                if ok then inter_test env s a0 el as else Some (s, False) })"

definition reply_elem :: "srv_env \<Rightarrow> redisClient \<Rightarrow> set_elem \<Rightarrow> redisClient option" where
  "reply_elem env c el =
     (case el of
        El_obj e \<Rightarrow> addReplyBulk (netenv env) (char_junk env) c e
      | El_int n \<Rightarrow> addReplyBulkLongLong (netenv env) (char_junk env) c (word_of_int n))"

fun inter_loop ::
    "srv_env \<Rightarrow> redisServer \<Rightarrow> redisClient \<Rightarrow> nat \<Rightarrow> nat list \<Rightarrow> nat option \<Rightarrow> nat \<Rightarrow> set_elem list \<Rightarrow> (redisServer \<times> redisClient \<times> nat) option" where
  "inter_loop env s c a0 as dstset cardinality [] = Some (s, c, cardinality)"
| "inter_loop env s c a0 as dstset cardinality (el # els) =
     do { (s, ok) \<leftarrow> inter_test env s a0 el as;
          if \<not> ok then inter_loop env s c a0 as dstset cardinality els
          else (case dstset of
                  None \<Rightarrow> do { c \<leftarrow> reply_elem env c el; inter_loop env s c a0 as dstset (cardinality + 1) els }
                | Some d \<Rightarrow> do { e \<leftarrow> elem_obj (set_env.truncate env) el;
                                (s, _) \<leftarrow> heap_add env s d e;
                                inter_loop env s c a0 as dstset cardinality els }) }"

definition sinter_missing :: "srv_env \<Rightarrow> redisServer \<Rightarrow> nat \<Rightarrow> redisClient \<Rightarrow> string option \<Rightarrow> (redisServer \<times> redisClient) option" where
  "sinter_missing env s i c dstkey =
     (case dstkey of
        None \<Rightarrow> do { c \<leftarrow> reply_shared env c shared_emptymultibulk; Some (s, c) }
      | Some dstkey \<Rightarrow>
          do { (s, deleted) \<leftarrow> dbDelete s i dstkey;
               let s = (if deleted then (let s = signalModifiedKey s i dstkey in s\<lparr>dirty := dirty s + 1\<rparr>) else s);
               c \<leftarrow> reply_shared env c shared_czero;
               Some (s, c) })"

definition sinter_sets :: "srv_env \<Rightarrow> redisServer \<Rightarrow> nat \<Rightarrow> redisClient \<Rightarrow> nat list \<Rightarrow> string option \<Rightarrow> (redisServer \<times> redisClient) option" where
  "sinter_sets env s i c sets dstkey =
     (case sets of
        [] \<Rightarrow> None
      | a0 # as \<Rightarrow>
          (case dstkey of
             None \<Rightarrow>
               do { let (c, replylen) = addDeferredMultiBulkLength (netenv env) c;
                    (s, els) \<leftarrow> heap_elements s a0;
                    (s, c, cardinality) \<leftarrow> inter_loop env s c a0 as None 0 els;
                    c \<leftarrow> setDeferredMultiBulkLength (netenv env) c replylen (int cardinality);
                    Some (s, c) }
           | Some dstkey \<Rightarrow>
               do { let (s, d) = createObject env s (V_set createIntsetObject);
                    (s, els) \<leftarrow> heap_elements s a0;
                    (s, c, _) \<leftarrow> inter_loop env s c a0 as (Some d) 0 els;
                    store_result env s i c dstkey d ''sinterstore'' }))"

definition sinterGenericCommand :: "srv_env \<Rightarrow> redisServer \<Rightarrow> nat \<Rightarrow> redisClient \<Rightarrow> string list \<Rightarrow> string option \<Rightarrow> (redisServer \<times> redisClient) option" where
  "sinterGenericCommand env s i c setkeys dstkey =
     do { (s, r) \<leftarrow> inter_sets env s i (dstkey \<noteq> None) setkeys [];
          case r of
            Missing \<Rightarrow> sinter_missing env s i c dstkey
          | WrongType \<Rightarrow> do { c \<leftarrow> reply_shared env c shared_wrongtypeerr; Some (s, c) }
          | Sets sets \<Rightarrow> sinter_sets env s i c (map the (qsort env (qsortCompareSetsByCardinality s) sets)) dstkey }"

definition sinterCommand :: "srv_env \<Rightarrow> redisServer \<Rightarrow> nat \<Rightarrow> redisClient \<Rightarrow> (redisServer \<times> redisClient) option" where
  "sinterCommand env s i c = sinterGenericCommand env s i c (tl (argv c)) None"

definition sinterstoreCommand :: "srv_env \<Rightarrow> redisServer \<Rightarrow> nat \<Rightarrow> redisClient \<Rightarrow> (redisServer \<times> redisClient) option" where
  "sinterstoreCommand env s i c = do { dst \<leftarrow> arr_get (argv c) 1; sinterGenericCommand env s i c (drop 2 (argv c)) (Some dst) }"

subsection \<open>Union and difference\<close>

datatype set_op = REDIS_OP_UNION | REDIS_OP_DIFF

fun union_sets :: "srv_env \<Rightarrow> redisServer \<Rightarrow> nat \<Rightarrow> bool \<Rightarrow> string list \<Rightarrow> nat option list \<Rightarrow> (redisServer \<times> lookup_res) option" where
  "union_sets env s i store [] sets = Some (s, Sets sets)"
| "union_sets env s i store (key # keys) sets =
     do { (s, a) \<leftarrow> (if store then lookupKeyWrite env s i key else lookupKeyRead env s i key);
          case a of
            None \<Rightarrow> union_sets env s i store keys (sets @ [None])
          | Some a \<Rightarrow> do { x \<leftarrow> objs s a;
                          case oval x of
                            V_other _ \<Rightarrow> Some (s, WrongType)
                          | V_set _ \<Rightarrow> union_sets env s i store keys (sets @ [Some a]) } }"

text \<open>The choice of the algorithm: the work is counted over the sets that exist.\<close>

definition diff_algo :: "redisServer \<Rightarrow> nat \<Rightarrow> nat option list \<Rightarrow> nat" where
  "diff_algo s a0 sets =
     (let algo_one_work = (\<Sum>a \<leftarrow> filter (\<lambda>a. a \<noteq> None) sets. size_or_0 s (Some a0));
          algo_two_work = (\<Sum>a \<leftarrow> filter (\<lambda>a. a \<noteq> None) sets. size_or_0 s a)
      in if algo_one_work div 2 \<le> algo_two_work then 1 else 2)"

text \<open>Adding or removing the elements of a set; the second component is the cardinality.\<close>

fun add_elems :: "srv_env \<Rightarrow> redisServer \<Rightarrow> nat \<Rightarrow> int \<Rightarrow> set_elem list \<Rightarrow> (redisServer \<times> int) option" where
  "add_elems env s d cardinality [] = Some (s, cardinality)"
| "add_elems env s d cardinality (el # els) =
     do { e \<leftarrow> elem_obj (set_env.truncate env) el;
          (s, ok) \<leftarrow> heap_add env s d e;
          add_elems env s d (if ok then cardinality + 1 else cardinality) els }"

fun rem_elems :: "srv_env \<Rightarrow> redisServer \<Rightarrow> nat \<Rightarrow> int \<Rightarrow> set_elem list \<Rightarrow> (redisServer \<times> int) option" where
  "rem_elems env s d cardinality [] = Some (s, cardinality)"
| "rem_elems env s d cardinality (el # els) =
     do { e \<leftarrow> elem_obj (set_env.truncate env) el;
          (s, ok) \<leftarrow> heap_rem env s d e;
          rem_elems env s d (if ok then cardinality - 1 else cardinality) els }"

fun union_loop :: "srv_env \<Rightarrow> redisServer \<Rightarrow> nat \<Rightarrow> int \<Rightarrow> nat option list \<Rightarrow> (redisServer \<times> int) option" where
  "union_loop env s d cardinality [] = Some (s, cardinality)"
| "union_loop env s d cardinality (None # sets) = union_loop env s d cardinality sets"
| "union_loop env s d cardinality (Some a # sets) =
     do { (s, els) \<leftarrow> heap_elements s a;
          (s, cardinality) \<leftarrow> add_elems env s d cardinality els;
          union_loop env s d cardinality sets }"

text \<open>Algorithm 1: \<open>True\<close> when no other set has the element.\<close>

fun diff_test :: "redisServer \<Rightarrow> nat \<Rightarrow> robj \<Rightarrow> nat option list \<Rightarrow> (redisServer \<times> bool) option" where
  "diff_test s a0 ele [] = Some (s, True)"
| "diff_test s a0 ele (None # sets) = diff_test s a0 ele sets"
| "diff_test s a0 ele (Some a # sets) =
     (if a = a0 then Some (s, False)
      else do { (s, ok) \<leftarrow> heap_mem s a ele;
                if ok then Some (s, False) else diff_test s a0 ele sets })"

fun diff1_loop :: "srv_env \<Rightarrow> redisServer \<Rightarrow> nat \<Rightarrow> nat \<Rightarrow> nat option list \<Rightarrow> int \<Rightarrow> set_elem list \<Rightarrow> (redisServer \<times> int) option" where
  "diff1_loop env s d a0 sets cardinality [] = Some (s, cardinality)"
| "diff1_loop env s d a0 sets cardinality (el # els) =
     do { e \<leftarrow> elem_obj (set_env.truncate env) el;
          (s, ok) \<leftarrow> diff_test s a0 e sets;
          if ok
          then do { (s, _) \<leftarrow> heap_add env s d e; diff1_loop env s d a0 sets (cardinality + 1) els }
          else diff1_loop env s d a0 sets cardinality els }"

text \<open>Algorithm 2, from the second set on.\<close>

fun diff2_loop :: "srv_env \<Rightarrow> redisServer \<Rightarrow> nat \<Rightarrow> int \<Rightarrow> nat option list \<Rightarrow> (redisServer \<times> int) option" where
  "diff2_loop env s d cardinality [] = Some (s, cardinality)"
| "diff2_loop env s d cardinality (None # sets) = diff2_loop env s d cardinality sets"
| "diff2_loop env s d cardinality (Some a # sets) =
     do { (s, els) \<leftarrow> heap_elements s a;
          (s, cardinality) \<leftarrow> rem_elems env s d cardinality els;
          if cardinality = 0 then Some (s, cardinality) else diff2_loop env s d cardinality sets }"

definition diff2 :: "srv_env \<Rightarrow> redisServer \<Rightarrow> nat \<Rightarrow> nat \<Rightarrow> nat option list \<Rightarrow> (redisServer \<times> int) option" where
  "diff2 env s d a0 sets =
     do { (s, els) \<leftarrow> heap_elements s a0;
          (s, cardinality) \<leftarrow> add_elems env s d 0 els;
          if cardinality = 0 then Some (s, cardinality) else diff2_loop env s d cardinality sets }"

definition diff_sets :: "srv_env \<Rightarrow> redisServer \<Rightarrow> nat \<Rightarrow> nat option list \<Rightarrow> (redisServer \<times> int) option" where
  "diff_sets env s d sets =
     (case sets of
        Some a0 # rest \<Rightarrow>
          if diff_algo s a0 sets = 1
          then do { let rest = (if rest \<noteq> [] then qsort env (qsortCompareSetsByRevCardinality s) rest else rest);
                    (s, els) \<leftarrow> heap_elements s a0;
                    diff1_loop env s d a0 rest 0 els }
          else diff2 env s d a0 rest
      | _ \<Rightarrow> Some (s, 0))"

fun reply_elems :: "srv_env \<Rightarrow> redisClient \<Rightarrow> set_elem list \<Rightarrow> redisClient option" where
  "reply_elems env c [] = Some c"
| "reply_elems env c (el # els) =
     do { e \<leftarrow> elem_obj (set_env.truncate env) el;
          c \<leftarrow> addReplyBulk (netenv env) (char_junk env) c e;
          reply_elems env c els }"

definition sunionDiffGenericCommand ::
    "srv_env \<Rightarrow> redisServer \<Rightarrow> nat \<Rightarrow> redisClient \<Rightarrow> string list \<Rightarrow> string option \<Rightarrow> set_op \<Rightarrow> (redisServer \<times> redisClient) option" where
  "sunionDiffGenericCommand env s i c setkeys dstkey op =
     do { (s, r) \<leftarrow> union_sets env s i (dstkey \<noteq> None) setkeys [];
          case r of
            Sets sets \<Rightarrow>
              do { let (s, d) = createObject env s (V_set createIntsetObject);
                   (s, cardinality) \<leftarrow> (case op of REDIS_OP_UNION \<Rightarrow> union_loop env s d 0 sets | REDIS_OP_DIFF \<Rightarrow> diff_sets env s d sets);
                   case dstkey of
                     None \<Rightarrow>
                       do { c \<leftarrow> addReplyMultiBulkLen (netenv env) (char_junk env) c (word_of_int cardinality);
                            (s, els) \<leftarrow> heap_elements s d;
                            c \<leftarrow> reply_elems env c els;
                            s \<leftarrow> decrRefCount s d;
                            Some (s, c) }
                   | Some dstkey \<Rightarrow>
                       store_result env s i c dstkey d (if op = REDIS_OP_UNION then ''sunionstore'' else ''sdiffstore'') }
          | _ \<Rightarrow> do { c \<leftarrow> reply_shared env c shared_wrongtypeerr; Some (s, c) } }"

definition sunionCommand :: "srv_env \<Rightarrow> redisServer \<Rightarrow> nat \<Rightarrow> redisClient \<Rightarrow> (redisServer \<times> redisClient) option" where
  "sunionCommand env s i c = sunionDiffGenericCommand env s i c (tl (argv c)) None REDIS_OP_UNION"

definition sunionstoreCommand :: "srv_env \<Rightarrow> redisServer \<Rightarrow> nat \<Rightarrow> redisClient \<Rightarrow> (redisServer \<times> redisClient) option" where
  "sunionstoreCommand env s i c =
     do { dst \<leftarrow> arr_get (argv c) 1; sunionDiffGenericCommand env s i c (drop 2 (argv c)) (Some dst) REDIS_OP_UNION }"

definition sdiffCommand :: "srv_env \<Rightarrow> redisServer \<Rightarrow> nat \<Rightarrow> redisClient \<Rightarrow> (redisServer \<times> redisClient) option" where
  "sdiffCommand env s i c = sunionDiffGenericCommand env s i c (tl (argv c)) None REDIS_OP_DIFF"

definition sdiffstoreCommand :: "srv_env \<Rightarrow> redisServer \<Rightarrow> nat \<Rightarrow> redisClient \<Rightarrow> (redisServer \<times> redisClient) option" where
  "sdiffstoreCommand env s i c =
     do { dst \<leftarrow> arr_get (argv c) 1; sunionDiffGenericCommand env s i c (drop 2 (argv c)) (Some dst) REDIS_OP_DIFF }"

subsection \<open>Sets in the store, abstractly\<close>

definition set_limit :: nat where
  "set_limit = 2 ^ 29 - 1"

definition a_put :: "nat \<Rightarrow> string set \<Rightarrow> astate \<Rightarrow> astate" where
  "a_put a S A = A\<lparr>aH := (aH A)(a := map_option (\<lambda>(n, _). (n, A_set S)) (aH A a))\<rparr>"

definition a_set :: "astate \<Rightarrow> nat \<Rightarrow> string set" where
  "a_set A a = (case aH A a of Some (_, A_set S) \<Rightarrow> S | _ \<Rightarrow> {})"

definition is_set :: "astate \<Rightarrow> nat \<Rightarrow> bool" where
  "is_set A a \<longleftrightarrow> (\<exists>n S. aH A a = Some (n, A_set S))"

lemma a_put_simps [simp]:
  "aK (a_put a S A) = aK A" "aE (a_put a S A) = aE A" "aN (a_put a S A) = aN A" "aD (a_put a S A) = aD A" "aT (a_put a S A) = aT A"
  "a_put a S (a_put a S' A) = a_put a S A" "a_set (a_put a S A) b = (if b = a \<and> aH A a \<noteq> None then S else a_set A b)"
  by (auto simp: a_put_def a_set_def option.map_comp comp_def split_def split: option.split)

lemma is_set_put [simp]: "is_set A b \<Longrightarrow> is_set (a_put a S A) b"
  by (auto simp: is_set_def a_put_def)

lemma is_setE:
  assumes "is_set A a"
  obtains n where "aH A a = Some (n, A_set (a_set A a))"
  using assms by (auto simp: is_set_def a_set_def)

lemma a_put_same: "is_set A a \<Longrightarrow> a_put a (a_set A a) A = A"
  by (erule is_setE) (simp add: a_put_def fun_upd_idem)

lemma get_set_spec:
  assumes "rep s A" "is_set A a"
  obtains so where "get_set s a = Some so" "set_inv so" "set_strs so = a_set A a"
proof -
  obtain n where "aH A a = Some (n, A_set (a_set A a))" using assms(2) by (rule is_setE)
  with assms(1) obtain x where x: "objs s a = Some x" "aval_of (oval x) = A_set (a_set A a)" by (rule rep_obj)
  obtain so where so: "oval x = V_set so" "set_strs so = a_set A a" using x(2) by (cases "oval x") auto
  have "set_inv so" using assms(1) x(1) so(1) by (auto simp: rep_def srv_ok_def)
  then show thesis using that x(1) so by (simp add: get_set_def)
qed

lemma put_set_spec:
  assumes "rep s A" "is_set A a" "set_inv so"
  shows "\<exists>s'. put_set s a so = Some s' \<and> rep s' (a_put a (set_strs so) A)"
proof -
  obtain n where n: "aH A a = Some (n, A_set (a_set A a))" using assms(2) by (rule is_setE)
  with assms(1) obtain x where x: "objs s a = Some x" "refcount x = n" by (rule rep_obj)
  have l: "a < aN A" using rep_fresh[OF assms(1), of a] n by force
  from rep_obj_upd[OF assms(1) l, of "x\<lparr>oval := V_set so\<rparr>"] assms(3) show ?thesis using x n by (simp add: put_set_def a_put_def)
qed

lemma a_set_finite: "rep s A \<Longrightarrow> finite (a_set A a)"
proof (cases "is_set A a")
  case True
  assume "rep s A"
  from get_set_spec[OF this True] show ?thesis using set_size by metis
next
  case False
  then show ?thesis by (auto simp: is_set_def a_set_def split: option.splits aval.splits)
qed

lemma heap_add_spec:
  assumes "rep s A" "is_set A a" "obj_ok e" "card (a_set A a) < set_limit"
  shows "\<exists>s'. heap_add env s a e = Some (s', obj_str e \<notin> a_set A a) \<and> rep s' (a_put a (insert (obj_str e) (a_set A a)) A)"
proof -
  obtain so where so: "get_set s a = Some so" "set_inv so" "set_strs so = a_set A a" using assms(1,2) by (rule get_set_spec)
  have "setTypeSize so < 2 ^ 29 - 1" using set_size[OF so(2)] so(3) assms(4) by (simp add: set_limit_def)
  from setTypeAdd_spec[OF so(2) assms(3) this, of "set_env.truncate env"] obtain so' where
    a: "setTypeAdd (set_env.truncate env) so e = Some (so', obj_str e \<notin> a_set A a)" "set_inv so'" "set_strs so' = insert (obj_str e) (a_set A a)"
    unfolding so(3) by blast
  from put_set_spec[OF assms(1,2) a(2)] show ?thesis using so(1) a(1,3) by (auto simp: heap_add_def)
qed

lemma heap_rem_spec:
  assumes "rep s A" "is_set A a" "obj_ok e"
  shows "\<exists>s'. heap_rem env s a e = Some (s', obj_str e \<in> a_set A a) \<and> rep s' (a_put a (a_set A a - {obj_str e}) A)"
proof -
  obtain so where so: "get_set s a = Some so" "set_inv so" "set_strs so = a_set A a" using assms(1,2) by (rule get_set_spec)
  from setTypeRemove_spec[OF so(2) assms(3), of "set_env.truncate env"] obtain so' where
    a: "setTypeRemove (set_env.truncate env) so e = Some (so', obj_str e \<in> a_set A a)" "set_inv so'" "set_strs so' = a_set A a - {obj_str e}"
    unfolding so(3) by blast
  from put_set_spec[OF assms(1,2) a(2)] show ?thesis using so(1) a(1,3) by (auto simp: heap_rem_def)
qed

lemma heap_mem_spec:
  assumes "rep s A" "is_set A a" "obj_ok e"
  shows "\<exists>s'. heap_mem s a e = Some (s', obj_str e \<in> a_set A a) \<and> rep s' A"
proof -
  obtain so where so: "get_set s a = Some so" "set_inv so" "set_strs so = a_set A a" using assms(1,2) by (rule get_set_spec)
  from setTypeIsMember_spec[OF so(2) assms(3)] obtain so' where
    a: "setTypeIsMember so e = Some (so', obj_str e \<in> a_set A a)" "set_inv so'" "set_strs so' = a_set A a" unfolding so(3) by blast
  from put_set_spec[OF assms(1,2) a(2)] show ?thesis using so(1) a(1) unfolding a(3) a_put_same[OF assms(2)] by (auto simp: heap_mem_def)
qed

lemma heap_elements_spec:
  assumes "rep s A" "is_set A a"
  shows "\<exists>s' els. heap_elements s a = Some (s', els) \<and> rep s' A \<and> list_all elem_ok els \<and> distinct (map elem_str els) \<and> elem_str ` set els = a_set A a"
proof -
  obtain so where so: "get_set s a = Some so" "set_inv so" "set_strs so = a_set A a" using assms(1,2) by (rule get_set_spec)
  from set_elements_spec[OF so(2), of 0 0] obtain els where e: "set_elements 0 0 so = Some (so, els)" "elements_ok so els" by blast
  from put_set_spec[OF assms(1,2) so(2)] obtain s' where s': "put_set s a so = Some s'" "rep s' A"
    unfolding so(3) a_put_same[OF assms(2)] by blast
  show ?thesis using so(1,3) e s' by (simp add: heap_elements_def elements_ok_def)
qed

lemma heap_size_spec: "rep s A \<Longrightarrow> is_set A a \<Longrightarrow> heap_size s a = Some (card (a_set A a))"
  using get_set_spec[of s A a] set_size by (metis (no_types, lifting) heap_size_def Option.bind.bind_lunit)

lemma checkType_set: "rep s A \<Longrightarrow> is_set A a \<Longrightarrow> checkType env s c a = Some (c, False)"
proof -
  assume "rep s A" "is_set A a"
  then obtain so where "get_set s a = Some so" by (rule get_set_spec)
  then show ?thesis by (auto simp: checkType_def get_set_def split: bind_splits value_obj.splits)
qed

lemma checkType_other:
  assumes "rep s A" "aH A a = Some (n, v)" "\<not> is_set A a" "cl_ok env c"
  shows "\<exists>c'. checkType env s c a = Some (c', True) \<and> replied env c shared_wrongtypeerr c'"
proof -
  obtain x where x: "objs s a = Some x" "refcount x = n" "aval_of (oval x) = v" using assms(1,2) by (rule rep_obj)
  have "\<exists>t. oval x = V_other t" using x(3) assms(2,3) by (cases "oval x") (auto simp: is_set_def a_set_def)
  then show ?thesis using reply_shared_spec[OF assms(4), of shared_wrongtypeerr] x(1) by (auto simp: checkType_def)
qed

subsection \<open>Loops over elements\<close>

lemma put_grow:
  assumes "is_set A d"
  shows "is_set (a_put d S A) d" "a_set (a_put d S A) d = S"
  using assms is_set_put by (auto elim: is_setE)

lemma add_elems_spec:
  assumes "rep s A" "is_set A d" "list_all elem_ok els" "card (a_set A d \<union> elem_str ` set els) < set_limit"
  shows "\<exists>s'. add_elems env s d k els = Some (s', k + int (card (a_set A d \<union> elem_str ` set els)) - int (card (a_set A d))) \<and>
    rep s' (a_put d (a_set A d \<union> elem_str ` set els) A)"
  using assms
proof (induction els arbitrary: s A k)
  case Nil
  then show ?case using a_put_same by simp
next
  case (Cons el els)
  let ?S = "a_set A d" and ?A = "a_put d (insert (elem_str el) (a_set A d)) A"
  from elem_obj_spec[of el "set_env.truncate env"] Cons.prems(3) obtain e where
    e: "elem_obj (set_env.truncate env) el = Some e" "obj_str e = elem_str el" "obj_ok e" by auto
  have fin: "finite ?S" using Cons.prems(1) by (rule a_set_finite)
  have un: "insert (elem_str el) ?S \<union> elem_str ` set els = ?S \<union> elem_str ` set (el # els)" by auto
  have "card ?S \<le> card (?S \<union> elem_str ` set (el # els))" using fin by (intro card_mono) auto
  then have "card ?S < set_limit" using Cons.prems(4) by linarith
  from heap_add_spec[OF Cons.prems(1,2) e(3) this] obtain s1 where
    s1: "heap_add env s d e = Some (s1, elem_str el \<notin> ?S)" "rep s1 ?A" unfolding e(2) by blast
  note pg = put_grow[OF Cons.prems(2), of "insert (elem_str el) ?S"]
  from Cons.IH[OF s1(2) pg(1), of "if elem_str el \<notin> ?S then k + 1 else k"] Cons.prems(3,4) show ?case
    unfolding pg(2) un using e(1) s1(1) fin by (auto simp: card_insert_if insert_absorb)
qed

lemma rem_elems_spec:
  assumes "rep s A" "is_set A d" "list_all elem_ok els"
  shows "\<exists>s'. rem_elems env s d k els = Some (s', k + int (card (a_set A d - elem_str ` set els)) - int (card (a_set A d))) \<and>
    rep s' (a_put d (a_set A d - elem_str ` set els) A)"
  using assms
proof (induction els arbitrary: s A k)
  case Nil
  then show ?case using a_put_same by simp
next
  case (Cons el els)
  let ?S = "a_set A d" and ?A = "a_put d (a_set A d - {elem_str el}) A"
  from elem_obj_spec[of el "set_env.truncate env"] Cons.prems(3) obtain e where
    e: "elem_obj (set_env.truncate env) el = Some e" "obj_str e = elem_str el" "obj_ok e" by auto
  have fin: "finite ?S" using Cons.prems(1) by (rule a_set_finite)
  have un: "?S - {elem_str el} - elem_str ` set els = ?S - elem_str ` set (el # els)" by auto
  from heap_rem_spec[OF Cons.prems(1,2) e(3)] obtain s1 where
    s1: "heap_rem env s d e = Some (s1, elem_str el \<in> ?S)" "rep s1 ?A" unfolding e(2) by blast
  note pg = put_grow[OF Cons.prems(2), of "?S - {elem_str el}"]
  have c: "int (card (?S - {elem_str el})) = int (card ?S) - (if elem_str el \<in> ?S then 1 else 0)"
    using fin card_Suc_Diff1[OF fin, of "elem_str el"] by auto
  from Cons.IH[OF s1(2) pg(1), of "if elem_str el \<in> ?S then k - 1 else k"] Cons.prems(3) show ?case
    unfolding pg(2) un c using e(1) s1(1) by (auto split: if_splits)
qed

lemma inter_member_spec:
  assumes "rep s A" "is_set A a" "elem_ok el"
  shows "\<exists>s'. inter_member env s el a = Some (s', elem_str el \<in> a_set A a) \<and> rep s' A"
proof -
  obtain so where so: "get_set s a = Some so" "set_inv so" "set_strs so = a_set A a" using assms(1,2) by (rule get_set_spec)
  have ints: "intsetFind is n = Some (dec_int n \<in> a_set A a)" if "so = ENC_INTSET is" for "is" n
  proof -
    have "dec_int n \<in> dec_int ` set (intset_vals is) \<longleftrightarrow> n \<in> set (intset_vals is)" using dec_int_inj by auto
    then show ?thesis using intsetFind_spec[of "is" n] so(2,3) that by simp
  qed
  show ?thesis
  proof (cases el)
    case (El_int n)
    show ?thesis
    proof (cases so)
      case (ENC_HT d)
      from elem_obj_spec[OF assms(3), of "set_env.truncate env"] obtain e where
        e: "createStringObjectFromLongLong (char_junk env) (word_of_int n) = Some e" "obj_str e = elem_str el" "obj_ok e"
        by (auto simp: elem_obj_def El_int set_env.truncate_def)
      from heap_mem_spec[OF assms(1,2) e(3)] show ?thesis using so(1) ENC_HT El_int e(1,2) by (simp add: inter_member_def)
    next
      case (ENC_INTSET "is")
      then show ?thesis using ints[of "is" n] so(1) El_int assms(1) by (simp add: inter_member_def)
    qed
  next
    case (El_obj e)
    from heap_mem_spec[OF assms(1,2), of e] assms(3) obtain s' where m: "heap_mem s a e = Some (s', elem_str el \<in> a_set A a)" "rep s' A"
      by (auto simp: El_obj)
    show ?thesis
    proof (cases "\<exists>n is. e = ENC_INT n \<and> so = ENC_INTSET is")
      case True
      then obtain n "is" where n: "e = ENC_INT n" "so = ENC_INTSET is" by blast
      then show ?thesis using m ints[OF n(2), of n] so(1) El_obj assms(1) by (cases "dec_int n \<in> a_set A a") (auto simp: inter_member_def)
    next
      case False
      then have "inter_member env s el a = heap_mem s a e" using so(1) El_obj by (cases e; cases so) (auto simp: inter_member_def)
      then show ?thesis using m by simp
    qed
  qed
qed

lemma inter_test_spec:
  assumes "rep s A" "list_all (is_set A) as" "elem_ok el"
  shows "\<exists>s'. inter_test env s a0 el as = Some (s', \<forall>a \<in> set as. a = a0 \<or> elem_str el \<in> a_set A a) \<and> rep s' A"
  using assms
proof (induction as arbitrary: s)
  case (Cons a as)
  show ?case
  proof (cases "a = a0")
    case True
    then show ?thesis using Cons.IH[OF Cons.prems(1)] Cons.prems by auto
  next
    case False
    from inter_member_spec[OF Cons.prems(1) _ Cons.prems(3), of a env] Cons.prems(2) obtain s1 where
      s1: "inter_member env s el a = Some (s1, elem_str el \<in> a_set A a)" "rep s1 A" by auto
    then show ?thesis using Cons.IH[OF s1(2)] Cons.prems(2,3) False by (cases "elem_str el \<in> a_set A a") auto
  qed
qed auto

text \<open>The elements that pass the test, the elements of the first set among them.\<close>

lemma inter_loop_store:
  assumes "rep s A" "list_all (is_set A) as" "is_set A d" "d \<notin> set as" "list_all elem_ok els"
    "card (a_set A d \<union> elem_str ` set els) < set_limit"
  shows "\<exists>s'. inter_loop env s c a0 as (Some d) k els = Some (s', c, k) \<and>
    rep s' (a_put d (a_set A d \<union> {x \<in> elem_str ` set els. \<forall>a \<in> set as. a = a0 \<or> x \<in> a_set A a}) A)"
  using assms
proof (induction els arbitrary: s A)
  case Nil
  then show ?case using a_put_same by auto
next
  case (Cons el els)
  let ?P = "\<lambda>x. \<forall>a \<in> set as. a = a0 \<or> x \<in> a_set A a" and ?S = "a_set A d"
  have fin: "finite ?S" using Cons.prems(1) by (rule a_set_finite)
  have el: "elem_ok el" "list_all elem_ok els" using Cons.prems(5) by simp_all
  have sub: "card (T \<union> elem_str ` set els) < set_limit" if "T \<subseteq> insert (elem_str el) ?S" for T
  proof -
    have "card (T \<union> elem_str ` set els) \<le> card (?S \<union> elem_str ` set (el # els))" using fin that by (intro card_mono) auto
    then show ?thesis using Cons.prems(6) by linarith
  qed
  from inter_test_spec[OF Cons.prems(1,2) el(1), of env a0] obtain s1 where
    s1: "inter_test env s a0 el as = Some (s1, ?P (elem_str el))" "rep s1 A" by blast
  show ?case
  proof (cases "?P (elem_str el)")
    case False
    have "{x \<in> elem_str ` set (el # els). ?P x} = {x \<in> elem_str ` set els. ?P x}" using False by auto
    then show ?thesis using Cons.IH[OF s1(2) Cons.prems(2-4) el(2) sub[of ?S]] s1(1) False by auto
  next
    case True
    let ?A = "a_put d (insert (elem_str el) ?S) A"
    from elem_obj_spec[OF el(1), of "set_env.truncate env"] obtain e where
      e: "elem_obj (set_env.truncate env) el = Some e" "obj_str e = elem_str el" "obj_ok e" by auto
    have "card ?S \<le> card (?S \<union> elem_str ` set els)" using fin by (intro card_mono) auto
    moreover have "card (?S \<union> elem_str ` set els) < set_limit" by (rule sub) auto
    ultimately have "card ?S < set_limit" by linarith
    from heap_add_spec[OF s1(2) Cons.prems(3) e(3) this] obtain s2 where
      s2: "heap_add env s1 d e = Some (s2, elem_str el \<notin> ?S)" "rep s2 ?A" unfolding e(2) by blast
    note pg = put_grow[OF Cons.prems(3), of "insert (elem_str el) ?S"]
    have as: "list_all (is_set ?A) as" using Cons.prems(2) by (simp add: list_all_iff)
    have P: "(\<forall>a \<in> set as. a = a0 \<or> x \<in> a_set ?A a) = ?P x" for x using Cons.prems(4) by auto
    have un: "insert (elem_str el) ?S \<union> {x \<in> elem_str ` set els. ?P x} = ?S \<union> {x \<in> elem_str ` set (el # els). ?P x}" using True by auto
    have "card (a_set ?A d \<union> elem_str ` set els) < set_limit" unfolding pg(2) by (rule sub) simp
    from Cons.IH[OF s2(2) as pg(1) Cons.prems(4) el(2) this] obtain s3 where
      "inter_loop env s2 c a0 as (Some d) k els = Some (s3, c, k)" "rep s3 (a_put d (?S \<union> {x \<in> elem_str ` set (el # els). ?P x}) A)"
      unfolding pg(2) P un a_put_simps(6) by blast
    then show ?thesis using s1(1) s2(1) e(1) True by auto
  qed
qed

text \<open>The sets in an array of pointers, where a null pointer stands for the empty set.\<close>

definition opt_sets :: "astate \<Rightarrow> nat option list \<Rightarrow> string set" where
  "opt_sets A sets = (\<Union>a \<in> {a. Some a \<in> set sets}. a_set A a)"

definition ptrs_ok :: "astate \<Rightarrow> nat \<Rightarrow> nat option list \<Rightarrow> bool" where
  "ptrs_ok A d sets \<longleftrightarrow> (\<forall>a. Some a \<in> set sets \<longrightarrow> is_set A a \<and> a \<noteq> d)"

lemma opt_sets_simps [simp]:
  "opt_sets A [] = {}" "opt_sets A (None # sets) = opt_sets A sets" "opt_sets A (Some a # sets) = a_set A a \<union> opt_sets A sets"
  by (auto simp: opt_sets_def)

lemma ptrs_ok_simps [simp]:
  "ptrs_ok A d []" "ptrs_ok A d (None # sets) = ptrs_ok A d sets" "ptrs_ok A d (Some a # sets) \<longleftrightarrow> is_set A a \<and> a \<noteq> d \<and> ptrs_ok A d sets"
  by (auto simp: ptrs_ok_def)

lemma ptrs_put: "ptrs_ok A d sets \<Longrightarrow> ptrs_ok (a_put d S A) d sets \<and> opt_sets (a_put d S A) sets = opt_sets A sets"
  by (auto simp: ptrs_ok_def opt_sets_def)

lemma opt_sets_finite: "rep s A \<Longrightarrow> finite (opt_sets A sets)"
proof -
  assume r: "rep s A"
  have "{a. Some a \<in> set sets} \<subseteq> the ` set sets" by force
  then have "finite {a. Some a \<in> set sets}" using finite_subset by blast
  then show ?thesis using a_set_finite[OF r] by (auto simp: opt_sets_def)
qed

lemma union_loop_spec:
  assumes "rep s A" "ptrs_ok A d sets" "is_set A d" "card (a_set A d \<union> opt_sets A sets) < set_limit"
  shows "\<exists>s'. union_loop env s d k sets = Some (s', k + int (card (a_set A d \<union> opt_sets A sets)) - int (card (a_set A d))) \<and>
    rep s' (a_put d (a_set A d \<union> opt_sets A sets) A)"
  using assms
proof (induction sets arbitrary: s A k)
  case Nil
  then show ?case using a_put_same by simp
next
  case (Cons x sets)
  show ?case
  proof (cases x)
    case None
    then show ?thesis using Cons.IH[OF Cons.prems(1) _ Cons.prems(3)] Cons.prems(2,4) by simp
  next
    case (Some a)
    let ?S = "a_set A d" and ?A = "a_put d (a_set A d \<union> a_set A a) A"
    have a: "is_set A a" "a \<noteq> d" "ptrs_ok A d sets" using Cons.prems(2) Some by simp_all
    from heap_elements_spec[OF Cons.prems(1) a(1)] obtain s1 els where
      s1: "heap_elements s a = Some (s1, els)" "rep s1 A" "list_all elem_ok els" "elem_str ` set els = a_set A a" by blast
    have "card (?S \<union> a_set A a) \<le> card (?S \<union> opt_sets A (x # sets))"
      using a_set_finite[OF Cons.prems(1)] opt_sets_finite[OF Cons.prems(1)] Some by (intro card_mono) auto
    then have "card (?S \<union> elem_str ` set els) < set_limit" using Cons.prems(4) s1(4) by simp
    from add_elems_spec[OF s1(2) Cons.prems(3) s1(3) this, of env k] obtain s2 where
      s2: "add_elems env s1 d k els = Some (s2, k + int (card (?S \<union> a_set A a)) - int (card ?S))" "rep s2 ?A" unfolding s1(4) by blast
    note pg = put_grow[OF Cons.prems(3), of "?S \<union> a_set A a"]
    have p: "ptrs_ok ?A d sets" "opt_sets ?A sets = opt_sets A sets" using ptrs_put[OF a(3)] by simp_all
    have "card (a_set ?A d \<union> opt_sets ?A sets) < set_limit" using Cons.prems(4) Some unfolding pg(2) p(2) by (simp add: Un_assoc)
    from Cons.IH[OF s2(2) p(1) pg(1) this, of "k + int (card (?S \<union> a_set A a)) - int (card ?S)"] s1(1) s2(1) Some show ?thesis
      unfolding pg(2) p(2) a_put_simps(6) by (auto simp: Un_assoc algebra_simps)
  qed
qed

lemma diff_test_spec:
  assumes "rep s A" "ptrs_ok A d sets" "obj_ok e" "obj_str e \<in> a_set A a0"
  shows "\<exists>s'. diff_test s a0 e sets = Some (s', obj_str e \<notin> opt_sets A sets) \<and> rep s' A"
  using assms(1,2)
proof (induction sets arbitrary: s)
  case Nil
  then show ?case by simp
next
  case (Cons x sets)
  show ?case
  proof (cases x)
    case None
    then show ?thesis using Cons by simp
  next
    case (Some a)
    show ?thesis
    proof (cases "a = a0")
      case True
      then show ?thesis using Some Cons.prems(1) assms(4) by simp
    next
      case False
      from heap_mem_spec[OF Cons.prems(1) _ assms(3), of a] Cons.prems(2) Some obtain s1 where
        s1: "heap_mem s a e = Some (s1, obj_str e \<in> a_set A a)" "rep s1 A" by auto
      then show ?thesis using Cons.IH[OF s1(2)] Cons.prems(2) Some False by (cases "obj_str e \<in> a_set A a") auto
    qed
  qed
qed

lemma diff1_loop_spec:
  assumes "rep s A" "ptrs_ok A d sets" "is_set A d" "a0 \<noteq> d" "list_all elem_ok els" "distinct (map elem_str els)"
    "elem_str ` set els \<subseteq> a_set A a0 - a_set A d" "card (a_set A d) + length els < set_limit"
  shows "\<exists>s'. diff1_loop env s d a0 sets k els = Some (s', k + int (card (elem_str ` set els - opt_sets A sets))) \<and>
    rep s' (a_put d (a_set A d \<union> (elem_str ` set els - opt_sets A sets)) A)"
  using assms
proof (induction els arbitrary: s A k)
  case Nil
  then show ?case using a_put_same by simp
next
  case (Cons el els)
  let ?S = "a_set A d" and ?D = "opt_sets A sets"
  from elem_obj_spec[of el "set_env.truncate env"] Cons.prems(5) obtain e where
    e: "elem_obj (set_env.truncate env) el = Some e" "obj_str e = elem_str el" "obj_ok e" by auto
  have "obj_str e \<in> a_set A a0" using Cons.prems(7) e(2) by auto
  from diff_test_spec[OF Cons.prems(1,2) e(3) this] obtain s1 where s1: "diff_test s a0 e sets = Some (s1, elem_str el \<notin> ?D)" "rep s1 A"
    unfolding e(2) by blast
  have new: "elem_str el \<notin> ?S" "elem_str el \<notin> elem_str ` set els" using Cons.prems(6,7) by auto
  have els: "list_all elem_ok els" "distinct (map elem_str els)" "elem_str ` set els \<subseteq> a_set A a0 - ?S" using Cons.prems(5-7) by auto
  show ?case
  proof (cases "elem_str el \<in> ?D")
    case True
    then have "elem_str ` set (el # els) - ?D = elem_str ` set els - ?D" by auto
    then show ?thesis using Cons.IH[OF s1(2) Cons.prems(2-4) els] Cons.prems(8) True e(1) s1(1) by auto
  next
    case False
    let ?A = "a_put d (insert (elem_str el) ?S) A"
    have "card ?S < set_limit" using Cons.prems(8) by simp
    from heap_add_spec[OF s1(2) Cons.prems(3) e(3) this, of env] obtain s2 b where
      s2: "heap_add env s1 d e = Some (s2, b)" "rep s2 ?A" unfolding e(2) by blast
    note pg = put_grow[OF Cons.prems(3), of "insert (elem_str el) ?S"]
    have p: "ptrs_ok ?A d sets" "opt_sets ?A sets = ?D" using ptrs_put[OF Cons.prems(2)] by simp_all
    have els': "elem_str ` set els \<subseteq> a_set ?A a0 - a_set ?A d" unfolding pg(2) using els(3) new(2) Cons.prems(4) by (auto simp: image_iff)
    have "card (a_set ?A d) + length els < set_limit" unfolding pg(2) using Cons.prems(8) new(1) a_set_finite[OF Cons.prems(1)] by simp
    from Cons.IH[OF s2(2) p(1) pg(1) Cons.prems(4) els(1,2) els' this, of "k + 1"] obtain s3 where
      s3: "diff1_loop env s2 d a0 sets (k + 1) els = Some (s3, k + 1 + int (card (elem_str ` set els - ?D)))"
      "rep s3 (a_put d (insert (elem_str el) ?S \<union> (elem_str ` set els - ?D)) A)" unfolding pg(2) p(2) a_put_simps(6) by blast
    have un: "elem_str ` set (el # els) - ?D = insert (elem_str el) (elem_str ` set els - ?D)" using False by auto
    then have "card (elem_str ` set (el # els) - ?D) = Suc (card (elem_str ` set els - ?D))" using new(2) by simp
    moreover have "insert (elem_str el) ?S \<union> (elem_str ` set els - ?D) = ?S \<union> (elem_str ` set (el # els) - ?D)" unfolding un by auto
    ultimately show ?thesis using s1(1) s2(1) s3 False e(1) by simp
  qed
qed

lemma diff2_loop_spec:
  assumes "rep s A" "ptrs_ok A d sets" "is_set A d"
  shows "\<exists>s'. diff2_loop env s d (int (card (a_set A d))) sets = Some (s', int (card (a_set A d - opt_sets A sets))) \<and>
    rep s' (a_put d (a_set A d - opt_sets A sets) A)"
  using assms
proof (induction sets arbitrary: s A)
  case Nil
  then show ?case using a_put_same by simp
next
  case (Cons x sets)
  show ?case
  proof (cases x)
    case None
    then show ?thesis using Cons by simp
  next
    case (Some a)
    let ?S = "a_set A d - a_set A a" and ?A = "a_put d (a_set A d - a_set A a) A"
    have a: "is_set A a" "a \<noteq> d" "ptrs_ok A d sets" using Cons.prems(2) Some by simp_all
    from heap_elements_spec[OF Cons.prems(1) a(1)] obtain s1 els where
      s1: "heap_elements s a = Some (s1, els)" "rep s1 A" "list_all elem_ok els" "elem_str ` set els = a_set A a" by blast
    from rem_elems_spec[OF s1(2) Cons.prems(3) s1(3), of env "int (card (a_set A d))"] obtain s2 where
      s2: "rem_elems env s1 d (int (card (a_set A d))) els = Some (s2, int (card ?S))" "rep s2 ?A" unfolding s1(4) by auto
    note pg = put_grow[OF Cons.prems(3), of ?S]
    have p: "ptrs_ok ?A d sets" "opt_sets ?A sets = opt_sets A sets" using ptrs_put[OF a(3)] by simp_all
    have un: "a_set A d - opt_sets A (x # sets) = ?S - opt_sets A sets" using Some by auto
    show ?thesis
    proof (cases "card ?S = 0")
      case True
      have "?S = {}" using True a_set_finite[OF Cons.prems(1), of d] by (metis card_0_eq finite_Diff)
      then show ?thesis unfolding un using s1(1) s2 Some by (simp only: diff2_loop.simps) simp
    next
      case False
      from Cons.IH[OF s2(2) p(1) pg(1)] show ?thesis unfolding un pg(2) p(2) a_put_simps(6) using s1(1) s2(1) Some False by simp
    qed
  qed
qed

text \<open>\<open>qsort\<close> permutes.\<close>

definition qsort_ok :: "srv_env \<Rightarrow> bool" where
  "qsort_ok env \<longleftrightarrow> (\<forall>f xs. mset (qsort env f xs) = mset xs)"

definition a_diff :: "astate \<Rightarrow> nat option list \<Rightarrow> string set" where
  "a_diff A sets = (case sets of Some a0 # rest \<Rightarrow> a_set A a0 - opt_sets A rest | _ \<Rightarrow> {})"

lemma diff_sets_spec:
  assumes "rep s A" "ptrs_ok A d sets" "is_set A d" "a_set A d = {}" "qsort_ok env" "\<And>a. Some a \<in> set sets \<Longrightarrow> card (a_set A a) < set_limit"
  shows "\<exists>s'. diff_sets env s d sets = Some (s', int (card (a_diff A sets))) \<and> rep s' (a_put d (a_diff A sets) A)"
proof -
  consider "\<And>a0 rest. sets \<noteq> Some a0 # rest" | a0 rest where "sets = Some a0 # rest" by blast
  then show ?thesis
  proof cases
    case 1
    then have "a_diff A sets = {}" "diff_sets env s d sets = Some (s, 0)" by (auto simp: a_diff_def diff_sets_def split: list.split option.split)
    then show ?thesis using a_put_same[OF assms(3)] assms(1,4) by simp
  next
    case (2 a0 rest)
    have a0: "is_set A a0" "a0 \<noteq> d" "ptrs_ok A d rest" "card (a_set A a0) < set_limit" using assms(2,6) 2 by simp_all
    from heap_elements_spec[OF assms(1) a0(1)] obtain s1 els where
      s1: "heap_elements s a0 = Some (s1, els)" "rep s1 A" "list_all elem_ok els" "distinct (map elem_str els)" "elem_str ` set els = a_set A a0" by blast
    have len: "length els = card (a_set A a0)" using distinct_card[OF s1(4)] s1(5) by simp
    show ?thesis
    proof (cases "diff_algo s a0 sets = 1")
      case True
      let ?r = "if rest \<noteq> [] then qsort env (qsortCompareSetsByRevCardinality s) rest else rest"
      have "set ?r = set rest" using assms(5) unfolding qsort_ok_def by (metis mset_eq_setD)
      then have r: "ptrs_ok A d ?r" "opt_sets A ?r = opt_sets A rest" using a0(3) by (simp_all add: ptrs_ok_def opt_sets_def)
      have "elem_str ` set els \<subseteq> a_set A a0 - a_set A d" "card (a_set A d) + length els < set_limit" using s1(5) assms(4) len a0(4) by simp_all
      from diff1_loop_spec[OF s1(2) r(1) assms(3) a0(2) s1(3,4) this, of env 0] show ?thesis
        using s1(1) True 2 unfolding r(2) s1(5) by (simp add: diff_sets_def a_diff_def assms(4))
    next
      case False
      let ?A = "a_put d (a_set A a0) A"
      have "card (a_set A d \<union> elem_str ` set els) < set_limit" using assms(4) s1(5) a0(4) by simp
      from add_elems_spec[OF s1(2) assms(3) s1(3) this, of env 0] obtain s2 where
        s2: "add_elems env s1 d 0 els = Some (s2, int (card (a_set A a0)))" "rep s2 ?A" unfolding s1(5) assms(4) by auto
      note pg = put_grow[OF assms(3), of "a_set A a0"]
      have p: "ptrs_ok ?A d rest" "opt_sets ?A rest = opt_sets A rest" using ptrs_put[OF a0(3)] by simp_all
      from diff2_loop_spec[OF s2(2) p(1) pg(1), of env] obtain s3 where
        s3: "diff2_loop env s2 d (int (card (a_set A a0))) rest = Some (s3, int (card (a_set A a0 - opt_sets A rest)))"
        "rep s3 (a_put d (a_set A a0 - opt_sets A rest) A)" unfolding pg(2) p(2) a_put_simps(6) by blast
      have D: "diff_sets env s d sets = diff2 env s d a0 rest" "a_diff A sets = a_set A a0 - opt_sets A rest"
        using False 2 by (simp_all add: diff_sets_def a_diff_def)
      show ?thesis
      proof (cases "card (a_set A a0) = 0")
        case True
        then have "a_set A a0 = {}" using a_set_finite[OF assms(1), of a0] by simp
        then show ?thesis unfolding D using s1(1) s2 by (simp add: diff2_def)
      next
        case False
        then show ?thesis unfolding D using s1(1) s2(1) s3 by (simp add: diff2_def)
      qed
    qed
  qed
qed

subsection \<open>New sets\<close>

definition a_new :: "aval \<Rightarrow> astate \<Rightarrow> astate" where
  "a_new v A = A\<lparr>aH := (aH A)(aN A \<mapsto> (1, v)), aN := aN A + 1\<rparr>"

lemma a_new_simps [simp]:
  "aK (a_new v A) = aK A" "aE (a_new v A) = aE A" "aD (a_new v A) = aD A" "aT (a_new v A) = aT A"
  "a_put (aN A) S (a_new (A_set T) A) = a_new (A_set S) A" "is_set (a_new (A_set S) A) (aN A)" "a_set (a_new (A_set S) A) (aN A) = S"
  "a \<noteq> aN A \<Longrightarrow> a_set (a_new v A) a = a_set A a" "a \<noteq> aN A \<Longrightarrow> is_set (a_new v A) a = is_set A a"
  by (simp_all add: a_new_def a_put_def is_set_def a_set_def)

lemma create_spec:
  assumes "rep s A" "set_inv so"
  shows "\<exists>s'. createObject env s (V_set so) = (s', aN A) \<and> rep s' (a_new (A_set (set_strs so)) A)"
  using createObject_spec[OF assms(1), of "V_set so" env] assms(2) by (simp add: a_new_def)

lemma live_not_new: "rep s A \<Longrightarrow> ref_ok own A \<Longrightarrow> aK A p = Some a \<Longrightarrow> a \<noteq> aN A"
  using rep_fresh[of s A "aN A"] by (metis le_refl option.distinct(1) ref_ok_live)

lemma fresh_delete:
  assumes "aH A (aN A) = None"
  shows "aH (a_delete p A) (aN A) = None"
  using assms by (auto simp: a_delete_def a_decr_def split: option.split)

lemma a_delete_new:
  assumes "ref_ok {#} A" "aH A (aN A) = None"
  shows "a_delete p (a_new v A) = a_new v (a_delete p A)"
proof (cases "aK A p")
  case (Some a)
  then have "a \<noteq> aN A" using ref_ok_live[OF assms(1) Some] assms(2) by (metis option.distinct(1))
  then show ?thesis using Some by (simp add: a_delete_def a_new_def a_decr_def a_unlink_def fun_upd_twist)
qed (simp add: a_delete_def)

lemma ks_inv_store:
  assumes "ks_inv A" "aH A (aN A) = None" "aK A p = None" "fst p < aD A" "S \<noteq> {}"
  shows "ks_inv (a_link p (aN A) (a_new (A_set S) A))" "a_val (a_link p (aN A) (a_new (A_set S) A)) = (a_val A)(p \<mapsto> A_set S)"
proof -
  have r: "ref_ok {#aN A#} (a_new (A_set S) A)" unfolding a_new_def using ref_ok_create[OF ks_inv_ref[OF assms(1)] assms(2)] by simp
  have "ref_ok {#} (a_link p (aN A) (a_new (A_set S) A))" using r assms(3,4) by (intro ref_ok_link) simp_all
  then show "ks_inv (a_link p (aN A) (a_new (A_set S) A))" using assms(1,5) by (auto simp: ks_inv_def a_new_def split: if_splits)
  have "aK A q \<noteq> Some (aN A)" for q using ref_ok_live[OF ks_inv_ref[OF assms(1)]] assms(2) by (metis option.distinct(1))
  then have "a_val (a_new (A_set S) A) = a_val A" by (auto simp: a_val_def a_new_def fun_eq_iff split: option.split)
  then show "a_val (a_link p (aN A) (a_new (A_set S) A)) = (a_val A)(p \<mapsto> A_set S)" by (simp add: a_new_def)
qed

lemma ks_inv_N [simp]: "ks_inv (A\<lparr>aN := n\<rparr>) = ks_inv A"
  by (simp add: ks_inv_def ref_ok_def a_refs_def a_cnt_def)

lemma a_val_N [simp]: "a_val (A\<lparr>aN := n\<rparr>) = a_val A"
  by (simp add: a_val_def fun_eq_iff split: option.split)

lemma a_decr_new:
  assumes "aH A (aN A) = None"
  shows "a_decr (aN A) (a_new v A) = A\<lparr>aN := aN A + 1\<rparr>"
  using assms by (simp add: a_decr_def a_new_def fun_upd_idem)

lemma czero_header: "shared_czero = resp_header (CHR '':'') 0"
  by (simp add: shared_czero_def resp_header_def dec_int_def)

definition stored :: "string set \<Rightarrow> aval option" where
  "stored S = (if S = {} then None else Some (A_set S))"

lemma store_result_spec:
  assumes "rep s (a_new (A_set S) A)" "ks_inv A" "i < aD A" "cl_ok env c" "a_room A i" "aH A (aN A) = None" "finite S" "card S < set_limit"
  shows "\<exists>s' c' A'. store_result env s i c dst (aN A) ev = Some (s', c') \<and> rep s' A' \<and> ks_inv A' \<and>
    a_val A' = (a_val A)((i, dst) := stored S) \<and> aE A' = (aE A)((i, dst) := None) \<and> replied env c (resp_header (CHR '':'') (int (card S))) c'"
proof -
  note r = ks_inv_ref[OF assms(2)]
  let ?A = "a_delete (i, dst) A"
  have ref: "ref_ok {#aN A#} (a_new (A_set S) A)" unfolding a_new_def using ref_ok_create[OF r assms(6)] by simp
  have "i < aD (a_new (A_set S) A)" using assms(3) by simp
  from dbDelete_spec[OF assms(1) ref this, of dst] obtain s1 where
    s1: "dbDelete s i dst = Some (s1, aK A (i, dst) \<noteq> None)" "rep s1 (a_new (A_set S) ?A)" unfolding a_delete_new[OF r assms(6)] by auto
  have k: "ks_inv ?A" "aH ?A (aN ?A) = None" "aK ?A (i, dst) = None" "fst (i, dst) < aD ?A" "aN ?A = aN A"
    using ks_inv_delete[OF assms(2)] fresh_delete[OF assms(6)] assms(3) by simp_all
  have sz: "heap_size s1 (aN A) = Some (card S)" using heap_size_spec[OF s1(2) a_new_simps(6), unfolded a_new_simps(7)] unfolding k(5) .
  have v: "a_val ?A = (a_val A)((i, dst) := None)" "aE ?A = (aE A)((i, dst) := None)" using a_val_delete[OF r] aE_delete[OF r] by blast+
  show ?thesis
  proof (cases "S = {}")
    case True
    have h: "aH (a_new (A_set S) ?A) (aN A) = Some (1, A_set S)" using k(5) by (simp add: a_new_def)
    from decrRefCount_spec[OF s1(2) h] obtain s2 where s2: "decrRefCount s1 (aN A) = Some s2" "rep s2 (?A\<lparr>aN := aN A + 1\<rparr>)"
      using a_decr_new[OF k(2)] k(5) by auto
    obtain c' where c': "reply_shared env c shared_czero = Some c'" "replied env c shared_czero c'"
      using reply_shared_spec[OF assms(4)] by (metis shared_short(1))
    let ?s = "if aK A (i, dst) \<noteq> None then note_event s2 (Notify REDIS_NOTIFY_GENERIC ''del'' dst i) else s2"
    let ?t = "signalModifiedKey ?s i dst"
    have "store_result env s i c dst (aN A) ev = Some (?t\<lparr>dirty := dirty ?t + 1\<rparr>, c')"
      using s1(1) sz s2(1) c'(1) True by (simp add: store_result_def Let_def)
    moreover have "rep (?t\<lparr>dirty := dirty ?t + 1\<rparr>) (?A\<lparr>aN := aN A + 1\<rparr>)" using s2(2) by simp
    moreover have "a_val (?A\<lparr>aN := aN A + 1\<rparr>) = (a_val A)((i, dst) := stored S)" using v(1) True by (simp add: stored_def)
    ultimately show ?thesis using k(1) v(2) c'(2) True
      by (intro exI[of _ "?t\<lparr>dirty := dirty ?t + 1\<rparr>"] exI[of _ c'] exI[of _ "?A\<lparr>aN := aN A + 1\<rparr>"]) (simp add: czero_header)
  next
    case False
    let ?R = "a_link (i, dst) (aN A) (a_new (A_set S) ?A)"
    have room: "a_room (a_new (A_set S) ?A) i" by (rule a_room_mono[OF assms(5) ref_okD(1)[OF r]]) auto
    have "i < aD (a_new (A_set S) ?A)" "aK (a_new (A_set S) ?A) (i, dst) = None" "aH (a_new (A_set S) ?A) (aN A) \<noteq> None"
      using assms(3) k(5) by (simp_all add: a_new_def)
    from dbAdd_spec[OF s1(2) this(1,2) room this(3), of env] obtain s2 where s2: "dbAdd env s1 i dst (aN A) = Some s2" "rep s2 ?R" by blast
    have "int (card S) < 2 ^ 63" using assms(8) by (simp add: set_limit_def)
    then obtain c' where c': "reply_int env c (int (card S)) = Some c'" "replied env c (resp_header (CHR '':'') (int (card S))) c'"
      using reply_int_spec[OF assms(4), of "int (card S)"] by auto
    let ?t = "signalModifiedKey (note_event s2 (Notify REDIS_NOTIFY_SET ev dst i)) i dst"
    have "0 < card S" using False assms(7) by (simp add: card_gt_0_iff)
    then have "store_result env s i c dst (aN A) ev = Some (?t\<lparr>dirty := dirty ?t + 1\<rparr>, c')"
      using s1(1) sz s2(1) c'(1) by (simp add: store_result_def Let_def)
    moreover have "rep (?t\<lparr>dirty := dirty ?t + 1\<rparr>) ?R" using s2(2) by simp
    moreover note ks_inv_store[OF k(1-4) False, unfolded k(5)]
    ultimately show ?thesis using c'(2) v False
      by (intro exI[of _ "?t\<lparr>dirty := dirty ?t + 1\<rparr>"] exI[of _ c'] exI[of _ ?R]) (simp add: stored_def)
  qed
qed

subsection \<open>Looking up several keys\<close>

text \<open>
  Every lookup reads the clock.  A key is settled when the next \<open>w\<close> readings agree whether it has
  expired.  (A key that expires between two lookups of one command is a problem: see below.)
\<close>

definition gone_at :: "srv_env \<Rightarrow> nat \<times> string \<Rightarrow> astate \<Rightarrow> nat \<Rightarrow> bool" where
  "gone_at env p A n \<longleftrightarrow> 0 \<le> a_when p A \<and> \<not> loading env \<and> \<not> masterhost env \<and>
     a_when p A < (case lua_time_start env of Some t \<Rightarrow> t | None \<Rightarrow> mstime_at env n)"

definition settled :: "srv_env \<Rightarrow> nat \<Rightarrow> astate \<Rightarrow> nat \<times> string \<Rightarrow> bool" where
  "settled env w A p \<longleftrightarrow> (\<forall>n \<in> {aT A..<aT A + w}. gone_at env p A n = a_gone env p A)"

text \<open>The value that a lookup finds, and the pointer that it returns.\<close>

definition a_live :: "srv_env \<Rightarrow> astate \<Rightarrow> nat \<times> string \<Rightarrow> aval option" where
  "a_live env A p = (if a_gone env p A then None else a_val A p)"

definition a_ptr :: "srv_env \<Rightarrow> astate \<Rightarrow> nat \<times> string \<Rightarrow> nat option" where
  "a_ptr env A p = (if a_gone env p A then None else aK A p)"

text \<open>\<open>B\<close> is \<open>A\<close> without the expired keys among \<open>P\<close>.\<close>

definition purged :: "srv_env \<Rightarrow> (nat \<times> string) set \<Rightarrow> astate \<Rightarrow> astate \<Rightarrow> bool" where
  "purged env P A B \<longleftrightarrow> ks_inv B \<and> aN B = aN A \<and> aD B = aD A \<and> aT A \<le> aT B \<and>
     aK B = (\<lambda>p. if p \<in> P \<and> a_gone env p A then None else aK A p) \<and>
     aE B = (\<lambda>p. if p \<in> P \<and> a_gone env p A then None else aE A p) \<and>
     a_val B = (\<lambda>p. if p \<in> P \<and> a_gone env p A then None else a_val A p)"

lemma purged_refl: "ks_inv A \<Longrightarrow> purged env {} A A"
  by (simp add: purged_def)

lemma purge_upd:
  assumes "g = (\<lambda>p. if p \<in> P \<and> G p then None else f p)" "q \<in> P \<and> G q \<Longrightarrow> \<not> b" "\<not> (q \<in> P \<and> G q) \<Longrightarrow> b = G q"
  shows "(if b then g(q := None) else g) = (\<lambda>p. if p \<in> insert q P \<and> G p then None else f p)"
proof
  fix p
  show "(if b then g(q := None) else g) p = (if p \<in> insert q P \<and> G p then None else f p)"
    using assms by (cases "p = q") auto
qed

lemma ticks_expire: "aT (fst (a_expire env p A)) \<le> aT A + 1"
  by (simp add: a_expire_def a_tick_def)

lemma purged_expire:
  assumes "purged env P A B" "settled env w A q" "aT B < aT A + w"
  shows "purged env (insert q P) A (fst (a_expire env q B))"
proof -
  have B: "ks_inv B" "aN B = aN A" "aD B = aD A" "aT A \<le> aT B"
    "aK B = (\<lambda>p. if p \<in> P \<and> a_gone env p A then None else aK A p)" "aE B = (\<lambda>p. if p \<in> P \<and> a_gone env p A then None else aE A p)"
    "a_val B = (\<lambda>p. if p \<in> P \<and> a_gone env p A then None else a_val A p)" using assms(1) by (simp_all add: purged_def)
  note v = a_val_expire[OF ks_inv_ref[OF B(1)], of env q]
  have t: "aT B \<le> aT (fst (a_expire env q B))" by (simp add: a_expire_def a_tick_def)
  have g: "\<not> a_gone env q B" if "q \<in> P \<and> a_gone env q A" using that B(6) by (simp add: a_gone_def a_when_def)
  have g2: "a_gone env q B = a_gone env q A" if "\<not> (q \<in> P \<and> a_gone env q A)"
  proof -
    have "aE B q = aE A q" using that B(6) by auto
    then have "a_gone env q B = gone_at env q A (aT B)" by (simp add: a_gone_def gone_at_def a_now_def a_when_def)
    then show ?thesis using assms(2,3) B(4) by (simp add: settled_def)
  qed
  have "aK (fst (a_expire env q B)) = (\<lambda>p. if p \<in> insert q P \<and> a_gone env p A then None else aK A p)"
    unfolding v(3) by (rule purge_upd[OF B(5) g g2])
  moreover have "aE (fst (a_expire env q B)) = (\<lambda>p. if p \<in> insert q P \<and> a_gone env p A then None else aE A p)"
    unfolding v(2) by (rule purge_upd[OF B(6) g g2])
  moreover have "a_val (fst (a_expire env q B)) = (\<lambda>p. if p \<in> insert q P \<and> a_gone env p A then None else a_val A p)"
    unfolding v(1) by (rule purge_upd[OF B(7) g g2])
  ultimately show ?thesis unfolding purged_def using ks_inv_expire[OF B(1)] B(2-4) t by (simp only: a_expire_sel) simp
qed

lemma purged_ptr: "purged env P A B \<Longrightarrow> p \<in> P \<Longrightarrow> aK B p = a_ptr env A p" "purged env P A B \<Longrightarrow> p \<in> P \<Longrightarrow> a_val B p = a_live env A p"
  by (simp_all add: purged_def a_ptr_def a_live_def)

text \<open>The object behind a pointer that a lookup returned.\<close>

lemma val_obj:
  assumes "rep s B" "ks_inv B" "aK B p = Some a"
  obtains so where "get_set s a = Some so" "is_set B a" "a_val B p = Some (A_set (a_set B a))" "\<exists>x. objs s a = Some x \<and> oval x = V_set so"
  | x t where "objs s a = Some x" "oval x = V_other t" "a_val B p = Some (A_other t)" "\<not> is_set B a"
proof -
  obtain n v where h: "aH B a = Some (n, v)" using ref_ok_live[OF ks_inv_ref[OF assms(2)] assms(3)] .
  obtain x where x: "objs s a = Some x" "refcount x = n" "aval_of (oval x) = v" using assms(1) h by (rule rep_obj)
  show thesis
  proof (cases "oval x")
    case (V_set so)
    then have "v = A_set (set_strs so)" using x(3) by simp
    then have "is_set B a" "a_val B p = Some (A_set (a_set B a))" using h assms(3) by (simp_all add: is_set_def a_val_def a_set_def)
    then show thesis using that(1)[of so] x(1) V_set by (simp add: get_set_def)
  next
    case (V_other t)
    then have "v = A_other t" using x(3) by simp
    then show thesis using that(2)[OF x(1) V_other] h assms(3) by (simp add: a_val_def is_set_def)
  qed
qed

lemma lookup_purged:
  assumes "rep s B" "purged env P A B" "settled env w A (i, k)" "i < aD A" "aT B < aT A + w"
  shows "\<exists>s' B'. (if store then lookupKeyWrite env s i k else lookupKeyRead env s i k) = Some (s', a_ptr env A (i, k)) \<and> rep s' B' \<and>
    purged env (insert (i, k) P) A B' \<and> aT B' \<le> aT B + 1"
proof -
  let ?B = "fst (a_expire env (i, k) B)"
  have B: "ks_inv B" "i < aD B" using assms(2,4) by (simp_all add: purged_def)
  have p: "purged env (insert (i, k) P) A ?B" by (rule purged_expire[OF assms(2,3,5)])
  have "aK ?B (i, k) = a_ptr env A (i, k)" using purged_ptr(1)[OF p] by simp
  then show ?thesis using lookupKeyWrite_spec[OF assms(1) ks_inv_ref[OF B(1)] B(2), of env k]
      lookupKeyRead_spec[OF assms(1) ks_inv_ref[OF B(1)] B(2), of env k] p ticks_expire[of env "(i, k)" B] by auto
qed

definition wrong_type :: "srv_env \<Rightarrow> astate \<Rightarrow> nat \<times> string \<Rightarrow> bool" where
  "wrong_type env A p \<longleftrightarrow> (\<exists>t. a_live env A p = Some (A_other t))"

lemma union_sets_spec:
  assumes "rep s B" "purged env P A B" "\<And>k. k \<in> set ks \<Longrightarrow> settled env w A (i, k)" "i < aD A" "aT B + length ks \<le> aT A + w"
  shows "\<exists>s' B' P'. union_sets env s i store ks acc =
      Some (s', if \<exists>k \<in> set ks. wrong_type env A (i, k) then WrongType else Sets (acc @ map (\<lambda>k. a_ptr env A (i, k)) ks)) \<and>
    rep s' B' \<and> purged env P' A B' \<and> P \<subseteq> P' \<and> P' \<subseteq> P \<union> Pair i ` set ks \<and> ((\<forall>k \<in> set ks. \<not> wrong_type env A (i, k)) \<longrightarrow> P' = P \<union> Pair i ` set ks)"
  using assms(1-3,5)
proof (induction ks arbitrary: s B P acc)
  case Nil
  then show ?case by auto
next
  case (Cons k ks)
  have "settled env w A (i, k)" "aT B < aT A + w" using Cons.prems(3,4) by simp_all
  from lookup_purged[OF Cons.prems(1,2) this(1) assms(4) this(2), of store] obtain s1 B1 where
    l: "(if store then lookupKeyWrite env s i k else lookupKeyRead env s i k) = Some (s1, a_ptr env A (i, k))" "rep s1 B1"
    "purged env (insert (i, k) P) A B1" "aT B1 \<le> aT B + 1" by blast
  have set: "\<And>k'. k' \<in> set ks \<Longrightarrow> settled env w A (i, k')" and tm: "aT B1 + length ks \<le> aT A + w" using Cons.prems(3,4) l(4) by simp_all
  note IH = Cons.IH[OF l(2,3) set tm]
  have v: "aK B1 (i, k) = a_ptr env A (i, k)" "a_val B1 (i, k) = a_live env A (i, k)" using purged_ptr[OF l(3)] by simp_all
  show ?case
  proof (cases "a_ptr env A (i, k)")
    case None
    then have "a_live env A (i, k) = None" using v by (simp add: a_val_def)
    then have nw: "\<not> wrong_type env A (i, k)" by (simp add: wrong_type_def)
    from IH[of "acc @ [None]"] obtain s' B' P' where r: "union_sets env s1 i store ks (acc @ [None]) =
        Some (s', if \<exists>k \<in> set ks. wrong_type env A (i, k) then WrongType else Sets ((acc @ [None]) @ map (\<lambda>k. a_ptr env A (i, k)) ks))"
      "rep s' B'" "purged env P' A B'" "insert (i, k) P \<subseteq> P'" "P' \<subseteq> insert (i, k) P \<union> Pair i ` set ks"
      "(\<forall>k \<in> set ks. \<not> wrong_type env A (i, k)) \<longrightarrow> P' = insert (i, k) P \<union> Pair i ` set ks" by blast
    then show ?thesis using l(1) None nw by (intro exI[of _ s'] exI[of _ B'] exI[of _ P']) auto
  next
    case (Some a)
    have ks: "ks_inv B1" using l(3) by (simp add: purged_def)
    have a: "aK B1 (i, k) = Some a" using v(1) Some by simp
    from l(2) ks a show ?thesis
    proof (rule val_obj)
      fix so
      assume so: "get_set s1 a = Some so" "a_val B1 (i, k) = Some (A_set (a_set B1 a))" "\<exists>x. objs s1 a = Some x \<and> oval x = V_set so"
      then have nw: "\<not> wrong_type env A (i, k)" using v(2) by (simp add: wrong_type_def)
      from IH[of "acc @ [Some a]"] obtain s' B' P' where r: "union_sets env s1 i store ks (acc @ [Some a]) =
          Some (s', if \<exists>k \<in> set ks. wrong_type env A (i, k) then WrongType else Sets ((acc @ [Some a]) @ map (\<lambda>k. a_ptr env A (i, k)) ks))"
        "rep s' B'" "purged env P' A B'" "insert (i, k) P \<subseteq> P'" "P' \<subseteq> insert (i, k) P \<union> Pair i ` set ks"
        "(\<forall>k \<in> set ks. \<not> wrong_type env A (i, k)) \<longrightarrow> P' = insert (i, k) P \<union> Pair i ` set ks" by blast
      then show ?thesis using l(1) Some nw so(3) by (intro exI[of _ s'] exI[of _ B'] exI[of _ P']) auto
    next
      fix x t
      assume x: "objs s1 a = Some x" "oval x = V_other t" "a_val B1 (i, k) = Some (A_other t)"
      then have w: "wrong_type env A (i, k)" using v(2) by (simp add: wrong_type_def)
      then show ?thesis using l Some x by (intro exI[of _ s1] exI[of _ B1] exI[of _ "insert (i, k) P"]) auto
    qed
  qed
qed

definition live_set :: "srv_env \<Rightarrow> astate \<Rightarrow> nat \<times> string \<Rightarrow> string set" where
  "live_set env A p = (case a_live env A p of Some (A_set S) \<Rightarrow> S | _ \<Rightarrow> {})"

lemma ptr_set:
  assumes "rep s B" "purged env P A B" "p \<in> P" "\<not> wrong_type env A p"
  shows "a_ptr env A p = None \<Longrightarrow> live_set env A p = {}"
    "a_ptr env A p = Some a \<Longrightarrow> is_set B a \<and> a_set B a = live_set env A p \<and> a \<noteq> aN B"
proof -
  have k: "ks_inv B" using assms(2) by (simp add: purged_def)
  note v = purged_ptr[OF assms(2,3)]
  show "a_ptr env A p = None \<Longrightarrow> live_set env A p = {}" using v by (simp add: live_set_def a_val_def split: option.splits)
  assume a: "a_ptr env A p = Some a"
  then have "a \<noteq> aN B" using live_not_new[OF assms(1) ks_inv_ref[OF k]] v(1) by simp
  from v(1) a have "aK B p = Some a" by simp
  with assms(1) k show "is_set B a \<and> a_set B a = live_set env A p \<and> a \<noteq> aN B"
    by (rule val_obj) (use v(2) assms(4) \<open>a \<noteq> aN B\<close> in \<open>auto simp: live_set_def wrong_type_def\<close>)
qed

lemma ptrs_sets:
  assumes "rep s B" "purged env P A B" "Pair i ` set ks \<subseteq> P" "\<forall>k \<in> set ks. \<not> wrong_type env A (i, k)"
  defines "sets \<equiv> map (\<lambda>k. a_ptr env A (i, k)) ks"
  shows "ptrs_ok (a_new v B) (aN B) sets" "opt_sets (a_new v B) sets = (\<Union>k \<in> set ks. live_set env A (i, k))"
    "Some a \<in> set sets \<Longrightarrow> \<exists>k \<in> set ks. a_set (a_new v B) a = live_set env A (i, k)"
proof -
  have p: "is_set B a \<and> a_set B a = live_set env A (i, k) \<and> a \<noteq> aN B" if "k \<in> set ks" "a_ptr env A (i, k) = Some a" for k a
    using ptr_set(2)[OF assms(1,2) _ _ that(2)] assms(3,4) that(1) by blast
  have n: "live_set env A (i, k) = {}" if "k \<in> set ks" "a_ptr env A (i, k) = None" for k
    using ptr_set(1)[OF assms(1,2) _ _ that(2)] assms(3,4) that(1) by blast
  show "ptrs_ok (a_new v B) (aN B) sets" unfolding ptrs_ok_def sets_def using p by (auto dest!: sym[of "Some _"])
  show "Some a \<in> set sets \<Longrightarrow> \<exists>k \<in> set ks. a_set (a_new v B) a = live_set env A (i, k)" unfolding sets_def using p by (force dest!: sym[of "Some _"])
  have "opt_sets (a_new v B) (map (\<lambda>k. a_ptr env A (i, k)) ks') = (\<Union>k \<in> set ks'. live_set env A (i, k))" if "set ks' \<subseteq> set ks" for ks'
    using that
  proof (induction ks')
    case (Cons k ks')
    then show ?case using p[of k] n[of k] by (cases "a_ptr env A (i, k)") auto
  qed simp
  then show "opt_sets (a_new v B) sets = (\<Union>k \<in> set ks. live_set env A (i, k))" unfolding sets_def by blast
qed

lemma purged_room: "purged env P A B \<Longrightarrow> ks_inv A \<Longrightarrow> a_room A i \<Longrightarrow> a_room B i"
  by (rule a_room_mono[OF _ ref_okD(1)[OF ks_inv_ref]]) (auto simp: purged_def split: if_splits)

text \<open>The values after the lookups of the keys \<open>ks\<close>.\<close>

definition val_after :: "srv_env \<Rightarrow> nat \<Rightarrow> string list \<Rightarrow> astate \<Rightarrow> nat \<times> string \<Rightarrow> aval option" where
  "val_after env i ks A p = (if p \<in> Pair i ` set ks \<and> a_gone env p A then None else a_val A p)"

definition op_result :: "set_op \<Rightarrow> string set list \<Rightarrow> string set" where
  "op_result op Ss = (case op of REDIS_OP_UNION \<Rightarrow> \<Union> (set Ss) | REDIS_OP_DIFF \<Rightarrow> (case Ss of [] \<Rightarrow> {} | S # Ts \<Rightarrow> S - \<Union> (set Ts)))"

lemma a_diff_live:
  assumes "rep s B" "purged env P A B" "Pair i ` set ks \<subseteq> P" "\<forall>k \<in> set ks. \<not> wrong_type env A (i, k)"
  shows "a_diff (a_new v B) (map (\<lambda>k. a_ptr env A (i, k)) ks) = op_result REDIS_OP_DIFF (map (\<lambda>k. live_set env A (i, k)) ks)"
proof (cases ks)
  case (Cons k0 ks')
  have k0: "(i, k0) \<in> P" "\<not> wrong_type env A (i, k0)" using assms(3,4) Cons by auto
  have o: "opt_sets (a_new v B) (map (\<lambda>k. a_ptr env A (i, k)) ks') = (\<Union>k \<in> set ks'. live_set env A (i, k))"
    using assms(3,4) Cons by (intro ptrs_sets(2)[OF assms(1,2)]) auto
  show ?thesis using ptr_set[OF assms(1,2) k0] o Cons by (cases "a_ptr env A (i, k0)") (auto simp: a_diff_def op_result_def)
qed (simp add: a_diff_def op_result_def)

lemma combine_spec:
  fixes op :: set_op
  assumes "rep s (a_new (A_set {}) B)" "rep s0 B" "purged env P A B" "Pair i ` set ks \<subseteq> P" "\<forall>k \<in> set ks. \<not> wrong_type env A (i, k)"
    "card (\<Union>k \<in> set ks. live_set env A (i, k)) < set_limit" "qsort_ok env"
  defines "sets \<equiv> map (\<lambda>k. a_ptr env A (i, k)) ks" and "R \<equiv> op_result op (map (\<lambda>k. live_set env A (i, k)) ks)"
  shows "\<exists>s'. (case op of REDIS_OP_UNION \<Rightarrow> union_loop env s (aN B) 0 sets | REDIS_OP_DIFF \<Rightarrow> diff_sets env s (aN B) sets) = Some (s', int (card R)) \<and>
    rep s' (a_new (A_set R) B) \<and> finite R \<and> card R < set_limit"
proof -
  let ?U = "\<Union>k \<in> set ks. live_set env A (i, k)" and ?B = "a_new (A_set {}) B"
  note p = ptrs_sets[OF assms(2-5), where v = "A_set {}", folded sets_def]
  have fU: "finite ?U" using opt_sets_finite[OF assms(1), of sets] p(2) by simp
  have sub: "R \<subseteq> ?U" unfolding R_def op_result_def by (cases op; cases ks) auto
  have R: "finite R" "card R < set_limit" using finite_subset[OF sub fU] card_mono[OF fU sub] assms(6) by simp_all
  show ?thesis
  proof (cases op)
    case REDIS_OP_UNION
    then have RU: "R = ?U" by (simp add: R_def op_result_def)
    have "card (a_set ?B (aN B) \<union> opt_sets ?B sets) < set_limit" using assms(6) p(2) by simp
    from union_loop_spec[OF assms(1) p(1) a_new_simps(6) this, of env 0] show ?thesis using REDIS_OP_UNION R p(2) RU by simp
  next
    case REDIS_OP_DIFF
    have "card (a_set ?B a) < set_limit" if "Some a \<in> set sets" for a
    proof -
      from p(3)[OF that] obtain k where "k \<in> set ks" "a_set ?B a = live_set env A (i, k)" by blast
      then have "card (a_set ?B a) \<le> card ?U" using fU by (intro card_mono) auto
      then show ?thesis using assms(6) by linarith
    qed
    from diff_sets_spec[OF assms(1) p(1) a_new_simps(6,7) assms(7)] this obtain s' where
      "diff_sets env s (aN B) sets = Some (s', int (card R))" "rep s' (a_put (aN B) R ?B)"
      unfolding a_diff_live[OF assms(2-5), where v = "A_set {}", folded sets_def] R_def REDIS_OP_DIFF by blast
    then show ?thesis using REDIS_OP_DIFF R by simp
  qed
qed

lemma sunionDiff_store:
  fixes op :: set_op
  assumes "rep s A" "ks_inv A" "i < aD A" "cl_ok env c" "a_room A i" "qsort_ok env" "\<And>k. k \<in> set ks \<Longrightarrow> settled env (length ks) A (i, k)"
    "\<forall>k \<in> set ks. \<not> wrong_type env A (i, k)" "card (\<Union>k \<in> set ks. live_set env A (i, k)) < set_limit"
  defines "R \<equiv> op_result op (map (\<lambda>k. live_set env A (i, k)) ks)"
  shows "\<exists>s' c' A'. sunionDiffGenericCommand env s i c ks (Some dst) op = Some (s', c') \<and> rep s' A' \<and> ks_inv A' \<and>
    a_val A' = (val_after env i ks A)((i, dst) := stored R) \<and> replied env c (resp_header (CHR '':'') (int (card R))) c'"
proof -
  let ?sets = "map (\<lambda>k. a_ptr env A (i, k)) ks"
  have nw: "\<not> (\<exists>k \<in> set ks. wrong_type env A (i, k))" using assms(8) by blast
  from union_sets_spec[OF assms(1) purged_refl[OF assms(2)] assms(7) assms(3), of ks True "[]"] nw obtain s1 B where
    u: "union_sets env s i True ks [] = Some (s1, Sets ?sets)" "rep s1 B" "purged env (Pair i ` set ks) A B" by auto
  have B: "ks_inv B" "i < aD B" "a_room B i" "a_val B = val_after env i ks A" using u(3) assms(3) purged_room[OF u(3) assms(2,5)]
    by (auto simp: purged_def val_after_def)
  obtain s2 where s2: "createObject env s1 (V_set createIntsetObject) = (s2, aN B)" "rep s2 (a_new (A_set {}) B)"
    using create_spec[OF u(2) new_set_inv(1), of env] new_set_inv(2) by auto
  have fresh: "aH B (aN B) = None" using rep_fresh[OF u(2)] by simp
  from combine_spec[OF s2(2) u(2,3) _ assms(8,9,6), where op = op, folded R_def] obtain s3 where
    s3: "(case op of REDIS_OP_UNION \<Rightarrow> union_loop env s2 (aN B) 0 ?sets | REDIS_OP_DIFF \<Rightarrow> diff_sets env s2 (aN B) ?sets) = Some (s3, int (card R))"
    "rep s3 (a_new (A_set R) B)" "finite R" "card R < set_limit" by auto
  let ?ev = "if op = REDIS_OP_UNION then ''sunionstore'' else ''sdiffstore''"
  from store_result_spec[OF s3(2) B(1,2) assms(4) B(3) fresh s3(3,4), of dst ?ev] obtain s' c' A' where
    r: "store_result env s3 i c dst (aN B) ?ev = Some (s', c')" "rep s' A'" "ks_inv A'" "a_val A' = (a_val B)((i, dst) := stored R)"
    "replied env c (resp_header (CHR '':'') (int (card R))) c'" by blast
  have "sunionDiffGenericCommand env s i c ks (Some dst) op = Some (s', c')"
    unfolding sunionDiffGenericCommand_def using u(1) s2(1) s3(1) r(1) by simp
  then show ?thesis using r B(4) by auto
qed

lemma inter_sets_spec:
  assumes "rep s B" "purged env P A B" "\<forall>k \<in> set ks. settled env w A (i, k) \<and> \<not> wrong_type env A (i, k)" "i < aD A" "aT B + length ks \<le> aT A + w"
  shows "\<exists>s' B' P'. inter_sets env s i store ks acc =
      Some (s', if \<exists>k \<in> set ks. a_ptr env A (i, k) = None then Missing else Sets (acc @ map (\<lambda>k. a_ptr env A (i, k)) ks)) \<and>
    rep s' B' \<and> purged env P' A B' \<and> P \<subseteq> P' \<and> P' \<subseteq> P \<union> Pair i ` set ks \<and>
    ((\<forall>k \<in> set ks. a_ptr env A (i, k) \<noteq> None) \<longrightarrow> P' = P \<union> Pair i ` set ks)"
  using assms(1-3,5)
proof (induction ks arbitrary: s B P acc)
  case Nil
  then show ?case by auto
next
  case (Cons k ks)
  have k: "settled env w A (i, k)" "\<not> wrong_type env A (i, k)" "\<forall>k \<in> set ks. settled env w A (i, k) \<and> \<not> wrong_type env A (i, k)" "aT B < aT A + w"
    using Cons.prems(3,4) by simp_all
  from lookup_purged[OF Cons.prems(1,2) k(1) assms(4) k(4), of store] obtain s1 B1 where
    l: "(if store then lookupKeyWrite env s i k else lookupKeyRead env s i k) = Some (s1, a_ptr env A (i, k))" "rep s1 B1"
    "purged env (insert (i, k) P) A B1" "aT B1 \<le> aT B + 1" by blast
  have tm: "aT B1 + length ks \<le> aT A + w" using Cons.prems(4) l(4) by simp
  have v: "aK B1 (i, k) = a_ptr env A (i, k)" "a_val B1 (i, k) = a_live env A (i, k)" using purged_ptr[OF l(3)] by simp_all
  show ?case
  proof (cases "a_ptr env A (i, k)")
    case None
    then show ?thesis using l by (intro exI[of _ s1] exI[of _ B1] exI[of _ "insert (i, k) P"]) auto
  next
    case (Some a)
    have ks: "ks_inv B1" using l(3) by (simp add: purged_def)
    have a: "aK B1 (i, k) = Some a" using v(1) Some by simp
    have so: "\<exists>x so. objs s1 a = Some x \<and> oval x = V_set so"
      by (rule val_obj[OF l(2) ks a]) (use v(2) k(2) in \<open>auto simp: wrong_type_def\<close>)
    from Cons.IH[OF l(2,3) k(3) tm, of "acc @ [Some a]"] obtain s' B' P' where r: "inter_sets env s1 i store ks (acc @ [Some a]) =
        Some (s', if \<exists>k \<in> set ks. a_ptr env A (i, k) = None then Missing else Sets ((acc @ [Some a]) @ map (\<lambda>k. a_ptr env A (i, k)) ks))"
      "rep s' B'" "purged env P' A B'" "insert (i, k) P \<subseteq> P'" "P' \<subseteq> insert (i, k) P \<union> Pair i ` set ks"
      "(\<forall>k \<in> set ks. a_ptr env A (i, k) \<noteq> None) \<longrightarrow> P' = insert (i, k) P \<union> Pair i ` set ks" by blast
    then show ?thesis using l(1) Some so by (intro exI[of _ s'] exI[of _ B'] exI[of _ P']) auto
  qed
qed

lemma sinter_missing_store:
  assumes "rep s B" "ks_inv B" "i < aD B" "cl_ok env c"
  shows "\<exists>s' c' A'. sinter_missing env s i c (Some dst) = Some (s', c') \<and> rep s' A' \<and> ks_inv A' \<and> a_val A' = (a_val B)((i, dst) := None) \<and>
    replied env c (resp_header (CHR '':'') 0) c'"
proof -
  note r = ks_inv_ref[OF assms(2)]
  from dbDelete_spec[OF assms(1) r assms(3), of dst] obtain s1 where
    s1: "dbDelete s i dst = Some (s1, aK B (i, dst) \<noteq> None)" "rep s1 (a_delete (i, dst) B)" by blast
  obtain c' where c': "reply_shared env c shared_czero = Some c'" "replied env c shared_czero c'"
    using reply_shared_spec[OF assms(4)] by (metis shared_short(1))
  let ?s = "if aK B (i, dst) \<noteq> None then (signalModifiedKey s1 i dst)\<lparr>dirty := dirty (signalModifiedKey s1 i dst) + 1\<rparr> else s1"
  have "sinter_missing env s i c (Some dst) = Some (?s, c')" using s1(1) c'(1) by (simp add: sinter_missing_def Let_def)
  moreover have "rep ?s (a_delete (i, dst) B)" using s1(2) by simp
  ultimately show ?thesis using ks_inv_delete[OF assms(2)] a_val_delete[OF r] c'(2) unfolding czero_header by blast
qed

lemma sinter_sets_store:
  assumes "rep s B" "ks_inv B" "i < aD B" "cl_ok env c" "a_room B i" "sets \<noteq> []" "\<And>a. a \<in> set sets \<Longrightarrow> is_set B a \<and> a \<noteq> aN B \<and> card (a_set B a) < set_limit"
  shows "\<exists>s' c' A'. sinter_sets env s i c sets (Some dst) = Some (s', c') \<and> rep s' A' \<and> ks_inv A' \<and>
    a_val A' = (a_val B)((i, dst) := stored (\<Inter>a \<in> set sets. a_set B a)) \<and>
    replied env c (resp_header (CHR '':'') (int (card (\<Inter>a \<in> set sets. a_set B a)))) c'"
proof -
  obtain a0 as where sets: "sets = a0 # as" using assms(6) by (cases sets) auto
  let ?B = "a_new (A_set {}) B" and ?R = "\<Inter>a \<in> set sets. a_set B a"
  obtain s1 where s1: "createObject env s (V_set createIntsetObject) = (s1, aN B)" "rep s1 ?B"
    using create_spec[OF assms(1) new_set_inv(1), of env] new_set_inv(2) by auto
  have a0: "is_set B a0" "a0 \<noteq> aN B" "card (a_set B a0) < set_limit" using assms(7)[of a0] sets by auto
  then have a0': "is_set ?B a0" "a_set ?B a0 = a_set B a0" by simp_all
  from heap_elements_spec[OF s1(2) a0'(1)] obtain s2 els where
    s2: "heap_elements s1 a0 = Some (s2, els)" "rep s2 ?B" "list_all elem_ok els" "elem_str ` set els = a_set B a0" using a0'(2) by auto
  have as: "list_all (is_set ?B) as" "aN B \<notin> set as" "\<And>a. a \<in> set as \<Longrightarrow> a_set ?B a = a_set B a"
    using assms(7) sets by (auto simp: list_all_iff)
  have "card (a_set ?B (aN B) \<union> elem_str ` set els) < set_limit" using s2(4) a0(3) by simp
  from inter_loop_store[OF s2(2) as(1) a_new_simps(6) as(2) s2(3) this, of env c a0 0] obtain s3 where
    s3: "inter_loop env s2 c a0 as (Some (aN B)) 0 els = Some (s3, c, 0)"
    "rep s3 (a_new (A_set {x \<in> a_set B a0. \<forall>a \<in> set as. a = a0 \<or> x \<in> a_set ?B a}) B)" using s2(4) by auto
  have R: "{x \<in> a_set B a0. \<forall>a \<in> set as. a = a0 \<or> x \<in> a_set ?B a} = ?R" using as(3) sets by auto
  have fin: "finite ?R" using a_set_finite[OF assms(1), of a0] sets by (auto intro: finite_subset)
  have "card ?R \<le> card (a_set B a0)" using a_set_finite[OF assms(1)] sets by (intro card_mono) auto
  then have lim: "card ?R < set_limit" using a0(3) by linarith
  have fresh: "aH B (aN B) = None" using rep_fresh[OF assms(1)] by simp
  from store_result_spec[OF s3(2)[unfolded R] assms(2-5) fresh fin lim, of dst "''sinterstore''"] obtain s' c' A' where
    r: "store_result env s3 i c dst (aN B) ''sinterstore'' = Some (s', c')" "rep s' A'" "ks_inv A'" "a_val A' = (a_val B)((i, dst) := stored ?R)"
    "replied env c (resp_header (CHR '':'') (int (card ?R))) c'" by blast
  have "sinter_sets env s i c sets (Some dst) = Some (s', c')" unfolding sinter_sets_def sets using s1(1) s2(1) s3(1) r(1) by simp
  then show ?thesis using r(2-5) by blast
qed

text \<open>The sorted array of sets, when all keys hold sets.\<close>

lemma inter_sorted:
  assumes "rep s B" "purged env P A B" "P = Pair i ` set ks" "\<forall>k \<in> set ks. \<not> wrong_type env A (i, k)" "\<forall>k \<in> set ks. a_ptr env A (i, k) \<noteq> None"
    "qsort_ok env" "ks \<noteq> []"
  defines "qs \<equiv> map the (qsort env (qsortCompareSetsByCardinality s) (map (\<lambda>k. a_ptr env A (i, k)) ks))"
  shows "qs \<noteq> []" "(\<Inter>a \<in> set qs. a_set B a) = (\<Inter>k \<in> set ks. live_set env A (i, k))"
    "a \<in> set qs \<Longrightarrow> \<exists>k \<in> set ks. is_set B a \<and> a \<noteq> aN B \<and> a_set B a = live_set env A (i, k)"
proof -
  let ?sets = "map (\<lambda>k. a_ptr env A (i, k)) ks"
  have "mset (qsort env (qsortCompareSetsByCardinality s) ?sets) = mset ?sets" using assms(6) by (simp add: qsort_ok_def)
  then have q: "set (qsort env (qsortCompareSetsByCardinality s) ?sets) = set ?sets" by (rule mset_eq_setD)
  then have set: "set qs = (\<lambda>k. the (a_ptr env A (i, k))) ` set ks" by (simp add: qs_def image_image)
  then show "qs \<noteq> []" using assms(7) by (metis image_is_empty set_empty)
  have p: "is_set B (the (a_ptr env A (i, k))) \<and> a_set B (the (a_ptr env A (i, k))) = live_set env A (i, k) \<and> the (a_ptr env A (i, k)) \<noteq> aN B"
    if k: "k \<in> set ks" for k
  proof -
    obtain a where a: "a_ptr env A (i, k) = Some a" using assms(5) k by auto
    have "(i, k) \<in> P" "\<not> wrong_type env A (i, k)" using assms(3,4) k by auto
    from ptr_set(2)[OF assms(1,2) this a] show ?thesis using a by simp
  qed
  show "(\<Inter>a \<in> set qs. a_set B a) = (\<Inter>k \<in> set ks. live_set env A (i, k))" unfolding set using p by simp
  show "a \<in> set qs \<Longrightarrow> \<exists>k \<in> set ks. is_set B a \<and> a \<noteq> aN B \<and> a_set B a = live_set env A (i, k)" unfolding set using p by auto
qed

lemma sinter_store:
  assumes "rep s A" "ks_inv A" "i < aD A" "cl_ok env c" "a_room A i" "qsort_ok env" "ks \<noteq> []"
    "\<forall>k \<in> set ks. settled env (length ks) A (i, k) \<and> \<not> wrong_type env A (i, k) \<and> card (live_set env A (i, k)) < set_limit"
  defines "R \<equiv> \<Inter>k \<in> set ks. live_set env A (i, k)"
  shows "\<exists>s' c' A' P. sinterGenericCommand env s i c ks (Some dst) = Some (s', c') \<and> rep s' A' \<and> ks_inv A' \<and> P \<subseteq> Pair i ` set ks \<and>
    a_val A' = (\<lambda>p. if p \<in> P \<and> a_gone env p A then None else a_val A p)((i, dst) := stored R) \<and>
    replied env c (resp_header (CHR '':'') (int (card R))) c'"
proof -
  have st: "\<forall>k \<in> set ks. settled env (length ks) A (i, k) \<and> \<not> wrong_type env A (i, k)" using assms(8) by blast
  from inter_sets_spec[OF assms(1) purged_refl[OF assms(2)] st assms(3) le_refl, of True "[]"] obtain s1 B P where
    u: "inter_sets env s i True ks [] = Some (s1, if \<exists>k \<in> set ks. a_ptr env A (i, k) = None then Missing else Sets (map (\<lambda>k. a_ptr env A (i, k)) ks))"
    "rep s1 B" "purged env P A B" "P \<subseteq> Pair i ` set ks" "(\<forall>k \<in> set ks. a_ptr env A (i, k) \<noteq> None) \<longrightarrow> P = Pair i ` set ks" unfolding append_Nil Un_empty_left by (elim exE conjE) (rule that)
  have B: "ks_inv B" "i < aD B" "a_room B i" "a_val B = (\<lambda>p. if p \<in> P \<and> a_gone env p A then None else a_val A p)"
    using u(3) assms(3) purged_room[OF u(3) assms(2,5)] unfolding purged_def by simp_all
  show ?thesis
  proof (cases "\<exists>k \<in> set ks. a_ptr env A (i, k) = None")
    case True
    then obtain k where k: "k \<in> set ks" "a_ptr env A (i, k) = None" by blast
    then have "a_live env A (i, k) = None" by (auto simp: a_ptr_def a_live_def a_val_def split: if_splits)
    then have "R = {}" using k(1) by (auto simp: R_def live_set_def)
    from sinter_missing_store[OF u(2) B(1,2) assms(4), of dst] obtain s' c' A' where
      r: "sinter_missing env s1 i c (Some dst) = Some (s', c')" "rep s' A'" "ks_inv A'" "a_val A' = (a_val B)((i, dst) := None)"
      "replied env c (resp_header (CHR '':'') 0) c'" by blast
    have "sinterGenericCommand env s i c ks (Some dst) = Some (s', c')" unfolding sinterGenericCommand_def using u(1)[unfolded if_P[OF True]] r(1) by simp
    then show ?thesis using r(2-5) u(4) B(4) \<open>R = {}\<close> by (intro exI[of _ s'] exI[of _ c'] exI[of _ A'] exI[of _ P]) (simp add: stored_def)
  next
    case False
    let ?qs = "map the (qsort env (qsortCompareSetsByCardinality s1) (map (\<lambda>k. a_ptr env A (i, k)) ks))"
    have np: "\<forall>k \<in> set ks. a_ptr env A (i, k) \<noteq> None" using False by simp
    then have P: "P = Pair i ` set ks" by (rule mp[OF u(5)])
    have nw: "\<forall>k \<in> set ks. \<not> wrong_type env A (i, k)" using st by blast
    note q = inter_sorted[OF u(2,3) P nw np assms(6,7)]
    have all: "is_set B a \<and> a \<noteq> aN B \<and> card (a_set B a) < set_limit" if "a \<in> set ?qs" for a
      using q(3)[OF that] assms(8) by auto
    have R: "(\<Inter>a \<in> set ?qs. a_set B a) = R" unfolding R_def by (rule q(2))
    from sinter_sets_store[OF u(2) B(1,2) assms(4) B(3) q(1) all, of dst] obtain s' c' A' where
      "sinter_sets env s1 i c ?qs (Some dst) = Some (s', c')" "rep s' A'" "ks_inv A'" "a_val A' = (a_val B)((i, dst) := stored R)"
      "replied env c (resp_header (CHR '':'') (int (card R))) c'" unfolding R by blast
    moreover have "sinterGenericCommand env s i c ks (Some dst) = sinter_sets env s1 i c ?qs (Some dst)"
      unfolding sinterGenericCommand_def using u(1)[unfolded if_not_P[OF False]] by simp
    ultimately show ?thesis using u(4) B(4) by (intro exI[of _ s'] exI[of _ c'] exI[of _ A'] exI[of _ P]) simp
  qed
qed

subsection \<open>Adding and removing elements\<close>

lemma encode_arg_spec: "length v < 2 ^ 31 \<Longrightarrow> obj_str (encode_arg env v) = v \<and> obj_ok (encode_arg env v)"
  unfolding encode_arg_def using tryObjectEncoding_str[of "share_ints env" "ENC_RAW v"] tryObjectEncoding_ok[of "ENC_RAW v" "share_ints env"] by simp

text \<open>Arguments are shorter than 512 megabytes, which the parser of requests ensures.\<close>

definition args_ok :: "string list \<Rightarrow> bool" where
  "args_ok vs \<longleftrightarrow> list_all (\<lambda>v. length v < 2 ^ 31) vs \<and> length vs < 2 ^ 31"

lemma sadd_loop_spec:
  assumes "rep s A" "is_set A a" "list_all (\<lambda>v. length v < 2 ^ 31) vs" "card (a_set A a \<union> set vs) < set_limit"
  shows "\<exists>s'. sadd_loop env s a vs n = Some (s', n + (card (a_set A a \<union> set vs) - card (a_set A a))) \<and> rep s' (a_put a (a_set A a \<union> set vs) A)"
  using assms
proof (induction vs arbitrary: s A n)
  case Nil
  then show ?case using a_put_same by simp
next
  case (Cons v vs)
  let ?S = "a_set A a" and ?e = "encode_arg env v"
  have e: "obj_str ?e = v" "obj_ok ?e" using encode_arg_spec Cons.prems(3) by simp_all
  have fin: "finite ?S" using Cons.prems(1) by (rule a_set_finite)
  have le: "card ?S \<le> card (insert v ?S)" "card (insert v ?S) \<le> card (?S \<union> set (v # vs))" using fin by (auto intro!: card_mono)
  then have "card ?S < set_limit" using Cons.prems(4) by linarith
  from heap_add_spec[OF Cons.prems(1,2) e(2) this, of env] obtain s1 where
    s1: "heap_add env s a ?e = Some (s1, v \<notin> ?S)" "rep s1 (a_put a (insert v ?S) A)" unfolding e(1) by blast
  note pg = put_grow[OF Cons.prems(2), of "insert v ?S"]
  have un: "insert v ?S \<union> set vs = ?S \<union> set (v # vs)" by auto
  have ci: "card (insert v ?S) = card ?S + (if v \<in> ?S then 0 else 1)" using fin by (simp add: card_insert_if)
  have "card (a_set (a_put a (insert v ?S) A) a \<union> set vs) < set_limit" unfolding pg(2) un by (rule Cons.prems(4))
  from Cons.IH[OF s1(2) pg(1) _ this, of "if v \<notin> ?S then n + 1 else n"] Cons.prems(3) obtain s2 where
    s2: "sadd_loop env s1 a vs (if v \<notin> ?S then n + 1 else n) =
      Some (s2, (if v \<notin> ?S then n + 1 else n) + (card (?S \<union> set (v # vs)) - card (insert v ?S)))" "rep s2 (a_put a (?S \<union> set (v # vs)) A)"
    unfolding pg(2) un a_put_simps(6) by auto
  have "(if v \<notin> ?S then n + 1 else n) + (card (?S \<union> set (v # vs)) - card (insert v ?S)) = n + (card (?S \<union> set (v # vs)) - card ?S)"
    using le ci by auto
  then show ?case using s1(1) s2 by simp
qed

lemma put_refs:
  assumes "is_set A a"
  shows "a_refs (a_put a S A) = a_refs A" "a_cnt (a_put a S A) = a_cnt A" "\<forall>b v. aH A b \<noteq> Some (0, v) \<Longrightarrow> aH (a_put a S A) b \<noteq> Some (0, v)"
proof -
  obtain n where n: "aH A a = Some (n, A_set (a_set A a))" using assms by (rule is_setE)
  show "a_refs (a_put a S A) = a_refs A" by (simp add: a_refs_def fun_eq_iff a_put_def)
  show "a_cnt (a_put a S A) = a_cnt A" using n by (simp add: a_cnt_def fun_eq_iff a_put_def)
  show "aH (a_put a S A) b \<noteq> Some (0, v)" if "\<forall>b v. aH A b \<noteq> Some (0, v)" using that n by (auto simp: a_put_def)
qed

lemma put_ref:
  assumes "ref_ok {#} A" "is_set A a"
  shows "ref_ok {#} (a_put a S A)"
  using assms(1) put_refs[OF assms(2), of S] unfolding ref_ok_def by simp

lemma put_inv:
  assumes "ks_inv A" "aK A p = Some a" "is_set A a"
  shows "S \<noteq> {} \<Longrightarrow> ks_inv (a_put a S A)" "a_val (a_put a S A) = (a_val A)(p \<mapsto> A_set S)" "a_delete p (a_put a S A) = a_delete p A"
proof -
  obtain n where n: "aH A a = Some (n, A_set (a_set A a))" using assms(3) by (rule is_setE)
  have n1: "n = 1" using assms(1) n by (auto simp: ks_inv_def)
  note ref = put_ref[OF ks_inv_ref[OF assms(1)] assms(3), of S]
  show "ks_inv (a_put a S A)" if "S \<noteq> {}" unfolding ks_inv_def
  proof (intro conjI allI impI)
    fix b m T
    assume b: "aH (a_put a S A) b = Some (m, A_set T)"
    show "m = 1" "T \<noteq> {}"
    proof -
      have "b = a \<and> m = n \<and> T = S \<or> aH A b = Some (m, A_set T)" using b n by (cases "b = a") (simp_all add: a_put_def)
      then show "m = 1" "T \<noteq> {}" using n1 that assms(1) unfolding ks_inv_def by blast+
    qed
  qed (rule ref)
  have u: "q = p" if "aK A q = Some a" for q
    using set_refs[OF ks_inv_ref[OF assms(1)] n] n1 that assms(2) by blast
  show "a_val (a_put a S A) = (a_val A)(p \<mapsto> A_set S)"
  proof
    fix q
    show "a_val (a_put a S A) q = ((a_val A)(p \<mapsto> A_set S)) q"
    proof (cases "q = p")
      case True
      then show ?thesis using assms(2) n by (simp add: a_val_def a_put_def)
    next
      case False
      then have "aK A q \<noteq> Some a" using u by blast
      then show ?thesis using False by (simp add: a_val_def a_put_def split: option.split)
    qed
  qed
  show "a_delete p (a_put a S A) = a_delete p A" using assms(2) n n1 by (simp add: a_delete_def a_put_def a_decr_def a_unlink_def)
qed

lemma sadd_found_spec:
  assumes "rep s A" "is_set A a" "args_ok (drop 2 (argv c))" "card (a_set A a \<union> set (drop 2 (argv c))) < set_limit" "cl_ok env c"
  shows "\<exists>s' c'. sadd_found env s i c key a = Some (s', c') \<and> rep s' (a_put a (a_set A a \<union> set (drop 2 (argv c))) A) \<and>
    replied env c (resp_header (CHR '':'') (int (card (a_set A a \<union> set (drop 2 (argv c))) - card (a_set A a)))) c'"
proof -
  let ?vs = "drop 2 (argv c)" and ?n = "card (a_set A a \<union> set (drop 2 (argv c))) - card (a_set A a)"
  from sadd_loop_spec[OF assms(1,2) _ assms(4), of env 0] assms(3) obtain s1 where
    s1: "sadd_loop env s a ?vs 0 = Some (s1, ?n)" "rep s1 (a_put a (a_set A a \<union> set ?vs) A)" by (auto simp: args_ok_def)
  have "int ?n < 2 ^ 63" using assms(4) by (simp add: set_limit_def)
  then obtain c' where c': "reply_int env c (int ?n) = Some c'" "replied env c (resp_header (CHR '':'') (int ?n)) c'"
    using reply_int_spec[OF assms(5), of "int ?n"] by auto
  let ?s = "if ?n \<noteq> 0 then note_event (signalModifiedKey s1 i key) (Notify REDIS_NOTIFY_SET ''sadd'' key i) else s1"
  have "sadd_found env s i c key a = Some (?s\<lparr>dirty := dirty ?s + int ?n\<rparr>, c')" using s1(1) c'(1) by (simp add: sadd_found_def Let_def)
  moreover have "rep (?s\<lparr>dirty := dirty ?s + int ?n\<rparr>) (a_put a (a_set A a \<union> set ?vs) A)" using s1(2) by simp
  ultimately show ?thesis using c'(2) by blast
qed

text \<open>What SADD leaves: the elements are added to the set that the lookup finds, or to a new one.\<close>

lemma saddCommand_spec:
  assumes "rep s A" "ks_inv A" "i < aD A" "cl_ok env c" "a_room A i" "argv c = cmd # key # v # vs" "args_ok (v # vs)"
    "\<not> wrong_type env A (i, key)" "card (live_set env A (i, key) \<union> set (v # vs)) < set_limit"
  shows "\<exists>s' c' A'. saddCommand env s i c = Some (s', c') \<and> rep s' A' \<and> ks_inv A' \<and>
    a_val A' = (a_val A)((i, key) \<mapsto> A_set (live_set env A (i, key) \<union> set (v # vs))) \<and>
    aE A' = aE (fst (a_expire env (i, key) A)) \<and> aD A' = aD A \<and>
    replied env c (resp_header (CHR '':'') (int (card (live_set env A (i, key) \<union> set (v # vs)) - card (live_set env A (i, key))))) c'"
proof -
  let ?p = "(i, key)" and ?B = "fst (a_expire env (i, key) A)" and ?S = "live_set env A (i, key)"
  from lookupKeyWrite_spec[OF assms(1) ks_inv_ref[OF assms(2)] assms(3), of env key] obtain s1 where
    s1: "lookupKeyWrite env s i key = Some (s1, aK ?B ?p)" "rep s1 ?B" by blast
  note v = a_val_expire[OF ks_inv_ref[OF assms(2)], of env ?p]
  have B: "ks_inv ?B" "i < aD ?B" using ks_inv_expire[OF assms(2)] assms(3) by simp_all
  have live: "a_val ?B ?p = a_live env A ?p" "(a_val ?B)(?p \<mapsto> x) = (a_val A)(?p \<mapsto> x)" for x unfolding v(1) by (simp_all add: a_live_def)
  have args: "arr_get (argv c) 1 = Some key" "arr_get (argv c) 2 = Some v" "drop 2 (argv c) = v # vs" using assms(6) by (simp_all add: arr_get_def)
  show ?thesis
  proof (cases "aK ?B ?p")
    case None
    then have S: "?S = {}" using live by (simp add: live_set_def a_val_def)
    let ?C = "a_new (A_set {}) ?B" and ?so = "setTypeCreate (set_env.truncate env) (ENC_RAW v)"
    obtain s2 where s2: "createObject env s1 (V_set ?so) = (s2, aN ?B)" "rep s2 ?C"
      using create_spec[OF s1(2), of ?so env] setTypeCreate_spec by auto
    have room: "a_room ?C i" by (rule a_room_mono[OF assms(5) ref_okD(1)[OF ks_inv_ref[OF assms(2)]]]) (use v(3) in \<open>auto split: if_splits\<close>)
    have C: "i < aD ?C" "aK ?C ?p = None" "aH ?C (aN ?B) \<noteq> None" using B(2) None by (simp_all add: a_new_def)
    from dbAdd_spec[OF s2(2) C(1,2) room C(3), of env] obtain s3 where s3: "dbAdd env s2 i key (aN ?B) = Some s3" "rep s3 (a_link ?p (aN ?B) ?C)" by blast
    have L: "is_set (a_link ?p (aN ?B) ?C) (aN ?B)" "a_set (a_link ?p (aN ?B) ?C) (aN ?B) = {}" by (simp_all add: is_set_def a_set_def a_new_def)
    have a2: "args_ok (drop 2 (argv c))" "card (a_set (a_link ?p (aN ?B) ?C) (aN ?B) \<union> set (drop 2 (argv c))) < set_limit"
      using assms(7,9) S L(2) args(3) by simp_all
    from sadd_found_spec[OF s3(2) L(1) a2 assms(4), of i key] obtain s4 c' where
      s4: "sadd_found env s3 i c key (aN ?B) = Some (s4, c')" "rep s4 (a_put (aN ?B) (set (v # vs)) (a_link ?p (aN ?B) ?C))"
      "replied env c (resp_header (CHR '':'') (int (card (?S \<union> set (v # vs)) - card ?S))) c'" unfolding L(2) args(3) S by auto
    have pl: "a_put (aN ?B) T (a_link ?p (aN ?B) ?C) = a_link ?p (aN ?B) (a_new (A_set T) ?B)" for T by (simp add: a_put_def a_link_def a_new_def)
    have fresh: "aH ?B (aN ?B) = None" using rep_fresh[OF s1(2)] by simp
    have "fst ?p < aD ?B" "set (v # vs) \<noteq> {}" using B(2) by simp_all
    note st = ks_inv_store[OF B(1) fresh None this]
    have "saddCommand env s i c = Some (s4, c')" unfolding saddCommand_def using args(1,2) s1(1) None s2(1) s3(1) s4(1) by simp
    then show ?thesis using s4(2,3) st live(2) S unfolding pl by auto
  next
    case (Some a)
    from val_obj[OF s1(2) B(1) Some] have st0: "is_set ?B a" "a_val ?B ?p = Some (A_set (a_set ?B a))"
      using assms(8) live(1) by (auto simp: wrong_type_def)
    then have S: "a_set ?B a = ?S" using live(1) by (simp add: live_set_def)
    have a2: "args_ok (drop 2 (argv c))" "card (a_set ?B a \<union> set (drop 2 (argv c))) < set_limit" using assms(7,9) S args(3) by simp_all
    from sadd_found_spec[OF s1(2) st0(1) a2 assms(4), of i key] obtain s4 c' where
      s4: "sadd_found env s1 i c key a = Some (s4, c')" "rep s4 (a_put a (?S \<union> set (v # vs)) ?B)"
      "replied env c (resp_header (CHR '':'') (int (card (?S \<union> set (v # vs)) - card ?S))) c'" unfolding S args(3) by blast
    have "?S \<union> set (v # vs) \<noteq> {}" by simp
    note st = put_inv(1)[OF B(1) Some st0(1) this] put_inv(2)[OF B(1) Some st0(1), of "?S \<union> set (v # vs)"]
    have "saddCommand env s i c = Some (s4, c')" unfolding saddCommand_def using args(1) s1(1) Some checkType_set[OF s1(2) st0(1)] s4(1) by simp
    then show ?thesis using s4(2,3) st live(2) by auto
  qed
qed

lemma count_step: "(c :: nat) = (if b then 1 else 0) + d \<Longrightarrow> e \<le> d \<Longrightarrow> (if b then n + 1 else n) + (d - e) = n + (c - e)"
  by (cases b) simp_all

lemma srem_loop_spec:
  assumes "rep s A" "ks_inv A" "aK A (i, key) = Some a" "is_set A a" "i < aD A" "list_all (\<lambda>v. length v < 2 ^ 31) vs"
  shows "\<exists>s'. srem_loop env s i key a vs n = Some (s', n + (card (a_set A a) - card (a_set A a - set vs)), a_set A a - set vs = {}) \<and>
    rep s' (if a_set A a - set vs = {} then a_delete (i, key) A else a_put a (a_set A a - set vs) A)"
  using assms
proof (induction vs arbitrary: s A n)
  case Nil
  have "a_set A a \<noteq> {}" using Nil.prems(2,4) by (auto simp: ks_inv_def elim!: is_setE)
  then show ?case using Nil.prems(1) a_put_same[OF Nil.prems(4)] by simp
next
  case (Cons v vs)
  let ?S = "a_set A a" and ?A = "a_put a (a_set A a - {v}) A"
  have v: "obj_ok (ENC_RAW v)" "list_all (\<lambda>v. length v < 2 ^ 31) vs" using Cons.prems(6) by simp_all
  have fin: "finite ?S" using Cons.prems(1) by (rule a_set_finite)
  from heap_rem_spec[OF Cons.prems(1,4) v(1), of env] obtain s1 where
    s1: "heap_rem env s a (ENC_RAW v) = Some (s1, v \<in> ?S)" "rep s1 ?A" by auto
  note pg = put_grow[OF Cons.prems(4), of "?S - {v}"]
  note r = put_ref[OF ks_inv_ref[OF Cons.prems(2)] Cons.prems(4), of "?S - {v}"]
  have D: "i < aD ?A" "aK ?A (i, key) = Some a" using Cons.prems(3,5) by simp_all
  have un: "?S - {v} - set vs = ?S - set (v # vs)" by auto
  have sz: "heap_size s1 a = Some (card (?S - {v}))" using heap_size_spec[OF s1(2) pg(1)] unfolding pg(2) .
  show ?case
  proof (cases "?S - {v} = {}")
    case True
    have "?S \<noteq> {}" using Cons.prems(2,4) by (auto simp: ks_inv_def elim!: is_setE)
    then have S: "?S = {v}" using True by auto
    from dbDelete_spec[OF s1(2) r D(1), of key] obtain s2 where
      s2: "dbDelete s1 i key = Some (s2, aK ?A (i, key) \<noteq> None)" "rep s2 (a_delete (i, key) ?A)" by blast
    have "a_delete (i, key) ?A = a_delete (i, key) A" by (rule put_inv(3)[OF Cons.prems(2,3,4)])
    moreover have "srem_loop env s i key a (v # vs) n = Some (s2, n + 1, True)" using s1(1) sz s2(1) S by simp
    ultimately show ?thesis using s2(2) S by simp
  next
    case False
    note k = put_inv(1)[OF Cons.prems(2,3,4) False]
    let ?n = "if v \<in> ?S then n + 1 else n"
    from Cons.IH[OF s1(2) k D(2) pg(1) D(1) v(2), of ?n] obtain s2 where
      s2: "srem_loop env s1 i key a vs ?n = Some (s2, ?n + (card (?S - {v}) - card (?S - set (v # vs))), ?S - set (v # vs) = {})"
      "rep s2 (if ?S - set (v # vs) = {} then a_delete (i, key) A else a_put a (?S - set (v # vs)) A)"
      unfolding pg(2) un a_put_simps(6) put_inv(3)[OF Cons.prems(2,3,4)] by blast
    have c: "card ?S = (if v \<in> ?S then 1 else 0) + card (?S - {v})"
    proof (cases "v \<in> ?S")
      case True
      then show ?thesis unfolding if_P[OF True] using card.remove[OF fin True] by linarith
    qed simp
    have "card (?S - set (v # vs)) \<le> card (?S - {v})" using fin by (intro card_mono) auto
    with c have "?n + (card (?S - {v}) - card (?S - set (v # vs))) = n + (card ?S - card (?S - set (v # vs)))" by (rule count_step)
    moreover obtain m where m: "heap_size s1 a = Some m" "m \<noteq> 0" using sz False fin finite_Diff card_0_eq by metis
    have "srem_loop env s i key a (v # vs) n = srem_loop env s1 i key a vs ?n" using s1(1) m by simp
    ultimately show ?thesis using s2 by simp
  qed
qed

lemma srem_found_spec:
  assumes "rep s A" "ks_inv A" "aK A (i, key) = Some a" "is_set A a" "i < aD A" "args_ok (drop 2 (argv c))" "cl_ok env c" "card (a_set A a) < 2 ^ 62"
  shows "\<exists>s' c' A'. srem_found env s i c key a = Some (s', c') \<and> rep s' A' \<and> ks_inv A' \<and>
    a_val A' = (a_val A)((i, key) := stored (a_set A a - set (drop 2 (argv c)))) \<and>
    replied env c (resp_header (CHR '':'') (int (card (a_set A a) - card (a_set A a - set (drop 2 (argv c)))))) c'"
proof -
  let ?vs = "drop 2 (argv c)" and ?S = "a_set A a"
  let ?R = "?S - set ?vs" and ?n = "card ?S - card (?S - set ?vs)"
  let ?A = "if ?R = {} then a_delete (i, key) A else a_put a ?R A"
  from assms(6) have l: "list_all (\<lambda>v. length v < 2 ^ 31) ?vs" by (simp add: args_ok_def)
  from srem_loop_spec[OF assms(1-5) l, of env 0] obtain s1 where
    s1: "srem_loop env s i key a ?vs 0 = Some (s1, ?n, ?R = {})" "rep s1 ?A" by auto
  have "- (2 ^ 63) \<le> int ?n" "int ?n < 2 ^ 63" using assms(8) by simp_all
  then obtain c' where c': "reply_int env c (int ?n) = Some c'" "replied env c (resp_header (CHR '':'') (int ?n)) c'"
    using reply_int_spec[OF assms(7)] by blast
  let ?s1 = "note_event (signalModifiedKey s1 i key) (Notify REDIS_NOTIFY_SET ''srem'' key i)"
  let ?s2 = "if ?R = {} then note_event ?s1 (Notify REDIS_NOTIFY_GENERIC ''del'' key i) else ?s1"
  let ?s = "if ?n \<noteq> 0 then ?s2\<lparr>dirty := dirty ?s2 + int ?n\<rparr> else s1"
  have "srem_found env s i c key a = Some (?s, c')" unfolding srem_found_def Let_def using s1(1) c'(1) by simp
  moreover have "rep s1 X \<Longrightarrow> rep ?s X" for X by simp
  then have "rep ?s ?A" using s1(2) .
  moreover have "ks_inv ?A" using ks_inv_delete[OF assms(2)] put_inv(1)[OF assms(2-4)] by simp
  moreover have "a_val ?A = (a_val A)((i, key) := stored ?R)"
    using a_val_delete[OF ks_inv_ref[OF assms(2)], of "(i, key)"] put_inv(2)[OF assms(2-4), of ?R] by (simp add: stored_def)
  ultimately show ?thesis using c'(2) by (intro exI[of _ ?s] exI[of _ c'] exI[of _ ?A]) simp
qed

text \<open>What SREM leaves: the set without the elements, and no key when none is left.\<close>

lemma sremCommand_spec:
  assumes "rep s A" "ks_inv A" "i < aD A" "cl_ok env c" "argv c = cmd # key # vs" "args_ok vs"
    "\<not> wrong_type env A (i, key)" "card (live_set env A (i, key)) < set_limit"
  shows "\<exists>s' c' A'. sremCommand env s i c = Some (s', c') \<and> rep s' A' \<and> ks_inv A' \<and>
    a_val A' = (a_val A)((i, key) := stored (live_set env A (i, key) - set vs)) \<and>
    replied env c (resp_header (CHR '':'') (int (card (live_set env A (i, key)) - card (live_set env A (i, key) - set vs)))) c'"
proof -
  let ?p = "(i, key)" and ?B = "fst (a_expire env (i, key) A)" and ?S = "live_set env A (i, key)"
  from lookupKeyWrite_spec[OF assms(1) ks_inv_ref[OF assms(2)] assms(3), of env key] obtain s1 where
    s1: "lookupKeyWrite env s i key = Some (s1, aK ?B ?p)" "rep s1 ?B" by blast
  note v = a_val_expire[OF ks_inv_ref[OF assms(2)], of env ?p]
  have B: "ks_inv ?B" "i < aD ?B" using ks_inv_expire[OF assms(2)] assms(3) by simp_all
  have live: "a_val ?B ?p = a_live env A ?p" "(a_val ?B)(?p := x) = (a_val A)(?p := x)" for x unfolding v(1) by (simp_all add: a_live_def)
  have args: "arr_get (argv c) 1 = Some key" "drop 2 (argv c) = vs" using assms(5) by (simp_all add: arr_get_def)
  show ?thesis
  proof (cases "aK ?B ?p")
    case None
    then have n: "a_val ?B ?p = None" by (simp add: a_val_def)
    then have S: "?S = {}" using live by (simp add: live_set_def)
    from reply_shared_spec[OF assms(4), of shared_czero] obtain c' where
      c': "reply_shared env c shared_czero = Some c'" "replied env c shared_czero c'" using shared_short(1) by blast
    have "sremCommand env s i c = Some (s1, c')" unfolding sremCommand_def using args(1) s1(1) None c'(1) by simp
    moreover have "(a_val A)(?p := stored (?S - set vs)) = a_val ?B" using n live(2)[of None] S by (simp add: stored_def fun_upd_idem)
    ultimately show ?thesis using s1(2) B(1) c'(2) S by (intro exI[of _ s1] exI[of _ c'] exI[of _ ?B]) (simp add: czero_header)
  next
    case (Some a)
    from val_obj[OF s1(2) B(1) Some] have st0: "is_set ?B a" "a_val ?B ?p = Some (A_set (a_set ?B a))"
      using assms(7) live(1) by (auto simp: wrong_type_def)
    then have S: "a_set ?B a = ?S" using live(1) by (simp add: live_set_def)
    have a2: "args_ok (drop 2 (argv c))" "card (a_set ?B a) < 2 ^ 62" using assms(6,8) S args(2) by (simp_all add: set_limit_def)
    from srem_found_spec[OF s1(2) B(1) Some st0(1) B(2) a2(1) assms(4) a2(2)] obtain s4 c' A' where
      s4: "srem_found env s1 i c key a = Some (s4, c')" "rep s4 A'" "ks_inv A'" "a_val A' = (a_val ?B)(?p := stored (?S - set vs))"
      "replied env c (resp_header (CHR '':'') (int (card ?S - card (?S - set vs)))) c'" unfolding S args(2) by blast
    have "sremCommand env s i c = Some (s4, c')" unfolding sremCommand_def using args(1) s1(1) Some checkType_set[OF s1(2) st0(1)] s4(1) by simp
    then show ?thesis using s4(2-5) unfolding live(2) by (intro exI[of _ s4] exI[of _ c'] exI[of _ A']) simp
  qed
qed

text \<open>SISMEMBER and SCARD: the answer about the set that the lookup finds.\<close>

lemma sismemberCommand_spec:
  assumes "rep s A" "ks_inv A" "i < aD A" "cl_ok env c" "argv c = [cmd, key, v]" "length v < 2 ^ 31" "\<not> wrong_type env A (i, key)"
  shows "\<exists>s' c'. sismemberCommand env s i c = Some (s', c') \<and> rep s' (fst (a_expire env (i, key) A)) \<and>
    replied env c (if v \<in> live_set env A (i, key) then shared_cone else shared_czero) c'"
proof -
  let ?p = "(i, key)" and ?B = "fst (a_expire env (i, key) A)" and ?S = "live_set env A (i, key)"
  from lookupKeyRead_spec[OF assms(1) ks_inv_ref[OF assms(2)] assms(3), of env key] obtain s1 where
    s1: "lookupKeyRead env s i key = Some (s1, aK ?B ?p)" "rep s1 ?B" by blast
  note v = a_val_expire[OF ks_inv_ref[OF assms(2)], of env ?p]
  have B: "ks_inv ?B" using ks_inv_expire[OF assms(2)] .
  have live: "a_val ?B ?p = a_live env A ?p" unfolding v(1) by (simp add: a_live_def)
  have args: "arr_get (argv c) 1 = Some key" "arr_get (argv c) 2 = Some v" using assms(5) by (simp_all add: arr_get_def)
  let ?t = "if v \<in> ?S then shared_cone else shared_czero"
  have "length ?t \<le> 100" using shared_short(1,2) by simp
  from reply_shared_spec[OF assms(4) this] obtain c' where c': "reply_shared env c ?t = Some c'" "replied env c ?t c'" by blast
  show ?thesis
  proof (cases "aK ?B ?p")
    case None
    then have "v \<notin> ?S" using live by (simp add: live_set_def a_val_def)
    then have "sismemberCommand env s i c = Some (s1, c')" unfolding sismemberCommand_def using args s1(1) None c'(1) by simp
    then show ?thesis using s1(2) c'(2) by blast
  next
    case (Some a)
    from val_obj[OF s1(2) B Some] have st0: "is_set ?B a" "a_val ?B ?p = Some (A_set (a_set ?B a))"
      using assms(7) live by (auto simp: wrong_type_def)
    then have S: "a_set ?B a = ?S" using live by (simp add: live_set_def)
    note e = encode_arg_spec[OF assms(6), of env]
    from heap_mem_spec[OF s1(2) st0(1), of "encode_arg env v"] e obtain s2 where
      s2: "heap_mem s1 a (encode_arg env v) = Some (s2, v \<in> ?S)" "rep s2 ?B" unfolding S by auto
    have "sismemberCommand env s i c = Some (s2, c')"
      unfolding sismemberCommand_def using args s1(1) Some checkType_set[OF s1(2) st0(1)] s2(1) c'(1) by simp
    then show ?thesis using s2(2) c'(2) by blast
  qed
qed

lemma scardCommand_spec:
  assumes "rep s A" "ks_inv A" "i < aD A" "cl_ok env c" "argv c = [cmd, key]" "\<not> wrong_type env A (i, key)" "card (live_set env A (i, key)) < set_limit"
  shows "\<exists>s' c'. scardCommand env s i c = Some (s', c') \<and> rep s' (fst (a_expire env (i, key) A)) \<and>
    replied env c (resp_header (CHR '':'') (int (card (live_set env A (i, key))))) c'"
proof -
  let ?p = "(i, key)" and ?B = "fst (a_expire env (i, key) A)" and ?S = "live_set env A (i, key)"
  from lookupKeyRead_spec[OF assms(1) ks_inv_ref[OF assms(2)] assms(3), of env key] obtain s1 where
    s1: "lookupKeyRead env s i key = Some (s1, aK ?B ?p)" "rep s1 ?B" by blast
  note v = a_val_expire[OF ks_inv_ref[OF assms(2)], of env ?p]
  have B: "ks_inv ?B" using ks_inv_expire[OF assms(2)] .
  have live: "a_val ?B ?p = a_live env A ?p" unfolding v(1) by (simp add: a_live_def)
  have args: "arr_get (argv c) 1 = Some key" using assms(5) by (simp add: arr_get_def)
  show ?thesis
  proof (cases "aK ?B ?p")
    case None
    then have S: "?S = {}" using live by (simp add: live_set_def a_val_def)
    from reply_shared_spec[OF assms(4), of shared_czero] obtain c' where
      c': "reply_shared env c shared_czero = Some c'" "replied env c shared_czero c'" using shared_short(1) by blast
    then have "scardCommand env s i c = Some (s1, c')" unfolding scardCommand_def using args s1(1) None by simp
    then show ?thesis using s1(2) c'(2) S by (simp add: czero_header)
  next
    case (Some a)
    from val_obj[OF s1(2) B Some] have st0: "is_set ?B a" "a_val ?B ?p = Some (A_set (a_set ?B a))"
      using assms(6) live by (auto simp: wrong_type_def)
    then have S: "a_set ?B a = ?S" using live by (simp add: live_set_def)
    have "- (2 ^ 63) \<le> int (card ?S)" "int (card ?S) < 2 ^ 63" using assms(7) by (simp_all add: set_limit_def)
    from reply_int_spec[OF assms(4) this] obtain c' where
      c': "reply_int env c (int (card ?S)) = Some c'" "replied env c (resp_header (CHR '':'') (int (card ?S))) c'" by blast
    have "scardCommand env s i c = Some (s1, c')"
      unfolding scardCommand_def using args s1(1) Some checkType_set[OF s1(2) st0(1)] heap_size_spec[OF s1(2) st0(1)] c'(1) S by simp
    then show ?thesis using s1(2) c'(2) by blast
  qed
qed

subsection \<open>Moving an element\<close>

text \<open>One element is added to the set under a key, which is created when there is none.\<close>

lemma smove_target:
  assumes "rep s C" "ks_inv C" "i < aD C" "a_room C i" "aK C (i, dst) = b" "\<And>a. b = Some a \<Longrightarrow> is_set C a" "obj_ok e"
    "D = (case b of None \<Rightarrow> {} | Some a \<Rightarrow> a_set C a)" "card D < set_limit"
  shows "\<exists>s1 a s2 A'. (case b of Some a \<Rightarrow> Some (s, a)
      | None \<Rightarrow> do { let (s, a) = createObject env s (V_set (setTypeCreate (set_env.truncate env) e)); s \<leftarrow> dbAdd env s i dst a; Some (s, a) }) = Some (s1, a) \<and>
    heap_add env s1 a e = Some (s2, obj_str e \<notin> D) \<and> rep s2 A' \<and> ks_inv A' \<and> a_val A' = (a_val C)((i, dst) \<mapsto> A_set (insert (obj_str e) D))"
proof (cases b)
  case None
  let ?C = "a_new (A_set {}) C" and ?so = "setTypeCreate (set_env.truncate env) e"
  have D: "D = {}" using assms(8) None by simp
  obtain s1 where s1: "createObject env s (V_set ?so) = (s1, aN C)" "rep s1 ?C" using create_spec[OF assms(1), of ?so env] setTypeCreate_spec by auto
  have room: "a_room ?C i" by (rule a_room_mono[OF assms(4) ref_okD(1)[OF ks_inv_ref[OF assms(2)]]]) simp
  have C: "i < aD ?C" "aK ?C (i, dst) = None" "aH ?C (aN C) \<noteq> None" using assms(3,5) None by (simp_all add: a_new_def)
  from dbAdd_spec[OF s1(2) C(1,2) room C(3), of env] obtain s2 where s2: "dbAdd env s1 i dst (aN C) = Some s2" "rep s2 (a_link (i, dst) (aN C) ?C)" by blast
  have L: "is_set (a_link (i, dst) (aN C) ?C) (aN C)" "a_set (a_link (i, dst) (aN C) ?C) (aN C) = {}" by (simp_all add: is_set_def a_set_def a_new_def)
  have "card (a_set (a_link (i, dst) (aN C) ?C) (aN C)) < set_limit" using assms(9) D L(2) by simp
  from heap_add_spec[OF s2(2) L(1) assms(7) this, of env] obtain s3 where
    s3: "heap_add env s2 (aN C) e = Some (s3, obj_str e \<notin> D)" "rep s3 (a_put (aN C) {obj_str e} (a_link (i, dst) (aN C) ?C))" unfolding L(2) D by blast
  have pl: "a_put (aN C) {obj_str e} (a_link (i, dst) (aN C) ?C) = a_link (i, dst) (aN C) (a_new (A_set {obj_str e}) C)"
    by (simp add: a_put_def a_link_def a_new_def)
  have fresh: "aH C (aN C) = None" "aK C (i, dst) = None" "fst (i, dst) < aD C" "{obj_str e} \<noteq> {}" using rep_fresh[OF assms(1)] assms(3,5) None by simp_all
  note st = ks_inv_store[OF assms(2) fresh]
  show ?thesis using None s1(1) s2(1) s3 st D unfolding pl
    by (intro exI[of _ s2] exI[of _ "aN C"] exI[of _ s3] exI[of _ "a_link (i, dst) (aN C) (a_new (A_set {obj_str e}) C)"]) simp
next
  case (Some a)
  have a: "is_set C a" "a_set C a = D" "aK C (i, dst) = Some a" using assms(5,6,8) Some by simp_all
  have "card (a_set C a) < set_limit" using assms(9) a(2) by simp
  from heap_add_spec[OF assms(1) a(1) assms(7) this, of env] obtain s2 where
    s2: "heap_add env s a e = Some (s2, obj_str e \<notin> D)" "rep s2 (a_put a (insert (obj_str e) D) C)" unfolding a(2) by blast
  have "insert (obj_str e) D \<noteq> {}" by simp
  note st = put_inv(1)[OF assms(2) a(3,1) this] put_inv(2)[OF assms(2) a(3,1), of "insert (obj_str e) D"]
  show ?thesis using Some s2 st by (intro exI[of _ s] exI[of _ a] exI[of _ s2] exI[of _ "a_put a (insert (obj_str e) D) C"]) simp
qed

text \<open>The source loses the element, and its key when nothing is left.\<close>

lemma smove_source:
  assumes "rep s (a_put a S B)" "ks_inv B" "aK B (i, src) = Some a" "is_set B a" "i < aD B"
  shows "\<exists>s' C. (do { n \<leftarrow> heap_size s a;
        (if n = 0 then do { (s, _) \<leftarrow> dbDelete s i src; Some (note_event s (Notify REDIS_NOTIFY_GENERIC ''del'' src i)) } else Some s) }) = Some s' \<and>
    rep s' C \<and> ks_inv C \<and> aD C = aD B \<and> dom (aK C) \<subseteq> dom (aK B) \<and> a_val C = (a_val B)((i, src) := stored S) \<and>
    (\<forall>p. p \<noteq> (i, src) \<longrightarrow> aK C p = aK B p) \<and> (\<forall>b. b \<noteq> a \<longrightarrow> a_set C b = a_set B b \<and> (is_set B b \<longrightarrow> is_set C b))"
proof -
  let ?A = "a_put a S B"
  note pg = put_grow[OF assms(4), of S]
  have fin: "finite S" using a_set_finite[OF assms(1), of a] unfolding pg(2) .
  have sz: "heap_size s a = Some (card S)" using heap_size_spec[OF assms(1) pg(1)] unfolding pg(2) .
  show ?thesis
  proof (cases "S = {}")
    case True
    have i: "i < aD ?A" using assms(5) by simp
    from dbDelete_spec[OF assms(1) put_ref[OF ks_inv_ref[OF assms(2)] assms(4)] i, of src] obtain s1 where
      s1: "dbDelete s i src = Some (s1, aK ?A (i, src) \<noteq> None)" "rep s1 (a_delete (i, src) B)" unfolding put_inv(3)[OF assms(2-4)] by blast
    let ?C = "a_delete (i, src) B" and ?s = "note_event s1 (Notify REDIS_NOTIFY_GENERIC ''del'' src i)"
    have "rep ?s ?C" using s1(2) by simp
    moreover have "a_val ?C = (a_val B)((i, src) := stored S)" using a_val_delete[OF ks_inv_ref[OF assms(2)]] True by (simp add: stored_def)
    moreover have "aD ?C = aD B" "dom (aK ?C) \<subseteq> dom (aK B)" "\<forall>p. p \<noteq> (i, src) \<longrightarrow> aK ?C p = aK B p" by auto
    moreover have "\<forall>b. b \<noteq> a \<longrightarrow> a_set ?C b = a_set B b \<and> (is_set B b \<longrightarrow> is_set ?C b)"
      using assms(3) by (simp add: a_delete_def a_decr_def a_unlink_def a_set_def is_set_def)
    ultimately show ?thesis using sz s1(1) True ks_inv_delete[OF assms(2), of "(i, src)"] by (intro exI[of _ ?s] exI[of _ ?C]) simp
  next
    case False
    have "card S \<noteq> 0" using False fin by simp
    moreover have "\<forall>b. b \<noteq> a \<longrightarrow> a_set ?A b = a_set B b \<and> (is_set B b \<longrightarrow> is_set ?A b)" by simp
    moreover note put_inv(1)[OF assms(2-4) False] put_inv(2)[OF assms(2-4), of S]
    ultimately show ?thesis using sz assms(1) False by (intro exI[of _ s] exI[of _ ?A]) (simp add: stored_def)
  qed
qed

lemma smove_add_spec:
  assumes "rep s (a_put a S B)" "ks_inv B" "aK B (i, src) = Some a" "is_set B a" "i < aD B" "a_room B i" "cl_ok env c" "src \<noteq> dst"
    "aK B (i, dst) = b" "\<And>a. b = Some a \<Longrightarrow> is_set B a" "obj_ok e" "D = (case b of None \<Rightarrow> {} | Some a \<Rightarrow> a_set B a)" "card D < set_limit"
  shows "\<exists>s' c' A'. smove_add env s i c src dst a b e = Some (s', c') \<and> rep s' A' \<and> ks_inv A' \<and> replied env c shared_cone c' \<and>
    a_val A' = (a_val B)((i, src) := stored S, (i, dst) \<mapsto> A_set (insert (obj_str e) D))"
proof -
  let ?u = "note_event s (Notify REDIS_NOTIFY_SET ''srem'' src i)"
  have "rep ?u (a_put a S B)" using assms(1) by simp
  from smove_source[OF this assms(2-5)] obtain s1 C where
    s1: "do { n \<leftarrow> heap_size ?u a; (if n = 0 then do { (s, _) \<leftarrow> dbDelete ?u i src; Some (note_event s (Notify REDIS_NOTIFY_GENERIC ''del'' src i)) } else Some ?u) } = Some s1"
    "rep s1 C" "ks_inv C" "aD C = aD B" "dom (aK C) \<subseteq> dom (aK B)" "a_val C = (a_val B)((i, src) := stored S)"
    "\<forall>p. p \<noteq> (i, src) \<longrightarrow> aK C p = aK B p" "\<forall>b. b \<noteq> a \<longrightarrow> a_set C b = a_set B b \<and> (is_set B b \<longrightarrow> is_set C b)" by blast
  obtain n where n: "aH B a = Some (n, A_set (a_set B a))" using assms(4) by (rule is_setE)
  then have "n = 1" using assms(2) by (auto simp: ks_inv_def)
  then have ne: "b \<noteq> Some a" using set_refs[OF ks_inv_ref[OF assms(2)] n] assms(3,8,9) by blast
  let ?w = "signalModifiedKey (signalModifiedKey s1 i src) i dst"
  let ?x = "?w\<lparr>dirty := dirty ?w + 1\<rparr>"
  have C: "rep ?x C" "i < aD C" "a_room C i" "aK C (i, dst) = b" using s1(2,4,7) assms(5,8,9) a_room_mono[OF assms(6) ref_okD(1)[OF ks_inv_ref[OF assms(2)]] s1(5)] by simp_all
  have b: "is_set C a'" if "b = Some a'" for a' using s1(8) assms(10)[OF that] that ne by blast
  have D: "D = (case b of None \<Rightarrow> {} | Some a \<Rightarrow> a_set C a)" unfolding assms(12) using s1(8) ne by (cases b) simp_all
  from smove_target[OF C(1) s1(3) C(2-4) b assms(11) D assms(13), of env] obtain s3 a3 s4 A' where
    t: "(case b of Some a \<Rightarrow> Some (?x, a)
      | None \<Rightarrow> do { let (s, a) = createObject env ?x (V_set (setTypeCreate (set_env.truncate env) e)); s \<leftarrow> dbAdd env s i dst a; Some (s, a) }) = Some (s3, a3)"
    "heap_add env s3 a3 e = Some (s4, obj_str e \<notin> D)" "rep s4 A'" "ks_inv A'" "a_val A' = (a_val C)((i, dst) \<mapsto> A_set (insert (obj_str e) D))" by blast
  from reply_shared_spec[OF assms(7), of shared_cone] obtain c' where
    c': "reply_shared env c shared_cone = Some c'" "replied env c shared_cone c'" using shared_short(2) by blast
  let ?y = "if obj_str e \<notin> D then note_event (s4\<lparr>dirty := dirty s4 + 1\<rparr>) (Notify REDIS_NOTIFY_SET ''sadd'' dst i) else s4"
  obtain n where n: "heap_size ?u a = Some n"
    "(if n = 0 then do { (s, _) \<leftarrow> dbDelete ?u i src; Some (note_event s (Notify REDIS_NOTIFY_GENERIC ''del'' src i)) } else Some ?u) = Some s1"
    using s1(1) by (cases "heap_size ?u a") simp_all
  have "smove_add env s i c src dst a b e = Some (?y, c')" unfolding smove_add_def Let_def n(1) bind.bind_lunit n(2) t(1)[unfolded Let_def]
    using t(2) c'(1) by simp
  moreover have "rep ?y A'" using t(3) by simp
  ultimately show ?thesis using t(4,5) c'(2) unfolding s1(6) by (intro exI[of _ ?y] exI[of _ c'] exI[of _ A']) simp
qed

text \<open>What SMOVE does when both keys are of the right type.\<close>

definition smove_result :: "srv_env \<Rightarrow> nat \<Rightarrow> string \<Rightarrow> string \<Rightarrow> string \<Rightarrow> astate \<Rightarrow> (nat \<times> string \<Rightarrow> aval option) \<times> string" where
  "smove_result env i src dst v A =
     (let V = val_after env i [src, dst] A; S = live_set env A (i, src)
      in if v \<notin> S \<and> (src \<noteq> dst \<or> S = {}) then (V, shared_czero)
         else if src = dst then (V, shared_cone)
         else (V((i, src) := stored (S - {v}), (i, dst) \<mapsto> A_set (insert v (live_set env A (i, dst)))), shared_cone))"

lemma smoveCommand_spec:
  assumes "rep s A" "ks_inv A" "i < aD A" "cl_ok env c" "a_room A i" "argv c = [cmd, src, dst, v]" "length v < 2 ^ 31"
    "settled env 2 A (i, src)" "settled env 2 A (i, dst)" "\<not> wrong_type env A (i, src)" "\<not> wrong_type env A (i, dst)" "card (live_set env A (i, dst)) < set_limit"
  shows "\<exists>s' c' A'. smoveCommand env s i c = Some (s', c') \<and> rep s' A' \<and> ks_inv A' \<and>
    a_val A' = fst (smove_result env i src dst v A) \<and> replied env c (snd (smove_result env i src dst v A)) c'"
proof -
  have args: "arr_get (argv c) 1 = Some src" "arr_get (argv c) 2 = Some dst" "arr_get (argv c) 3 = Some v" using assms(6) by (simp_all add: arr_get_def)
  have "aT A < aT A + 2" by simp
  from lookup_purged[OF assms(1) purged_refl[OF assms(2)] assms(8,3) this, of True] obtain s1 B1 where
    s1: "lookupKeyWrite env s i src = Some (s1, a_ptr env A (i, src))" "rep s1 B1" "purged env {(i, src)} A B1" "aT B1 < aT A + 2" by auto
  from lookup_purged[OF s1(2,3) assms(9,3) s1(4), of True] obtain s2 B where
    s2: "lookupKeyWrite env s1 i dst = Some (s2, a_ptr env A (i, dst))" "rep s2 B" "purged env {(i, dst), (i, src)} A B" by auto
  let ?S = "live_set env A (i, src)" and ?e = "encode_arg env v" and ?V = "val_after env i [src, dst] A"
  have B: "ks_inv B" "i < aD B" "a_room B i" "a_val B = ?V" using s2(3) assms(3) purged_room[OF s2(3) assms(2,5)]
    by (auto simp: purged_def val_after_def fun_eq_iff)
  have K: "aK B (i, src) = a_ptr env A (i, src)" "aK B (i, dst) = a_ptr env A (i, dst)" using purged_ptr(1)[OF s2(3)] by simp_all
  have ps: "a_ptr env A (i, src) = None \<Longrightarrow> ?S = {}" "a_ptr env A (i, src) = Some a \<Longrightarrow> is_set B a \<and> a_set B a = ?S"
    and pd: "a_ptr env A (i, dst) = None \<Longrightarrow> live_set env A (i, dst) = {}" "a_ptr env A (i, dst) = Some a \<Longrightarrow> is_set B a \<and> a_set B a = live_set env A (i, dst)" for a
    using ptr_set[OF s2(2,3) _ assms(10)] ptr_set[OF s2(2,3) _ assms(11)] by blast+
  obtain c0 where c0: "reply_shared env c shared_czero = Some c0" "replied env c shared_czero c0" using reply_shared_spec[OF assms(4)] shared_short(1) by blast
  obtain c1 where c1: "reply_shared env c shared_cone = Some c1" "replied env c shared_cone c1" using reply_shared_spec[OF assms(4)] shared_short(2) by blast
  note e = encode_arg_spec[OF assms(7), of env]
  show ?thesis
  proof (cases "a_ptr env A (i, src)")
    case None
    then have "smove_result env i src dst v A = (?V, shared_czero)" using ps(1) by (simp add: smove_result_def)
    moreover have "smoveCommand env s i c = Some (s2, c0)" unfolding smoveCommand_def Let_def using args s1(1) s2(1) None c0(1) by simp
    ultimately show ?thesis using s2(2) B(1,4) c0(2) by auto
  next
    case (Some a)
    note a = ps(2)[OF Some]
    have ct: "checkType env s2 c a = Some (c, False)" using checkType_set[OF s2(2)] a by blast
    have cd: "(case a_ptr env A (i, dst) of None \<Rightarrow> Some (c, False) | Some b \<Rightarrow> checkType env s2 c b) = Some (c, False)"
      using checkType_set[OF s2(2)] pd(2) by (auto split: option.split)
    obtain n where n: "aH B a = Some (n, A_set (a_set B a))" using a by (auto elim: is_setE)
    then have n1: "n = 1" "a_set B a \<noteq> {}" using B(1) by (auto simp: ks_inv_def)
    have eq: "a_ptr env A (i, src) = a_ptr env A (i, dst) \<longleftrightarrow> src = dst"
      using set_refs[OF ks_inv_ref[OF B(1)] n] n1(1) K Some by auto
    have body: "smoveCommand env s i c = (if src = dst then do { c \<leftarrow> reply_shared env c shared_cone; Some (s2, c) }
        else do { (s, ok) \<leftarrow> heap_rem env s2 a ?e;
                  if \<not> ok then do { c \<leftarrow> reply_shared env c shared_czero; Some (s, c) } else smove_add env s i c src dst a (a_ptr env A (i, dst)) ?e })"
      unfolding smoveCommand_def Let_def using args s1(1) s2(1) Some ct cd eq by simp
    show ?thesis
    proof (cases "src = dst")
      case True
      then have "smove_result env i src dst v A = (?V, shared_cone)" using a n1(2) by (auto simp: smove_result_def)
      then show ?thesis unfolding body using True c1 s2(2) B(1,4) by auto
    next
      case False
      from heap_rem_spec[OF s2(2), of a ?e env] a e obtain s3 where
        s3: "heap_rem env s2 a ?e = Some (s3, v \<in> ?S)" "rep s3 (a_put a (?S - {v}) B)" by auto
      show ?thesis
      proof (cases "v \<in> ?S")
        case True
        have D: "live_set env A (i, dst) = (case a_ptr env A (i, dst) of None \<Rightarrow> {} | Some b \<Rightarrow> a_set B b)" using pd by (auto split: option.split)
        have b: "is_set B a'" if "a_ptr env A (i, dst) = Some a'" for a' using pd(2)[OF that] by simp
        have ka: "aK B (i, src) = Some a" "is_set B a" "obj_ok ?e" using K(1) Some a e by simp_all
        from smove_add_spec[OF s3(2) B(1) ka(1,2) B(2,3) assms(4) False K(2) b ka(3) D assms(12)] obtain s4 c' A' where
          r: "smove_add env s3 i c src dst a (a_ptr env A (i, dst)) ?e = Some (s4, c')" "rep s4 A'" "ks_inv A'" "replied env c shared_cone c'"
          "a_val A' = (a_val B)((i, src) := stored (?S - {v}), (i, dst) \<mapsto> A_set (insert (obj_str ?e) (live_set env A (i, dst))))" by blast
        have "smove_result env i src dst v A = (?V((i, src) := stored (?S - {v}), (i, dst) \<mapsto> A_set (insert v (live_set env A (i, dst)))), shared_cone)"
          using True False by (simp add: smove_result_def)
        then show ?thesis unfolding body using False s3(1) True r e B(4) by (intro exI[of _ s4] exI[of _ c'] exI[of _ A']) simp
      next
        case v: False
        have "?S - {v} = a_set B a" using v a by simp
        then have "rep s3 B" using s3(2) a_put_same[of B a] a by simp
        moreover have "smove_result env i src dst v A = (?V, shared_czero)" using v False by (simp add: smove_result_def)
        ultimately show ?thesis unfolding body using False v s3(1) c0 B(1,4) by (intro exI[of _ s3] exI[of _ c0] exI[of _ B]) simp
      qed
    qed
  qed
qed

subsection \<open>A small key space\<close>

lemma idle_settled: "settled idle_env w A p"
  by (simp add: settled_def gone_at_def a_gone_def a_now_def)

lemma idle_qsort: "qsort_ok idle_env"
  by (simp add: qsort_ok_def)

lemma no_expire:
  assumes "aE A = Map.empty"
  shows "\<not> a_gone env p A" "a_live env A p = a_val A p" "aE (fst (a_expire env p A)) = Map.empty"
proof -
  show g: "\<not> a_gone env q A" for q using assms by (simp add: a_gone_def a_when_def)
  then show "a_live env A p = a_val A p" by (simp add: a_live_def)
  show "aE (fst (a_expire env p A)) = Map.empty" using assms by (simp add: a_expire_def a_when_def)
qed

lemma idle_sadd:
  assumes "rep s A" "ks_inv A" "aD A = 1" "aE A = Map.empty" "\<forall>q. q \<notin> P \<longrightarrow> a_val A q = None" "finite P" "card P \<le> 100" "a_val A (0, k) = None" "length v < 2 ^ 31" "length w < 2 ^ 31"
  obtains s' A' where "rep s' A'" "ks_inv A'" "aD A' = 1" "aE A' = Map.empty" "a_val A' = (a_val A)((0, k) \<mapsto> A_set {v, w})"
proof -
  let ?c = "new_client\<lparr>argv := [''sadd'', k, v, w]\<rparr>"
  have live: "a_live idle_env A (0, k) = None" using no_expire(2)[OF assms(4)] assms(8) by simp
  have "x \<in> snd ` P" if "aK A (0, x) \<noteq> None" for x
  proof -
    have "a_val A (0, x) \<noteq> None" using a_val_None[OF ks_inv_ref[OF assms(2)], of "(0, x)"] that by simp
    then have "(0, x) \<in> P" using spec[OF assms(5), of "(0, x)"] by (cases "(0, x) \<in> P") simp_all
    then show ?thesis by (rule image_eqI[rotated]) simp
  qed
  then have "{x. aK A (0, x) \<noteq> None} \<subseteq> snd ` P" by blast
  then have "card {x. aK A (0, x) \<noteq> None} \<le> card (snd ` P)" using assms(6) by (intro card_mono) simp_all
  also have "\<dots> \<le> card P" using assms(6) by (rule card_image_le)
  finally have room: "a_room A 0" using assms(7) by (simp add: a_room_def dict_max_def)
  have h: "0 < aD A" "argv ?c = ''sadd'' # k # v # [w]" "args_ok [v, w]" "\<not> wrong_type idle_env A (0, k)" "live_set idle_env A (0, k) = {}"
    using assms(3,9,10) live by (simp_all add: args_ok_def wrong_type_def live_set_def)
  have "card (live_set idle_env A (0, k) \<union> set [v, w]) < set_limit" using h(5) card_length[of "[v, w]"] by (simp add: set_limit_def)
  from saddCommand_spec[OF assms(1,2) h(1) idle_client room h(2,3,4) this] obtain s' c' A' where "saddCommand idle_env s 0 ?c = Some (s', c')" and
    r: "rep s' A'" "ks_inv A'" "a_val A' = (a_val A)((0, k) \<mapsto> A_set ({} \<union> set [v, w]))" "aE A' = aE (fst (a_expire idle_env (0, k) A))" "aD A' = aD A" and
    "replied idle_env ?c (resp_header (CHR '':'') (int (card ({} \<union> set [v, w]) - card ({} :: string set)))) c'" unfolding h(5) by (elim exE conjE) (rule that)
  show thesis
  proof (rule that[OF r(1,2)])
    show "aD A' = 1" using r(5) assms(3) by simp
    show "aE A' = Map.empty" unfolding r(4) by (rule no_expire(3)[OF assms(4)])
    show "a_val A' = (a_val A)((0, k) \<mapsto> A_set {v, w})" using r(3) by simp
  qed
qed

lemma two_sets:
  obtains s A where "rep s A" "ks_inv A" "aD A = 1" "aE A = Map.empty" "\<forall>i. a_room A i"
    "a_val A = [(0, ''a'') \<mapsto> A_set {''1'', ''2''}, (0, ''b'') \<mapsto> A_set {''2'', ''x''}]"
proof -
  have i: "aD (a_init 1) = 1" "aE (a_init 1) = Map.empty" "a_val (a_init 1) = Map.empty" by (simp_all add: a_init_def a_val_def fun_eq_iff)
  obtain s1 A1 where 1: "rep s1 A1" "ks_inv A1" "aD A1 = 1" "aE A1 = Map.empty" "a_val A1 = [(0, ''a'') \<mapsto> A_set {''1'', ''2''}]"
    using idle_sadd[OF init_rep init_inv i(1,2), of "{}" "''a''" "''1''" "''2''"] unfolding i(3) by auto
  have "\<forall>q. q \<notin> {(0, ''a'')} \<longrightarrow> a_val A1 q = None" "a_val A1 (0, ''b'') = None" unfolding 1(5) by simp_all
  with idle_sadd[OF 1(1-4), of "{(0, ''a'')}" "''b''" "''2''" "''x''"] obtain s A where
    2: "rep s A" "ks_inv A" "aD A = 1" "aE A = Map.empty" "a_val A = (a_val A1)((0, ''b'') \<mapsto> A_set {''2'', ''x''})" by auto
  have "a_room A i" for i
  proof -
    have "aK A (i, x) \<noteq> None \<Longrightarrow> x \<in> {''a'', ''b''}" for x
      using a_val_None[OF ks_inv_ref[OF 2(2)], of "(i, x)"] unfolding 2(5) 1(5) by (auto split: if_splits)
    then have "{x. aK A (i, x) \<noteq> None} \<subseteq> {''a'', ''b''}" by blast
    then have "card {x. aK A (i, x) \<noteq> None} \<le> card {''a'', ''b''}" by (intro card_mono) auto
    then show ?thesis by (simp add: a_room_def dict_max_def)
  qed
  then show thesis using that[OF 2(1-4)] 2(5) 1(5) by simp
qed

lemma two_sets_live:
  assumes "aE A = Map.empty" "a_val A = [(0, ''a'') \<mapsto> A_set {''1'', ''2''}, (0, ''b'') \<mapsto> A_set {''2'', ''x''}]"
  shows "live_set env A (0, ''a'') = {''1'', ''2''}" "live_set env A (0, ''b'') = {''2'', ''x''}" "live_set env A (0, ''c'') = {}"
    "\<not> wrong_type env A (0, k)" "val_after env 0 ks A = a_val A"
  using assms no_expire[OF assms(1)] by (auto simp: live_set_def wrong_type_def val_after_def fun_eq_iff split: if_splits)

subsection \<open>The operations are the set operations\<close>

text \<open>
  C7. SUNIONSTORE and SDIFFSTORE leave exactly the union, or the difference of the first set and the
  others, under the destination, and no key there when the result is empty.  This holds for both
  algorithms that the code chooses between for the difference, for every mixture of encodings, for
  missing keys, keys that are given twice and a destination that is one of the arguments; the reply is
  the size of the result, nothing else changes but keys that have expired, and the reference counts
  are right.
\<close>

theorem setop_store_exact:
  fixes op :: set_op
  assumes "rep s A" "ks_inv A" "i < aD A" "cl_ok env c" "a_room A i" "qsort_ok env" "argv c = cmd # dst # ks"
    "\<forall>k \<in> set ks. settled env (length ks) A (i, k) \<and> \<not> wrong_type env A (i, k)" "card (\<Union>k \<in> set ks. live_set env A (i, k)) < set_limit"
  defines "R \<equiv> (case op of REDIS_OP_UNION \<Rightarrow> \<Union>k \<in> set ks. live_set env A (i, k)
    | REDIS_OP_DIFF \<Rightarrow> (case ks of [] \<Rightarrow> {} | k # ks \<Rightarrow> live_set env A (i, k) - (\<Union>k \<in> set ks. live_set env A (i, k))))"
  shows "\<exists>s' c' A'. (case op of REDIS_OP_UNION \<Rightarrow> sunionstoreCommand env s i c | REDIS_OP_DIFF \<Rightarrow> sdiffstoreCommand env s i c) = Some (s', c') \<and>
    rep s' A' \<and> ks_inv A' \<and> a_val A' = (val_after env i ks A)((i, dst) := if R = {} then None else Some (A_set R)) \<and>
    replied env c (resp_header (CHR '':'') (int (card R))) c'"
proof -
  have args: "arr_get (argv c) 1 = Some dst" "drop 2 (argv c) = ks" using assms(7) by (simp_all add: arr_get_def)
  have st: "\<And>k. k \<in> set ks \<Longrightarrow> settled env (length ks) A (i, k)" "\<forall>k \<in> set ks. \<not> wrong_type env A (i, k)" using assms(8) by blast+
  have R: "R = op_result op (map (\<lambda>k. live_set env A (i, k)) ks)" unfolding R_def op_result_def by (cases op; cases ks) simp_all
  have "(case op of REDIS_OP_UNION \<Rightarrow> sunionstoreCommand env s i c | REDIS_OP_DIFF \<Rightarrow> sdiffstoreCommand env s i c) =
    sunionDiffGenericCommand env s i c ks (Some dst) op" using args by (cases op) (simp_all add: sunionstoreCommand_def sdiffstoreCommand_def)
  with sunionDiff_store[OF assms(1-6) st assms(9), of dst op] show ?thesis unfolding R[symmetric] stored_def by simp
qed

theorem setop_store_exact_witness:
  "\<exists>s A s' c' A'. rep s A \<and> a_val A = [(0, ''a'') \<mapsto> A_set {''1'', ''2''}, (0, ''b'') \<mapsto> A_set {''2'', ''x''}] \<and>
    sdiffstoreCommand idle_env s 0 (new_client\<lparr>argv := [''sdiffstore'', ''a'', ''a'', ''b'', ''c'']\<rparr>) = Some (s', c') \<and> rep s' A' \<and>
    a_val A' = (a_val A)((0, ''a'') \<mapsto> A_set {''1''})"
proof -
  obtain s A where k: "rep s A" "ks_inv A" "aD A = 1" "aE A = Map.empty" "\<forall>i. a_room A i"
    "a_val A = [(0, ''a'') \<mapsto> A_set {''1'', ''2''}, (0, ''b'') \<mapsto> A_set {''2'', ''x''}]" by (rule two_sets)
  note l = two_sets_live[OF k(4,6), of idle_env]
  let ?ks = "[''a'', ''b'', ''c'']" and ?c = "new_client\<lparr>argv := [''sdiffstore'', ''a'', ''a'', ''b'', ''c'']\<rparr>"
  have U: "(\<Union>k \<in> set ?ks. live_set idle_env A (0, k)) = {''1'', ''2'', ''x''}" using l(1-3) by auto
  have "card {''1'', ''2'', ''x''} \<le> 3" by (simp add: card_insert_if)
  then have h: "0 < aD A" "a_room A 0" "argv ?c = ''sdiffstore'' # ''a'' # ?ks" "card (\<Union>k \<in> set ?ks. live_set idle_env A (0, k)) < set_limit"
    "\<forall>k \<in> set ?ks. settled idle_env (length ?ks) A (0, k) \<and> \<not> wrong_type idle_env A (0, k)"
    using k(3,5) U l(4) idle_settled by (simp_all add: set_limit_def)
  from setop_store_exact[OF k(1,2) h(1) idle_client h(2) idle_qsort h(3,5,4), of REDIS_OP_DIFF] obtain s' c' A' where
    r: "sdiffstoreCommand idle_env s 0 ?c = Some (s', c')" "rep s' A'"
    "a_val A' = (val_after idle_env 0 ?ks A)((0, ''a'') := if {''1'', ''2''} - {''2'', ''x''} = {} then None else Some (A_set ({''1'', ''2''} - {''2'', ''x''})))"
    using l(1-3) by auto
  have "{''1'', ''2''} - {''2'', ''x''} = {''1''}" by auto
  then have "a_val A' = (a_val A)((0, ''a'') \<mapsto> A_set {''1''})" using r(3) l(5) by simp
  then show ?thesis using k(1,6) r(1,2) by blast
qed

text \<open>
  C14. SINTERSTORE leaves exactly the intersection under the destination, and no key there when it is
  empty, in whatever order \<open>qsort\<close> puts the sets and whatever their encodings are, also when keys are
  missing or given twice; the reply is the size of the intersection.
\<close>

theorem sinterstore_exact:
  assumes "rep s A" "ks_inv A" "i < aD A" "cl_ok env c" "a_room A i" "qsort_ok env" "argv c = cmd # dst # ks" "ks \<noteq> []"
    "\<forall>k \<in> set ks. settled env (length ks) A (i, k) \<and> \<not> wrong_type env A (i, k) \<and> card (live_set env A (i, k)) < set_limit"
  defines "R \<equiv> \<Inter>k \<in> set ks. live_set env A (i, k)"
  shows "\<exists>s' c' A' P. sinterstoreCommand env s i c = Some (s', c') \<and> rep s' A' \<and> ks_inv A' \<and> P \<subseteq> Pair i ` set ks \<and>
    a_val A' = (\<lambda>p. if p \<in> P \<and> a_gone env p A then None else a_val A p)((i, dst) := if R = {} then None else Some (A_set R)) \<and>
    replied env c (resp_header (CHR '':'') (int (card R))) c'"
proof -
  have "arr_get (argv c) 1 = Some dst" "drop 2 (argv c) = ks" using assms(7) by (simp_all add: arr_get_def)
  then have "sinterstoreCommand env s i c = sinterGenericCommand env s i c ks (Some dst)" by (simp add: sinterstoreCommand_def)
  with sinter_store[OF assms(1-6,8,9), of dst] show ?thesis unfolding R_def stored_def by simp
qed

theorem sinterstore_exact_witness:
  "\<exists>s A s' c' A'. rep s A \<and> a_val A = [(0, ''a'') \<mapsto> A_set {''1'', ''2''}, (0, ''b'') \<mapsto> A_set {''2'', ''x''}] \<and>
    sinterstoreCommand idle_env s 0 (new_client\<lparr>argv := [''sinterstore'', ''c'', ''a'', ''b'']\<rparr>) = Some (s', c') \<and> rep s' A' \<and>
    a_val A' = (a_val A)((0, ''c'') \<mapsto> A_set {''2''})"
proof -
  obtain s A where k: "rep s A" "ks_inv A" "aD A = 1" "aE A = Map.empty" "\<forall>i. a_room A i"
    "a_val A = [(0, ''a'') \<mapsto> A_set {''1'', ''2''}, (0, ''b'') \<mapsto> A_set {''2'', ''x''}]" by (rule two_sets)
  note l = two_sets_live[OF k(4,6), of idle_env]
  let ?ks = "[''a'', ''b'']" and ?c = "new_client\<lparr>argv := [''sinterstore'', ''c'', ''a'', ''b'']\<rparr>"
  have "card {''1'', ''2''} < set_limit" "card {''2'', ''x''} < set_limit" by (simp_all add: set_limit_def)
  then have h: "0 < aD A" "a_room A 0" "argv ?c = ''sinterstore'' # ''c'' # ?ks" "?ks \<noteq> []"
    "\<forall>k \<in> set ?ks. settled idle_env (length ?ks) A (0, k) \<and> \<not> wrong_type idle_env A (0, k) \<and> card (live_set idle_env A (0, k)) < set_limit"
    using k(3,5) l idle_settled by simp_all
  have I: "(\<Inter>k \<in> set ?ks. live_set idle_env A (0, k)) = {''2''}" using l(1,2) by auto
  have e: "(\<lambda>p. if p \<in> P \<and> a_gone idle_env p A then None else a_val A p) = a_val A" for P using no_expire(1)[OF k(4)] by auto
  from sinterstore_exact[OF k(1,2) h(1) idle_client h(2) idle_qsort h(3-5)] obtain s' c' A' where
    "sinterstoreCommand idle_env s 0 ?c = Some (s', c')" "rep s' A'" "a_val A' = (a_val A)((0, ''c'') \<mapsto> A_set {''2''})" unfolding I e by auto
  then show ?thesis using k(1,6) by blast
qed

text \<open>
  C16. SMOVE: an element of the source is removed there and added to the destination, which is created
  when it does not exist; the source is deleted with its last element; an element that the source
  does not have is not moved, and a move from a key to itself changes nothing.  No element is lost or
  duplicated, and the reference counts are right again.
\<close>

theorem smove_moves_element:
  assumes "rep s A" "ks_inv A" "i < aD A" "cl_ok env c" "a_room A i" "argv c = [cmd, src, dst, v]" "length v < 2 ^ 31"
    "settled env 2 A (i, src)" "settled env 2 A (i, dst)" "\<not> wrong_type env A (i, src)" "\<not> wrong_type env A (i, dst)" "card (live_set env A (i, dst)) < set_limit"
  shows "\<exists>s' c' A'. smoveCommand env s i c = Some (s', c') \<and> rep s' A' \<and> ks_inv A' \<and>
    a_val A' = (if src \<noteq> dst \<and> v \<in> live_set env A (i, src)
      then (val_after env i [src, dst] A)((i, src) := stored (live_set env A (i, src) - {v}), (i, dst) \<mapsto> A_set (insert v (live_set env A (i, dst))))
      else val_after env i [src, dst] A) \<and>
    (v \<in> live_set env A (i, src) \<longrightarrow> replied env c shared_cone c')"
proof -
  from smoveCommand_spec[OF assms] obtain s' c' A' where
    r: "smoveCommand env s i c = Some (s', c')" "rep s' A'" "ks_inv A'" "a_val A' = fst (smove_result env i src dst v A)"
    "replied env c (snd (smove_result env i src dst v A)) c'" by blast
  have "fst (smove_result env i src dst v A) = (if src \<noteq> dst \<and> v \<in> live_set env A (i, src)
      then (val_after env i [src, dst] A)((i, src) := stored (live_set env A (i, src) - {v}), (i, dst) \<mapsto> A_set (insert v (live_set env A (i, dst))))
      else val_after env i [src, dst] A)" "v \<in> live_set env A (i, src) \<longrightarrow> snd (smove_result env i src dst v A) = shared_cone"
    by (auto simp: smove_result_def Let_def)
  then show ?thesis using r by (intro exI[of _ s'] exI[of _ c'] exI[of _ A']) auto
qed

theorem smove_moves_element_witness:
  "\<exists>s A s' c' A'. rep s A \<and> a_val A = [(0, ''a'') \<mapsto> A_set {''1'', ''2''}, (0, ''b'') \<mapsto> A_set {''2'', ''x''}] \<and>
    smoveCommand idle_env s 0 (new_client\<lparr>argv := [''smove'', ''a'', ''b'', ''1'']\<rparr>) = Some (s', c') \<and> rep s' A' \<and>
    a_val A' = (a_val A)((0, ''a'') \<mapsto> A_set {''2''}, (0, ''b'') \<mapsto> A_set {''1'', ''2'', ''x''})"
proof -
  obtain s A where k: "rep s A" "ks_inv A" "aD A = 1" "aE A = Map.empty" "\<forall>i. a_room A i"
    "a_val A = [(0, ''a'') \<mapsto> A_set {''1'', ''2''}, (0, ''b'') \<mapsto> A_set {''2'', ''x''}]" by (rule two_sets)
  note l = two_sets_live[OF k(4,6), of idle_env]
  let ?c = "new_client\<lparr>argv := [''smove'', ''a'', ''b'', ''1'']\<rparr>"
  have h: "0 < aD A" "a_room A 0" "argv ?c = [''smove'', ''a'', ''b'', ''1'']" "length ''1'' < 2 ^ 31" "card (live_set idle_env A (0, ''b'')) < set_limit"
    using k(3,5) l(2) by (simp_all add: set_limit_def)
  from smove_moves_element[OF k(1,2) h(1) idle_client h(2-4) idle_settled idle_settled l(4) l(4) h(5)] obtain s' c' A' where
    r: "smoveCommand idle_env s 0 ?c = Some (s', c')" "rep s' A'"
    "a_val A' = (val_after idle_env 0 [''a'', ''b''] A)((0, ''a'') := stored ({''1'', ''2''} - {''1''}), (0, ''b'') \<mapsto> A_set (insert ''1'' {''2'', ''x''}))"
    unfolding l(1,2) by auto
  have "{''1'', ''2''} - {''1''} = {''2''}" by auto
  then have "a_val A' = (a_val A)((0, ''a'') \<mapsto> A_set {''2''}, (0, ''b'') \<mapsto> A_set {''1'', ''2'', ''x''})" using r(3) l(5) by (simp add: stored_def)
  then show ?thesis using k(1,6) r(1,2) by blast
qed

text \<open>
  C18. A key that expires while a command runs is freed although the command holds a pointer to its
  value: every lookup reads the clock.  When the key of SMOVE from a key to itself expires between the
  two lookups, the second one releases the set, and the command goes on with the pointer of the first:
  it has no defined result.
\<close>

theorem smove_expiring_key_dangles:
  assumes "rep s A" "ks_inv A" "i < aD A" "argv c = [cmd, k, k, v]" "a_val A (i, k) = Some (A_set S)" "aE A (i, k) = Some w"
    "\<not> loading env" "\<not> masterhost env" "lua_time_start env = None" "0 \<le> w" "mstime_at env (aT A) \<le> w" "w < mstime_at env (aT A + 1)"
  shows "smoveCommand env s i c = None"
proof -
  let ?p = "(i, k)"
  have args: "arr_get (argv c) 1 = Some k" "arr_get (argv c) 2 = Some k" "arr_get (argv c) 3 = Some v" using assms(4) by (simp_all add: arr_get_def)
  obtain a n where a: "aK A ?p = Some a" "aH A a = Some (n, A_set S)" using assms(5) by (auto simp: a_val_def split: option.splits)
  have n: "n = 1" using assms(2) a(2) unfolding ks_inv_def by blast
  let ?B = "a_tick env A" and ?C = "a_delete (i, k) (a_tick env (a_tick env A))"
  have e1: "fst (a_expire env ?p A) = ?B" using assms(6-11) by (simp add: a_expire_def a_when_def a_now_def)
  have e2: "fst (a_expire env ?p ?B) = ?C" using assms(6-12) by (simp add: a_expire_def a_when_def a_now_def a_tick_def)
  have r: "ref_ok {#} A" "ref_ok {#} ?B" using ks_inv_ref[OF assms(2)] by simp_all
  from lookupKeyWrite_spec[OF assms(1) r(1) assms(3), of env k] obtain s1 where s1: "lookupKeyWrite env s i k = Some (s1, Some a)" "rep s1 ?B"
    unfolding e1 using a(1) by auto
  have "i < aD ?B" using assms(3) by simp
  from lookupKeyWrite_spec[OF s1(2) r(2) this, of env k] obtain s2 b where s2: "lookupKeyWrite env s1 i k = Some (s2, b)" "rep s2 ?C"
    unfolding e2 by blast
  have "aH ?C a = None" using a n by (simp add: a_delete_def a_decr_def a_unlink_def)
  moreover have "absv s2 = ?C" using s2(2) by (simp add: rep_def)
  then have "aH ?C = hmap s2" by (metis absv_def astate.select_convs(3))
  ultimately have "objs s2 a = None" by (simp add: hmap_def)
  then have "checkType env s2 c a = None" by (simp add: checkType_def)
  then show ?thesis unfolding smoveCommand_def Let_def using args s1(1) s2(1) by simp
qed

definition ticking_env :: srv_env where
  "ticking_env = idle_env\<lparr>mstime_at := \<lambda>n. int n\<rparr>"

theorem smove_expiring_key_dangles_witness:
  "\<exists>s A. rep s A \<and> ks_inv A \<and> a_val A (0, ''a'') = Some (A_set {''1'', ''2''}) \<and>
    smoveCommand ticking_env s 0 (new_client\<lparr>argv := [''smove'', ''a'', ''a'', ''1'']\<rparr>) = None"
proof -
  obtain s A where k: "rep s A" "ks_inv A" "aD A = 1" "aE A = Map.empty" "\<forall>i. a_room A i"
    "a_val A = [(0, ''a'') \<mapsto> A_set {''1'', ''2''}, (0, ''b'') \<mapsto> A_set {''2'', ''x''}]" by (rule two_sets)
  let ?w = "int (aT A)" and ?c = "new_client\<lparr>argv := [''smove'', ''a'', ''a'', ''1'']\<rparr>"
  let ?B = "A\<lparr>aE := (aE A)((0, ''a'') \<mapsto> ?w)\<rparr>"
  have ka: "0 < aD A" "aK A (0, ''a'') \<noteq> None" using a_val_None[OF ks_inv_ref[OF k(2)], of "(0, ''a'')"] k(3,6) by simp_all
  from setExpire_spec[OF k(1) ks_inv_ref[OF k(2)] ka, of idle_env ?w] k(5) obtain s' where s': "rep s' ?B" by blast
  have B: "ks_inv ?B" using ks_own_setE[of "{#}" A "(0, ''a'')" "Some ?w"] k(2) ka(2) by (simp add: ks_inv_alt)
  have h: "0 < aD ?B" "argv ?c = [''smove'', ''a'', ''a'', ''1'']" "a_val ?B (0, ''a'') = Some (A_set {''1'', ''2''})" "aE ?B (0, ''a'') = Some ?w"
    "\<not> loading ticking_env" "\<not> masterhost ticking_env" "lua_time_start ticking_env = None" "0 \<le> ?w" "mstime_at ticking_env (aT ?B) \<le> ?w" "?w < mstime_at ticking_env (aT ?B + 1)"
    using k(3,6) by (simp_all add: ticking_env_def)
  from smove_expiring_key_dangles[OF s' B h] show ?thesis using s' B h(3) by blast
qed

end
