(* ===== verification/KeySpace.thy ===== *)
theory KeySpace
  imports SetCmd
begin

text \<open>
  Properties that span the commands on keys and on sets: the elements that SINTER, SUNION and SDIFF
  send, the behaviour on keys of another type, and the table of commands
  (\<open>src/redis/src/redis.c\<close>) with the invariant of the key space that all of them keep.
\<close>

subsection \<open>Replies behind a length that is not known yet\<close>

lemma list_reply:
  assumes "reply c \<noteq> []" "takes_replies env c" "obj_ok obj"
  shows "addReply env junk c obj = addReplyString env c (obj_str obj)"
proof -
  obtain w where w: "prepareClientToWrite env c = (c\<lparr>writable := w\<rparr>, True)" by (rule prepare_ok[OF assms(2)])
  have f: "REDIS_CLOSE_AFTER_REPLY \<notin> flags c" using assms(2) by (simp add: takes_replies_def)
  have b: "addReplyToBuffer (c\<lparr>writable := w\<rparr>) t = Some (c\<lparr>writable := w\<rparr>, False)" for t
    using assms(1) f by (simp add: addReplyToBuffer_def)
  show ?thesis
  proof (cases obj)
    case (ENC_RAW t)
    then show ?thesis using w b unfolding addReply_def addReplyString_def list_variants by simp
  next
    case (ENC_INT n)
    have "getDecodedObject junk (ENC_INT n) = Some (ENC_RAW (dec_int n))" using getDecodedObject_spec[OF assms(3)] ENC_INT by simp
    then show ?thesis using w b assms(1) ENC_INT unfolding addReply_def addReplyString_def list_variants by simp
  qed
qed

text \<open>The replies behind the empty node have grown to \<open>es\<close>.\<close>

definition grown :: "net_env \<Rightarrow> redisClient \<Rightarrow> string \<Rightarrow> redisClient \<Rightarrow> bool" where
  "grown env c0 es c \<longleftrightarrow> deferred c0 es c \<and> takes_replies env c"

definition grows :: "net_env \<Rightarrow> redisClient \<Rightarrow> string \<Rightarrow> redisClient option \<Rightarrow> bool" where
  "grows env c0 es r \<longleftrightarrow> (\<exists>c'. r = Some c' \<and> grown env c0 es c')"

lemma grows_string: "grown env c0 es c \<Longrightarrow> grows env c0 (es @ t) (addReplyString env c t)"
  unfolding grown_def grows_def using deferred_string by blast

lemma grows_obj: "grown env c0 es c \<Longrightarrow> obj_ok obj \<Longrightarrow> grows env c0 (es @ obj_str obj) (addReply env junk c obj)"
proof -
  assume g: "grown env c0 es c" and o: "obj_ok obj"
  then have "reply c \<noteq> []" "takes_replies env c" by (auto simp: grown_def deferred_def)
  from list_reply[OF this o] show ?thesis using grows_string[OF g] by simp
qed

lemma grows_raw: "grown env c0 es c \<Longrightarrow> length t < 2 ^ 31 \<Longrightarrow> grows env c0 (es @ t) (addReply env junk c (ENC_RAW t))"
  using grows_obj[of env c0 es c "ENC_RAW t" junk] by simp

lemma grows_bind:
  assumes "grows env c0 (es @ t) r" "\<And>c'. grown env c0 (es @ t) c' \<Longrightarrow> grows env c0 ((es @ t) @ u) (f c')"
  shows "grows env c0 (es @ t @ u) (Option.bind r f)"
  using assms unfolding grows_def by fastforce

lemma grows_shared_hdr:
  assumes "grown env c0 es c" "0 \<le> n" "n < REDIS_SHARED_BULKHDR_LEN"
  shows "grows env c0 (es @ resp_header prefix n) (do { hdr \<leftarrow> shared_hdr prefix n; addReply env junk c hdr })"
proof -
  have "nat n < 10 ^ 2" using assms(3) by (simp add: REDIS_SHARED_BULKHDR_LEN_def)
  from length_dec_nat_le[OF this] have "length (prefix # dec_nat (nat n) @ crlf) < 2 ^ 31" by (simp add: crlf_def)
  from grows_raw[OF assms(1) this] show ?thesis using assms(2,3) by (simp add: shared_hdr_def resp_header_def dec_int_def)
qed

lemma grows_prefix:
  assumes "grown env c0 es c" "prefix \<in> {CHR ''*'', CHR ''$''} \<longrightarrow> 0 \<le> sint ll"
  shows "grows env c0 (es @ resp_header prefix (sint ll)) (addReplyLongLongWithPrefix env junk c ll prefix)"
proof (cases "(prefix = CHR ''*'' \<or> prefix = CHR ''$'') \<and> sint ll < REDIS_SHARED_BULKHDR_LEN")
  case True
  then show ?thesis using grows_shared_hdr[OF assms(1), of "sint ll" prefix junk] assms(2) by (auto simp: addReplyLongLongWithPrefix_def)
next
  case False
  then show ?thesis using grows_string[OF assms(1)] by (simp add: prefix_string)
qed

lemma grows_bulk_len:
  assumes "grown env c0 es c" "obj_ok obj" "obj \<noteq> ENC_INT Object.LONG_MIN"
  shows "grows env c0 (es @ resp_header (CHR ''$'') (int (length (obj_str obj)))) (addReplyBulkLen env junk c obj)"
proof -
  let ?n = "length (obj_str obj)"
  have "sint (of_nat ?n :: u64) = int ?n" using length_obj_str[OF assms(2)] by (intro sint_of_nat_u64) simp
  then show ?thesis
    using grows_shared_hdr[OF assms(1), of "int ?n" "CHR ''$''" junk] grows_prefix[OF assms(1), of "CHR ''$''" "of_nat ?n" junk] bulk_len_spec[OF assms(3)]
    by (simp add: addReplyBulkLen_def)
qed

lemma grows_bulk:
  assumes "grown env c0 es c" "obj_ok obj" "obj \<noteq> ENC_INT Object.LONG_MIN"
  shows "grows env c0 (es @ resp_bulk (obj_str obj)) (addReplyBulk env junk c obj)"
  unfolding addReplyBulk_def resp_bulk_def using assms
  by (intro grows_bind grows_bulk_len grows_obj grows_raw) (simp_all add: crlf_def)

lemma grows_bulk_buffer:
  assumes "grown env c0 es c" "length p < 2 ^ 63"
  shows "grows env c0 (es @ resp_bulk p) (addReplyBulkCBuffer env junk c p)"
proof -
  have n: "sint (of_nat (length p) :: u64) = int (length p)" using assms(2) by (rule sint_of_nat_u64)
  have h: "grows env c0 (es @ resp_header (CHR ''$'') (int (length p))) (addReplyLongLongWithPrefix env junk c (of_nat (length p)) (CHR ''$''))"
    using grows_prefix[OF assms(1), of "CHR ''$''" "of_nat (length p)" junk] by (simp only: n) simp
  show ?thesis unfolding addReplyBulkCBuffer_def resp_bulk_def
    by (intro grows_bind h grows_string grows_raw) (simp_all add: crlf_def)
qed

lemma bulk_longlong: "addReplyBulkLongLong env junk c ll = addReplyBulkCBuffer env junk c (dec_int (sint ll))"
proof -
  let ?t = "dec_int (sint ll)" and ?m = "map junk [0..<64]"
  have l: "length ?t \<le> 20" by (rule length_dec_int_le_20[OF sint_u64_range])
  have "ll2string ?m 64 ll = Some (?t @ NUL # drop (Suc (length ?t)) ?m, length ?t)"
    using ll2string_spec[of 64 ?m ll] l by (simp del: upt_rec_numeral)
  then show ?thesis by (simp add: addReplyBulkLongLong_def mem_read_def del: upt_rec_numeral)
qed

text \<open>
  \<open>addReplyBulkLen\<close> computes the length of an integer from its negation, which overflows for the least
  integer: this text is excluded.
\<close>

definition replyable :: "string \<Rightarrow> bool" where
  "replyable t \<longleftrightarrow> t \<noteq> dec_int Object.LONG_MIN"

lemma replyable_unsigned: "hd t \<noteq> CHR ''-'' \<Longrightarrow> replyable t"
  by (auto simp: replyable_def dec_int_def Object.LONG_MIN_def)

lemma replyable_obj: "replyable (obj_str e) \<Longrightarrow> e \<noteq> ENC_INT Object.LONG_MIN"
  by (auto simp: replyable_def)

lemma grows_elem:
  assumes "grown (netenv env) c0 es c" "elem_ok el" "replyable (elem_str el)"
  shows "grows (netenv env) c0 (es @ resp_bulk (elem_str el)) (reply_elem env c el)"
proof (cases el)
  case (El_obj e)
  have "obj_ok e" "e \<noteq> ENC_INT Object.LONG_MIN" using assms(2,3) replyable_obj El_obj by auto
  from grows_bulk[OF assms(1) this] show ?thesis by (simp add: reply_elem_def El_obj)
next
  case (El_int n)
  have n: "sint (word_of_int n :: u64) = n" using assms(2) El_int by (simp add: fits_def signed_of_int signed_take_bit_int_eq_self)
  have "length (dec_int n) \<le> 20" using length_dec_int_le_20[OF sint_u64_range, of "word_of_int n"] n by simp
  then have "length (dec_int n) < 2 ^ 63" by simp
  from grows_bulk_buffer[OF assms(1) this] show ?thesis by (simp add: reply_elem_def El_int bulk_longlong n)
qed

subsection \<open>The elements that are sent\<close>

definition bulks :: "string list \<Rightarrow> string" where
  "bulks ts = concat (map resp_bulk ts)"

lemma bulks_simps [simp]: "bulks [] = []" "bulks (t # ts) = resp_bulk t @ bulks ts"
  by (simp_all add: bulks_def)

lemma inter_loop_reply:
  fixes a0 :: nat
  assumes "rep s A" "list_all (is_set A) as" "list_all elem_ok els" "list_all replyable (map elem_str els)" "grown (netenv env) c0 es c"
  defines "P \<equiv> \<lambda>x. \<forall>a \<in> set as. a = a0 \<or> x \<in> a_set A a"
  shows "\<exists>s' c'. inter_loop env s c a0 as None k els = Some (s', c', k + length (filter P (map elem_str els))) \<and> rep s' A \<and>
    grown (netenv env) c0 (es @ bulks (filter P (map elem_str els))) c'"
  using assms(1,3-5)
proof (induction els arbitrary: s c es k)
  case Nil
  then show ?case by simp
next
  case (Cons el els)
  have el: "elem_ok el" "list_all elem_ok els" "replyable (elem_str el)" "list_all replyable (map elem_str els)" using Cons.prems(2,3) by simp_all
  from inter_test_spec[OF Cons.prems(1) assms(2) el(1), of env a0] obtain s1 where
    s1: "inter_test env s a0 el as = Some (s1, P (elem_str el))" "rep s1 A" unfolding P_def by blast
  show ?case
  proof (cases "P (elem_str el)")
    case False
    with Cons.IH[OF s1(2) el(2,4) Cons.prems(4), of k] s1(1) show ?thesis by simp
  next
    case True
    from grows_elem[OF Cons.prems(4) el(1,3)] obtain c1 where
      c1: "reply_elem env c el = Some c1" "grown (netenv env) c0 (es @ resp_bulk (elem_str el)) c1" by (auto simp: grows_def)
    with Cons.IH[OF s1(2) el(2,4) c1(2), of "k + 1"] s1(1) True show ?thesis by simp
  qed
qed

text \<open>A list of the elements of a set, in the order of the iteration.\<close>

definition enumerates :: "string list \<Rightarrow> string set \<Rightarrow> bool" where
  "enumerates ts S \<longleftrightarrow> distinct ts \<and> set ts = S"

lemma enumerates_card: "enumerates ts S \<Longrightarrow> card S = length ts"
  by (auto simp: enumerates_def distinct_card)

lemma sinter_sets_reply:
  assumes "rep s B" "cl_ok env c" "sets \<noteq> []" "\<And>a. a \<in> set sets \<Longrightarrow> is_set B a \<and> Ball (a_set B a) replyable"
  shows "\<exists>s' c' ts. sinter_sets env s i c sets None = Some (s', c') \<and> rep s' B \<and> enumerates ts (\<Inter>a \<in> set sets. a_set B a) \<and>
    replied env c (resp_header (CHR ''*'') (int (length ts)) @ bulks ts) c'"
proof -
  obtain a0 as where sets: "sets = a0 # as" using assms(3) by (cases sets) auto
  have cl: "out_inv c" "takes_replies (netenv env) c" using assms(2) by (simp_all add: cl_ok_def)
  from deferred_start[OF cl(2)] obtain c1 where
    c1: "addDeferredMultiBulkLength (netenv env) c = (c1, Some (length (reply c)))" "grown (netenv env) c [] c1" by (auto simp: grown_def)
  have a0: "is_set B a0" "Ball (a_set B a0) replyable" and as: "list_all (is_set B) as" using assms(4) sets by (auto simp: list_all_iff)
  from heap_elements_spec[OF assms(1) a0(1)] obtain s2 els where
    s2: "heap_elements s a0 = Some (s2, els)" "rep s2 B" "list_all elem_ok els" "distinct (map elem_str els)" "elem_str ` set els = a_set B a0" by blast
  have "list_all replyable (map elem_str els)" using a0(2) unfolding s2(5)[symmetric] by (simp add: list_all_iff)
  let ?ts = "filter (\<lambda>x. \<forall>a \<in> set as. a = a0 \<or> x \<in> a_set B a) (map elem_str els)"
  from inter_loop_reply[OF s2(2) as s2(3) \<open>list_all replyable (map elem_str els)\<close> c1(2), of a0 0] obtain s3 c3 where
    s3: "inter_loop env s2 c1 a0 as None 0 els = Some (s3, c3, length ?ts)" "rep s3 B" "deferred c (bulks ?ts) c3" "takes_replies (netenv env) c3"
    by (auto simp: grown_def)
  from deferred_finish[OF s3(3) cl(1), of "netenv env" "int (length ?ts)"] obtain c4 where
    c4: "setDeferredMultiBulkLength (netenv env) c3 (Some (length (reply c))) (int (length ?ts)) = Some c4"
    "pending c4 = pending c @ resp_header (CHR ''*'') (int (length ?ts)) @ bulks ?ts" "out_inv c4" "out_only c c4" by blast
  have "takes_replies (netenv env) c4" using out_only_takes[OF c4(4)] cl(2) by blast
  then have "replied env c (resp_header (CHR ''*'') (int (length ?ts)) @ bulks ?ts) c4" using c4(2-4) by (simp add: replied_def cl_ok_def)
  moreover have "sinter_sets env s i c sets None = Some (s3, c4)" unfolding sinter_sets_def sets using c1(1) s2(1) s3(1) c4(1) by simp
  moreover have "enumerates ?ts (\<Inter>a \<in> set sets. a_set B a)" using s2(4,5) sets by (auto simp: enumerates_def)
  ultimately show ?thesis using s3(2) by blast
qed

lemma sinter_reply:
  assumes "rep s A" "ks_inv A" "i < aD A" "cl_ok env c" "qsort_ok env" "ks \<noteq> []"
    "\<forall>k \<in> set ks. settled env (length ks) A (i, k) \<and> \<not> wrong_type env A (i, k) \<and> Ball (live_set env A (i, k)) replyable"
  defines "R \<equiv> \<Inter>k \<in> set ks. live_set env A (i, k)"
  shows "\<exists>s' c' A' P ts. sinterGenericCommand env s i c ks None = Some (s', c') \<and> rep s' A' \<and> purged env P A A' \<and> P \<subseteq> Pair i ` set ks \<and>
    enumerates ts R \<and> replied env c (resp_header (CHR ''*'') (int (length ts)) @ bulks ts) c'"
proof -
  have st: "\<forall>k \<in> set ks. settled env (length ks) A (i, k) \<and> \<not> wrong_type env A (i, k)" using assms(7) by blast
  from inter_sets_spec[OF assms(1) purged_refl[OF assms(2)] st assms(3) le_refl, of False "[]"] obtain s1 B P where
    u: "inter_sets env s i False ks [] = Some (s1, if \<exists>k \<in> set ks. a_ptr env A (i, k) = None then Missing else Sets (map (\<lambda>k. a_ptr env A (i, k)) ks))"
    "rep s1 B" "purged env P A B" "P \<subseteq> Pair i ` set ks" "(\<forall>k \<in> set ks. a_ptr env A (i, k) \<noteq> None) \<longrightarrow> P = Pair i ` set ks" unfolding append_Nil Un_empty_left by (elim exE conjE) (rule that)
  show ?thesis
  proof (cases "\<exists>k \<in> set ks. a_ptr env A (i, k) = None")
    case True
    then obtain k where k: "k \<in> set ks" "a_ptr env A (i, k) = None" by blast
    then have "a_live env A (i, k) = None" by (auto simp: a_ptr_def a_live_def a_val_def split: if_splits)
    then have R: "enumerates [] R" using k(1) by (auto simp: R_def live_set_def enumerates_def)
    obtain c' where c': "reply_shared env c shared_emptymultibulk = Some c'" "replied env c shared_emptymultibulk c'"
      using reply_shared_spec[OF assms(4)] by (metis shared_short(4))
    have "sinterGenericCommand env s i c ks None = Some (s1, c')"
      unfolding sinterGenericCommand_def using u(1)[unfolded if_P[OF True]] c'(1) by (simp add: sinter_missing_def)
    moreover have "shared_emptymultibulk = resp_header (CHR ''*'') (int (length ([] :: string list))) @ bulks []"
      by (simp add: shared_emptymultibulk_def resp_header_def dec_int_def)
    ultimately show ?thesis using u(2-4) R c'(2) by metis
  next
    case False
    let ?qs = "map the (qsort env (qsortCompareSetsByCardinality s1) (map (\<lambda>k. a_ptr env A (i, k)) ks))"
    have np: "\<forall>k \<in> set ks. a_ptr env A (i, k) \<noteq> None" using False by simp
    then have P: "P = Pair i ` set ks" by (rule mp[OF u(5)])
    have nw: "\<forall>k \<in> set ks. \<not> wrong_type env A (i, k)" using st by blast
    note q = inter_sorted[OF u(2,3) P nw np assms(5,6)]
    have all: "is_set B a \<and> Ball (a_set B a) replyable" if "a \<in> set ?qs" for a using q(3)[OF that] assms(7) by auto
    from sinter_sets_reply[OF u(2) assms(4) q(1) all, of i] obtain s' c' ts where
      r: "sinter_sets env s1 i c ?qs None = Some (s', c')" "rep s' B" "enumerates ts R"
      "replied env c (resp_header (CHR ''*'') (int (length ts)) @ bulks ts) c'" unfolding q(2) R_def by blast
    have "sinterGenericCommand env s i c ks None = Some (s', c')"
      unfolding sinterGenericCommand_def using u(1)[unfolded if_not_P[OF False]] r(1) by simp
    then show ?thesis using u(3,4) r(2-4) by blast
  qed
qed

lemma reply_elems_spec:
  assumes "cl_ok env c" "list_all elem_ok els" "list_all replyable (map elem_str els)"
  shows "\<exists>c'. reply_elems env c els = Some c' \<and> replied env c (bulks (map elem_str els)) c'"
  using assms
proof (induction els arbitrary: c)
  case Nil
  then show ?case by (simp add: replied_def out_only_def)
next
  case (Cons el els)
  from elem_obj_spec[of el "set_env.truncate env"] Cons.prems(2) obtain e where
    e: "elem_obj (set_env.truncate env) el = Some e" "obj_str e = elem_str el" "obj_ok e" by auto
  have "e \<noteq> ENC_INT Object.LONG_MIN" using replyable_obj[of e] e(2) Cons.prems(3) by simp
  with appends_bulk[of c "netenv env" e "char_junk env"] Cons.prems(1) e(3) obtain c1 where
    c1: "addReplyBulk (netenv env) (char_junk env) c e = Some c1" "replied env c (resp_bulk (elem_str el)) c1"
    by (auto simp: cl_ok_def replied_appends e(2))
  have "cl_ok env c1" using c1(2) by (simp add: replied_def)
  from Cons.IH[OF this] Cons.prems(2,3) obtain c2 where c2: "reply_elems env c1 els = Some c2" "replied env c1 (bulks (map elem_str els)) c2" by auto
  then show ?case using e(1) c1(1) replied_trans[OF c1(2) c2(2)] by simp
qed

lemma sunionDiff_reply:
  fixes op :: set_op
  assumes "rep s A" "ks_inv A" "i < aD A" "cl_ok env c" "qsort_ok env" "\<forall>k \<in> set ks. settled env (length ks) A (i, k)"
    "\<forall>k \<in> set ks. \<not> wrong_type env A (i, k)" "card (\<Union>k \<in> set ks. live_set env A (i, k)) < set_limit" "\<forall>k \<in> set ks. Ball (live_set env A (i, k)) replyable"
  defines "R \<equiv> op_result op (map (\<lambda>k. live_set env A (i, k)) ks)"
  shows "\<exists>s' c' A' ts. sunionDiffGenericCommand env s i c ks None op = Some (s', c') \<and> rep s' A' \<and> ks_inv A' \<and> a_val A' = val_after env i ks A \<and>
    enumerates ts R \<and> replied env c (resp_header (CHR ''*'') (int (length ts)) @ bulks ts) c'"
proof -
  let ?sets = "map (\<lambda>k. a_ptr env A (i, k)) ks"
  have nw: "\<not> (\<exists>k \<in> set ks. wrong_type env A (i, k))" using assms(7) by blast
  from union_sets_spec[OF assms(1) purged_refl[OF assms(2)] bspec[OF assms(6)] assms(3), of ks False "[]"] nw obtain s1 B where
    u: "union_sets env s i False ks [] = Some (s1, Sets ?sets)" "rep s1 B" "purged env (Pair i ` set ks) A B" by auto
  have B: "ks_inv B" "a_val B = val_after env i ks A" using u(3) by (auto simp: purged_def val_after_def)
  obtain s2 where s2: "createObject env s1 (V_set createIntsetObject) = (s2, aN B)" "rep s2 (a_new (A_set {}) B)"
    using create_spec[OF u(2) new_set_inv(1), of env] new_set_inv(2) by auto
  have fresh: "aH B (aN B) = None" using rep_fresh[OF u(2)] by simp
  from combine_spec[OF s2(2) u(2,3) _ assms(7,8,5), where op = op, folded R_def] obtain s3 where
    s3: "(case op of REDIS_OP_UNION \<Rightarrow> union_loop env s2 (aN B) 0 ?sets | REDIS_OP_DIFF \<Rightarrow> diff_sets env s2 (aN B) ?sets) = Some (s3, int (card R))"
    "rep s3 (a_new (A_set R) B)" "finite R" "card R < set_limit" by auto
  from heap_elements_spec[OF s3(2) a_new_simps(6)] obtain s4 els where
    s4: "heap_elements s3 (aN B) = Some (s4, els)" "rep s4 (a_new (A_set R) B)" "list_all elem_ok els" "enumerates (map elem_str els) R" by (auto simp: enumerates_def)
  have "R \<subseteq> (\<Union>k \<in> set ks. live_set env A (i, k))" unfolding R_def op_result_def by (cases op; cases ks) auto
  then have rp: "list_all replyable (map elem_str els)" using s4(4) assms(9) by (auto simp: enumerates_def list_all_iff)
  let ?n = "int (card R)"
  have n: "sint (word_of_int ?n :: u64) = ?n" using sint_of_nat_u64[of "card R"] s3(4) by (simp add: set_limit_def)
  from appends_mbulk_len[of c "netenv env" "word_of_int ?n" "char_junk env"] assms(4) n obtain c1 where
    c1: "addReplyMultiBulkLen (netenv env) (char_junk env) c (word_of_int ?n) = Some c1" "replied env c (resp_header (CHR ''*'') ?n) c1"
    by (auto simp: cl_ok_def replied_appends)
  have "cl_ok env c1" using c1(2) by (simp add: replied_def)
  from reply_elems_spec[OF this s4(3) rp] obtain c2 where c2: "reply_elems env c1 els = Some c2" "replied env c1 (bulks (map elem_str els)) c2" by blast
  have "aH (a_new (A_set R) B) (aN B) = Some (1, A_set R)" by (simp add: a_new_def)
  from decrRefCount_spec[OF s4(2) this] obtain s5 where s5: "decrRefCount s4 (aN B) = Some s5" "rep s5 (B\<lparr>aN := aN B + 1\<rparr>)"
    using a_decr_new[OF fresh] by auto
  have "sunionDiffGenericCommand env s i c ks None op = Some (s5, c2)"
    unfolding sunionDiffGenericCommand_def using u(1) s2(1) s3(1) s4(1) c1(1) c2(1) s5(1) by simp
  moreover have "replied env c (resp_header (CHR ''*'') (int (length (map elem_str els))) @ bulks (map elem_str els)) c2"
    using replied_trans[OF c1(2) c2(2)] enumerates_card[OF s4(4)] by simp
  ultimately show ?thesis using s5(2) B s4(4)
    by (intro exI[of _ s5] exI[of _ c2] exI[of _ "B\<lparr>aN := aN B + 1\<rparr>"] exI[of _ "map elem_str els"]) simp
qed

subsection \<open>Keys of another type\<close>

lemma wrong_obj:
  assumes "rep s B" "ks_inv B" "a_val B p = Some (A_other t)" "cl_ok env c"
  obtains a x c' where "aK B p = Some a" "objs s a = Some x" "oval x = V_other t" "checkType env s c a = Some (c', True)" "replied env c shared_wrongtypeerr c'"
proof -
  obtain a where a: "aK B p = Some a" using assms(3) by (auto simp: a_val_def split: option.splits)
  obtain c' where c': "reply_shared env c shared_wrongtypeerr = Some c'" "replied env c shared_wrongtypeerr c'"
    using reply_shared_spec[OF assms(4)] by (metis shared_short(5))
  from assms(1,2) a obtain x where "objs s a = Some x" "oval x = V_other t" by (rule val_obj) (use assms(3) in auto)
  then show thesis using that a c' by (simp add: checkType_def)
qed

text \<open>The lookups of a key of another type.\<close>

lemma wrong_lookup:
  assumes "rep s A" "ks_inv A" "i < aD A" "cl_ok env c" "wrong_type env A (i, key)"
  obtains s1 a c1 s2 b c2 where "lookupKeyWrite env s i key = Some (s1, Some a)" "checkType env s1 c a = Some (c1, True)"
    "rep s1 (fst (a_expire env (i, key) A))" "replied env c shared_wrongtypeerr c1"
    "lookupKeyRead env s i key = Some (s2, Some b)" "checkType env s2 c b = Some (c2, True)"
    "rep s2 (fst (a_expire env (i, key) A))" "replied env c shared_wrongtypeerr c2"
proof -
  let ?B = "fst (a_expire env (i, key) A)"
  have B: "ks_inv ?B" by (rule ks_inv_expire[OF assms(2)])
  have "a_val ?B (i, key) = a_live env A (i, key)" using a_val_expire(1)[OF ks_inv_ref[OF assms(2)]] by (simp add: a_live_def)
  then obtain t where v: "a_val ?B (i, key) = Some (A_other t)" using assms(5) by (auto simp: wrong_type_def)
  from lookupKeyWrite_spec[OF assms(1) ks_inv_ref[OF assms(2)] assms(3), of env key] obtain s1 where
    s1: "lookupKeyWrite env s i key = Some (s1, aK ?B (i, key))" "rep s1 ?B" by blast
  from lookupKeyRead_spec[OF assms(1) ks_inv_ref[OF assms(2)] assms(3), of env key] obtain s2 where
    s2: "lookupKeyRead env s i key = Some (s2, aK ?B (i, key))" "rep s2 ?B" by blast
  obtain a c1 where 1: "aK ?B (i, key) = Some a" "checkType env s1 c a = Some (c1, True)" "replied env c shared_wrongtypeerr c1"
    using wrong_obj[OF s1(2) B v assms(4)] by metis
  obtain c2 where 2: "checkType env s2 c a = Some (c2, True)" "replied env c shared_wrongtypeerr c2"
    using wrong_obj[OF s2(2) B v assms(4)] 1(1) by (metis option.inject)
  show thesis using that s1 s2 1 2 by simp
qed

text \<open>The commands on one set answer with the error and change nothing but an expired key.\<close>

definition refuses :: "srv_env \<Rightarrow> redisClient \<Rightarrow> astate \<Rightarrow> (redisServer \<times> redisClient) option \<Rightarrow> bool" where
  "refuses env c B r \<longleftrightarrow> (\<exists>s' c'. r = Some (s', c') \<and> rep s' B \<and> replied env c shared_wrongtypeerr c')"

lemma set_command_refuses:
  assumes "rep s A" "ks_inv A" "i < aD A" "cl_ok env c" "wrong_type env A (i, key)" "arr_get (argv c) 1 = Some key"
  defines "B \<equiv> fst (a_expire env (i, key) A)"
  shows "refuses env c B (saddCommand env s i c)" "refuses env c B (sremCommand env s i c)" "refuses env c B (scardCommand env s i c)"
    "arr_get (argv c) 2 = Some v \<Longrightarrow> refuses env c B (sismemberCommand env s i c)"
proof -
  obtain s1 a c1 s2 b c2 where w: "lookupKeyWrite env s i key = Some (s1, Some a)" "checkType env s1 c a = Some (c1, True)"
      "rep s1 B" "replied env c shared_wrongtypeerr c1"
    and r: "lookupKeyRead env s i key = Some (s2, Some b)" "checkType env s2 c b = Some (c2, True)" "rep s2 B" "replied env c shared_wrongtypeerr c2"
    unfolding B_def by (rule wrong_lookup[OF assms(1-5)])
  show "refuses env c B (saddCommand env s i c)" "refuses env c B (sremCommand env s i c)"
    using w assms(6) by (auto simp: refuses_def saddCommand_def sremCommand_def)
  show "refuses env c B (scardCommand env s i c)" using r assms(6) by (auto simp: refuses_def scardCommand_def)
  show "refuses env c B (sismemberCommand env s i c)" if "arr_get (argv c) 2 = Some v"
    using r assms(6) that by (auto simp: refuses_def sismemberCommand_def)
qed

lemma smove_wrong:
  assumes "rep s A" "ks_inv A" "i < aD A" "cl_ok env c" "argv c = [cmd, src, dst, v]" "settled env 2 A (i, src)" "settled env 2 A (i, dst)"
    "wrong_type env A (i, src) \<or> wrong_type env A (i, dst)"
  shows "\<exists>s' c' B t. smoveCommand env s i c = Some (s', c') \<and> rep s' B \<and> purged env {(i, dst), (i, src)} A B \<and> replied env c t c' \<and>
    t \<in> {shared_czero, shared_wrongtypeerr}"
proof -
  have args: "arr_get (argv c) 1 = Some src" "arr_get (argv c) 2 = Some dst" "arr_get (argv c) 3 = Some v" using assms(5) by (simp_all add: arr_get_def)
  have "aT A < aT A + 2" by simp
  from lookup_purged[OF assms(1) purged_refl[OF assms(2)] assms(6,3) this, of True] obtain s1 B1 where
    s1: "lookupKeyWrite env s i src = Some (s1, a_ptr env A (i, src))" "rep s1 B1" "purged env {(i, src)} A B1" "aT B1 < aT A + 2" by auto
  from lookup_purged[OF s1(2,3) assms(7,3) s1(4), of True] obtain s2 B where
    s2: "lookupKeyWrite env s1 i dst = Some (s2, a_ptr env A (i, dst))" "rep s2 B" "purged env {(i, dst), (i, src)} A B" by auto
  have B: "ks_inv B" using s2(3) by (simp add: purged_def)
  have K: "aK B (i, src) = a_ptr env A (i, src)" "a_val B (i, src) = a_live env A (i, src)"
    "aK B (i, dst) = a_ptr env A (i, dst)" "a_val B (i, dst) = a_live env A (i, dst)" using purged_ptr[OF s2(3)] by simp_all
  have fin: ?thesis if "smoveCommand env s i c = Some (s2, c')" "replied env c t c'" "t \<in> {shared_czero, shared_wrongtypeerr}" for c' t
    using that s2(2,3) by blast
  show ?thesis
  proof (cases "a_ptr env A (i, src)")
    case None
    obtain c' where c': "reply_shared env c shared_czero = Some c'" "replied env c shared_czero c'" using reply_shared_spec[OF assms(4)] shared_short(1) by blast
    then have "smoveCommand env s i c = Some (s2, c')" unfolding smoveCommand_def Let_def using args s1(1) s2(1) None by simp
    then show ?thesis using c'(2) fin by simp
  next
    case (Some a)
    show ?thesis
    proof (cases "wrong_type env A (i, src)")
      case True
      then obtain t where "a_val B (i, src) = Some (A_other t)" using K(2) by (auto simp: wrong_type_def)
      from wrong_obj[OF s2(2) B this assms(4)] obtain c' where
        c': "checkType env s2 c a = Some (c', True)" "replied env c shared_wrongtypeerr c'" using K(1) Some by (metis option.inject)
      then have "smoveCommand env s i c = Some (s2, c')" unfolding smoveCommand_def Let_def using args s1(1) s2(1) Some by simp
      then show ?thesis using c'(2) fin by simp
    next
      case False
      then obtain t where "a_val B (i, dst) = Some (A_other t)" using K(4) assms(8) by (auto simp: wrong_type_def)
      from wrong_obj[OF s2(2) B this assms(4)] obtain b c' where
        b: "a_ptr env A (i, dst) = Some b" "checkType env s2 c b = Some (c', True)" "replied env c shared_wrongtypeerr c'" using K(3) by metis
      have ct: "checkType env s2 c a = Some (c, False)" using ptr_set(2)[OF s2(2,3) _ False Some] checkType_set[OF s2(2)] by simp
      have "smoveCommand env s i c = Some (s2, c')" unfolding smoveCommand_def Let_def using args s1(1) s2(1) Some ct b(1,2) by simp
      then show ?thesis using b(3) fin by simp
    qed
  qed
qed

lemma inter_sets_wrong:
  assumes "rep s B" "purged env P A B" "\<forall>k \<in> set ks. settled env w A (i, k)" "i < aD A" "aT B + length ks \<le> aT A + w"
    "\<exists>k \<in> set ks. wrong_type env A (i, k)"
  shows "\<exists>s' r B' P'. inter_sets env s i store ks acc = Some (s', r) \<and> r \<in> {Missing, WrongType} \<and> rep s' B' \<and> purged env P' A B'"
  using assms(1-3,5,6)
proof (induction ks arbitrary: s B P acc)
  case (Cons k ks)
  have k: "settled env w A (i, k)" "\<forall>k \<in> set ks. settled env w A (i, k)" "aT B < aT A + w" using Cons.prems(3,4) by simp_all
  from lookup_purged[OF Cons.prems(1,2) k(1) assms(4) k(3), of store] obtain s1 B1 where
    l: "(if store then lookupKeyWrite env s i k else lookupKeyRead env s i k) = Some (s1, a_ptr env A (i, k))" "rep s1 B1"
    "purged env (insert (i, k) P) A B1" "aT B1 \<le> aT B + 1" by blast
  have tm: "aT B1 + length ks \<le> aT A + w" using Cons.prems(4) l(4) by simp
  have v: "aK B1 (i, k) = a_ptr env A (i, k)" "a_val B1 (i, k) = a_live env A (i, k)" using purged_ptr[OF l(3)] by simp_all
  have ks: "ks_inv B1" using l(3) by (simp add: purged_def)
  show ?case
  proof (cases "a_ptr env A (i, k)")
    case None
    then show ?thesis using l by auto
  next
    case (Some a)
    have a: "aK B1 (i, k) = Some a" using v(1) Some by simp
    from l(2) ks a show ?thesis
    proof (rule val_obj)
      fix so
      assume so: "a_val B1 (i, k) = Some (A_set (a_set B1 a))" "\<exists>x. objs s1 a = Some x \<and> oval x = V_set so"
      then have "\<exists>k \<in> set ks. wrong_type env A (i, k)" using Cons.prems(5) v(2) by (auto simp: wrong_type_def)
      note IH = Cons.IH[OF l(2,3) k(2) tm this, of "acc @ [Some a]"]
      have "inter_sets env s i store (k # ks) acc = inter_sets env s1 i store ks (acc @ [Some a])" using l(1) Some so(2) by auto
      then show ?thesis using IH by simp
    next
      fix x t
      assume "objs s1 a = Some x" "oval x = V_other t"
      then show ?thesis using l Some by auto
    qed
  qed
qed simp

subsection \<open>The table of commands\<close>

type_synonym redisCommandProc = "srv_env \<Rightarrow> redisServer \<Rightarrow> nat \<Rightarrow> redisClient \<Rightarrow> (redisServer \<times> redisClient) option"

record redisCommand =
  cname :: string
  proc :: redisCommandProc
  arity :: int

definition row :: "string \<Rightarrow> redisCommandProc \<Rightarrow> int \<Rightarrow> redisCommand" where
  "row n p k = \<lparr>cname = n, proc = p, arity = k\<rparr>"

text \<open>The rows of the commands that are modelled, in the order of the source.\<close>

definition table_del :: "redisCommand list" where
  "table_del = [row ''del'' delCommand (-2), row ''exists'' existsCommand 2]"

definition table_set :: "redisCommand list" where
  "table_set =
     [row ''sadd'' saddCommand (-3), row ''srem'' sremCommand (-3), row ''smove'' smoveCommand 4,
      row ''sismember'' sismemberCommand 3, row ''scard'' scardCommand 2]"

definition table_setop :: "redisCommand list" where
  "table_setop =
     [row ''sinter'' sinterCommand (-2), row ''sinterstore'' sinterstoreCommand (-3), row ''sunion'' sunionCommand (-2),
      row ''sunionstore'' sunionstoreCommand (-3), row ''sdiff'' sdiffCommand (-2), row ''sdiffstore'' sdiffstoreCommand (-3)]"

definition table_keys :: "redisCommand list" where
  "table_keys =
     [row ''move'' moveCommand 3, row ''rename'' renameCommand 3, row ''renamenx'' renamenxCommand 3, row ''expire'' expireCommand 3,
      row ''expireat'' expireatCommand 3, row ''pexpire'' pexpireCommand 3, row ''pexpireat'' pexpireatCommand 3]"

definition table_dbsize :: "redisCommand list" where
  "table_dbsize = [row ''dbsize'' dbsizeCommand 1]"

definition table_type :: "redisCommand list" where
  "table_type = [row ''type'' typeCommand 2]"

definition table_flushdb :: "redisCommand list" where
  "table_flushdb = [row ''flushdb'' flushdbCommand 1]"

definition table_ttl :: "redisCommand list" where
  "table_ttl = [row ''ttl'' ttlCommand 2, row ''pttl'' pttlCommand 2, row ''persist'' persistCommand 2]"

definition redisCommandTable :: "redisCommand list" where
  "redisCommandTable = table_del @ table_set @ table_setop @ table_keys @ table_dbsize @ table_type @ table_flushdb @ table_ttl"

text \<open>The test of the number of arguments, with the name of the command among them.\<close>

definition arity_ok :: "int \<Rightarrow> nat \<Rightarrow> bool" where
  "arity_ok ar argc \<longleftrightarrow> \<not> (ar > 0 \<and> ar \<noteq> int argc \<or> int argc < - ar)"

subsection \<open>What a request may rely on\<close>

definition elems_of :: "astate \<Rightarrow> string set" where
  "elems_of A = {t. \<exists>p S. a_val A p = Some (A_set S) \<and> t \<in> S}"

text \<open>
  The client takes replies, the arguments are short enough, tables and sets have room, no key expires
  in the middle of the command, and the sort function permutes.
\<close>

definition request_ok :: "srv_env \<Rightarrow> astate \<Rightarrow> nat \<Rightarrow> redisClient \<Rightarrow> bool" where
  "request_ok env A i c \<longleftrightarrow> cl_ok env c \<and> i < aD A \<and> args_ok (argv c) \<and> (\<forall>j. a_room A j) \<and> (\<forall>p. settled env (length (argv c)) A p) \<and>
     card (elems_of A \<union> set (argv c)) < set_limit \<and> (\<forall>t \<in> elems_of A. replyable t) \<and> qsort_ok env"

lemma request_okD:
  assumes "request_ok env A i c"
  shows "cl_ok env c" "i < aD A" "args_ok (argv c)" "a_room A j" "settled env (length (argv c)) A p"
    "card (elems_of A \<union> set (argv c)) < set_limit" "t \<in> elems_of A \<Longrightarrow> replyable t" "qsort_ok env"
  using assms unfolding request_ok_def by blast+

lemma settled_mono: "settled env w A p \<Longrightarrow> v \<le> w \<Longrightarrow> settled env v A p"
  by (auto simp: settled_def)

lemma live_sub: "live_set env A p \<subseteq> elems_of A"
proof
  fix t
  assume t: "t \<in> live_set env A p"
  then obtain S where S: "a_live env A p = Some (A_set S)" "t \<in> S" by (auto simp: live_set_def split: option.splits aval.splits)
  then have "a_val A p = Some (A_set S)" by (simp add: a_live_def split: if_splits)
  then show "t \<in> elems_of A" using S(2) unfolding elems_of_def by blast
qed

lemma elems_finite:
  assumes "rep s A" "ks_inv A"
  shows "finite (elems_of A)"
proof -
  have "elems_of A \<subseteq> (\<Union>p \<in> dom (aK A). a_set A (the (aK A p)))"
  proof
    fix t
    assume "t \<in> elems_of A"
    then obtain p S where t: "a_val A p = Some (A_set S)" "t \<in> S" unfolding elems_of_def by blast
    then obtain a n where "aK A p = Some a" "aH A a = Some (n, A_set S)" by (auto simp: a_val_def split: option.splits)
    then have "p \<in> dom (aK A)" "t \<in> a_set A (the (aK A p))" using t(2) by (simp_all add: a_set_def domI)
    then show "t \<in> (\<Union>p \<in> dom (aK A). a_set A (the (aK A p)))" by blast
  qed
  moreover have "finite (\<Union>p \<in> dom (aK A). a_set A (the (aK A p)))"
    using ref_okD(1)[OF ks_inv_ref[OF assms(2)]] a_set_finite[OF assms(1)] by blast
  ultimately show ?thesis by (rule finite_subset)
qed

lemma request_limit:
  assumes "rep s A" "ks_inv A" "request_ok env A i c" "S \<subseteq> elems_of A \<union> set (argv c)"
  shows "card S < set_limit"
proof -
  have "card S \<le> card (elems_of A \<union> set (argv c))" using elems_finite[OF assms(1,2)] assms(4) by (intro card_mono) auto
  then show ?thesis using request_okD(6)[OF assms(3)] by linarith
qed

lemma args_ok_sub: "args_ok vs \<Longrightarrow> set ws \<subseteq> set vs \<Longrightarrow> length ws \<le> length vs \<Longrightarrow> args_ok ws"
  by (auto simp: args_ok_def list_all_iff)

lemma purged_inv: "purged env P A B \<Longrightarrow> ks_inv B"
  by (simp add: purged_def)

lemma refuses_keeps: "ks_inv A \<Longrightarrow> refuses env c (fst (a_expire env p A)) r \<Longrightarrow> keeps env c r"
  using ks_inv_expire keepsI unfolding refuses_def by blast

subsection \<open>Every command keeps the invariant\<close>

lemma del_keeps:
  assumes "rep s A" "ks_inv A" "request_ok env A i c"
  shows "keeps env c (delCommand env s i c)"
proof -
  note q = request_okD[OF assms(3)]
  have "length (argv c) < 2 ^ 31" using q(3) by (simp add: args_ok_def)
  from delCommand_spec[OF assms(1,2) q(2,1) this] show ?thesis using keepsI by blast
qed

lemma exists_keeps:
  assumes "rep s A" "ks_inv A" "request_ok env A i c" "argv c = [cmd, key]"
  shows "keeps env c (existsCommand env s i c)"
  using existsCommand_spec[OF assms(1,2) request_okD(2,1)[OF assms(3)] assms(4)] keepsI by blast

lemma set_keeps:
  assumes "rep s A" "ks_inv A" "request_ok env A i c" "argv c = cmd # key # vs"
  shows "vs \<noteq> [] \<Longrightarrow> keeps env c (saddCommand env s i c)" "keeps env c (sremCommand env s i c)"
    "vs = [] \<Longrightarrow> keeps env c (scardCommand env s i c)" "vs = [v] \<Longrightarrow> keeps env c (sismemberCommand env s i c)"
proof -
  note q = request_okD[OF assms(3)]
  have key: "arr_get (argv c) 1 = Some key" using assms(4) by (simp add: arr_get_def)
  have vs: "args_ok vs" by (rule args_ok_sub[OF q(3)]) (use assms(4) in auto)
  have lim: "card (live_set env A (i, key) \<union> set vs) < set_limit" "card (live_set env A (i, key)) < set_limit"
    using live_sub[of env A "(i, key)"] assms(4) by (auto intro!: request_limit[OF assms(1-3)])
  note ex = ks_inv_expire[OF assms(2)]
  show "keeps env c (saddCommand env s i c)" if ne: "vs \<noteq> []"
  proof (cases "wrong_type env A (i, key)")
    case True
    from set_command_refuses(1)[OF assms(1,2) q(2,1) True key] show ?thesis by (rule refuses_keeps[OF assms(2)])
  next
    case False
    obtain v ws where w: "vs = v # ws" using ne by (cases vs) auto
    from saddCommand_spec[OF assms(1,2) q(2,1,4), of cmd key v ws] assms(4) vs False lim(1) w show ?thesis using keepsI by blast
  qed
  show "keeps env c (sremCommand env s i c)"
  proof (cases "wrong_type env A (i, key)")
    case True
    from set_command_refuses(2)[OF assms(1,2) q(2,1) True key] show ?thesis by (rule refuses_keeps[OF assms(2)])
  next
    case False
    from sremCommand_spec[OF assms(1,2) q(2,1) assms(4) vs False lim(2)] show ?thesis using keepsI by blast
  qed
  show "keeps env c (scardCommand env s i c)" if "vs = []"
  proof (cases "wrong_type env A (i, key)")
    case True
    from set_command_refuses(3)[OF assms(1,2) q(2,1) True key] show ?thesis by (rule refuses_keeps[OF assms(2)])
  next
    case False
    from scardCommand_spec[OF assms(1,2) q(2,1) _ False lim(2), of cmd] assms(4) that show ?thesis using keepsI ex by blast
  qed
  show "keeps env c (sismemberCommand env s i c)" if v: "vs = [v]"
  proof (cases "wrong_type env A (i, key)")
    case True
    have "arr_get (argv c) 2 = Some v" using assms(4) v by (simp add: arr_get_def)
    from set_command_refuses(4)[OF assms(1,2) q(2,1) True key this] show ?thesis by (rule refuses_keeps[OF assms(2)])
  next
    case False
    have "length v < 2 ^ 31" using vs v by (simp add: args_ok_def)
    from sismemberCommand_spec[OF assms(1,2) q(2,1) _ this False, of cmd] assms(4) v show ?thesis using keepsI ex by blast
  qed
qed

lemma smove_keeps:
  assumes "rep s A" "ks_inv A" "request_ok env A i c" "argv c = [cmd, src, dst, v]"
  shows "keeps env c (smoveCommand env s i c)"
proof -
  note q = request_okD[OF assms(3)]
  have st: "settled env 2 A p" for p by (rule settled_mono[OF q(5)]) (simp add: assms(4))
  have v: "length v < 2 ^ 31" using q(3) assms(4) by (simp add: args_ok_def)
  show ?thesis
  proof (cases "wrong_type env A (i, src) \<or> wrong_type env A (i, dst)")
    case True
    from smove_wrong[OF assms(1,2) q(2,1) assms(4) st st True] show ?thesis using keepsI purged_inv by blast
  next
    case False
    have "card (live_set env A (i, dst)) < set_limit" using live_sub[of env A "(i, dst)"] by (intro request_limit[OF assms(1-3)]) auto
    with smoveCommand_spec[OF assms(1,2) q(2,1,4) assms(4) v st st] False show ?thesis using keepsI by blast
  qed
qed

text \<open>The hypotheses of the set operations, from those of the request.\<close>

lemma request_sets:
  assumes "rep s A" "ks_inv A" "request_ok env A i c" "length ks \<le> length (argv c)"
  shows "settled env (length ks) A p" "card (\<Union>k \<in> set ks. live_set env A (i, k)) < set_limit" "card (live_set env A p) < set_limit"
    "Ball (live_set env A p) replyable"
proof -
  have sub: "live_set env A q \<subseteq> elems_of A \<union> set (argv c)" for q using live_sub[of env A q] by blast
  show "settled env (length ks) A p" by (rule settled_mono[OF request_okD(5)[OF assms(3)] assms(4)])
  show "card (\<Union>k \<in> set ks. live_set env A (i, k)) < set_limit" "card (live_set env A p) < set_limit"
    using sub by (blast intro: request_limit[OF assms(1-3)])+
  show "Ball (live_set env A p) replyable" using request_okD(7)[OF assms(3)] live_sub[of env A p] by blast
qed

lemma wrong_keeps:
  assumes "cl_ok env c" "rep s B" "ks_inv B" "r = do { c \<leftarrow> reply_shared env c shared_wrongtypeerr; Some (s, c) }"
  shows "keeps env c r"
  using reply_shared_spec[OF assms(1), of shared_wrongtypeerr] assms(2-4) keepsI[of r s _ B] shared_short(5) by fastforce

lemma sunionDiff_keeps:
  assumes "rep s A" "ks_inv A" "request_ok env A i c" "length ks \<le> length (argv c)"
  shows "keeps env c (sunionDiffGenericCommand env s i c ks dst op)"
proof -
  note q = request_okD[OF assms(3)] and r = request_sets[OF assms]
  show ?thesis
  proof (cases "\<exists>k \<in> set ks. wrong_type env A (i, k)")
    case True
    from union_sets_spec[OF assms(1) purged_refl[OF assms(2)] r(1) q(2), of ks "dst \<noteq> None" "[]"] True obtain s1 B P where
      u: "union_sets env s i (dst \<noteq> None) ks [] = Some (s1, WrongType)" "rep s1 B" "purged env P A B" by auto
    show ?thesis by (rule wrong_keeps[OF q(1) u(2) purged_inv[OF u(3)]]) (simp only: sunionDiffGenericCommand_def u(1) bind.bind_lunit prod.case lookup_res.case)
  next
    case False
    then have nw: "\<forall>k \<in> set ks. \<not> wrong_type env A (i, k)" by blast
    have rp: "\<forall>k \<in> set ks. Ball (live_set env A (i, k)) replyable" using r(4) by blast
    show ?thesis
    proof (cases dst)
      case None
      from sunionDiff_reply[OF assms(1,2) q(2,1,8) ballI[OF r(1)] nw r(2) rp, of op] show ?thesis unfolding None using keepsI by blast
    next
      case (Some d)
      from sunionDiff_store[OF assms(1,2) q(2,1,4,8) r(1) nw r(2), of d op] show ?thesis unfolding Some using keepsI by blast
    qed
  qed
qed

lemma sinter_keeps:
  assumes "rep s A" "ks_inv A" "request_ok env A i c" "length ks \<le> length (argv c)" "ks \<noteq> []"
  shows "keeps env c (sinterGenericCommand env s i c ks dst)"
proof -
  note q = request_okD[OF assms(3)] and r = request_sets[OF assms(1-4)]
  have st: "\<forall>k \<in> set ks. settled env (length ks) A (i, k)" using r(1) by blast
  show ?thesis
  proof (cases "\<exists>k \<in> set ks. wrong_type env A (i, k)")
    case True
    from inter_sets_wrong[OF assms(1) purged_refl[OF assms(2)] st q(2) le_refl True, of "dst \<noteq> None" "[]"] obtain s1 r B P where
      u: "inter_sets env s i (dst \<noteq> None) ks [] = Some (s1, r)" "r \<in> {Missing, WrongType}" "rep s1 B" "purged env P A B" by blast
    have B: "ks_inv B" "i < aD B" using u(4) q(2) by (simp_all add: purged_def)
    consider "r = WrongType" | "r = Missing" "dst = None" | d where "r = Missing" "dst = Some d" using u(2) by auto
    then show ?thesis
    proof cases
      case 1
      show ?thesis by (rule wrong_keeps[OF q(1) u(3) B(1)]) (simp only: sinterGenericCommand_def u(1) 1 bind.bind_lunit prod.case lookup_res.case)
    next
      case 2
      obtain c' where c': "reply_shared env c shared_emptymultibulk = Some c'" "replied env c shared_emptymultibulk c'"
        using reply_shared_spec[OF q(1)] by (metis shared_short(4))
      have "sinterGenericCommand env s i c ks dst = Some (s1, c')" unfolding sinterGenericCommand_def u(1) using 2 c'(1) by (simp add: sinter_missing_def)
      then show ?thesis using u(3) B(1) c'(2) by (rule keepsI)
    next
      case (3 d)
      have "sinterGenericCommand env s i c ks dst = sinter_missing env s1 i c (Some d)" unfolding sinterGenericCommand_def u(1) using 3 by simp
      then show ?thesis using sinter_missing_store[OF u(3) B q(1), of d] keepsI by metis
    qed
  next
    case False
    show ?thesis
    proof (cases dst)
      case None
      have "\<forall>k \<in> set ks. settled env (length ks) A (i, k) \<and> \<not> wrong_type env A (i, k) \<and> Ball (live_set env A (i, k)) replyable" using False r(1,4) by blast
      from sinter_reply[OF assms(1,2) q(2,1,8) assms(5) this] show ?thesis unfolding None using keepsI purged_inv by blast
    next
      case (Some d)
      have "\<forall>k \<in> set ks. settled env (length ks) A (i, k) \<and> \<not> wrong_type env A (i, k) \<and> card (live_set env A (i, k)) < set_limit" using False r(1,3) by blast
      from sinter_store[OF assms(1,2) q(2,1,4,8) assms(5) this, of d] show ?thesis unfolding Some using keepsI by blast
    qed
  qed
qed

lemma expireGeneric_keeps:
  assumes "rep s A" "ks_inv A" "i < aD A" "cl_ok env c" "argv c = [cmd, key, param]" "a_room A i"
  shows "keeps env c (expireGenericCommand env s i c basetime seconds)"
proof (cases "getLongLongFromObject (Some (ENC_RAW param))")
  case None
  let ?m = "''value is not an integer or out of range''"
  from appends_error[of c "netenv env" ?m] assms(4) obtain c' where
    c': "addReplyError (netenv env) c ?m = Some c'" "replied env c (''-ERR '' @ ?m @ crlf) c'" by (auto simp: cl_ok_def addReplyError_def replied_appends)
  have "arr_get (argv c) 1 = Some key" "arr_get (argv c) 2 = Some param" using assms(5) by (simp_all add: arr_get_def)
  then have "expireGenericCommand env s i c basetime seconds = Some (s, c')"
    using None c'(1) unfolding expireGenericCommand_def getLongLongFromObjectOrReply_def by simp
  then show ?thesis using assms(1,2) c'(2) by (rule keepsI)
next
  case (Some v)
  from expireGenericCommand_spec[OF assms Some, of basetime seconds] obtain s' c' A' t deleted where
    r: "expireGenericCommand env s i c basetime seconds = Some (s', c')" "rep s' A'" "ks_inv A'"
    "replied env (if deleted then c\<lparr>argv := [''DEL'', key]\<rparr> else c) t c'" by blast
  have "replied env (c\<lparr>argv := if deleted then [''DEL'', key] else argv c\<rparr>) t c'" using r(4) by (cases deleted) simp_all
  then show ?thesis unfolding keeps_def using r(1-3) by blast
qed

lemma expire_keeps:
  assumes "rep s A" "ks_inv A" "request_ok env A i c" "argv c = [cmd, key, param]"
  shows "keeps env c (expireCommand env s i c)" "keeps env c (pexpireCommand env s i c)"
    "keeps env c (expireatCommand env s i c)" "keeps env c (pexpireatCommand env s i c)"
proof -
  note q = request_okD[OF assms(3)]
  show "keeps env c (expireatCommand env s i c)" "keeps env c (pexpireatCommand env s i c)"
    unfolding expireatCommand_def pexpireatCommand_def by (intro expireGeneric_keeps[OF assms(1,2) q(2,1) assms(4) q(4)])+
  let ?A = "A\<lparr>aT := aT A + 1\<rparr>"
  from mstime_spec[OF assms(1), of env] obtain s1 where s1: "mstime env s = (s1, mstime_at env (aT A))" "rep s1 ?A" by blast
  have A: "ks_inv ?A" "i < aD ?A" "a_room ?A i" using assms(2) q(2) q(4)[of i] by (simp_all add: a_room_def)
  show "keeps env c (expireCommand env s i c)" "keeps env c (pexpireCommand env s i c)"
    unfolding expireCommand_def pexpireCommand_def s1(1) prod.case Let_def by (intro expireGeneric_keeps[OF s1(2) A(1,2) q(1) assms(4) A(3)])+
qed

lemma keys_keeps:
  assumes "rep s A" "ks_inv A" "request_ok env A i c"
  shows "argv c = [cmd, key, arg] \<Longrightarrow> keeps env c (moveCommand env s i c)"
    "argv c = [cmd, src, dst] \<Longrightarrow> keeps env c (renameCommand env s i c)" "argv c = [cmd, src, dst] \<Longrightarrow> keeps env c (renamenxCommand env s i c)"
    "argv c = [cmd, key] \<Longrightarrow> keeps env c (ttlCommand env s i c)" "argv c = [cmd, key] \<Longrightarrow> keeps env c (pttlCommand env s i c)"
    "argv c = [cmd, key] \<Longrightarrow> keeps env c (persistCommand env s i c)" "argv c = [cmd, key] \<Longrightarrow> keeps env c (typeCommand env s i c)"
    "keeps env c (dbsizeCommand env s i c)" "keeps env c (flushdbCommand env s i c)"
proof -
  note q = request_okD[OF assms(3)]
  show "keeps env c (moveCommand env s i c)" if "argv c = [cmd, key, arg]"
    using moveCommand_spec[OF assms(1,2) q(2,1) that q(4)] keepsI by blast
  show "keeps env c (renameCommand env s i c)" "keeps env c (renamenxCommand env s i c)" if "argv c = [cmd, src, dst]"
    unfolding renameCommand_def renamenxCommand_def using renameGenericCommand_spec[OF assms(1,2) q(2,1) that q(4)] keepsI by blast+
  show "keeps env c (ttlCommand env s i c)" "keeps env c (pttlCommand env s i c)" if "argv c = [cmd, key]"
    unfolding ttlCommand_def pttlCommand_def by (intro ttlGenericCommand_keeps[OF assms(1,2) q(2,1) that])+
  show "keeps env c (persistCommand env s i c)" "keeps env c (typeCommand env s i c)" if "argv c = [cmd, key]"
    using persistCommand_keeps[OF assms(1,2) q(2,1) that] typeCommand_keeps[OF assms(1,2) q(2,1) that] by blast+
  show "keeps env c (dbsizeCommand env s i c)" using dbsizeCommand_spec[OF assms(1) q(2,1)] keepsI[OF _ assms(1,2)] by blast
  show "keeps env c (flushdbCommand env s i c)" using flushdbCommand_spec[OF assms(1,2) q(2,1)] keepsI by blast
qed

text \<open>The shapes of the arguments that the test of their number admits.\<close>

lemma arity_shapes:
  "arity_ok 1 (length xs) \<longleftrightarrow> (\<exists>a. xs = [a])" "arity_ok 2 (length xs) \<longleftrightarrow> (\<exists>a b. xs = [a, b])" "arity_ok 3 (length xs) \<longleftrightarrow> (\<exists>a b d. xs = [a, b, d])"
  "arity_ok 4 (length xs) \<longleftrightarrow> (\<exists>a b d e. xs = [a, b, d, e])" "arity_ok (-2) (length xs) \<longleftrightarrow> (\<exists>a b ys. xs = a # b # ys)"
  "arity_ok (-3) (length xs) \<longleftrightarrow> (\<exists>a b d ys. xs = a # b # d # ys)"
proof -
  have l: "2 \<le> length xs \<longleftrightarrow> (\<exists>a b ys. xs = a # b # ys)" "3 \<le> length xs \<longleftrightarrow> (\<exists>a b d ys. xs = a # b # d # ys)"
    by (auto simp: Suc_le_length_iff numeral_2_eq_2 numeral_3_eq_3)
  show "arity_ok 1 (length xs) \<longleftrightarrow> (\<exists>a. xs = [a])" "arity_ok 2 (length xs) \<longleftrightarrow> (\<exists>a b. xs = [a, b])" "arity_ok 3 (length xs) \<longleftrightarrow> (\<exists>a b d. xs = [a, b, d])"
    "arity_ok 4 (length xs) \<longleftrightarrow> (\<exists>a b d e. xs = [a, b, d, e])"
    by (auto simp: arity_ok_def length_Suc_conv eval_nat_numeral)
  show "arity_ok (-2) (length xs) \<longleftrightarrow> (\<exists>a b ys. xs = a # b # ys)" "arity_ok (-3) (length xs) \<longleftrightarrow> (\<exists>a b d ys. xs = a # b # d # ys)"
    unfolding l[symmetric] by (auto simp: arity_ok_def)
qed

lemma setop_keeps:
  assumes "rep s A" "ks_inv A" "request_ok env A i c"
  shows "argv c = cmd # k # ks \<Longrightarrow> keeps env c (sinterCommand env s i c)" "argv c = cmd # k # ks \<Longrightarrow> keeps env c (sunionCommand env s i c)"
    "argv c = cmd # k # ks \<Longrightarrow> keeps env c (sdiffCommand env s i c)" "argv c = cmd # dst # k # ks \<Longrightarrow> keeps env c (sinterstoreCommand env s i c)"
    "argv c = cmd # dst # k # ks \<Longrightarrow> keeps env c (sunionstoreCommand env s i c)" "argv c = cmd # dst # k # ks \<Longrightarrow> keeps env c (sdiffstoreCommand env s i c)"
  using sinter_keeps[OF assms, of "k # ks"] sunionDiff_keeps[OF assms, of "k # ks"]
  by (simp_all add: sinterCommand_def sunionCommand_def sdiffCommand_def sinterstoreCommand_def sunionstoreCommand_def sdiffstoreCommand_def arr_get_def)

lemmas table_defs = redisCommandTable_def table_del_def table_set_def table_setop_def table_keys_def table_dbsize_def table_type_def
  table_flushdb_def table_ttl_def row_def

lemma command_keeps:
  assumes "rep s A" "ks_inv A" "request_ok env A i c" "r \<in> set redisCommandTable" "arity_ok (arity r) (length (argv c))"
  shows "keeps env c (proc r env s i c)"
proof -
  note k = del_keeps[OF assms(1-3)] exists_keeps[OF assms(1-3)] set_keeps[OF assms(1-3)] smove_keeps[OF assms(1-3)] setop_keeps[OF assms(1-3)]
    expire_keeps[OF assms(1-3)] keys_keeps[OF assms(1-3)]
  have "list_all (\<lambda>r. arity_ok (arity r) (length (argv c)) \<longrightarrow> keeps env c (proc r env s i c)) redisCommandTable"
    unfolding table_defs append_Cons append_Nil list.pred_inject redisCommand.select_convs arity_shapes
    by (intro conjI impI; (elim exE)?) (auto intro: k)
  then show ?thesis using assms(4,5) by (auto simp: list_all_iff)
qed

text \<open>
  The states that a server reaches: it starts empty, other commands add keys that hold values of
  other types (an object is created and linked under a key that does not exist), and requests for the
  commands of the table are executed.
\<close>

inductive ks_reach :: "srv_env \<Rightarrow> redisServer \<Rightarrow> bool" for env where
  start: "ks_reach env (init_server env n)"
| other: "ks_reach env s \<Longrightarrow> i < aD (absv s) \<Longrightarrow> aK (absv s) (i, k) = None \<Longrightarrow> a_room (absv s) i \<Longrightarrow>
    createObject env s (V_other t) = (s1, a) \<Longrightarrow> dbAdd env s1 i k a = Some s' \<Longrightarrow> ks_reach env s'"
| command: "ks_reach env s \<Longrightarrow> request_ok env (absv s) i c \<Longrightarrow> r \<in> set redisCommandTable \<Longrightarrow> arity_ok (arity r) (length (argv c)) \<Longrightarrow>
    proc r env s i c = Some (s', c') \<Longrightarrow> ks_reach env s'"

lemma rep_absv: "rep s (absv s) \<longleftrightarrow> srv_ok s"
  by (simp add: rep_def)

lemma rep_eq: "rep s A \<Longrightarrow> absv s = A"
  by (simp add: rep_def)

lemma reach_inv: "ks_reach env s \<Longrightarrow> rep s (absv s) \<and> ks_inv (absv s)"
proof (induction rule: ks_reach.induct)
  case (start n)
  show ?case using init_rep[of env n] init_inv[of n] rep_eq[OF init_rep[of env n]] by simp
next
  case (other s i k t s1 a s')
  from other.IH other.hyps(2-4) obtain s1' a' s'' A' where r: "createObject env s (V_other t) = (s1', a')" "dbAdd env s1' i k a' = Some s''" "rep s'' A'" "ks_inv A'"
    using add_other[of s "absv s" i k env t] by metis
  then have "s'' = s'" using other.hyps(5,6) by simp
  then show ?case using r(3,4) rep_eq[OF r(3)] by simp
next
  case (command s i c r s' c')
  from command_keeps[OF conjunct1[OF command.IH] conjunct2[OF command.IH] command.hyps(2-4)] obtain A' where r: "rep s' A'" "ks_inv A'"
    using command.hyps(5) by (auto simp: keeps_def)
  then show ?case using rep_eq[OF r(1)] by simp
qed


lemma init_request:
  assumes "args_ok xs" "length xs < 100"
  shows "request_ok idle_env (absv (init_server idle_env 1)) 0 (new_client\<lparr>argv := xs\<rparr>)"
proof -
  have a: "absv (init_server idle_env 1) = a_init 1" by (rule rep_eq[OF init_rep])
  have "elems_of (a_init 1) = {}" by (auto simp: elems_of_def a_val_def a_init_def)
  moreover have "card (set xs) < set_limit" using card_length[of xs] assms(2) by (simp add: set_limit_def)
  moreover have "a_room (a_init 1) j" for j by (simp add: a_room_def a_init_def dict_max_def)
  moreover have "aD (a_init 1) = 1" by (simp add: a_init_def)
  ultimately show ?thesis unfolding request_ok_def a using assms(1) idle_client idle_settled idle_qsort by (intro conjI allI ballI) simp_all
qed


text \<open>
  C13. What SINTER, SUNION and SDIFF send is the length and then each element of the intersection, the
  union or the difference exactly once, also when the length is only known after the elements
  (SINTER); the values are not changed.  The text of the least 32-bit integer is excluded: there the
  computation of the length of its reply overflows.
\<close>

theorem setop_reply_exact:
  assumes "rep s A" "ks_inv A" "i < aD A" "cl_ok env c" "qsort_ok env" "argv c = cmd # ks" "ks \<noteq> []"
    "\<forall>k \<in> set ks. settled env (length ks) A (i, k) \<and> \<not> wrong_type env A (i, k) \<and> Ball (live_set env A (i, k)) replyable"
    "card (\<Union>k \<in> set ks. live_set env A (i, k)) < set_limit"
    "(f, R) \<in> {(sinterCommand, \<Inter>k \<in> set ks. live_set env A (i, k)), (sunionCommand, \<Union>k \<in> set ks. live_set env A (i, k)),
      (sdiffCommand, live_set env A (i, hd ks) - (\<Union>k \<in> set (tl ks). live_set env A (i, k)))}"
  shows "\<exists>s' c' A' P ts. f env s i c = Some (s', c') \<and> rep s' A' \<and> ks_inv A' \<and> P \<subseteq> Pair i ` set ks \<and>
    a_val A' = (\<lambda>p. if p \<in> P \<and> a_gone env p A then None else a_val A p) \<and>
    distinct ts \<and> set ts = R \<and> replied env c (resp_header (CHR ''*'') (int (length ts)) @ concat (map resp_bulk ts)) c'"
proof -
  have tl: "tl (argv c) = ks" using assms(6) by simp
  have st: "\<forall>k \<in> set ks. settled env (length ks) A (i, k)" "\<forall>k \<in> set ks. \<not> wrong_type env A (i, k)"
    "\<forall>k \<in> set ks. Ball (live_set env A (i, k)) replyable" using assms(8) by blast+
  have va: "val_after env i ks A = (\<lambda>p. if p \<in> Pair i ` set ks \<and> a_gone env p A then None else a_val A p)" by (simp add: val_after_def fun_eq_iff)
  have u: ?thesis if f: "f env s i c = sunionDiffGenericCommand env s i c ks None op" and R: "R = op_result op (map (\<lambda>k. live_set env A (i, k)) ks)" for op
  proof -
    from sunionDiff_reply[OF assms(1-5) st(1,2) assms(9) st(3), of op] obtain s' c' A' ts where
      "sunionDiffGenericCommand env s i c ks None op = Some (s', c')" "rep s' A'" "ks_inv A'" "a_val A' = val_after env i ks A"
      "enumerates ts R" "replied env c (resp_header (CHR ''*'') (int (length ts)) @ bulks ts) c'" unfolding R[symmetric] by (elim exE conjE) (rule that)
    then show ?thesis unfolding f va enumerates_def bulks_def
      by (intro exI[of _ s'] exI[of _ c'] exI[of _ A'] exI[of _ "Pair i ` set ks"] exI[of _ ts] conjI) simp_all
  qed
  obtain k0 ks' where ks: "ks = k0 # ks'" using assms(7) by (cases ks) auto
  consider "f = sinterCommand" "R = (\<Inter>k \<in> set ks. live_set env A (i, k))" | "f = sunionCommand" "R = (\<Union>k \<in> set ks. live_set env A (i, k))"
    | "f = sdiffCommand" "R = live_set env A (i, k0) - (\<Union>k \<in> set ks'. live_set env A (i, k))" using assms(10) ks by auto
  then show ?thesis
  proof cases
    case 1
    from sinter_reply[OF assms(1-5,7,8)] obtain s' c' A' P ts where
      "sinterGenericCommand env s i c ks None = Some (s', c')" "rep s' A'" "purged env P A A'" "P \<subseteq> Pair i ` set ks"
      "enumerates ts R" "replied env c (resp_header (CHR ''*'') (int (length ts)) @ bulks ts) c'" unfolding 1(2)[symmetric] by (elim exE conjE) (rule that)
    then show ?thesis unfolding 1(1) sinterCommand_def tl purged_def enumerates_def bulks_def
      by (intro exI[of _ s'] exI[of _ c'] exI[of _ A'] exI[of _ P] exI[of _ ts] conjI) simp_all
  next
    case 2
    show ?thesis by (rule u[of REDIS_OP_UNION]) (simp_all add: 2 sunionCommand_def tl op_result_def)
  next
    case 3
    show ?thesis by (rule u[of REDIS_OP_DIFF]) (simp_all add: 3 sdiffCommand_def tl op_result_def ks)
  qed
qed

lemma single: "distinct ts \<Longrightarrow> set ts = {x} \<Longrightarrow> ts = [x]"
  by (cases ts; cases "tl ts") auto

theorem setop_reply_exact_witness:
  "\<exists>s A s' c'. rep s A \<and> a_val A = [(0, ''a'') \<mapsto> A_set {''1'', ''2''}, (0, ''b'') \<mapsto> A_set {''2'', ''x''}] \<and>
    sinterCommand idle_env s 0 (new_client\<lparr>argv := [''sinter'', ''a'', ''b'']\<rparr>) = Some (s', c') \<and>
    pending c' = ''*1'' @ crlf @ resp_bulk ''2''"
proof -
  obtain s A where k: "rep s A" "ks_inv A" "aD A = 1" "aE A = Map.empty" "\<forall>i. a_room A i"
    "a_val A = [(0, ''a'') \<mapsto> A_set {''1'', ''2''}, (0, ''b'') \<mapsto> A_set {''2'', ''x''}]" by (rule two_sets)
  note l = two_sets_live[OF k(4,6), of idle_env]
  let ?ks = "[''a'', ''b'']" and ?c = "new_client\<lparr>argv := [''sinter'', ''a'', ''b'']\<rparr>" and ?L = "\<lambda>k. live_set idle_env A (0, k)"
  have rp: "replyable ''1''" "replyable ''2''" "replyable ''x''" by (simp_all add: replyable_unsigned)
  have U: "(\<Union>k \<in> set ?ks. ?L k) = {''1'', ''2'', ''x''}" using l(1,2) by auto
  have "card {''1'', ''2'', ''x''} \<le> 3" by (simp add: card_insert_if)
  then have h: "0 < aD A" "argv ?c = ''sinter'' # ?ks" "?ks \<noteq> []" "card (\<Union>k \<in> set ?ks. ?L k) < set_limit"
    "\<forall>k \<in> set ?ks. settled idle_env (length ?ks) A (0, k) \<and> \<not> wrong_type idle_env A (0, k) \<and> Ball (?L k) replyable"
    using k(3,5) U l idle_settled rp by (simp_all add: set_limit_def)
  have "(sinterCommand, \<Inter>k \<in> set ?ks. ?L k) \<in> {(sinterCommand, \<Inter>k \<in> set ?ks. ?L k), (sunionCommand, \<Union>k \<in> set ?ks. ?L k),
    (sdiffCommand, ?L (hd ?ks) - (\<Union>k \<in> set (tl ?ks). ?L k))}" by simp
  from setop_reply_exact[OF k(1,2) h(1) idle_client idle_qsort h(2,3,5,4) this] obtain s' c' A' P ts where
    r: "sinterCommand idle_env s 0 ?c = Some (s', c')" "rep s' A'" "ks_inv A'" "P \<subseteq> Pair 0 ` set ?ks"
    "a_val A' = (\<lambda>p. if p \<in> P \<and> a_gone idle_env p A then None else a_val A p)" "distinct ts" "set ts = (\<Inter>k \<in> set ?ks. ?L k)"
    "replied idle_env ?c (resp_header (CHR ''*'') (int (length ts)) @ concat (map resp_bulk ts)) c'" by (elim exE conjE) (rule that)
  have "(\<Inter>k \<in> set ?ks. ?L k) = {''2''}" using l(1,2) by auto
  then have ts: "ts = [''2'']" using single[OF r(6), of "''2''"] r(7) by simp
  have "resp_header (CHR ''*'') 1 = ''*1'' @ crlf"
    by (simp add: resp_header_def dec_int_def dec_nat.simps[of "Suc 0"] digit_char_def char_of_def bit_simps)
  then have "pending c' = ''*1'' @ crlf @ resp_bulk ''2''" using r(8) ts new_client_ok(3) by (simp add: replied_def pending_def queued_def)
  then show ?thesis using k(1,6) r(1) by blast
qed

end
