(* ===== verification/Spec2Isabelle.thy ===== *)
theory Spec2Isabelle
  imports Util Intset Dict DictScan Pbuf Udp TcpApi Tcp EthDriver Board Sds SdsText Object Reply Query Replication KeySpace
begin

text \<open>
  The system under \<open>src/\<close> measures and controls a device over a network.  A concentrator (firmware
  for an STM32F4 board, \<open>src/concentrator-1/Src\<close>, on the LwIP stack and the hardware library of the
  vendor) sends samples of a converter over UDP and a greeting over TCP, both framed in the Redis
  protocol, and receives set points for a PWM output.  A Redis server (version 2.8 for Windows,
  \<open>src/redis/src\<close>) stores and distributes values.  A web server in JavaScript (\<open>src/server\<close>) shows
  them.  The library models the C code: the firmware and what it uses of LwIP and of the Ethernet
  driver, and of Redis its data structures, strings, client connections, replication, the key space
  and the commands on keys and sets.

  \<^bold>\<open>How the code is represented.\<close>  C structures are records, enumerations and unions are datatypes,
  machine integers are words where they can wrap around.  Memory is a list of bytes or characters:
  reading or writing outside it, following a null pointer, a failed assertion and a loop that does
  not end are the result \<open>None\<close>, so that every theorem that states a result \<open>Some\<close> also states that
  the code stays inside its memory and returns.  Loops are recursive functions with a termination
  proof, or \<open>partial_function\<close> where a loop may run forever; then the theorems show that it does not.
  There is no fuel.  Uninitialised memory is an argument \<open>junk\<close>.  Code outside the model is a
  parameter with a contract: \<open>udp_send\<close> (\<open>udp_send_keeps\<close>), \<open>tcp_write\<close> (\<open>tcp_write_contract\<close>), the
  transceiver registers, the tick and the status of hardware calls (\<open>Board\<close>), \<open>write\<close>
  (\<open>write_contract\<close>), the event loop, the limits and the clock (\<open>net_env\<close>), the execution of a
  command (\<open>commands_run\<close>), \<open>qsort\<close> (\<open>qsort_ok\<close>), random numbers and the user callbacks of a hash
  table (\<open>type_ok\<close>).
  Each of them is instantiated in a witness.

  \<^bold>\<open>Theories.\<close>
  \<^item> \<open>Prelude\<close>: bytes, memory, decimal numbers.  \<open>Interfaces\<close>: the contracts between components as
    locales: maps, sets, and buffers that are appended to, with the lemmas that their clients use.
  \<^item> \<open>Util\<close> (\<open>util.c\<close>): conversion between integers and text; \<open>string2ll\<close> accepts exactly the
    canonical texts, and printing and parsing are inverse.
  \<^item> \<open>Intset\<close> (\<open>intset.c\<close>): sorted sets of integers in one block with an encoding that grows, as an
    implementation of sets.
  \<^item> \<open>Dict\<close>, \<open>DictScan\<close> (\<open>dict.c\<close>): hash tables with incremental rehashing as an implementation of
    maps; iteration, and the completeness of the stateless scan with its limits.
  \<^item> \<open>Sds\<close>, \<open>SdsText\<close> (\<open>sds.c\<close>): dynamic strings as an implementation of lists of bytes; joining,
    splitting, quoting, number formatting and comparison.
  \<^item> \<open>Object\<close> (\<open>object.c\<close>): string objects in two encodings that no operation tells apart.
  \<^item> \<open>Reply\<close> (\<open>networking.c\<close>): the output side of a client.  What a client has still to receive is
    one list of bytes; the framing functions append to it, the write handlers take from it.  The
    overlapped sends of the Windows build are a state machine with the bytes in flight.
  \<^item> \<open>Query\<close> (\<open>networking.c\<close>): the input side: inline and multi bulk requests, protocol errors, the
    input loop and the read handler.  A stream of commands is read the same in whatever pieces.
  \<^item> \<open>Replication\<close> (\<open>replication.c\<close>): the circular backlog as a window on the replication stream, the
    feeding of slaves and monitors, partial resynchronization.
  \<^item> \<open>SetType\<close> (\<open>t_set.c\<close>): the set type, an integer set that becomes a hash table, as one implementation
    of sets of strings.  \<open>Db\<close> (\<open>db.c\<close>, \<open>object.c\<close>): databases, expiration, objects with reference counts
    in a store of their own, and the commands on keys; \<open>rep\<close> relates a server to an abstract key space
    (\<open>astate\<close>), \<open>ks_inv\<close> is its invariant, and every operation refines one on the abstract side
    (\<open>a_delete\<close>, \<open>a_expire\<close>, \<open>a_link\<close>).  \<open>SetCmd\<close> (\<open>t_set.c\<close>): the commands on sets.  \<open>KeySpace\<close> (\<open>redis.c\<close>):
    replies of the set operations, keys of the wrong type, the rows of the command table and the
    states that a server reaches.
  \<^item> \<open>Pbuf\<close> (LwIP \<open>pbuf.c\<close>, \<open>memp.c\<close>): chains of packet buffers with reference counts in a heap and the
    free lists of the pools.  \<open>TcpApi\<close> (LwIP \<open>tcp.c\<close>): control blocks, ports, the receive window.
  \<^item> \<open>Cstr\<close>, \<open>Udp\<close> (\<open>udp.c\<close>, \<open>resp.c\<close>), \<open>Tcp\<close> (\<open>tcp.c\<close>): C strings and the two clients of the firmware.
  \<^item> \<open>EthDriver\<close> (\<open>ethernetif.c\<close>, \<open>stm32f4xx_hal_eth.c\<close>): frames and the rings of DMA descriptors.
  \<^item> \<open>Board\<close> (\<open>main.c\<close>, \<open>app_ethernet.c\<close>, \<open>ethernetif.c\<close>, LwIP \<open>netif.c\<close>): start of the program, link
    changes, clocks, timers and callbacks.
  \<^item> This theory: the frames of the firmware as requests of the server.

  \<^bold>\<open>What the theorems show.\<close>  For each data structure a refinement: programs of operations behave as
  on the abstract value (\<open>dict_refines_map\<close>, \<open>intset_batch_then_find\<close>, \<open>sds_refines_lists\<close>,
  \<open>set_type_refines_sets\<close>) and keep the invariant.  For the key space, that the commands do on keys and
  sets of strings what they should (\<open>setop_store_exact\<close>, \<open>sinterstore_exact\<close>, \<open>setop_reply_exact\<close>,
  \<open>smove_moves_element\<close>, \<open>rename_moves_value_and_expire\<close>) and that every sequence of them keeps the
  reference counts exact and the server answering (\<open>key_space_safe\<close>).  For the protocol code, that the bytes are right from end to end: what is formatted
  is parsed back (\<open>commands_any_reads\<close>, \<open>replication_faithful\<close>, \<open>monitor_line_roundtrip\<close>,
  \<open>firmware_frames_are_commands\<close>), what is accepted is sent exactly once and in order
  (\<open>conn_no_loss\<close>), and what the backlog sends again is the stream (\<open>backlog_resends_stream\<close>,
  \<open>psync_continues\<close>).  For the firmware, that packets are built, sent and received without losing
  bytes or buffers, and that the control output follows the set point.  Where the code does not do
  what it means to do, a theorem shows it: \<open>dictScan_misses_on_shrink\<close>, \<open>waiting_slave_falls_behind\<close>,
  \<open>processInlineBuffer_line_ends\<close>, \<open>getLongLong_accepts_empty\<close>, \<open>pbuf_memfind_incomplete\<close>,
  \<open>smove_expiring_key_dangles\<close>, \<open>expire_overflow_deletes\<close>, \<open>move_drops_expire\<close>,
  \<open>connected_leaks_packet\<close>, \<open>connected_without_buffer\<close>, \<open>connect_failure_dangles\<close>,
  \<open>udp_receive_negative_is_full\<close>, \<open>udp_receive_overrun\<close>, \<open>resp_strings\<close>,
  \<open>low_level_output_drops_when_locked\<close>.

  \<^bold>\<open>Bounds.\<close>  An integer of type \<open>long\<close> has 32 bits, as in the Windows build.  Arguments of commands
  are bounded by the limits of the protocol itself (512 MB, 1048576 arguments), strings by their
  32-bit length fields, hash tables by what a signed 32-bit index reaches (\<open>dict_max\<close>), sets by what
  the conversion to a hash table can hold (\<open>set_limit\<close>).  A command that looks up several keys reads the
  clock each time: its theorems assume that these readings agree (\<open>settled\<close>), and
  \<open>smove_expiring_key_dangles\<close> shows what happens otherwise.

  \<^bold>\<open>Not modelled.\<close>  The other value types and commands of Redis (of the set commands SPOP, SRANDMEMBER
  and SSCAN; of the key commands KEYS, SCAN, RANDOMKEY and FLUSHALL), the checks of a request between
  the lookup of the command and its execution, transactions and notifications, of which only the
  events are recorded, persistence, scripting, Sentinel and
  the tools; the event loop, sockets, files and processes; the full synchronization of slaves;
  functions with variable arguments or floating point; the protocols inside LwIP below the
  functions the firmware calls; interrupt vectors, register access and the rest of the hardware
  library; the web server, which is not C.
\<close>

subsection \<open>The frames of the concentrator as requests\<close>

lemma length_DEVICE_UID: "length DEVICE_UID = 11"
  by (simp add: DEVICE_UID_def)

lemma dec_nat_small: "dec_nat 2 = ''2''" "dec_nat 4 = ''4''" "dec_nat 11 = ''11''"
  by code_simp+

lemma encode_pair: "encode [a, b] = ''*2'' @ crlf @ resp_bulk a @ resp_bulk b"
proof -
  have "length [a, b] = 2" by simp
  then show ?thesis unfolding encode_def by (simp add: dec_nat_small del: length_Cons list.size)
qed

lemma ping_text_encode: "ping_text = encode [''PING'', DEVICE_UID]"
proof -
  have "length ''PING'' = 4" by simp
  then show ?thesis unfolding encode_pair resp_bulk_alt length_DEVICE_UID
    by (simp add: ping_text_def crlf_def dec_nat_small del: length_Cons list.size)
qed

lemma sample_text_encode:
  assumes "unat v \<le> 9999"
  shows "sample_text v = encode [DEVICE_UID, fmt_04d (unat v)]"
proof -
  have "length (dec_nat (unat v)) \<le> 4" using assms by (intro length_dec_nat_le) simp_all
  then have "length (fmt_04d (unat v)) = 4" by (simp add: length_fmt_04d)
  then show ?thesis unfolding encode_pair resp_bulk_alt length_DEVICE_UID by (simp add: sample_text_def crlf_def dec_nat_small)
qed



end
